(* ===== verification/Ape_Prelude.thy ===== *)
theory Ape_Prelude
  imports Complex_Main "HOL-Library.Word" "HOL-Library.Monad_Syntax"
begin

text \<open>
  Shared ground of the development: the collections of simplification rules the component
  theories fill, the C character functions the server uses (\<open>tolower\<close>, \<open>strcasecmp\<close>), the
  machine integer types, and generic lemmas on options, lists and maps.

  Conventions of the whole development.
  \<^item> A C string (\<open>char *\<close> up to its terminating NUL) is a \<open>string\<close>; its characters are bytes.
  \<^item> A pointer into a heap of one kind of structure is a natural number, the heap is a partial map,
    \<open>free\<close> removes the cell, and NULL is \<open>None\<close> of an \<open>option\<close>.
  \<^item> An operation that may dereference a dangling or NULL pointer, or may loop for ever, returns an
    \<open>option\<close>: \<open>None\<close> stands for undefined behaviour or non-termination, so a theorem that the
    result is \<open>Some\<close> states memory safety and termination.
  \<^item> \<open>xmalloc\<close> ends the process when memory is exhausted, hence every allocation of the model succeeds.
\<close>

unbundle bit_operations_syntax

named_theorems ape_defs \<open>operations to be unfolded in a single-step proof\<close>
named_theorems ape_frame \<open>what an operation leaves unchanged\<close>
named_theorems ape_wf \<open>well-formedness kept by an operation\<close>

type_synonym u8 = "8 word"
type_synonym u16 = "16 word"
type_synonym u32 = "32 word"
type_synonym u64 = "64 word"

section \<open>Characters and case-insensitive comparison\<close>

text \<open>\<open>tolower\<close> in the C locale: only the letters A to Z change.\<close>

definition tolower :: "char \<Rightarrow> char" where
  "tolower c =
     (let n = (of_char c :: nat) in if 65 \<le> n \<and> n \<le> 90 then char_of (n + 32) else c)"

abbreviation casefold :: "string \<Rightarrow> string" where
  "casefold s \<equiv> map tolower s"

text \<open>\<open>isdigit\<close>.\<close>

definition is_digit :: "char \<Rightarrow> bool" where
  "is_digit c \<longleftrightarrow> 48 \<le> (of_char c :: nat) \<and> (of_char c :: nat) \<le> 57"

text \<open>\<open>strcasecmp(a, b) == 0\<close>.\<close>

definition strcaseeq :: "string \<Rightarrow> string \<Rightarrow> bool" where
  "strcaseeq a b \<longleftrightarrow> casefold a = casefold b"

lemma of_char_less: "(of_char c :: nat) < 256"
  by (metis of_char_mod_256 mod_less_divisor zero_less_numeral)

lemma tolower_idem [simp]: "tolower (tolower c) = tolower c"
  by (auto simp: tolower_def Let_def)

lemma strcaseeq_refl [simp]: "strcaseeq a a"
  by (simp add: strcaseeq_def)

lemma strcaseeq_sym: "strcaseeq a b \<Longrightarrow> strcaseeq b a"
  by (simp add: strcaseeq_def)

lemma strcaseeq_trans: "strcaseeq a b \<Longrightarrow> strcaseeq b c \<Longrightarrow> strcaseeq a c"
  by (simp add: strcaseeq_def)

lemma strcaseeq_cong: "strcaseeq a b \<Longrightarrow> strcaseeq c a \<longleftrightarrow> strcaseeq c b"
  by (simp add: strcaseeq_def)

section \<open>Options and lists\<close>

lemma bind_SomeE:
  assumes "Option.bind m f = Some r"
  obtains x where "m = Some x" and "f x = Some r"
  using assms by (cases m) auto

lemma find_eq_None_conv: "find P xs = None \<longleftrightarrow> (\<forall>x \<in> set xs. \<not> P x)"
  by (induction xs) auto

lemma find_SomeD: "find P xs = Some x \<Longrightarrow> x \<in> set xs \<and> P x"
  by (induction xs) (auto split: if_splits)

lemma find_cong_on: "(\<And>x. x \<in> set xs \<Longrightarrow> P x = Q x) \<Longrightarrow> find P xs = find Q xs"
  by (induction xs) auto

lemma find_remove1_other:
  assumes "\<not> P a"
  shows "find P (remove1 a xs) = find P xs"
  using assms by (induction xs) auto

lemma find_remove1_unique:
  assumes "distinct xs" and "a \<in> set xs" and "P a" and "\<And>x. x \<in> set xs \<Longrightarrow> P x \<Longrightarrow> x = a"
  shows "find P (remove1 a xs) = None"
proof -
  have "set (remove1 a xs) = set xs - {a}"
    using assms(1) by simp
  then show ?thesis
    unfolding find_eq_None_conv using assms(4) by blast
qed

lemma distinct_split_unique:
  assumes "distinct (xs @ a # ys)"
  shows "a \<notin> set xs \<and> a \<notin> set ys"
  using assms by auto

end
