(* ===== verification/Ape_Hash.thy ===== *)
theory Ape_Hash
  imports Ape_Prelude
begin

text \<open>
  The hash table of \<open>src/hash.c\<close>: separate chaining over an array of \<open>HACH_TABLE_MAX + 1\<close>
  buckets, every item also linked into one doubly linked list that starts at \<open>first\<close>. Items live in
  an explicit heap because a bucket chain and the global list share them, and \<open>hashtbl_append\<close> and
  \<open>hashtbl_erase\<close> relink both. The last section states the table's contract as the locale
  \<open>dictionary\<close> and interprets it on these definitions.
\<close>

section \<open>Data and operations\<close>

definition HACH_TABLE_MAX :: nat where
  "HACH_TABLE_MAX = 5381"

record 'v htbl_item =
  hi_key :: string
  hi_addrs :: 'v
  hi_next :: "nat option"
  hi_lnext :: "nat option"
  hi_lprev :: "nat option"

type_synonym 'v hheap = "nat \<rightharpoonup> 'v htbl_item"

record 'v HTBL =
  hfirst :: "nat option"
  htable :: "nat \<Rightarrow> nat option"
  hheap :: "'v hheap"
  hbrk :: nat

text \<open>The promotion of a (signed) \<open>char\<close> to \<open>int\<close>, as 32 bits.\<close>

definition schar :: "char \<Rightarrow> u32" where
  "schar c = scast (of_char c :: u8)"

definition hach_string :: "string \<Rightarrow> nat" where
  "hach_string str =
     unat ((foldl (\<lambda>hash s. (push_bit 5 hash + hash) + schar (tolower s)) 5381 str AND 0x7FFFFFFF)
           mod (of_nat HACH_TABLE_MAX - 1))"

definition hashtbl_init :: "'v HTBL" where
  "hashtbl_init = \<lparr>hfirst = None, htable = (\<lambda>_. None), hheap = Map.empty, hbrk = 0\<rparr>"

text \<open>The walk along one bucket that looks for a key, shared by the three operations. The walk of
  \<open>hashtbl_erase\<close> also remembers the item before the match.\<close>

partial_function (option) hashtbl_walk ::
  "'v hheap \<Rightarrow> string \<Rightarrow> nat option \<Rightarrow> nat option \<Rightarrow> (nat option \<times> nat) option option" where
  "hashtbl_walk hp key hPrev hTmp =
     (case hTmp of
        None \<Rightarrow> Some None
      | Some a \<Rightarrow>
          (case hp a of
             None \<Rightarrow> None
           | Some it \<Rightarrow>
               if strcaseeq (hi_key it) key then Some (Some (hPrev, a))
               else hashtbl_walk hp key (Some a) (hi_next it)))"

text \<open>Assigning one field of an item through a pointer.\<close>

definition hset :: "'v hheap \<Rightarrow> nat \<Rightarrow> ('v htbl_item \<Rightarrow> 'v htbl_item) \<Rightarrow> 'v hheap option" where
  "hset hp a f = (case hp a of None \<Rightarrow> None | Some it \<Rightarrow> Some (hp(a \<mapsto> f it)))"

definition hset_opt ::
  "'v hheap \<Rightarrow> nat option \<Rightarrow> ('v htbl_item \<Rightarrow> 'v htbl_item) \<Rightarrow> 'v hheap option" where
  "hset_opt hp p f = (case p of None \<Rightarrow> Some hp | Some a \<Rightarrow> hset hp a f)"

definition hashtbl_append :: "'v HTBL \<Rightarrow> string option \<Rightarrow> 'v \<Rightarrow> 'v HTBL option" where
  "hashtbl_append htbl keyp structaddr =
     (case keyp of
        None \<Rightarrow> Some htbl
      | Some key \<Rightarrow>
          (let key_hash = hach_string key; hTmp = hbrk htbl;
               item = \<lparr>hi_key = key, hi_addrs = structaddr, hi_next = None,
                       hi_lnext = hfirst htbl, hi_lprev = None\<rparr>;
               hp = (hheap htbl)(hTmp \<mapsto> item) in
           do {
             dbl \<leftarrow> hashtbl_walk hp key None (htable htbl key_hash);
             case dbl of
               Some (_, hDbl) \<Rightarrow> do {
                 hp' \<leftarrow> hset (hp(hTmp := None)) hDbl (\<lambda>it. it\<lparr>hi_addrs := structaddr\<rparr>);
                 Some (htbl\<lparr>hheap := hp', hbrk := Suc hTmp\<rparr>) }
             | None \<Rightarrow> do {
                 hp1 \<leftarrow> hset hp hTmp (\<lambda>it. it\<lparr>hi_next := htable htbl key_hash\<rparr>);
                 hp2 \<leftarrow> hset_opt hp1 (hfirst htbl) (\<lambda>it. it\<lparr>hi_lprev := Some hTmp\<rparr>);
                 Some (htbl\<lparr>hheap := hp2, hfirst := Some hTmp,
                            htable := (htable htbl)(key_hash := Some hTmp), hbrk := Suc hTmp\<rparr>) }
           }))"

definition hashtbl_erase :: "'v HTBL \<Rightarrow> string option \<Rightarrow> 'v HTBL option" where
  "hashtbl_erase htbl keyp =
     (case keyp of
        None \<Rightarrow> Some htbl
      | Some key \<Rightarrow>
          (let key_hash = hach_string key in
           do {
             found \<leftarrow> hashtbl_walk (hheap htbl) key None (htable htbl key_hash);
             case found of
               None \<Rightarrow> Some htbl
             | Some (hPrev, hTmp) \<Rightarrow> do {
                 it \<leftarrow> hheap htbl hTmp;
                 hp1 \<leftarrow> hset_opt (hheap htbl) hPrev (\<lambda>i. i\<lparr>hi_next := hi_next it\<rparr>);
                 let tbl = (case hPrev of
                              Some _ \<Rightarrow> htable htbl
                            | None \<Rightarrow> (htable htbl)(key_hash := hi_next it));
                 let first = (case hi_lprev it of None \<Rightarrow> hi_lnext it | Some _ \<Rightarrow> hfirst htbl);
                 hp2 \<leftarrow> hset_opt hp1 (hi_lprev it) (\<lambda>i. i\<lparr>hi_lnext := hi_lnext it\<rparr>);
                 hp3 \<leftarrow> hset_opt hp2 (hi_lnext it) (\<lambda>i. i\<lparr>hi_lprev := hi_lprev it\<rparr>);
                 Some (htbl\<lparr>hheap := hp3(hTmp := None), htable := tbl, hfirst := first\<rparr>) }
           }))"

definition hashtbl_seek :: "'v HTBL \<Rightarrow> string option \<Rightarrow> 'v option option" where
  "hashtbl_seek htbl keyp =
     (case keyp of
        None \<Rightarrow> Some None
      | Some key \<Rightarrow> do {
          found \<leftarrow> hashtbl_walk (hheap htbl) key None (htable htbl (hach_string key));
          case found of
            None \<Rightarrow> Some None
          | Some (_, a) \<Rightarrow> map_option (\<lambda>it. Some (hi_addrs it)) (hheap htbl a)
        })"

text \<open>\<open>hashtbl_free\<close>: every bucket's chain is freed item by item.\<close>

partial_function (option) hashtbl_free_chain :: "'v hheap \<Rightarrow> nat option \<Rightarrow> 'v hheap option" where
  "hashtbl_free_chain hp hTmp =
     (case hTmp of
        None \<Rightarrow> Some hp
      | Some a \<Rightarrow>
          (case hp a of
             None \<Rightarrow> None
           | Some it \<Rightarrow> hashtbl_free_chain (hp(a := None)) (hi_next it)))"

fun hashtbl_free_buckets ::
  "(nat \<Rightarrow> nat option) \<Rightarrow> nat list \<Rightarrow> 'v hheap \<Rightarrow> 'v hheap option" where
  "hashtbl_free_buckets tbl [] hp = Some hp"
| "hashtbl_free_buckets tbl (i # is) hp =
     Option.bind (hashtbl_free_chain hp (tbl i)) (hashtbl_free_buckets tbl is)"

definition hashtbl_free :: "'v HTBL \<Rightarrow> 'v hheap option" where
  "hashtbl_free htbl = hashtbl_free_buckets (htable htbl) [0..<HACH_TABLE_MAX + 1] (hheap htbl)"


section \<open>Representation invariant\<close>

text \<open>\<open>chain hp p as\<close>: following \<open>next\<close> from \<open>p\<close> visits exactly the items \<open>as\<close>;
  \<open>dchain hp q p as\<close>: following \<open>lnext\<close> from \<open>p\<close> visits \<open>as\<close> and every \<open>lprev\<close> points back,
  the first one to \<open>q\<close>.\<close>

fun chain :: "'v hheap \<Rightarrow> nat option \<Rightarrow> nat list \<Rightarrow> bool" where
  "chain hp p [] \<longleftrightarrow> p = None"
| "chain hp p (a # as) \<longleftrightarrow> p = Some a \<and> (\<exists>it. hp a = Some it \<and> chain hp (hi_next it) as)"

fun dchain :: "'v hheap \<Rightarrow> nat option \<Rightarrow> nat option \<Rightarrow> nat list \<Rightarrow> bool" where
  "dchain hp q p [] \<longleftrightarrow> p = None"
| "dchain hp q p (a # as) \<longleftrightarrow>
     p = Some a \<and> (\<exists>it. hp a = Some it \<and> hi_lprev it = q \<and> dchain hp (Some a) (hi_lnext it) as)"

definition key_at :: "'v hheap \<Rightarrow> nat \<Rightarrow> string" where
  "key_at hp a = hi_key (the (hp a))"

definition htbl_shape :: "'v HTBL \<Rightarrow> (nat \<Rightarrow> nat list) \<Rightarrow> nat list \<Rightarrow> bool" where
  "htbl_shape h bs l \<longleftrightarrow>
     (\<forall>i. chain (hheap h) (htable h i) (bs i) \<and> distinct (bs i)) \<and>
     (\<forall>i. \<forall>a \<in> set (bs i). hach_string (key_at (hheap h) a) = i) \<and>
     (\<forall>i. \<forall>a \<in> set (bs i). \<forall>b \<in> set (bs i).
        strcaseeq (key_at (hheap h) a) (key_at (hheap h) b) \<longrightarrow> a = b) \<and>
     dom (hheap h) = (\<Union>i. set (bs i)) \<and>
     dchain (hheap h) None (hfirst h) l \<and> distinct l \<and> set l = dom (hheap h) \<and>
     (\<forall>a \<in> dom (hheap h). a < hbrk h)"

definition htbl_inv :: "'v HTBL \<Rightarrow> bool" where
  "htbl_inv h \<longleftrightarrow> (\<exists>bs l. htbl_shape h bs l)"

lemma htbl_shapeI:
  assumes "\<And>i. chain (hheap h) (htable h i) (bs i)" and "\<And>i. distinct (bs i)"
    and "\<And>i a. a \<in> set (bs i) \<Longrightarrow> hach_string (key_at (hheap h) a) = i"
    and "\<And>i a b. a \<in> set (bs i) \<Longrightarrow> b \<in> set (bs i) \<Longrightarrow>
        strcaseeq (key_at (hheap h) a) (key_at (hheap h) b) \<Longrightarrow> a = b"
    and "dom (hheap h) = (\<Union>i. set (bs i))"
    and "dchain (hheap h) None (hfirst h) l" and "distinct l" and "set l = dom (hheap h)"
    and "\<And>a. a \<in> dom (hheap h) \<Longrightarrow> a < hbrk h"
  shows "htbl_shape h bs l"
proof -
  have "\<forall>i. chain (hheap h) (htable h i) (bs i) \<and> distinct (bs i)" using assms(1,2) by blast
  moreover have "\<forall>i. \<forall>a \<in> set (bs i). hach_string (key_at (hheap h) a) = i" using assms(3) by blast
  moreover have "\<forall>i. \<forall>a \<in> set (bs i). \<forall>b \<in> set (bs i).
      strcaseeq (key_at (hheap h) a) (key_at (hheap h) b) \<longrightarrow> a = b" using assms(4) by blast
  moreover have "\<forall>a \<in> dom (hheap h). a < hbrk h" using assms(9) by blast
  ultimately show ?thesis unfolding htbl_shape_def using assms(5-8) by (intro conjI)
qed

lemma htbl_shapeD:
  assumes "htbl_shape h bs l"
  shows "chain (hheap h) (htable h i) (bs i)" and "distinct (bs i)"
    and "a \<in> set (bs i) \<Longrightarrow> hach_string (key_at (hheap h) a) = i"
    and "a \<in> set (bs i) \<Longrightarrow> b \<in> set (bs i) \<Longrightarrow>
        strcaseeq (key_at (hheap h) a) (key_at (hheap h) b) \<Longrightarrow> a = b"
    and "dom (hheap h) = (\<Union>i. set (bs i))"
    and "dchain (hheap h) None (hfirst h) l" and "distinct l" and "set l = dom (hheap h)"
    and "a \<in> dom (hheap h) \<Longrightarrow> a < hbrk h"
proof -
  note A = assms [unfolded htbl_shape_def]
  show "chain (hheap h) (htable h i) (bs i)" "distinct (bs i)" using A by simp_all
  show "hach_string (key_at (hheap h) a) = i" if "a \<in> set (bs i)" using conjunct1 [OF conjunct2 [OF A]] that by simp
  show "a = b" if "a \<in> set (bs i)" "b \<in> set (bs i)"
      "strcaseeq (key_at (hheap h) a) (key_at (hheap h) b)"
    using conjunct1 [OF conjunct2 [OF conjunct2 [OF A]]] that by meson
  show "dom (hheap h) = (\<Union>i. set (bs i))" "dchain (hheap h) None (hfirst h) l" "distinct l"
    "set l = dom (hheap h)" using A by simp_all
  show "a < hbrk h" if "a \<in> dom (hheap h)" using A that by simp
qed

subsection \<open>Chains\<close>

lemma chain_dom: "chain hp p as \<Longrightarrow> set as \<subseteq> dom hp"
  by (induction as arbitrary: p) auto

lemma chain_cong:
  assumes "\<And>a. a \<in> set as \<Longrightarrow> map_option hi_next (hp' a) = map_option hi_next (hp a)"
  shows "chain hp' p as = chain hp p as"
  using assms
proof (induction as arbitrary: p)
  case (Cons a as)
  have "map_option hi_next (hp' a) = map_option hi_next (hp a)" by (simp add: Cons.prems)
  moreover have "\<And>p. chain hp' p as = chain hp p as" by (rule Cons.IH) (simp add: Cons.prems)
  ultimately show ?case by (cases "hp a"; cases "hp' a") auto
qed simp

lemma dchain_cong:
  assumes "\<And>a. a \<in> set as \<Longrightarrow> map_option hi_lnext (hp' a) = map_option hi_lnext (hp a)"
    and "\<And>a. a \<in> set as \<Longrightarrow> map_option hi_lprev (hp' a) = map_option hi_lprev (hp a)"
  shows "dchain hp' q p as = dchain hp q p as"
  using assms
proof (induction as arbitrary: p q)
  case (Cons a as)
  have "map_option hi_lnext (hp' a) = map_option hi_lnext (hp a)"
    and "map_option hi_lprev (hp' a) = map_option hi_lprev (hp a)" by (simp_all add: Cons.prems)
  moreover have "\<And>p q. dchain hp' q p as = dchain hp q p as" by (rule Cons.IH) (simp_all add: Cons.prems)
  ultimately show ?case by (cases "hp a"; cases "hp' a") auto
qed simp

lemma chain_unlink:
  assumes "chain hp p (xs @ a # ys)" and "distinct (xs @ a # ys)" and "hp a = Some it"
  shows "case xs of
      [] \<Rightarrow> chain hp (hi_next it) ys \<and> p = Some a
    | _ \<Rightarrow> (\<exists>l. hp (last xs) = Some l \<and>
           chain (hp(last xs \<mapsto> l\<lparr>hi_next := hi_next it\<rparr>)) p (xs @ ys))"
  using assms
proof (induction xs arbitrary: p)
  case (Cons x xs)
  then obtain ix where p: "p = Some x" and ix: "hp x = Some ix"
    and ch: "chain hp (hi_next ix) (xs @ a # ys)" by auto
  show ?case
  proof (cases xs)
    case Nil
    with ch Cons.prems have "chain hp (hi_next it) ys" by auto
    moreover have "x \<notin> set ys" using Cons.prems Nil by auto
    ultimately have "chain (hp(x \<mapsto> ix\<lparr>hi_next := hi_next it\<rparr>)) (hi_next it) ys"
      by (subst chain_cong [where hp = hp]) auto
    then show ?thesis using p ix Nil by simp
  next
    case (Cons z zs)
    with Cons.IH [OF ch] Cons.prems obtain l where l: "hp (last xs) = Some l"
      and c: "chain (hp(last xs \<mapsto> l\<lparr>hi_next := hi_next it\<rparr>)) (hi_next ix) (xs @ ys)" by auto
    have "x \<noteq> last xs" using Cons.prems Cons by auto
    then show ?thesis using p ix l c Cons by simp
  qed
qed auto

subsection \<open>The walk along a bucket\<close>

lemma hashtbl_walk_None [simp]: "hashtbl_walk hp key q None = Some None"
  by (simp add: hashtbl_walk.simps)

lemma hashtbl_walk_Some:
  "hp a = Some it \<Longrightarrow> hashtbl_walk hp key q (Some a) =
     (if strcaseeq (hi_key it) key then Some (Some (q, a))
      else hashtbl_walk hp key (Some a) (hi_next it))"
  by (subst hashtbl_walk.simps) simp

fun prev_of :: "nat option \<Rightarrow> nat list \<Rightarrow> nat option" where
  "prev_of q [] = q"
| "prev_of q (x # xs) = prev_of (Some x) xs"

lemma prev_of_append [simp]: "prev_of q (xs @ [x]) = Some x"
  by (induction xs arbitrary: q) auto

lemma prev_of_eq: "prev_of q xs = (if xs = [] then q else Some (last xs))"
  by (induction xs arbitrary: q) auto

text \<open>A walk over a well-formed chain returns, and finds the first item with an equal key.\<close>

lemma hashtbl_walk_chain:
  assumes "chain hp p as"
  shows "(hashtbl_walk hp key q p = Some None \<and>
            (\<forall>a \<in> set as. \<not> strcaseeq (key_at hp a) key)) \<or>
         (\<exists>xs a ys. as = xs @ a # ys \<and> strcaseeq (key_at hp a) key \<and>
            (\<forall>x \<in> set xs. \<not> strcaseeq (key_at hp x) key) \<and>
            hashtbl_walk hp key q p = Some (Some (prev_of q xs, a)))"
  using assms
proof (induction as arbitrary: p q)
  case (Cons a as)
  then obtain it where p: "p = Some a" and it: "hp a = Some it" and ch: "chain hp (hi_next it) as"
    by auto
  have key: "key_at hp a = hi_key it" by (simp add: key_at_def it)
  show ?case
  proof (cases "strcaseeq (hi_key it) key")
    case True
    then have "hashtbl_walk hp key q p = Some (Some (prev_of q [], a))"
      using p it by (simp add: hashtbl_walk_Some)
    then show ?thesis using True key by (intro disjI2 exI [of _ "[]"]) auto
  next
    case False
    then have step: "hashtbl_walk hp key q p = hashtbl_walk hp key (Some a) (hi_next it)"
      using p it by (simp add: hashtbl_walk_Some)
    from Cons.IH [OF ch, of "Some a"] show ?thesis
    proof (elim disjE exE conjE)
      assume "hashtbl_walk hp key (Some a) (hi_next it) = Some None"
        and "\<forall>a \<in> set as. \<not> strcaseeq (key_at hp a) key"
      then show ?thesis using step False key by simp
    next
      fix xs b ys
      assume "as = xs @ b # ys" and "strcaseeq (key_at hp b) key"
        and "\<forall>x \<in> set xs. \<not> strcaseeq (key_at hp x) key"
        and "hashtbl_walk hp key (Some a) (hi_next it) = Some (Some (prev_of (Some a) xs, b))"
      then show ?thesis
        using step False key by (intro disjI2 exI [of _ "a # xs"] exI [of _ b] exI [of _ ys]) auto
    qed
  qed
qed simp


subsection \<open>Looking a key up\<close>

lemma hach_string_case: "strcaseeq a b \<Longrightarrow> hach_string a = hach_string b"
proof -
  assume eq: "strcaseeq a b"
  have f: "foldl (\<lambda>hash s. (push_bit 5 hash + hash) + schar (tolower s)) i x =
        foldl (\<lambda>hash s. (push_bit 5 hash + hash) + schar s) i (casefold x)" for i :: u32 and x
    by (induction x arbitrary: i) simp_all
  show ?thesis using eq unfolding hach_string_def f strcaseeq_def by simp
qed

text \<open>The array index never leaves the \<open>HACH_TABLE_MAX + 1\<close> buckets.\<close>

lemma hach_string_bound: "hach_string s < HACH_TABLE_MAX"
proof -
  have "unat ((x :: u32) mod 5380) < 5380" for x by (simp add: unat_mod_distrib)
  then have "unat ((x :: u32) mod 5380) < 5381" for x by (rule less_trans) simp
  then show ?thesis unfolding hach_string_def HACH_TABLE_MAX_def by simp
qed

lemma shape_item:
  assumes "htbl_shape h bs l" and "hheap h a = Some it"
  shows "a \<in> set (bs (hach_string (hi_key it)))"
proof -
  from assms have "a \<in> (\<Union>i. set (bs i))" unfolding htbl_shape_def by auto
  then obtain i where i: "a \<in> set (bs i)" by auto
  with assms have "hach_string (key_at (hheap h) a) = i" unfolding htbl_shape_def by blast
  with i assms(2) show ?thesis by (simp add: key_at_def)
qed

lemma shape_unique:
  assumes "htbl_shape h bs l" and "hheap h a = Some it" and "hheap h b = Some jt"
    and "strcaseeq (hi_key it) (hi_key jt)"
  shows "a = b"
proof -
  have "b \<in> set (bs (hach_string (hi_key it)))"
    using shape_item [OF assms(1,3)] hach_string_case [OF assms(4)] by simp
  moreover have "a \<in> set (bs (hach_string (hi_key it)))" by (rule shape_item [OF assms(1,2)])
  moreover have "strcaseeq (key_at (hheap h) a) (key_at (hheap h) b)"
    using assms by (simp add: key_at_def)
  ultimately show ?thesis using assms(1) unfolding htbl_shape_def by blast
qed

lemma shape_chain: "htbl_shape h bs l \<Longrightarrow> chain (hheap h) (htable h i) (bs i)"
  by (simp add: htbl_shape_def)

lemma shape_mem: "htbl_shape h bs l \<Longrightarrow> a \<in> set (bs i) \<Longrightarrow> \<exists>it. hheap h a = Some it"
  using chain_dom [OF shape_chain] by blast

lemma shape_less: "htbl_shape h bs l \<Longrightarrow> hheap h a = Some it \<Longrightarrow> a < hbrk h"
  unfolding htbl_shape_def by auto

text \<open>What the walk of a well-formed table's bucket finds.\<close>

lemma walk_shape_hit:
  assumes sh: "htbl_shape h bs l" and it: "hheap h a = Some it" and eq: "strcaseeq (hi_key it) key"
  shows "\<exists>xs ys. bs (hach_string key) = xs @ a # ys \<and>
     hashtbl_walk (hheap h) key q (htable h (hach_string key)) = Some (Some (prev_of q xs, a))"
proof -
  have mem: "a \<in> set (bs (hach_string key))"
    using shape_item [OF sh it] hach_string_case [OF eq] by simp
  have ka: "strcaseeq (key_at (hheap h) a) key" using it eq by (simp add: key_at_def)
  from hashtbl_walk_chain [OF shape_chain [OF sh], of key q "hach_string key"] mem ka
  obtain xs b ys where b: "bs (hach_string key) = xs @ b # ys" "strcaseeq (key_at (hheap h) b) key"
    and w: "hashtbl_walk (hheap h) key q (htable h (hach_string key)) = Some (Some (prev_of q xs, b))"
    by blast
  have "strcaseeq (key_at (hheap h) a) (key_at (hheap h) b)"
    using ka b(2) by (metis strcaseeq_def)
  then have "a = b"
    using sh mem b(1) unfolding htbl_shape_def
    by (metis in_set_conv_decomp)
  with b w show ?thesis by blast
qed

lemma walk_shape_miss:
  assumes sh: "htbl_shape h bs l" and no: "\<And>a it. hheap h a = Some it \<Longrightarrow> \<not> strcaseeq (hi_key it) key"
  shows "hashtbl_walk (hheap h) key q (htable h i) = Some None"
proof -
  have "\<not> strcaseeq (key_at (hheap h) a) key" if "a \<in> set (bs i)" for a
  proof -
    have "a \<in> dom (hheap h)" using chain_dom [OF shape_chain [OF sh, of i]] that by (rule subsetD)
    then obtain it where "hheap h a = Some it" by auto
    then show ?thesis using no by (simp add: key_at_def)
  qed
  with hashtbl_walk_chain [OF shape_chain [OF sh], of key q i] show ?thesis by fastforce
qed

lemma seek_hit:
  assumes "htbl_shape h bs l" and "hheap h a = Some it" and "strcaseeq (hi_key it) key"
  shows "hashtbl_seek h (Some key) = Some (Some (hi_addrs it))"
  using walk_shape_hit [OF assms, of None] assms(2) by (auto simp: hashtbl_seek_def)

lemma seek_miss:
  assumes "htbl_shape h bs l" and "\<And>a it. hheap h a = Some it \<Longrightarrow> \<not> strcaseeq (hi_key it) key"
  shows "hashtbl_seek h (Some key) = Some None"
  using walk_shape_miss [OF assms] by (simp add: hashtbl_seek_def)

lemma seek_cases [consumes 1, case_names hit miss]:
  assumes "htbl_shape h bs l"
  obtains (hit) a it where "hheap h a = Some it" "strcaseeq (hi_key it) key"
      "hashtbl_seek h (Some key) = Some (Some (hi_addrs it))"
  | (miss) "\<And>a it. hheap h a = Some it \<Longrightarrow> \<not> strcaseeq (hi_key it) key"
      "hashtbl_seek h (Some key) = Some None"
  using seek_hit [OF assms] seek_miss [OF assms] by metis

text \<open>Two well-formed tables whose items agree up to one key answer alike on every other key.\<close>

lemma seek_other:
  assumes sh: "htbl_shape h bs l" and sh': "htbl_shape h' bs' l'"
    and old: "\<And>a it. hheap h a = Some it \<Longrightarrow> \<not> strcaseeq (hi_key it) key \<Longrightarrow>
      \<exists>it'. hheap h' a = Some it' \<and> hi_key it' = hi_key it \<and> hi_addrs it' = hi_addrs it"
    and new: "\<And>a it'. hheap h' a = Some it' \<Longrightarrow> \<not> strcaseeq (hi_key it') key \<Longrightarrow>
      \<exists>it. hheap h a = Some it \<and> hi_key it = hi_key it'"
    and k: "\<not> strcaseeq k key"
  shows "hashtbl_seek h' (Some k) = hashtbl_seek h (Some k)"
  using sh
proof (cases rule: seek_cases [where key = k])
  case (hit a it)
  have "\<not> strcaseeq (hi_key it) key" using hit(2) k by (metis strcaseeq_def)
  then obtain it' where "hheap h' a = Some it'" "hi_key it' = hi_key it" "hi_addrs it' = hi_addrs it"
    using old hit(1) by blast
  then show ?thesis using seek_hit [OF sh', of a it' k] hit by simp
next
  case miss
  have "\<not> strcaseeq (hi_key it') k" if h': "hheap h' a = Some it'" for a it'
  proof
    assume e: "strcaseeq (hi_key it') k"
    then have "\<not> strcaseeq (hi_key it') key" using k by (metis strcaseeq_def)
    then obtain it where "hheap h a = Some it" "hi_key it = hi_key it'" using new h' by blast
    then show False using e miss(1) by metis
  qed
  then show ?thesis using seek_miss [OF sh'] miss(2) by simp
qed

subsection \<open>Appending\<close>

lemma append_replace:
  assumes sh: "htbl_shape h bs l" and it: "hheap h a = Some it" and eq: "strcaseeq (hi_key it) key"
  shows "hashtbl_append h (Some key) v =
     Some (h\<lparr>hheap := (hheap h)(a \<mapsto> it\<lparr>hi_addrs := v\<rparr>), hbrk := Suc (hbrk h)\<rparr>)" (is ?thesis1)
    and "htbl_shape (h\<lparr>hheap := (hheap h)(a \<mapsto> it\<lparr>hi_addrs := v\<rparr>), hbrk := Suc (hbrk h)\<rparr>) bs l"
      (is ?thesis2)
proof -
  let ?hp = "(hheap h)(hbrk h \<mapsto> \<lparr>hi_key = key, hi_addrs = v, hi_next = None,
                       hi_lnext = hfirst h, hi_lprev = None\<rparr>)"
  have fresh: "hheap h (hbrk h) = None" using shape_less [OF sh, of "hbrk h"] by fastforce
  have notin: "hbrk h \<notin> set (bs i)" for i
    using chain_dom [OF shape_chain [OF sh], of i] fresh by auto
  have ch: "chain ?hp (htable h i) (bs i)" for i
    using notin shape_chain [OF sh] by (subst chain_cong [where hp = "hheap h"]) auto
  have "a \<in> set (bs (hach_string key))"
    using shape_item [OF sh it] hach_string_case [OF eq] by simp
  moreover have "strcaseeq (key_at ?hp a) key" using it eq fresh by (auto simp: key_at_def)
  ultimately obtain xs b ys where b: "bs (hach_string key) = xs @ b # ys" "strcaseeq (key_at ?hp b) key"
    and w: "hashtbl_walk ?hp key None (htable h (hach_string key)) = Some (Some (prev_of None xs, b))"
    using hashtbl_walk_chain [OF ch [of "hach_string key"], of key None] by blast
  have "b \<in> set (bs (hach_string key))" using b by simp
  then obtain jt where jt: "hheap h b = Some jt" and bb: "b \<noteq> hbrk h"
    using chain_dom [OF shape_chain [OF sh]] fresh by blast
  have "strcaseeq (hi_key it) (hi_key jt)"
    using b(2) jt bb eq by (simp add: key_at_def strcaseeq_def)
  then have "b = a" using shape_unique [OF sh it jt] by simp
  then show ?thesis1
    using w it fresh bb by (simp add: hashtbl_append_def Let_def hset_def fun_upd_idem)
  have dn: "dom ((hheap h)(a \<mapsto> it\<lparr>hi_addrs := v\<rparr>)) = dom (hheap h)" using it by auto
  have k: "key_at ((hheap h)(a \<mapsto> it\<lparr>hi_addrs := v\<rparr>)) = key_at (hheap h)"
    using it by (auto simp: key_at_def fun_eq_iff)
  have c: "chain ((hheap h)(a \<mapsto> it\<lparr>hi_addrs := v\<rparr>)) p as = chain (hheap h) p as" for p as
    using it by (intro chain_cong) auto
  have d: "dchain ((hheap h)(a \<mapsto> it\<lparr>hi_addrs := v\<rparr>)) q p as = dchain (hheap h) q p as" for q p as
    using it by (intro dchain_cong) auto
  note D = htbl_shapeD [OF sh]
  show ?thesis2
  proof (rule htbl_shapeI)
    show "a' < hbrk (h\<lparr>hheap := (hheap h)(a \<mapsto> it\<lparr>hi_addrs := v\<rparr>), hbrk := Suc (hbrk h)\<rparr>)"
      if "a' \<in> dom (hheap (h\<lparr>hheap := (hheap h)(a \<mapsto> it\<lparr>hi_addrs := v\<rparr>), hbrk := Suc (hbrk h)\<rparr>))" for a'
      using that D(9) dn by (simp del: fun_upd_apply dom_fun_upd add: less_SucI)
  qed (simp_all add: dn k c d D(1-3,5-8) del: fun_upd_apply dom_fun_upd, rule D(4))
qed

lemma append_new:
  assumes sh: "htbl_shape h bs l"
    and no: "\<And>a it. hheap h a = Some it \<Longrightarrow> \<not> strcaseeq (hi_key it) key"
  obtains h' where "hashtbl_append h (Some key) v = Some h'"
    and "htbl_shape h' (bs(hach_string key := hbrk h # bs (hach_string key))) (hbrk h # l)"
    and "\<exists>it. hheap h' (hbrk h) = Some it \<and> hi_key it = key \<and> hi_addrs it = v"
    and "\<And>a. a \<noteq> hbrk h \<Longrightarrow> map_option (\<lambda>it. (hi_key it, hi_addrs it)) (hheap h' a) =
         map_option (\<lambda>it. (hi_key it, hi_addrs it)) (hheap h a)"
proof -
  let ?n = "hbrk h" and ?kh = "hach_string key"
  define item where "item = \<lparr>hi_key = key, hi_addrs = v, hi_next = None,
                       hi_lnext = hfirst h, hi_lprev = None\<rparr>"
  define new where "new = item\<lparr>hi_next := htable h ?kh\<rparr>"
  define hp2 where "hp2 = (case hfirst h of None \<Rightarrow> (hheap h)(?n \<mapsto> new)
     | Some f \<Rightarrow> (hheap h)(?n \<mapsto> new, f \<mapsto> (the (hheap h f))\<lparr>hi_lprev := Some ?n\<rparr>))"
  define h' where "h' = h\<lparr>hheap := hp2, hfirst := Some ?n,
     htable := (htable h)(?kh := Some ?n), hbrk := Suc ?n\<rparr>"
  note D = htbl_shapeD [OF sh]
  have fresh: "hheap h ?n = None" using shape_less [OF sh, of ?n] by fastforce
  have notin: "?n \<notin> set (bs i)" for i using chain_dom [OF D(1), of i] fresh by auto
  have first: "hheap h f \<noteq> None \<and> f \<noteq> ?n" if "hfirst h = Some f" for f
    using D(6) that fresh by (cases l) auto
  have other: "hp2 a = (if hfirst h = Some a then map_option (\<lambda>it. it\<lparr>hi_lprev := Some ?n\<rparr>) (hheap h a)
       else hheap h a)" if "a \<noteq> ?n" for a
    using that first by (auto simp: hp2_def split: option.split)
  have newitem: "hp2 ?n = Some new" using first by (auto simp: hp2_def split: option.split)
  have ch: "chain ((hheap h)(?n \<mapsto> item)) (htable h ?kh) (bs ?kh)"
    using notin D(1) by (subst chain_cong [where hp = "hheap h"]) auto
  have "\<not> strcaseeq (key_at ((hheap h)(?n \<mapsto> item)) a) key" if "a \<in> set (bs ?kh)" for a
  proof -
    obtain it where "hheap h a = Some it" using shape_mem [OF sh \<open>a \<in> set (bs ?kh)\<close>] by blast
    moreover have "a \<noteq> ?n" using notin that by metis
    ultimately show ?thesis using no by (simp add: key_at_def)
  qed
  then have walk: "hashtbl_walk ((hheap h)(?n \<mapsto> item)) key None (htable h ?kh) = Some None"
    using hashtbl_walk_chain [OF ch, of key None] by fastforce
  have "hashtbl_append h (Some key) v = Some h'"
  proof (cases "hfirst h")
    case None
    then show ?thesis using walk
      by (simp add: hashtbl_append_def Let_def item_def hset_def hset_opt_def h'_def hp2_def new_def)
  next
    case (Some f)
    then obtain jt where "hheap h f = Some jt" "f \<noteq> ?n" using first by blast
    then show ?thesis using walk Some
      by (simp add: hashtbl_append_def Let_def item_def hset_def hset_opt_def h'_def hp2_def new_def)
  qed
  moreover have "htbl_shape h' (bs(?kh := ?n # bs ?kh)) (?n # l)"
  proof (rule htbl_shapeI)
    have kk: "key_at hp2 a = key_at (hheap h) a" if "a \<in> set (bs i)" for a i
    proof -
      have "a \<noteq> ?n" using notin that by metis
      then show ?thesis using shape_mem [OF sh that] other [of a] by (auto simp: key_at_def)
    qed
    have kn: "key_at hp2 ?n = key" by (simp add: key_at_def newitem new_def item_def)
    have c: "chain hp2 p (bs i) = chain (hheap h) p (bs i)" for p i
      using other notin by (intro chain_cong) (metis (no_types, lifting) htbl_item.select_convs(3) htbl_item.surjective htbl_item.update_convs(5) option.map_comp option.map_cong0 comp_apply)
    show "chain (hheap h') (htable h' i) ((bs(?kh := ?n # bs ?kh)) i)" for i
      using c D(1) by (simp add: h'_def newitem new_def)
    show "distinct ((bs(?kh := ?n # bs ?kh)) i)" for i using D(2) notin by simp
    show "hach_string (key_at (hheap h') a) = i" if "a \<in> set ((bs(?kh := ?n # bs ?kh)) i)" for i a
      using that D(3) kk kn by (auto simp: h'_def split: if_splits)
    have nk: "\<not> strcaseeq (key_at (hheap h) a) key" if "a \<in> set (bs i)" for a i
      using shape_mem [OF sh that] no by (auto simp: key_at_def)
    show "a = b" if "a \<in> set ((bs(?kh := ?n # bs ?kh)) i)" "b \<in> set ((bs(?kh := ?n # bs ?kh)) i)"
      "strcaseeq (key_at (hheap h') a) (key_at (hheap h') b)" for i a b
      using that D(4) kk kn nk by (auto simp: h'_def split: if_splits dest: strcaseeq_sym)
    have dh: "dom hp2 = insert ?n (dom (hheap h))"
    proof -
      have "hp2 a \<noteq> None \<longleftrightarrow> a = ?n \<or> hheap h a \<noteq> None" for a
        using newitem other [of a] by (cases "a = ?n") auto
      then show ?thesis by (auto simp: dom_def)
    qed
    show "dom (hheap h') = (\<Union>i. set ((bs(?kh := ?n # bs ?kh)) i))"
      using dh D(5) by (auto simp: h'_def split: if_splits)
    show "set (?n # l) = dom (hheap h')" using dh D(8) by (simp add: h'_def)
    show "distinct (?n # l)" using D(7,8) fresh by auto
    show "a < hbrk h'" if "a \<in> dom (hheap h')" for a
      using that dh D(9) by (auto simp: h'_def less_Suc_eq)
    have "dchain hp2 (Some ?n) (hfirst h) l"
    proof (cases l)
      case Nil
      then show ?thesis using D(6) by simp
    next
      case (Cons f fs)
      then obtain it where f: "hfirst h = Some f" "hheap h f = Some it" "hi_lprev it = None"
        and dc: "dchain (hheap h) (Some f) (hi_lnext it) fs" using D(6) by auto
      have "f \<notin> set fs" "?n \<notin> set fs" using D(7,8) Cons fresh by auto
      then have same: "hp2 a = hheap h a" if "a \<in> set fs" for a
      proof -
        have "a \<noteq> ?n" "f \<noteq> a" using that \<open>f \<notin> set fs\<close> \<open>?n \<notin> set fs\<close> by metis+
        then show ?thesis using other [of a] f(1) by simp
      qed
      have "dchain hp2 (Some f) (hi_lnext it) fs"
        using dc by (subst dchain_cong [where hp = "hheap h"]) (simp_all add: same)
      then show ?thesis using f other [of f] first Cons by auto
    qed
    then show "dchain (hheap h') None (hfirst h') (?n # l)"
      by (simp add: h'_def newitem new_def item_def)
  qed
  moreover have "\<exists>it. hheap h' ?n = Some it \<and> hi_key it = key \<and> hi_addrs it = v"
    by (simp add: h'_def newitem new_def item_def)
  moreover have "map_option (\<lambda>it. (hi_key it, hi_addrs it)) (hheap h' a) =
       map_option (\<lambda>it. (hi_key it, hi_addrs it)) (hheap h a)" if "a \<noteq> ?n" for a
    using other [OF that] by (cases "hheap h a") (auto simp: h'_def)
  ultimately show thesis by (rule that)
qed


subsection \<open>Erasing\<close>

text \<open>Taking an item out of the doubly linked list.\<close>

lemma dchain_unlink:
  assumes "dchain hp q p (xs @ a # ys)" and "distinct (xs @ a # ys)" and "hp a = Some it"
    and "hp1 = (case prev_of q xs of None \<Rightarrow> hp | Some b \<Rightarrow>
          (if xs = [] then hp else hp(b \<mapsto> (the (hp b))\<lparr>hi_lnext := hi_lnext it\<rparr>)))"
    and "hp2 = (case hi_lnext it of None \<Rightarrow> hp1 | Some c \<Rightarrow> hp1(c \<mapsto> (the (hp1 c))\<lparr>hi_lprev := hi_lprev it\<rparr>))"
  shows "dchain hp2 q (if xs = [] then hi_lnext it else p) (xs @ ys) \<and> hi_lprev it = prev_of q xs \<and>
    (xs = [] \<longrightarrow> p = Some a)"
  using assms
proof (induction xs arbitrary: p q hp1 hp2)
  case Nil
  then have it: "hi_lprev it = q" "p = Some a" and d: "dchain hp (Some a) (hi_lnext it) ys" by auto
  have "hp1 = hp" using Nil.prems(4) by (auto split: option.splits)
  have "dchain hp2 q (hi_lnext it) ys"
  proof (cases ys)
    case (Cons c cs)
    then obtain ic where c: "hi_lnext it = Some c" "hp c = Some ic" "dchain hp (Some c) (hi_lnext ic) cs"
      using d by auto
    have hp2: "hp2 = hp(c \<mapsto> ic\<lparr>hi_lprev := q\<rparr>)" using Nil.prems(5) c it \<open>hp1 = hp\<close> by (simp add: fun_upd_def)
    have "c \<notin> set cs" using Nil.prems(2) Cons by auto
    then have "dchain hp2 (Some c) (hi_lnext ic) cs"
      using c(3) hp2 by (subst dchain_cong [where hp = hp]) auto
    then show ?thesis using Cons c hp2 by simp
  qed (use d in simp)
  with it show ?case by simp
next
  case (Cons x xs)
  then obtain ix where x: "p = Some x" "hp x = Some ix" "hi_lprev ix = q"
    and d: "dchain hp (Some x) (hi_lnext ix) (xs @ a # ys)" by auto
  define hpm where "hpm = (case prev_of (Some x) xs of None \<Rightarrow> hp | Some b \<Rightarrow>
      (if xs = [] then hp else hp(b \<mapsto> (the (hp b))\<lparr>hi_lnext := hi_lnext it\<rparr>)))"
  define hpn where "hpn = (case hi_lnext it of None \<Rightarrow> hpm
      | Some c \<Rightarrow> hpm(c \<mapsto> (the (hpm c))\<lparr>hi_lprev := hi_lprev it\<rparr>))"
  have IH: "dchain hpn (Some x) (if xs = [] then hi_lnext it else hi_lnext ix) (xs @ ys)"
      "hi_lprev it = prev_of (Some x) xs" "xs = [] \<longrightarrow> hi_lnext ix = Some a"
    using Cons.IH [OF d _ Cons.prems(3) hpm_def hpn_def] Cons.prems(2) by auto
  have nx: "hi_lnext it = Some c \<Longrightarrow> c \<in> set ys" for c
  proof -
    have "dchain hp q' p' (zs @ a # ys) \<Longrightarrow> dchain hp (Some a) (hi_lnext it) ys" for q' p' zs
      using Cons.prems(3) by (induction zs arbitrary: q' p') auto
    from this [OF d] show "hi_lnext it = Some c \<Longrightarrow> c \<in> set ys" by (cases ys) auto
  qed
  have hp1x: "hp1 x = Some (if xs = [] then ix\<lparr>hi_lnext := hi_lnext it\<rparr> else ix)"
    and hp1: "y \<noteq> x \<Longrightarrow> hp1 y = hpm y" for y
    using Cons.prems(2,4) x by (auto simp: hpm_def prev_of_eq)
  have xn: "hi_lnext it \<noteq> Some x" using nx Cons.prems(2) by auto
  have hp2x: "hp2 x = hp1 x" using xn Cons.prems(5) by (auto split: option.split)
  have hp2: "hp2 y = hpn y" if "y \<noteq> x" for y
    using that hp1 xn Cons.prems(5) by (auto simp: hpn_def split: option.split)
  have "x \<notin> set (xs @ ys)" using Cons.prems(2) by auto
  then have "dchain hp2 (Some x) (if xs = [] then hi_lnext it else hi_lnext ix) (xs @ ys)"
    using IH(1) hp2 by (subst dchain_cong [where hp = hpn]) (metis (no_types))+
  moreover have "dchain hp2 q p ((x # xs) @ ys) =
      dchain hp2 (Some x) (if xs = [] then hi_lnext it else hi_lnext ix) (xs @ ys)"
    using x hp2x hp1x by auto
  ultimately show ?case using IH x by simp
qed


definition hupd :: "'v hheap \<Rightarrow> nat option \<Rightarrow> ('v htbl_item \<Rightarrow> 'v htbl_item) \<Rightarrow> 'v hheap" where
  "hupd hp p f = (\<lambda>x. if p = Some x then map_option f (hp x) else hp x)"

lemma hset_opt_eq:
  assumes "\<And>b. p = Some b \<Longrightarrow> b \<in> dom hp"
  shows "hset_opt hp p f = Some (hupd hp p f)"
  using assms by (cases p) (auto simp: hset_opt_def hset_def hupd_def fun_eq_iff)

lemma hupd_Some: "hp b = Some l \<Longrightarrow> hupd hp (Some b) f = hp(b \<mapsto> f l)"
  by (auto simp: hupd_def fun_eq_iff)

lemma hupd_None [simp]: "hupd hp None f = hp"
  by (simp add: hupd_def)

lemma dom_hupd [simp]: "dom (hupd hp p f) = dom hp"
  by (auto simp: hupd_def dom_def)

lemma chain_split_next:
  assumes "chain hp p (xs @ a # ys)" and "hp a = Some it"
  shows "hi_next it = None \<or> (\<exists>c. hi_next it = Some c \<and> c \<in> set ys)"
  using assms by (induction xs arbitrary: p) (cases ys; auto)+

lemma dchain_split_next:
  assumes "dchain hp q p (xs @ a # ys)" and "hp a = Some it"
  shows "hi_lnext it = (case ys of [] \<Rightarrow> None | c # _ \<Rightarrow> Some c)"
  using assms
proof (induction xs arbitrary: p q)
  case Nil
  then show ?case by (cases ys) auto
qed auto

lemma erase_hit:
  assumes sh: "htbl_shape h bs l" and it: "hheap h a = Some it" and eq: "strcaseeq (hi_key it) key"
  obtains h' where "hashtbl_erase h (Some key) = Some h'"
    and "htbl_shape h' (bs(hach_string key := remove1 a (bs (hach_string key)))) (remove1 a l)"
    and "hheap h' a = None"
    and "\<And>b. b \<noteq> a \<Longrightarrow> map_option (\<lambda>it. (hi_key it, hi_addrs it)) (hheap h' b) =
         map_option (\<lambda>it. (hi_key it, hi_addrs it)) (hheap h b)"
proof -
  let ?kh = "hach_string key"
  note D = htbl_shapeD [OF sh]
  obtain xs ys where xy: "bs ?kh = xs @ a # ys"
    and w: "hashtbl_walk (hheap h) key None (htable h ?kh) = Some (Some (prev_of None xs, a))"
    using walk_shape_hit [OF sh it eq] by blast
  have "a \<in> set l" using D(8) it by auto
  then obtain us vs where uv: "l = us @ a # vs" by (meson split_list)
  have dxy: "distinct (xs @ a # ys)" and duv: "distinct (us @ a # vs)" using D(2) [of ?kh] D(7) xy uv by simp_all
  have chx: "chain (hheap h) (htable h ?kh) (xs @ a # ys)" using D(1) [of ?kh] xy by simp
  have dch: "dchain (hheap h) None (hfirst h) (us @ a # vs)" using D(6) uv by simp
  define P where "P = prev_of None xs"
  define hp1 where "hp1 = hupd (hheap h) P (\<lambda>i. i\<lparr>hi_next := hi_next it\<rparr>)"
  define hp2 where "hp2 = hupd hp1 (hi_lprev it) (\<lambda>i. i\<lparr>hi_lnext := hi_lnext it\<rparr>)"
  define hp3 where "hp3 = hupd hp2 (hi_lnext it) (\<lambda>i. i\<lparr>hi_lprev := hi_lprev it\<rparr>)"
  define h' where "h' = h\<lparr>hheap := hp3(a := None),
     htable := (case P of Some _ \<Rightarrow> htable h | None \<Rightarrow> (htable h)(?kh := hi_next it)),
     hfirst := (case hi_lprev it of None \<Rightarrow> hi_lnext it | Some _ \<Rightarrow> hfirst h)\<rparr>"
  have Pd: "b \<in> dom (hheap h)" if "P = Some b" for b
    using that chain_dom [OF chx] by (auto simp: P_def prev_of_eq split: if_splits dest: last_in_set)
  define hd1 where "hd1 = (case prev_of None us of None \<Rightarrow> hheap h | Some b \<Rightarrow>
          (if us = [] then hheap h else (hheap h)(b \<mapsto> (the (hheap h b))\<lparr>hi_lnext := hi_lnext it\<rparr>)))"
  define hd2 where "hd2 = (case hi_lnext it of None \<Rightarrow> hd1
          | Some c \<Rightarrow> hd1(c \<mapsto> (the (hd1 c))\<lparr>hi_lprev := hi_lprev it\<rparr>))"
  have U: "dchain hd2 None (if us = [] then hi_lnext it else hfirst h) (us @ vs)"
      "hi_lprev it = prev_of None us"
    using dchain_unlink [OF dch duv it hd1_def hd2_def] by simp_all
  have lp: "b \<in> dom (hheap h)" if "hi_lprev it = Some b" for b
    using that U(2) D(8) uv by (auto simp: prev_of_eq split: if_splits dest: last_in_set)
  have ln: "b \<in> dom (hheap h)" if "hi_lnext it = Some b" for b
    using that dchain_split_next [OF dch it] D(8) uv by (auto split: list.splits)
  have "hashtbl_erase h (Some key) = Some h'"
    unfolding hashtbl_erase_def using w it
    by (simp add: Let_def hset_opt_eq Pd lp ln P_def [symmetric] hp1_def hp2_def hp3_def h'_def)
  moreover have "hheap h' a = None" by (simp add: h'_def)
  moreover have same: "map_option (\<lambda>it. (hi_key it, hi_addrs it)) (hheap h' b) =
       map_option (\<lambda>it. (hi_key it, hi_addrs it)) (hheap h b)" if "b \<noteq> a" for b
    using that by (cases "hheap h b") (auto simp: h'_def hp3_def hp2_def hp1_def hupd_def)
  moreover have "htbl_shape h' (bs(?kh := remove1 a (bs ?kh))) (remove1 a l)"
  proof (rule htbl_shapeI)
    have rk: "remove1 a (bs ?kh) = xs @ ys" and rl: "remove1 a l = us @ vs"
      using dxy duv xy uv by (simp_all add: remove1_append)
    have dh: "dom (hheap h') = dom (hheap h) - {a}"
      by (simp add: h'_def hp3_def hp2_def hp1_def)
    have kk: "key_at (hheap h') b = key_at (hheap h) b" if "b \<noteq> a" for b
      using same [OF that] by (cases "hheap h b"; cases "hheap h' b") (auto simp: key_at_def)
    have sub: "b \<in> set (bs i) \<and> b \<noteq> a"
      if "b \<in> set ((bs(?kh := remove1 a (bs ?kh))) i)" for b i
      using that rk xy dxy D(3) [of b i] D(3) [of a i] shape_item [OF sh it] hach_string_case [OF eq] it
      by (cases "i = ?kh") (auto simp: key_at_def)
    have nxt: "map_option hi_next (hheap h' b) = map_option hi_next (hp1 b)" if "b \<noteq> a" for b
      using that by (cases "hp1 b") (auto simp: h'_def hp3_def hp2_def hupd_def)
    have c1: "chain hp1 (if xs = [] then hi_next it else htable h ?kh) (xs @ ys)"
    proof (cases xs)
      case Nil
      then show ?thesis using chain_unlink [OF chx dxy it] by (simp add: hp1_def P_def)
    next
      case (Cons z zs)
      then obtain lst where lst: "hheap h (last xs) = Some lst"
        "chain ((hheap h)(last xs \<mapsto> lst\<lparr>hi_next := hi_next it\<rparr>)) (htable h ?kh) (xs @ ys)"
        using chain_unlink [OF chx dxy it] by auto
      then show ?thesis using Cons by (simp add: hp1_def P_def prev_of_eq hupd_Some)
    qed
    show "chain (hheap h') (htable h' i) ((bs(?kh := remove1 a (bs ?kh))) i)" for i
    proof (cases "i = ?kh")
      case True
      have "chain (hheap h') (htable h' ?kh) (xs @ ys) = chain hp1 (htable h' ?kh) (xs @ ys)"
        using dxy by (intro chain_cong nxt) auto
      moreover have "htable h' ?kh = (if xs = [] then hi_next it else htable h ?kh)"
        by (simp add: h'_def P_def prev_of_eq)
      ultimately show ?thesis using c1 rk True by simp
    next
      case False
      have tb: "htable h' i = htable h i" using False by (simp add: h'_def split: option.split)
      have "map_option hi_next (hheap h' b) = map_option hi_next (hheap h b)" if b: "b \<in> set (bs i)" for b
      proof -
        have ki: "hach_string (key_at (hheap h) b) = i" using D(3) b by simp
        have "b \<noteq> a" using ki False it hach_string_case [OF eq] by (auto simp: key_at_def)
        moreover have "P \<noteq> Some b"
          using ki False xy D(3) [of b ?kh] by (auto simp: P_def prev_of_eq split: if_splits)
        ultimately show ?thesis using nxt by (simp add: hp1_def hupd_def)
      qed
      then show ?thesis using tb D(1) False by (subst chain_cong [where hp = "hheap h"]) auto
    qed
    show "distinct ((bs(?kh := remove1 a (bs ?kh))) i)" for i using D(2) by simp
    show "hach_string (key_at (hheap h') b) = i" if "b \<in> set ((bs(?kh := remove1 a (bs ?kh))) i)" for b i
      using sub [OF that] kk D(3) by simp
    show "b = c" if "b \<in> set ((bs(?kh := remove1 a (bs ?kh))) i)" "c \<in> set ((bs(?kh := remove1 a (bs ?kh))) i)"
      "strcaseeq (key_at (hheap h') b) (key_at (hheap h') c)" for b c i
      using sub [OF that(1)] sub [OF that(2)] kk that(3) D(4) by metis
    show "dom (hheap h') = (\<Union>i. set ((bs(?kh := remove1 a (bs ?kh))) i))"
    proof
      show "(\<Union>i. set ((bs(?kh := remove1 a (bs ?kh))) i)) \<subseteq> dom (hheap h')"
      proof
        fix b assume "b \<in> (\<Union>i. set ((bs(?kh := remove1 a (bs ?kh))) i))"
        then obtain i where "b \<in> set ((bs(?kh := remove1 a (bs ?kh))) i)" by (rule UN_E)
        then have "b \<in> set (bs i)" "b \<noteq> a" using sub by blast+
        then show "b \<in> dom (hheap h')" using shape_mem [OF sh] unfolding dh by auto
      qed
      show "dom (hheap h') \<subseteq> (\<Union>i. set ((bs(?kh := remove1 a (bs ?kh))) i))"
      proof
        fix b assume "b \<in> dom (hheap h')"
        then obtain ib where ib: "hheap h b = Some ib" and ne: "b \<noteq> a" unfolding dh by auto
        have "b \<in> set ((bs(?kh := remove1 a (bs ?kh))) (hach_string (hi_key ib)))"
          using shape_item [OF sh ib] ne by (cases "hach_string (hi_key ib) = ?kh") simp_all
        then show "b \<in> (\<Union>i. set ((bs(?kh := remove1 a (bs ?kh))) i))" by (rule UN_I [OF UNIV_I])
      qed
    qed
    show "distinct (remove1 a l)" using D(7) by simp
    show "set (remove1 a l) = dom (hheap h')" using dh D(7,8) by simp
    show "b < hbrk h'" if "b \<in> dom (hheap h')" for b
    proof -
      have "b \<in> dom (hheap h)" using that dh by blast
      then show ?thesis using D(9) by (simp add: h'_def)
    qed
    have lnx: "map_option hi_lnext (hheap h' b) = map_option hi_lnext (hd2 b)"
        "map_option hi_lprev (hheap h' b) = map_option hi_lprev (hd2 b)" if "b \<noteq> a" for b
      using that U(2) lp ln
      by (auto simp: h'_def hp3_def hp2_def hp1_def hupd_def hd2_def hd1_def prev_of_eq
          option.map_comp comp_def split: option.splits if_splits)
    have "hfirst h' = (if us = [] then hi_lnext it else hfirst h)"
      using U(2) by (simp add: h'_def prev_of_eq)
    then show "dchain (hheap h') None (hfirst h') (remove1 a l)"
    proof -
      have "b \<noteq> a" if "b \<in> set (us @ vs)" for b using that duv by auto
      then have "dchain (hheap h') None p (us @ vs) = dchain hd2 None p (us @ vs)" for p
        using lnx by (intro dchain_cong) blast+
      then show ?thesis using U(1) rl \<open>hfirst h' = _\<close> by simp
    qed
  qed
  ultimately show thesis using that by blast
qed


lemma erase_miss:
  assumes "htbl_shape h bs l" and "\<And>a it. hheap h a = Some it \<Longrightarrow> \<not> strcaseeq (hi_key it) key"
  shows "hashtbl_erase h (Some key) = Some h"
  using walk_shape_miss [OF assms] by (simp add: hashtbl_erase_def Let_def)

section \<open>Contract\<close>

text \<open>The promises of a table keyed by strings up to case: every operation is defined on a
  well-formed table and keeps it well formed, and a lookup sees the last append or erase of its key
  only.\<close>

locale dictionary =
  fixes empty :: "'t"
    and append :: "'t \<Rightarrow> string option \<Rightarrow> 'v \<Rightarrow> 't option"
    and erase :: "'t \<Rightarrow> string option \<Rightarrow> 't option"
    and seek :: "'t \<Rightarrow> string option \<Rightarrow> 'v option option"
    and inv :: "'t \<Rightarrow> bool"
  assumes inv_empty: "inv empty"
    and seek_empty: "seek empty kp = Some None"
    and seek_NULL: "seek t None = Some None"
    and append_NULL: "append t None v = Some t"
    and erase_NULL: "erase t None = Some t"
    and seek_total: "inv t \<Longrightarrow> \<exists>r. seek t kp = Some r"
    and append_law: "inv t \<Longrightarrow> \<exists>t'. append t (Some k) v = Some t' \<and> inv t' \<and>
      (\<forall>k'. seek t' (Some k') = (if strcaseeq k' k then Some (Some v) else seek t (Some k')))"
    and erase_law: "inv t \<Longrightarrow> \<exists>t'. erase t (Some k) = Some t' \<and> inv t' \<and>
      (\<forall>k'. seek t' (Some k') = (if strcaseeq k' k then Some None else seek t (Some k')))"
begin

lemma append_defined: "inv t \<Longrightarrow> \<exists>t'. append t k v = Some t' \<and> inv t'"
  by (cases k) (simp add: append_NULL, use append_law in metis)

lemma erase_defined: "inv t \<Longrightarrow> \<exists>t'. erase t k = Some t' \<and> inv t'"
  by (cases k) (simp add: erase_NULL, use erase_law in metis)

lemma append_SomeD:
  assumes "inv t" and "append t k v = Some t'"
  shows "inv t'"
    and "seek t' (Some k') = (case k of None \<Rightarrow> seek t (Some k')
      | Some q \<Rightarrow> if strcaseeq k' q then Some (Some v) else seek t (Some k'))"
proof -
  have "inv t' \<and> seek t' (Some k') = (case k of None \<Rightarrow> seek t (Some k')
      | Some q \<Rightarrow> if strcaseeq k' q then Some (Some v) else seek t (Some k'))"
  proof (cases k)
    case (Some q)
    then show ?thesis using append_law [OF assms(1), of q v] assms(2) by auto
  qed (use assms append_NULL in auto)
  then show "inv t'" and "seek t' (Some k') = (case k of None \<Rightarrow> seek t (Some k')
      | Some q \<Rightarrow> if strcaseeq k' q then Some (Some v) else seek t (Some k'))" by blast+
qed

lemma erase_SomeD:
  assumes "inv t" and "erase t k = Some t'"
  shows "inv t'"
    and "seek t' (Some k') = (case k of None \<Rightarrow> seek t (Some k')
      | Some q \<Rightarrow> if strcaseeq k' q then Some None else seek t (Some k'))"
proof -
  have "inv t' \<and> seek t' (Some k') = (case k of None \<Rightarrow> seek t (Some k')
      | Some q \<Rightarrow> if strcaseeq k' q then Some None else seek t (Some k'))"
  proof (cases k)
    case (Some q)
    then show ?thesis using erase_law [OF assms(1), of q] assms(2) by auto
  qed (use assms erase_NULL in auto)
  then show "inv t'" and "seek t' (Some k') = (case k of None \<Rightarrow> seek t (Some k')
      | Some q \<Rightarrow> if strcaseeq k' q then Some None else seek t (Some k'))" by blast+
qed

text \<open>Building a table from an association list never fails; the last binding of a key wins.\<close>

lemma append_all:
  assumes "inv t"
  shows "\<exists>t'. foldl (\<lambda>s kv. Option.bind s (\<lambda>t. append t (Some (fst kv)) (snd kv))) (Some t) kvs = Some t' \<and>
    inv t' \<and> (\<forall>k. seek t' (Some k) =
      (case find (\<lambda>kv. strcaseeq k (fst kv)) (rev kvs) of
         Some kv \<Rightarrow> Some (Some (snd kv)) | None \<Rightarrow> seek t (Some k)))"
proof (induction kvs rule: rev_induct)
  case (snoc kv kvs)
  then obtain t' where t': "foldl (\<lambda>s kv. Option.bind s (\<lambda>t. append t (Some (fst kv)) (snd kv))) (Some t) kvs = Some t'"
    "inv t'" "\<And>k. seek t' (Some k) = (case find (\<lambda>kv. strcaseeq k (fst kv)) (rev kvs) of
         Some kv \<Rightarrow> Some (Some (snd kv)) | None \<Rightarrow> seek t (Some k))" by blast
  from append_law [OF t'(2), of "fst kv" "snd kv"] obtain t2 where
    "append t' (Some (fst kv)) (snd kv) = Some t2" "inv t2"
    "\<And>k'. seek t2 (Some k') = (if strcaseeq k' (fst kv) then Some (Some (snd kv)) else seek t' (Some k'))"
    by blast
  then show ?case using t' by (intro exI [of _ t2]) simp
qed (simp add: assms)

end

lemma htbl_inv_init: "htbl_inv hashtbl_init"
  unfolding htbl_inv_def
  by (intro exI [of _ "\<lambda>_. []"] exI [of _ "[]"]) (simp add: htbl_shape_def hashtbl_init_def)

lemma map_option_keyD:
  assumes "map_option (\<lambda>it. (hi_key it, hi_addrs it)) x = map_option (\<lambda>it. (hi_key it, hi_addrs it)) y"
    and "y = Some it"
  shows "\<exists>it'. x = Some it' \<and> hi_key it' = hi_key it \<and> hi_addrs it' = hi_addrs it"
  using assms by (cases x) auto

lemma hashtbl_append_law:
  assumes "htbl_inv t"
  shows "\<exists>t'. hashtbl_append t (Some k) v = Some t' \<and> htbl_inv t' \<and>
      (\<forall>k'. hashtbl_seek t' (Some k') =
         (if strcaseeq k' k then Some (Some v) else hashtbl_seek t (Some k')))"
proof -
  obtain bs l where sh: "htbl_shape t bs l" using assms unfolding htbl_inv_def by blast
  show ?thesis
    using sh
  proof (cases rule: seek_cases [where key = k])
    case (hit a it)
    let ?t = "t\<lparr>hheap := (hheap t)(a \<mapsto> it\<lparr>hi_addrs := v\<rparr>), hbrk := Suc (hbrk t)\<rparr>"
    note A = append_replace [OF sh hit(1,2), of v]
    have "hashtbl_seek ?t (Some k') = Some (Some v)" if "strcaseeq k' k" for k'
      using seek_hit [OF A(2), of a "it\<lparr>hi_addrs := v\<rparr>" k'] hit(2) that
      by (simp add: strcaseeq_def)
    moreover have "hashtbl_seek ?t (Some k') = hashtbl_seek t (Some k')" if "\<not> strcaseeq k' k" for k'
      using hit by (intro seek_other [OF sh A(2) _ _ that]) (auto split: if_splits)
    ultimately show ?thesis using A unfolding htbl_inv_def by auto
  next
    case miss
    obtain t' where A: "hashtbl_append t (Some k) v = Some t'"
      "htbl_shape t' (bs(hach_string k := hbrk t # bs (hach_string k))) (hbrk t # l)"
      "\<exists>it. hheap t' (hbrk t) = Some it \<and> hi_key it = k \<and> hi_addrs it = v"
      "\<And>a. a \<noteq> hbrk t \<Longrightarrow> map_option (\<lambda>it. (hi_key it, hi_addrs it)) (hheap t' a) =
         map_option (\<lambda>it. (hi_key it, hi_addrs it)) (hheap t a)"
      by (rule append_new [OF sh, of k v]) (use miss(1) in blast)+
    have "hashtbl_seek t' (Some k') = Some (Some v)" if "strcaseeq k' k" for k'
      using A(3) seek_hit [OF A(2), of "hbrk t" _ k'] that strcaseeq_sym by blast
    moreover have "hashtbl_seek t' (Some k') = hashtbl_seek t (Some k')" if "\<not> strcaseeq k' k" for k'
    proof (rule seek_other [OF sh A(2) _ _ that])
      fix a it assume "hheap t a = Some it"
      moreover from this have "a \<noteq> hbrk t" using shape_less [OF sh] by blast
      ultimately show "\<exists>it'. hheap t' a = Some it' \<and> hi_key it' = hi_key it \<and> hi_addrs it' = hi_addrs it"
        using map_option_keyD [OF A(4)] by blast
    next
      fix a it' assume "hheap t' a = Some it'" "\<not> strcaseeq (hi_key it') k"
      moreover from this have "a \<noteq> hbrk t" using A(3) by force
      ultimately show "\<exists>it. hheap t a = Some it \<and> hi_key it = hi_key it'"
        using map_option_keyD [OF A(4) [symmetric]] by blast
    qed
    ultimately show ?thesis using A unfolding htbl_inv_def by auto
  qed
qed

lemma hashtbl_erase_law:
  assumes "htbl_inv t"
  shows "\<exists>t'. hashtbl_erase t (Some k) = Some t' \<and> htbl_inv t' \<and>
      (\<forall>k'. hashtbl_seek t' (Some k') =
         (if strcaseeq k' k then Some None else hashtbl_seek t (Some k')))"
proof -
  obtain bs l where sh: "htbl_shape t bs l" using assms unfolding htbl_inv_def by blast
  show ?thesis
    using sh
  proof (cases rule: seek_cases [where key = k])
    case miss
    have "hashtbl_seek t (Some k') = Some None" if "strcaseeq k' k" for k'
      using miss(1) that by (intro seek_miss [OF sh]) (metis strcaseeq_def)
    then show ?thesis using erase_miss [OF sh miss(1)] assms by auto
  next
    case (hit a it)
    obtain t' where A: "hashtbl_erase t (Some k) = Some t'"
      "htbl_shape t' (bs(hach_string k := remove1 a (bs (hach_string k)))) (remove1 a l)"
      "hheap t' a = None"
      "\<And>b. b \<noteq> a \<Longrightarrow> map_option (\<lambda>it. (hi_key it, hi_addrs it)) (hheap t' b) =
         map_option (\<lambda>it. (hi_key it, hi_addrs it)) (hheap t b)"
      using erase_hit [OF sh hit(1,2)] by blast
    have "hashtbl_seek t' (Some k') = Some None" if "strcaseeq k' k" for k'
    proof (rule seek_miss [OF A(2)])
      fix b ib assume ib: "hheap t' b = Some ib"
      then have ne: "b \<noteq> a" using A(3) by auto
      then obtain jt where "hheap t b = Some jt" "hi_key jt = hi_key ib"
        using map_option_keyD [OF A(4) [symmetric] ib] by blast
      then show "\<not> strcaseeq (hi_key ib) k'"
        using shape_unique [OF sh hit(1)] ne hit(2) that by (metis strcaseeq_def)
    qed
    moreover have "hashtbl_seek t' (Some k') = hashtbl_seek t (Some k')" if "\<not> strcaseeq k' k" for k'
    proof (rule seek_other [OF sh A(2) _ _ that])
      fix b ib assume ib: "hheap t b = Some ib" "\<not> strcaseeq (hi_key ib) k"
      then have "b \<noteq> a" using hit by force
      then show "\<exists>it'. hheap t' b = Some it' \<and> hi_key it' = hi_key ib \<and> hi_addrs it' = hi_addrs ib"
        using map_option_keyD [OF A(4)] ib(1) by blast
    next
      fix b ib assume ib: "hheap t' b = Some ib"
      then have "b \<noteq> a" using A(3) by force
      then show "\<exists>it. hheap t b = Some it \<and> hi_key it = hi_key ib"
        using map_option_keyD [OF A(4) [symmetric]] ib by blast
    qed
    ultimately show ?thesis using A unfolding htbl_inv_def by auto
  qed
qed

lemma hashtbl_seek_total:
  assumes "htbl_inv t"
  shows "\<exists>r. hashtbl_seek t k = Some r"
proof (cases k)
  case (Some key)
  obtain bs l where "htbl_shape t bs l" using assms unfolding htbl_inv_def by blast
  then show ?thesis unfolding Some by (cases rule: seek_cases [where key = key]) blast+
qed (simp add: hashtbl_seek_def)

interpretation ht: dictionary hashtbl_init hashtbl_append hashtbl_erase hashtbl_seek htbl_inv
proof
  show "htbl_inv hashtbl_init" by (rule htbl_inv_init)
  show "hashtbl_seek (hashtbl_init :: 'a HTBL) k = Some None" for k
    by (cases k) (simp_all add: hashtbl_seek_def hashtbl_init_def)
  show "\<exists>r. hashtbl_seek t k = Some r" if "htbl_inv t" for t :: "'a HTBL" and k
    using that by (rule hashtbl_seek_total)
qed (simp_all add: hashtbl_append_law hashtbl_erase_law,
     simp_all add: hashtbl_seek_def hashtbl_append_def hashtbl_erase_def)

section \<open>Freeing the table\<close>

lemma free_chain_frees:
  assumes "chain hp p as" and "distinct as"
  shows "hashtbl_free_chain hp p = Some (hp |` (- set as))"
  using assms
proof (induction as arbitrary: hp p)
  case Nil
  then show ?case by (subst hashtbl_free_chain.simps) (simp add: restrict_map_def)
next
  case (Cons a as)
  then obtain it where p: "p = Some a" and it: "hp a = Some it" and ch: "chain hp (hi_next it) as"
    by auto
  have "chain (hp(a := None)) (hi_next it) as"
    using ch Cons.prems by (subst chain_cong [where hp = hp]) auto
  then have "hashtbl_free_chain (hp(a := None)) (hi_next it) = Some (hp(a := None) |` (- set as))"
    by (rule Cons.IH) (use Cons.prems in simp)
  moreover have "hp(a := None) |` (- set as) = hp |` (- set (a # as))"
    by (auto simp: restrict_map_def)
  ultimately show ?case using p it by (subst hashtbl_free_chain.simps) simp
qed

lemma free_buckets_frees:
  assumes "\<And>i. i \<in> set is \<Longrightarrow> chain hp (tbl i) (bs i) \<and> distinct (bs i)" and "distinct is"
    and "\<And>i j. i \<noteq> j \<Longrightarrow> set (bs i) \<inter> set (bs j) = {}"
  shows "hashtbl_free_buckets tbl is hp = Some (hp |` (- (\<Union>i \<in> set is. set (bs i))))"
  using assms(1,2)
proof (induction "is" arbitrary: hp)
  case (Cons i "is")
  let ?hp = "hp |` (- set (bs i))"
  have "hashtbl_free_chain hp (tbl i) = Some ?hp"
    using Cons.prems(1) [of i] by (simp add: free_chain_frees)
  moreover have "hashtbl_free_buckets tbl is ?hp = Some (?hp |` (- (\<Union>i \<in> set is. set (bs i))))"
  proof (rule Cons.IH)
    fix j assume j: "j \<in> set is"
    then have "j \<noteq> i" using Cons.prems(2) by auto
    then have "set (bs j) \<inter> set (bs i) = {}" by (rule assms(3))
    then have "chain ?hp (tbl j) (bs j) = chain hp (tbl j) (bs j)"
      by (intro chain_cong) (auto simp: restrict_map_def)
    then show "chain ?hp (tbl j) (bs j) \<and> distinct (bs j)" using Cons.prems(1) [of j] j by simp
  qed (use Cons.prems(2) in simp)
  ultimately show ?case by (simp add: restrict_restrict Int_commute)
qed (simp add: restrict_map_def)

text \<open>Every item hashes to a bucket the loop visits, so nothing is left allocated.\<close>

lemma hashtbl_free_all:
  assumes "htbl_inv t"
  shows "hashtbl_free t = Some Map.empty"
proof -
  obtain bs l where sh: "htbl_shape t bs l" using assms unfolding htbl_inv_def by blast
  note D = htbl_shapeD [OF sh]
  have dis: "set (bs i) \<inter> set (bs j) = {}" if "i \<noteq> j" for i j
  proof (rule ccontr)
    assume "set (bs i) \<inter> set (bs j) \<noteq> {}"
    then obtain a where "a \<in> set (bs i)" "a \<in> set (bs j)" by blast
    then show False using D(3) that by metis
  qed
  have "hashtbl_free t = Some (hheap t |` (- (\<Union>i \<in> set [0..<HACH_TABLE_MAX + 1]. set (bs i))))"
    unfolding hashtbl_free_def
    by (rule free_buckets_frees) (use D(1,2) dis in \<open>simp_all del: upt_Suc\<close>)
  also have "hheap t |` (- (\<Union>i \<in> set [0..<HACH_TABLE_MAX + 1]. set (bs i))) = Map.empty"
  proof
    fix a
    show "(hheap t |` (- (\<Union>i \<in> set [0..<HACH_TABLE_MAX + 1]. set (bs i)))) a = None"
    proof (cases "hheap t a")
      case (Some it)
      have "hach_string (hi_key it) \<in> set [0..<HACH_TABLE_MAX + 1]"
        using hach_string_bound [of "hi_key it"] by simp
      then show ?thesis using shape_item [OF sh Some] by (auto simp: restrict_map_def)
    qed (simp add: restrict_map_def)
  qed
  finally show ?thesis .
qed

section \<open>Properties\<close>

text \<open>Sequences of updates, and the finite map they denote: keys are compared without case.\<close>

datatype 'v htbl_op = Append string 'v | Erase string

fun htbl_exec :: "'v htbl_op \<Rightarrow> 'v HTBL \<Rightarrow> 'v HTBL option" where
  "htbl_exec (Append k v) t = hashtbl_append t (Some k) v"
| "htbl_exec (Erase k) t = hashtbl_erase t (Some k)"

fun htbl_run :: "'v htbl_op list \<Rightarrow> 'v HTBL \<Rightarrow> 'v HTBL option" where
  "htbl_run [] t = Some t"
| "htbl_run (c # cs) t = Option.bind (htbl_exec c t) (htbl_run cs)"

fun map_exec :: "'v htbl_op \<Rightarrow> (string \<rightharpoonup> 'v) \<Rightarrow> (string \<rightharpoonup> 'v)" where
  "map_exec (Append k v) m = m(casefold k \<mapsto> v)"
| "map_exec (Erase k) m = m(casefold k := None)"

lemma htbl_exec_refines:
  assumes "htbl_inv t" and "\<And>k. hashtbl_seek t (Some k) = Some (m (casefold k))"
  obtains t' where "htbl_exec c t = Some t'" "htbl_inv t'"
    and "\<And>k. hashtbl_seek t' (Some k) = Some (map_exec c m (casefold k))"
proof (cases c)
  case (Append k v)
  from hashtbl_append_law [OF assms(1), of k v] show thesis
    by (elim exE conjE, intro that) (auto simp: Append assms(2) strcaseeq_def)
next
  case (Erase k)
  from hashtbl_erase_law [OF assms(1), of k] show thesis
    by (elim exE conjE, intro that) (auto simp: Erase assms(2) strcaseeq_def)
qed

lemma htbl_run_refines:
  assumes "htbl_inv t" and "\<And>k. hashtbl_seek t (Some k) = Some (m (casefold k))"
  shows "\<exists>t'. htbl_run cs t = Some t' \<and> htbl_inv t' \<and>
     (\<forall>k. hashtbl_seek t' (Some k) = Some (fold map_exec cs m (casefold k)))"
  using assms
proof (induction cs arbitrary: t m)
  case (Cons c cs)
  obtain t1 where t1: "htbl_exec c t = Some t1" "htbl_inv t1"
    "\<And>k. hashtbl_seek t1 (Some k) = Some (map_exec c m (casefold k))"
    using htbl_exec_refines [OF Cons.prems, of c] by blast
  from Cons.IH [OF t1(2,3)] show ?case by (simp add: t1(1))
qed simp

text \<open>C3. The hash table implements a finite map from strings up to case: whatever sequence of
  appends and erases is applied to a fresh table, every operation completes without touching a
  dangling pointer, the bucket chains and the doubly linked list stay well formed, and a lookup of
  any key returns exactly the value the map holds for it.\<close>

theorem hashtbl_refines_map:
  "\<exists>t. htbl_run cs hashtbl_init = Some t \<and> htbl_inv t \<and>
     (\<forall>k. hashtbl_seek t (Some k) = Some (fold map_exec cs Map.empty (casefold k)))"
  by (rule htbl_run_refines) (simp_all add: htbl_inv_init ht.seek_empty)

text \<open>C34. Freeing a table that any sequence of updates has built releases every item exactly once
  (no dangling access on the way) and leaves nothing allocated.\<close>

theorem hashtbl_free_no_leak:
  "\<exists>t. htbl_run cs hashtbl_init = Some t \<and> hashtbl_free t = Some Map.empty"
  using htbl_run_refines [OF htbl_inv_init, where m = Map.empty and cs = cs] hashtbl_free_all
  by (auto simp: ht.seek_empty)

end
