(* ===== verification/Ape_Utils.thy ===== *)
theory Ape_Utils
  imports Ape_Prelude
begin

text \<open>
  The string and number helpers of \<open>src/utils.c\<close>. In-place string functions are modelled on the
  content of the buffer before and after; \<open>None\<close> stands for an access outside the buffer or a signed
  overflow. \<open>xmalloc\<close>, \<open>xrealloc\<close> and \<open>xstrdup\<close> end the process on failure and have no other effect
  on the model.
\<close>

section \<open>Case, integers\<close>

definition s_tolower :: "string \<Rightarrow> nat \<Rightarrow> string option" where
  "s_tolower upper len =
     (if len \<le> length upper + 1 then Some (map tolower (take len upper) @ drop len upper) else None)"

fun itos_loop :: "nat \<Rightarrow> string \<Rightarrow> string" where
  "itos_loop input acc =
     (if input = 0 then acc else itos_loop (input div 10) (char_of (48 + input mod 10) # acc))"

declare itos_loop.simps [simp del]

definition LLONG_MIN :: int where "LLONG_MIN = - (2 ^ 63)"
definition LLONG_MAX :: int where "LLONG_MAX = 2 ^ 63 - 1"

text \<open>The text \<open>itos\<close> leaves at the end of the output buffer of \<open>len\<close> bytes and the offset it
  returns. Negating \<open>LLONG_MIN\<close> overflows.\<close>

definition itos :: "int \<Rightarrow> nat \<Rightarrow> (string \<times> nat) option" where
  "itos input len =
     (if input = LLONG_MIN then None
      else let s = (if input < 0 then ''-'' else []) @ itos_loop (nat \<bar>input\<bar>) [] in
        if length s < len then Some (s, len - 1 - length s) else None)"

text \<open>\<open>LENGTH_N\<close>: the number of decimal digits; the macro computes it with \<open>log10\<close>.\<close>

definition LENGTH_N :: "int \<Rightarrow> nat" where
  "LENGTH_N num = (if 0 \<le> num \<and> num < 10 then 1 else length (itos_loop (nat \<bar>num\<bar>) []))"

section \<open>Trimming and searching\<close>

definition is_blank :: "char \<Rightarrow> bool" where
  "is_blank c \<longleftrightarrow> c = CHR '' '' \<or> c = CHR 0x09 \<or> c = CHR 0x0A \<or> c = CHR 0x0D"

text \<open>After the leading blanks are shifted out, \<open>trim\<close> scans back from the last character; nothing
  stops that scan at the start of the buffer when no character is left.\<close>

definition trim :: "string \<Rightarrow> string option" where
  "trim s =
     (let s' = dropWhile is_blank s in
      if s' = [] then None else Some (rev (dropWhile is_blank (rev s'))))"

definition removelast :: "string \<Rightarrow> nat \<Rightarrow> string option option" where
  "removelast input n =
     (if length input < n then None
      else if length input - n < 1 then Some None
      else Some (Some (take (length input - n) input)))"

fun seof_from :: "string \<Rightarrow> char \<Rightarrow> nat \<Rightarrow> int" where
  "seof_from [] stop pos = -1"
| "seof_from (c # buf) stop pos = (if c = stop then int pos + 1 else seof_from buf stop (Suc pos))"

definition seof :: "string \<Rightarrow> char \<Rightarrow> int" where
  "seof buf stop = seof_from buf stop 0"

definition sneof :: "string \<Rightarrow> nat \<Rightarrow> nat \<Rightarrow> int option" where
  "sneof buf len maxn =
     (if min len maxn \<le> length buf then Some (seof (take (min len maxn) buf) (CHR 0x0A)) else None)"

section \<open>Splitting\<close>

text \<open>\<open>explode\<close> cuts the string at every separator and stores the start of each piece, skipping
  empty ones except the first; when \<open>limit\<close> pieces exist the last one keeps the rest. \<open>cur\<close> is the
  piece being read and \<open>i\<close> its index; the result is the list of pieces, one more than the number the
  function returns.\<close>

fun explode_loop :: "char \<Rightarrow> nat \<Rightarrow> nat \<Rightarrow> string \<Rightarrow> string \<Rightarrow> string list" where
  "explode_loop split limit i cur [] = [cur]"
| "explode_loop split limit i cur (c # cs) =
     (if c = split then
        (if cs \<noteq> [] \<and> hd cs \<noteq> split then
           (if i + 2 = limit then [cur, cs] else cur # explode_loop split limit (i + 1) [] cs)
         else if i + 1 = limit then [cur]
         else explode_loop split limit i cur cs)
      else if i + 1 = limit then [cur @ c # cs]
      else explode_loop split limit i (cur @ [c]) cs)"

definition explode :: "char \<Rightarrow> string \<Rightarrow> nat \<Rightarrow> string list" where
  "explode split input limit = explode_loop split limit 0 [] input"

definition get_path :: "string \<Rightarrow> string option" where
  "get_path full_path =
     (if CHR ''/'' \<in> set full_path
      then Some (rev (dropWhile (\<lambda>c. c \<noteq> CHR ''/'') (rev full_path))) else None)"

section \<open>URL decoding\<close>

definition hex2int :: "u8 \<Rightarrow> u8" where
  "hex2int hex0 =
     (let hex = hex0 - 48;
          hex = (if 9 < hex then ((hex + 48 - 1) OR 0x20) - 97 + 11 else hex) in
      if 15 < hex then 0xFF else hex)"

definition byte_of :: "char \<Rightarrow> u8" where "byte_of c = of_char c"
definition char_of_byte :: "u8 \<Rightarrow> char" where "char_of_byte b = char_of (unat b)"

text \<open>One turn of the loop on \<open>%\<close>: the bytes after it (NUL at the end of the string) are read as
  hexadecimal digits; control characters become an underscore.\<close>

definition url_nth :: "string \<Rightarrow> nat \<Rightarrow> u8" where
  "url_nth s i = (if i < length s then byte_of (s ! i) else 0)"

definition url_escape :: "string \<Rightarrow> u8 option" where
  "url_escape rest =
     (let high = hex2int (url_nth rest 0) in
      if high \<noteq> 0xFF then
        (let low = hex2int (url_nth rest 1) in
         if low \<noteq> 0xFF then
           (let high = push_bit 4 high OR low in
            Some (if high < 32 \<or> high = 127 then 95 else high))
         else None)
      else None)"

function urldecode :: "string \<Rightarrow> string" where
  "urldecode [] = []"
| "urldecode (c # src) =
     (if c = CHR ''%'' then
        (case url_escape src of
           Some b \<Rightarrow> char_of_byte b # urldecode (drop 2 src)
         | None \<Rightarrow> CHR ''%'' # urldecode src)
      else c # urldecode src)"
  by pat_completeness auto
termination by (relation "measure length") auto

section \<open>Random numbers\<close>

text \<open>\<open>rand\<close> is the C library's; it is the parameter \<open>rand\<close>, indexed by the number of earlier
  calls. \<open>rand_n\<close> draws again until the value falls into the part that divides evenly.\<close>

definition RAND_MAX :: int where "RAND_MAX = 2147483647"

definition partSize :: "int \<Rightarrow> int" where
  "partSize n = 1 + (if n = RAND_MAX then 0 else (RAND_MAX - n) div (n + 1))"

definition maxUsefull :: "int \<Rightarrow> int" where
  "maxUsefull n = partSize n * n + (partSize n - 1)"

partial_function (option) rand_n :: "(nat \<Rightarrow> int) \<Rightarrow> nat \<Rightarrow> int \<Rightarrow> (int \<times> nat) option" where
  "rand_n rand pos n =
     (if rand pos > maxUsefull n then rand_n rand (Suc pos) n
      else Some (rand pos div partSize n, Suc pos))"

section \<open>Lemmas\<close>

fun dec_value :: "string \<Rightarrow> nat \<Rightarrow> nat" where
  "dec_value [] v = v"
| "dec_value (c # cs) v = dec_value cs (10 * v + (of_char c - 48))"

definition int_value :: "string \<Rightarrow> int" where
  "int_value s = (if s \<noteq> [] \<and> hd s = CHR ''-'' then - int (dec_value (tl s) 0) else int (dec_value s 0))"

lemma dec_value_append: "dec_value (xs @ ys) v = dec_value ys (dec_value xs v)"
  by (induction xs arbitrary: v) auto

lemma itos_loop_unfold:
  "n \<noteq> 0 \<Longrightarrow> itos_loop n acc = itos_loop (n div 10) (char_of (48 + n mod 10) # acc)"
  by (subst itos_loop.simps) simp

lemma itos_loop_0 [simp]: "itos_loop 0 acc = acc"
  by (subst itos_loop.simps) simp

lemma itos_loop_append: "itos_loop n acc = itos_loop n [] @ acc"
proof (induction n arbitrary: acc rule: less_induct)
  case (less n)
  show ?case
  proof (cases "n = 0")
    case False
    let ?d = "char_of (48 + n mod 10)"
    have "itos_loop (n div 10) (?d # acc) = itos_loop (n div 10) [] @ ?d # acc"
      and "itos_loop (n div 10) [?d] = itos_loop (n div 10) [] @ [?d]"
      using False by (intro less; simp)+
    then show ?thesis using False by (simp add: itos_loop_unfold)
  qed simp
qed

lemma itos_loop_step: "n \<noteq> 0 \<Longrightarrow> itos_loop n [] = itos_loop (n div 10) [] @ [char_of (48 + n mod 10)]"
  using itos_loop_append [of "n div 10" "[char_of (48 + n mod 10)]"] by (simp add: itos_loop_unfold)

lemma digit_code: "(of_char (char_of (48 + n mod 10) :: char) :: nat) = 48 + n mod 10"
proof -
  have "48 + n mod 10 < (256 :: nat)" by (rule less_trans [of _ "48 + 10"]) simp_all
  then show ?thesis by simp
qed

lemma dec_value_itos: "dec_value (itos_loop n []) 0 = n"
proof (induction n rule: less_induct)
  case (less n)
  show ?case
  proof (cases "n = 0")
    case False
    then have "dec_value (itos_loop (n div 10) []) 0 = n div 10" by (intro less) simp
    then show ?thesis using False by (simp add: itos_loop_step dec_value_append digit_code)
  qed (simp add: itos_loop.simps)
qed

lemma itos_loop_digits: "c \<in> set (itos_loop n []) \<Longrightarrow> c \<noteq> CHR ''-''"
proof (induction n rule: less_induct)
  case (less n)
  show ?case
  proof (cases "n = 0")
    case False
    have "(of_char CHR ''-'' :: nat) \<noteq> 48 + n mod 10" by simp
    then have "char_of (48 + n mod 10) \<noteq> CHR ''-''" using digit_code [of n] by metis
    moreover have "c \<noteq> CHR ''-''" if "c \<in> set (itos_loop (n div 10) [])"
      using False that by (intro less.IH [of "n div 10"]) simp_all
    ultimately show ?thesis using False less.prems by (auto simp: itos_loop_step)
  qed (use less in simp)
qed


lemma int_value_itos:
  "int_value ((if n < 0 then ''-'' else []) @ itos_loop (nat \<bar>n\<bar>) []) = n"
proof (cases "n < 0")
  case False
  have "hd (itos_loop (nat n) []) \<noteq> CHR ''-''" if "itos_loop (nat n) [] \<noteq> []"
    using that by (intro itos_loop_digits [of _ "nat n"]) simp
  then show ?thesis using False dec_value_itos [of "nat n"] by (auto simp: int_value_def)
qed (simp add: int_value_def dec_value_itos)

lemma LENGTH_N_digits: "length (itos_loop (nat \<bar>n\<bar>) []) \<le> LENGTH_N n"
proof (cases "0 \<le> n \<and> n < 10")
  case True
  then have "nat \<bar>n\<bar> div 10 = 0" by auto
  then show ?thesis using True by (cases "nat \<bar>n\<bar> = 0") (simp_all add: LENGTH_N_def itos_loop_step)
qed (auto simp: LENGTH_N_def)

lemma itos_LENGTH_N:
  assumes "LLONG_MIN < n"
  obtains s where "itos n (LENGTH_N n + 2) = Some (s, LENGTH_N n + 1 - length s)"
    and "s = (if n < 0 then ''-'' else []) @ itos_loop (nat \<bar>n\<bar>) []"
    and "length s \<le> LENGTH_N n + 1"
proof -
  let ?s = "(if n < 0 then ''-'' else []) @ itos_loop (nat \<bar>n\<bar>) []"
  have "length ?s \<le> LENGTH_N n + 1" using LENGTH_N_digits [of n] by auto
  then show thesis using assms by (intro that [of ?s]) (auto simp: itos_def Let_def)
qed

lemma explode_loop_length:
  "i + 2 \<le> limit \<Longrightarrow> length (explode_loop sp limit i cur s) + i \<le> limit"
  by (induction sp limit i cur s rule: explode_loop.induct) (auto simp: less_eq_Suc_le)

lemma trim_None_iff: "trim s = None \<longleftrightarrow> (\<forall>c \<in> set s. is_blank c)"
  by (simp add: trim_def Let_def)

lemma hex2int_bound: "hex2int h = 0xFF \<or> hex2int h \<le> 15"
  by (auto simp: hex2int_def Let_def not_less)

text \<open>Percent-encoding of every byte, the inverse \<open>urldecode\<close> is meant for.\<close>

definition hexdigit :: "nat \<Rightarrow> char" where
  "hexdigit n = char_of (if n < 10 then 48 + n else 87 + n)"

fun urlencode :: "string \<Rightarrow> string" where
  "urlencode [] = []"
| "urlencode (c # cs) =
     CHR ''%'' # hexdigit (of_char c div 16) # hexdigit (of_char c mod 16) # urlencode cs"

lemma hex2int_hexdigit:
  assumes "n < 16"
  shows "hex2int (byte_of (hexdigit n)) = of_nat n" and "(of_nat n :: u8) \<noteq> 0xFF"
proof -
  have "\<forall>n \<in> set [0..<16]. hex2int (byte_of (hexdigit n)) = of_nat n" by code_simp
  then show "hex2int (byte_of (hexdigit n)) = of_nat n" using assms by simp
  have "\<forall>n \<in> set [0..<16]. (of_nat n :: u8) \<noteq> 0xFF" by code_simp
  then show "(of_nat n :: u8) \<noteq> 0xFF" using assms by simp
qed

lemma nibbles:
  assumes "c < 256"
  shows "push_bit 4 (of_nat (c div 16)) OR of_nat (c mod 16) = (of_nat c :: u8)"
proof -
  have "\<forall>c \<in> set [0..<256]. push_bit 4 (of_nat (c div 16)) OR of_nat (c mod 16) = (of_nat c :: u8)"
    by code_simp
  then show ?thesis using assms by simp
qed

lemma url_escape_hex:
  assumes "32 \<le> (of_char c :: nat)" and "(of_char c :: nat) \<noteq> 127"
  shows "url_escape (hexdigit (of_char c div 16) # hexdigit (of_char c mod 16) # cs) =
    Some (of_nat (of_char c))"
proof -
  have c: "(of_char c :: nat) < 256" by (rule of_char_less)
  then have "(of_char c :: nat) div 16 < 16" by (intro less_mult_imp_div_less) linarith
  note h = hex2int_hexdigit [OF this] hex2int_hexdigit [of "of_char c mod 16"]
  have "\<not> (of_nat (of_char c) :: u8) < 32" "(of_nat (of_char c) :: u8) \<noteq> 127"
    using assms c by (auto simp: word_less_nat_alt unat_of_nat word_unat_eq_iff)
  then show ?thesis using h nibbles [OF c]
    by (simp add: url_escape_def url_nth_def Let_def del: of_nat_of_char)
qed

text \<open>With a first useful draw at \<open>q\<close>, the loop of \<open>rand_n\<close> ends there.\<close>

lemma rand_n_first:
  assumes "pos \<le> q" and "rand q \<le> maxUsefull n" and "\<And>i. pos \<le> i \<Longrightarrow> i < q \<Longrightarrow> maxUsefull n < rand i"
  shows "rand_n rand pos n = Some (rand q div partSize n, Suc q)"
  using assms
proof (induction "q - pos" arbitrary: pos)
  case 0
  then show ?case by (subst rand_n.simps) simp
next
  case (Suc d)
  then have "maxUsefull n < rand pos" by simp
  moreover have "rand_n rand (Suc pos) n = Some (rand q div partSize n, Suc q)"
    using Suc by simp
  ultimately show ?case by (subst rand_n.simps) simp
qed

lemma rand_n_range:
  assumes "0 \<le> n" and "n \<le> RAND_MAX" and "0 \<le> d" and "d \<le> maxUsefull n"
  shows "0 \<le> d div partSize n \<and> d div partSize n \<le> n"
proof -
  have p: "0 < partSize n" using assms(1,2) pos_imp_zdiv_nonneg_iff [of "n + 1" "RAND_MAX - n"]
    by (simp add: partSize_def)
  have "d < partSize n * (n + 1)" using assms(4) by (simp add: maxUsefull_def algebra_simps)
  moreover have "partSize n * (d div partSize n) \<le> d" 
    using mult_div_mod_eq [of "partSize n" d] pos_mod_sign [OF p, of d] by linarith
  ultimately have "d div partSize n < n + 1"
    using p by (meson le_less_trans mult_less_cancel_left_pos)
  then show ?thesis using p assms(3) by (simp add: pos_imp_zdiv_nonneg_iff)
qed

section \<open>Properties\<close>

text \<open>A number formatted by \<open>itos\<close> in a buffer of \<open>LENGTH_N + 2\<close> bytes, as the JSON printer does,
  stays inside the buffer and reads back as the same number; only the most negative 64-bit integer,
  whose negation overflows, is excluded, and zero leaves the empty text.\<close>

lemma itos_roundtrip:
  assumes "LLONG_MIN < n" and "n \<le> LLONG_MAX"
  shows "\<exists>s off. itos n (LENGTH_N n + 2) = Some (s, off) \<and> off + length s + 1 = LENGTH_N n + 2 \<and>
    int_value s = n"
  using itos_LENGTH_N [OF assms(1)] int_value_itos [of n] by (metis add.commute add_2_eq_Suc' add_Suc_right le_add_diff_inverse2 One_nat_def add_0_right)

text \<open>C36. \<open>urldecode\<close> undoes percent-encoding: every string of printable bytes (not a control
  character, not DEL) is recovered from the encoding of each of its bytes as \<open>%hh\<close>.\<close>

theorem urldecode_roundtrip:
  assumes "list_all (\<lambda>c. 32 \<le> (of_char c :: nat) \<and> (of_char c :: nat) \<noteq> 127) s"
  shows "urldecode (urlencode s) = s"
  using assms
proof (induction s)
  case (Cons c s)
  then show ?case
    using of_char_less [of c] by (simp add: url_escape_hex char_of_byte_def unat_of_nat del: of_nat_of_char)
qed simp

theorem urldecode_roundtrip_witness: "urldecode (urlencode ''a b&c=%'') = ''a b&c=%''"
  by (rule urldecode_roundtrip) simp

text \<open>\<open>explode\<close> never stores a piece past the caller's array: with a limit of at least two
  slots it fills at most \<open>limit\<close> of them.\<close>

lemma explode_bound:
  assumes "2 \<le> limit"
  shows "1 \<le> length (explode sp s limit) \<and> length (explode sp s limit) \<le> limit"
proof -
  have "explode_loop sp limit i cur s \<noteq> []" for i cur
    by (induction sp limit i cur s rule: explode_loop.induct) auto
  then show ?thesis
    using explode_loop_length [of 0 limit sp "[]" s] assms
    by (simp add: explode_def Suc_le_eq)
qed

end
