(* ===== verification/Ape_Json.thy ===== *)
theory Ape_Json
  imports Ape_Utils
begin

text \<open>
  The JSON trees of \<open>src/json.c\<close> and \<open>src/json.h\<close>: construction, copy, lookup by path and printing.
  A \<open>json_item *\<close> is the first of a chain of siblings, so a pointer is a list of items and NULL the
  empty list; the \<open>father\<close> link is implicit in the nesting and \<open>jchild.head\<close> is the last child.
  A key or string value holds exactly the number of bytes its length field says. A \<open>double\<close> is a
  rational number (the finite doubles are dyadic rationals).
\<close>

section \<open>Data\<close>

datatype json_type =
    JSON_T_UNSET | JSON_T_NONE | JSON_T_ARRAY_BEGIN | JSON_T_ARRAY_END | JSON_T_OBJECT_BEGIN
  | JSON_T_OBJECT_END | JSON_T_INTEGER | JSON_T_FLOAT | JSON_T_NULL | JSON_T_TRUE | JSON_T_FALSE
  | JSON_T_STRING | JSON_T_KEY | JSON_T_MAX

datatype json_child_t = JSON_C_T_OBJ | JSON_C_T_ARR | JSON_C_T_VAL | JSON_C_T_NULL

datatype json_item =
  Item (jkey: "string option") (jstr: "string option") (jint: int) (jfloat: rat)
       (jtype: json_type) (jctype: json_child_t) (jchild: "json_item list")

definition init_json_item :: json_item where
  "init_json_item = Item None None 0 0 JSON_T_UNSET JSON_C_T_NULL []"

definition json_new_object :: json_item where
  "json_new_object = Item None None 0 0 JSON_T_UNSET JSON_C_T_OBJ []"

definition json_new_array :: json_item where
  "json_new_array = Item None None 0 0 JSON_T_UNSET JSON_C_T_ARR []"

section \<open>Construction\<close>

definition set_key :: "string option \<Rightarrow> nat \<Rightarrow> json_item \<Rightarrow> json_item" where
  "set_key key keylen it =
     (case key of
        None \<Rightarrow> it
      | Some k \<Rightarrow> Item (Some (take keylen k)) (jstr it) (jint it) (jfloat it) (jtype it) (jctype it) (jchild it))"

text \<open>Linking a new item behind the last child.\<close>

definition add_child :: "json_item \<Rightarrow> json_item \<Rightarrow> json_item" where
  "add_child obj it =
     Item (jkey obj) (jstr obj) (jint obj) (jfloat obj) (jtype obj) (jctype obj) (jchild obj @ [it])"

definition json_set_property_objN :: "json_item \<Rightarrow> string option \<Rightarrow> nat \<Rightarrow> json_item \<Rightarrow> json_item" where
  "json_set_property_objN obj key keylen val = add_child obj (set_key key keylen val)"

definition json_set_property_objZ :: "json_item \<Rightarrow> string \<Rightarrow> json_item \<Rightarrow> json_item" where
  "json_set_property_objZ obj key val = json_set_property_objN obj (Some key) (length key) val"

definition json_set_property_intN :: "json_item \<Rightarrow> string option \<Rightarrow> nat \<Rightarrow> int \<Rightarrow> json_item" where
  "json_set_property_intN obj key keylen val =
     add_child obj (set_key key keylen (Item None None val 0 JSON_T_INTEGER JSON_C_T_NULL []))"

definition json_set_property_intZ :: "json_item \<Rightarrow> string option \<Rightarrow> int \<Rightarrow> json_item" where
  "json_set_property_intZ obj key val =
     json_set_property_intN obj key (case key of None \<Rightarrow> 0 | Some k \<Rightarrow> length k) val"

definition json_set_property_floatN :: "json_item \<Rightarrow> string option \<Rightarrow> nat \<Rightarrow> rat \<Rightarrow> json_item" where
  "json_set_property_floatN obj key keylen val =
     add_child obj (set_key key keylen (Item None None 0 val JSON_T_FLOAT JSON_C_T_NULL []))"

definition json_set_property_boolean :: "json_item \<Rightarrow> string option \<Rightarrow> nat \<Rightarrow> int \<Rightarrow> json_item" where
  "json_set_property_boolean obj key keylen val =
     add_child obj (set_key key keylen
       (Item None None 0 0 (if val \<noteq> 0 then JSON_T_TRUE else JSON_T_FALSE) JSON_C_T_NULL []))"

definition json_set_property_null :: "json_item \<Rightarrow> string option \<Rightarrow> nat \<Rightarrow> json_item" where
  "json_set_property_null obj key keylen =
     add_child obj (set_key key keylen (Item None None 0 0 JSON_T_NULL JSON_C_T_NULL []))"

definition json_set_property_strN ::
  "json_item \<Rightarrow> string option \<Rightarrow> nat \<Rightarrow> string \<Rightarrow> nat \<Rightarrow> json_item" where
  "json_set_property_strN obj key keylen val valuelen =
     add_child obj (set_key key keylen
       (Item None (Some (take valuelen val)) 0 0 JSON_T_STRING JSON_C_T_NULL []))"

definition json_set_property_strZ :: "json_item \<Rightarrow> string option \<Rightarrow> string \<Rightarrow> json_item" where
  "json_set_property_strZ obj key val =
     json_set_property_strN obj key (case key of None \<Rightarrow> 0 | Some k \<Rightarrow> length k) val (length val)"

definition json_set_element_strN :: "json_item \<Rightarrow> string \<Rightarrow> nat \<Rightarrow> json_item" where
  "json_set_element_strN obj val valuelen = json_set_property_strN obj None 0 val valuelen"

definition json_set_element_strZ :: "json_item \<Rightarrow> string \<Rightarrow> json_item" where
  "json_set_element_strZ obj val = json_set_property_strZ obj None val"

definition json_set_element_obj :: "json_item \<Rightarrow> json_item \<Rightarrow> json_item" where
  "json_set_element_obj obj val = json_set_property_objN obj None 0 val"

definition json_set_element_int :: "json_item \<Rightarrow> int \<Rightarrow> json_item" where
  "json_set_element_int obj val = json_set_property_intN obj None 0 val"

definition json_set_element_float :: "json_item \<Rightarrow> rat \<Rightarrow> json_item" where
  "json_set_element_float obj val = json_set_property_floatN obj None 0 val"

definition json_set_element_boolean :: "json_item \<Rightarrow> int \<Rightarrow> json_item" where
  "json_set_element_boolean obj val = json_set_property_boolean obj None 0 val"

definition json_set_element_null :: "json_item \<Rightarrow> json_item" where
  "json_set_element_null obj = json_set_property_null obj None 0"

text \<open>A copy keeps one value only: the string, else a non-zero integer, else the float.\<close>

fun json_item_copy :: "json_item \<Rightarrow> json_item" where
  "json_item_copy (Item k s n f t ct ch) =
     Item k s (if s \<noteq> None then 0 else n) (if s \<noteq> None \<or> n \<noteq> 0 then 0 else f) t ct
       (map json_item_copy ch)"

section \<open>Printing\<close>

fun escape_json_char :: "char \<Rightarrow> string" where
  "escape_json_char c =
     (if c = CHR 0x22 then [CHR 0x5C, CHR 0x22]
      else if c = CHR 0x5C then [CHR 0x5C, CHR 0x5C]
      else if c = CHR 0x0A then [CHR 0x5C, CHR ''n'']
      else if c = CHR 0x08 then [CHR 0x5C, CHR ''b'']
      else if c = CHR 0x09 then [CHR 0x5C, CHR ''t'']
      else if c = CHR 0x0C then [CHR 0x5C, CHR ''f'']
      else if c = CHR 0x0D then [CHR 0x5C, CHR ''r'']
      else if c = CHR 0x27 then [CHR 0x5C, CHR 0x27]
      else [c])"

definition escape_json_string :: "string \<Rightarrow> string" where
  "escape_json_string s = concat (map escape_json_char s)"

text \<open>\<open>printf("%f")\<close>: six decimals, rounded to even.\<close>

definition round_half_even :: "rat \<Rightarrow> int" where
  "round_half_even x =
     (let n = \<lfloor>x\<rfloor>; d = x - of_int n in
      if d < 1/2 then n else if d > 1/2 then n + 1 else if even n then n else n + 1)"

definition dec_digits :: "nat \<Rightarrow> string" where
  "dec_digits n = (if n = 0 then ''0'' else itos_loop n [])"

definition printf_f :: "rat \<Rightarrow> string" where
  "printf_f x =
     (let m = nat (round_half_even (\<bar>x\<bar> * 1000000)); fr = dec_digits (m mod 1000000) in
      (if x < 0 then ''-'' else []) @ dec_digits (m div 1000000) @ ''.'' @
      replicate (6 - length fr) CHR ''0'' @ fr)"

definition print_int :: "int \<Rightarrow> string" where
  "print_int n = (case itos n (LENGTH_N n + 2) of Some (s, _) \<Rightarrow> s | None \<Rightarrow> [])"

definition print_value :: "json_item \<Rightarrow> string" where
  "print_value it =
     (case jstr it of
        Some s \<Rightarrow> CHR 0x22 # escape_json_string s @ [CHR 0x22]
      | None \<Rightarrow>
          if jint it \<noteq> 0 then print_int (jint it)
          else if jfloat it \<noteq> 0 then take 16 (printf_f (jfloat it))
          else if jtype it = JSON_T_TRUE then ''true''
          else if jtype it = JSON_T_FALSE then ''false''
          else if jtype it = JSON_T_NULL then ''null''
          else if jchild it = [] then ''0'' else [])"

definition print_key :: "json_item \<Rightarrow> string" where
  "print_key it = (case jkey it of None \<Rightarrow> [] | Some k \<Rightarrow> CHR 0x22 # k @ [CHR 0x22, CHR '':''])"

fun open_brace :: "json_child_t \<Rightarrow> string" where
  "open_brace JSON_C_T_OBJ = [CHR 0x7B]"
| "open_brace JSON_C_T_ARR = ''[''"
| "open_brace _ = []"

fun close_brace :: "json_child_t \<Rightarrow> string" where
  "close_brace JSON_C_T_OBJ = [CHR 0x7D]"
| "close_brace JSON_C_T_ARR = '']''"
| "close_brace _ = []"

text \<open>The loop over siblings; \<open>fa\<close> is the type of the father, absent at the root.\<close>

fun json_print :: "json_child_t option \<Rightarrow> json_item list \<Rightarrow> string" where
  "json_print fa [] = []"
| "json_print fa (Item k s n f t ct ch # rest) =
     print_key (Item k s n f t ct ch) @ print_value (Item k s n f t ct ch) @
     (if ch \<noteq> [] then open_brace ct @ json_print (Some ct) ch else []) @
     (case fa of None \<Rightarrow> [] | Some c \<Rightarrow> if rest \<noteq> [] then '','' else close_brace c) @
     json_print fa rest"

text \<open>No integer of the tree makes \<open>itos\<close> overflow.\<close>

fun json_printable :: "json_item \<Rightarrow> bool" where
  "json_printable (Item k s n f t ct ch) \<longleftrightarrow>
     (s \<noteq> None \<or> LLONG_MIN < n) \<and> list_all json_printable ch"

definition json_to_string :: "json_item list \<Rightarrow> string option" where
  "json_to_string head = (if list_all json_printable head then Some (json_print None head) else None)"

fun eval_item :: "json_item \<Rightarrow> nat" where
  "eval_item (Item k s n f t ct ch) =
     (case k of None \<Rightarrow> 0 | Some x \<Rightarrow> length x + 3) +
     (case s of Some v \<Rightarrow> length v + 3 | None \<Rightarrow> if ch = [] then 16 else 0) +
     (if ch \<noteq> [] then 2 + sum_list (map eval_item ch) else 0)"

definition json_evaluate_string_size :: "json_item list \<Rightarrow> nat" where
  "json_evaluate_string_size head = 2 + sum_list (map eval_item head)"

section \<open>Lookup\<close>

text \<open>The walk over siblings, descending at each matching path component and never coming back. The
  result is the chain that starts at the found item or, if it has any, at its children.\<close>

function json_walk :: "json_item list \<Rightarrow> string list \<Rightarrow> json_item list" where
  "json_walk [] ts = []"
| "json_walk (it # rest) [] = []"
| "json_walk (it # rest) (t # ts) =
     (if (case jkey it of None \<Rightarrow> False | Some k \<Rightarrow> strcaseeq t k) then
        (if ts = [] then (if jchild it \<noteq> [] then jchild it else it # rest)
         else json_walk (jchild it) ts)
      else json_walk rest (t # ts))"
  by pat_completeness auto
termination
proof (relation "measure (\<lambda>(l, ts). size_list size l)")
  fix it :: json_item and rest t ts
  show "((jchild it, ts), it # rest, t # ts) \<in> measure (\<lambda>(l, ts). size_list size l)"
    by (cases it) simp
qed auto

definition json_lookup :: "json_item list \<Rightarrow> string \<Rightarrow> json_item list" where
  "json_lookup head path = (if head = [] then [] else json_walk head (explode (CHR ''.'') path 15))"

section \<open>Lemmas\<close>

text \<open>What every tree of the server satisfies: integers have 64 bits, and an item with children
  carries no number and no literal of its own.\<close>

fun json_wf :: "json_item \<Rightarrow> bool" where
  "json_wf (Item k s n f t ct ch) \<longleftrightarrow>
     LLONG_MIN < n \<and> n \<le> LLONG_MAX \<and>
     (s = None \<and> ch \<noteq> [] \<longrightarrow> n = 0 \<and> f = 0 \<and> t \<notin> {JSON_T_TRUE, JSON_T_FALSE, JSON_T_NULL}) \<and>
     list_all json_wf ch"

definition json_container :: "json_item \<Rightarrow> bool" where
  "json_container it \<longleftrightarrow> json_wf it \<and> jstr it = None \<and> jint it = 0 \<and> jfloat it = 0 \<and> jtype it = JSON_T_UNSET"

lemma json_wf_printable: "json_wf it \<Longrightarrow> json_printable it"
  by (induction it rule: json_printable.induct) (auto simp: list_all_iff)

lemma json_container_new [simp, ape_wf]: "json_container json_new_object" "json_container json_new_array"
  by (simp_all add: json_container_def json_new_object_def json_new_array_def LLONG_MIN_def LLONG_MAX_def)

lemma json_wf_set_key [simp]: "json_wf (set_key k n it) = json_wf it"
  by (cases it) (simp add: set_key_def split: option.split)

lemma json_container_wf: "json_container it \<Longrightarrow> json_wf it"
  by (simp add: json_container_def)

lemma json_container_add [ape_wf]:
  "json_container obj \<Longrightarrow> json_wf it \<Longrightarrow> json_container (add_child obj it)"
  by (cases obj) (simp add: json_container_def add_child_def)

lemma json_container_set [simp, ape_wf]:
  assumes "json_container obj"
  shows "json_wf v \<Longrightarrow> json_container (json_set_property_objN obj k l v)"
    and "json_wf v \<Longrightarrow> json_container (json_set_property_objZ obj ks v)"
    and "json_wf v \<Longrightarrow> json_container (json_set_element_obj obj v)"
    and "LLONG_MIN < n \<Longrightarrow> n \<le> LLONG_MAX \<Longrightarrow> json_container (json_set_property_intN obj k l n)"
    and "json_container (json_set_property_strN obj k l sv vl)"
    and "json_container (json_set_property_strZ obj k sv)"
  using assms
  by (simp_all add: json_set_property_objN_def json_set_property_objZ_def json_set_element_obj_def
      json_set_property_intN_def json_set_property_strN_def json_set_property_strZ_def
      json_container_add LLONG_MIN_def LLONG_MAX_def)

lemma json_item_copy_wf: "json_wf it \<Longrightarrow> json_wf (json_item_copy it)"
  by (induction it rule: json_item_copy.induct) (auto simp: list_all_iff LLONG_MIN_def LLONG_MAX_def)

text \<open>Number of digits.\<close>

lemma itos_loop_length: "n < 10 ^ k \<Longrightarrow> length (itos_loop n []) \<le> k"
proof (induction k arbitrary: n)
  case (Suc k)
  show ?case
  proof (cases "n = 0")
    case False
    have "n div 10 < 10 ^ k" using Suc.prems by (simp add: less_mult_imp_div_less mult.commute)
    then show ?thesis using Suc.IH False by (simp add: itos_loop_step)
  qed simp
qed simp

lemma print_int_length:
  assumes "LLONG_MIN < n" and "n \<le> LLONG_MAX"
  shows "length (print_int n) \<le> 20"
proof -
  obtain s where s: "itos n (LENGTH_N n + 2) = Some (s, LENGTH_N n + 1 - length s)"
    "s = (if n < 0 then ''-'' else []) @ itos_loop (nat \<bar>n\<bar>) []"
    using itos_LENGTH_N [OF assms(1)] by metis
  have "nat \<bar>n\<bar> < 10 ^ 19" using assms by (simp add: LLONG_MIN_def LLONG_MAX_def)
  then have "length (itos_loop (nat \<bar>n\<bar>) []) \<le> 19" by (rule itos_loop_length)
  then show ?thesis using s by (cases "n < 0") (simp_all add: print_int_def)
qed

lemma escape_json_string_length: "length (escape_json_string s) \<le> 2 * length s"
  by (induction s) (auto simp: escape_json_string_def)

lemma brace_length: "length (open_brace c) \<le> 1" "length (close_brace c) \<le> 1"
  by (cases c; simp)+

lemma print_value_length:
  assumes "json_wf it"
  shows "length (print_value it) \<le>
     (case jstr it of Some v \<Rightarrow> 2 * length v + 2 | None \<Rightarrow> if jchild it = [] then 20 else 0)"
  using assms escape_json_string_length print_int_length
  by (cases it) (auto simp: print_value_def split: option.split)

lemma json_print_length:
  "list_all json_wf l \<Longrightarrow> length (json_print fa l) \<le> 2 * sum_list (map eval_item l)"
proof (induction fa l rule: json_print.induct)
  case (2 fa k s n f t ct ch rest)
  let ?it = "Item k s n f t ct ch"
  have rest: "length (json_print fa rest) \<le> 2 * sum_list (map eval_item rest)"
    using 2 by simp
  have ch: "length (json_print (Some ct) ch) \<le> 2 * sum_list (map eval_item ch)" if "ch \<noteq> []"
    using 2 that by simp
  have sep: "length (case fa of None \<Rightarrow> [] | Some c \<Rightarrow> if rest \<noteq> [] then '','' else close_brace c) \<le> 1"
    using brace_length(2) by (auto split: option.split)
  have key: "length (print_key ?it) \<le> (case k of None \<Rightarrow> 0 | Some x \<Rightarrow> length x + 3)"
    by (auto simp: print_key_def split: option.split)
  have val: "length (print_value ?it) \<le>
     (case s of Some v \<Rightarrow> 2 * length v + 2 | None \<Rightarrow> if ch = [] then 20 else 0)"
    using print_value_length [of ?it] 2(3) by (cases s) simp_all
  show ?case
    using rest ch sep key val brace_length(1) [of ct]
    by (cases s; cases "ch = []") auto
qed simp

lemma print_copy:
  "json_print fa (map json_item_copy l) = json_print fa l"
proof (induction fa l rule: json_print.induct)
  case (2 fa k s n f t ct ch rest)
  then show ?case by (auto simp: print_key_def print_value_def split: option.split)
qed simp

fun json_unescape :: "string \<Rightarrow> string" where
  "json_unescape (c # d # cs) =
     (if c = CHR 0x5C then
        (if d = CHR ''n'' then CHR 0x0A else if d = CHR ''b'' then CHR 0x08
         else if d = CHR ''t'' then CHR 0x09 else if d = CHR ''f'' then CHR 0x0C
         else if d = CHR ''r'' then CHR 0x0D else d) # json_unescape cs
      else c # json_unescape (d # cs))"
| "json_unescape cs = cs"

lemma unescape_plain: "c \<noteq> CHR 0x5C \<Longrightarrow> json_unescape (c # cs) = c # json_unescape cs"
  by (cases cs) auto

lemma unescape_char: "json_unescape (escape_json_char c @ cs) = c # json_unescape cs"
  by (auto simp: unescape_plain)

section \<open>Properties\<close>



text \<open>A deep copy of a tree prints exactly as the original, even though the copy keeps only one
  of an item's string, integer and float values.\<close>

lemma json_item_copy_prints:
  "json_to_string (map json_item_copy l) = json_to_string l"
proof -
  have "json_printable (json_item_copy it) = json_printable it" for it
    by (induction it rule: json_item_copy.induct) (auto simp: list_all_iff LLONG_MIN_def)
  then show ?thesis by (simp add: json_to_string_def print_copy list_all_iff)
qed

text \<open>Escaping loses nothing: undoing the backslash escapes of an escaped string gives the string
  back, whatever bytes it holds.\<close>

lemma escape_json_string_roundtrip: "json_unescape (escape_json_string s) = s"
  by (induction s) (simp_all add: escape_json_string_def unescape_char del: escape_json_char.simps)

end
