(* ===== verification/Ape_Extend.thy ===== *)
theory Ape_Extend
  imports Ape_Json
begin

text \<open>
  The property lists of \<open>src/extend.c\<close> that users, subusers, channels and pipes carry. A list of
  \<open>extend\<close> cells is a HOL list; the value's constructor is the \<open>EXTEND_TYPE\<close> tag. Strings are copied
  and trees are owned by their cell, so releasing a cell releases its value. \<open>get_json_object_*\<close> shows
  public properties only; the loop they share is \<open>public_props\<close>.
\<close>

section \<open>Data and operations\<close>

definition EXTEND_KEY_LENGTH :: nat where "EXTEND_KEY_LENGTH = 32"

datatype extend_val = EXTEND_STR string | EXTEND_JSON json_item | EXTEND_POINTER nat

datatype extend_public = EXTEND_ISPUBLIC | EXTEND_ISPRIVATE

record extend =
  ekey :: string
  eval :: extend_val
  evisibility :: extend_public

fun get_property :: "extend list \<Rightarrow> string \<Rightarrow> extend option" where
  "get_property [] key = None"
| "get_property (e # entry) key = (if ekey e = key then Some e else get_property entry key)"

definition get_property_val :: "extend list \<Rightarrow> string \<Rightarrow> extend_val option" where
  "get_property_val entry key = map_option eval (get_property entry key)"

fun del_property :: "extend list \<Rightarrow> string \<Rightarrow> extend list" where
  "del_property [] key = []"
| "del_property (e # entry) key = (if ekey e = key then entry else e # del_property entry key)"

text \<open>A pointer is always private. The result is the list and the new cell, if any.\<close>

definition add_property ::
  "extend list \<Rightarrow> string \<Rightarrow> extend_val \<Rightarrow> extend_public \<Rightarrow> extend list \<times> extend option" where
  "add_property entry key val visibility =
     (if EXTEND_KEY_LENGTH < length key then (entry, None)
      else let vis = (case val of EXTEND_POINTER _ \<Rightarrow> EXTEND_ISPRIVATE | _ \<Rightarrow> visibility);
               e = \<lparr>ekey = key, eval = val, evisibility = vis\<rparr> in
           (e # del_property entry key, Some e))"

definition clear_properties :: "extend list \<Rightarrow> extend list" where
  "clear_properties entry = []"

text \<open>The loop of \<open>get_json_object_user\<close>, \<open>get_json_object_channel\<close> and
  \<open>get_json_object_pipe_custom\<close> over the public properties. A public cell is a tree or a string.\<close>

fun public_props :: "extend list \<Rightarrow> json_item \<Rightarrow> json_item" where
  "public_props [] jprop = jprop"
| "public_props (e # es) jprop =
     public_props es
       (if evisibility e = EXTEND_ISPUBLIC then
          (case eval e of
             EXTEND_JSON v \<Rightarrow> json_set_property_objZ jprop (ekey e) (json_item_copy v)
           | EXTEND_STR v \<Rightarrow> json_set_property_strZ jprop (Some (ekey e)) v
           | EXTEND_POINTER _ \<Rightarrow> jprop)
        else jprop)"

definition has_public :: "extend list \<Rightarrow> bool" where
  "has_public es \<longleftrightarrow> list_ex (\<lambda>e. evisibility e = EXTEND_ISPUBLIC) es"

section \<open>Invariant\<close>

definition extend_inv :: "extend list \<Rightarrow> bool" where
  "extend_inv es \<longleftrightarrow>
     distinct (map ekey es) \<and>
     list_all (\<lambda>e. length (ekey e) \<le> EXTEND_KEY_LENGTH \<and>
       (case eval e of EXTEND_POINTER _ \<Rightarrow> evisibility e = EXTEND_ISPRIVATE
        | EXTEND_JSON v \<Rightarrow> json_wf v | EXTEND_STR _ \<Rightarrow> True)) es"

lemma extend_inv_Nil [simp]: "extend_inv []"
  by (simp add: extend_inv_def)

lemma del_property_set: "set (del_property es k) \<subseteq> set es"
  by (induction es) auto

lemma del_property_distinct:
  "distinct (map ekey es) \<Longrightarrow> distinct (map ekey (del_property es k)) \<and> k \<notin> ekey ` set (del_property es k)"
proof (induction es)
  case (Cons e es)
  have "ekey e \<notin> ekey ` set (del_property es k)"
    using Cons.prems image_mono [OF del_property_set, of ekey es k] by auto
  then show ?case using Cons by auto
qed simp

lemma get_property_None: "get_property es k = None \<longleftrightarrow> k \<notin> ekey ` set es"
  by (induction es) auto

lemma del_property_other: "k' \<noteq> k \<Longrightarrow> get_property (del_property es k) k' = get_property es k'"
  by (induction es) auto

lemma extend_inv_del [ape_wf]: "extend_inv es \<Longrightarrow> extend_inv (del_property es k)"
  using del_property_distinct [of es k] subsetD [OF del_property_set, of _ es k]
  by (simp add: extend_inv_def list_all_iff)

lemma extend_inv_add [ape_wf]:
  assumes "extend_inv es" and "\<And>v. val = EXTEND_JSON v \<Longrightarrow> json_wf v"
  shows "extend_inv (fst (add_property es k val vis))"
  using assms extend_inv_del [OF assms(1), of k] del_property_distinct [of es k]
  by (auto simp: add_property_def extend_inv_def Let_def split: extend_val.split)

lemma public_props_container [ape_wf]:
  "extend_inv es \<Longrightarrow> json_container jprop \<Longrightarrow> json_container (public_props es jprop)"
proof (induction es arbitrary: jprop)
  case (Cons e es)
  then have "extend_inv es" by (simp add: extend_inv_def)
  moreover have "json_wf v" if "eval e = EXTEND_JSON v" for v
    using Cons.prems that by (simp add: extend_inv_def)
  ultimately show ?case
    using Cons by (auto split: extend_val.split simp: json_item_copy_wf)
qed simp

text \<open>A property store, as its clients see it: the last value set under a key is the one read.\<close>

locale property_store =
  fixes get :: "'s \<Rightarrow> string \<Rightarrow> 'e option"
    and add :: "'s \<Rightarrow> string \<Rightarrow> 'e \<Rightarrow> 's"
    and del :: "'s \<Rightarrow> string \<Rightarrow> 's"
    and inv :: "'s \<Rightarrow> bool"
    and ok :: "string \<Rightarrow> 'e \<Rightarrow> bool"
  assumes get_add: "ok k v \<Longrightarrow> get (add s k v) k' = (if k' = k then Some v else get s k')"
    and get_del: "inv s \<Longrightarrow> get (del s k) k' = (if k' = k then None else get s k')"
    and inv_add: "inv s \<Longrightarrow> ok k v \<Longrightarrow> inv (add s k v)"
    and inv_del: "inv s \<Longrightarrow> inv (del s k)"
begin

lemma add_del:
  assumes "inv s" and "ok k v"
  shows "get (del (add s k v) k) k' = (if k' = k then None else get s k')"
  using assms by (simp add: get_del get_add inv_add)

lemma add_commute:
  assumes "ok k v" and "ok l w" and "k \<noteq> l"
  shows "get (add (add s k v) l w) = get (add (add s l w) k v)"
  using assms by (auto simp: get_add fun_eq_iff)

end

definition extend_cell_ok :: "string \<Rightarrow> extend \<Rightarrow> bool" where
  "extend_cell_ok k e \<longleftrightarrow> ekey e = k \<and> length k \<le> EXTEND_KEY_LENGTH \<and>
     (case eval e of EXTEND_POINTER _ \<Rightarrow> evisibility e = EXTEND_ISPRIVATE
        | EXTEND_JSON v \<Rightarrow> json_wf v | EXTEND_STR _ \<Rightarrow> True)"

lemma add_property_cell:
  "extend_cell_ok k e \<Longrightarrow> add_property es k (eval e) (evisibility e) = (e # del_property es k, Some e)"
  by (auto simp: extend_cell_ok_def add_property_def Let_def split: extend_val.splits)

interpretation props: property_store get_property
  "\<lambda>es k e. fst (add_property es k (eval e) (evisibility e))" del_property extend_inv extend_cell_ok
proof
  fix k v k' s
  assume ok: "extend_cell_ok k v"
  show "get_property (fst (add_property s k (eval v) (evisibility v))) k' =
      (if k' = k then Some v else get_property s k')"
    using ok by (auto simp: add_property_cell [OF ok] extend_cell_ok_def del_property_other)
  assume "extend_inv s"
  then show "extend_inv (fst (add_property s k (eval v) (evisibility v)))"
    using ok by (intro extend_inv_add) (auto simp: extend_cell_ok_def)
next
  fix s k k' assume inv: "extend_inv s"
  then show "extend_inv (del_property s k)" by (rule extend_inv_del)
  have "get_property (del_property s k) k = None"
    using inv del_property_distinct [of s k] by (simp add: get_property_None extend_inv_def)
  then show "get_property (del_property s k) k' = (if k' = k then None else get_property s k')"
    by (auto simp: del_property_other)
qed

section \<open>Properties\<close>

text \<open>C35. A property that is set can be read back under its key and hides no other one; deleting it
  makes the key unknown again. Adding keeps the keys of a list distinct, at most 32 bytes long, and
  pointers private.\<close>

theorem add_property_roundtrip:
  assumes "extend_inv es" and "length k \<le> EXTEND_KEY_LENGTH" and "case val of EXTEND_JSON v \<Rightarrow> json_wf v | _ \<Rightarrow> True"
  shows "\<exists>es' e. add_property es k val vis = (es', Some e) \<and> eval e = val \<and> extend_inv es' \<and>
    (\<forall>k'. get_property es' k' = (if k' = k then Some e else get_property es k')) \<and>
    (\<forall>k'. get_property (del_property es' k) k' = (if k' = k then None else get_property es k'))"
proof -
  define vis' where "vis' = (case val of EXTEND_POINTER _ \<Rightarrow> EXTEND_ISPRIVATE | _ \<Rightarrow> vis)"
  define e where "e = \<lparr>ekey = k, eval = val, evisibility = vis'\<rparr>"
  have ok: "extend_cell_ok k e"
    using assms by (auto simp: extend_cell_ok_def e_def vis'_def split: extend_val.split)
  have eq: "add_property es k val vis = (e # del_property es k, Some e)"
    using assms(2) by (simp add: add_property_def Let_def e_def vis'_def)
  have eq': "fst (add_property es k (eval e) (evisibility e)) = e # del_property es k"
    by (simp add: add_property_cell [OF ok])
  show ?thesis
    using props.get_add [OF ok, of es] props.inv_add [OF assms(1) ok] props.add_del [OF assms(1) ok]
    unfolding eq' eq by (auto simp: e_def)
qed

theorem add_property_roundtrip_witness:
  "\<exists>es' e. add_property [] ''nick'' (EXTEND_STR ''bob'') EXTEND_ISPUBLIC = (es', Some e) \<and>
    eval e = EXTEND_STR ''bob'' \<and> extend_inv es' \<and>
    (\<forall>k'. get_property es' k' = (if k' = ''nick'' then Some e else get_property [] k')) \<and>
    (\<forall>k'. get_property (del_property es' ''nick'') k' = (if k' = ''nick'' then None else get_property [] k'))"
  by (rule add_property_roundtrip) (simp_all add: EXTEND_KEY_LENGTH_def)

end
