(* ===== verification/Ape_Sock.thy ===== *)
theory Ape_Sock
  imports Ape_Prelude
begin

text \<open>
  Output on sockets, from \<open>src/sock.c\<close>: \<open>sendbin\<close> writes what the kernel takes and keeps the rest in
  the descriptor's \<open>bufout\<close>, \<open>sendqueue\<close> empties that buffer when the descriptor becomes writable,
  \<open>safe_shutdown\<close> waits for it. The kernel's \<open>write\<close> is the parameter \<open>os\<close>: its answer to the n-th
  call, given descriptor and length. The bytes it has taken are recorded in \<open>wire\<close>. The properties
  assume of it what \<open>write(2)\<close> documents for a healthy non-blocking stream socket: it takes between
  one byte and all of them, or says it would block. TCP corking (\<open>PACK_TCP\<close>, \<open>FLUSH_TCP\<close>) has no
  effect on the bytes and is left out.
\<close>

section \<open>State and operations\<close>

datatype write_result = Wrote nat | Blocked | Failed

type_synonym os = "nat \<Rightarrow> nat \<Rightarrow> nat \<Rightarrow> write_result"

record socks_bufout =
  bo_buf :: string
  bo_allocsize :: nat

record sockst =
  bufout :: "nat \<Rightarrow> socks_bufout option"
  burn_aw :: "nat \<Rightarrow> nat"
  shut :: "nat \<Rightarrow> bool"
  wire :: "nat \<Rightarrow> string"
  nwrite :: nat

definition sock_init :: sockst where
  "sock_init = \<lparr>bufout = (\<lambda>_. None), burn_aw = (\<lambda>_. 0), shut = (\<lambda>_. False), wire = (\<lambda>_. []), nwrite = 0\<rparr>"

text \<open>\<open>(n + 0x07ff) & (~0x07ff)\<close>.\<close>

definition round2048 :: "nat \<Rightarrow> nat" where
  "round2048 n = (n + 2047) div 2048 * 2048"

text \<open>The loop of \<open>sendbin\<close>; \<open>bin\<close> is what is left to send.\<close>

partial_function (option) sendbin_loop ::
  "os \<Rightarrow> nat \<Rightarrow> string \<Rightarrow> bool \<Rightarrow> sockst \<Rightarrow> (bool \<times> sockst) option" where
  "sendbin_loop os sock bin burn s =
     (if bin = [] then Some (True, s)
      else
        (case bufout s sock of
           Some bo \<Rightarrow>
             (let buf = bo_buf bo @ bin;
                  alloc = (if bo_allocsize bo < length buf then round2048 (length buf) else bo_allocsize bo) in
              Some (False, s\<lparr>bufout := (bufout s)(sock \<mapsto> \<lparr>bo_buf = buf, bo_allocsize = alloc\<rparr>),
                             burn_aw := (if burn then (burn_aw s)(sock := 1) else burn_aw s)\<rparr>))
         | None \<Rightarrow>
             (case os (nwrite s) sock (length bin) of
                Wrote n \<Rightarrow>
                  sendbin_loop os sock (drop n bin) burn
                    (s\<lparr>wire := (wire s)(sock := wire s sock @ take n bin), nwrite := Suc (nwrite s)\<rparr>)
              | Blocked \<Rightarrow>
                  Some (False, s\<lparr>bufout := (bufout s)(sock \<mapsto>
                           \<lparr>bo_buf = bin, bo_allocsize = round2048 (length bin)\<rparr>),
                         burn_aw := (if burn then (burn_aw s)(sock := 1) else burn_aw s),
                         nwrite := Suc (nwrite s)\<rparr>)
              | Failed \<Rightarrow> Some (False, s\<lparr>nwrite := Suc (nwrite s)\<rparr>))))"

definition sendbin :: "os \<Rightarrow> nat \<Rightarrow> string \<Rightarrow> bool \<Rightarrow> sockst \<Rightarrow> (bool \<times> sockst) option" where
  "sendbin os sock bin burn s = do {
     (fin, s') \<leftarrow> (if sock \<noteq> 0 then sendbin_loop os sock bin burn s else Some (True, s));
     Some (fin, if fin \<and> burn then s'\<lparr>shut := (shut s')(sock := True)\<rparr> else s') }"

text \<open>The loop of \<open>sendqueue\<close>: \<open>t\<close> bytes of the buffer are written. When the kernel would block,
  the rest is moved to the front; on another error the buffer is left as it is.\<close>

partial_function (option) sendqueue_loop ::
  "os \<Rightarrow> nat \<Rightarrow> socks_bufout \<Rightarrow> nat \<Rightarrow> sockst \<Rightarrow> (bool \<times> sockst) option" where
  "sendqueue_loop os sock bo t s =
     (if t < length (bo_buf bo) then
        (case os (nwrite s) sock (length (bo_buf bo) - t) of
           Wrote n \<Rightarrow>
             sendqueue_loop os sock bo (t + n)
               (s\<lparr>wire := (wire s)(sock := wire s sock @ take n (drop t (bo_buf bo))),
                  nwrite := Suc (nwrite s)\<rparr>)
         | Blocked \<Rightarrow>
             Some (False, s\<lparr>bufout := (bufout s)(sock \<mapsto>
                     (if 0 < t then bo\<lparr>bo_buf := drop t (bo_buf bo)\<rparr> else bo)),
                    nwrite := Suc (nwrite s)\<rparr>)
         | Failed \<Rightarrow> Some (False, s\<lparr>nwrite := Suc (nwrite s)\<rparr>))
      else Some (True, s\<lparr>bufout := (bufout s)(sock := None)\<rparr>))"

definition sendqueue :: "os \<Rightarrow> nat \<Rightarrow> sockst \<Rightarrow> (bool \<times> sockst) option" where
  "sendqueue os sock s =
     (case bufout s sock of None \<Rightarrow> Some (True, s) | Some bo \<Rightarrow> sendqueue_loop os sock bo 0 s)"

definition safe_shutdown :: "nat \<Rightarrow> sockst \<Rightarrow> sockst" where
  "safe_shutdown sock s =
     (case bufout s sock of
        None \<Rightarrow> s\<lparr>shut := (shut s)(sock := True)\<rparr>
      | Some _ \<Rightarrow> s\<lparr>burn_aw := (burn_aw s)(sock := 2)\<rparr>)"

section \<open>Lemmas\<close>

definition good_os :: "os \<Rightarrow> bool" where
  "good_os os \<longleftrightarrow> (\<forall>i fd n. 0 < n \<longrightarrow>
     os i fd n = Blocked \<or> (\<exists>m. os i fd n = Wrote m \<and> 0 < m \<and> m \<le> n))"

definition pending :: "sockst \<Rightarrow> nat \<Rightarrow> string" where
  "pending s fd = (case bufout s fd of None \<Rightarrow> [] | Some bo \<Rightarrow> bo_buf bo)"

text \<open>Everything accepted for a descriptor so far: taken by the kernel or still queued.\<close>

definition outp :: "sockst \<Rightarrow> nat \<Rightarrow> string" where
  "outp s fd = wire s fd @ pending s fd"

text \<open>A queue is never empty and never longer than its allocation.\<close>

definition sock_inv :: "sockst \<Rightarrow> bool" where
  "sock_inv s \<longleftrightarrow> (\<forall>fd bo. bufout s fd = Some bo \<longrightarrow> bo_buf bo \<noteq> [] \<and> length (bo_buf bo) \<le> bo_allocsize bo)"

lemma round2048_ge: "n \<le> round2048 n"
  by (simp add: round2048_def)

lemma safe_shutdown_sel [simp]:
  "bufout (safe_shutdown fd s) = bufout s" "wire (safe_shutdown fd s) = wire s"
  by (simp_all add: safe_shutdown_def split: option.split)

lemma sock_inv_cong: "bufout s' = bufout s \<Longrightarrow> sock_inv s' = sock_inv s"
  by (simp add: sock_inv_def)

lemma sock_inv_init [simp]: "sock_inv sock_init"
  by (simp add: sock_inv_def sock_init_def)

lemma sock_inv_queue:
  assumes "sock_inv s" and "bo_buf bo \<noteq> []" and "length (bo_buf bo) \<le> bo_allocsize bo"
    and "bufout s' = (bufout s)(fd \<mapsto> bo)"
  shows "sock_inv s'"
  using assms by (auto simp: sock_inv_def)

lemma good_osD:
  assumes "good_os os" and "0 < n"
  obtains "os i fd n = Blocked" | m where "os i fd n = Wrote m" "0 < m" "m \<le> n"
  using assms unfolding good_os_def by blast

lemma sendbin_loop_good:
  assumes "good_os os" and "sock_inv s"
  shows "\<exists>fin s'. sendbin_loop os fd bin burn s = Some (fin, s') \<and> sock_inv s' \<and>
     outp s' fd = outp s fd @ bin \<and> (\<forall>fd'. fd' \<noteq> fd \<longrightarrow> outp s' fd' = outp s fd') \<and>
     (fin \<longrightarrow> bin = [] \<or> pending s' fd = []) \<and> shut s' = shut s"
  using assms(2)
proof (induction "length bin" arbitrary: bin s rule: less_induct)
  case less
  consider "bin = []" | bo where "bin \<noteq> []" "bufout s fd = Some bo" | "bin \<noteq> []" "bufout s fd = None"
    by (cases "bufout s fd") auto
  then show ?case
  proof cases
    case 1
    then show ?thesis using less.prems by (subst sendbin_loop.simps) auto
  next
    case 2
    then show ?thesis
      using less.prems round2048_ge
      by (subst sendbin_loop.simps)
         (auto simp: outp_def pending_def sock_inv_def Let_def intro: order_trans)
  next
    case 3
    then have "0 < length bin" by simp
    from assms(1) this show ?thesis
    proof (cases rule: good_osD [where i = "nwrite s" and fd = fd])
      case 1
      then show ?thesis
        using 3 less.prems round2048_ge
        by (subst sendbin_loop.simps) (auto simp: outp_def pending_def sock_inv_def)
    next
      case (2 m)
      let ?s = "s\<lparr>wire := (wire s)(fd := wire s fd @ take m bin), nwrite := Suc (nwrite s)\<rparr>"
      have step: "sendbin_loop os fd bin burn s = sendbin_loop os fd (drop m bin) burn ?s"
        using 3 2 by (subst sendbin_loop.simps) simp
      have "length (drop m bin) < length bin" using 2 3 by simp
      moreover have "sock_inv ?s" using less.prems by (simp add: sock_inv_def)
      ultimately obtain fin s' where "sendbin_loop os fd (drop m bin) burn ?s = Some (fin, s')"
        "sock_inv s'" "outp s' fd = outp ?s fd @ drop m bin"
        "\<forall>fd'. fd' \<noteq> fd \<longrightarrow> outp s' fd' = outp ?s fd'"
        "fin \<longrightarrow> drop m bin = [] \<or> pending s' fd = []" "shut s' = shut ?s"
        using less.hyps by blast
      moreover from this have "fin \<longrightarrow> pending s' fd = []"
      proof (cases "drop m bin = []")
        case True
        then have "sendbin_loop os fd (drop m bin) burn ?s = Some (True, ?s)"
          by (subst sendbin_loop.simps) simp
        then show ?thesis using calculation(1) 3 by (simp add: pending_def)
      qed simp
      ultimately show ?thesis
        using step 3 by (auto simp: outp_def pending_def)
    qed
  qed
qed

lemma sendqueue_loop_good:
  assumes "good_os os" and "sock_inv s" and "bufout s fd = Some bo" and "t < length (bo_buf bo) \<or> t = length (bo_buf bo)"
  shows "\<exists>fin s'. sendqueue_loop os fd bo t s = Some (fin, s') \<and> sock_inv s' \<and>
     outp s' fd = wire s fd @ drop t (bo_buf bo) \<and> (\<forall>fd'. fd' \<noteq> fd \<longrightarrow> outp s' fd' = outp s fd') \<and>
     (fin \<longleftrightarrow> bufout s' fd = None)"
  using assms(2-4)
proof (induction "length (bo_buf bo) - t" arbitrary: t s rule: less_induct)
  case less
  have inv: "bo_buf bo \<noteq> []" "length (bo_buf bo) \<le> bo_allocsize bo" using less.prems by (auto simp: sock_inv_def)
  show ?case
  proof (cases "t < length (bo_buf bo)")
    case False
    then show ?thesis
      using less.prems by (subst sendqueue_loop.simps) (auto simp: outp_def pending_def sock_inv_def)
  next
    case True
    then have "0 < length (bo_buf bo) - t" by simp
    from assms(1) this show ?thesis
    proof (cases rule: good_osD [where i = "nwrite s" and fd = fd])
      case 1
      let ?bo = "if 0 < t then bo\<lparr>bo_buf := drop t (bo_buf bo)\<rparr> else bo"
      let ?s = "s\<lparr>bufout := (bufout s)(fd \<mapsto> ?bo), nwrite := Suc (nwrite s)\<rparr>"
      have "sendqueue_loop os fd bo t s = Some (False, ?s)"
        using 1 True by (subst sendqueue_loop.simps) simp
      moreover have "sock_inv ?s"
        by (rule sock_inv_queue [OF less.prems(1), of ?bo]) (use inv True in auto)
      ultimately show ?thesis by (auto simp: outp_def pending_def)
    next
      case (2 m)
      let ?s = "s\<lparr>wire := (wire s)(fd := wire s fd @ take m (drop t (bo_buf bo))), nwrite := Suc (nwrite s)\<rparr>"
      have step: "sendqueue_loop os fd bo t s = sendqueue_loop os fd bo (t + m) ?s"
        using True 2 by (subst sendqueue_loop.simps) simp
      have "length (bo_buf bo) - (t + m) < length (bo_buf bo) - t" using 2 True by simp
      moreover have "sock_inv ?s" "bufout ?s fd = Some bo" using less.prems by (simp_all add: sock_inv_def)
      moreover have "t + m < length (bo_buf bo) \<or> t + m = length (bo_buf bo)" using 2 True by auto
      ultimately obtain fin s' where "sendqueue_loop os fd bo (t + m) ?s = Some (fin, s')" "sock_inv s'"
        "outp s' fd = wire ?s fd @ drop (t + m) (bo_buf bo)"
        "\<forall>fd'. fd' \<noteq> fd \<longrightarrow> outp s' fd' = outp ?s fd'" "fin \<longleftrightarrow> bufout s' fd = None"
        using less.hyps [of "t + m" ?s] by blast
      moreover have "take m (drop t (bo_buf bo)) @ drop (t + m) (bo_buf bo) = drop t (bo_buf bo)"
        by (metis add.commute append_take_drop_id drop_drop)
      ultimately show ?thesis using step by (auto simp: outp_def pending_def)
    qed
  qed
qed

text \<open>The contract of an ordered output stream: what is sent is appended, nothing is lost, other
  streams are untouched.\<close>

locale ordered_output =
  fixes good :: "'os \<Rightarrow> bool"
    and inv :: "'s \<Rightarrow> bool"
    and out :: "'s \<Rightarrow> nat \<Rightarrow> string"
    and send :: "'os \<Rightarrow> nat \<Rightarrow> string \<Rightarrow> 's \<Rightarrow> (bool \<times> 's) option"
  assumes send_law: "good os \<Longrightarrow> inv s \<Longrightarrow> fd \<noteq> 0 \<Longrightarrow> \<exists>fin s'. send os fd x s = Some (fin, s') \<and> inv s' \<and>
      out s' fd = out s fd @ x \<and> (\<forall>fd'. fd' \<noteq> fd \<longrightarrow> out s' fd' = out s fd')"
begin

text \<open>Any function that sends its chunks one after the other delivers their concatenation.\<close>

lemma send_seq_out:
  assumes "good os" and "inv s" and "fd \<noteq> 0"
    and nil: "\<And>s. sq [] s = Some (True, s)"
    and cons: "\<And>x xs s. sq (x # xs) s =
      Option.bind (send os fd x s) (\<lambda>(f, s'). Option.bind (sq xs s') (\<lambda>(g, s''). Some (f \<and> g, s'')))"
  shows "\<exists>fin s'. sq xs s = Some (fin, s') \<and> inv s' \<and> out s' fd = out s fd @ concat xs \<and>
     (\<forall>fd'. fd' \<noteq> fd \<longrightarrow> out s' fd' = out s fd')"
  using assms(2)
proof (induction xs arbitrary: s)
  case (Cons x xs)
  obtain fin s1 where 1: "send os fd x s = Some (fin, s1)" "inv s1" "out s1 fd = out s fd @ x"
    "\<forall>fd'. fd' \<noteq> fd \<longrightarrow> out s1 fd' = out s fd'"
    using send_law [OF assms(1) Cons.prems assms(3)] by blast
  obtain g s2 where "sq xs s1 = Some (g, s2)" "inv s2" "out s2 fd = out s1 fd @ concat xs"
    "\<forall>fd'. fd' \<noteq> fd \<longrightarrow> out s2 fd' = out s1 fd'"
    using Cons.IH [OF 1(2)] by blast
  then show ?case using 1 by (simp add: cons)
qed (auto simp: nil)

end

lemma outp_shut [simp]: "outp (s\<lparr>shut := f\<rparr>) fd = outp s fd" "pending (s\<lparr>shut := f\<rparr>) fd = pending s fd"
  "sock_inv (s\<lparr>shut := f\<rparr>) = sock_inv s"
  by (simp_all add: outp_def pending_def sock_inv_def)

lemma sendbin_good:
  assumes "good_os os" and "sock_inv s"
  shows "\<exists>fin s'. sendbin os fd bin burn s = Some (fin, s') \<and> sock_inv s' \<and>
     outp s' fd = outp s fd @ (if fd = 0 then [] else bin) \<and>
     (\<forall>fd'. fd' \<noteq> fd \<longrightarrow> outp s' fd' = outp s fd') \<and>
     (fin \<and> fd \<noteq> 0 \<longrightarrow> bin = [] \<or> pending s' fd = [])"
proof (cases "fd = 0")
  case False
  obtain fin s1 where "sendbin_loop os fd bin burn s = Some (fin, s1)" "sock_inv s1"
    "outp s1 fd = outp s fd @ bin" "\<forall>fd'. fd' \<noteq> fd \<longrightarrow> outp s1 fd' = outp s fd'"
    "fin \<longrightarrow> bin = [] \<or> pending s1 fd = []"
    using sendbin_loop_good [OF assms, of fd bin burn] by blast
  then show ?thesis using False by (simp add: sendbin_def)
qed (auto simp: sendbin_def assms(2))

lemma sendqueue_good:
  assumes "good_os os" and "sock_inv s"
  shows "\<exists>fin s'. sendqueue os fd s = Some (fin, s') \<and> sock_inv s' \<and>
     outp s' = outp s \<and> (fin \<longleftrightarrow> bufout s' fd = None)"
proof (cases "bufout s fd")
  case None
  then show ?thesis using assms by (auto simp: sendqueue_def)
next
  case (Some bo)
  then obtain fin s' where "sendqueue_loop os fd bo 0 s = Some (fin, s')" "sock_inv s'"
    "outp s' fd = wire s fd @ bo_buf bo" "\<forall>fd'. fd' \<noteq> fd \<longrightarrow> outp s' fd' = outp s fd'"
    "fin \<longleftrightarrow> bufout s' fd = None"
    using sendqueue_loop_good [OF assms Some, of 0] by auto
  moreover have "outp s' x = outp s x" for x
  proof (cases "x = fd")
    case True
    have "outp s fd = wire s fd @ bo_buf bo" using Some by (simp add: outp_def pending_def)
    then show ?thesis using True calculation(3) by simp
  qed (use calculation(4) in simp)
  then have "outp s' = outp s" by (rule ext)
  ultimately show ?thesis using Some by (simp add: sendqueue_def)
qed

interpretation skt: ordered_output good_os sock_inv outp "\<lambda>os fd x. sendbin os fd x False"
proof
  fix os s and fd :: nat and x
  assume "good_os os" "sock_inv s" "fd \<noteq> 0"
  then show "\<exists>fin s'. sendbin os fd x False s = Some (fin, s') \<and> sock_inv s' \<and>
      outp s' fd = outp s fd @ x \<and> (\<forall>fd'. fd' \<noteq> fd \<longrightarrow> outp s' fd' = outp s fd')"
    using sendbin_good [of os s fd x False] by auto
qed

text \<open>A run of \<open>finish &= sendbin(...)\<close> statements.\<close>

fun send_seq :: "os \<Rightarrow> nat \<Rightarrow> string list \<Rightarrow> sockst \<Rightarrow> (bool \<times> sockst) option" where
  "send_seq os fd [] s = Some (True, s)"
| "send_seq os fd (x # xs) s =
     Option.bind (sendbin os fd x False s)
       (\<lambda>(f, s'). Option.bind (send_seq os fd xs s') (\<lambda>(g, s''). Some (f \<and> g, s'')))"

lemma send_seq_good:
  assumes "good_os os" and "sock_inv s"
  shows "\<exists>fin s'. send_seq os fd xs s = Some (fin, s') \<and> sock_inv s' \<and>
     outp s' fd = outp s fd @ (if fd = 0 then [] else concat xs) \<and>
     (\<forall>fd'. fd' \<noteq> fd \<longrightarrow> outp s' fd' = outp s fd')"
proof (cases "fd = 0")
  case True
  have "send_seq os 0 xs s = Some (True, s)" by (induction xs) (simp_all add: sendbin_def)
  then show ?thesis using True assms(2) by auto
next
  case False
  then show ?thesis using skt.send_seq_out [OF assms False, of "send_seq os fd"] by simp
qed

section \<open>Properties\<close>

text \<open>Any interleaving, over any descriptors, of sends and of the event loop's flushes.\<close>

datatype sock_op = Send nat string | Flush nat

fun sock_run :: "os \<Rightarrow> sock_op list \<Rightarrow> sockst \<Rightarrow> sockst option" where
  "sock_run os [] s = Some s"
| "sock_run os (Send fd x # ops) s =
     Option.bind (sendbin os fd x False s) (\<lambda>(_, s'). sock_run os ops s')"
| "sock_run os (Flush fd # ops) s =
     Option.bind (sendqueue os fd s) (\<lambda>(_, s'). sock_run os ops s')"

fun sent_to :: "nat \<Rightarrow> sock_op list \<Rightarrow> string" where
  "sent_to fd [] = []"
| "sent_to fd (Send fd' x # ops) = (if fd' = fd then x else []) @ sent_to fd ops"
| "sent_to fd (Flush _ # ops) = sent_to fd ops"



end
