(* ===== verification/Ape_Transports.thy ===== *)
theory Ape_Transports
  imports Ape_Sock Ape_Utils
begin

text \<open>
  How a reply is framed: the transports and their padding (\<open>src/transports.c\<close>), the fixed HTTP headers
  of \<open>src/main.h\<close>, the response headers of \<open>src/http.c\<close> and the head of a websocket frame that
  \<open>send_raws\<close> and \<open>send_raw_inline\<close> of \<open>src/raw.c\<close> write.
\<close>

section \<open>Transports\<close>

datatype transport_t =
    TRANSPORT_LONGPOLLING | TRANSPORT_XHRSTREAMING | TRANSPORT_JSONP | TRANSPORT_PERSISTANT
  | TRANSPORT_SSE_LONGPOLLING | TRANSPORT_SSE_JSONP | TRANSPORT_WEBSOCKET | TRANSPORT_WEBSOCKET_IETF

text \<open>A padding is the \<open>len\<close> bytes found at \<open>val\<close>, NULL being \<open>None\<close>.\<close>

record transport_properties =
  pad_left :: "string option"
  pad_right :: "string option"

record ape_transports =
  tr_jsonp :: transport_properties
  tr_xhrstreaming :: transport_properties
  tr_sse :: transport_properties
  tr_websocket :: transport_properties
  tr_websocket_ietf :: transport_properties

text \<open>The first \<open>len\<close> bytes of a C string, its terminator included.\<close>

definition cbytes :: "string \<Rightarrow> nat \<Rightarrow> string" where
  "cbytes s len = take len (s @ [CHR 0x00])"

definition transport_start :: "string \<Rightarrow> ape_transports" where
  "transport_start eval_func =
     \<lparr>tr_jsonp =
        (if eval_func \<noteq> [] then
           \<lparr>pad_left = Some (cbytes (eval_func @ [CHR ''('', CHR 0x27]) (length eval_func + 2)),
            pad_right = Some (cbytes [CHR 0x27, CHR '')''] 2)\<rparr>
         else \<lparr>pad_left = None, pad_right = None\<rparr>),
      tr_xhrstreaming = \<lparr>pad_left = None, pad_right = Some (cbytes [CHR 0x0A, CHR 0x0A] 2)\<rparr>,
      tr_sse = \<lparr>pad_left = Some (cbytes (''Event: ape-event'' @ [CHR 0x0A] @ ''Data: '') 24),
                pad_right = Some (cbytes [CHR 0x0A, CHR 0x0A] 2)\<rparr>,
      tr_websocket = \<lparr>pad_left = Some (cbytes [] 1), pad_right = Some (cbytes [CHR 0xFF] 1)\<rparr>,
      tr_websocket_ietf = \<lparr>pad_left = None, pad_right = None\<rparr>\<rparr>"

definition transport_get_properties :: "transport_t \<Rightarrow> ape_transports \<Rightarrow> transport_properties option" where
  "transport_get_properties transport ts =
     (case transport of
        TRANSPORT_XHRSTREAMING \<Rightarrow> Some (tr_xhrstreaming ts)
      | TRANSPORT_JSONP \<Rightarrow> Some (tr_jsonp ts)
      | TRANSPORT_SSE_LONGPOLLING \<Rightarrow> Some (tr_sse ts)
      | TRANSPORT_WEBSOCKET \<Rightarrow> Some (tr_websocket ts)
      | TRANSPORT_WEBSOCKET_IETF \<Rightarrow> Some (tr_websocket_ietf ts)
      | _ \<Rightarrow> None)"

datatype substate = ALIVE | ADIED

record transport_open_same_host_p =
  client_close :: "nat option"
  client_listener :: "nat option"
  ret_attach :: bool
  ret_substate :: substate

text \<open>Clients are descriptors; \<open>subclient\<close> is \<open>sub->client\<close>.\<close>

definition transport_open_same_host ::
  "nat option \<Rightarrow> nat option \<Rightarrow> transport_t \<Rightarrow> transport_open_same_host_p" where
  "transport_open_same_host subclient client transport =
     (if transport \<in> {TRANSPORT_PERSISTANT, TRANSPORT_XHRSTREAMING, TRANSPORT_SSE_LONGPOLLING}
      then \<lparr>client_close = client, client_listener = subclient, ret_attach = False, ret_substate = ALIVE\<rparr>
      else \<lparr>client_close = subclient, client_listener = client, ret_attach = True, ret_substate = ADIED\<rparr>)"

text \<open>Whether \<open>transport_data_completly_sent\<close> ends the connection with \<open>do_died\<close>.\<close>

definition transport_closes :: "transport_t \<Rightarrow> bool" where
  "transport_closes transport \<longleftrightarrow>
     transport \<notin> {TRANSPORT_PERSISTANT, TRANSPORT_XHRSTREAMING, TRANSPORT_SSE_LONGPOLLING,
                    TRANSPORT_WEBSOCKET, TRANSPORT_WEBSOCKET_IETF}"

section \<open>Response headers\<close>

definition crlf :: string where "crlf = [CHR 0x0D, CHR 0x0A]"

definition header_of :: "string \<Rightarrow> string" where
  "header_of content_type =
     ''HTTP/1.1 200 OK'' @ crlf @ ''Pragma: no-cache'' @ crlf @
     ''Cache-Control: no-cache, must-revalidate'' @ crlf @
     ''Expires: Thu, 27 Dec 1986 07:30:00 GMT'' @ crlf @
     ''Content-Type: '' @ content_type @ crlf @ crlf"

definition HEADER_DEFAULT :: string where "HEADER_DEFAULT = header_of ''text/html''"
definition HEADER_SSE :: string where "HEADER_SSE = header_of ''application/x-dom-event-stream''"
definition HEADER_XHR :: string where
  "HEADER_XHR = header_of ''application/x-ape-event-stream'' @ replicate 256 CHR '' ''"
definition HEADER_JSONP :: string where "HEADER_JSONP = header_of ''application/javascript''"

definition HEADER_DEFAULT_LEN :: nat where "HEADER_DEFAULT_LEN = 144"
definition HEADER_SSE_LEN :: nat where "HEADER_SSE_LEN = 165"
definition HEADER_XHR_LEN :: nat where "HEADER_XHR_LEN = 421"
definition HEADER_JSONP_LEN :: nat where "HEADER_JSONP_LEN = 157"

record http_headers_response =
  hh_code :: int
  hh_detail :: string
  hh_fields :: "(string \<times> string) list"

definition http_headers_init :: "int \<Rightarrow> string \<Rightarrow> nat \<Rightarrow> http_headers_response option" where
  "http_headers_init code detail detail_len =
     (if 63 < detail_len \<or> (code < 100 \<and> 600 \<le> code) then None
      else Some \<lparr>hh_code = code, hh_detail = cbytes detail detail_len, hh_fields = []\<rparr>)"

text \<open>A field whose name agrees with \<open>key\<close> on \<open>key_l\<close> characters is overwritten, else a new one is
  linked behind the last.\<close>

fun http_field_update :: "(string \<times> string) list \<Rightarrow> string \<Rightarrow> string \<Rightarrow> (string \<times> string) list" where
  "http_field_update [] key val = [(key, val)]"
| "http_field_update ((k, v) # fs) key val =
     (if strcaseeq (take (length key) k) key then (key, val) # fs else (k, v) # http_field_update fs key val)"

definition http_headers_set_field ::
  "http_headers_response \<Rightarrow> string \<Rightarrow> nat \<Rightarrow> string \<Rightarrow> nat \<Rightarrow> http_headers_response" where
  "http_headers_set_field headers key keylen val valuelen =
     (let value_l = (if valuelen \<noteq> 0 then valuelen else length val);
          key_l = (if keylen \<noteq> 0 then keylen else length key) in
      if 32 \<le> key_l then headers
      else headers\<lparr>hh_fields := http_field_update (hh_fields headers) (take key_l key) (take value_l val)\<rparr>)"

text \<open>The loop over the fields advances twice per turn: it sends every other field and dereferences
  NULL after the last one of an odd number.\<close>

fun http_field_chunks :: "(string \<times> string) list \<Rightarrow> string list option" where
  "http_field_chunks [] = Some []"
| "http_field_chunks [_] = None"
| "http_field_chunks ((k, v) # _ # fs) =
     map_option (\<lambda>cs. [k, '': '', v, crlf] @ cs) (http_field_chunks fs)"

definition http_send_headers ::
  "os \<Rightarrow> http_headers_response option \<Rightarrow> string \<Rightarrow> nat \<Rightarrow> nat \<Rightarrow> sockst \<Rightarrow> (bool \<times> sockst) option" where
  "http_send_headers os headers default_h default_len fd s =
     (case headers of
        None \<Rightarrow> send_seq os fd [cbytes default_h default_len] s
      | Some h \<Rightarrow> do {
          (code, off) \<leftarrow> itos (hh_code h) 4;
          fields \<leftarrow> http_field_chunks (hh_fields h);
          if length code = 3
          then send_seq os fd ([''HTTP/1.1 '', code, '' '', hh_detail h, crlf] @ fields @ [crlf]) s
          else None })"

text \<open>The header each transport answers with; websockets send none.\<close>

definition transport_header :: "transport_t \<Rightarrow> (string \<times> nat) option" where
  "transport_header transport =
     (case transport of
        TRANSPORT_XHRSTREAMING \<Rightarrow> Some (HEADER_XHR, HEADER_XHR_LEN)
      | TRANSPORT_SSE_LONGPOLLING \<Rightarrow> Some (HEADER_SSE, HEADER_SSE_LEN)
      | TRANSPORT_JSONP \<Rightarrow> Some (HEADER_JSONP, HEADER_JSONP_LEN)
      | TRANSPORT_WEBSOCKET \<Rightarrow> None
      | TRANSPORT_WEBSOCKET_IETF \<Rightarrow> None
      | _ \<Rightarrow> Some (HEADER_DEFAULT, HEADER_DEFAULT_LEN))"

section \<open>Websocket frames\<close>

datatype ws_version = WS_OLD | WS_76 | WS_IETF_06 | WS_IETF_07

definition byte_char :: "nat \<Rightarrow> char" where "byte_char n = char_of (n mod 256)"

text \<open>\<open>htons\<close>/\<open>htonl\<close> and \<open>memcpy\<close> of the length: the most significant byte first.\<close>

definition be16 :: "nat \<Rightarrow> string" where
  "be16 n = [byte_char (n div 256), byte_char n]"

definition be32 :: "nat \<Rightarrow> string" where
  "be32 n = [byte_char (n div 16777216), byte_char (n div 65536), byte_char (n div 256), byte_char n]"

definition ws_payload_head :: "ws_version \<Rightarrow> nat \<Rightarrow> string" where
  "ws_payload_head version payload_size =
     (let start = (if version = WS_IETF_06 then CHR 0x84 else CHR 0x81) in
      if payload_size \<le> 125 then [start, byte_char payload_size]
      else if payload_size \<le> 65535 then [start, byte_char 126] @ be16 payload_size
      else [start, byte_char 127, CHR 0x00, CHR 0x00, CHR 0x00, CHR 0x00] @ be32 payload_size)"

text \<open>What a receiver reads as the payload length of a frame, and the bytes after the head.\<close>

fun be_value :: "string \<Rightarrow> nat" where
  "be_value s = foldl (\<lambda>v c. v * 256 + of_char c) 0 s"

definition ws_read_head :: "string \<Rightarrow> (nat \<times> string) option" where
  "ws_read_head frame =
     (case frame of
        _ # l # rest \<Rightarrow>
          (if (of_char l :: nat) < 126 then Some (of_char l, rest)
           else if (of_char l :: nat) = 126 then Some (be_value (take 2 rest), drop 2 rest)
           else Some (be_value (take 8 rest), drop 8 rest))
      | _ \<Rightarrow> None)"

section \<open>Lemmas\<close>

lemma of_char_byte_char [simp]: "(of_char (byte_char n) :: nat) = n mod 256"
  by (simp add: byte_char_def)

lemma be16_value: "(n :: nat) < 65536 \<Longrightarrow> n div 256 mod 256 * 256 + n mod 256 = n"
  using div_mult_mod_eq [of n 256] less_mult_imp_div_less [of n 256 256] by simp

lemma be32_value:
  fixes n :: nat
  assumes "n < 4294967296"
  shows "((n div 16777216 mod 256 * 256 + n div 65536 mod 256) * 256 + n div 256 mod 256) * 256 + n mod 256 = n"
proof -
  have d: "n div 65536 = n div 256 div 256" "n div 16777216 = n div 256 div 256 div 256"
    by (simp_all add: div_mult2_eq [symmetric])
  have "n div 16777216 < 256" using assms by (intro less_mult_imp_div_less) simp
  then have "n div 16777216 mod 256 * 256 + n div 65536 mod 256 = n div 65536"
    unfolding d using div_mult_mod_eq [of "n div 256 div 256" 256] by simp
  then show ?thesis
    using div_mult_mod_eq [of "n div 256" 256] div_mult_mod_eq [of n 256] by (simp add: d)
qed

lemma transport_header_length:
  "transport_header t = Some (h, n) \<Longrightarrow> length h = n"
  by (cases t) (auto simp: transport_header_def HEADER_XHR_def HEADER_SSE_def HEADER_JSONP_def
    HEADER_DEFAULT_def header_of_def crlf_def HEADER_XHR_LEN_def HEADER_SSE_LEN_def HEADER_JSONP_LEN_def
    HEADER_DEFAULT_LEN_def)

section \<open>Properties\<close>



end
