(* ===== verification/Ape_State.thy ===== *)
theory Ape_State
  imports Ape_Hash Ape_Extend Ape_Transports
begin

text \<open>
  The server's shared state (\<open>acetables\<close> of \<open>src/main.h\<close>), the structures of \<open>src/users.h\<close>,
  \<open>src/channel.h\<close>, \<open>src/pipe.h\<close> and \<open>src/raw.h\<close>, and the plugin events of \<open>src/main.h\<close>.

  Users, subusers, channels, pipes and messages live in one heap each, so that the aliasing between
  them is explicit: a user and a channel refer to each other, several subusers share a message, the
  hash tables point at users, channels and pipes. Addresses come from one counter and are never
  reused. Singly linked lists owned by one structure are HOL lists: the members of a channel
  (\<open>userslist\<close>), the channels of a user (\<open>CHANLIST\<close>), a user's subusers, sessions and bans, and the
  list of all users at \<open>uHead\<close>. A subuser that was deleted while its connection was open keeps its
  structure, without user, queues and properties, until the connection closes (\<open>wait_for_free\<close>); such
  structures are the heap \<open>g_detached\<close>.

  Plugins are code outside this repository's core. They are part of the environment \<open>env\<close>: for each
  event a list with one entry per loaded plugin, the callback it registers or none. The same record
  holds the kernel's \<open>write\<close>, the random number generator and the callbacks stored in pipes.
\<close>

section \<open>Structures\<close>

datatype raw_priority_t = RAW_PRI_LO | RAW_PRI_HI

record RAW =
  raw_data :: string
  raw_priority :: raw_priority_t
  raw_refcount :: int

text \<open>A pool of message slots: the cells in list order, \<open>rawfoot\<close> as an index into them. The index
  one past the last cell is the NULL \<open>next\<close> of that cell.\<close>

record raw_pool_user =
  pool_nraw :: nat
  pool_size :: nat
  pool_cells :: "nat option list"
  pool_foot :: nat

record subuser =
  sub_low :: raw_pool_user
  sub_high :: raw_pool_user
  sub_nraw :: nat
  sub_content :: "http_headers_response option"
  sub_sent :: bool
  sub_properties :: "extend list"
  sub_client :: "nat option"
  sub_user :: "nat option"
  sub_idle :: int
  sub_state :: substate
  sub_need_update :: bool
  sub_wait_for_free :: bool
  sub_burn_after_writing :: bool
  sub_current_chl :: int
  sub_channel :: string

record session =
  ses_key :: string
  ses_val :: string

datatype user_type = HUMAN | BOT

record users_link =
  link_a :: nat
  link_b :: nat

record USERS =
  u_ulink :: "users_link list"
  u_nlink :: nat
  u_sessions :: "session list"
  u_sessions_length :: int
  u_chan_foot :: "nat list"
  u_pipe :: nat
  u_properties :: "extend list"
  u_subuser :: "nat list"
  u_cmdqueue :: "json_item list"
  u_idle :: int
  u_transport :: transport_t
  u_nsub :: int
  u_flags :: u32
  u_type :: user_type
  u_istmp :: bool
  u_ip :: string
  u_sessid :: string

record userslist =
  ul_userinfo :: nat
  ul_level :: nat

record BANNED =
  ban_ip :: string
  ban_reason :: string
  ban_expire :: int

record CHANNEL =
  c_pipe :: nat
  c_head :: "userslist list"
  c_banned :: "BANNED list"
  c_properties :: "extend list"
  c_flags :: u32
  c_name :: string

datatype pipe_type = CHANNEL_PIPE | USER_PIPE | PROXY_PIPE | CUSTOM_PIPE

record pipe_link =
  pl_plink :: nat
  pl_on_unlink :: "nat option"

record transpipe =
  p_pipe :: nat
  p_link :: "pipe_link list"
  p_properties :: "extend list"
  p_on_send :: "nat option"
  p_type :: pipe_type
  p_pubid :: string

text \<open>A slot of the connection table \<open>co\<close>; \<open>fd\<close> is 0 once the socket is closed. \<open>parser.data\<close> is kept
  for websockets only.\<close>

record ape_socket =
  s_fd :: nat
  s_ws :: "ws_version option"
  s_attach :: "nat option"

datatype event =
    EV_allocateuser | EV_adduser | EV_deluser | EV_mkchan | EV_rmchan | EV_join | EV_left
  | EV_tickuser | EV_post_raw_sub | EV_addsubuser | EV_delsubuser

record acetables =
  g_now :: int
  g_rpos :: nat
  g_next :: nat
  g_users :: "nat \<rightharpoonup> USERS"
  g_subs :: "nat \<rightharpoonup> subuser"
  g_detached :: "nat \<rightharpoonup> subuser"
  g_chans :: "nat \<rightharpoonup> CHANNEL"
  g_pipes :: "nat \<rightharpoonup> transpipe"
  g_raws :: "nat \<rightharpoonup> RAW"
  g_uHead :: "nat list"
  g_hSessid :: "nat HTBL"
  g_hPubid :: "nat HTBL"
  g_hLusers :: "nat HTBL"
  g_nConnected :: u32
  g_transports :: ape_transports
  g_co :: "nat \<rightharpoonup> ape_socket"
  g_sk :: sockst
  g_fire :: "event \<Rightarrow> nat \<Rightarrow> bool"

record env =
  e_os :: os
  e_rand :: "nat \<Rightarrow> int"
  e_allocateuser :: "(nat option \<Rightarrow> string \<Rightarrow> string \<Rightarrow> acetables \<Rightarrow> (nat option \<times> acetables) option) option list"
  e_adduser :: "(nat \<Rightarrow> acetables \<Rightarrow> (nat option \<times> acetables) option) option list"
  e_deluser :: "(nat \<Rightarrow> bool \<Rightarrow> acetables \<Rightarrow> acetables option) option list"
  e_mkchan :: "(string \<Rightarrow> u32 \<Rightarrow> acetables \<Rightarrow> (nat option \<times> acetables) option) option list"
  e_rmchan :: "(nat \<Rightarrow> acetables \<Rightarrow> acetables option) option list"
  e_join :: "(nat \<Rightarrow> nat \<Rightarrow> acetables \<Rightarrow> acetables option) option list"
  e_left :: "(nat \<Rightarrow> nat \<Rightarrow> acetables \<Rightarrow> acetables option) option list"
  e_tickuser :: "(nat \<Rightarrow> acetables \<Rightarrow> acetables option) option list"
  e_post_raw_sub :: "(nat \<Rightarrow> nat \<Rightarrow> acetables \<Rightarrow> acetables option) option list"
  e_addsubuser :: "(nat \<Rightarrow> acetables \<Rightarrow> acetables option) option list"
  e_delsubuser :: "(nat \<Rightarrow> acetables \<Rightarrow> acetables option) option list"
  e_on_send :: "nat \<Rightarrow> nat \<Rightarrow> nat option \<Rightarrow> json_item \<Rightarrow> acetables \<Rightarrow> acetables option"
  e_on_unlink :: "nat \<Rightarrow> nat \<Rightarrow> nat \<Rightarrow> acetables \<Rightarrow> acetables option"

text \<open>The tables as \<open>main\<close> of \<open>src/entry.c\<close> sets them up, \<open>eval_func\<close> being the configured JSONP
  function.\<close>

definition ape_init :: "int \<Rightarrow> string \<Rightarrow> acetables" where
  "ape_init now eval_func =
     \<lparr>g_now = now, g_rpos = 0, g_next = 0, g_users = Map.empty, g_subs = Map.empty,
      g_detached = Map.empty, g_chans = Map.empty,
      g_pipes = Map.empty, g_raws = Map.empty, g_uHead = [], g_hSessid = hashtbl_init,
      g_hPubid = hashtbl_init, g_hLusers = hashtbl_init, g_nConnected = 0,
      g_transports = transport_start eval_func, g_co = Map.empty, g_sk = sock_init,
      g_fire = (\<lambda>_ _. False)\<rparr>"

section \<open>Constants\<close>

definition FLG_AUTOOP :: u32 where "FLG_AUTOOP = 0x01"
definition FLG_NOKICK :: u32 where "FLG_NOKICK = 0x02"
definition FLG_BOTMANAGE :: u32 where "FLG_BOTMANAGE = 0x04"

definition CHANNEL_NONINTERACTIVE :: u32 where "CHANNEL_NONINTERACTIVE = 0x01"
definition CHANNEL_AUTODESTROY :: u32 where "CHANNEL_AUTODESTROY = 0x02"

definition MAX_SESSION_LENGTH :: int where "MAX_SESSION_LENGTH = 102400"
definition MAX_HOST_LENGTH :: nat where "MAX_HOST_LENGTH = 256"
definition MAX_CHAN_LEN :: nat where "MAX_CHAN_LEN = 40"
definition TIMEOUT_SEC :: int where "TIMEOUT_SEC = 45"

definition RAW_DATA :: string where "RAW_DATA = ''DATA''"
definition RAW_LOGIN :: string where "RAW_LOGIN = ''LOGIN''"
definition RAW_JOIN :: string where "RAW_JOIN = ''JOIN''"
definition RAW_LEFT :: string where "RAW_LEFT = ''LEFT''"
definition RAW_SETLEVEL :: string where "RAW_SETLEVEL = ''SETLVL''"
definition RAW_ERR :: string where "RAW_ERR = ''ERR''"
definition RAW_CHANNEL :: string where "RAW_CHANNEL = ''CHANNEL''"
definition RAW_BAN :: string where "RAW_BAN = ''BANNED''"

section \<open>Heap access\<close>

text \<open>Reading through a dangling pointer is \<open>None\<close>; so is assigning a field through one.\<close>

definition upd_user :: "nat \<Rightarrow> (USERS \<Rightarrow> USERS) \<Rightarrow> acetables \<Rightarrow> acetables option" where
  "upd_user u f s = (case g_users s u of None \<Rightarrow> None | Some x \<Rightarrow> Some (s\<lparr>g_users := (g_users s)(u \<mapsto> f x)\<rparr>))"

definition upd_sub :: "nat \<Rightarrow> (subuser \<Rightarrow> subuser) \<Rightarrow> acetables \<Rightarrow> acetables option" where
  "upd_sub b f s = (case g_subs s b of None \<Rightarrow> None | Some x \<Rightarrow> Some (s\<lparr>g_subs := (g_subs s)(b \<mapsto> f x)\<rparr>))"

definition upd_chan :: "nat \<Rightarrow> (CHANNEL \<Rightarrow> CHANNEL) \<Rightarrow> acetables \<Rightarrow> acetables option" where
  "upd_chan c f s = (case g_chans s c of None \<Rightarrow> None | Some x \<Rightarrow> Some (s\<lparr>g_chans := (g_chans s)(c \<mapsto> f x)\<rparr>))"

definition upd_pipe :: "nat \<Rightarrow> (transpipe \<Rightarrow> transpipe) \<Rightarrow> acetables \<Rightarrow> acetables option" where
  "upd_pipe p f s = (case g_pipes s p of None \<Rightarrow> None | Some x \<Rightarrow> Some (s\<lparr>g_pipes := (g_pipes s)(p \<mapsto> f x)\<rparr>))"

definition upd_raw :: "nat \<Rightarrow> (RAW \<Rightarrow> RAW) \<Rightarrow> acetables \<Rightarrow> acetables option" where
  "upd_raw r f s = (case g_raws s r of None \<Rightarrow> None | Some x \<Rightarrow> Some (s\<lparr>g_raws := (g_raws s)(r \<mapsto> f x)\<rparr>))"

text \<open>A loop over a list whose body may fail.\<close>

fun forM :: "'a list \<Rightarrow> ('a \<Rightarrow> 's \<Rightarrow> 's option) \<Rightarrow> 's \<Rightarrow> 's option" where
  "forM [] f s = Some s"
| "forM (x # xs) f s = Option.bind (f x s) (forM xs f)"

text \<open>A loop over a linked list by a pointer to the current node: the body returns the node it goes on
  with, as it read it before the node could be freed.\<close>

partial_function (option) walk :: "(nat \<Rightarrow> 's \<Rightarrow> (nat option \<times> 's) option) \<Rightarrow> nat option \<Rightarrow> 's \<Rightarrow> 's option" where
  "walk body cur s =
     (case cur of None \<Rightarrow> Some s
      | Some v \<Rightarrow> Option.bind (body v s) (\<lambda>(n, s'). walk body n s'))"

definition hd_opt :: "'a list \<Rightarrow> 'a option" where
  "hd_opt xs = (case xs of [] \<Rightarrow> None | x # _ \<Rightarrow> Some x)"

text \<open>\<open>node->next\<close>, which is undefined for a node that is not in the list any more.\<close>

definition next_of :: "'a \<Rightarrow> 'a list \<Rightarrow> 'a option option" where
  "next_of v xs = (case dropWhile (\<lambda>x. x \<noteq> v) xs of [] \<Rightarrow> None | _ # rest \<Rightarrow> Some (hd_opt rest))"

lemma next_of_mid: "v \<notin> set xs \<Longrightarrow> next_of v (xs @ v # rest) = Some (hd_opt rest)"
proof -
  assume "v \<notin> set xs"
  then have "dropWhile (\<lambda>x. x \<noteq> v) (xs @ v # rest) = v # rest" by (induction xs) auto
  then show ?thesis by (simp add: next_of_def)
qed

text \<open>A loop that visits the nodes \<open>vs\<close> in order ends, with an invariant over the nodes still to come.\<close>

lemma walk_list:
  assumes step: "\<And>v vs s. I (v # vs) s \<Longrightarrow> \<exists>s'. body v s = Some (hd_opt vs, s') \<and> I vs s'"
    and "I vs s"
  shows "\<exists>s'. walk body (hd_opt vs) s = Some s' \<and> I [] s'"
  using assms(2)
proof (induction vs arbitrary: s)
  case Nil
  then show ?case by (simp add: hd_opt_def walk.simps)
next
  case (Cons v vs)
  obtain s1 where "body v s = Some (hd_opt vs, s1)" "I vs s1" using step [OF Cons.prems] by blast
  then show ?case using Cons.IH [of s1] by (subst walk.simps) (simp add: hd_opt_def)
qed

section \<open>Plugin events\<close>

text \<open>The first plugin, from number \<open>i\<close> on, that hooks the event and is not already running its
  callback for it.\<close>

fun find_hook :: "'cb option list \<Rightarrow> (nat \<Rightarrow> bool) \<Rightarrow> nat \<Rightarrow> (nat \<times> 'cb) option" where
  "find_hook [] firing i = None"
| "find_hook (None # cs) firing i = find_hook cs firing (Suc i)"
| "find_hook (Some cb # cs) firing i = (if firing i then find_hook cs firing (Suc i) else Some (i, cb))"

definition set_fire :: "event \<Rightarrow> nat \<Rightarrow> bool \<Rightarrow> acetables \<Rightarrow> acetables" where
  "set_fire ev i b s = s\<lparr>g_fire := (g_fire s)(ev := (g_fire s ev)(i := b))\<rparr>"

text \<open>\<open>FIRE_EVENT_NULL\<close>: the hook replaces the rest of the function.\<close>

definition FIRE_EVENT_NULL ::
  "event \<Rightarrow> 'cb option list \<Rightarrow> ('cb \<Rightarrow> acetables \<Rightarrow> acetables option) \<Rightarrow>
   (acetables \<Rightarrow> acetables option) \<Rightarrow> acetables \<Rightarrow> acetables option" where
  "FIRE_EVENT_NULL ev cbs call body s =
     (case find_hook cbs (g_fire s ev) 0 of
        None \<Rightarrow> body s
      | Some (i, cb) \<Rightarrow> map_option (set_fire ev i False) (call cb (set_fire ev i True s)))"

text \<open>\<open>FIRE_EVENT\<close>: likewise, and what the hook returns is returned.\<close>

definition FIRE_EVENT ::
  "event \<Rightarrow> 'cb option list \<Rightarrow> ('cb \<Rightarrow> acetables \<Rightarrow> (nat option \<times> acetables) option) \<Rightarrow>
   (acetables \<Rightarrow> (nat option \<times> acetables) option) \<Rightarrow> acetables \<Rightarrow> (nat option \<times> acetables) option" where
  "FIRE_EVENT ev cbs call body s =
     (case find_hook cbs (g_fire s ev) 0 of
        None \<Rightarrow> body s
      | Some (i, cb) \<Rightarrow>
          map_option (\<lambda>(r, s'). (r, set_fire ev i False s')) (call cb (set_fire ev i True s)))"

text \<open>\<open>FIRE_EVENT_NONSTOP\<close>: every hook runs, then the function goes on.\<close>

fun fire_nonstop ::
  "event \<Rightarrow> nat \<Rightarrow> 'cb option list \<Rightarrow> ('cb \<Rightarrow> acetables \<Rightarrow> acetables option) \<Rightarrow> acetables \<Rightarrow> acetables option" where
  "fire_nonstop ev i [] call s = Some s"
| "fire_nonstop ev i (None # cs) call s = fire_nonstop ev (Suc i) cs call s"
| "fire_nonstop ev i (Some cb # cs) call s =
     (if g_fire s ev i then fire_nonstop ev (Suc i) cs call s
      else Option.bind (call cb (set_fire ev i True s))
             (\<lambda>s'. fire_nonstop ev (Suc i) cs call (set_fire ev i False s')))"

definition FIRE_EVENT_NONSTOP ::
  "event \<Rightarrow> 'cb option list \<Rightarrow> ('cb \<Rightarrow> acetables \<Rightarrow> acetables option) \<Rightarrow> acetables \<Rightarrow> acetables option" where
  "FIRE_EVENT_NONSTOP ev cbs call s = fire_nonstop ev 0 cbs call s"

text \<open>No plugin hooks any event of the core.\<close>

definition unhooked :: "'cb option list \<Rightarrow> bool" where
  "unhooked cbs \<longleftrightarrow> (\<forall>c \<in> set cbs. c = None)"

definition quiet :: "env \<Rightarrow> bool" where
  "quiet E \<longleftrightarrow> unhooked (e_allocateuser E) \<and> unhooked (e_adduser E) \<and> unhooked (e_deluser E) \<and>
     unhooked (e_mkchan E) \<and> unhooked (e_rmchan E) \<and> unhooked (e_join E) \<and> unhooked (e_left E) \<and>
     unhooked (e_tickuser E) \<and> unhooked (e_post_raw_sub E) \<and> unhooked (e_addsubuser E) \<and>
     unhooked (e_delsubuser E)"

lemma find_hook_unhooked: "unhooked cbs \<Longrightarrow> find_hook cbs f i = None"
  by (induction cbs f i rule: find_hook.induct) (auto simp: unhooked_def)

lemma FIRE_EVENT_NULL_unhooked [simp]: "unhooked cbs \<Longrightarrow> FIRE_EVENT_NULL ev cbs call body s = body s"
  by (simp add: FIRE_EVENT_NULL_def find_hook_unhooked)

lemma FIRE_EVENT_unhooked [simp]: "unhooked cbs \<Longrightarrow> FIRE_EVENT ev cbs call body s = body s"
  by (simp add: FIRE_EVENT_def find_hook_unhooked)

lemma FIRE_EVENT_NONSTOP_unhooked [simp]: "unhooked cbs \<Longrightarrow> FIRE_EVENT_NONSTOP ev cbs call s = Some s"
proof -
  assume "unhooked cbs"
  then have "fire_nonstop ev i cbs call s = Some s" for i
    by (induction ev i cbs call s rule: fire_nonstop.induct) (auto simp: unhooked_def)
  then show ?thesis by (simp add: FIRE_EVENT_NONSTOP_def)
qed

lemma quietD:
  assumes "quiet E"
  shows "unhooked (e_allocateuser E)" "unhooked (e_adduser E)" "unhooked (e_deluser E)"
    "unhooked (e_mkchan E)" "unhooked (e_rmchan E)" "unhooked (e_join E)" "unhooked (e_left E)"
    "unhooked (e_tickuser E)" "unhooked (e_post_raw_sub E)" "unhooked (e_addsubuser E)" "unhooked (e_delsubuser E)"
  using assms by (simp_all add: quiet_def)

end
