(* ===== verification/Ape_Raw.thy ===== *)
theory Ape_Raw
  imports Ape_State
begin

text \<open>
  Messages (\<open>RAW\<close>) of \<open>src/raw.c\<close>: forging, sharing by reference count, the two slot pools of a
  subuser, posting to subusers, users and channels, and the writing of a subuser's queue to its
  socket.
\<close>

section \<open>Messages\<close>

definition sprintf_li :: "int \<Rightarrow> string" where
  "sprintf_li n = (if n < 0 then ''-'' else []) @ dec_digits (nat \<bar>n\<bar>)"

text \<open>\<open>unixtime\<close> has 16 bytes.\<close>

definition forge_raw :: "string \<Rightarrow> json_item \<Rightarrow> acetables \<Rightarrow> (nat \<times> acetables) option" where
  "forge_raw raw jlist s =
     (let unixtime = sprintf_li (g_now s);
          jstruct = json_new_object;
          jstruct = json_set_property_strN jstruct (Some ''time'') 4 unixtime (length unixtime);
          jstruct = json_set_property_strN jstruct (Some ''raw'') 3 raw (length raw);
          jstruct = json_set_property_objN jstruct (Some ''data'') 4 jlist in
      if length unixtime < 16 then do {
        str \<leftarrow> json_to_string [jstruct];
        let new_raw = \<lparr>raw_data = str, raw_priority = RAW_PRI_LO, raw_refcount = 0\<rparr>;
        Some (g_next s, s\<lparr>g_raws := (g_raws s)(g_next s \<mapsto> new_raw), g_next := Suc (g_next s)\<rparr>) }
      else None)"

text \<open>\<open>newraw->priority = RAW_PRI_HI\<close>, which follows some calls of \<open>forge_raw\<close>.\<close>

definition forge_raw_hi :: "string \<Rightarrow> json_item \<Rightarrow> acetables \<Rightarrow> (nat \<times> acetables) option" where
  "forge_raw_hi raw jlist s = do {
     (r, s) \<leftarrow> forge_raw raw jlist s;
     s \<leftarrow> upd_raw r (\<lambda>x. x\<lparr>raw_priority := RAW_PRI_HI\<rparr>) s;
     Some (r, s) }"

definition free_raw :: "nat \<Rightarrow> acetables \<Rightarrow> (int \<times> acetables) option" where
  "free_raw fraw s = do {
     x \<leftarrow> g_raws s fraw;
     let rc = raw_refcount x - 1;
     if rc \<le> 0 then Some (0, s\<lparr>g_raws := (g_raws s)(fraw := None)\<rparr>)
     else Some (rc, s\<lparr>g_raws := (g_raws s)(fraw \<mapsto> x\<lparr>raw_refcount := rc\<rparr>)\<rparr>) }"

definition copy_raw :: "nat \<Rightarrow> acetables \<Rightarrow> (nat \<times> acetables) option" where
  "copy_raw input s = do {
     x \<leftarrow> g_raws s input;
     Some (g_next s, s\<lparr>g_raws := (g_raws s)(g_next s \<mapsto> x\<lparr>raw_refcount := 0\<rparr>), g_next := Suc (g_next s)\<rparr>) }"

definition copy_raw_z :: "nat \<Rightarrow> acetables \<Rightarrow> acetables option" where
  "copy_raw_z input s = upd_raw input (\<lambda>x. x\<lparr>raw_refcount := raw_refcount x + 1\<rparr>) s"

section \<open>Pools\<close>

definition init_raw_pool :: "nat \<Rightarrow> nat option list" where
  "init_raw_pool n = replicate n None"

text \<open>\<open>ptr->next = pool\<close>: what followed the cell at \<open>ptr\<close> is cut off.\<close>

definition expend_raw_pool :: "nat option list \<Rightarrow> nat \<Rightarrow> nat \<Rightarrow> nat option list option" where
  "expend_raw_pool cells ptr n =
     (if ptr < length cells then Some (take (Suc ptr) cells @ init_raw_pool n) else None)"

definition new_pool :: "nat \<Rightarrow> raw_pool_user" where
  "new_pool n = \<lparr>pool_nraw = 0, pool_size = n, pool_cells = init_raw_pool n, pool_foot = 0\<rparr>"

text \<open>The part of \<open>post_raw_sub\<close> that works on the chosen pool.\<close>

definition pool_push :: "nat \<Rightarrow> raw_pool_user \<Rightarrow> raw_pool_user option" where
  "pool_push raw pool =
     (let nraw = Suc (pool_nraw pool); add_size = 16 in do {
        pool \<leftarrow> (if nraw = pool_size pool then do {
                   cells \<leftarrow> expend_raw_pool (pool_cells pool) (pool_foot pool) add_size;
                   Some (pool\<lparr>pool_nraw := nraw, pool_size := pool_size pool + add_size, pool_cells := cells\<rparr>) }
                 else Some (pool\<lparr>pool_nraw := nraw\<rparr>));
        if pool_foot pool < length (pool_cells pool)
        then Some (pool\<lparr>pool_cells := (pool_cells pool)[pool_foot pool := Some raw],
                        pool_foot := Suc (pool_foot pool)\<rparr>)
        else None })"

definition destroy_raw_pool :: "nat option list \<Rightarrow> acetables \<Rightarrow> acetables option" where
  "destroy_raw_pool cells s =
     forM cells (\<lambda>c s. case c of None \<Rightarrow> Some s | Some r \<Rightarrow> map_option snd (free_raw r s)) s"

section \<open>Posting\<close>

definition post_raw_sub :: "env \<Rightarrow> nat \<Rightarrow> nat \<Rightarrow> acetables \<Rightarrow> acetables option" where
  "post_raw_sub E raw sub =
     FIRE_EVENT_NULL EV_post_raw_sub (e_post_raw_sub E) (\<lambda>cb. cb raw sub) (\<lambda>s. do {
       x \<leftarrow> g_raws s raw;
       b \<leftarrow> g_subs s sub;
       b' \<leftarrow> (if raw_priority x = RAW_PRI_LO
              then map_option (\<lambda>p. b\<lparr>sub_low := p\<rparr>) (pool_push raw (sub_low b))
              else map_option (\<lambda>p. b\<lparr>sub_high := p\<rparr>) (pool_push raw (sub_high b)));
       Some (s\<lparr>g_subs := (g_subs s)(sub \<mapsto> b'\<lparr>sub_nraw := Suc (sub_nraw b')\<rparr>)\<rparr>) })"

text \<open>\<open>post_raw_sub(copy_raw_z(raw), sub, g_ape)\<close>.\<close>

definition post_copy_z :: "env \<Rightarrow> nat \<Rightarrow> nat \<Rightarrow> acetables \<Rightarrow> acetables option" where
  "post_copy_z E raw sub s = Option.bind (copy_raw_z raw s) (post_raw_sub E raw sub)"

definition post_raw :: "env \<Rightarrow> nat \<Rightarrow> nat \<Rightarrow> acetables \<Rightarrow> acetables option" where
  "post_raw E raw user s = do {
     u \<leftarrow> g_users s user;
     forM (u_subuser u) (post_copy_z E raw) s }"

definition post_raw_restricted :: "env \<Rightarrow> nat \<Rightarrow> nat \<Rightarrow> nat option \<Rightarrow> acetables \<Rightarrow> acetables option" where
  "post_raw_restricted E raw user sub s = do {
     u \<leftarrow> g_users s user;
     case sub of
       None \<Rightarrow> Some s
     | Some b \<Rightarrow> forM (u_subuser u) (\<lambda>t s. if b \<noteq> t then post_copy_z E raw t s else Some s) s }"

definition post_raw_channel :: "env \<Rightarrow> nat \<Rightarrow> nat \<Rightarrow> acetables \<Rightarrow> acetables option" where
  "post_raw_channel E raw chan s = do {
     c \<leftarrow> g_chans s chan;
     forM (c_head c) (\<lambda>l. post_raw E raw (ul_userinfo l)) s }"

definition post_raw_channel_restricted ::
  "env \<Rightarrow> nat \<Rightarrow> nat \<Rightarrow> nat option \<Rightarrow> acetables \<Rightarrow> acetables option" where
  "post_raw_channel_restricted E raw chan ruser s = do {
     c \<leftarrow> g_chans s chan;
     forM (c_head c)
       (\<lambda>l s. if Some (ul_userinfo l) \<noteq> ruser then post_raw E raw (ul_userinfo l) s else Some s) s }"

section \<open>Writing to the socket\<close>

definition send_chunks :: "env \<Rightarrow> nat \<Rightarrow> string list \<Rightarrow> acetables \<Rightarrow> (bool \<times> acetables) option" where
  "send_chunks E fd xs s =
     map_option (\<lambda>(f, sk). (f, s\<lparr>g_sk := sk\<rparr>)) (send_seq (e_os E) fd xs (g_sk s))"

definition pad_chunk :: "(transport_properties \<Rightarrow> string option) \<Rightarrow> transport_properties option \<Rightarrow> string list" where
  "pad_chunk side properties =
     (case properties of None \<Rightarrow> [] | Some p \<Rightarrow> (case side p of None \<Rightarrow> [] | Some v \<Rightarrow> [v]))"

definition send_transport_header ::
  "env \<Rightarrow> http_headers_response option \<Rightarrow> transport_t \<Rightarrow> nat \<Rightarrow> acetables \<Rightarrow> (bool \<times> acetables) option" where
  "send_transport_header E content transport fd s =
     (case transport_header transport of
        None \<Rightarrow> Some (True, s)
      | Some (h, n) \<Rightarrow>
          map_option (\<lambda>(f, sk). (f, s\<lparr>g_sk := sk\<rparr>)) (http_send_headers (e_os E) content h n fd (g_sk s)))"

definition ws_head_chunk :: "transport_t \<Rightarrow> ws_version option \<Rightarrow> nat \<Rightarrow> string list option" where
  "ws_head_chunk transport ws psize =
     (if transport = TRANSPORT_WEBSOCKET_IETF
      then map_option (\<lambda>v. [ws_payload_head v psize]) ws else Some [])"

definition send_raw_inline :: "env \<Rightarrow> nat \<Rightarrow> transport_t \<Rightarrow> nat \<Rightarrow> acetables \<Rightarrow> (bool \<times> acetables) option" where
  "send_raw_inline E client transport raw s = do {
     k \<leftarrow> g_co s client;
     x \<leftarrow> g_raws s raw;
     let properties = transport_get_properties transport (g_transports s);
     (f1, s) \<leftarrow> send_transport_header E None transport (s_fd k) s;
     (f2, s) \<leftarrow> send_chunks E (s_fd k) (pad_chunk pad_left properties) s;
     ws \<leftarrow> ws_head_chunk transport (s_ws k) (length (raw_data x) + 2);
     (f3, s) \<leftarrow> send_chunks E (s_fd k) (ws @ [''['', raw_data x, '']''] @ pad_chunk pad_right properties) s;
     (_, s) \<leftarrow> free_raw raw s;
     Some (f1 \<and> f2 \<and> f3, s) }"

text \<open>Moving through the pools: \<open>prev\<close> in the high pool, \<open>next\<close> in the low one (\<open>state\<close>); \<open>None\<close> is a
  NULL pointer, as is an index behind the last cell.\<close>

definition pool_at :: "nat option list \<Rightarrow> nat option \<Rightarrow> nat option option" where
  "pool_at cells p =
     (case p of None \<Rightarrow> None | Some i \<Rightarrow> if i < length cells then Some (cells ! i) else None)"

definition pool_next :: "bool \<Rightarrow> nat \<Rightarrow> nat option" where
  "pool_next state i = (if state then Some (Suc i) else if i = 0 then None else Some (i - 1))"

definition has_raw :: "nat option list \<Rightarrow> nat option \<Rightarrow> bool" where
  "has_raw cells p \<longleftrightarrow> (\<exists>r \<in> set_option (pool_at cells p). r \<noteq> None)"

definition walk_measure :: "nat option list \<Rightarrow> nat option list \<Rightarrow> bool \<Rightarrow> nat option \<Rightarrow> nat" where
  "walk_measure hi lo state p =
     (case p of None \<Rightarrow> 0 | Some i \<Rightarrow> if state then length lo - i else length lo + 1 + i)"

function raws_size_loop :: "(nat \<rightharpoonup> RAW) \<Rightarrow> nat option list \<Rightarrow> nat option list \<Rightarrow> bool \<Rightarrow> nat option \<Rightarrow> nat option" where
  "raws_size_loop raws hi lo state p =
     (case pool_at (if state then lo else hi) p of
        None \<Rightarrow> None
      | Some None \<Rightarrow> Some 0
      | Some (Some r) \<Rightarrow>
          (let nxt = pool_next state (the p);
               sw = (\<not> state \<and> \<not> has_raw hi nxt) in do {
             x \<leftarrow> raws r;
             n \<leftarrow> (if sw then raws_size_loop raws hi lo True (Some 0) else raws_size_loop raws hi lo state nxt);
             Some (length (raw_data x) + 1 + n) }))"
  by pat_completeness auto
termination
  by (relation "measure (\<lambda>(raws, hi, lo, state, p). walk_measure hi lo state p)")
     (auto simp: pool_at_def walk_measure_def pool_next_def split: option.splits if_splits)

text \<open>Where the walk over the pools starts: \<open>rawfoot->prev\<close> of the high pool when it has messages, else
  the first cell of the low pool.\<close>

definition walk_start :: "subuser \<Rightarrow> nat option" where
  "walk_start b =
     (if pool_nraw (sub_high b) \<noteq> 0
      then (if pool_foot (sub_high b) < length (pool_cells (sub_high b))
            then pool_next False (pool_foot (sub_high b)) else None)
      else Some 0)"

definition raws_size :: "subuser \<Rightarrow> acetables \<Rightarrow> nat option" where
  "raws_size user s =
     (if sub_nraw user = 0 then Some 0
      else map_option (\<lambda>n. 1 + n)
        (raws_size_loop (g_raws s) (pool_cells (sub_high user)) (pool_cells (sub_low user))
           (pool_nraw (sub_high user) = 0) (walk_start user)))"

text \<open>The main loop of \<open>send_raws\<close>: send the message, a comma or the closing bracket, release it,
  clear the cell, go on. \<open>lown\<close> is \<open>raw_pools.low.nraw\<close>.\<close>

function send_raws_loop ::
  "env \<Rightarrow> nat \<Rightarrow> string list \<Rightarrow> nat \<Rightarrow> nat option list \<Rightarrow> nat option list \<Rightarrow> bool \<Rightarrow> nat option \<Rightarrow>
   acetables \<Rightarrow> (bool \<times> nat option list \<times> nat option list \<times> acetables) option" where
  "send_raws_loop E fd right lown hi lo state p s =
     (case pool_at (if state then lo else hi) p of
        None \<Rightarrow> None
      | Some None \<Rightarrow> Some (True, hi, lo, s)
      | Some (Some r) \<Rightarrow>
          (let nxt = pool_next state (the p);
               more = (has_raw (if state then lo else hi) nxt \<or> (\<not> state \<and> lown \<noteq> 0));
               hi' = (if state then hi else hi[the p := None]);
               lo' = (if state then lo[the p := None] else lo);
               sw = (\<not> state \<and> \<not> has_raw hi' nxt) in do {
             x \<leftarrow> g_raws s r;
             (f1, s) \<leftarrow> send_chunks E fd (raw_data x # (if more then ['',''] else '']'' # right)) s;
             (_, s) \<leftarrow> free_raw r s;
             (f2, hi'', lo'', s) \<leftarrow>
               (if sw then send_raws_loop E fd right lown hi' lo' True (Some 0) s
                else send_raws_loop E fd right lown hi' lo' state nxt s);
             Some (f1 \<and> f2, hi'', lo'', s) }))"
  by pat_completeness auto
termination
  by (relation "measure (\<lambda>(E, fd, right, lown, hi, lo, state, p, s). walk_measure hi lo state p)")
     (auto simp: pool_at_def walk_measure_def pool_next_def split: option.splits if_splits)

declare raws_size_loop.simps [simp del] send_raws_loop.simps [simp del]

definition pool_reset :: "raw_pool_user \<Rightarrow> nat option list \<Rightarrow> raw_pool_user" where
  "pool_reset pool cells = pool\<lparr>pool_nraw := 0, pool_foot := 0, pool_cells := cells\<rparr>"

definition send_raws :: "env \<Rightarrow> nat \<Rightarrow> acetables \<Rightarrow> (bool \<times> acetables) option" where
  "send_raws E sub s = do {
     b \<leftarrow> g_subs s sub;
     if sub_nraw b = 0 then Some (True, s)
     else do {
       client \<leftarrow> sub_client b;
       k \<leftarrow> g_co s client;
       user \<leftarrow> sub_user b;
       u \<leftarrow> g_users s user;
       let transport = u_transport u;
       let properties = transport_get_properties transport (g_transports s);
       (f1, s) \<leftarrow> (if sub_sent b then Some (True, s)
                   else send_transport_header E (sub_content b) transport (s_fd k) s);
       (f2, s) \<leftarrow> send_chunks E (s_fd k) (pad_chunk pad_left properties) s;
       psize \<leftarrow> (if transport = TRANSPORT_WEBSOCKET_IETF then raws_size b s else Some 0);
       ws \<leftarrow> ws_head_chunk transport (s_ws k) psize;
       (f3, s) \<leftarrow> send_chunks E (s_fd k) (ws @ [''['']) s;
       (f4, hi, lo, s) \<leftarrow>
         send_raws_loop E (s_fd k) (pad_chunk pad_right properties) (pool_nraw (sub_low b))
           (pool_cells (sub_high b)) (pool_cells (sub_low b)) (pool_nraw (sub_high b) = 0) (walk_start b) s;
       s \<leftarrow> upd_sub sub (\<lambda>b. b\<lparr>sub_sent := True, sub_high := pool_reset (sub_high b) hi,
              sub_low := pool_reset (sub_low b) lo, sub_nraw := 0\<rparr>) s;
       Some (f1 \<and> f2 \<and> f3 \<and> f4, s) } }"

section \<open>Invariants of the message layer\<close>

text \<open>A pool with the queued messages \<open>rs\<close>: they fill the first cells in order, and at least one
  free cell is left behind them.\<close>

definition pool_inv :: "raw_pool_user \<Rightarrow> nat list \<Rightarrow> bool" where
  "pool_inv p rs \<longleftrightarrow> pool_nraw p = length rs \<and> pool_foot p = length rs \<and> length rs < pool_size p \<and>
     pool_cells p = map Some rs @ replicate (pool_size p - length rs) None"

definition pool_raws :: "raw_pool_user \<Rightarrow> nat list" where
  "pool_raws p = map the (takeWhile (\<lambda>c. c \<noteq> None) (pool_cells p))"

lemma pool_inv_raws: "pool_inv p rs \<Longrightarrow> pool_raws p = rs"
proof -
  assume p: "pool_inv p rs"
  have "takeWhile (\<lambda>c. c \<noteq> None) (map Some rs @ replicate n None) = map Some rs" for n :: nat
    by (induction rs) (cases n; simp)+
  then show ?thesis using p by (simp add: pool_inv_def pool_raws_def comp_def)
qed

lemma new_pool_inv [simp]: "0 < n \<Longrightarrow> pool_inv (new_pool n) []"
  by (simp add: pool_inv_def new_pool_def init_raw_pool_def)

lemma pool_inv_length: "pool_inv p rs \<Longrightarrow> length (pool_cells p) = pool_size p"
  by (simp add: pool_inv_def)

text \<open>Posting never runs off the pool: the cell at the foot exists because the pool grows one message
  before it is full.\<close>

lemma pool_push_inv:
  assumes "pool_inv p rs"
  shows "\<exists>p'. pool_push r p = Some p' \<and> pool_inv p' (rs @ [r])"
proof (cases "Suc (length rs) = pool_size p")
  case True
  then have "pool_cells p = map Some rs @ [None]" "pool_foot p = length rs" "pool_nraw p = length rs"
    using assms by (simp_all add: pool_inv_def Suc_diff_le [symmetric] flip: True)
  then show ?thesis
    using True by (auto simp: pool_push_def Let_def expend_raw_pool_def init_raw_pool_def pool_inv_def
        list_update_append simp flip: True)
next
  case False
  have lt: "length rs < pool_size p" and c: "pool_cells p = map Some rs @ replicate (pool_size p - length rs) None"
    using assms by (simp_all add: pool_inv_def)
  obtain m where m: "pool_size p - length rs = Suc m" using lt by (metis Suc_diff_Suc)
  then have "pool_size p - Suc (length rs) = m" by simp
  then show ?thesis
    using False assms c m lt
    by (auto simp: pool_push_def Let_def pool_inv_def list_update_append replicate_append_same)
qed

text \<open>A subuser in order: its two pools are, and no module has set response headers for it.\<close>

definition sub_ok :: "subuser \<Rightarrow> bool" where
  "sub_ok b \<longleftrightarrow> sub_content b = None \<and> pool_inv (sub_low b) (pool_raws (sub_low b)) \<and> pool_inv (sub_high b) (pool_raws (sub_high b)) \<and>
     sub_nraw b = length (pool_raws (sub_low b)) + length (pool_raws (sub_high b))"

definition sub_raws :: "subuser \<Rightarrow> nat list" where
  "sub_raws b = pool_raws (sub_low b) @ pool_raws (sub_high b)"

text \<open>How many cells of all the pools refer to a message.\<close>

definition occ :: "acetables \<Rightarrow> nat \<Rightarrow> nat" where
  "occ s r = (\<Sum>b \<in> dom (g_subs s). count_list (sub_raws (the (g_subs s b))) r)"

definition msg_inv :: "acetables \<Rightarrow> bool" where
  "msg_inv s \<longleftrightarrow>
     finite (dom (g_subs s)) \<and>
     (\<forall>b x. g_subs s b = Some x \<longrightarrow> sub_ok x \<and> b < g_next s) \<and>
     (\<forall>r. g_raws s r = None \<longrightarrow> occ s r = 0) \<and>
     (\<forall>r x. g_raws s r = Some x \<longrightarrow>
        r < g_next s \<and> 0 \<le> raw_refcount x \<and> int (occ s r) \<le> max 1 (raw_refcount x)) \<and>
     length (sprintf_li (g_now s)) < 16"

text \<open>Further copies of the message may be posted.\<close>

definition shared :: "acetables \<Rightarrow> nat \<Rightarrow> bool" where
  "shared s r \<longleftrightarrow> (\<exists>x. g_raws s r = Some x \<and> int (occ s r) \<le> raw_refcount x)"

lemma msg_invD:
  assumes "msg_inv s"
  shows "finite (dom (g_subs s))" "g_subs s b = Some x \<Longrightarrow> sub_ok x" "g_subs s b = Some x \<Longrightarrow> b < g_next s"
    "g_raws s r = None \<Longrightarrow> occ s r = 0" "g_raws s r = Some y \<Longrightarrow> r < g_next s"
    "g_raws s r = Some y \<Longrightarrow> 0 \<le> raw_refcount y"
    "g_raws s r = Some y \<Longrightarrow> int (occ s r) \<le> max 1 (raw_refcount y)"
    "length (sprintf_li (g_now s)) < 16"
  using assms unfolding msg_inv_def by blast+

lemma msg_invI:
  assumes "finite (dom (g_subs s))" "\<And>b x. g_subs s b = Some x \<Longrightarrow> sub_ok x" "\<And>b x. g_subs s b = Some x \<Longrightarrow> b < g_next s"
    "\<And>r. g_raws s r = None \<Longrightarrow> occ s r = 0" "\<And>r y. g_raws s r = Some y \<Longrightarrow> r < g_next s"
    "\<And>r y. g_raws s r = Some y \<Longrightarrow> 0 \<le> raw_refcount y"
    "\<And>r y. g_raws s r = Some y \<Longrightarrow> int (occ s r) \<le> max 1 (raw_refcount y)"
    "length (sprintf_li (g_now s)) < 16"
  shows "msg_inv s"
  using assms unfolding msg_inv_def by blast

text \<open>A message queued anywhere is allocated: nothing sent or copied from a pool dangles.\<close>

lemma queued_live:
  assumes "msg_inv s" and "g_subs s b = Some x" and "r \<in> set (sub_raws x)"
  shows "\<exists>y. g_raws s r = Some y"
proof (rule ccontr)
  assume "\<not> ?thesis"
  then have "occ s r = 0" using msg_invD(4) [OF assms(1)] by (cases "g_raws s r") auto
  then have "count_list (sub_raws x) r = 0"
    using assms(2) msg_invD(1) [OF assms(1)] by (auto simp: occ_def dom_def)
  then show False using assms(3) by (simp add: count_list_0_iff)
qed

lemma occ_upd:
  assumes "finite (dom (g_subs s))" and "g_subs s b = Some x" and "g_subs s' = (g_subs s)(b \<mapsto> x')"
  shows "occ s' r + count_list (sub_raws x) r = occ s r + count_list (sub_raws x') r"
proof -
  let ?f = "\<lambda>s b. count_list (sub_raws (the (g_subs s b))) r"
  have d: "dom (g_subs s') = dom (g_subs s)" "b \<in> dom (g_subs s)" using assms by auto
  have "occ s r = ?f s b + (\<Sum>b \<in> dom (g_subs s) - {b}. ?f s b)"
    unfolding occ_def using assms(1) d(2) by (rule sum.remove)
  moreover have "occ s' r = ?f s' b + (\<Sum>b \<in> dom (g_subs s) - {b}. ?f s' b)"
    unfolding occ_def d(1) using assms(1) d(2) by (rule sum.remove)
  moreover have "(\<Sum>b \<in> dom (g_subs s) - {b}. ?f s' b) = (\<Sum>b \<in> dom (g_subs s) - {b}. ?f s b)"
    by (rule sum.cong) (auto simp: assms(3))
  ultimately show ?thesis using assms(2,3) by simp
qed

lemma occ_cong: "g_subs s' = g_subs s \<Longrightarrow> occ s' r = occ s r"
  by (simp add: occ_def)

text \<open>What posting leaves alone: everything but the pools, the reference counts and fresh messages.\<close>

definition sub_core :: "subuser \<Rightarrow> subuser" where
  "sub_core b = b\<lparr>sub_low := new_pool 0, sub_high := new_pool 0, sub_nraw := 0\<rparr>"

definition raw_core :: "RAW \<Rightarrow> RAW" where
  "raw_core x = x\<lparr>raw_refcount := 0\<rparr>"

definition posted :: "acetables \<Rightarrow> acetables \<Rightarrow> bool" where
  "posted s s' \<longleftrightarrow>
     s'\<lparr>g_subs := g_subs s, g_raws := g_raws s, g_next := g_next s\<rparr> = s \<and>
     g_next s \<le> g_next s' \<and>
     (\<forall>b. map_option sub_core (g_subs s' b) = map_option sub_core (g_subs s b)) \<and>
     (\<forall>r. g_raws s r \<noteq> None \<longrightarrow> map_option raw_core (g_raws s' r) = map_option raw_core (g_raws s r))"

lemma posted_refl [simp]: "posted s s"
  by (simp add: posted_def)

lemma posted_trans:
  assumes "posted s s'" and "posted s' s''"
  shows "posted s s''"
proof -
  have "s''\<lparr>g_subs := g_subs s, g_raws := g_raws s, g_next := g_next s\<rparr> =
      (s''\<lparr>g_subs := g_subs s', g_raws := g_raws s', g_next := g_next s'\<rparr>)
        \<lparr>g_subs := g_subs s, g_raws := g_raws s, g_next := g_next s\<rparr>" by simp
  also have "\<dots> = s" using assms by (simp add: posted_def)
  finally have "s''\<lparr>g_subs := g_subs s, g_raws := g_raws s, g_next := g_next s\<rparr> = s" .
  moreover have "map_option raw_core (g_raws s'' r) = map_option raw_core (g_raws s r)"
    if "g_raws s r \<noteq> None" for r
  proof -
    have "map_option raw_core (g_raws s' r) = map_option raw_core (g_raws s r)"
      using assms(1) that by (simp add: posted_def)
    moreover from this that have "g_raws s' r \<noteq> None" by auto
    ultimately show ?thesis using assms(2) by (simp add: posted_def)
  qed
  ultimately show ?thesis using assms by (simp add: posted_def)
qed

lemma posted_frame [ape_frame]:
  assumes "posted s s'"
  shows "g_users s' = g_users s" "g_chans s' = g_chans s" "g_pipes s' = g_pipes s"
    "g_uHead s' = g_uHead s" "g_hSessid s' = g_hSessid s" "g_hPubid s' = g_hPubid s"
    "g_hLusers s' = g_hLusers s" "g_now s' = g_now s" "g_rpos s' = g_rpos s" "g_co s' = g_co s"
    "g_sk s' = g_sk s" "g_fire s' = g_fire s" "g_nConnected s' = g_nConnected s"
    "g_transports s' = g_transports s" "dom (g_subs s') = dom (g_subs s)" "g_next s \<le> g_next s'"
    "g_detached s' = g_detached s"
proof -
  have e: "s'\<lparr>g_subs := g_subs s, g_raws := g_raws s, g_next := g_next s\<rparr> = s"
    using assms by (simp add: posted_def)
  show "g_users s' = g_users s" "g_chans s' = g_chans s" "g_pipes s' = g_pipes s"
    "g_uHead s' = g_uHead s" "g_hSessid s' = g_hSessid s" "g_hPubid s' = g_hPubid s"
    "g_hLusers s' = g_hLusers s" "g_now s' = g_now s" "g_rpos s' = g_rpos s" "g_co s' = g_co s"
    "g_sk s' = g_sk s" "g_fire s' = g_fire s" "g_nConnected s' = g_nConnected s"
    "g_transports s' = g_transports s" "g_detached s' = g_detached s"
    by (subst e [symmetric], simp)+
  have "g_subs s' b = None \<longleftrightarrow> g_subs s b = None" for b
    using assms unfolding posted_def by (metis map_option_is_None)
  then show "dom (g_subs s') = dom (g_subs s)" by (auto simp: dom_def)
  show "g_next s \<le> g_next s'" using assms by (simp add: posted_def)
qed

definition lowq :: "acetables \<Rightarrow> nat \<Rightarrow> nat list" where
  "lowq s b = (case g_subs s b of None \<Rightarrow> [] | Some x \<Rightarrow> pool_raws (sub_low x))"

definition highq :: "acetables \<Rightarrow> nat \<Rightarrow> nat list" where
  "highq s b = (case g_subs s b of None \<Rightarrow> [] | Some x \<Rightarrow> pool_raws (sub_high x))"

text \<open>Where a message goes, by its priority.\<close>

definition raw_hi :: "acetables \<Rightarrow> nat \<Rightarrow> bool" where
  "raw_hi s r \<longleftrightarrow> map_option raw_priority (g_raws s r) = Some RAW_PRI_HI"

lemma post_raw_sub_spec:
  assumes q: "quiet E" and inv: "msg_inv s" and x: "g_raws s r = Some x" and b: "g_subs s b = Some y"
    and slack: "int (occ s r) + 1 \<le> max 1 (raw_refcount x)"
  obtains s' where "post_raw_sub E r b s = Some s'" "msg_inv s'" "posted s s'" "g_raws s' = g_raws s"
    "g_next s' = g_next s" "\<And>r'. occ s' r' = occ s r' + (if r' = r then 1 else 0)"
    "\<And>c. lowq s' c = lowq s c @ (if c = b \<and> \<not> raw_hi s r then [r] else [])"
    "\<And>c. highq s' c = highq s c @ (if c = b \<and> raw_hi s r then [r] else [])"
proof -
  define hi where "hi = raw_hi s r"
  have hi: "hi \<longleftrightarrow> raw_priority x \<noteq> RAW_PRI_LO"
    using x by (cases "raw_priority x") (simp_all add: hi_def raw_hi_def)
  have ok: "pool_inv (sub_low y) (pool_raws (sub_low y))" "pool_inv (sub_high y) (pool_raws (sub_high y))"
    "sub_nraw y = length (pool_raws (sub_low y)) + length (pool_raws (sub_high y))" "sub_content y = None"
    using msg_invD(2) [OF inv b] by (simp_all add: sub_ok_def)
  obtain pl ph where pl: "pool_push r (sub_low y) = Some pl" "pool_inv pl (pool_raws (sub_low y) @ [r])"
    and ph: "pool_push r (sub_high y) = Some ph" "pool_inv ph (pool_raws (sub_high y) @ [r])"
    using pool_push_inv ok by blast
  define y' where "y' = (if hi then y\<lparr>sub_high := ph, sub_nraw := Suc (sub_nraw y)\<rparr>
      else y\<lparr>sub_low := pl, sub_nraw := Suc (sub_nraw y)\<rparr>)"
  define s' where "s' = s\<lparr>g_subs := (g_subs s)(b \<mapsto> y')\<rparr>"
  have post: "post_raw_sub E r b s = Some s'"
    using quietD(9) [OF q] x b pl ph hi by (simp add: post_raw_sub_def s'_def y'_def)
  have ql: "pool_raws (sub_low y') = pool_raws (sub_low y) @ (if hi then [] else [r])"
    and qh: "pool_raws (sub_high y') = pool_raws (sub_high y) @ (if hi then [r] else [])"
    using pool_inv_raws [OF pl(2)] pool_inv_raws [OF ph(2)] by (simp_all add: y'_def)
  have ok': "sub_ok y'"
    using ok pl ph pool_inv_raws [OF pl(2)] pool_inv_raws [OF ph(2)] by (simp add: sub_ok_def y'_def)
  have "occ s' r' + count_list (sub_raws y) r' = occ s r' + count_list (sub_raws y') r'" for r'
    using msg_invD(1) [OF inv] b by (rule occ_upd) (simp add: s'_def)
  then have occ: "occ s' r' = occ s r' + (if r' = r then 1 else 0)" for r'
    using ql qh by (simp add: sub_raws_def split: if_splits)
  have gr: "g_raws s' = g_raws s" and gn: "g_next s' = g_next s" by (simp_all add: s'_def)
  have "msg_inv s'"
  proof (rule msg_invI)
    show "finite (dom (g_subs s'))" using msg_invD(1) [OF inv] by (simp add: s'_def)
    show "sub_ok z" "c < g_next s'" if "g_subs s' c = Some z" for c z
      using that ok' msg_invD(2,3) [OF inv] b by (auto simp: s'_def split: if_splits)
    show "occ s' r' = 0" if "g_raws s' r' = None" for r'
      using that x msg_invD(4) [OF inv, of r'] unfolding occ gr by auto
    show "r' < g_next s'" "0 \<le> raw_refcount z" "int (occ s' r') \<le> max 1 (raw_refcount z)"
      if "g_raws s' r' = Some z" for r' z
      using that x slack msg_invD(5-7) [OF inv, of r' z] unfolding occ gr gn by auto
    show "length (sprintf_li (g_now s')) < 16" using msg_invD(8) [OF inv] by (simp add: s'_def)
  qed
  moreover have "posted s s'" using b by (simp add: posted_def s'_def y'_def sub_core_def)
  ultimately show thesis
    using post occ ql qh b by (intro that [of s']) (auto simp: s'_def lowq_def highq_def hi_def split: if_splits)
qed

lemma copy_raw_z_spec:
  assumes inv: "msg_inv s" and sh: "shared s r"
  obtains s' x where "copy_raw_z r s = Some s'" "msg_inv s'" "posted s s'" "g_subs s' = g_subs s"
    "g_next s' = g_next s" "g_raws s' r = Some x" "int (occ s' r) + 1 \<le> raw_refcount x"
    "raw_hi s' = raw_hi s" "\<And>r'. r' \<noteq> r \<Longrightarrow> g_raws s' r' = g_raws s r'"
proof -
  obtain x where x: "g_raws s r = Some x" "int (occ s r) \<le> raw_refcount x"
    using sh by (auto simp: shared_def)
  define x' where "x' = x\<lparr>raw_refcount := raw_refcount x + 1\<rparr>"
  define s' where "s' = s\<lparr>g_raws := (g_raws s)(r \<mapsto> x')\<rparr>"
  have occ: "occ s' = occ s" by (simp add: occ_def s'_def fun_eq_iff)
  have "msg_inv s'"
  proof (rule msg_invI)
    show "0 \<le> raw_refcount z" "r' < g_next s'" "int (occ s' r') \<le> max 1 (raw_refcount z)"
      if "g_raws s' r' = Some z" for r' z
      using that x msg_invD(5-7) [OF inv, of r'] unfolding occ by (auto simp: s'_def x'_def split: if_splits)
    show "occ s' r' = 0" if "g_raws s' r' = None" for r'
      using that msg_invD(4) [OF inv, of r'] unfolding occ by (auto simp: s'_def split: if_splits)
  qed (use msg_invD(1-3,8) [OF inv] in \<open>auto simp: s'_def\<close>)
  moreover have "posted s s'" using x by (simp add: posted_def s'_def x'_def raw_core_def)
  ultimately show thesis
    using x by (intro that [of s' x'])
      (auto simp: copy_raw_z_def upd_raw_def s'_def x'_def occ_def raw_hi_def fun_eq_iff)
qed

lemma post_copy_z_spec:
  assumes q: "quiet E" and inv: "msg_inv s" and sh: "shared s r" and b: "b \<in> dom (g_subs s)"
  obtains s' where "post_copy_z E r b s = Some s'" "msg_inv s'" "posted s s'" "shared s' r" "raw_hi s' = raw_hi s"
    "\<And>c. lowq s' c = lowq s c @ (if c = b \<and> \<not> raw_hi s r then [r] else [])"
    "\<And>c. highq s' c = highq s c @ (if c = b \<and> raw_hi s r then [r] else [])"
proof -
  obtain s1 x where 1: "copy_raw_z r s = Some s1" "msg_inv s1" "posted s s1" "g_subs s1 = g_subs s"
    "g_next s1 = g_next s" "g_raws s1 r = Some x" "int (occ s1 r) + 1 \<le> raw_refcount x" "raw_hi s1 = raw_hi s"
    by (rule copy_raw_z_spec [OF inv sh]) blast
  obtain y where y: "g_subs s1 b = Some y" using b 1(4) by auto
  have "int (occ s1 r) + 1 \<le> max 1 (raw_refcount x)" using 1(7) by simp
  then obtain s2 where 2: "post_raw_sub E r b s1 = Some s2" "msg_inv s2" "posted s1 s2" "g_raws s2 = g_raws s1"
    "\<And>r'. occ s2 r' = occ s1 r' + (if r' = r then 1 else 0)"
    "\<And>c. lowq s2 c = lowq s1 c @ (if c = b \<and> \<not> raw_hi s1 r then [r] else [])"
    "\<And>c. highq s2 c = highq s1 c @ (if c = b \<and> raw_hi s1 r then [r] else [])"
    by (rule post_raw_sub_spec [OF q 1(2,6) y]) (rule that; assumption)
  have "shared s2 r" using 2(4,5) 1(6,7) by (simp add: shared_def)
  moreover have "raw_hi s2 = raw_hi s" using 2(4) 1(8) by (simp add: raw_hi_def fun_eq_iff)
  moreover have "lowq s1 = lowq s" "highq s1 = highq s" using 1(4) by (simp_all add: lowq_def highq_def fun_eq_iff)
  ultimately show thesis
    using 1 2 posted_trans [OF 1(3) 2(3)] by (intro that [of s2]) (simp_all add: post_copy_z_def)
qed

text \<open>Posting copies to a list of subusers queues the message once for each occurrence.\<close>

lemma post_copies_spec:
  assumes "quiet E" and "msg_inv s" and "shared s r" and "set bs \<subseteq> dom (g_subs s)"
  obtains s' where "forM bs (post_copy_z E r) s = Some s'" "msg_inv s'" "posted s s'" "shared s' r" "raw_hi s' = raw_hi s"
    "\<And>c. lowq s' c = lowq s c @ (if raw_hi s r then [] else replicate (count_list bs c) r)"
    "\<And>c. highq s' c = highq s c @ (if raw_hi s r then replicate (count_list bs c) r else [])"
  using assms(2-4)
proof (induction bs arbitrary: s thesis)
  case Nil
  then show ?case by simp
next
  case (Cons b bs)
  have bd: "b \<in> dom (g_subs s)" using Cons.prems(4) by simp
  obtain s1 where 1: "post_copy_z E r b s = Some s1" "msg_inv s1" "posted s s1" "shared s1 r" "raw_hi s1 = raw_hi s"
    "\<And>c. lowq s1 c = lowq s c @ (if c = b \<and> \<not> raw_hi s r then [r] else [])"
    "\<And>c. highq s1 c = highq s c @ (if c = b \<and> raw_hi s r then [r] else [])"
    by (rule post_copy_z_spec [OF assms(1) Cons.prems(2,3) bd]) (rule that; assumption)
  have sd: "set bs \<subseteq> dom (g_subs s1)" using Cons.prems(4) posted_frame(15) [OF 1(3)] by simp
  obtain s2 where 2: "forM bs (post_copy_z E r) s1 = Some s2" "msg_inv s2" "posted s1 s2" "shared s2 r" "raw_hi s2 = raw_hi s1"
    "\<And>c. lowq s2 c = lowq s1 c @ (if raw_hi s1 r then [] else replicate (count_list bs c) r)"
    "\<And>c. highq s2 c = highq s1 c @ (if raw_hi s1 r then replicate (count_list bs c) r else [])"
    by (rule Cons.IH [OF _ 1(2,4) sd]) (rule that; assumption)
  show ?case
    using 1 2 posted_trans [OF 1(3) 2(3)] by (intro Cons.prems(1) [of s2]) (simp_all add: replicate_app_Cons_same)
qed

lemma forM_append: "forM (xs @ ys) f s = Option.bind (forM xs f s) (forM ys f)"
proof (induction xs arbitrary: s)
  case (Cons x xs)
  then show ?case by (cases "f x s") simp_all
qed simp

lemma forM_filter: "forM xs (\<lambda>x s. if P x then f x s else Some s) s = forM (filter P xs) f s"
proof (induction xs arbitrary: s)
  case (Cons x xs)
  then show ?case by (cases "P x"; cases "f x s") simp_all
qed simp

lemma forM_map: "forM (map g xs) f s = forM xs (\<lambda>x. f (g x)) s"
proof (induction xs arbitrary: s)
  case (Cons x xs)
  then show ?case by (cases "f (g x) s") simp_all
qed simp

definition subs_of :: "acetables \<Rightarrow> nat \<Rightarrow> nat list" where
  "subs_of s u = (case g_users s u of None \<Rightarrow> [] | Some U \<Rightarrow> u_subuser U)"

text \<open>Users whose subusers all exist.\<close>

definition reachable :: "acetables \<Rightarrow> nat \<Rightarrow> bool" where
  "reachable s u \<longleftrightarrow> (\<exists>U. g_users s u = Some U \<and> set (u_subuser U) \<subseteq> dom (g_subs s))"

lemma reachable_posted: "posted s s' \<Longrightarrow> reachable s' u = reachable s u"
  by (simp add: reachable_def posted_frame)

lemma post_raw_eq: "g_users s u = Some U \<Longrightarrow> post_raw E r u s = forM (u_subuser U) (post_copy_z E r) s"
  by (simp add: post_raw_def)

lemma post_users_spec:
  assumes "quiet E" and "msg_inv s" and "shared s r" and "\<And>u. u \<in> set us \<Longrightarrow> reachable s u"
  obtains s' where "forM us (post_raw E r) s = Some s'" "msg_inv s'" "posted s s'" "shared s' r" "raw_hi s' = raw_hi s"
    "\<And>c. lowq s' c = lowq s c @
       (if raw_hi s r then [] else replicate (count_list (concat (map (subs_of s) us)) c) r)"
    "\<And>c. highq s' c = highq s c @
       (if raw_hi s r then replicate (count_list (concat (map (subs_of s) us)) c) r else [])"
  using assms(2-4)
proof (induction us arbitrary: s thesis)
  case Nil
  then show ?case by simp
next
  case (Cons u us)
  obtain U where U: "g_users s u = Some U" "set (u_subuser U) \<subseteq> dom (g_subs s)"
    using Cons.prems(4) [of u] by (auto simp: reachable_def)
  obtain s1 where 1: "forM (u_subuser U) (post_copy_z E r) s = Some s1" "msg_inv s1" "posted s s1" "shared s1 r" "raw_hi s1 = raw_hi s"
    "\<And>c. lowq s1 c = lowq s c @ (if raw_hi s r then [] else replicate (count_list (u_subuser U) c) r)"
    "\<And>c. highq s1 c = highq s c @ (if raw_hi s r then replicate (count_list (u_subuser U) c) r else [])"
    by (rule post_copies_spec [OF assms(1) Cons.prems(2,3) U(2)]) (rule that; assumption)
  have so: "subs_of s1 = subs_of s" using posted_frame(1) [OF 1(3)] by (simp add: subs_of_def fun_eq_iff)
  have rs: "reachable s1 v" if "v \<in> set us" for v
    using Cons.prems(4) [of v] that by (simp add: reachable_posted [OF 1(3)])
  obtain s2 where 2: "forM us (post_raw E r) s1 = Some s2" "msg_inv s2" "posted s1 s2" "shared s2 r" "raw_hi s2 = raw_hi s1"
    "\<And>c. lowq s2 c = lowq s1 c @
       (if raw_hi s1 r then [] else replicate (count_list (concat (map (subs_of s1) us)) c) r)"
    "\<And>c. highq s2 c = highq s1 c @
       (if raw_hi s1 r then replicate (count_list (concat (map (subs_of s1) us)) c) r else [])"
    by (rule Cons.IH [OF _ 1(2,4) rs]) (rule that; assumption)
  have su: "subs_of s u = u_subuser U" using U by (simp add: subs_of_def)
  show ?case
    by (rule Cons.prems(1) [of s2])
       (use 1 2 U posted_trans [OF 1(3) 2(3)] in
          \<open>simp_all add: post_raw_eq so su count_list_append replicate_add\<close>)
qed

lemma post_raw_spec:
  assumes "quiet E" and "msg_inv s" and "shared s r" and "reachable s u"
  obtains s' where "post_raw E r u s = Some s'" "msg_inv s'" "posted s s'" "shared s' r" "raw_hi s' = raw_hi s"
    "\<And>c. lowq s' c = lowq s c @ (if raw_hi s r then [] else replicate (count_list (subs_of s u) c) r)"
    "\<And>c. highq s' c = highq s c @ (if raw_hi s r then replicate (count_list (subs_of s u) c) r else [])"
proof -
  obtain U where U: "g_users s u = Some U" "set (u_subuser U) \<subseteq> dom (g_subs s)"
    using assms(4) by (auto simp: reachable_def)
  then have so: "subs_of s u = u_subuser U" by (simp add: subs_of_def)
  obtain s1 where 1: "forM (u_subuser U) (post_copy_z E r) s = Some s1" "msg_inv s1" "posted s s1" "shared s1 r" "raw_hi s1 = raw_hi s"
    "\<And>c. lowq s1 c = lowq s c @ (if raw_hi s r then [] else replicate (count_list (u_subuser U) c) r)"
    "\<And>c. highq s1 c = highq s c @ (if raw_hi s r then replicate (count_list (u_subuser U) c) r else [])"
    by (rule post_copies_spec [OF assms(1-3) U(2)]) (rule that; assumption)
  show thesis by (rule that [of s1]) (use 1 in \<open>simp_all add: post_raw_eq [OF U(1)] so\<close>)
qed

lemma forge_raw_spec:
  assumes inv: "msg_inv s" and j: "json_wf j"
  obtains r s' x where "forge_raw name j s = Some (r, s')" "msg_inv s'" "posted s s'" "shared s' r"
    "g_subs s' = g_subs s" "\<not> raw_hi s' r" "occ s' r = 0" "g_raws s' r = Some x" "raw_refcount x = 0"
    "g_raws s r = None" "\<And>r'. r' \<noteq> r \<Longrightarrow> g_raws s' r' = g_raws s r'"
proof -
  let ?t = "sprintf_li (g_now s)"
  define js where "js = json_set_property_objN (json_set_property_strN
     (json_set_property_strN json_new_object (Some ''time'') 4 ?t (length ?t)) (Some ''raw'') 3 name (length name))
     (Some ''data'') 4 j"
  have "json_container js" using j by (simp add: js_def)
  then have "list_all json_printable [js]" by (simp add: json_wf_printable json_container_wf)
  then obtain str where str: "json_to_string [js] = Some str" by (simp add: json_to_string_def)
  let ?r = "g_next s"
  define x where "x = \<lparr>raw_data = str, raw_priority = RAW_PRI_LO, raw_refcount = 0\<rparr>"
  define s' where "s' = s\<lparr>g_raws := (g_raws s)(?r \<mapsto> x), g_next := Suc ?r\<rparr>"
  have fr: "g_raws s ?r = None"
    using msg_invD(5) [OF inv, of ?r] by (cases "g_raws s ?r") auto
  have o: "occ s' = occ s" by (simp add: occ_def s'_def fun_eq_iff)
  have o0: "occ s ?r = 0" by (rule msg_invD(4) [OF inv fr])
  have "forge_raw name j s = Some (?r, s')"
    using msg_invD(8) [OF inv] str by (simp add: forge_raw_def js_def s'_def x_def)
  moreover have "msg_inv s'"
  proof (rule msg_invI)
    show "occ s' r = 0" if "g_raws s' r = None" for r
      using that msg_invD(4) [OF inv, of r] unfolding o by (auto simp: s'_def split: if_splits)
    show "r < g_next s'" "0 \<le> raw_refcount y" "int (occ s' r) \<le> max 1 (raw_refcount y)" if "g_raws s' r = Some y" for r y
      using that o0 msg_invD(5-7) [OF inv, of r y] unfolding o by (auto simp: s'_def x_def split: if_splits)
    show "b < g_next s'" if "g_subs s' b = Some y" for b y
      using that msg_invD(3) [OF inv, of b y] by (simp add: s'_def)
  qed (use msg_invD(1,2,8) [OF inv] in \<open>auto simp: s'_def\<close>)
  moreover have "posted s s'" using fr by (simp add: posted_def s'_def)
  moreover have "shared s' ?r" using o0 unfolding shared_def o by (simp add: s'_def x_def)
  moreover have "\<not> raw_hi s' ?r" by (simp add: raw_hi_def s'_def x_def)
  ultimately show thesis
    using fr o o0 by (intro that [of ?r s' x]) (simp_all add: s'_def x_def)
qed

section \<open>Releasing queued messages\<close>

definition free1 :: "nat \<Rightarrow> (nat \<rightharpoonup> RAW) \<Rightarrow> (nat \<rightharpoonup> RAW)" where
  "free1 r raws =
     (case raws r of None \<Rightarrow> raws
      | Some x \<Rightarrow> if raw_refcount x - 1 \<le> 0 then raws(r := None)
                  else raws(r \<mapsto> x\<lparr>raw_refcount := raw_refcount x - 1\<rparr>))"

definition covers :: "(nat \<rightharpoonup> RAW) \<Rightarrow> nat list \<Rightarrow> bool" where
  "covers raws rs \<longleftrightarrow>
     (\<forall>r \<in> set rs. \<exists>x. raws r = Some x \<and> int (count_list rs r) \<le> max 1 (raw_refcount x))"

lemma free_raw_free1: "g_raws s r = Some x \<Longrightarrow> map_option snd (free_raw r s) = Some (s\<lparr>g_raws := free1 r (g_raws s)\<rparr>)"
  by (simp add: free_raw_def free1_def Let_def)

lemma covers_Cons:
  assumes "covers raws (r # rs)"
  obtains x where "raws r = Some x" "covers (free1 r raws) rs"
proof -
  obtain x where x: "raws r = Some x" "int (count_list (r # rs) r) \<le> max 1 (raw_refcount x)"
    using assms by (auto simp: covers_def)
  have "\<exists>y. free1 r raws q = Some y \<and> int (count_list rs q) \<le> max 1 (raw_refcount y)" if q: "q \<in> set rs" for q
  proof (cases "q = r")
    case True
    have "count_list rs r \<noteq> 0" using q True by (simp add: count_list_0_iff)
    then have "1 < raw_refcount x" using x(2) by simp
    then show ?thesis using True x by (simp add: free1_def)
  next
    case False
    obtain y where "raws q = Some y" "int (count_list (r # rs) q) \<le> max 1 (raw_refcount y)"
      using assms q by (auto simp: covers_def)
    then show ?thesis using False x by (simp add: free1_def)
  qed
  then show thesis using x by (intro that) (auto simp: covers_def)
qed

lemma free1_same: "raws a = Some x \<Longrightarrow>
    free1 a raws a = (if raw_refcount x \<le> 1 then None else Some (x\<lparr>raw_refcount := raw_refcount x - 1\<rparr>))"
  by (simp add: free1_def)

lemma free1_other: "q \<noteq> a \<Longrightarrow> free1 a raws q = raws q"
  by (simp add: free1_def split: option.split)

lemma free1_data:
  "free1 r raws q = Some y \<Longrightarrow> \<exists>x. raws q = Some x \<and> raw_data y = raw_data x"
  by (auto simp: free1_def split: option.splits if_splits)

text \<open>The messages left after one reference of each of \<open>rs\<close> is given up.\<close>

lemma fold_free1:
  assumes "covers raws rs" and "\<And>x. raws r = Some x \<Longrightarrow> 0 \<le> raw_refcount x"
  shows "fold free1 rs raws r =
    (case raws r of None \<Rightarrow> None
     | Some x \<Rightarrow> if count_list rs r = 0 then Some x
       else if raw_refcount x \<le> int (count_list rs r) then None
       else Some (x\<lparr>raw_refcount := raw_refcount x - int (count_list rs r)\<rparr>))"
  using assms
proof (induction rs arbitrary: raws)
  case (Cons a rs)
  obtain x where x: "raws a = Some x" "covers (free1 a raws) rs" using covers_Cons [OF Cons.prems(1)] .
  have "0 \<le> raw_refcount y" if "free1 a raws r = Some y" for y
    using that Cons.prems(2) by (cases "r = a") (auto simp: free1_def x split: if_splits)
  then have IH: "fold free1 rs (free1 a raws) r = (case free1 a raws r of None \<Rightarrow> None
     | Some x \<Rightarrow> if count_list rs r = 0 then Some x
       else if raw_refcount x \<le> int (count_list rs r) then None
       else Some (x\<lparr>raw_refcount := raw_refcount x - int (count_list rs r)\<rparr>))"
    by (rule Cons.IH [OF x(2)])
  show ?case
  proof (cases "r = a")
    case True
    then show ?thesis using IH x(1) by (auto simp: free1_same algebra_simps split: if_splits)
  next
    case False
    then show ?thesis using IH x(1) by (cases "raws r") (simp_all add: free1_other)
  qed
qed (simp split: option.split)

lemma covers_of_inv:
  assumes "msg_inv s" and "g_subs s b = Some y" and "\<And>r. count_list rs r \<le> count_list (sub_raws y) r"
  shows "covers (g_raws s) rs"
  unfolding covers_def
proof
  fix r assume "r \<in> set rs"
  then have "0 < count_list rs r" by (metis count_list_0_iff gr0I)
  then have "0 < count_list (sub_raws y) r" using assms(3) [of r] by linarith
  then have "r \<in> set (sub_raws y)" by (metis count_notin less_irrefl)
  then obtain x where x: "g_raws s r = Some x" using queued_live [OF assms(1,2)] by blast
  have "count_list (sub_raws y) r \<le> occ s r"
    unfolding occ_def using msg_invD(1) [OF assms(1)] assms(2)
    by (intro order_trans [OF _ member_le_sum [of b]]) auto
  then show "\<exists>x. g_raws s r = Some x \<and> int (count_list rs r) \<le> max 1 (raw_refcount x)"
    using x msg_invD(7) [OF assms(1) x] assms(3) [of r] by (intro exI [of _ x]) linarith
qed

text \<open>Clearing a subuser's pools while giving up the references keeps the message layer sound.\<close>

lemma msg_inv_release:
  assumes inv: "msg_inv s" and y: "g_subs s b = Some y"
    and cnt: "\<And>r. count_list rs r = count_list (sub_raws y) r"
    and subs: "\<And>c z. g_subs s' c = Some z \<Longrightarrow> sub_ok z \<and> (c \<noteq> b \<longrightarrow> g_subs s c = Some z) \<and> c \<in> dom (g_subs s)"
    and occ': "\<And>r. occ s' r + count_list rs r = occ s r"
    and raws: "g_raws s' = fold free1 rs (g_raws s)" and nx: "g_next s' = g_next s" and now: "g_now s' = g_now s"
  shows "msg_inv s'"
proof (rule msg_invI)
  have cov: "covers (g_raws s) rs" by (rule covers_of_inv [OF inv y]) (simp add: cnt)
  note F = fold_free1 [OF cov msg_invD(6) [OF inv]]
  have "dom (g_subs s') \<subseteq> dom (g_subs s)" using subs by blast
  then show "finite (dom (g_subs s'))" using msg_invD(1) [OF inv] finite_subset by blast
  show "sub_ok z" "c < g_next s'" if "g_subs s' c = Some z" for c z
    using subs [OF that] msg_invD(3) [OF inv] nx by auto
  show "occ s' r = 0" if "g_raws s' r = None" for r
  proof (cases "g_raws s r")
    case None
    then show ?thesis using msg_invD(4) [OF inv None] occ' [of r] by simp
  next
    case (Some x)
    then have "count_list rs r \<noteq> 0" "raw_refcount x \<le> int (count_list rs r)"
      using that F [of r] raws by (auto split: if_splits)
    then show ?thesis using msg_invD(7) [OF inv Some] occ' [of r] by linarith
  qed
  show "r < g_next s'" "0 \<le> raw_refcount z" "int (occ s' r) \<le> max 1 (raw_refcount z)"
    if z: "g_raws s' r = Some z" for r z
  proof -
    obtain x where x: "g_raws s r = Some x" using z F [of r] raws by (cases "g_raws s r") auto
    have "if count_list rs r = 0 then z = x else
        int (count_list rs r) < raw_refcount x \<and> z = x\<lparr>raw_refcount := raw_refcount x - int (count_list rs r)\<rparr>"
      using z F [of r] raws x by (auto split: if_splits)
    then show "r < g_next s'" "0 \<le> raw_refcount z" "int (occ s' r) \<le> max 1 (raw_refcount z)"
      using msg_invD(5-7) [OF inv x] occ' [of r] nx by (auto split: if_splits)
  qed
  show "length (sprintf_li (g_now s')) < 16" using msg_invD(8) [OF inv] now by simp
qed

section \<open>Writing the queue\<close>

text \<open>What the loop of \<open>send_raws\<close> writes for the messages \<open>ds\<close>.\<close>

fun body_chunks :: "string list \<Rightarrow> string list \<Rightarrow> string list" where
  "body_chunks right [] = []"
| "body_chunks right [d] = d # '']'' # right"
| "body_chunks right (d # e # ds) = d # '','' # body_chunks right (e # ds)"

definition datas :: "(nat \<rightharpoonup> RAW) \<Rightarrow> nat list \<Rightarrow> string list" where
  "datas raws rs = map (\<lambda>r. raw_data (the (raws r))) rs"

lemma datas_free1: "covers (free1 r raws) rs \<Longrightarrow> datas (free1 r raws) rs = datas raws rs"
  using free1_data [of r raws] unfolding datas_def covers_def by (intro map_cong) (fastforce+)

text \<open>The effect of a send: the bytes appear on the descriptor, nothing else changes.\<close>

definition wrote :: "nat \<Rightarrow> string \<Rightarrow> acetables \<Rightarrow> acetables \<Rightarrow> bool" where
  "wrote fd x s s' \<longleftrightarrow> s'\<lparr>g_sk := g_sk s, g_raws := g_raws s\<rparr> = s \<and> sock_inv (g_sk s') \<and>
     outp (g_sk s') fd = outp (g_sk s) fd @ (if fd = 0 then [] else x) \<and>
     (\<forall>fd'. fd' \<noteq> fd \<longrightarrow> outp (g_sk s') fd' = outp (g_sk s) fd')"

lemma wrote_trans:
  assumes "wrote fd x s s'" and "wrote fd y s' s''"
  shows "wrote fd (x @ y) s s''"
proof -
  have "s''\<lparr>g_sk := g_sk s, g_raws := g_raws s\<rparr> =
      (s''\<lparr>g_sk := g_sk s', g_raws := g_raws s'\<rparr>)\<lparr>g_sk := g_sk s, g_raws := g_raws s\<rparr>" by simp
  also have "\<dots> = s" using assms by (simp add: wrote_def)
  finally show ?thesis using assms by (simp add: wrote_def)
qed

lemma wrote_nil: "sock_inv (g_sk s) \<Longrightarrow> wrote fd [] s s"
  by (simp add: wrote_def)

lemma wrote_inv: "wrote fd x s s' \<Longrightarrow> sock_inv (g_sk s')"
  by (simp add: wrote_def)

lemma wrote_raws: "wrote fd x s s' \<Longrightarrow> wrote fd x s (s'\<lparr>g_raws := raws\<rparr>)"
  by (simp add: wrote_def)

lemma wrote_frame:
  assumes "wrote fd x s s'"
  shows "g_subs s' = g_subs s" "g_users s' = g_users s" "g_co s' = g_co s" "g_next s' = g_next s"
    "g_now s' = g_now s" "g_transports s' = g_transports s"
proof -
  have e: "s'\<lparr>g_sk := g_sk s, g_raws := g_raws s\<rparr> = s" using assms by (simp add: wrote_def)
  show "g_subs s' = g_subs s" "g_users s' = g_users s" "g_co s' = g_co s" "g_next s' = g_next s"
    "g_now s' = g_now s" "g_transports s' = g_transports s"
    by (subst e [symmetric], simp)+
qed

lemma send_chunks_wrote:
  assumes "good_os (e_os E)" and "sock_inv (g_sk s)"
  obtains f s' where "send_chunks E fd xs s = Some (f, s')" "wrote fd (concat xs) s s'" "g_raws s' = g_raws s"
proof -
  obtain f sk where "send_seq (e_os E) fd xs (g_sk s) = Some (f, sk)" "sock_inv sk"
     "outp sk fd = outp (g_sk s) fd @ (if fd = 0 then [] else concat xs)"
     "\<forall>fd'. fd' \<noteq> fd \<longrightarrow> outp sk fd' = outp (g_sk s) fd'"
    using send_seq_good [OF assms] by blast
  then show thesis
    by (intro that [of f "s\<lparr>g_sk := sk\<rparr>"]) (simp_all add: send_chunks_def wrote_def)
qed

text \<open>One turn of the loop.\<close>

lemma send_step:
  assumes os: "good_os (e_os E)" "sock_inv (g_sk s)" and cov: "covers (g_raws s) (r # rs)"
  obtains x f s1 z s2 where "g_raws s r = Some x"
    "send_chunks E fd (raw_data x # cs) s = Some (f, s1)" "free_raw r s1 = Some (z, s2)"
    "wrote fd (raw_data x @ concat cs) s s2" "g_raws s2 = free1 r (g_raws s)" "covers (g_raws s2) rs"
    "datas (g_raws s2) rs = datas (g_raws s) rs"
proof -
  obtain x where x: "g_raws s r = Some x" "covers (free1 r (g_raws s)) rs" using covers_Cons [OF cov] .
  obtain f s1 where 1: "send_chunks E fd (raw_data x # cs) s = Some (f, s1)"
    "wrote fd (concat (raw_data x # cs)) s s1" "g_raws s1 = g_raws s"
    by (rule send_chunks_wrote [OF os, of fd "raw_data x # cs"])
  have "map_option snd (free_raw r s1) = Some (s1\<lparr>g_raws := free1 r (g_raws s)\<rparr>)"
    using free_raw_free1 [of s1 r x] x 1(3) by simp
  then obtain z where "free_raw r s1 = Some (z, s1\<lparr>g_raws := free1 r (g_raws s)\<rparr>)" by auto
  moreover have "wrote fd (raw_data x @ concat cs) s (s1\<lparr>g_raws := free1 r (g_raws s)\<rparr>)"
    using wrote_raws [OF 1(2)] by simp
  ultimately show thesis
    using x 1 datas_free1 [OF x(2)]
    by (intro that [of x f s1 z "s1\<lparr>g_raws := free1 r (g_raws s)\<rparr>"]) simp_all
qed

lemma send_low:
  assumes os: "good_os (e_os E)" and "sock_inv (g_sk s)" and "covers (g_raws s) rs" and "0 < k"
  shows "\<exists>f s'. send_raws_loop E fd right lown hi (replicate i None @ map Some rs @ replicate k None) True (Some i) s =
      Some (f, hi, replicate (i + length rs + k) None, s') \<and>
    wrote fd (concat (body_chunks right (datas (g_raws s) rs))) s s' \<and> g_raws s' = fold free1 rs (g_raws s)"
  using assms(2,3)
proof (induction rs arbitrary: i s)
  case Nil
  have "pool_at (replicate i None @ replicate k None) (Some i) = Some None"
    using assms(4) by (simp add: pool_at_def nth_append)
  then show ?case
    using Nil wrote_nil by (subst send_raws_loop.simps) (auto simp: datas_def replicate_add [symmetric])
next
  case (Cons r rs)
  let ?lo = "replicate i None @ map Some (r # rs) @ replicate k None"
  let ?lo' = "replicate (Suc i) None @ map Some rs @ replicate k None"
  have at: "pool_at ?lo (Some i) = Some (Some r)" by (simp add: pool_at_def nth_append)
  have nx: "has_raw ?lo (Some (Suc i)) \<longleftrightarrow> rs \<noteq> []"
    using assms(4) by (cases rs) (simp_all add: has_raw_def pool_at_def nth_append)
  have up: "?lo[i := None] = ?lo'"
    by (simp add: list_update_append replicate_append_same [symmetric])
  obtain x f s1 z s2 where st: "g_raws s r = Some x"
    "send_chunks E fd (raw_data x # (if rs \<noteq> [] then ['',''] else '']'' # right)) s = Some (f, s1)"
    "free_raw r s1 = Some (z, s2)"
    "wrote fd (raw_data x @ concat (if rs \<noteq> [] then ['',''] else '']'' # right)) s s2"
    "g_raws s2 = free1 r (g_raws s)" "covers (g_raws s2) rs" "datas (g_raws s2) rs = datas (g_raws s) rs"
    by (rule send_step [OF os Cons.prems, of fd "if rs \<noteq> [] then ['',''] else '']'' # right"])
  obtain g s3 where IH: "send_raws_loop E fd right lown hi ?lo' True (Some (Suc i)) s2 =
      Some (g, hi, replicate (Suc i + length rs + k) None, s3)"
    "wrote fd (concat (body_chunks right (datas (g_raws s2) rs))) s2 s3" "g_raws s3 = fold free1 rs (g_raws s2)"
    using Cons.IH [OF wrote_inv [OF st(4)] st(6), of "Suc i"] by blast
  have "send_raws_loop E fd right lown hi ?lo True (Some i) s =
      Some (f \<and> g, hi, replicate (i + length (r # rs) + k) None, s3)"
    using at nx up st IH(1) by (subst send_raws_loop.simps) (simp add: pool_next_def)
  moreover have "concat (body_chunks right (datas (g_raws s) (r # rs))) =
      (raw_data x @ concat (if rs \<noteq> [] then ['',''] else '']'' # right)) @ concat (body_chunks right (datas (g_raws s) rs))"
    using st(1) by (cases rs) (simp_all add: datas_def)
  ultimately show ?case
    using wrote_trans [OF st(4) IH(2)] IH(3) st(5,7) by (intro exI [of _ "f \<and> g"] exI [of _ s3]) simp
qed

text \<open>The high pool is walked backwards, then the low one forwards.\<close>

lemma send_high:
  assumes os: "good_os (e_os E)" and "sock_inv (g_sk s)" and "hs \<noteq> []"
    and "covers (g_raws s) (rev hs @ ls)" and k: "0 < k" and lown: "lown = length ls"
  shows "\<exists>f s'. send_raws_loop E fd right lown (map Some hs @ replicate m None) (map Some ls @ replicate k None)
        False (Some (length hs - 1)) s =
      Some (f, replicate (length hs + m) None, replicate (length ls + k) None, s') \<and>
    wrote fd (concat (body_chunks right (datas (g_raws s) (rev hs @ ls)))) s s' \<and>
    g_raws s' = fold free1 (rev hs @ ls) (g_raws s)"
  using assms(2-4)
proof (induction hs arbitrary: m s rule: rev_induct)
  case (snoc r hs)
  let ?hi = "map Some (hs @ [r]) @ replicate m None"
  let ?lo = "map Some ls @ replicate k None"
  let ?hi' = "map Some hs @ replicate (Suc m) None"
  let ?cs = "if hs \<noteq> [] \<or> ls \<noteq> [] then ['',''] else '']'' # right"
  have cov: "covers (g_raws s) (r # rev hs @ ls)" using snoc.prems(3) by simp
  have at: "pool_at ?hi (Some (length (hs @ [r]) - 1)) = Some (Some r)"
    by (simp add: pool_at_def nth_append)
  have nx: "has_raw ?hi (pool_next False (length hs)) \<longleftrightarrow> hs \<noteq> []"
    "has_raw ?hi' (pool_next False (length hs)) \<longleftrightarrow> hs \<noteq> []"
    by (auto simp: has_raw_def pool_at_def nth_append pool_next_def)
  have up: "?hi[length hs := None] = ?hi'" by (simp add: list_update_append)
  have lw: "lown \<noteq> 0 \<longleftrightarrow> ls \<noteq> []" using lown by simp
  obtain x f s1 z s2 where st: "g_raws s r = Some x"
    "send_chunks E fd (raw_data x # ?cs) s = Some (f, s1)" "free_raw r s1 = Some (z, s2)"
    "wrote fd (raw_data x @ concat ?cs) s s2"
    "g_raws s2 = free1 r (g_raws s)" "covers (g_raws s2) (rev hs @ ls)"
    "datas (g_raws s2) (rev hs @ ls) = datas (g_raws s) (rev hs @ ls)"
    by (rule send_step [OF os snoc.prems(1) cov, of fd ?cs])
  have "\<exists>g s3. (if hs = [] then send_raws_loop E fd right lown ?hi' ?lo True (Some 0) s2
         else send_raws_loop E fd right lown ?hi' ?lo False (pool_next False (length hs)) s2) =
      Some (g, replicate (length hs + Suc m) None, replicate (length ls + k) None, s3) \<and>
    wrote fd (concat (body_chunks right (datas (g_raws s2) (rev hs @ ls)))) s2 s3 \<and>
    g_raws s3 = fold free1 (rev hs @ ls) (g_raws s2)"
  proof (cases "hs = []")
    case True
    then show ?thesis
      using send_low [OF os wrote_inv [OF st(4)], of ls k fd right lown ?hi' 0] st(6) k by simp
  next
    case False
    then show ?thesis
      using snoc.IH [OF wrote_inv [OF st(4)] False st(6), of "Suc m"] by (simp add: pool_next_def)
  qed
  then obtain g s3 where IH: "(if hs = [] then send_raws_loop E fd right lown ?hi' ?lo True (Some 0) s2
         else send_raws_loop E fd right lown ?hi' ?lo False (pool_next False (length hs)) s2) =
      Some (g, replicate (length hs + Suc m) None, replicate (length ls + k) None, s3)"
    "wrote fd (concat (body_chunks right (datas (g_raws s2) (rev hs @ ls)))) s2 s3"
    "g_raws s3 = fold free1 (rev hs @ ls) (g_raws s2)" by blast
  have "send_raws_loop E fd right lown ?hi ?lo False (Some (length (hs @ [r]) - 1)) s =
      Some (f \<and> g, replicate (length hs + Suc m) None, replicate (length ls + k) None, s3)"
    using at nx up lw st IH(1) by (subst send_raws_loop.simps) (cases "hs = []"; simp)
  moreover have "concat (body_chunks right (datas (g_raws s) (rev (hs @ [r]) @ ls))) =
      (raw_data x @ concat ?cs) @ concat (body_chunks right (datas (g_raws s) (rev hs @ ls)))"
    using st(1) by (cases "rev hs @ ls") (auto simp: datas_def)
  ultimately show ?case
    using wrote_trans [OF st(4) IH(2)] IH(3) st(5,7) by (intro exI [of _ "f \<and> g"] exI [of _ s3]) simp
qed simp

text \<open>The JSON array of the queued messages.\<close>

fun comma_join :: "string list \<Rightarrow> string" where
  "comma_join [] = []"
| "comma_join [d] = d"
| "comma_join (d # e # ds) = d @ '','' @ comma_join (e # ds)"

lemma body_chunks_join: "ds \<noteq> [] \<Longrightarrow> concat (body_chunks right ds) = comma_join ds @ '']'' @ concat right"
  by (induction right ds rule: body_chunks.induct) simp_all

lemma comma_join_length: "ds \<noteq> [] \<Longrightarrow> length (''['' @ comma_join ds @ '']'') = 1 + sum_list (map (\<lambda>d. length d + 1) ds)"
  by (induction ds rule: comma_join.induct) simp_all

lemma size_low:
  assumes "covers raws rs" and "0 < k" and "i = length pre"
  shows "raws_size_loop raws hi (pre @ map Some rs @ replicate k None) True (Some i) =
     Some (sum_list (map (\<lambda>d. length d + 1) (datas raws rs)))"
  using assms
proof (induction rs arbitrary: pre i)
  case Nil
  then show ?case by (subst raws_size_loop.simps) (simp add: pool_at_def nth_append datas_def)
next
  case (Cons r rs)
  let ?lo = "pre @ map Some (r # rs) @ replicate k None"
  obtain x where x: "raws r = Some x" using Cons.prems(1) by (auto simp: covers_def)
  have "covers raws rs"
    unfolding covers_def
  proof
    fix q assume "q \<in> set rs"
    then obtain y where "raws q = Some y" "int (count_list (r # rs) q) \<le> max 1 (raw_refcount y)"
      using Cons.prems(1) by (auto simp: covers_def)
    then show "\<exists>y. raws q = Some y \<and> int (count_list rs q) \<le> max 1 (raw_refcount y)"
      by (auto split: if_splits)
  qed
  then have "raws_size_loop raws hi ((pre @ [Some r]) @ map Some rs @ replicate k None) True (Some (Suc i)) =
     Some (sum_list (map (\<lambda>d. length d + 1) (datas raws rs)))"
    using Cons.IH [of "Suc i" "pre @ [Some r]"] Cons.prems by simp
  then have rec: "raws_size_loop raws hi ?lo True (Some (Suc i)) =
     Some (sum_list (map (\<lambda>d. length d + 1) (datas raws rs)))" by simp
  have at: "pool_at ?lo (Some i) = Some (Some r)" using Cons.prems by (simp add: pool_at_def nth_append)
  show ?case
    using at rec x by (subst raws_size_loop.simps) (simp add: pool_next_def datas_def)
qed

lemma size_high:
  assumes "\<And>r. r \<in> set hs \<Longrightarrow> \<exists>x. raws r = Some x" and "covers raws ls" and "0 < k" and "hs \<noteq> []"
  shows "raws_size_loop raws (map Some hs @ rest) (map Some ls @ replicate k None) False (Some (length hs - 1)) =
     Some (sum_list (map (\<lambda>d. length d + 1) (datas raws (rev hs @ ls))))"
  using assms(1,4)
proof (induction hs arbitrary: rest rule: rev_induct)
  case (snoc r hs)
  let ?hi = "map Some (hs @ [r]) @ rest" and ?lo = "map Some ls @ replicate k None"
  obtain x where x: "raws r = Some x" using snoc.prems(1) [of r] by auto
  have at: "pool_at ?hi (Some (length (hs @ [r]) - 1)) = Some (Some r)" by (simp add: pool_at_def nth_append)
  have nx: "has_raw ?hi (pool_next False (length hs)) \<longleftrightarrow> hs \<noteq> []"
    by (auto simp: has_raw_def pool_at_def nth_append pool_next_def)
  have "(if hs = [] then raws_size_loop raws ?hi ?lo True (Some 0)
     else raws_size_loop raws ?hi ?lo False (pool_next False (length hs))) =
     Some (sum_list (map (\<lambda>d. length d + 1) (datas raws (rev hs @ ls))))"
  proof (cases "hs = []")
    case True
    then show ?thesis using size_low [OF assms(2,3), of 0 "[]" ?hi] by simp
  next
    case False
    then show ?thesis
      using snoc.IH [of "Some r # rest"] snoc.prems(1) by (simp add: pool_next_def)
  qed
  then show ?case
    using at nx x by (subst raws_size_loop.simps) (cases "hs = []"; simp add: datas_def)
qed simp

lemma sub_okD:
  assumes "sub_ok b"
  obtains k m where "pool_cells (sub_low b) = map Some (pool_raws (sub_low b)) @ replicate k None"
    "pool_cells (sub_high b) = map Some (pool_raws (sub_high b)) @ replicate m None" "0 < k" "0 < m"
    "pool_nraw (sub_low b) = length (pool_raws (sub_low b))" "pool_nraw (sub_high b) = length (pool_raws (sub_high b))"
    "pool_size (sub_low b) = length (pool_raws (sub_low b)) + k" "pool_size (sub_high b) = length (pool_raws (sub_high b)) + m"
    "walk_start b = Some (if pool_raws (sub_high b) = [] then 0 else length (pool_raws (sub_high b)) - 1)"
proof -
  have L: "pool_inv (sub_low b) (pool_raws (sub_low b))" and H: "pool_inv (sub_high b) (pool_raws (sub_high b))"
    using assms by (simp_all add: sub_ok_def)
  have "walk_start b = Some (if pool_raws (sub_high b) = [] then 0 else length (pool_raws (sub_high b)) - 1)"
    using H pool_inv_length [OF H] by (simp add: walk_start_def pool_inv_def pool_next_def)
  then show thesis
    using L H by (intro that [of "pool_size (sub_low b) - length (pool_raws (sub_low b))"
        "pool_size (sub_high b) - length (pool_raws (sub_high b))"]) (simp_all add: pool_inv_def)
qed

text \<open>The messages in the order they are written: the high ones newest first, then the low ones in
  posting order.\<close>

definition sub_queue :: "subuser \<Rightarrow> nat list" where
  "sub_queue b = rev (pool_raws (sub_high b)) @ pool_raws (sub_low b)"

lemma sub_queue_count: "count_list (sub_queue b) r = count_list (sub_raws b) r"
  by (simp add: sub_queue_def sub_raws_def)

lemma raws_size_exact:
  assumes "sub_ok b" and "covers (g_raws s) (sub_queue b)" and "sub_queue b \<noteq> []"
  shows "raws_size b s = Some (length (''['' @ comma_join (datas (g_raws s) (sub_queue b)) @ '']''))"
proof -
  let ?hs = "pool_raws (sub_high b)" and ?ls = "pool_raws (sub_low b)"
  obtain k m where D: "pool_cells (sub_low b) = map Some ?ls @ replicate k None"
    "pool_cells (sub_high b) = map Some ?hs @ replicate m None" "0 < k"
    "pool_nraw (sub_high b) = length ?hs"
    "walk_start b = Some (if ?hs = [] then 0 else length ?hs - 1)"
    using sub_okD [OF assms(1)] by metis
  have nz: "sub_nraw b \<noteq> 0" using assms(1,3) by (auto simp: sub_ok_def sub_queue_def)
  have live: "\<exists>x. g_raws s r = Some x" if "r \<in> set ?hs" for r
    using assms(2) that by (auto simp: covers_def sub_queue_def)
  have cl: "covers (g_raws s) ?ls"
    unfolding covers_def
  proof
    fix r assume "r \<in> set ?ls"
    then obtain x where "g_raws s r = Some x" "int (count_list (sub_queue b) r) \<le> max 1 (raw_refcount x)"
      using assms(2) by (auto simp: covers_def sub_queue_def)
    then show "\<exists>x. g_raws s r = Some x \<and> int (count_list ?ls r) \<le> max 1 (raw_refcount x)"
      by (auto simp: sub_queue_def)
  qed
  have ds: "datas (g_raws s) (sub_queue b) \<noteq> []" using assms(3) by (simp add: datas_def)
  have "raws_size_loop (g_raws s) (pool_cells (sub_high b)) (pool_cells (sub_low b)) (?hs = []) (walk_start b) =
     Some (sum_list (map (\<lambda>d. length d + 1) (datas (g_raws s) (sub_queue b))))"
  proof (cases "?hs = []")
    case True
    then show ?thesis using size_low [OF cl D(3), of 0 "[]"] by (simp add: D sub_queue_def)
  next
    case False
    then show ?thesis using size_high [OF live cl D(3) False] by (simp add: D sub_queue_def)
  qed
  then have "raws_size b s = Some (1 + sum_list (map (\<lambda>d. length d + 1) (datas (g_raws s) (sub_queue b))))"
    using nz by (simp add: raws_size_def D(4))
  then show ?thesis unfolding comma_join_length [OF ds] .
qed

text \<open>Everything \<open>send_raws\<close> writes for a subuser.\<close>

definition reply_text :: "acetables \<Rightarrow> subuser \<Rightarrow> transport_t \<Rightarrow> ws_version option \<Rightarrow> string" where
  "reply_text s b transport ws =
     (let properties = transport_get_properties transport (g_transports s);
          array = ''['' @ comma_join (datas (g_raws s) (sub_queue b)) @ '']'' in
      (if sub_sent b then [] else (case transport_header transport of None \<Rightarrow> [] | Some (h, _) \<Rightarrow> h)) @
      concat (pad_chunk pad_left properties) @
      (if transport = TRANSPORT_WEBSOCKET_IETF then ws_payload_head (the ws) (length array) else []) @
      array @ concat (pad_chunk pad_right properties))"

lemma send_transport_header_wrote:
  assumes "good_os (e_os E)" and "sock_inv (g_sk s)"
  obtains f s' where "send_transport_header E None transport fd s = Some (f, s')"
    "wrote fd (case transport_header transport of None \<Rightarrow> [] | Some (h, _) \<Rightarrow> h) s s'" "g_raws s' = g_raws s"
proof (cases "transport_header transport")
  case None
  then show thesis using that assms(2) wrote_nil by (simp add: send_transport_header_def)
next
  case (Some hn)
  obtain h n where hn: "hn = (h, n)" by (cases hn)
  have "cbytes h n = h" using transport_header_length [of transport h n] Some hn by (simp add: cbytes_def)
  moreover obtain f s' where "send_chunks E fd [cbytes h n] s = Some (f, s')"
    "wrote fd (concat [cbytes h n]) s s'" "g_raws s' = g_raws s"
    by (rule send_chunks_wrote [OF assms, of fd "[cbytes h n]"])
  ultimately show thesis
    using Some hn by (intro that [of f s']) (simp_all add: send_transport_header_def http_send_headers_def send_chunks_def)
qed

lemma send_queue:
  assumes os: "good_os (e_os E)" "sock_inv (g_sk s)" and ok: "sub_ok b" and cov: "covers (g_raws s) (sub_queue b)"
    and ne: "sub_queue b \<noteq> []"
  obtains f s' where "send_raws_loop E fd right (pool_nraw (sub_low b)) (pool_cells (sub_high b)) (pool_cells (sub_low b))
      (pool_nraw (sub_high b) = 0) (walk_start b) s =
      Some (f, replicate (pool_size (sub_high b)) None, replicate (pool_size (sub_low b)) None, s')"
    "wrote fd (comma_join (datas (g_raws s) (sub_queue b)) @ '']'' @ concat right) s s'"
    "g_raws s' = fold free1 (sub_queue b) (g_raws s)"
proof -
  let ?hs = "pool_raws (sub_high b)" and ?ls = "pool_raws (sub_low b)"
  obtain k m where D: "pool_cells (sub_low b) = map Some ?ls @ replicate k None"
    "pool_cells (sub_high b) = map Some ?hs @ replicate m None" "0 < k" "0 < m"
    "pool_nraw (sub_low b) = length ?ls" "pool_nraw (sub_high b) = length ?hs"
    "pool_size (sub_low b) = length ?ls + k" "pool_size (sub_high b) = length ?hs + m"
    "walk_start b = Some (if ?hs = [] then 0 else length ?hs - 1)"
    by (rule sub_okD [OF ok])
  have bc: "concat (body_chunks right (datas (g_raws s) (sub_queue b))) =
      comma_join (datas (g_raws s) (sub_queue b)) @ '']'' @ concat right"
    using ne by (intro body_chunks_join) (simp add: datas_def)
  have "\<exists>f s'. send_raws_loop E fd right (length ?ls) (map Some ?hs @ replicate m None) (map Some ?ls @ replicate k None)
      (?hs = []) (walk_start b) s = Some (f, replicate (length ?hs + m) None, replicate (length ?ls + k) None, s') \<and>
    wrote fd (concat (body_chunks right (datas (g_raws s) (sub_queue b)))) s s' \<and>
    g_raws s' = fold free1 (sub_queue b) (g_raws s)"
  proof (cases "?hs = []")
    case True
    have "covers (g_raws s) ?ls" using cov True by (simp add: sub_queue_def)
    from send_low [OF os this D(3), of fd right "length ?ls" "replicate m None" 0] show ?thesis
      using True by (simp add: D(9) sub_queue_def)
  next
    case False
    have "covers (g_raws s) (rev ?hs @ ?ls)" using cov by (simp add: sub_queue_def)
    from send_high [OF os False this D(3) refl, of fd right m] show ?thesis
      using False by (simp add: D(9) sub_queue_def)
  qed
  then show thesis using that bc D by (auto simp: D)
qed

text \<open>A subuser whose reply can be written: it has a client, a user and, for a websocket, a parser.\<close>

definition sub_ready :: "acetables \<Rightarrow> subuser \<Rightarrow> ape_socket \<Rightarrow> USERS \<Rightarrow> bool" where
  "sub_ready s b k u \<longleftrightarrow> (\<exists>client user. sub_client b = Some client \<and> g_co s client = Some k \<and>
     sub_user b = Some user \<and> g_users s user = Some u) \<and>
     (u_transport u = TRANSPORT_WEBSOCKET_IETF \<longrightarrow> s_ws k \<noteq> None)"

lemma pool_reset_inv: "pool_inv p rs \<Longrightarrow> pool_inv (pool_reset p (replicate (pool_size p) None)) []"
  by (auto simp: pool_inv_def pool_reset_def)

definition sub_flushed :: "subuser \<Rightarrow> subuser" where
  "sub_flushed b = b\<lparr>sub_sent := True, sub_high := pool_reset (sub_high b) (replicate (pool_size (sub_high b)) None),
      sub_low := pool_reset (sub_low b) (replicate (pool_size (sub_low b)) None), sub_nraw := 0\<rparr>"

lemma sub_flushed:
  assumes "sub_ok b"
  shows "sub_ok (sub_flushed b)" "pool_raws (sub_low (sub_flushed b)) = []" "pool_raws (sub_high (sub_flushed b)) = []"
proof -
  have i: "pool_inv (sub_low (sub_flushed b)) []" "pool_inv (sub_high (sub_flushed b)) []"
    using assms pool_reset_inv by (auto simp: sub_ok_def sub_flushed_def)
  then show r: "pool_raws (sub_low (sub_flushed b)) = []" "pool_raws (sub_high (sub_flushed b)) = []"
    by (simp_all add: pool_inv_raws)
  show "sub_ok (sub_flushed b)" using i r assms by (simp add: sub_ok_def) (simp add: sub_flushed_def)
qed

lemma send_raws_spec:
  assumes os: "good_os (e_os E)" "sock_inv (g_sk s)" and inv: "msg_inv s"
    and y: "g_subs s b = Some y" and ne: "sub_nraw y \<noteq> 0" and rd: "sub_ready s y k u"
  obtains f s' where "send_raws E b s = Some (f, s')" "msg_inv s'" "sock_inv (g_sk s')"
    "outp (g_sk s') (s_fd k) = outp (g_sk s) (s_fd k) @ (if s_fd k = 0 then [] else reply_text s y (u_transport u) (s_ws k))"
    "\<And>fd. fd \<noteq> s_fd k \<Longrightarrow> outp (g_sk s') fd = outp (g_sk s) fd"
    "\<And>c. c \<noteq> b \<Longrightarrow> g_subs s' c = g_subs s c" "lowq s' b = []" "highq s' b = []"
    "s'\<lparr>g_subs := g_subs s, g_raws := g_raws s, g_sk := g_sk s\<rparr> = s" "g_subs s' b = Some (sub_flushed y)"
proof -
  let ?fd = "s_fd k" and ?pr = "transport_get_properties (u_transport u) (g_transports s)"
  let ?ds = "datas (g_raws s) (sub_queue y)"
  obtain client user where cl: "sub_client y = Some client" "g_co s client = Some k"
    "sub_user y = Some user" "g_users s user = Some u"
    and ws: "u_transport u = TRANSPORT_WEBSOCKET_IETF \<longrightarrow> s_ws k \<noteq> None"
    using rd by (auto simp: sub_ready_def)
  have ok: "sub_ok y" by (rule msg_invD(2) [OF inv y])
  then have ct: "sub_content y = None" by (simp add: sub_ok_def)
  have qn: "sub_queue y \<noteq> []" using ok ne by (auto simp: sub_ok_def sub_queue_def)
  have cov: "covers (g_raws s) (sub_queue y)" by (rule covers_of_inv [OF inv y]) (simp add: sub_queue_count)
  define hdr where "hdr = (if sub_sent y then [] else
      (case transport_header (u_transport u) of None \<Rightarrow> [] | Some (h, _) \<Rightarrow> h))"
  obtain f1 s1 where 1: "(if sub_sent y then Some (True, s)
        else send_transport_header E (sub_content y) (u_transport u) ?fd s) = Some (f1, s1)"
    "wrote ?fd hdr s s1" "g_raws s1 = g_raws s"
  proof (cases "sub_sent y")
    case True
    then show ?thesis using that wrote_nil [OF os(2), of ?fd] by (simp add: hdr_def)
  next
    case False
    then show ?thesis
      using that ct send_transport_header_wrote [OF os, where transport = "u_transport u" and fd = ?fd]
      by (auto simp: hdr_def)
  qed
  obtain f2 s2 where 2: "send_chunks E ?fd (pad_chunk pad_left ?pr) s1 = Some (f2, s2)"
    "wrote ?fd (concat (pad_chunk pad_left ?pr)) s1 s2" "g_raws s2 = g_raws s1"
    by (rule send_chunks_wrote [OF os(1) wrote_inv [OF 1(2)]])
  define wsh where "wsh = (if u_transport u = TRANSPORT_WEBSOCKET_IETF
      then [ws_payload_head (the (s_ws k)) (length (''['' @ comma_join ?ds @ '']''))] else [])"
  have size: "(if u_transport u = TRANSPORT_WEBSOCKET_IETF then raws_size y s2 else Some 0) =
      Some (if u_transport u = TRANSPORT_WEBSOCKET_IETF then length (''['' @ comma_join ?ds @ '']'') else 0)"
    using raws_size_exact [OF ok _ qn, of s2] cov 2(3) 1(3) by simp
  have wsc: "ws_head_chunk (u_transport u) (s_ws k)
      (if u_transport u = TRANSPORT_WEBSOCKET_IETF then length (''['' @ comma_join ?ds @ '']'') else 0) = Some wsh"
    using ws by (auto simp: ws_head_chunk_def wsh_def)
  obtain f3 s3 where 3: "send_chunks E ?fd (wsh @ [''['']) s2 = Some (f3, s3)"
    "wrote ?fd (concat (wsh @ [''['' ])) s2 s3" "g_raws s3 = g_raws s2"
    by (rule send_chunks_wrote [OF os(1) wrote_inv [OF 2(2)]])
  have cov3: "covers (g_raws s3) (sub_queue y)" using cov 1(3) 2(3) 3(3) by simp
  obtain f4 s4 where 4: "send_raws_loop E ?fd (pad_chunk pad_right ?pr) (pool_nraw (sub_low y)) (pool_cells (sub_high y))
      (pool_cells (sub_low y)) (pool_nraw (sub_high y) = 0) (walk_start y) s3 =
      Some (f4, replicate (pool_size (sub_high y)) None, replicate (pool_size (sub_low y)) None, s4)"
    "wrote ?fd (comma_join (datas (g_raws s3) (sub_queue y)) @ '']'' @ concat (pad_chunk pad_right ?pr)) s3 s4"
    "g_raws s4 = fold free1 (sub_queue y) (g_raws s3)"
    by (rule send_queue [OF os(1) wrote_inv [OF 3(2)] ok cov3 qn])
  have w: "wrote ?fd (reply_text s y (u_transport u) (s_ws k)) s s4"
    using wrote_trans [OF wrote_trans [OF wrote_trans [OF 1(2) 2(2)] 3(2)] 4(2)] 1(3) 2(3) 3(3)
    by (auto simp: reply_text_def Let_def hdr_def wsh_def split: if_splits)
  note F = wrote_frame [OF w]
  define y' where "y' = sub_flushed y"
  define s' where "s' = s4\<lparr>g_subs := (g_subs s)(b \<mapsto> y')\<rparr>"
  have y': "sub_ok y'" "pool_raws (sub_low y') = []" "pool_raws (sub_high y') = []"
    unfolding y'_def by (rule sub_flushed [OF ok])+
  have tr: "g_transports s1 = g_transports s" using wrote_frame(6) [OF 1(2)] .
  have run: "send_raws E b s = Some (f1 \<and> f2 \<and> f3 \<and> f4, s')"
    using y ne cl 1(1) 2(1) size wsc 3(1) 4(1) F(1)
    by (simp add: send_raws_def upd_sub_def s'_def y'_def sub_flushed_def)
  have occ: "occ s' r + count_list (sub_queue y) r = occ s r" for r
    using occ_upd [OF msg_invD(1) [OF inv] y, of s' y' r] y'
    by (simp add: s'_def sub_raws_def sub_queue_count)
  have "msg_inv s'"
    by (rule msg_inv_release [OF inv y _ _ occ])
       (use y' y F 4(3) 3(3) 2(3) 1(3) msg_invD(2) [OF inv] in \<open>auto simp: s'_def sub_queue_count split: if_splits\<close>)
  moreover have "s'\<lparr>g_subs := g_subs s, g_raws := g_raws s, g_sk := g_sk s\<rparr> = s"
  proof -
    have "s'\<lparr>g_subs := g_subs s, g_raws := g_raws s, g_sk := g_sk s\<rparr> = (s4\<lparr>g_sk := g_sk s, g_raws := g_raws s\<rparr>)\<lparr>g_subs := g_subs s\<rparr>"
      by (simp add: s'_def)
    also have "\<dots> = s" using w by (simp add: wrote_def)
    finally show ?thesis .
  qed
  ultimately show thesis
    using run w y' by (intro that [of "f1 \<and> f2 \<and> f3 \<and> f4" s']) (simp_all add: s'_def y'_def wrote_def lowq_def highq_def)
qed

lemma destroy_raw_pool_free:
  assumes "covers (g_raws s) rs"
  shows "destroy_raw_pool (map Some rs @ replicate k None) s = Some (s\<lparr>g_raws := fold free1 rs (g_raws s)\<rparr>)"
proof -
  let ?f = "\<lambda>c s. case c of None \<Rightarrow> Some s | Some r \<Rightarrow> map_option snd (free_raw r s)"
  have tail: "forM (replicate k None) ?f t = Some t" for t :: acetables by (induction k) simp_all
  have "forM (map Some rs) ?f s = Some (s\<lparr>g_raws := fold free1 rs (g_raws s)\<rparr>)"
    using assms
  proof (induction rs arbitrary: s)
    case (Cons r rs)
    obtain x where x: "g_raws s r = Some x" "covers (free1 r (g_raws s)) rs" using covers_Cons [OF Cons.prems] .
    then show ?case using Cons.IH [of "s\<lparr>g_raws := free1 r (g_raws s)\<rparr>"] free_raw_free1 [OF x(1)] by auto
  qed simp
  then show ?thesis by (simp add: destroy_raw_pool_def forM_append tail)
qed

section \<open>Properties\<close>


text \<open>C8. Writing a subuser's queue delivers it exactly: the reply is the transport's header (once),
  its padding and, on a websocket, a frame head that announces the right length, around one JSON array
  with every queued message once, the high-priority ones newest first and then the low-priority ones in
  posting order. Nothing else is written to any connection, the queue is empty afterwards, and every
  message is released without freeing one that another subuser still holds.\<close>

theorem send_raws_delivers:
  assumes "good_os (e_os E)" and "sock_inv (g_sk s)" and "msg_inv s"
    and "g_subs s b = Some y" and "sub_nraw y \<noteq> 0" and "sub_ready s y k u" and "s_fd k \<noteq> 0"
  shows "\<exists>f s'. send_raws E b s = Some (f, s') \<and> msg_inv s' \<and>
    outp (g_sk s') (s_fd k) = outp (g_sk s) (s_fd k) @ reply_text s y (u_transport u) (s_ws k) \<and>
    (\<forall>fd. fd \<noteq> s_fd k \<longrightarrow> outp (g_sk s') fd = outp (g_sk s) fd) \<and>
    lowq s' b = [] \<and> highq s' b = [] \<and> (\<forall>c. c \<noteq> b \<longrightarrow> g_subs s' c = g_subs s c)"
  by (rule send_raws_spec [OF assms(1-6)]) (use assms(7) in auto)

text \<open>A state with one user, one connection and one queued message.\<close>

definition sample_env :: env where
  "sample_env = \<lparr>e_os = (\<lambda>i fd n. Wrote 1), e_rand = (\<lambda>i. int (i * 134217728 mod 2147483648)),
     e_allocateuser = [], e_adduser = [], e_deluser = [], e_mkchan = [], e_rmchan = [], e_join = [],
     e_left = [], e_tickuser = [], e_post_raw_sub = [], e_addsubuser = [], e_delsubuser = [],
     e_on_send = (\<lambda>_ _ _ _ s. Some s), e_on_unlink = (\<lambda>_ _ _ s. Some s)\<rparr>"

lemma sample_env_quiet [simp]: "quiet sample_env" "good_os (e_os sample_env)"
  by (simp_all add: sample_env_def quiet_def unhooked_def good_os_def)

definition sample_pool :: "nat list \<Rightarrow> raw_pool_user" where
  "sample_pool rs = \<lparr>pool_nraw = length rs, pool_size = length rs + 2,
     pool_cells = map Some rs @ [None, None], pool_foot = length rs\<rparr>"

definition sample_sub :: "nat list \<Rightarrow> nat option \<Rightarrow> nat option \<Rightarrow> subuser" where
  "sample_sub rs client user = \<lparr>sub_low = sample_pool rs, sub_high = sample_pool [], sub_nraw = length rs,
     sub_content = None, sub_sent = False, sub_properties = [], sub_client = client, sub_user = user,
     sub_idle = 0, sub_state = ALIVE, sub_need_update = False, sub_wait_for_free = False,
     sub_burn_after_writing = False, sub_current_chl = 0, sub_channel = ''host''\<rparr>"

definition sample_user :: "nat \<Rightarrow> nat list \<Rightarrow> nat list \<Rightarrow> transport_t \<Rightarrow> string \<Rightarrow> USERS" where
  "sample_user p subs chans tr sid = \<lparr>u_ulink = [], u_nlink = 0, u_sessions = [], u_sessions_length = 0,
     u_chan_foot = chans, u_pipe = p, u_properties = [], u_subuser = subs, u_cmdqueue = [], u_idle = 0,
     u_transport = tr, u_nsub = int (length subs), u_flags = 0, u_type = HUMAN, u_istmp = False,
     u_ip = ''10.0.0.1'', u_sessid = sid\<rparr>"

definition sample_state :: acetables where
  "sample_state = (ape_init 0 [])\<lparr>g_next := 4, g_users := [2 \<mapsto> sample_user 3 [1] [] TRANSPORT_WEBSOCKET_IETF ''s''],
     g_subs := [1 \<mapsto> sample_sub [0] (Some 5) (Some 2)],
     g_raws := [0 \<mapsto> \<lparr>raw_data = ''hello'', raw_priority = RAW_PRI_LO, raw_refcount = 0\<rparr>],
     g_co := [5 \<mapsto> \<lparr>s_fd = 5, s_ws = Some WS_IETF_07, s_attach = Some 1\<rparr>]\<rparr>"

lemma sample_pool_inv [simp]: "pool_inv (sample_pool rs) rs" "pool_raws (sample_pool rs) = rs"
proof -
  show "pool_inv (sample_pool rs) rs" by (simp add: sample_pool_def pool_inv_def numeral_2_eq_2)
  then show "pool_raws (sample_pool rs) = rs" by (rule pool_inv_raws)
qed

lemma sample_sub_ok [simp]: "sub_ok (sample_sub rs c u)" "sub_raws (sample_sub rs c u) = rs"
  by (simp_all add: sub_ok_def sample_sub_def sub_raws_def)

lemma sample_state_inv: "msg_inv sample_state"
proof (rule msg_invI)
  have o: "occ sample_state r = (if r = 0 then 1 else 0)" for r
    by (simp add: occ_def sample_state_def)
  show "occ sample_state r = 0" if "g_raws sample_state r = None" for r
    using that unfolding o by (auto simp: sample_state_def split: if_splits)
  show "r < g_next sample_state" "0 \<le> raw_refcount y" "int (occ sample_state r) \<le> max 1 (raw_refcount y)"
    if "g_raws sample_state r = Some y" for r y
    using that unfolding o by (auto simp: sample_state_def split: if_splits)
qed (auto simp: sample_state_def ape_init_def sprintf_li_def dec_digits_def split: if_splits)

theorem send_raws_delivers_witness:
  "\<exists>f s'. send_raws sample_env 1 sample_state = Some (f, s') \<and> msg_inv s' \<and>
    outp (g_sk s') 5 = outp (g_sk sample_state) 5 @
      reply_text sample_state (sample_sub [0] (Some 5) (Some 2)) TRANSPORT_WEBSOCKET_IETF (Some WS_IETF_07) \<and>
    (\<forall>fd. fd \<noteq> 5 \<longrightarrow> outp (g_sk s') fd = outp (g_sk sample_state) fd) \<and>
    lowq s' 1 = [] \<and> highq s' 1 = [] \<and> (\<forall>c. c \<noteq> 1 \<longrightarrow> g_subs s' c = g_subs sample_state c)"
  using send_raws_delivers [of sample_env sample_state 1 "sample_sub [0] (Some 5) (Some 2)"
      "\<lparr>s_fd = 5, s_ws = Some WS_IETF_07, s_attach = Some 1\<rparr>" "sample_user 3 [1] [] TRANSPORT_WEBSOCKET_IETF ''s''"]
    sample_state_inv
  by (simp add: sample_state_def sample_sub_def sample_user_def sub_ready_def ape_init_def)

end
