(* ===== verification/Ape_Pipe.thy ===== *)
theory Ape_Pipe
  imports Ape_Raw
begin

text \<open>
  Pipes of \<open>src/pipe.c\<close>: the public addresses of users, channels and custom endpoints. Identifiers are
  drawn at random until they collide with no session and no pipe. With them the lookups of
  \<open>src/users.c\<close> and the JSON descriptions of users, channels and pipes that messages carry.
\<close>

section \<open>Identifiers\<close>

definition seek_user_id :: "string \<Rightarrow> acetables \<Rightarrow> nat option option" where
  "seek_user_id sessid s =
     (if length sessid \<noteq> 32 then Some None else hashtbl_seek (g_hSessid s) (Some sessid))"

definition get_pipe :: "string \<Rightarrow> acetables \<Rightarrow> nat option option" where
  "get_pipe pubid s =
     (if length pubid \<noteq> 32 then Some None else hashtbl_seek (g_hPubid s) (Some pubid))"

definition basic_chars :: string where "basic_chars = ''abcdef0123456789''"

fun gen_chars :: "(nat \<Rightarrow> int) \<Rightarrow> nat \<Rightarrow> nat \<Rightarrow> (string \<times> nat) option" where
  "gen_chars rand 0 pos = Some ([], pos)"
| "gen_chars rand (Suc i) pos = do {
     (k, pos) \<leftarrow> rand_n rand pos 15;
     (cs, pos) \<leftarrow> gen_chars rand i pos;
     if 0 \<le> k \<and> k < 16 then Some (basic_chars ! nat k # cs, pos) else None }"

partial_function (option) gen_sessid_new :: "(nat \<Rightarrow> int) \<Rightarrow> acetables \<Rightarrow> nat \<Rightarrow> (string \<times> nat) option" where
  "gen_sessid_new rand s pos =
     Option.bind (gen_chars rand 32 pos) (\<lambda>(input, pos).
       Option.bind (seek_user_id input s) (\<lambda>u.
         if u \<noteq> None then gen_sessid_new rand s pos
         else Option.bind (get_pipe input s) (\<lambda>p.
           if p \<noteq> None then gen_sessid_new rand s pos else Some (input, pos))))"

section \<open>Life cycle\<close>

definition init_pipe :: "env \<Rightarrow> nat \<Rightarrow> pipe_type \<Rightarrow> acetables \<Rightarrow> (nat \<times> acetables) option" where
  "init_pipe E obj ptype s = do {
     (pubid, pos) \<leftarrow> gen_sessid_new (e_rand E) s (g_rpos s);
     let npipe = \<lparr>p_pipe = obj, p_link = [], p_properties = [], p_on_send = None, p_type = ptype, p_pubid = pubid\<rparr>;
     h \<leftarrow> hashtbl_append (g_hPubid s) (Some pubid) (g_next s);
     Some (g_next s, s\<lparr>g_rpos := pos, g_pipes := (g_pipes s)(g_next s \<mapsto> npipe), g_hPubid := h,
                       g_next := Suc (g_next s)\<rparr>) }"

definition link_pipe :: "nat option \<Rightarrow> nat option \<Rightarrow> nat option \<Rightarrow> acetables \<Rightarrow> acetables option" where
  "link_pipe pipe_origin pipe_to on_unlink s =
     (case (pipe_origin, pipe_to) of
        (Some p, Some q) \<Rightarrow> upd_pipe p (\<lambda>x. x\<lparr>p_link := \<lparr>pl_plink = q, pl_on_unlink = on_unlink\<rparr> # p_link x\<rparr>) s
      | _ \<Rightarrow> Some s)"

definition unlink_all_pipe :: "env \<Rightarrow> nat \<Rightarrow> acetables \<Rightarrow> acetables option" where
  "unlink_all_pipe E origin s = do {
     x \<leftarrow> g_pipes s origin;
     s \<leftarrow> forM (p_link x) (\<lambda>l s. case pl_on_unlink l of None \<Rightarrow> Some s
                              | Some f \<Rightarrow> e_on_unlink E f origin (pl_plink l) s) s;
     upd_pipe origin (\<lambda>x. x\<lparr>p_link := []\<rparr>) s }"

definition destroy_pipe :: "env \<Rightarrow> nat \<Rightarrow> acetables \<Rightarrow> acetables option" where
  "destroy_pipe E pipe s = do {
     s \<leftarrow> unlink_all_pipe E pipe s;
     x \<leftarrow> g_pipes s pipe;
     h \<leftarrow> hashtbl_erase (g_hPubid s) (Some (p_pubid x));
     Some (s\<lparr>g_hPubid := h, g_pipes := (g_pipes s)(pipe := None)\<rparr>) }"

section \<open>Lookups\<close>

definition isonchannel :: "nat option \<Rightarrow> nat option \<Rightarrow> acetables \<Rightarrow> bool option" where
  "isonchannel user chan s =
     (case (user, chan) of
        (Some u, Some c) \<Rightarrow> map_option (\<lambda>x. c \<in> set (u_chan_foot x)) (g_users s u)
      | _ \<Rightarrow> Some False)"

text \<open>\<open>pubid\<close> addresses the receiver, \<open>user\<close> is the sender.\<close>

definition get_pipe_strict :: "string \<Rightarrow> nat option \<Rightarrow> acetables \<Rightarrow> nat option option" where
  "get_pipe_strict pubid user s = do {
     pipe \<leftarrow> get_pipe pubid s;
     case pipe of
       None \<Rightarrow> Some None
     | Some p \<Rightarrow> do {
         x \<leftarrow> g_pipes s p;
         on \<leftarrow> (if p_type x = CHANNEL_PIPE then isonchannel user (Some (p_pipe x)) s else Some True);
         Some (if on then Some p else None) } }"

definition seek_user_simple :: "string \<Rightarrow> acetables \<Rightarrow> nat option option" where
  "seek_user_simple pubid s = do {
     gpipe \<leftarrow> get_pipe pubid s;
     case gpipe of
       None \<Rightarrow> Some None
     | Some p \<Rightarrow> map_option (\<lambda>x. if p_type x \<noteq> USER_PIPE then None else Some (p_pipe x)) (g_pipes s p) }"

definition getchanbypubid :: "string \<Rightarrow> acetables \<Rightarrow> nat option option" where
  "getchanbypubid pubid s = do {
     gpipe \<leftarrow> get_pipe pubid s;
     case gpipe of
       None \<Rightarrow> Some None
     | Some p \<Rightarrow> map_option (\<lambda>x. if p_type x \<noteq> CHANNEL_PIPE then None else Some (p_pipe x)) (g_pipes s p) }"

text \<open>The walk of \<open>seek_user\<close> over the channels of the user.\<close>

fun seek_user_loop :: "nat list \<Rightarrow> string \<Rightarrow> acetables \<Rightarrow> bool option" where
  "seek_user_loop [] linkid s = Some False"
| "seek_user_loop (c # clist) linkid s = do {
     x \<leftarrow> g_chans s c;
     p \<leftarrow> g_pipes s (c_pipe x);
     if strcaseeq (p_pubid p) linkid then Some True else seek_user_loop clist linkid s }"

definition seek_user :: "string \<Rightarrow> string \<Rightarrow> acetables \<Rightarrow> nat option option" where
  "seek_user pubid linkid s = do {
     suser \<leftarrow> seek_user_simple pubid s;
     case suser of
       None \<Rightarrow> Some None
     | Some u \<Rightarrow> do {
         x \<leftarrow> g_users s u;
         found \<leftarrow> seek_user_loop (u_chan_foot x) linkid s;
         Some (if found then Some u else None) } }"

section \<open>Descriptions\<close>

text \<open>With a NULL user the code stores into the object it has not allocated.\<close>

definition get_json_object_user :: "nat option \<Rightarrow> acetables \<Rightarrow> json_item option" where
  "get_json_object_user user s =
     (case user of
        None \<Rightarrow> None
      | Some u \<Rightarrow> do {
          x \<leftarrow> g_users s u;
          p \<leftarrow> g_pipes s (u_pipe x);
          let js = json_set_property_strN json_new_object (Some ''casttype'') 8 ''uni'' 3;
          let js = json_set_property_strN js (Some ''pubid'') 5 (p_pubid p) 32;
          Some (if has_public (u_properties x)
                then json_set_property_objN js (Some ''properties'') 10
                       (public_props (u_properties x) json_new_object)
                else js) })"

definition get_json_object_channel :: "nat \<Rightarrow> acetables \<Rightarrow> json_item option" where
  "get_json_object_channel chan s = do {
     c \<leftarrow> g_chans s chan;
     p \<leftarrow> g_pipes s (c_pipe c);
     let js = json_set_property_strN json_new_object (Some ''casttype'') 8 ''multi'' 5;
     let js = json_set_property_strN js (Some ''pubid'') 5 (p_pubid p) 32;
     let jprop = json_set_property_strZ json_new_object (Some ''name'') (c_name c);
     Some (json_set_property_objN js (Some ''properties'') 10 (public_props (c_properties c) jprop)) }"

definition get_json_object_pipe_custom :: "nat \<Rightarrow> acetables \<Rightarrow> json_item option" where
  "get_json_object_pipe_custom pipe s = do {
     p \<leftarrow> g_pipes s pipe;
     let js = json_set_property_strN json_new_object (Some ''casttype'') 8 ''custom'' 6;
     let js = json_set_property_strN js (Some ''pubid'') 5 (p_pubid p) 32;
     Some (if has_public (p_properties p)
           then json_set_property_objN js (Some ''properties'') 10
                  (public_props (p_properties p) json_new_object)
           else js) }"

text \<open>NULL for a proxy, an inner \<open>None\<close>.\<close>

definition get_json_object_pipe :: "nat \<Rightarrow> acetables \<Rightarrow> json_item option option" where
  "get_json_object_pipe pipe s = do {
     p \<leftarrow> g_pipes s pipe;
     case p_type p of
       USER_PIPE \<Rightarrow> map_option Some (get_json_object_user (Some (p_pipe p)) s)
     | CHANNEL_PIPE \<Rightarrow> map_option Some (get_json_object_channel (p_pipe p) s)
     | CUSTOM_PIPE \<Rightarrow> map_option Some (get_json_object_pipe_custom pipe s)
     | PROXY_PIPE \<Rightarrow> Some None }"

definition post_json_custom :: "env \<Rightarrow> json_item \<Rightarrow> nat option \<Rightarrow> nat \<Rightarrow> acetables \<Rightarrow> acetables option" where
  "post_json_custom E js user pipe s = do {
     p \<leftarrow> g_pipes s pipe;
     case p_on_send p of None \<Rightarrow> Some s | Some f \<Rightarrow> e_on_send E f pipe user js s }"

section \<open>Errors and messages to users\<close>

definition send_error :: "env \<Rightarrow> nat \<Rightarrow> string \<Rightarrow> string \<Rightarrow> acetables \<Rightarrow> acetables option" where
  "send_error E user msg code s = do {
     let jlist = json_set_property_strZ json_new_object (Some ''code'') code;
     let jlist = json_set_property_strZ jlist (Some ''value'') msg;
     (newraw, s) \<leftarrow> forge_raw RAW_ERR jlist s;
     post_raw E newraw user s }"

definition send_msg :: "env \<Rightarrow> nat \<Rightarrow> string \<Rightarrow> string \<Rightarrow> acetables \<Rightarrow> acetables option" where
  "send_msg E user msg mtype s = do {
     let jlist = json_set_property_strZ json_new_object (Some ''value'') msg;
     (newraw, s) \<leftarrow> forge_raw mtype jlist s;
     post_raw E newraw user s }"

definition send_msg_channel :: "env \<Rightarrow> nat \<Rightarrow> string \<Rightarrow> string \<Rightarrow> acetables \<Rightarrow> acetables option" where
  "send_msg_channel E chan msg mtype s = do {
     let jlist = json_set_property_strZ json_new_object (Some ''value'') msg;
     (newraw, s) \<leftarrow> forge_raw mtype jlist s;
     post_raw_channel E newraw chan s }"

definition send_msg_sub :: "env \<Rightarrow> nat \<Rightarrow> string \<Rightarrow> string \<Rightarrow> acetables \<Rightarrow> acetables option" where
  "send_msg_sub E sub msg mtype s = do {
     let jlist = json_set_property_strZ json_new_object (Some ''value'') msg;
     (newraw, s) \<leftarrow> forge_raw mtype jlist s;
     post_raw_sub E newraw sub s }"

text \<open>\<open>post_raw_pipe\<close> and \<open>post_to_pipe\<close> of \<open>src/raw.c\<close>.\<close>

definition post_raw_pipe :: "env \<Rightarrow> nat \<Rightarrow> string \<Rightarrow> acetables \<Rightarrow> (bool \<times> acetables) option" where
  "post_raw_pipe E raw pipe s = do {
     spipe \<leftarrow> get_pipe pipe s;
     case spipe of
       None \<Rightarrow> Some (False, s)
     | Some p \<Rightarrow> do {
         x \<leftarrow> g_pipes s p;
         s \<leftarrow> (if p_type x = CHANNEL_PIPE then post_raw_channel E raw (p_pipe x) s
               else post_raw E raw (p_pipe x) s);
         Some (True, s) } }"

text \<open>In \<open>post_to_pipe\<close>: the copy for the sender's other connections, and the message itself.\<close>

definition echo_sender ::
  "env \<Rightarrow> json_item \<Rightarrow> string \<Rightarrow> nat \<Rightarrow> nat \<Rightarrow> nat \<Rightarrow> acetables \<Rightarrow> acetables option" where
  "echo_sender E jlist rawname recver u from s = do {
     x \<leftarrow> g_users s u;
     if 1 < u_nsub x then do {
       jp \<leftarrow> get_json_object_pipe recver s;
       jp \<leftarrow> jp;
       (newraw, s) \<leftarrow> forge_raw rawname (json_set_property_objN (json_item_copy jlist) (Some ''pipe'') 4 jp) s;
       post_raw_restricted E newraw u (Some from) s }
     else Some s }"

definition send_to_pipe ::
  "env \<Rightarrow> json_item \<Rightarrow> string \<Rightarrow> nat \<Rightarrow> nat option \<Rightarrow> acetables \<Rightarrow> acetables option" where
  "send_to_pipe E jlist rawname recver sender s = do {
     x \<leftarrow> g_pipes s recver;
     case p_type x of
       USER_PIPE \<Rightarrow> do {
         ju \<leftarrow> get_json_object_user sender s;
         (newraw, s) \<leftarrow> forge_raw rawname (json_set_property_objN jlist (Some ''pipe'') 4 ju) s;
         post_raw E newraw (p_pipe x) s }
     | CHANNEL_PIPE \<Rightarrow> do {
         c \<leftarrow> g_chans s (p_pipe x);
         if 2 \<le> length (c_head c) then do {
           jc \<leftarrow> get_json_object_channel (p_pipe x) s;
           (newraw, s) \<leftarrow> forge_raw rawname (json_set_property_objN jlist (Some ''pipe'') 4 jc) s;
           post_raw_channel_restricted E newraw (p_pipe x) sender s }
         else Some s }
     | CUSTOM_PIPE \<Rightarrow> do {
         ju \<leftarrow> get_json_object_user sender s;
         post_json_custom E (json_set_property_objN jlist (Some ''pipe'') 4 ju) sender recver s }
     | PROXY_PIPE \<Rightarrow> Some s }"

definition post_to_pipe ::
  "env \<Rightarrow> json_item \<Rightarrow> string \<Rightarrow> string \<Rightarrow> nat \<Rightarrow> acetables \<Rightarrow> (bool \<times> acetables) option" where
  "post_to_pipe E jlist rawname pipe from s = do {
     b \<leftarrow> g_subs s from;
     let sender = sub_user b;
     recver \<leftarrow> get_pipe_strict pipe sender s;
     case (sender, recver) of
       (Some u, None) \<Rightarrow> map_option (Pair False) (send_error E u ''UNKNOWN_PIPE'' ''109'' s)
     | (None, None) \<Rightarrow> None
     | (None, Some r) \<Rightarrow> map_option (Pair True) (send_to_pipe E jlist rawname r None s)
     | (Some u, Some r) \<Rightarrow> do {
         ju \<leftarrow> get_json_object_user (Some u) s;
         let jlist = json_set_property_objN jlist (Some ''from'') 4 ju;
         s \<leftarrow> echo_sender E jlist rawname r u from s;
         map_option (Pair True) (send_to_pipe E jlist rawname r (Some u) s) } }"

section \<open>Identifiers are fresh\<close>

text \<open>Every value of the generator is useful for the sixteen letters, so one identifier takes exactly
  32 draws.\<close>

definition id_at :: "(nat \<Rightarrow> int) \<Rightarrow> nat \<Rightarrow> nat \<Rightarrow> string" where
  "id_at rand n pos = map (\<lambda>i. basic_chars ! nat (rand (pos + i) div partSize 15)) [0..<n]"

definition rand_ok :: "(nat \<Rightarrow> int) \<Rightarrow> bool" where
  "rand_ok rand \<longleftrightarrow> (\<forall>i. 0 \<le> rand i \<and> rand i \<le> RAND_MAX)"

lemma rand_n_15:
  assumes "rand_ok rand"
  shows "rand_n rand pos 15 = Some (rand pos div partSize 15, Suc pos)"
    and "0 \<le> rand pos div partSize 15" and "rand pos div partSize 15 < 16"
proof -
  have r: "0 \<le> rand pos" "rand pos \<le> 2147483647" using assms by (simp_all add: rand_ok_def RAND_MAX_def)
  have p: "partSize 15 = 134217728" by (simp add: partSize_def RAND_MAX_def)
  have "maxUsefull 15 = 2147483647" by (simp add: maxUsefull_def p)
  then show "rand_n rand pos 15 = Some (rand pos div partSize 15, Suc pos)"
    using r by (subst rand_n.simps) simp
  show "0 \<le> rand pos div partSize 15" "rand pos div partSize 15 < 16" using r by (simp_all add: p)
qed

lemma gen_chars_eq:
  assumes "rand_ok rand"
  shows "gen_chars rand n pos = Some (id_at rand n pos, pos + n)"
proof (induction n arbitrary: pos)
  case 0
  show ?case by (simp add: id_at_def)
next
  case (Suc n)
  have "id_at rand (Suc n) pos = basic_chars ! nat (rand pos div partSize 15) # id_at rand n (Suc pos)"
    unfolding id_at_def by (simp only: upt_conv_Cons [OF zero_less_Suc] list.map map_Suc_upt [symmetric] map_map comp_def) simp
  then show ?case using Suc.IH [of "Suc pos"] rand_n_15 [OF assms, of pos] by simp
qed

text \<open>The identifier collides neither with a session nor with a pipe.\<close>

definition id_free :: "string \<Rightarrow> acetables \<Rightarrow> bool" where
  "id_free k s \<longleftrightarrow> seek_user_id k s = Some None \<and> get_pipe k s = Some None"

lemma gen_chars_length: "gen_chars rand n pos = Some (k, q) \<Longrightarrow> length k = n \<and> set k \<subseteq> set basic_chars"
proof (induction n arbitrary: pos k q)
  case (Suc n)
  then show ?case
    by (auto elim!: bind_SomeE split: if_splits simp: basic_chars_def nth_Cons' simp del: set_simps)
      (fastforce simp: basic_chars_def dest: Suc.IH)+
qed simp

lemma gen_sessid_new_spec:
  assumes "gen_sessid_new rand s pos = Some (k, pos')"
  shows "id_free k s" and "length k = 32" and "set k \<subseteq> set basic_chars"
proof -
  let ?P = "\<lambda>rand s pos r. id_free (fst r) s \<and> length (fst r) = 32 \<and> set (fst r) \<subseteq> set basic_chars"
  have "?P rand s pos (k, pos')"
  proof (rule gen_sessid_new.raw_induct [of ?P, OF _ assms], goal_cases)
    case (1 gen rand s pos r)
    then obtain input q u where g: "gen_chars rand 32 pos = Some (input, q)" "seek_user_id input s = Some u"
      and rest: "(if u \<noteq> None then gen rand s q else Option.bind (get_pipe input s)
        (\<lambda>p. if p \<noteq> None then gen rand s q else Some (input, q))) = Some r"
      by (auto elim!: bind_SomeE)
    show ?case
    proof (cases u)
      case (Some a)
      then show ?thesis using rest 1(1) [of rand s q r] by simp
    next
      case None
      then obtain p where p: "get_pipe input s = Some p" "(if p \<noteq> None then gen rand s q else Some (input, q)) = Some r"
        using rest by (auto elim!: bind_SomeE)
      show ?thesis
        using p g None 1(1) [of rand s q r] gen_chars_length [OF g(1)]
        by (cases p) (auto simp: id_free_def)
    qed
  qed
  then show "id_free k s" "length k = 32" "set k \<subseteq> set basic_chars" by simp_all
qed

lemma seek_total:
  assumes "htbl_inv (g_hSessid s)" and "htbl_inv (g_hPubid s)"
  shows "\<exists>u. seek_user_id k s = Some u" and "\<exists>p. get_pipe k s = Some p"
  using assms hashtbl_seek_total [OF assms(1), of "Some k"] hashtbl_seek_total [OF assms(2), of "Some k"]
  by (auto simp: seek_user_id_def get_pipe_def)

section \<open>Properties\<close>

text \<open>C27. Identifiers are fresh and the generator ends: with a generator in range, the loop stops at the
  first group of 32 draws whose identifier is in use neither as a session nor as a public address, and
  returns that identifier; it has 32 characters of the alphabet.\<close>

theorem gen_sessid_first_free:
  assumes "rand_ok rand" and "htbl_inv (g_hSessid s)" and "htbl_inv (g_hPubid s)"
    and "id_free (id_at rand 32 (pos + 32 * k)) s"
  shows "\<exists>j \<le> k. gen_sessid_new rand s pos = Some (id_at rand 32 (pos + 32 * j), pos + 32 * Suc j) \<and>
     id_free (id_at rand 32 (pos + 32 * j)) s \<and>
     length (id_at rand 32 (pos + 32 * j)) = 32 \<and> set (id_at rand 32 (pos + 32 * j)) \<subseteq> set basic_chars"
proof -
  have gen: "\<exists>j \<le> k. gen_sessid_new rand s pos = Some (id_at rand 32 (pos + 32 * j), pos + 32 * Suc j)"
    using assms(4)
  proof (induction k arbitrary: pos)
    case 0
    then show ?case
      by (subst gen_sessid_new.simps) (simp add: gen_chars_eq [OF assms(1)] id_free_def)
  next
    case (Suc k)
    show ?case
    proof (cases "id_free (id_at rand 32 pos) s")
      case True
      then show ?thesis
        by (intro exI [of _ 0], subst gen_sessid_new.simps) (simp add: gen_chars_eq [OF assms(1)] id_free_def)
    next
      case False
      obtain u p where "seek_user_id (id_at rand 32 pos) s = Some u" "get_pipe (id_at rand 32 pos) s = Some p"
        using seek_total [OF assms(2,3)] by blast
      then have "gen_sessid_new rand s pos = gen_sessid_new rand s (pos + 32)"
        using False by (subst gen_sessid_new.simps) (auto simp: gen_chars_eq [OF assms(1)] id_free_def)
      moreover have "\<exists>j \<le> k. gen_sessid_new rand s (pos + 32) =
          Some (id_at rand 32 (pos + 32 + 32 * j), pos + 32 + 32 * Suc j)"
        by (rule Suc.IH) (use Suc.prems in \<open>simp add: add.assoc\<close>)
      ultimately show ?thesis by (metis Suc_le_mono add.assoc mult_Suc_right)
    qed
  qed
  then obtain j where j: "j \<le> k" "gen_sessid_new rand s pos = Some (id_at rand 32 (pos + 32 * j), pos + 32 * Suc j)"
    by blast
  then show ?thesis using gen_sessid_new_spec [OF j(2)] by blast
qed

theorem gen_sessid_first_free_witness:
  "\<exists>j \<le> 0. gen_sessid_new (\<lambda>i. int (i mod 16) * 134217728) (ape_init 0 []) 0 =
       Some (id_at (\<lambda>i. int (i mod 16) * 134217728) 32 (0 + 32 * j), 0 + 32 * Suc j) \<and>
     id_free (id_at (\<lambda>i. int (i mod 16) * 134217728) 32 (0 + 32 * j)) (ape_init 0 []) \<and>
     length (id_at (\<lambda>i. int (i mod 16) * 134217728) 32 (0 + 32 * j)) = 32 \<and>
     set (id_at (\<lambda>i. int (i mod 16) * 134217728) 32 (0 + 32 * j)) \<subseteq> set basic_chars"
proof (rule gen_sessid_first_free)
  have "int (i mod 16) \<le> 15" for i by simp
  then show "rand_ok (\<lambda>i. int (i mod 16) * 134217728)"
    by (auto simp: rand_ok_def RAND_MAX_def)
  show "htbl_inv (g_hSessid (ape_init 0 []))" "htbl_inv (g_hPubid (ape_init 0 []))"
    by (simp_all add: ape_init_def ht.inv_empty)
  show "id_free (id_at (\<lambda>i. int (i mod 16) * 134217728) 32 (0 + 32 * 0)) (ape_init 0 [])"
    by (simp add: id_free_def seek_user_id_def get_pipe_def ape_init_def ht.seek_empty)
qed

end
