(* ===== verification/Ape_World.thy ===== *)
theory Ape_World
  imports Ape_Pipe
begin

text \<open>
  The consistency of the shared state: the references between users, subusers, channels, pipes and the
  hash tables. References come in pairs (a user's channel list and the channel's member list, a user's
  connections and their owner, an object and its pipe) and the invariant says that the two sides agree;
  so no reference dangles, and freeing an object after its references are gone is safe.
\<close>

section \<open>Indexes\<close>

text \<open>A hash table that indexes a heap by a key field, without regard to case.\<close>

definition indexes :: "nat HTBL \<Rightarrow> ('a \<Rightarrow> string) \<Rightarrow> (nat \<rightharpoonup> 'a) \<Rightarrow> bool" where
  "indexes h key heap \<longleftrightarrow> htbl_inv h \<and>
     (\<forall>k a. hashtbl_seek h (Some k) = Some (Some a) \<longleftrightarrow> (\<exists>x. heap a = Some x \<and> strcaseeq k (key x)))"

lemma indexes_hit: "indexes h key heap \<Longrightarrow> heap a = Some x \<Longrightarrow> strcaseeq k (key x) \<Longrightarrow> hashtbl_seek h (Some k) = Some (Some a)"
  by (auto simp: indexes_def)

lemma indexes_seek:
  assumes "indexes h key heap"
  obtains a x where "hashtbl_seek h (Some k) = Some (Some a)" "heap a = Some x" "strcaseeq k (key x)"
  | "hashtbl_seek h (Some k) = Some None"
  using assms hashtbl_seek_total [of h "Some k"] unfolding indexes_def by (metis not_Some_eq)

lemma indexes_inj:
  assumes "indexes h key heap" and "heap a = Some x" and "heap b = Some y" and "strcaseeq (key x) (key y)"
  shows "a = b"
  using indexes_hit [OF assms(1,2), of "key x"] indexes_hit [OF assms(1,3,4)] by simp

lemma indexes_empty: "indexes hashtbl_init key Map.empty"
  by (simp add: indexes_def ht.inv_empty ht.seek_empty)

lemma indexes_upd:
  assumes "indexes h key heap" and "heap a = Some x" and "key y = key x"
  shows "indexes h key (heap(a \<mapsto> y))"
  using assms unfolding indexes_def by auto

lemma indexes_insert:
  assumes i: "indexes h key heap" and free: "hashtbl_seek h (Some (key x)) = Some None" and a: "heap a = None"
  obtains h' where "hashtbl_append h (Some (key x)) a = Some h'" "indexes h' key (heap(a \<mapsto> x))"
proof -
  obtain h' where h: "hashtbl_append h (Some (key x)) a = Some h'" "htbl_inv h'"
    "\<And>k. hashtbl_seek h' (Some k) = (if strcaseeq k (key x) then Some (Some a) else hashtbl_seek h (Some k))"
    using hashtbl_append_law [of h "key x" a] i by (auto simp: indexes_def)
  have "hashtbl_seek h' (Some k) = Some (Some b) \<longleftrightarrow> (\<exists>y. (heap(a \<mapsto> x)) b = Some y \<and> strcaseeq k (key y))" for k b
  proof (cases "strcaseeq k (key x)")
    case True
    have "\<not> strcaseeq k (key y)" if "heap b = Some y" for y
    proof
      assume "strcaseeq k (key y)"
      then have "strcaseeq (key x) (key y)" using True by (simp add: strcaseeq_def)
      then show False using free indexes_hit [OF i that] by simp
    qed
    then show ?thesis using True h(3) [of k] by auto
  next
    case False
    then show ?thesis using h(3) [of k] i a by (auto simp: indexes_def)
  qed
  then show thesis using that h(1,2) by (simp add: indexes_def)
qed

lemma indexes_erase:
  assumes i: "indexes h key heap" and x: "heap a = Some x"
  obtains h' where "hashtbl_erase h (Some (key x)) = Some h'" "indexes h' key (heap(a := None))"
proof -
  obtain h' where h: "hashtbl_erase h (Some (key x)) = Some h'" "htbl_inv h'"
    "\<And>k. hashtbl_seek h' (Some k) = (if strcaseeq k (key x) then Some None else hashtbl_seek h (Some k))"
    using hashtbl_erase_law [of h "key x"] i by (auto simp: indexes_def)
  have "hashtbl_seek h' (Some k) = Some (Some b) \<longleftrightarrow> (\<exists>y. (heap(a := None)) b = Some y \<and> strcaseeq k (key y))" for k b
  proof (cases "strcaseeq k (key x)")
    case True
    have "b = a" if "heap b = Some y" "strcaseeq k (key y)" for y
      using indexes_inj [OF i x that(1)] True that(2) by (simp add: strcaseeq_def)
    then show ?thesis using True h(3) [of k] by auto
  next
    case False
    then show ?thesis using h(3) [of k] i x by (auto simp: indexes_def)
  qed
  then show thesis using that h(1,2) by (simp add: indexes_def)
qed

section \<open>The two sides of each reference\<close>

definition foot :: "acetables \<Rightarrow> nat \<Rightarrow> nat list" where
  "foot s u = (case g_users s u of None \<Rightarrow> [] | Some U \<Rightarrow> u_chan_foot U)"

definition members :: "acetables \<Rightarrow> nat \<Rightarrow> nat list" where
  "members s c = (case g_chans s c of None \<Rightarrow> [] | Some C \<Rightarrow> map ul_userinfo (c_head C))"

definition owner :: "acetables \<Rightarrow> nat \<Rightarrow> nat option" where
  "owner s b = Option.bind (g_subs s b) sub_user"

definition host :: "acetables \<Rightarrow> nat \<Rightarrow> string" where
  "host s b = (case g_subs s b of None \<Rightarrow> [] | Some B \<Rightarrow> sub_channel B)"

definition conn :: "acetables \<Rightarrow> nat \<Rightarrow> (substate \<times> nat option) option" where
  "conn s b = map_option (\<lambda>B. (sub_state B, sub_client B)) (g_subs s b)"

definition target :: "acetables \<Rightarrow> nat \<Rightarrow> (pipe_type \<times> nat) option" where
  "target s p = map_option (\<lambda>P. (p_type P, p_pipe P)) (g_pipes s p)"

definition linked :: "acetables \<Rightarrow> bool" where
  "linked s \<longleftrightarrow> (\<forall>u. distinct (foot s u)) \<and> (\<forall>c. distinct (members s c)) \<and>
     (\<forall>u c. c \<in> set (foot s u) \<longleftrightarrow> u \<in> set (members s c))"

definition sessions_ok :: "USERS \<Rightarrow> bool" where
  "sessions_ok U \<longleftrightarrow> u_sessions_length U = int (sum_list (map (\<lambda>x. length (ses_val x)) (u_sessions U))) \<and>
     u_sessions_length U \<le> MAX_SESSION_LENGTH \<and> distinct (map ses_key (u_sessions U)) \<and>
     (\<forall>x \<in> set (u_sessions U). length (ses_key x) \<le> 32)"

definition user_ok :: "USERS \<Rightarrow> bool" where
  "user_ok U \<longleftrightarrow> extend_inv (u_properties U) \<and> u_nsub U = int (length (u_subuser U)) \<and>
     length (u_sessid U) = 32 \<and> sessions_ok U"

definition chan_ok :: "CHANNEL \<Rightarrow> bool" where
  "chan_ok C \<longleftrightarrow> extend_inv (c_properties C) \<and> length (c_name C) \<le> MAX_CHAN_LEN \<and>
     (\<forall>l \<in> set (c_head C). 1 \<le> ul_level l \<and> ul_level l \<le> 32)"

definition pipe_ok :: "transpipe \<Rightarrow> bool" where
  "pipe_ok P \<longleftrightarrow> extend_inv (p_properties P) \<and> length (p_pubid P) = 32 \<and> p_link P = [] \<and>
     p_type P \<noteq> PROXY_PIPE"

definition base :: "acetables \<Rightarrow> bool" where
  "base s \<longleftrightarrow> msg_inv s \<and>
     indexes (g_hSessid s) u_sessid (g_users s) \<and> indexes (g_hPubid s) p_pubid (g_pipes s) \<and>
     indexes (g_hLusers s) c_name (g_chans s) \<and>
     (\<forall>u. distinct (subs_of s u) \<and> distinct (map (host s) (subs_of s u))) \<and>
     (\<forall>u b. b \<in> set (subs_of s u) \<longleftrightarrow> owner s b = Some u) \<and>
     (\<forall>u p. map_option u_pipe (g_users s u) = Some p \<longleftrightarrow> target s p = Some (USER_PIPE, u)) \<and>
     (\<forall>c p. map_option c_pipe (g_chans s c) = Some p \<longleftrightarrow> target s p = Some (CHANNEL_PIPE, c)) \<and>
     distinct (g_uHead s) \<and> set (g_uHead s) = dom (g_users s) \<and>
     (\<forall>u U. g_users s u = Some U \<longrightarrow> user_ok U \<and> u < g_next s) \<and>
     (\<forall>c C. g_chans s c = Some C \<longrightarrow> chan_ok C \<and> c < g_next s) \<and>
     (\<forall>p P. g_pipes s p = Some P \<longrightarrow> pipe_ok P \<and> p < g_next s) \<and>
     (\<forall>b cl. conn s b = Some (ALIVE, cl) \<longrightarrow> cl \<in> Some ` dom (g_co s)) \<and>
     (\<forall>b. b \<in> dom (g_subs s) \<longrightarrow> owner s b \<noteq> None)"

definition world :: "acetables \<Rightarrow> bool" where
  "world s \<longleftrightarrow> base s \<and> linked s"

lemma baseD:
  assumes "base s"
  shows "msg_inv s" "indexes (g_hSessid s) u_sessid (g_users s)" "indexes (g_hPubid s) p_pubid (g_pipes s)"
    "indexes (g_hLusers s) c_name (g_chans s)" "distinct (subs_of s u)" "distinct (map (host s) (subs_of s u))"
    "b \<in> set (subs_of s u) \<longleftrightarrow> owner s b = Some u"
    "map_option u_pipe (g_users s u) = Some p \<longleftrightarrow> target s p = Some (USER_PIPE, u)"
    "map_option c_pipe (g_chans s c) = Some p \<longleftrightarrow> target s p = Some (CHANNEL_PIPE, c)"
    "distinct (g_uHead s)" "set (g_uHead s) = dom (g_users s)"
    "g_users s u = Some U \<Longrightarrow> user_ok U" "g_users s u = Some U \<Longrightarrow> u < g_next s"
    "g_chans s c = Some C \<Longrightarrow> chan_ok C" "g_chans s c = Some C \<Longrightarrow> c < g_next s"
    "g_pipes s p = Some P \<Longrightarrow> pipe_ok P" "g_pipes s p = Some P \<Longrightarrow> p < g_next s"
    "conn s b = Some (ALIVE, cl) \<Longrightarrow> cl \<in> Some ` dom (g_co s)" "b \<in> dom (g_subs s) \<Longrightarrow> owner s b \<noteq> None"
  using assms unfolding base_def by (elim conjE, simp)+

lemma baseI:
  assumes "msg_inv s" "indexes (g_hSessid s) u_sessid (g_users s)" "indexes (g_hPubid s) p_pubid (g_pipes s)"
    "indexes (g_hLusers s) c_name (g_chans s)" "\<And>u. distinct (subs_of s u)" "\<And>u. distinct (map (host s) (subs_of s u))"
    "\<And>u b. b \<in> set (subs_of s u) \<longleftrightarrow> owner s b = Some u"
    "\<And>u p. map_option u_pipe (g_users s u) = Some p \<longleftrightarrow> target s p = Some (USER_PIPE, u)"
    "\<And>c p. map_option c_pipe (g_chans s c) = Some p \<longleftrightarrow> target s p = Some (CHANNEL_PIPE, c)"
    "distinct (g_uHead s)" "set (g_uHead s) = dom (g_users s)"
    "\<And>u U. g_users s u = Some U \<Longrightarrow> user_ok U" "\<And>u U. g_users s u = Some U \<Longrightarrow> u < g_next s"
    "\<And>c C. g_chans s c = Some C \<Longrightarrow> chan_ok C" "\<And>c C. g_chans s c = Some C \<Longrightarrow> c < g_next s"
    "\<And>p P. g_pipes s p = Some P \<Longrightarrow> pipe_ok P" "\<And>p P. g_pipes s p = Some P \<Longrightarrow> p < g_next s"
    "\<And>b cl. conn s b = Some (ALIVE, cl) \<Longrightarrow> cl \<in> Some ` dom (g_co s)" "\<And>b. b \<in> dom (g_subs s) \<Longrightarrow> owner s b \<noteq> None"
  shows "base s"
  unfolding base_def by (intro conjI allI impI assms) assumption+

lemma worldD: "world s \<Longrightarrow> base s" "world s \<Longrightarrow> linked s"
  by (simp_all add: world_def)

lemma linkedD:
  assumes "linked s"
  shows "distinct (foot s u)" "distinct (members s c)" "c \<in> set (foot s u) \<longleftrightarrow> u \<in> set (members s c)"
  using assms unfolding linked_def by blast+

text \<open>Nothing dangles.\<close>

lemma members_live: "linked s \<Longrightarrow> u \<in> set (members s c) \<Longrightarrow> u \<in> dom (g_users s)"
  using linkedD(3) [of s c u] by (cases "g_users s u") (auto simp: foot_def)

lemma foot_live: "linked s \<Longrightarrow> c \<in> set (foot s u) \<Longrightarrow> c \<in> dom (g_chans s)"
  using linkedD(3) [of s c u] by (cases "g_chans s c") (auto simp: members_def)

lemma subs_live:
  assumes "base s" and "b \<in> set (subs_of s u)"
  shows "b \<in> dom (g_subs s)"
  using baseD(7) [OF assms(1), of b u] assms(2) by (auto simp: owner_def elim!: bind_SomeE)

lemma base_reachable: "base s \<Longrightarrow> u \<in> dom (g_users s) \<Longrightarrow> reachable s u"
  using subs_live [of s _ u] by (auto simp: reachable_def subs_of_def subset_iff)

lemma owner_user:
  assumes "base s" and "owner s b = Some u"
  shows "u \<in> dom (g_users s)"
  using baseD(7) [OF assms(1), of b u] assms(2) by (cases "g_users s u") (auto simp: subs_of_def)

lemma user_pipe:
  assumes "base s" and "g_users s u = Some U"
  obtains P where "g_pipes s (u_pipe U) = Some P" "p_type P = USER_PIPE" "p_pipe P = u"
  using baseD(8) [OF assms(1), of u "u_pipe U"] assms(2) that by (auto simp: target_def)

lemma chan_pipe:
  assumes "base s" and "g_chans s c = Some C"
  obtains P where "g_pipes s (c_pipe C) = Some P" "p_type P = CHANNEL_PIPE" "p_pipe P = c"
  using baseD(9) [OF assms(1), of c "c_pipe C"] assms(2) that by (auto simp: target_def)

section \<open>What keeps the invariant\<close>

lemma sub_core_cong:
  assumes "map_option sub_core (g_subs s' b) = map_option sub_core (g_subs s b)"
  shows "owner s' b = owner s b \<and> host s' b = host s b \<and> conn s' b = conn s b"
proof -
  have p: "sub_user x = sub_user y \<and> sub_channel x = sub_channel y \<and> sub_state x = sub_state y \<and> sub_client x = sub_client y"
    if "sub_core x = sub_core y" for x y
    using arg_cong [OF that, of sub_user] arg_cong [OF that, of sub_channel] arg_cong [OF that, of sub_state]
      arg_cong [OF that, of sub_client] by (simp add: sub_core_def)
  show ?thesis
    using assms p [of "the (g_subs s' b)" "the (g_subs s b)"]
    by (cases "g_subs s b"; cases "g_subs s' b") (simp_all add: owner_def host_def conn_def)
qed

lemma posted_sub:
  assumes "posted s s'"
  shows "owner s' = owner s" "host s' = host s" "subs_of s' = subs_of s" "target s' = target s"
    "foot s' = foot s" "members s' = members s" "conn s' = conn s"
proof -
  have "owner s' b = owner s b \<and> host s' b = host s b \<and> conn s' b = conn s b" for b
    using assms sub_core_cong [of s' b s] by (simp add: posted_def)
  then show "owner s' = owner s" "host s' = host s" "conn s' = conn s" by auto
qed (rule ext, simp add: subs_of_def target_def foot_def members_def posted_frame(1-3) [OF assms])+

lemma base_posted:
  assumes "base s" and "posted s s'" and "msg_inv s'"
  shows "base s'"
proof -
  note f = posted_frame [OF assms(2)] and p = posted_sub [OF assms(2)] and b = baseD [OF assms(1)]
  show ?thesis
  proof (rule baseI; (unfold p f(1-7,10,15))?)
    show "u < g_next s'" if "g_users s u = Some U" for u U using b(13) [OF that] f(16) by simp
    show "c < g_next s'" if "g_chans s c = Some C" for c C using b(15) [OF that] f(16) by simp
    show "q < g_next s'" if "g_pipes s q = Some P" for q P using b(17) [OF that] f(16) by simp
  qed (rule assms b | assumption)+
qed

lemma linked_posted: "linked s \<Longrightarrow> posted s s' \<Longrightarrow> linked s'"
  by (simp add: linked_def posted_sub)

lemma msg_inv_cong:
  "msg_inv s \<Longrightarrow> g_subs s' = g_subs s \<Longrightarrow> g_raws s' = g_raws s \<Longrightarrow> g_now s' = g_now s \<Longrightarrow> g_next s \<le> g_next s' \<Longrightarrow> msg_inv s'"
  using occ_cong [of s' s] unfolding msg_inv_def by (metis less_le_trans)

lemma base_chan_upd:
  assumes "base s" and "g_chans s c = Some C" and "c_name C' = c_name C" and "c_pipe C' = c_pipe C" and "chan_ok C'"
  shows "base (s\<lparr>g_chans := (g_chans s)(c \<mapsto> C')\<rparr>)" (is "base ?s'")
proof -
  note b = baseD [OF assms(1)]
  have e: "owner ?s' = owner s" "host ?s' = host s" "conn ?s' = conn s" "subs_of ?s' = subs_of s" "target ?s' = target s"
    by (simp_all add: owner_def host_def conn_def subs_of_def target_def fun_eq_iff)
  show ?thesis
  proof (rule baseI; (unfold e)?)
    show "msg_inv ?s'" by (rule msg_inv_cong [OF b(1)]) simp_all
    show "indexes (g_hLusers ?s') c_name (g_chans ?s')" using indexes_upd [OF b(4) assms(2,3)] by simp
    show "map_option c_pipe (g_chans ?s' d) = Some p \<longleftrightarrow> target s p = Some (CHANNEL_PIPE, d)" for d p
      using b(9) [of d p] assms(2,4) by auto
  qed (use b assms(2,5) in \<open>auto split: if_splits\<close>)
qed

lemma base_user_upd:
  assumes "base s" and "g_users s u = Some U" and "u_sessid U' = u_sessid U" and "u_pipe U' = u_pipe U"
    and "u_subuser U' = u_subuser U" and "user_ok U'"
  shows "base (s\<lparr>g_users := (g_users s)(u \<mapsto> U')\<rparr>)" (is "base ?s'")
proof -
  note b = baseD [OF assms(1)]
  have e: "owner ?s' = owner s" "host ?s' = host s" "conn ?s' = conn s" "subs_of ?s' = subs_of s" "target ?s' = target s"
    using assms(2,5) by (simp_all add: owner_def host_def conn_def subs_of_def target_def fun_eq_iff)
  show ?thesis
  proof (rule baseI; (unfold e)?)
    show "msg_inv ?s'" by (rule msg_inv_cong [OF b(1)]) simp_all
    show "indexes (g_hSessid ?s') u_sessid (g_users ?s')" using indexes_upd [OF b(2) assms(2,3)] by simp
    show "map_option u_pipe (g_users ?s' d) = Some p \<longleftrightarrow> target s p = Some (USER_PIPE, d)" for d p
      using b(8) [of d p] assms(2,4) by auto
    show "set (g_uHead ?s') = dom (g_users ?s')" using b(11) assms(2) by auto
  qed (use b assms(2,6) in \<open>auto split: if_splits\<close>)
qed

section \<open>Descriptions and announcements\<close>

lemma user_json:
  assumes "base s" and "u \<in> dom (g_users s)"
  obtains j where "get_json_object_user (Some u) s = Some j" "json_container j"
proof -
  obtain U where U: "g_users s u = Some U" using assms(2) by auto
  obtain P where P: "g_pipes s (u_pipe U) = Some P" by (rule user_pipe [OF assms(1) U])
  have "extend_inv (u_properties U)" using baseD(12) [OF assms(1) U] by (simp add: user_ok_def)
  then have "json_wf (public_props (u_properties U) json_new_object)"
    by (intro json_container_wf public_props_container) simp_all
  then show thesis using that U P by (simp add: get_json_object_user_def Let_def)
qed

lemma channel_json:
  assumes "base s" and "c \<in> dom (g_chans s)"
  obtains j where "get_json_object_channel c s = Some j" "json_container j"
proof -
  obtain C where C: "g_chans s c = Some C" using assms(2) by auto
  obtain P where P: "g_pipes s (c_pipe C) = Some P" by (rule chan_pipe [OF assms(1) C])
  have "extend_inv (c_properties C)" using baseD(14) [OF assms(1) C] by (simp add: chan_ok_def)
  then have "json_wf (public_props (c_properties C) (json_set_property_strZ json_new_object (Some ''name'') (c_name C)))"
    by (intro json_container_wf public_props_container) simp_all
  then show thesis using that C P by (simp add: get_json_object_channel_def Let_def)
qed

text \<open>A connection belongs to one user, so that a message posted to distinct users reaches each of
  their connections once.\<close>

lemma count_distinct: "distinct xs \<Longrightarrow> count_list xs x = (if x \<in> set xs then 1 else 0)"
  by (induction xs) auto

lemma count_subs:
  assumes "base s" and "distinct us"
  shows "count_list (concat (map (subs_of s) us)) b = (if owner s b \<in> Some ` set us then 1 else 0)"
  using assms(2)
proof (induction us)
  case (Cons u us)
  have "count_list (subs_of s u) b = (if owner s b = Some u then 1 else 0)"
    using count_distinct [OF baseD(5) [OF assms(1), of u], of b] baseD(7) [OF assms(1), of b u] by simp
  then show ?case using Cons by auto
qed simp

lemma announce:
  assumes q: "quiet E" and b: "base s" and j: "json_wf j" and us: "set us \<subseteq> dom (g_users s)" and d: "distinct us"
  obtains r s1 s' where "forge_raw n j s = Some (r, s1)" "posted s s1" "forM us (post_raw E r) s1 = Some s'"
    "posted s s'" "base s'" "\<And>b. lowq s' b = lowq s b @ (if owner s b \<in> Some ` set us then [r] else [])"
    "highq s' = highq s"
proof -
  obtain r s1 x where f: "forge_raw n j s = Some (r, s1)" "msg_inv s1" "posted s s1" "shared s1 r"
    "g_subs s1 = g_subs s" "\<not> raw_hi s1 r"
    by (rule forge_raw_spec [OF baseD(1) [OF b] j]) (rule that; assumption)
  have b1: "base s1" by (rule base_posted [OF b f(3,2)])
  have r1: "reachable s1 u" if "u \<in> set us" for u
    using base_reachable [OF b1] us that posted_frame(1) [OF f(3)] by (metis subset_iff)
  obtain s' where p: "forM us (post_raw E r) s1 = Some s'" "msg_inv s'" "posted s1 s'"
    "\<And>c. lowq s' c = lowq s1 c @ (if raw_hi s1 r then [] else replicate (count_list (concat (map (subs_of s1) us)) c) r)"
    "\<And>c. highq s' c = highq s1 c @ (if raw_hi s1 r then replicate (count_list (concat (map (subs_of s1) us)) c) r else [])"
    by (rule post_users_spec [OF q f(2,4)], erule r1) (rule that; assumption)
  have q1: "lowq s1 c = lowq s c" "highq s1 c = highq s c" for c using f(5) by (simp_all add: lowq_def highq_def)
  have l: "lowq s' c = lowq s c @ (if owner s c \<in> Some ` set us then [r] else [])" for c
    using p(4) [of c] f(6) q1(1) count_subs [OF b d, of c] posted_sub(3) [OF f(3)] by simp
  have h: "highq s' = highq s" using p(5) f(6) q1(2) by (auto simp: fun_eq_iff)
  show thesis
    by (rule that [OF f(1,3) p(1) posted_trans [OF f(3) p(3)] base_posted [OF b1 p(3,2)] l h])
qed

lemma post_raw_channel_eq:
  "c \<in> dom (g_chans s) \<Longrightarrow> post_raw_channel E r c s = forM (members s c) (post_raw E r) s"
  by (auto simp: post_raw_channel_def members_def forM_map)

lemma post_raw_channel_restricted_eq:
  "c \<in> dom (g_chans s) \<Longrightarrow>
    post_raw_channel_restricted E r c ru s = forM (filter (\<lambda>u. Some u \<noteq> ru) (members s c)) (post_raw E r) s"
  by (auto simp: post_raw_channel_restricted_def members_def filter_map comp_def forM_map forM_filter)

lemma announce_user:
  assumes "quiet E" and "base s" and "json_wf j" and "u \<in> dom (g_users s)"
  obtains r s1 s' where "forge_raw n j s = Some (r, s1)" "posted s s1" "post_raw E r u s1 = Some s'"
    "posted s s'" "base s'" "\<And>b. lowq s' b = lowq s b @ (if owner s b = Some u then [r] else [])" "highq s' = highq s"
proof -
  have us: "set [u] \<subseteq> dom (g_users s)" "distinct [u]" using assms(4) by simp_all
  obtain r s1 s' where a: "forge_raw n j s = Some (r, s1)" "posted s s1" "forM [u] (post_raw E r) s1 = Some s'"
    "posted s s'" "base s'" "\<And>b. lowq s' b = lowq s b @ (if owner s b \<in> Some ` set [u] then [r] else [])"
    "highq s' = highq s"
    by (rule announce [OF assms(1-3) us]) (rule that; assumption)
  have "post_raw E r u s1 = Some s'" using a(3) by (cases "post_raw E r u s1") simp_all
  moreover have "\<And>b. lowq s' b = lowq s b @ (if owner s b = Some u then [r] else [])" using a(6) by simp
  ultimately show thesis by (rule that [OF a(1,2) _ a(4,5) _ a(7)])
qed

section \<open>Pipes come and go with their objects\<close>

definition new_pipe :: "nat \<Rightarrow> pipe_type \<Rightarrow> string \<Rightarrow> transpipe" where
  "new_pipe obj ty k =
     \<lparr>p_pipe = obj, p_link = [], p_properties = [], p_on_send = None, p_type = ty, p_pubid = k\<rparr>"

lemma new_pipe_sel [simp]:
  "p_pipe (new_pipe obj ty k) = obj" "p_link (new_pipe obj ty k) = []" "p_type (new_pipe obj ty k) = ty"
  "p_pubid (new_pipe obj ty k) = k" "p_properties (new_pipe obj ty k) = []" 
  "length k = 32 \<Longrightarrow> ty \<noteq> PROXY_PIPE \<Longrightarrow> pipe_ok (new_pipe obj ty k)"
  by (simp_all add: new_pipe_def pipe_ok_def)

lemma id_free_seek:
  assumes "id_free k s" and "length k = 32"
  shows "hashtbl_seek (g_hPubid s) (Some k) = Some None" "hashtbl_seek (g_hSessid s) (Some k) = Some None"
  using assms by (simp_all add: id_free_def get_pipe_def seek_user_id_def)

lemma init_pipe_spec:
  assumes i: "indexes (g_hPubid s) p_pubid (g_pipes s)" and fresh: "g_pipes s (g_next s) = None"
    and g: "gen_sessid_new (e_rand E) s (g_rpos s) = Some (k, pos)"
  obtains h where "init_pipe E obj ty s = Some (g_next s, s\<lparr>g_rpos := pos,
      g_pipes := (g_pipes s)(g_next s \<mapsto> new_pipe obj ty k), g_hPubid := h, g_next := Suc (g_next s)\<rparr>)"
    "indexes h p_pubid ((g_pipes s)(g_next s \<mapsto> new_pipe obj ty k))" "length k = 32"
proof -
  note k = gen_sessid_new_spec(1,2) [OF g]
  have f: "hashtbl_seek (g_hPubid s) (Some (p_pubid (new_pipe obj ty k))) = Some None"
    using id_free_seek(1) [OF k] by simp
  obtain h where h: "hashtbl_append (g_hPubid s) (Some (p_pubid (new_pipe obj ty k))) (g_next s) = Some h"
    "indexes h p_pubid ((g_pipes s)(g_next s \<mapsto> new_pipe obj ty k))"
    by (rule indexes_insert [OF i f fresh])
  then show thesis using that k(2) g by (simp add: init_pipe_def new_pipe_def Let_def)
qed

lemma destroy_pipe_spec:
  assumes i: "indexes (g_hPubid s) p_pubid (g_pipes s)" and p: "g_pipes s p = Some P" and l: "p_link P = []"
  obtains h where "destroy_pipe E p s = Some (s\<lparr>g_pipes := (g_pipes s)(p := None), g_hPubid := h\<rparr>)"
    "indexes h p_pubid ((g_pipes s)(p := None))"
proof -
  obtain h where h: "hashtbl_erase (g_hPubid s) (Some (p_pubid P)) = Some h" "indexes h p_pubid ((g_pipes s)(p := None))"
    by (rule indexes_erase [OF i p])
  have e: "P\<lparr>p_link := []\<rparr> = P" using l by simp
  have "unlink_all_pipe E p s = Some (s\<lparr>g_pipes := (g_pipes s)(p \<mapsto> P)\<rparr>)"
    using p l by (simp add: unlink_all_pipe_def upd_pipe_def e)
  then have "destroy_pipe E p s = Some (s\<lparr>g_pipes := (g_pipes s)(p := None), g_hPubid := h\<rparr>)"
    using h(1) p by (simp add: destroy_pipe_def)
  then show thesis using that h(2) by blast
qed

lemma base_add_chan:
  assumes b: "base s" and C: "chan_ok C" "c_pipe C = p" "length k = 32"
    and c: "g_chans s c = None" "c < n" and p: "g_pipes s p = None" "p < n" and n: "g_next s \<le> n"
    and h: "indexes h1 p_pubid ((g_pipes s)(p \<mapsto> new_pipe c CHANNEL_PIPE k))" "indexes h2 c_name ((g_chans s)(c \<mapsto> C))"
  shows "base (s\<lparr>g_rpos := pos, g_pipes := (g_pipes s)(p \<mapsto> new_pipe c CHANNEL_PIPE k), g_hPubid := h1,
      g_hLusers := h2, g_chans := (g_chans s)(c \<mapsto> C), g_next := n\<rparr>)" (is "base ?s'")
proof -
  note B = baseD [OF b]
  have e: "owner ?s' = owner s" "host ?s' = host s" "conn ?s' = conn s" "subs_of ?s' = subs_of s"
    "target ?s' = (target s)(p \<mapsto> (CHANNEL_PIPE, c))"
    by (simp_all add: owner_def host_def conn_def subs_of_def target_def fun_eq_iff)
  have tp: "target s p = None" using p by (simp add: target_def)
  show ?thesis
  proof (rule baseI; (unfold e)?)
    show "msg_inv ?s'" by (rule msg_inv_cong [OF B(1)]) (use n in simp_all)
    show "map_option u_pipe (g_users ?s' u) = Some q \<longleftrightarrow> ((target s)(p \<mapsto> (CHANNEL_PIPE, c))) q = Some (USER_PIPE, u)" for u q
      using B(8) [of u q] tp by auto
    show "map_option c_pipe (g_chans ?s' d) = Some q \<longleftrightarrow> ((target s)(p \<mapsto> (CHANNEL_PIPE, c))) q = Some (CHANNEL_PIPE, d)" for d q
      using B(9) [of d q] B(9) [of c q] B(9) [of d p] tp C(2) c by auto
    show "u < g_next ?s'" if "g_users ?s' u = Some U" for u U using B(13) [of u U] that n by simp
    show "d < g_next ?s'" if "g_chans ?s' d = Some D" for d D using B(15) [of d D] that n c by (auto split: if_splits)
    show "q < g_next ?s'" if "g_pipes ?s' q = Some Q" for q Q using B(17) [of q Q] that n p by (auto split: if_splits)
  qed (use B(2,5-7,10-12,14,16,18,19) h C in \<open>auto split: if_splits\<close>)
qed

lemma base_del_chan:
  assumes b: "base s" and C: "g_chans s c = Some C"
    and h: "indexes h1 p_pubid ((g_pipes s)(c_pipe C := None))" "indexes h2 c_name ((g_chans s)(c := None))"
  shows "base (s\<lparr>g_pipes := (g_pipes s)(c_pipe C := None), g_hPubid := h1,
      g_hLusers := h2, g_chans := (g_chans s)(c := None)\<rparr>)" (is "base ?s'")
proof -
  note B = baseD [OF b]
  have e: "owner ?s' = owner s" "host ?s' = host s" "conn ?s' = conn s" "subs_of ?s' = subs_of s"
    "target ?s' = (target s)(c_pipe C := None)"
    by (simp_all add: owner_def host_def conn_def subs_of_def target_def fun_eq_iff)
  have tp: "target s (c_pipe C) = Some (CHANNEL_PIPE, c)" using B(9) [of c "c_pipe C"] C by simp
  show ?thesis
  proof (rule baseI; (unfold e)?)
    show "msg_inv ?s'" by (rule msg_inv_cong [OF B(1)]) simp_all
    show "map_option u_pipe (g_users ?s' u) = Some q \<longleftrightarrow> ((target s)(c_pipe C := None)) q = Some (USER_PIPE, u)" for u q
      using B(8) [of u q] tp by auto
    show "map_option c_pipe (g_chans ?s' d) = Some q \<longleftrightarrow> ((target s)(c_pipe C := None)) q = Some (CHANNEL_PIPE, d)" for d q
      using B(9) [of d q] tp C by auto
  qed (use B(2,5-7,10-19) h in \<open>auto split: if_splits\<close>)
qed

end
