(* ===== verification/Ape_Channel.thy ===== *)
theory Ape_Channel
  imports Ape_World
begin

text \<open>
  Channels of \<open>src/channel.c\<close>: creation and removal, joining and leaving with the messages that
  announce them, operator levels, and bans by IP address.

  A member node is identified by its user. The loops of \<open>rmchan\<close>, \<open>left_all\<close> and \<open>ban\<close> free nodes of the
  list they walk over; they are modelled by \<open>walk\<close>, which reads the next node where the code reads it.
  \<open>left\<close> calls \<open>rmchan\<close> only when the last member has gone, so that the loop of \<open>rmchan\<close> over the members is
  not entered there: \<open>rmchan_empty\<close> is the rest of \<open>rmchan\<close>.
\<close>

section \<open>Names\<close>

definition isalnum :: "char \<Rightarrow> bool" where
  "isalnum c \<longleftrightarrow> (let n = (of_char c :: nat) in 48 \<le> n \<and> n \<le> 57 \<or> 65 \<le> n \<and> n \<le> 90 \<or> 97 \<le> n \<and> n \<le> 122)"

definition ispunct :: "char \<Rightarrow> bool" where
  "ispunct c \<longleftrightarrow> (let n = (of_char c :: nat) in 33 \<le> n \<and> n \<le> 126) \<and> \<not> isalnum c"

text \<open>The loop of \<open>isvalidchan\<close>: it stores the lower-case letters back into the name as it goes.\<close>

fun isvalidchan_loop :: "string \<Rightarrow> bool \<times> string" where
  "isvalidchan_loop [] = (True, [])"
| "isvalidchan_loop (c # cs) =
     (let c' = tolower c in
      if c' = CHR ''_'' \<or> c' = CHR ''|'' \<or> c' = CHR '':'' \<or> c' = CHR ''.'' then apsnd ((#) c') (isvalidchan_loop cs)
      else if \<not> isalnum c' \<or> ispunct c' then (False, c' # cs)
      else apsnd ((#) c') (isvalidchan_loop cs))"

definition isvalidchan :: "string \<Rightarrow> bool \<times> string" where
  "isvalidchan name =
     (if length name > MAX_CHAN_LEN then (False, name)
      else case name of
        c # cs \<Rightarrow> if c = CHR ''*'' then apsnd ((#) c) (isvalidchan_loop cs) else isvalidchan_loop name
      | [] \<Rightarrow> (True, []))"

section \<open>Creation\<close>

definition mkchan :: "env \<Rightarrow> string \<Rightarrow> u32 \<Rightarrow> acetables \<Rightarrow> (nat option \<times> acetables) option" where
  "mkchan E chan flags =
     FIRE_EVENT EV_mkchan (e_mkchan E) (\<lambda>cb. cb chan flags) (\<lambda>s.
       let (valid, chan) = isvalidchan chan in
       if \<not> valid then Some (None, s)
       else do {
         let new_chan = g_next s;
         (p, s) \<leftarrow> init_pipe E new_chan CHANNEL_PIPE (s\<lparr>g_next := Suc new_chan\<rparr>);
         h \<leftarrow> hashtbl_append (g_hLusers s) (Some chan) new_chan;
         let c = \<lparr>c_pipe = p, c_head = [], c_banned = [], c_properties = [],
                  c_flags = flags OR (if take 1 chan = ''*'' then CHANNEL_NONINTERACTIVE else 0), c_name = chan\<rparr>;
         Some (Some new_chan, s\<lparr>g_hLusers := h, g_chans := (g_chans s)(new_chan \<mapsto> c)\<rparr>) })"

definition getchan :: "string \<Rightarrow> acetables \<Rightarrow> nat option option" where
  "getchan chan s = (if length chan > MAX_CHAN_LEN then Some None else hashtbl_seek (g_hLusers s) (Some chan))"

section \<open>Bans\<close>

definition rmallban :: "nat \<Rightarrow> acetables \<Rightarrow> acetables option" where
  "rmallban chan = upd_chan chan (\<lambda>c. c\<lparr>c_banned := []\<rparr>)"

fun getban_loop :: "int \<Rightarrow> string \<Rightarrow> BANNED list \<Rightarrow> BANNED option \<times> BANNED list" where
  "getban_loop now ip [] = (None, [])"
| "getban_loop now ip (b # bs) =
     (if ban_expire b < now then getban_loop now ip bs
      else if ban_ip b = ip then (Some b, b # bs)
      else apsnd ((#) b) (getban_loop now ip bs))"

definition getban :: "nat \<Rightarrow> string \<Rightarrow> acetables \<Rightarrow> (BANNED option \<times> acetables) option" where
  "getban chan ip s = do {
     c \<leftarrow> g_chans s chan;
     let (r, bs) = getban_loop (g_now s) ip (c_banned c);
     s \<leftarrow> upd_chan chan (\<lambda>c. c\<lparr>c_banned := bs\<rparr>) s;
     Some (r, s) }"

definition rmban :: "nat \<Rightarrow> string \<Rightarrow> acetables \<Rightarrow> acetables option" where
  "rmban chan ip s =
     upd_chan chan (\<lambda>c. c\<lparr>c_banned := filter (\<lambda>b. \<not> (ban_expire b < g_now s \<or> ban_ip b = ip)) (c_banned c)\<rparr>) s"

section \<open>Members\<close>

text \<open>The list of members in \<open>join\<close> and \<open>subuser_restor\<close>.\<close>

fun user_list_loop :: "userslist list \<Rightarrow> json_item \<Rightarrow> acetables \<Rightarrow> json_item option" where
  "user_list_loop [] user_list s = Some user_list"
| "user_list_loop (l # ulist) user_list s = do {
     juser \<leftarrow> get_json_object_user (Some (ul_userinfo l)) s;
     user_list_loop ulist
       (json_set_element_obj user_list (json_set_property_intN juser (Some ''level'') 5 (int (ul_level l)))) s }"

definition user_on_pipe :: "nat \<Rightarrow> nat \<Rightarrow> acetables \<Rightarrow> json_item option" where
  "user_on_pipe user chan s = do {
     ju \<leftarrow> get_json_object_user (Some user) s;
     jc \<leftarrow> get_json_object_channel chan s;
     Some (json_set_property_objN (json_set_property_objN json_new_object (Some ''user'') 4 ju) (Some ''pipe'') 4 jc) }"

definition join :: "env \<Rightarrow> nat \<Rightarrow> nat \<Rightarrow> acetables \<Rightarrow> acetables option" where
  "join E user chan =
     FIRE_EVENT_NULL EV_join (e_join E) (\<lambda>cb. cb user chan) (\<lambda>s. do {
       on \<leftarrow> isonchannel (Some user) (Some chan) s;
       if on then Some s
       else do {
         s \<leftarrow> upd_chan chan (\<lambda>c. c\<lparr>c_head := \<lparr>ul_userinfo = user, ul_level = 1\<rparr> # c_head c\<rparr>) s;
         s \<leftarrow> upd_user user (\<lambda>u. u\<lparr>u_chan_foot := chan # u_chan_foot u\<rparr>) s;
         c \<leftarrow> g_chans s chan;
         (jlist, s) \<leftarrow>
           (if c_flags c AND CHANNEL_NONINTERACTIVE = 0 then do {
              s \<leftarrow> (if tl (c_head c) \<noteq> [] then do {
                      uinfo \<leftarrow> user_on_pipe user chan s;
                      (newraw, s) \<leftarrow> forge_raw RAW_JOIN uinfo s;
                      post_raw_channel_restricted E newraw chan (Some user) s }
                    else Some s);
              c \<leftarrow> g_chans s chan;
              user_list \<leftarrow> user_list_loop (c_head c) json_new_array s;
              Some (json_set_property_objN json_new_object (Some ''users'') 5 user_list, s) }
            else Some (json_new_object, s));
         jc \<leftarrow> get_json_object_channel chan s;
         (newraw, s) \<leftarrow> forge_raw RAW_CHANNEL (json_set_property_objN jlist (Some ''pipe'') 4 jc) s;
         post_raw E newraw user s } })"

definition rmchan_empty :: "env \<Rightarrow> nat \<Rightarrow> acetables \<Rightarrow> acetables option" where
  "rmchan_empty E chan =
     FIRE_EVENT_NULL EV_rmchan (e_rmchan E) (\<lambda>cb. cb chan) (\<lambda>s. do {
       s \<leftarrow> rmallban chan s;
       c \<leftarrow> g_chans s chan;
       h \<leftarrow> hashtbl_erase (g_hLusers s) (Some (c_name c));
       s \<leftarrow> upd_chan chan (\<lambda>c. c\<lparr>c_properties := clear_properties (c_properties c)\<rparr>) (s\<lparr>g_hLusers := h\<rparr>);
       s \<leftarrow> destroy_pipe E (c_pipe c) s;
       Some (s\<lparr>g_chans := (g_chans s)(chan := None)\<rparr>) })"

fun remove_user :: "nat \<Rightarrow> userslist list \<Rightarrow> userslist list" where
  "remove_user u [] = []"
| "remove_user u (l # ls) = (if ul_userinfo l = u then ls else l # remove_user u ls)"

definition left :: "env \<Rightarrow> nat \<Rightarrow> nat \<Rightarrow> acetables \<Rightarrow> acetables option" where
  "left E user chan =
     FIRE_EVENT_NULL EV_left (e_left E) (\<lambda>cb. cb user chan) (\<lambda>s. do {
       on \<leftarrow> isonchannel (Some user) (Some chan) s;
       if \<not> on then Some s
       else do {
         c \<leftarrow> g_chans s chan;
         s \<leftarrow> upd_user user (\<lambda>u. u\<lparr>u_chan_foot := remove1 chan (u_chan_foot u)\<rparr>) s;
         if user \<notin> ul_userinfo ` set (c_head c) then Some s
         else do {
           jlist \<leftarrow> user_on_pipe user chan s;
           (newraw, s) \<leftarrow> forge_raw RAW_LEFT jlist s;
           s \<leftarrow> post_raw E newraw user s;
           s \<leftarrow> upd_chan chan (\<lambda>c. c\<lparr>c_head := remove_user user (c_head c)\<rparr>) s;
           c \<leftarrow> g_chans s chan;
           if c_head c \<noteq> [] \<and> c_flags c AND CHANNEL_NONINTERACTIVE = 0 then do {
             jlist \<leftarrow> user_on_pipe user chan s;
             (newraw, s) \<leftarrow> forge_raw RAW_LEFT jlist s;
             post_raw_channel E newraw chan s }
           else if c_head c = [] \<and> c_flags c AND CHANNEL_AUTODESTROY \<noteq> 0 then rmchan_empty E chan s
           else Some s } } })"

text \<open>\<open>head->next\<close> of the node of a member.\<close>

definition member_next :: "nat \<Rightarrow> nat \<Rightarrow> acetables \<Rightarrow> nat option option" where
  "member_next chan u s = do { c \<leftarrow> g_chans s chan; next_of u (map ul_userinfo (c_head c)) }"

definition rmchan :: "env \<Rightarrow> nat \<Rightarrow> acetables \<Rightarrow> acetables option" where
  "rmchan E chan s = do {
     c \<leftarrow> g_chans s chan;
     s \<leftarrow> (if c_head c \<noteq> [] then do {
             s \<leftarrow> upd_chan chan
                    (\<lambda>c. c\<lparr>c_flags := (c_flags c OR CHANNEL_NONINTERACTIVE) AND NOT CHANNEL_AUTODESTROY\<rparr>) s;
             walk (\<lambda>u s. do { thead \<leftarrow> member_next chan u s; s \<leftarrow> left E u chan s; Some (thead, s) })
               (hd_opt (map ul_userinfo (c_head c))) s }
           else Some s);
     rmchan_empty E chan s }"

definition left_all :: "env \<Rightarrow> nat option \<Rightarrow> acetables \<Rightarrow> acetables option" where
  "left_all E user s =
     (case user of
        None \<Rightarrow> Some s
      | Some u \<Rightarrow> do {
          x \<leftarrow> g_users s u;
          walk (\<lambda>c s. do {
              x \<leftarrow> g_users s u;
              tList \<leftarrow> next_of c (u_chan_foot x);
              s \<leftarrow> left E u c s;
              Some (tList, s) })
            (hd_opt (u_chan_foot x)) s })"

section \<open>Levels\<close>

definition getlist :: "string \<Rightarrow> acetables \<Rightarrow> userslist list option" where
  "getlist chan s =
     (if length chan > MAX_CHAN_LEN then Some []
      else do {
        lchan \<leftarrow> hashtbl_seek (g_hLusers s) (Some chan);
        case lchan of None \<Rightarrow> Some [] | Some c \<Rightarrow> map_option c_head (g_chans s c) })"

definition getuchan :: "nat option \<Rightarrow> nat option \<Rightarrow> acetables \<Rightarrow> userslist option option" where
  "getuchan user chan s =
     (case (user, chan) of
        (Some u, Some c) \<Rightarrow> map_option (\<lambda>x. find (\<lambda>l. ul_userinfo l = u) (c_head x)) (g_chans s c)
      | _ \<Rightarrow> Some None)"

fun store_level :: "nat \<Rightarrow> nat \<Rightarrow> userslist list \<Rightarrow> userslist list" where
  "store_level u lvl [] = []"
| "store_level u lvl (l # ls) = (if ul_userinfo l = u then l\<lparr>ul_level := lvl\<rparr> # ls else l # store_level u lvl ls)"

definition announce_level ::
  "env \<Rightarrow> nat option \<Rightarrow> nat option \<Rightarrow> nat \<Rightarrow> nat \<Rightarrow> acetables \<Rightarrow> acetables option" where
  "announce_level E user_actif user_passif chan lvl s = do {
     c \<leftarrow> g_chans s chan;
     if c_flags c AND CHANNEL_NONINTERACTIVE = 0 then do {
       jp \<leftarrow> get_json_object_user user_passif s;
       ja \<leftarrow> get_json_object_user user_actif s;
       jc \<leftarrow> get_json_object_channel chan s;
       let jlist = json_set_property_objN json_new_object (Some ''ope'') 3 jp;
       let jlist = json_set_property_objN jlist (Some ''oper'') 4 ja;
       let jlist = json_set_property_objN jlist (Some ''pipe'') 4 jc;
       let jlist = json_set_property_intN jlist (Some ''level'') 5 (int lvl);
       (newraw, s) \<leftarrow> forge_raw RAW_SETLEVEL jlist s;
       post_raw_channel E newraw chan s }
     else Some s }"

definition setlevel ::
  "env \<Rightarrow> nat option \<Rightarrow> nat option \<Rightarrow> nat \<Rightarrow> nat \<Rightarrow> acetables \<Rightarrow> (bool \<times> acetables) option" where
  "setlevel E user_actif user_passif chan lvl s = do {
     passif \<leftarrow> getuchan user_passif (Some chan) s;
     case user_actif of
       Some a \<Rightarrow> do {
         actif \<leftarrow> getuchan (Some a) (Some chan) s;
         x \<leftarrow> g_users s a;
         (case (passif, actif) of
            (Some pl, Some al) \<Rightarrow>
              if ((ul_level al < lvl \<or> ul_level al < ul_level pl) \<and> u_flags x AND FLG_AUTOOP = 0) \<or> lvl < 1 \<or> lvl > 32
              then map_option (Pair False) (send_error E a ''SETLEVEL_ERROR'' ''110'' s)
              else do {
                s \<leftarrow> upd_chan chan (\<lambda>c. c\<lparr>c_head := store_level (ul_userinfo pl) lvl (c_head c)\<rparr>) s;
                map_option (Pair True) (announce_level E user_actif user_passif chan lvl s) }
          | _ \<Rightarrow> map_option (Pair False) (send_error E a ''SETLEVEL_ERROR'' ''110'' s)) }
     | None \<Rightarrow>
         (case passif of
            Some pl \<Rightarrow>
              if 0 < lvl \<and> lvl < 32 then do {
                s \<leftarrow> upd_chan chan (\<lambda>c. c\<lparr>c_head := store_level (ul_userinfo pl) lvl (c_head c)\<rparr>) s;
                map_option (Pair True) (announce_level E None user_passif chan lvl s) }
              else Some (False, s)
          | None \<Rightarrow> Some (False, s)) }"

section \<open>Banning\<close>

text \<open>\<open>expire * 60\<close> is computed in 32 bits.\<close>

definition ban_nextime :: "u32 \<Rightarrow> acetables \<Rightarrow> int" where
  "ban_nextime expire s = uint (expire * 60) + g_now s"

definition ban_step ::
  "env \<Rightarrow> nat \<Rightarrow> nat option \<Rightarrow> string \<Rightarrow> string \<Rightarrow> int \<Rightarrow> BANNED list \<Rightarrow> nat \<Rightarrow> bool \<times> acetables \<Rightarrow>
   (nat option \<times> bool \<times> acetables) option" where
  "ban_step E chan banner ip reason nextime bTmp u st = (case st of (isban, s) \<Rightarrow> do {
     x \<leftarrow> g_users s u;
     if ip = u_ip x then do {
       jb \<leftarrow> get_json_object_user banner s;
       jc \<leftarrow> get_json_object_channel chan s;
       let jlist = json_set_property_strZ json_new_object (Some ''reason'') reason;
       let jlist = json_set_property_objN jlist (Some ''banner'') 6 jb;
       let jlist = json_set_property_objN jlist (Some ''pipe'') 4 jc;
       (newraw, s) \<leftarrow> forge_raw RAW_BAN jlist s;
       s \<leftarrow> post_raw E newraw u s;
       s \<leftarrow> (if isban then Some s
             else upd_chan chan (\<lambda>c. c\<lparr>c_banned :=
                    \<lparr>ban_ip = take 16 ip, ban_reason = take 255 reason, ban_expire = nextime\<rparr> # bTmp\<rparr>) s);
       tUtmp \<leftarrow> member_next chan u s;
       s \<leftarrow> left E u chan s;
       Some (tUtmp, True, s) }
     else do { tUtmp \<leftarrow> member_next chan u s; Some (tUtmp, isban, s) } })"

definition ban ::
  "env \<Rightarrow> nat option \<Rightarrow> nat option \<Rightarrow> string \<Rightarrow> string \<Rightarrow> u32 \<Rightarrow> acetables \<Rightarrow> acetables option" where
  "ban E chan banner ip reason expire s =
     (case chan of
        None \<Rightarrow> Some s
      | Some ch \<Rightarrow> do {
          c \<leftarrow> g_chans s ch;
          (_, s) \<leftarrow> walk (ban_step E ch banner ip reason (ban_nextime expire s) (c_banned c))
                 (hd_opt (map ul_userinfo (c_head c))) (False, s);
          Some s })"

section \<open>What channel operations leave alone\<close>

text \<open>Beyond posting, a channel operation changes the channels, their pipes and tables, and the users'
  channel lists.\<close>

definition people :: "acetables \<Rightarrow> acetables \<Rightarrow> bool" where
  "people s s' \<longleftrightarrow>
     (g_detached s', g_now s', g_rpos s', g_uHead s', g_hSessid s', g_nConnected s', g_transports s', g_co s', g_sk s', g_fire s') =
     (g_detached s, g_now s, g_rpos s, g_uHead s, g_hSessid s, g_nConnected s, g_transports s, g_co s, g_sk s, g_fire s) \<and>
     g_next s \<le> g_next s' \<and>
     (\<forall>b. map_option sub_core (g_subs s' b) = map_option sub_core (g_subs s b)) \<and>
     (\<forall>r. g_raws s r \<noteq> None \<longrightarrow> map_option raw_core (g_raws s' r) = map_option raw_core (g_raws s r)) \<and>
     (\<forall>u. map_option (\<lambda>U. U\<lparr>u_chan_foot := []\<rparr>) (g_users s' u) = map_option (\<lambda>U. U\<lparr>u_chan_foot := []\<rparr>) (g_users s u))"

lemma people_posted: "posted s s' \<Longrightarrow> people s s'"
  using posted_frame [of s s'] by (simp add: people_def) (simp add: posted_def)

lemma people_refl [simp]: "people s s"
  by (simp add: people_posted)

lemma people_trans:
  assumes "people s s'" and "people s' s''"
  shows "people s s''"
proof -
  have "map_option raw_core (g_raws s'' r) = map_option raw_core (g_raws s r)" if r: "g_raws s r \<noteq> None" for r
  proof -
    have "map_option raw_core (g_raws s' r) = map_option raw_core (g_raws s r)" using assms(1) r unfolding people_def by blast
    moreover from this have "g_raws s' r \<noteq> None" using r by (metis map_option_is_None)
    ultimately show ?thesis using assms(2) unfolding people_def by metis
  qed
  then show ?thesis using assms unfolding people_def by simp
qed

lemma people_user:
  assumes "people s s'"
  shows "map_option (\<lambda>U. f (U\<lparr>u_chan_foot := []\<rparr>)) (g_users s' u) = map_option (\<lambda>U. f (U\<lparr>u_chan_foot := []\<rparr>)) (g_users s u)"
proof -
  have "map_option (\<lambda>U. U\<lparr>u_chan_foot := []\<rparr>) (g_users s' u) = map_option (\<lambda>U. U\<lparr>u_chan_foot := []\<rparr>) (g_users s u)"
    using assms unfolding people_def by blast
  from arg_cong [OF this, of "map_option f"] show ?thesis by (simp add: option.map_comp comp_def)
qed

lemma people_frame [ape_frame]:
  assumes "people s s'"
  shows "g_uHead s' = g_uHead s" "g_hSessid s' = g_hSessid s" "g_now s' = g_now s" "g_co s' = g_co s"
    "g_sk s' = g_sk s" "g_nConnected s' = g_nConnected s" "g_rpos s' = g_rpos s" "g_next s \<le> g_next s'"
    "g_transports s' = g_transports s" "g_fire s' = g_fire s"
    "map_option u_ip (g_users s' u) = map_option u_ip (g_users s u)"
    "map_option u_subuser (g_users s' u) = map_option u_subuser (g_users s u)"
    "map_option u_pipe (g_users s' u) = map_option u_pipe (g_users s u)"
    "map_option sub_core (g_subs s' b) = map_option sub_core (g_subs s b)"
  using assms people_user [OF assms, of u_ip u] people_user [OF assms, of u_subuser u] people_user [OF assms, of u_pipe u]
  by (simp_all add: people_def)

lemma dom_map_option_eq:
  assumes "\<And>x. map_option f (m x) = map_option f (n x)"
  shows "dom m = dom n"
proof (rule set_eqI)
  show "x \<in> dom m \<longleftrightarrow> x \<in> dom n" for x using assms [of x] by (cases "m x"; cases "n x") auto
qed

lemma people_dom:
  assumes "people s s'"
  shows "dom (g_users s') = dom (g_users s)" "dom (g_subs s') = dom (g_subs s)" "subs_of s' = subs_of s"
    "owner s' = owner s" "host s' = host s" "conn s' = conn s"
proof -
  show "dom (g_users s') = dom (g_users s)"
    by (rule dom_map_option_eq) (rule people_frame(11) [OF assms])
  show "dom (g_subs s') = dom (g_subs s)"
    by (rule dom_map_option_eq) (rule people_frame(14) [OF assms])
  show "subs_of s' = subs_of s"
  proof
    show "subs_of s' v = subs_of s v" for v
      using people_frame(12) [OF assms, of v] by (cases "g_users s v"; cases "g_users s' v") (simp_all add: subs_of_def)
  qed
  have c: "owner s' b = owner s b \<and> host s' b = host s b \<and> conn s' b = conn s b" for b
    by (rule sub_core_cong [OF people_frame(14) [OF assms]])
  then show "owner s' = owner s" "host s' = host s" "conn s' = conn s" by auto
qed

lemma lowq_cong: "g_subs s' = g_subs s \<Longrightarrow> lowq s' = lowq s" "g_subs s' = g_subs s \<Longrightarrow> highq s' = highq s"
  by (simp_all add: lowq_def highq_def fun_eq_iff)

section \<open>Removing an empty channel\<close>

lemma rmchan_empty_spec:
  assumes q: "quiet E" and b: "base s" and C: "g_chans s c = Some C"
  obtains s' where "rmchan_empty E c s = Some s'" "base s'" "g_chans s' = (g_chans s)(c := None)"
    "g_users s' = g_users s" "people s s'" "g_subs s' = g_subs s"
proof -
  let ?C = "C\<lparr>c_banned := [], c_properties := []\<rparr>"
  define s1 where "s1 = s\<lparr>g_chans := (g_chans s)(c \<mapsto> ?C)\<rparr>"
  have b1: "base s1" unfolding s1_def
    by (rule base_chan_upd [OF b C]) (use baseD(14) [OF b C] in \<open>simp_all add: chan_ok_def\<close>)
  have C1: "g_chans s1 c = Some ?C" by (simp add: s1_def)
  obtain h2 where h2: "hashtbl_erase (g_hLusers s) (Some (c_name C)) = Some h2" "indexes h2 c_name ((g_chans s)(c := None))"
    by (rule indexes_erase [OF baseD(4) [OF b] C])
  obtain P where P: "g_pipes s (c_pipe C) = Some P" by (rule chan_pipe [OF b C])
  have l: "p_link P = []" using baseD(16) [OF b P] by (simp add: pipe_ok_def)
  let ?t = "s\<lparr>g_hLusers := h2, g_chans := (g_chans s)(c \<mapsto> ?C)\<rparr>"
  have i: "indexes (g_hPubid ?t) p_pubid (g_pipes ?t)" using baseD(3) [OF b] by simp
  have Pt: "g_pipes ?t (c_pipe C) = Some P" using P by simp
  obtain h1 where h1: "destroy_pipe E (c_pipe C) ?t = Some (?t\<lparr>g_pipes := (g_pipes ?t)(c_pipe C := None), g_hPubid := h1\<rparr>)"
    "indexes h1 p_pubid ((g_pipes ?t)(c_pipe C := None))"
    by (rule destroy_pipe_spec [OF i Pt l])
  define s' where "s' = s1\<lparr>g_pipes := (g_pipes s1)(c_pipe ?C := None), g_hPubid := h1, g_hLusers := h2,
      g_chans := (g_chans s1)(c := None)\<rparr>"
  have "rmchan_empty E c s = Some s'"
    using quietD(5) [OF q] C h1(1) h2(1)
    by (simp add: rmchan_empty_def rmallban_def upd_chan_def clear_properties_def s1_def s'_def)
  moreover have "base s'" unfolding s'_def
    by (rule base_del_chan [OF b1 C1]) (use h1(2) h2(2) in \<open>simp_all add: s1_def\<close>)
  ultimately show thesis
    by (rule that) (simp_all add: s'_def s1_def people_def)
qed

section \<open>Leaving\<close>

lemma user_on_pipe_json:
  assumes "base s" and "u \<in> dom (g_users s)" and "c \<in> dom (g_chans s)"
  obtains j where "user_on_pipe u c s = Some j" "json_container j"
proof -
  obtain ju where ju: "get_json_object_user (Some u) s = Some ju" "json_container ju" by (rule user_json [OF assms(1,2)])
  obtain jc where jc: "get_json_object_channel c s = Some jc" "json_container jc" by (rule channel_json [OF assms(1,3)])
  show thesis using that ju jc by (simp add: user_on_pipe_def json_container_wf)
qed

lemma remove_user_members: "map ul_userinfo (remove_user u ls) = remove1 u (map ul_userinfo ls)"
  by (induction ls) auto

lemma remove_user_subset: "set (remove_user u ls) \<subseteq> set ls"
  by (induction ls) auto

text \<open>The channel without the user: gone when it was the last member of a channel that destroys itself.\<close>

definition without :: "nat \<Rightarrow> CHANNEL \<Rightarrow> CHANNEL option" where
  "without u C =
     (let hd = remove_user u (c_head C) in
      if hd = [] \<and> c_flags C AND CHANNEL_AUTODESTROY \<noteq> 0 then None else Some (C\<lparr>c_head := hd\<rparr>))"

definition interactive :: "CHANNEL \<Rightarrow> bool" where
  "interactive C \<longleftrightarrow> c_flags C AND CHANNEL_NONINTERACTIVE = 0"

lemma left_links:
  assumes "linked s" and U: "g_users s u = Some U" and C: "g_chans s c = Some C"
    and "g_users s' = (g_users s)(u \<mapsto> U\<lparr>u_chan_foot := remove1 c (u_chan_foot U)\<rparr>)"
    and "g_chans s' = (g_chans s)(c := without u C)"
  shows "foot s' = (foot s)(u := remove1 c (foot s u))" "members s' = (members s)(c := remove1 u (members s c))" "linked s'"
proof -
  show f: "foot s' = (foot s)(u := remove1 c (foot s u))" using assms by (simp add: foot_def fun_eq_iff)
  have "(case without u C of None \<Rightarrow> [] | Some C \<Rightarrow> map ul_userinfo (c_head C)) = remove1 u (map ul_userinfo (c_head C))"
    unfolding remove_user_members [symmetric] by (simp add: without_def Let_def)
  then show m: "members s' = (members s)(c := remove1 u (members s c))" using assms by (simp add: members_def fun_eq_iff)
  show "linked s'" using linkedD [OF assms(1)] unfolding linked_def f m by auto
qed

lemma left_off:
  assumes "quiet E" and "g_users s u = Some U" and "c \<notin> set (u_chan_foot U)"
  shows "left E u c s = Some s"
  using assms quietD(7) [OF assms(1)] by (simp add: left_def isonchannel_def)

text \<open>What follows the removal of the member node.\<close>

definition left_rest :: "env \<Rightarrow> nat \<Rightarrow> nat \<Rightarrow> CHANNEL \<Rightarrow> acetables \<Rightarrow> acetables option" where
  "left_rest E u c C s =
     (if c_head C \<noteq> [] \<and> c_flags C AND CHANNEL_NONINTERACTIVE = 0 then do {
        jlist \<leftarrow> user_on_pipe u c s;
        (newraw, s) \<leftarrow> forge_raw RAW_LEFT jlist s;
        post_raw_channel E newraw c s }
      else if c_head C = [] \<and> c_flags C AND CHANNEL_AUTODESTROY \<noteq> 0 then rmchan_empty E c s
      else Some s)"

lemma left_detach:
  assumes q: "quiet E" and w: "world s" and U: "g_users s u = Some U" and c: "c \<in> set (u_chan_foot U)"
    and C: "g_chans s c = Some C"
  obtains s3 r1 where "left E u c s = left_rest E u c (C\<lparr>c_head := remove_user u (c_head C)\<rparr>) s3" "base s3" "people s s3"
    "g_users s3 = (g_users s)(u \<mapsto> U\<lparr>u_chan_foot := remove1 c (u_chan_foot U)\<rparr>)"
    "g_chans s3 = (g_chans s)(c \<mapsto> C\<lparr>c_head := remove_user u (c_head C)\<rparr>)"
    "\<And>b. lowq s3 b = lowq s b @ (if owner s b = Some u then [r1] else [])" "highq s3 = highq s"
proof -
  note b = worldD(1) [OF w] and l = worldD(2) [OF w]
  let ?U = "U\<lparr>u_chan_foot := remove1 c (u_chan_foot U)\<rparr>" and ?C = "C\<lparr>c_head := remove_user u (c_head C)\<rparr>"
  define s1 where "s1 = s\<lparr>g_users := (g_users s)(u \<mapsto> ?U)\<rparr>"
  have b1: "base s1" unfolding s1_def
    by (rule base_user_upd [OF b U]) (use baseD(12) [OF b U] in \<open>simp_all add: user_ok_def sessions_ok_def\<close>)
  have mem: "u \<in> ul_userinfo ` set (c_head C)" using linkedD(3) [OF l, of c u] c U C by (simp add: foot_def members_def)
  have d1: "u \<in> dom (g_users s1)" "c \<in> dom (g_chans s1)" using C by (auto simp: s1_def)
  have p1: "people s s1" using U by (simp add: people_def s1_def)
  have e1: "owner s1 = owner s" "lowq s1 = lowq s" "highq s1 = highq s"
    by (simp_all add: s1_def owner_def lowq_def highq_def fun_eq_iff)
  obtain j1 where j1: "user_on_pipe u c s1 = Some j1" "json_container j1" by (rule user_on_pipe_json [OF b1 d1])
  obtain r1 t1 s2 where a1: "forge_raw RAW_LEFT j1 s1 = Some (r1, t1)" "post_raw E r1 u t1 = Some s2" "posted s1 s2" "base s2"
    "\<And>b. lowq s2 b = lowq s1 b @ (if owner s1 b = Some u then [r1] else [])" "highq s2 = highq s1"
    by (rule announce_user [OF q b1 json_container_wf [OF j1(2)] d1(1)]) (rule that; assumption)
  have C2: "g_chans s2 c = Some C" "g_users s2 = g_users s1" "g_chans s2 = g_chans s"
    using posted_frame(1,2) [OF a1(3)] C by (simp_all add: s1_def)
  define s3 where "s3 = s2\<lparr>g_chans := (g_chans s2)(c \<mapsto> ?C)\<rparr>"
  have b3: "base s3" unfolding s3_def
    by (rule base_chan_upd [OF a1(4) C2(1)])
      (use baseD(14) [OF b C] remove_user_subset [of u "c_head C"] in \<open>auto simp: chan_ok_def\<close>)
  have p3: "people s s3" using people_trans [OF p1 people_posted [OF a1(3)]] by (simp add: people_def s3_def)
  have m3: "lowq s3 b = lowq s b @ (if owner s b = Some u then [r1] else [])" "highq s3 = highq s" for b
    using a1(5) [of b] a1(6) e1 lowq_cong [of s3 s2] by (simp_all add: s3_def)
  have run: "left E u c s = left_rest E u c ?C s3"
    using quietD(7) [OF q] U c C mem j1(1) a1(1,2) C2
    by (simp add: left_def left_rest_def isonchannel_def upd_user_def upd_chan_def s1_def [symmetric] s3_def)
  have U3: "g_users s3 = (g_users s)(u \<mapsto> ?U)" "g_chans s3 = (g_chans s)(c \<mapsto> ?C)" using C2 by (simp_all add: s3_def s1_def)
  show thesis by (rule that [OF run b3 p3 U3 m3])
qed

lemma left_announced:
  assumes q: "quiet E" and b: "base s" and l: "linked s" and u: "u \<in> dom (g_users s)" and C: "g_chans s c = Some C"
    and i: "c_head C \<noteq> []" "interactive C"
  obtains r s' where "left_rest E u c C s = Some s'" "base s'" "posted s s'"
    "\<And>b. lowq s' b = lowq s b @ (if owner s b \<in> Some ` set (members s c) then [r] else [])" "highq s' = highq s"
proof -
  have d: "c \<in> dom (g_chans s)" using C by auto
  obtain j where j: "user_on_pipe u c s = Some j" "json_container j" by (rule user_on_pipe_json [OF b u d])
  have us: "set (members s c) \<subseteq> dom (g_users s)" using members_live [OF l] by blast
  obtain r t s' where a: "forge_raw RAW_LEFT j s = Some (r, t)" "posted s t"
    "forM (members s c) (post_raw E r) t = Some s'" "posted s s'" "base s'"
    "\<And>b. lowq s' b = lowq s b @ (if owner s b \<in> Some ` set (members s c) then [r] else [])" "highq s' = highq s"
    by (rule announce [OF q b json_container_wf [OF j(2)] us linkedD(2) [OF l]]) (rule that; assumption)
  have "post_raw_channel E r c t = Some s'"
    using a(3) post_raw_channel_eq [of c t] posted_sub(6) [OF a(2)] posted_frame(2) [OF a(2)] d by simp
  then have "left_rest E u c C s = Some s'" using i j(1) a(1) by (simp add: left_rest_def interactive_def)
  then show thesis by (rule that) (rule a)+
qed

lemma left_spec:
  assumes q: "quiet E" and w: "world s" and U: "g_users s u = Some U" and c: "c \<in> set (u_chan_foot U)"
    and C: "g_chans s c = Some C"
  obtains s' r1 r2 where "left E u c s = Some s'" "world s'" "people s s'"
    "g_users s' = (g_users s)(u \<mapsto> U\<lparr>u_chan_foot := remove1 c (u_chan_foot U)\<rparr>)"
    "g_chans s' = (g_chans s)(c := without u C)"
    "\<And>b. lowq s' b = lowq s b @ (if owner s b = Some u then [r1] else []) @
       (if interactive C \<and> owner s b \<in> Some ` set (remove1 u (members s c)) then [r2] else [])"
    "highq s' = highq s"
proof -
  note l = worldD(2) [OF w]
  let ?C = "C\<lparr>c_head := remove_user u (c_head C)\<rparr>"
  obtain s3 r1 where 3: "left E u c s = left_rest E u c ?C s3" "base s3" "people s s3"
    "g_users s3 = (g_users s)(u \<mapsto> U\<lparr>u_chan_foot := remove1 c (u_chan_foot U)\<rparr>)"
    "g_chans s3 = (g_chans s)(c \<mapsto> ?C)"
    "\<And>b. lowq s3 b = lowq s b @ (if owner s b = Some u then [r1] else [])" "highq s3 = highq s"
    by (rule left_detach [OF q w U c C]) (rule that; assumption)
  have C3: "g_chans s3 c = Some ?C" and u3: "u \<in> dom (g_users s3)" by (simp_all add: 3(4,5))
  show thesis
  proof (cases "remove_user u (c_head C) = [] \<and> c_flags C AND CHANNEL_AUTODESTROY \<noteq> 0")
    case True
    then have wo: "without u C = None" and m: "remove1 u (members s c) = []"
      using C remove_user_members [of u "c_head C"] by (simp_all add: without_def Let_def members_def)
    obtain s4 where f: "rmchan_empty E c s3 = Some s4" "base s4" "g_chans s4 = (g_chans s3)(c := None)"
      "g_users s4 = g_users s3" "people s3 s4" "g_subs s4 = g_subs s3"
      by (rule rmchan_empty_spec [OF q 3(2) C3])
    have l4: "linked s4" by (rule left_links(3) [OF l U C]) (simp_all add: 3(4,5) wo f)
    show thesis
      by (rule that [of s4 r1 r1])
        (use True f l4 people_trans [OF 3(3) f(5)] 3 wo m lowq_cong [OF f(6)] in \<open>simp_all add: world_def left_rest_def\<close>)
  next
    case False
    then have wo: "without u C = Some ?C" by (auto simp: without_def Let_def)
    have l3: "linked s3" by (rule left_links(3) [OF l U C]) (simp_all add: 3(4,5) wo)
    have m3: "members s3 c = remove1 u (members s c)" using left_links(2) [OF l U C, of s3] by (simp add: 3(4,5) wo)
    show thesis
    proof (cases "remove_user u (c_head C) \<noteq> [] \<and> interactive C")
      case True
      then have i: "c_head ?C \<noteq> []" "interactive ?C" by (simp_all add: interactive_def)
      obtain r2 s4 where 4: "left_rest E u c ?C s3 = Some s4" "base s4" "posted s3 s4"
        "\<And>b. lowq s4 b = lowq s3 b @ (if owner s3 b \<in> Some ` set (members s3 c) then [r2] else [])" "highq s4 = highq s3"
        by (rule left_announced [OF q 3(2) l3 u3 C3 i]) (rule that; assumption)
      show thesis
        by (rule that [of s4 r1 r2])
          (use True 3 4 wo m3 linked_posted [OF l3 4(3)] people_trans [OF 3(3) people_posted [OF 4(3)]]
            posted_frame(1,2) [OF 4(3)] people_dom(4) [OF 3(3)] in \<open>simp_all add: world_def\<close>)
    next
      case F: False
      have "left_rest E u c ?C s3 = Some s3" using False F by (auto simp: left_rest_def interactive_def)
      moreover have "\<not> (interactive C \<and> owner s b \<in> Some ` set (remove1 u (members s c)))" for b
        using F C remove_user_members [of u "c_head C"] by (auto simp: members_def)
      ultimately show thesis by (intro that [of s3 r1 r1]) (use 3 wo l3 in \<open>simp_all add: world_def\<close>)
    qed
  qed
qed

section \<open>Joining\<close>

lemma user_list_json:
  assumes "base s" and "\<And>l. l \<in> set ls \<Longrightarrow> ul_userinfo l \<in> dom (g_users s) \<and> ul_level l \<le> 32" and "json_container ul"
  obtains j where "user_list_loop ls ul s = Some j" "json_container j"
proof -
  have "\<exists>j. user_list_loop ls ul s = Some j \<and> json_container j"
    using assms(2,3)
  proof (induction ls arbitrary: ul)
    case (Cons l ls)
    then have "ul_userinfo l \<in> dom (g_users s)" by simp
    then obtain j where j: "get_json_object_user (Some (ul_userinfo l)) s = Some j" "json_container j"
      using user_json [OF assms(1)] by blast
    have "ul_level l \<le> 32" using Cons.prems(1) by simp
    then have "LLONG_MIN < int (ul_level l)" "int (ul_level l) \<le> LLONG_MAX"
      by (simp_all add: LLONG_MIN_def LLONG_MAX_def)
    then have "json_container (json_set_element_obj ul (json_set_property_intN j (Some ''level'') 5 (int (ul_level l))))"
      using Cons.prems(2) j(2) by (simp add: json_container_wf)
    then show ?case using Cons.IH Cons.prems(1) j(1) by simp
  qed simp
  then show thesis using that by blast
qed

definition joined :: "nat \<Rightarrow> CHANNEL \<Rightarrow> CHANNEL" where
  "joined u C = C\<lparr>c_head := \<lparr>ul_userinfo = u, ul_level = 1\<rparr> # c_head C\<rparr>"

lemma join_world:
  assumes w: "world s" and U: "g_users s u = Some U" and c: "c \<notin> set (u_chan_foot U)" and C: "g_chans s c = Some C"
  defines "s1 \<equiv> s\<lparr>g_chans := (g_chans s)(c \<mapsto> joined u C), g_users := (g_users s)(u \<mapsto> U\<lparr>u_chan_foot := c # u_chan_foot U\<rparr>)\<rparr>"
  shows "world s1" "people s s1" "members s1 = (members s)(c := u # members s c)" "foot s1 = (foot s)(u := c # foot s u)"
    "owner s1 = owner s" "lowq s1 = lowq s" "highq s1 = highq s"
proof -
  note b = worldD(1) [OF w] and l = linkedD [OF worldD(2) [OF w]]
  have "base (s\<lparr>g_chans := (g_chans s)(c \<mapsto> joined u C)\<rparr>)"
    by (rule base_chan_upd [OF b C]) (use baseD(14) [OF b C] in \<open>simp_all add: joined_def chan_ok_def\<close>)
  then have b1: "base s1" unfolding s1_def
    by (rule base_user_upd [of "s\<lparr>g_chans := (g_chans s)(c \<mapsto> joined u C)\<rparr>" u U, simplified])
      (use U baseD(12) [OF b U] in \<open>simp_all add: user_ok_def sessions_ok_def\<close>)
  show m: "members s1 = (members s)(c := u # members s c)" and f: "foot s1 = (foot s)(u := c # foot s u)"
    using U C by (simp_all add: s1_def members_def foot_def joined_def fun_eq_iff)
  have n: "c \<notin> set (foot s u)" "u \<notin> set (members s c)" using c U l(3) [of c u] by (simp_all add: foot_def)
  then have "linked s1" using l unfolding linked_def m f by auto
  then show "world s1" using b1 by (simp add: world_def)
  show "people s s1" using U by (simp add: people_def s1_def)
  show "owner s1 = owner s" "lowq s1 = lowq s" "highq s1 = highq s"
    by (simp_all add: s1_def owner_def lowq_def highq_def fun_eq_iff)
qed

text \<open>The part of \<open>join\<close> for an interactive channel: the others are told, the members are listed.\<close>

definition join_list :: "env \<Rightarrow> nat \<Rightarrow> nat \<Rightarrow> CHANNEL \<Rightarrow> acetables \<Rightarrow> (json_item \<times> acetables) option" where
  "join_list E user chan c s =
     (if c_flags c AND CHANNEL_NONINTERACTIVE = 0 then do {
        s \<leftarrow> (if tl (c_head c) \<noteq> [] then do {
                uinfo \<leftarrow> user_on_pipe user chan s;
                (newraw, s) \<leftarrow> forge_raw RAW_JOIN uinfo s;
                post_raw_channel_restricted E newraw chan (Some user) s }
              else Some s);
        c \<leftarrow> g_chans s chan;
        user_list \<leftarrow> user_list_loop (c_head c) json_new_array s;
        Some (json_set_property_objN json_new_object (Some ''users'') 5 user_list, s) }
      else Some (json_new_object, s))"

lemma join_told:
  assumes q: "quiet E" and w: "world s" and u: "u \<in> dom (g_users s)" and C: "g_chans s c = Some C"
    and m: "members s c = u # us"
  obtains r s' where "(if tl (c_head C) \<noteq> [] then do {
                uinfo \<leftarrow> user_on_pipe u c s;
                (newraw, s) \<leftarrow> forge_raw RAW_JOIN uinfo s;
                post_raw_channel_restricted E newraw c (Some u) s }
              else Some s) = Some s'" "base s'" "posted s s'"
    "\<And>b. lowq s' b = lowq s b @ (if owner s b \<in> Some ` set us then [r] else [])" "highq s' = highq s"
proof (cases "tl (c_head C) \<noteq> []")
  case True
  note b = worldD(1) [OF w] and l = worldD(2) [OF w]
  have c: "c \<in> dom (g_chans s)" using C by auto
  have d: "distinct (u # us)" using linkedD(2) [OF l, of c] m by simp
  have f: "filter (\<lambda>v. Some v \<noteq> Some u) (members s c) = us"
    using d m by (auto simp: filter_id_conv)
  have us: "set us \<subseteq> dom (g_users s)" "distinct us" using members_live [OF l, of _ c] m d by auto
  obtain j where j: "user_on_pipe u c s = Some j" "json_container j" by (rule user_on_pipe_json [OF b u c])
  obtain r t s' where a: "forge_raw RAW_JOIN j s = Some (r, t)" "posted s t" "forM us (post_raw E r) t = Some s'"
    "posted s s'" "base s'" "\<And>b. lowq s' b = lowq s b @ (if owner s b \<in> Some ` set us then [r] else [])" "highq s' = highq s"
    by (rule announce [OF q b json_container_wf [OF j(2)] us]) (rule that; assumption)
  have "post_raw_channel_restricted E r c (Some u) t = Some s'"
    using a(3) f post_raw_channel_restricted_eq [of c t] posted_sub(6) [OF a(2)] posted_frame(2) [OF a(2)] c by simp
  then show thesis using True j(1) a by (intro that [of s' r]) simp_all
next
  case False
  then have "us = []" using m C by (cases "c_head C") (auto simp: members_def)
  then show thesis using False worldD(1) [OF w] by (intro that [of s 0]) simp_all
qed

lemma join_list_spec:
  assumes q: "quiet E" and w: "world s" and u: "u \<in> dom (g_users s)" and C: "g_chans s c = Some C"
    and m: "members s c = u # us"
  obtains j r s' where "join_list E u c C s = Some (j, s')" "json_container j" "base s'" "posted s s'"
    "\<And>b. lowq s' b = lowq s b @ (if interactive C \<and> owner s b \<in> Some ` set us then [r] else [])" "highq s' = highq s"
proof (cases "interactive C")
  case True
  obtain r s' where t: "(if tl (c_head C) \<noteq> [] then do {
                uinfo \<leftarrow> user_on_pipe u c s;
                (newraw, s) \<leftarrow> forge_raw RAW_JOIN uinfo s;
                post_raw_channel_restricted E newraw c (Some u) s }
              else Some s) = Some s'" "base s'" "posted s s'"
    "\<And>b. lowq s' b = lowq s b @ (if owner s b \<in> Some ` set us then [r] else [])" "highq s' = highq s"
    by (rule join_told [OF q w u C m]) (rule that; assumption)
  have C': "g_chans s' c = Some C" "g_users s' = g_users s" using posted_frame(1,2) [OF t(3)] C by simp_all
  have ls: "ul_userinfo l \<in> dom (g_users s') \<and> ul_level l \<le> 32" if "l \<in> set (c_head C)" for l
    using that members_live [OF worldD(2) [OF w], of "ul_userinfo l" c] C C'(2) baseD(14) [OF worldD(1) [OF w] C]
    by (auto simp: members_def chan_ok_def)
  obtain ul where ul: "user_list_loop (c_head C) json_new_array s' = Some ul" "json_container ul"
    by (rule user_list_json [OF t(2), of "c_head C" json_new_array], erule ls, simp) (rule that; assumption)
  show thesis
    by (rule that [of "json_set_property_objN json_new_object (Some ''users'') 5 ul" s' r])
      (use True t C' ul in \<open>simp_all add: join_list_def interactive_def json_container_wf\<close>)
next
  case False
  then show thesis using worldD(1) [OF w] by (intro that [of json_new_object s 0]) (simp_all add: join_list_def interactive_def)
qed

lemma join_spec:
  assumes q: "quiet E" and w: "world s" and U: "g_users s u = Some U" and c: "c \<notin> set (u_chan_foot U)"
    and C: "g_chans s c = Some C"
  obtains s' r1 r2 where "join E u c s = Some s'" "world s'" "people s s'"
    "g_users s' = (g_users s)(u \<mapsto> U\<lparr>u_chan_foot := c # u_chan_foot U\<rparr>)" "g_chans s' = (g_chans s)(c \<mapsto> joined u C)"
    "\<And>b. lowq s' b = lowq s b @ (if interactive C \<and> owner s b \<in> Some ` set (members s c) then [r1] else []) @
       (if owner s b = Some u then [r2] else [])"
    "highq s' = highq s" "g_pipes s' = g_pipes s"
proof -
  let ?U = "U\<lparr>u_chan_foot := c # u_chan_foot U\<rparr>"
  define s1 where "s1 = s\<lparr>g_chans := (g_chans s)(c \<mapsto> joined u C), g_users := (g_users s)(u \<mapsto> ?U)\<rparr>"
  note 1 = join_world [OF w U c C, folded s1_def]
  have u1: "u \<in> dom (g_users s1)" and C1: "g_chans s1 c = Some (joined u C)" and m1: "members s1 c = u # members s c"
    by (simp_all add: s1_def 1(3) [unfolded s1_def])
  obtain j r1 s2 where 2: "join_list E u c (joined u C) s1 = Some (j, s2)" "json_container j" "base s2" "posted s1 s2"
    "\<And>b. lowq s2 b = lowq s1 b @ (if interactive (joined u C) \<and> owner s1 b \<in> Some ` set (members s c) then [r1] else [])"
    "highq s2 = highq s1"
    by (rule join_list_spec [OF q 1(1) u1 C1 m1]) (rule that; assumption)
  have d2: "u \<in> dom (g_users s2)" "c \<in> dom (g_chans s2)" using posted_frame(1,2) [OF 2(4)] u1 C1 by auto
  obtain jc where jc: "get_json_object_channel c s2 = Some jc" "json_container jc" by (rule channel_json [OF 2(3) d2(2)])
  have jw: "json_wf (json_set_property_objN j (Some ''pipe'') 4 jc)" using 2(2) jc(2) by (simp add: json_container_wf)
  obtain r2 t s' where 3: "forge_raw RAW_CHANNEL (json_set_property_objN j (Some ''pipe'') 4 jc) s2 = Some (r2, t)"
    "post_raw E r2 u t = Some s'" "posted s2 s'" "base s'"
    "\<And>b. lowq s' b = lowq s2 b @ (if owner s2 b = Some u then [r2] else [])" "highq s' = highq s2"
    by (rule announce_user [OF q 2(3) jw d2(1)]) (rule that; assumption)
  have p: "posted s1 s'" by (rule posted_trans [OF 2(4) 3(3)])
  have "join E u c s = Some s'"
    using quietD(6) [OF q] U c C 2(1) jc(1) 3(1,2)
    by (simp add: join_def isonchannel_def upd_chan_def upd_user_def joined_def s1_def join_list_def [symmetric])
  then show thesis
  proof (rule that)
    show "world s'" using 3(4) linked_posted [OF worldD(2) [OF 1(1)] p] by (simp add: world_def)
    show "people s s'" by (rule people_trans [OF 1(2) people_posted [OF p]])
    show "g_users s' = (g_users s)(u \<mapsto> ?U)" "g_chans s' = (g_chans s)(c \<mapsto> joined u C)"
      using posted_frame(1,2) [OF p] by (simp_all add: s1_def)
    show "lowq s' b = lowq s b @ (if interactive C \<and> owner s b \<in> Some ` set (members s c) then [r1] else []) @
       (if owner s b = Some u then [r2] else [])" for b
      using 2(5) [of b] 3(5) [of b] 1(5,6) posted_sub(1) [OF 2(4)] by (simp add: interactive_def joined_def)
    show "highq s' = highq s" using 2(6) 3(6) 1(7) by simp
    show "g_pipes s' = g_pipes s" using posted_frame(3) [OF p] by (simp add: s1_def)
  qed
qed

section \<open>Leaving every channel, removing a channel\<close>

lemma left_all_spec:
  assumes q: "quiet E" and w: "world s" and u: "u \<in> dom (g_users s)"
  obtains s' where "left_all E (Some u) s = Some s'" "world s'" "people s s'" "foot s' = (foot s)(u := [])"
    "\<And>c. members s' c = remove1 u (members s c)"
proof -
  obtain U where U: "g_users s u = Some U" using u by auto
  let ?I = "\<lambda>vs t. world t \<and> people s t \<and> foot t = (foot s)(u := vs) \<and>
    (\<forall>c. members t c = (if c \<in> set vs then members s c else remove1 u (members s c)))"
  let ?body = "\<lambda>c s. do { x \<leftarrow> g_users s u; tList \<leftarrow> next_of c (u_chan_foot x); s \<leftarrow> left E u c s; Some (tList, s) }"
  have step: "\<exists>t'. ?body c t = Some (hd_opt vs, t') \<and> ?I vs t'" if "?I (c # vs) t" for c vs t
  proof -
    have wt: "world t" "people s t" "foot t = (foot s)(u := c # vs)"
      and m: "\<And>d. members t d = (if d \<in> set (c # vs) then members s d else remove1 u (members s d))" using that by blast+
    note l = worldD(2) [OF wt(1)]
    have "u \<in> dom (g_users t)" using people_dom(1) [OF wt(2)] u by simp
    then obtain V where V: "g_users t u = Some V" by auto
    have fv: "u_chan_foot V = c # vs" using wt(3) V by (simp add: foot_def fun_eq_iff split: option.splits)
    have "c \<in> dom (g_chans t)" by (rule foot_live [OF l, of c u]) (simp add: wt(3))
    then obtain C where C: "g_chans t c = Some C" by auto
    have cm: "c \<in> set (u_chan_foot V)" by (simp add: fv)
    obtain t' where t': "left E u c t = Some t'" "world t'" "people t t'"
      "g_users t' = (g_users t)(u \<mapsto> V\<lparr>u_chan_foot := remove1 c (u_chan_foot V)\<rparr>)" "g_chans t' = (g_chans t)(c := without u C)"
      by (rule left_spec [OF q wt(1) V cm C]) (rule that; assumption)
    note lk = left_links [OF l V C t'(4,5)]
    have "distinct (c # vs)" using linkedD(1) [OF l, of u] wt(3) by simp
    then have I: "?I vs t'"
      using t'(2) people_trans [OF wt(2) t'(3)] lk(1,2) wt(3) m by (auto simp: fun_eq_iff)
    have "next_of c (u_chan_foot V) = Some (hd_opt vs)" using next_of_mid [of c "[]" vs] by (simp add: fv)
    then show ?thesis using I V t'(1) by simp
  qed
  have "u \<notin> set (members s c)" if "c \<notin> set (u_chan_foot U)" for c
    using linkedD(3) [OF worldD(2) [OF w], of c u] U that by (simp add: foot_def)
  then have "?I (u_chan_foot U) s" using w U by (auto simp: foot_def fun_eq_iff remove1_idem)
  from walk_list [of ?I ?body, OF step this] obtain s' where s': "walk ?body (hd_opt (u_chan_foot U)) s = Some s'" "?I [] s'"
    by blast
  then have "left_all E (Some u) s = Some s'" using U by (simp add: left_all_def)
  then show thesis by (rule that) (use s'(2) in simp_all)
qed


lemma rmchan_flags [simp]:
  "(((f :: u32) OR CHANNEL_NONINTERACTIVE) AND NOT CHANNEL_AUTODESTROY) AND CHANNEL_AUTODESTROY = 0"
  by (simp add: and.assoc)

lemma without_keep: "c_flags C AND CHANNEL_AUTODESTROY = 0 \<Longrightarrow> without u C = Some (C\<lparr>c_head := remove_user u (c_head C)\<rparr>)"
  by (simp add: without_def Let_def)

lemma rmchan_loop:
  assumes q: "quiet E" and w: "world s" and C: "g_chans s c = Some C" and fl: "c_flags C AND CHANNEL_AUTODESTROY = 0"
  obtains s' where "walk (\<lambda>u s. do { thead \<leftarrow> member_next c u s; s \<leftarrow> left E u c s; Some (thead, s) })
      (hd_opt (map ul_userinfo (c_head C))) s = Some s'" "world s'" "people s s'" "g_chans s' = (g_chans s)(c \<mapsto> C\<lparr>c_head := []\<rparr>)"
    "\<And>u. foot s' u = remove1 c (foot s u)"
proof -
  let ?I = "\<lambda>vs t. world t \<and> people s t \<and> (\<exists>ls. map ul_userinfo ls = vs \<and> g_chans t = (g_chans s)(c \<mapsto> C\<lparr>c_head := ls\<rparr>)) \<and>
    (\<forall>u. foot t u = (if u \<in> set vs then foot s u else remove1 c (foot s u)))"
  let ?body = "\<lambda>u s. do { thead \<leftarrow> member_next c u s; s \<leftarrow> left E u c s; Some (thead, s) }"
  have step: "\<exists>t'. ?body u t = Some (hd_opt vs, t') \<and> ?I vs t'" if I0: "?I (u # vs) t" for u vs t
  proof -
    have f: "\<And>v. foot t v = (if v \<in> set (u # vs) then foot s v else remove1 c (foot s v))" using I0 by blast
    obtain k ls where wt: "world t" "people s t" "ul_userinfo k = u" "map ul_userinfo ls = vs"
        "g_chans t = (g_chans s)(c \<mapsto> C\<lparr>c_head := k # ls\<rparr>)"
      using I0 by (auto simp: map_eq_Cons_conv)
    note l = worldD(2) [OF wt(1)]
    let ?C = "C\<lparr>c_head := k # ls\<rparr>"
    have Ct: "g_chans t c = Some ?C" by (simp add: wt(5))
    have mt: "members t c = u # vs" using wt(3,4) by (simp add: members_def Ct)
    have "u \<in> dom (g_users t)" by (rule members_live [OF l, of u c]) (simp add: mt)
    then obtain V where V: "g_users t u = Some V" by auto
    have cm: "c \<in> set (u_chan_foot V)" using linkedD(3) [OF l, of c u] mt V by (simp add: foot_def)
    obtain t' where t': "left E u c t = Some t'" "world t'" "people t t'"
      "g_users t' = (g_users t)(u \<mapsto> V\<lparr>u_chan_foot := remove1 c (u_chan_foot V)\<rparr>)" "g_chans t' = (g_chans t)(c := without u ?C)"
      by (rule left_spec [OF q wt(1) V cm Ct]) (rule that; assumption)
    have "distinct (u # vs)" using linkedD(2) [OF l, of c] mt by simp
    then have I: "?I vs t'"
      using t'(2) people_trans [OF wt(2) t'(3)] left_links(1) [OF l V Ct t'(4,5)] f t'(5) wt(3-5) fl
      by (auto simp: without_keep)
    have "member_next c u t = Some (hd_opt vs)"
      using next_of_mid [of u "[]" vs] wt(3,4) by (simp add: member_next_def Ct)
    then show ?thesis using I t'(1) by simp
  qed
  have "?I (map ul_userinfo (c_head C)) s"
    using w C linkedD(3) [OF worldD(2) [OF w], of c]
    by (auto simp: members_def remove1_idem map_upd_triv intro!: exI [of _ "c_head C"])
  from walk_list [of ?I ?body, OF step this] obtain s' where "walk ?body (hd_opt (map ul_userinfo (c_head C))) s = Some s'" "?I [] s'"
    by blast
  then show thesis by (intro that) auto
qed

lemma linked_unchan:
  assumes "linked s" and "members s c = []" and "g_users s' = g_users s" and "g_chans s' = (g_chans s)(c := None)"
  shows "linked s'" "foot s' = foot s"
proof -
  have "foot s' = foot s" "members s' = members s" using assms by (auto simp: foot_def members_def fun_eq_iff split: option.splits)
  then show "linked s'" "foot s' = foot s" using assms(1) by (simp_all add: linked_def)
qed

lemma rmchan_spec:
  assumes q: "quiet E" and w: "world s" and C: "g_chans s c = Some C"
  obtains s' where "rmchan E c s = Some s'" "world s'" "people s s'" "g_chans s' = (g_chans s)(c := None)"
    "\<And>u. foot s' u = remove1 c (foot s u)"
proof -
  let ?C = "C\<lparr>c_flags := (c_flags C OR CHANNEL_NONINTERACTIVE) AND NOT CHANNEL_AUTODESTROY\<rparr>"
  define s1 where "s1 = s\<lparr>g_chans := (g_chans s)(c \<mapsto> ?C)\<rparr>"
  have b1: "base s1" unfolding s1_def
    by (rule base_chan_upd [OF worldD(1) [OF w] C]) (use baseD(14) [OF worldD(1) [OF w] C] in \<open>simp_all add: chan_ok_def\<close>)
  have e1: "foot s1 = foot s" "members s1 = members s" "people s s1"
    using C by (simp_all add: s1_def foot_def members_def fun_eq_iff people_def)
  then have w1: "world s1" using b1 worldD(2) [OF w] by (simp add: world_def linked_def)
  have C1: "g_chans s1 c = Some ?C" "c_flags ?C AND CHANNEL_AUTODESTROY = 0" by (simp_all add: s1_def)
  obtain s2 where 2: "walk (\<lambda>u s. do { thead \<leftarrow> member_next c u s; s \<leftarrow> left E u c s; Some (thead, s) })
      (hd_opt (map ul_userinfo (c_head ?C))) s1 = Some s2" "world s2" "people s1 s2"
    "g_chans s2 = (g_chans s1)(c \<mapsto> ?C\<lparr>c_head := []\<rparr>)" "\<And>u. foot s2 u = remove1 c (foot s1 u)"
    by (rule rmchan_loop [OF q w1 C1]) (rule that; assumption)
  define s3 where "s3 = (if c_head C \<noteq> [] then s2 else s)"
  have 3: "world s3" "people s s3" using 2(2) w people_trans [OF e1(3) 2(3)] by (simp_all add: s3_def)
  have un: "c \<notin> set (foot s u)" if "c_head C = []" for u
    using linkedD(3) [OF worldD(2) [OF w], of c u] that C by (simp add: members_def)
  have f3: "foot s3 u = remove1 c (foot s u)" for u
    using 2(5) e1(1) un by (cases "c_head C = []") (simp_all add: s3_def remove1_idem)
  have "g_chans s3 = (g_chans s)(c \<mapsto> the (g_chans s3 c)) \<and> c_head (the (g_chans s3 c)) = []"
    using 2(4) C by (cases "c_head C = []") (simp_all add: s3_def s1_def map_upd_triv)
  then obtain D where D: "g_chans s3 c = Some D" "g_chans s3 = (g_chans s)(c \<mapsto> D)" "c_head D = []"
    by (metis fun_upd_same)
  obtain s' where 4: "rmchan_empty E c s3 = Some s'" "base s'" "g_chans s' = (g_chans s3)(c := None)"
    "g_users s' = g_users s3" "people s3 s'"
    by (rule rmchan_empty_spec [OF q worldD(1) [OF 3(1)] D(1)])
  have m3: "members s3 c = []" using D by (simp add: members_def)
  note l = linked_unchan [OF worldD(2) [OF 3(1)] m3 4(4,3)]
  have "rmchan E c s = Some s'"
    using C 2(1) 4(1) by (simp add: rmchan_def upd_chan_def s1_def [symmetric] s3_def split: if_splits)
  then show thesis
    by (rule that) (use 4 l 3 D f3 people_trans [OF 3(2) 4(5)] in \<open>simp_all add: world_def\<close>)
qed

section \<open>Banning by address\<close>

definition ban_entry :: "string \<Rightarrow> string \<Rightarrow> int \<Rightarrow> BANNED" where
  "ban_entry ip reason nextime = \<lparr>ban_ip = take 16 ip, ban_reason = take 255 reason, ban_expire = nextime\<rparr>"

definition hit :: "acetables \<Rightarrow> string \<Rightarrow> nat \<Rightarrow> bool" where
  "hit s ip u \<longleftrightarrow> map_option u_ip (g_users s u) = Some ip"

lemma ban_step_miss:
  assumes "u \<in> dom (g_users s)" and "\<not> hit s ip u"
  shows "ban_step E c banner ip reason nextime bs u (isban, s) =
     Option.bind (member_next c u s) (\<lambda>n. Some (n, isban, s))"
  using assms by (auto simp: ban_step_def hit_def)

lemma chan_upd_world:
  assumes w: "world s" and C: "g_chans s c = Some C" and "c_name C' = c_name C" "c_pipe C' = c_pipe C" "chan_ok C'"
    "map ul_userinfo (c_head C') = map ul_userinfo (c_head C)" and s': "s' = s\<lparr>g_chans := (g_chans s)(c \<mapsto> C')\<rparr>"
  shows "world s'" "members s' = members s" "foot s' = foot s" "people s s'"
proof -
  show m: "members s' = members s" "foot s' = foot s" using C assms(6) s' by (simp_all add: members_def foot_def fun_eq_iff)
  show "world s'"
    using base_chan_upd [OF worldD(1) [OF w] C assms(3-5)] worldD(2) [OF w] m s' by (simp add: world_def linked_def)
  show "people s s'" by (simp add: people_def s')
qed

lemma ban_step_hit:
  assumes q: "quiet E" and w: "world s" and C: "g_chans s c = Some C" and u: "u \<in> set (members s c)" and h: "hit s ip u"
    and a: "a \<in> dom (g_users s)"
  obtains n s' where "member_next c u s = Some n"
    "ban_step E c (Some a) ip reason nextime bs u (isban, s) = Some (n, True, s')" "world s'" "people s s'"
    "foot s' = (foot s)(u := remove1 c (foot s u))" "members s' = (members s)(c := remove1 u (members s c))"
    "\<And>D. g_chans s' c = Some D \<Longrightarrow> c_banned D = (if isban then c_banned C else ban_entry ip reason nextime # bs)"
proof -
  note b = worldD(1) [OF w] and l = worldD(2) [OF w]
  have ud: "u \<in> dom (g_users s)" by (rule members_live [OF l u])
  have c: "c \<in> dom (g_chans s)" using C by auto
  obtain ja where ja: "get_json_object_user (Some a) s = Some ja" "json_container ja" by (rule user_json [OF b a])
  obtain jc where jc: "get_json_object_channel c s = Some jc" "json_container jc" by (rule channel_json [OF b c])
  let ?j = "json_set_property_objN (json_set_property_objN
    (json_set_property_strZ json_new_object (Some ''reason'') reason) (Some ''banner'') 6 ja) (Some ''pipe'') 4 jc"
  have j: "json_wf ?j" using ja(2) jc(2) by (simp add: json_container_wf)
  obtain r t s1 where 1: "forge_raw RAW_BAN ?j s = Some (r, t)" "post_raw E r u t = Some s1" "posted s s1" "base s1"
    by (rule announce_user [OF q b j ud]) (rule that; assumption)
  have w1: "world s1" using 1(4) linked_posted [OF l 1(3)] by (simp add: world_def)
  have C1: "g_chans s1 c = Some C" using posted_frame(2) [OF 1(3)] C by simp
  let ?C = "if isban then C else C\<lparr>c_banned := ban_entry ip reason nextime # bs\<rparr>"
  define s2 where "s2 = s1\<lparr>g_chans := (g_chans s1)(c \<mapsto> ?C)\<rparr>"
  have co: "chan_ok ?C" using baseD(14) [OF 1(4) C1] by (simp add: chan_ok_def)
  have 2: "world s2" "members s2 = members s1" "foot s2 = foot s1" "people s1 s2"
    by (rule chan_upd_world [OF w1 C1 _ _ co _ s2_def]; simp)+
  have e2: "members s2 = members s" "foot s2 = foot s" "people s s2"
    using 2 posted_sub(5,6) [OF 1(3)] people_trans [OF people_posted [OF 1(3)] 2(4)] by simp_all
  have C2: "g_chans s2 c = Some ?C" by (simp add: s2_def)
  obtain V where V: "g_users s2 u = Some V" using people_dom(1) [OF e2(3)] ud by auto
  have cm: "c \<in> set (u_chan_foot V)" using linkedD(3) [OF l, of c u] u V e2(2) by (simp add: foot_def fun_eq_iff) (metis option.simps(5))
  obtain s' where s': "left E u c s2 = Some s'" "world s'" "people s2 s'"
    "g_users s' = (g_users s2)(u \<mapsto> V\<lparr>u_chan_foot := remove1 c (u_chan_foot V)\<rparr>)" "g_chans s' = (g_chans s2)(c := without u ?C)"
    by (rule left_spec [OF q 2(1) V cm C2]) (rule that; assumption)
  note lk = left_links [OF worldD(2) [OF 2(1)] V C2 s'(4,5), unfolded e2(1,2)]
  obtain xs ys where "members s c = xs @ u # ys" "u \<notin> set xs" using split_list_first [OF u] by blast
  then have n: "member_next c u s = Some (hd_opt ys)"
    using next_of_mid [of u xs ys] C by (simp add: member_next_def members_def)
  have n2: "member_next c u s2 = Some (hd_opt ys)"
    using n C C2 by (simp add: member_next_def split: if_splits)
  obtain U where U: "g_users s u = Some U" "u_ip U = ip" using h by (auto simp: hit_def)
  have "ban_step E c (Some a) ip reason nextime bs u (isban, s) = Some (hd_opt ys, True, s')"
    using U ja(1) jc(1) 1(1,2) C1 n2 s'(1)
    by (cases isban) (simp_all add: ban_step_def upd_chan_def s2_def ban_entry_def map_upd_triv)
  then show thesis
    by (rule that [OF n])
      (use s' lk people_trans [OF e2(3) s'(3)] in \<open>auto simp: without_def Let_def split: if_splits\<close>)
qed

text \<open>The state of the loop of \<open>ban\<close> with the members \<open>vs\<close> still to look at.\<close>

definition banning :: "acetables \<Rightarrow> nat \<Rightarrow> string \<Rightarrow> BANNED \<Rightarrow> BANNED list \<Rightarrow> nat list \<Rightarrow> bool \<times> acetables \<Rightarrow> bool" where
  "banning s c ip entry bs vs st \<longleftrightarrow> (case st of (isban, t) \<Rightarrow>
     world t \<and> people s t \<and>
     (\<exists>pre. members s c = pre @ vs \<and> members t c = filter (\<lambda>u. \<not> hit s ip u) pre @ vs \<and>
        (isban \<longleftrightarrow> (\<exists>u \<in> set pre. hit s ip u))) \<and>
     (\<forall>d. d \<noteq> c \<longrightarrow> members t d = members s d) \<and>
     (\<forall>D. g_chans t c = Some D \<longrightarrow> c_banned D = (if isban then entry # bs else bs)))"

lemma remove1_mid: "v \<notin> set xs \<Longrightarrow> remove1 v (xs @ v # ys) = xs @ ys"
  by (simp add: remove1_append)

lemma banning_step:
  assumes q: "quiet E" and a: "a \<in> dom (g_users s)" and I: "banning s c ip (ban_entry ip reason nextime) bs (v # vs) st"
  shows "\<exists>st'. ban_step E c (Some a) ip reason nextime bs v st = Some (hd_opt vs, st') \<and>
     banning s c ip (ban_entry ip reason nextime) bs vs st'"
proof -
  obtain isban t where st: "st = (isban, t)" by (cases st)
  obtain pre where w: "world t" "people s t" and pre: "members s c = pre @ v # vs"
      "members t c = filter (\<lambda>u. \<not> hit s ip u) pre @ v # vs" "isban \<longleftrightarrow> (\<exists>u \<in> set pre. hit s ip u)"
    and oth: "\<And>d. d \<noteq> c \<Longrightarrow> members t d = members s d"
    and ban: "\<And>D. g_chans t c = Some D \<Longrightarrow> c_banned D = (if isban then ban_entry ip reason nextime # bs else bs)"
    using I unfolding banning_def st by blast
  have vm: "v \<in> set (members t c)" by (simp add: pre(2))
  then obtain C where C: "g_chans t c = Some C" by (cases "g_chans t c") (simp_all add: members_def)
  have d: "distinct (members t c)" by (rule linkedD(2) [OF worldD(2) [OF w(1)]])
  let ?ps = "filter (\<lambda>u. \<not> hit s ip u) pre"
  have nv: "v \<notin> set ?ps" using d by (auto simp: pre(2))
  have nx: "member_next c v t = Some (hd_opt vs)"
    using next_of_mid [OF nv, of vs] pre(2) C by (simp add: member_next_def members_def)
  have vd: "v \<in> dom (g_users t)" by (rule members_live [OF worldD(2) [OF w(1)] vm])
  have ht: "hit t ip u = hit s ip u" for u using people_frame(11) [OF w(2), of u] by (simp add: hit_def)
  show ?thesis
  proof (cases "hit s ip v")
    case True
    then have tv: "hit t ip v" by (simp add: ht)
    have ad: "a \<in> dom (g_users t)" using people_dom(1) [OF w(2)] a by simp
    obtain n t' where 1: "member_next c v t = Some n" "ban_step E c (Some a) ip reason nextime bs v (isban, t) = Some (n, True, t')"
      "world t'" "people t t'" "members t' = (members t)(c := remove1 v (members t c))"
      "\<And>D. g_chans t' c = Some D \<Longrightarrow> c_banned D = (if isban then c_banned C else ban_entry ip reason nextime # bs)"
      by (rule ban_step_hit [OF q w(1) C vm tv ad]) (rule that; assumption)
    have "remove1 v (?ps @ v # vs) = ?ps @ vs" by (rule remove1_mid [OF nv])
    then have "members t' c = ?ps @ vs" using 1(5) pre(2) by simp
    moreover have "members s c = (pre @ [v]) @ vs" using pre(1) by simp
    ultimately have "banning s c ip (ban_entry ip reason nextime) bs vs (True, t')"
      unfolding banning_def prod.case
      using 1(3,6) people_trans [OF w(2) 1(4)] 1(5) oth ban [OF C] True
      by (intro conjI exI [of _ "pre @ [v]"]) (auto split: if_splits)
    then show ?thesis using 1(1,2) nx by (simp add: st)
  next
    case False
    have "banning s c ip (ban_entry ip reason nextime) bs vs (isban, t)"
      unfolding banning_def prod.case
      using w pre oth ban False by (intro conjI exI [of _ "pre @ [v]"]) auto
    then show ?thesis using ban_step_miss [OF vd, of ip] False nx by (simp add: st ht)
  qed
qed

lemma ban_spec:
  assumes q: "quiet E" and w: "world s" and C: "g_chans s c = Some C" and a: "a \<in> dom (g_users s)"
  obtains s' where "ban E (Some c) (Some a) ip reason expire s = Some s'" "world s'" "people s s'"
    "members s' = (members s)(c := filter (\<lambda>u. \<not> hit s ip u) (members s c))"
    "\<And>D. g_chans s' c = Some D \<Longrightarrow> c_banned D =
       (if \<exists>u \<in> set (members s c). hit s ip u then ban_entry ip reason (ban_nextime expire s) # c_banned C else c_banned C)"
proof -
  let ?e = "ban_entry ip reason (ban_nextime expire s)"
  let ?I = "banning s c ip ?e (c_banned C)"
  have "?I (map ul_userinfo (c_head C)) (False, s)"
    unfolding banning_def prod.case using w C by (intro conjI exI [of _ "[]"]) (auto simp: members_def)
  then obtain st where
    st: "walk (ban_step E c (Some a) ip reason (ban_nextime expire s) (c_banned C)) (hd_opt (map ul_userinfo (c_head C))) (False, s) = Some st"
      "?I [] st"
    using walk_list [of ?I "ban_step E c (Some a) ip reason (ban_nextime expire s) (c_banned C)"] banning_step [OF q a]
    by blast
  obtain isban s' where [simp]: "st = (isban, s')" by (cases st)
  have I: "world s'" "people s s'" "members s' c = filter (\<lambda>u. \<not> hit s ip u) (members s c)"
      "isban \<longleftrightarrow> (\<exists>u \<in> set (members s c). hit s ip u)" "\<And>d. d \<noteq> c \<Longrightarrow> members s' d = members s d"
      "\<And>D. g_chans s' c = Some D \<Longrightarrow> c_banned D = (if isban then ?e # c_banned C else c_banned C)"
    using st(2) by (auto simp: banning_def)
  have "ban E (Some c) (Some a) ip reason expire s = Some s'" using C st(1) by (simp add: ban_def)
  then show thesis by (rule that) (use I in \<open>auto simp: fun_eq_iff\<close>)
qed

section \<open>Levels\<close>

definition level :: "acetables \<Rightarrow> nat \<Rightarrow> nat \<Rightarrow> nat option" where
  "level s c u = Option.bind (g_chans s c) (\<lambda>C. map_option ul_level (find (\<lambda>l. ul_userinfo l = u) (c_head C)))"

lemma store_level:
  "map ul_userinfo (store_level u lvl ls) = map ul_userinfo ls"
  "find (\<lambda>l. ul_userinfo l = v) (store_level u lvl ls) =
     (if v = u then map_option (\<lambda>l. l\<lparr>ul_level := lvl\<rparr>) (find (\<lambda>l. ul_userinfo l = u) ls)
      else find (\<lambda>l. ul_userinfo l = v) ls)"
  "l \<in> set (store_level u lvl ls) \<Longrightarrow> l \<in> set ls \<or> ul_level l = lvl"
  by (induction ls) (auto split: if_splits)

lemma getuchan_level:
  "g_chans s c = Some C \<Longrightarrow> \<exists>r. getuchan (Some u) (Some c) s = Some r \<and> map_option ul_level r = level s c u \<and>
     (\<forall>l. r = Some l \<longrightarrow> ul_userinfo l = u)"
  by (auto simp: getuchan_def level_def dest: find_SomeD)

lemma announce_level_spec:
  assumes q: "quiet E" and w: "world s" and a: "a \<in> dom (g_users s)" and u: "u \<in> dom (g_users s)"
    and c: "c \<in> dom (g_chans s)" and lvl: "lvl \<le> 32"
  obtains s' where "announce_level E (Some a) (Some u) c lvl s = Some s'" "world s'" "posted s s'"
proof (cases "interactive (the (g_chans s c))")
  case True
  note b = worldD(1) [OF w] and l = worldD(2) [OF w]
  obtain ja where ja: "get_json_object_user (Some a) s = Some ja" "json_container ja" by (rule user_json [OF b a])
  obtain ju where ju: "get_json_object_user (Some u) s = Some ju" "json_container ju" by (rule user_json [OF b u])
  obtain jc where jc: "get_json_object_channel c s = Some jc" "json_container jc" by (rule channel_json [OF b c])
  let ?j = "json_set_property_intN (json_set_property_objN (json_set_property_objN (json_set_property_objN json_new_object
    (Some ''ope'') 3 ju) (Some ''oper'') 4 ja) (Some ''pipe'') 4 jc) (Some ''level'') 5 (int lvl)"
  have "LLONG_MIN < int lvl" "int lvl \<le> LLONG_MAX" using lvl by (simp_all add: LLONG_MIN_def LLONG_MAX_def)
  then have j: "json_wf ?j" using ja(2) ju(2) jc(2) by (simp add: json_container_wf)
  have us: "set (members s c) \<subseteq> dom (g_users s)" using members_live [OF l] by blast
  obtain r t s' where 1: "forge_raw RAW_SETLEVEL ?j s = Some (r, t)" "posted s t"
    "forM (members s c) (post_raw E r) t = Some s'" "posted s s'" "base s'"
    by (rule announce [OF q b j us linkedD(2) [OF l]]) (rule that; assumption)
  have "post_raw_channel E r c t = Some s'"
    using 1(3) post_raw_channel_eq [of c t] posted_sub(6) [OF 1(2)] posted_frame(2) [OF 1(2)] c by simp
  then have "announce_level E (Some a) (Some u) c lvl s = Some s'"
    using True c ja(1) ju(1) jc(1) 1(1) by (auto simp: announce_level_def interactive_def)
  then show thesis using 1(4,5) linked_posted [OF l 1(4)] by (intro that) (simp_all add: world_def)
next
  case False
  then show thesis using c w by (intro that [of s]) (auto simp: announce_level_def interactive_def)
qed

lemma send_error_spec:
  assumes q: "quiet E" and w: "world s" and u: "u \<in> dom (g_users s)"
  obtains s' r where "send_error E u msg code s = Some s'" "world s'" "posted s s'"
    "\<And>b. lowq s' b = lowq s b @ (if owner s b = Some u then [r] else [])" "highq s' = highq s"
proof -
  let ?j = "json_set_property_strZ (json_set_property_strZ json_new_object (Some ''code'') code) (Some ''value'') msg"
  have j: "json_wf ?j" by (simp add: json_container_wf)
  obtain r t s' where 1: "forge_raw RAW_ERR ?j s = Some (r, t)" "post_raw E r u t = Some s'" "posted s s'" "base s'"
    "\<And>b. lowq s' b = lowq s b @ (if owner s b = Some u then [r] else [])" "highq s' = highq s"
    by (rule announce_user [OF q worldD(1) [OF w] j u]) (rule that; assumption)
  have "send_error E u msg code s = Some s'" using 1(1,2) by (simp add: send_error_def)
  then show thesis
    by (rule that [of s' r]) (use 1 linked_posted [OF worldD(2) [OF w] 1(3)] in \<open>simp_all add: world_def\<close>)
qed

text \<open>Who may set which level: both are members, and the actor has at least the level it gives and the
  level it changes, unless it is an operator of the server.\<close>

definition may_set :: "acetables \<Rightarrow> nat \<Rightarrow> nat \<Rightarrow> nat \<Rightarrow> nat \<Rightarrow> bool" where
  "may_set s a u c lvl \<longleftrightarrow> 1 \<le> lvl \<and> lvl \<le> 32 \<and>
     (\<exists>la lu. level s c a = Some la \<and> level s c u = Some lu \<and>
        (lvl \<le> la \<and> lu \<le> la \<or> (\<exists>A. g_users s a = Some A \<and> u_flags A AND FLG_AUTOOP \<noteq> 0)))"

lemma setlevel_spec:
  assumes q: "quiet E" and w: "world s" and a: "a \<in> dom (g_users s)" and C: "g_chans s c = Some C"
  obtains s' where "setlevel E (Some a) (Some u) c lvl s = Some (may_set s a u c lvl, s')" "world s'" "people s s'"
    "members s' = members s" "\<And>v. level s' c v = (if v = u \<and> may_set s a u c lvl then Some lvl else level s c v)"
    "\<And>d. d \<noteq> c \<Longrightarrow> g_chans s' d = g_chans s d"
proof -
  note b = worldD(1) [OF w]
  obtain A where A: "g_users s a = Some A" using a by auto
  obtain ru where ru: "getuchan (Some u) (Some c) s = Some ru" "map_option ul_level ru = level s c u" "\<And>l. ru = Some l \<Longrightarrow> ul_userinfo l = u"
    using getuchan_level [OF C, of u] by blast
  obtain ra where ra: "getuchan (Some a) (Some c) s = Some ra" "map_option ul_level ra = level s c a"
    using getuchan_level [OF C, of a] by blast
  show thesis
  proof (cases "may_set s a u c lvl")
    case False
    obtain s' where e: "send_error E a ''SETLEVEL_ERROR'' ''110'' s = Some s'" "world s'" "posted s s'"
      by (rule send_error_spec [OF q w a]) (rule that; assumption)
    have "setlevel E (Some a) (Some u) c lvl s = Some (False, s')"
      using False A ru(1) ra(1) e(1) ru(2) [symmetric] ra(2) [symmetric]
      by (cases ru; cases ra) (auto simp: setlevel_def may_set_def)
    then show thesis
      by (intro that [of s'])
        (use False e(2) posted_sub(6) [OF e(3)] posted_frame(2) [OF e(3)] people_posted [OF e(3)] in \<open>simp_all add: level_def\<close>)
  next
    case True
    obtain pl al where pl: "ru = Some pl" "ul_userinfo pl = u" "ra = Some al"
      using True ru(2) [symmetric] ra(2) [symmetric] ru(3) by (cases ru; cases ra) (auto simp: may_set_def)
    let ?C = "C\<lparr>c_head := store_level u lvl (c_head C)\<rparr>"
    define s1 where "s1 = s\<lparr>g_chans := (g_chans s)(c \<mapsto> ?C)\<rparr>"
    have lvl: "1 \<le> lvl" "lvl \<le> 32" using True by (simp_all add: may_set_def)
    have co: "chan_ok ?C" using baseD(14) [OF b C] lvl store_level(3) by (fastforce simp: chan_ok_def)
    have 1: "world s1" "members s1 = members s" "people s s1"
      by (rule chan_upd_world [OF w C _ _ co _ s1_def]; simp add: store_level(1))+
    have "pl \<in> set (c_head C) \<and> ul_userinfo pl = u" using ru(1) pl(1) C find_SomeD by (fastforce simp: getuchan_def)
    then have "u \<in> set (members s c)" using C by (auto simp: members_def)
    then have d: "u \<in> dom (g_users s1)" "a \<in> dom (g_users s1)" "c \<in> dom (g_chans s1)"
      using members_live [OF worldD(2) [OF w]] A by (auto simp: s1_def)
    obtain s' where 2: "announce_level E (Some a) (Some u) c lvl s1 = Some s'" "world s'" "posted s1 s'"
      by (rule announce_level_spec [OF q 1(1) d(2,1,3) lvl(2)])
    have "setlevel E (Some a) (Some u) c lvl s = Some (True, s')"
      using True A ru(1) ra(1) ru(2) [symmetric] ra(2) [symmetric] pl 2(1) C
      by (auto simp: setlevel_def may_set_def upd_chan_def s1_def)
    moreover have "level s' c v = (if v = u then Some lvl else level s c v)" for v
      using posted_frame(2) [OF 2(3)] C ru(1) pl(1)
      by (auto simp: level_def s1_def store_level(2) getuchan_def)
    ultimately show thesis
      by (intro that [of s'])
        (use True 2 1 posted_sub(6) [OF 2(3)] posted_frame(2) [OF 2(3)] people_trans [OF 1(3) people_posted [OF 2(3)]]
          in \<open>simp_all add: s1_def\<close>)
  qed
qed

section \<open>Creating a channel\<close>

lemma apsnd_eq_Pair: "apsnd f p = (b, r) \<longleftrightarrow> (\<exists>y. p = (b, y) \<and> r = f y)"
  by (cases p) auto

lemma isvalidchan_loop_name: "isvalidchan_loop cs = (True, r) \<Longrightarrow> r = casefold cs"
  by (induction cs arbitrary: r) (auto simp: Let_def apsnd_eq_Pair split: if_splits)

lemma isvalidchan_name:
  assumes "isvalidchan name = (True, r)"
  shows "r = casefold name" "length name \<le> MAX_CHAN_LEN"
proof -
  show "length name \<le> MAX_CHAN_LEN" using assms by (simp add: isvalidchan_def split: if_splits)
  have star: "tolower (CHR ''*'') = CHR ''*''" by (simp add: tolower_def)
  show "r = casefold name"
    using assms isvalidchan_loop_name [of name r] isvalidchan_loop_name [of "tl name" "tl r"] star
    by (cases name) (auto simp: isvalidchan_def apsnd_eq_Pair simp del: isvalidchan_loop.simps split: if_splits)
qed

lemma gen_sessid_new_cong:
  assumes "gen_sessid_new rand s pos = Some r" and "g_hSessid s' = g_hSessid s" and "g_hPubid s' = g_hPubid s"
  shows "gen_sessid_new rand s' pos = Some r"
proof -
  let ?P = "\<lambda>rand s pos r. \<forall>s'. g_hSessid s' = g_hSessid s \<longrightarrow> g_hPubid s' = g_hPubid s \<longrightarrow> gen_sessid_new rand s' pos = Some r"
  have "?P rand s pos r"
  proof (rule gen_sessid_new.raw_induct [of ?P, OF _ assms(1)], intro allI impI, goal_cases)
    case (1 gen rand s pos r s')
    have e: "seek_user_id k s' = seek_user_id k s" "get_pipe k s' = get_pipe k s" for k
      using 1(3,4) by (simp_all add: seek_user_id_def get_pipe_def)
    have IH: "gen_sessid_new rand s' q = Some r" if "gen rand s q = Some r" for q using 1(1) [OF that] 1(3,4) by blast
    show ?case using 1(2) IH
      by (subst gen_sessid_new.simps) (auto simp: e elim!: bind_SomeE split: if_splits)
  qed
  then show ?thesis using assms(2,3) by blast
qed

lemma mkchan_spec:
  assumes q: "quiet E" and w: "world s" and v: "isvalidchan name = (True, nm)"
    and free: "hashtbl_seek (g_hLusers s) (Some name) = Some None"
    and g: "gen_sessid_new (e_rand E) s (g_rpos s) = Some (k, pos)"
  obtains s' C where "mkchan E name fl s = Some (Some (g_next s), s')" "world s'" "g_chans s' = (g_chans s)(g_next s \<mapsto> C)"
    "c_name C = casefold name" "c_head C = []" "c_flags C = fl OR (if take 1 nm = ''*'' then CHANNEL_NONINTERACTIVE else 0)"
    "g_users s' = g_users s" "g_subs s' = g_subs s" "members s' = members s" "foot s' = foot s" "g_chans s (g_next s) = None"
    "g_pipes s' = (g_pipes s)(Suc (g_next s) \<mapsto> new_pipe (g_next s) CHANNEL_PIPE k)" "g_rpos s' = pos"
    "g_co s' = g_co s" "g_sk s' = g_sk s" "g_now s' = g_now s" "g_transports s' = g_transports s" "g_detached s' = g_detached s"
proof -
  note b = worldD(1) [OF w] and nm = isvalidchan_name [OF v]
  let ?c = "g_next s" and ?p = "Suc (g_next s)"
  have f: "g_chans s ?c = None" "g_pipes s ?p = None" "g_pipes s ?c = None"
    using baseD(15) [OF b, of ?c] baseD(17) [OF b, of ?p] baseD(17) [OF b, of ?c] by fastforce+
  let ?s0 = "s\<lparr>g_next := ?p\<rparr>"
  have i0: "indexes (g_hPubid ?s0) p_pubid (g_pipes ?s0)" "g_pipes ?s0 (g_next ?s0) = None" using baseD(3) [OF b] f by simp_all
  have g0: "gen_sessid_new (e_rand E) ?s0 (g_rpos ?s0) = Some (k, pos)" using gen_sessid_new_cong [OF g] by simp
  obtain h where 1: "init_pipe E ?c CHANNEL_PIPE ?s0 = Some (g_next ?s0, ?s0\<lparr>g_rpos := pos,
      g_pipes := (g_pipes ?s0)(g_next ?s0 \<mapsto> new_pipe ?c CHANNEL_PIPE k), g_hPubid := h, g_next := Suc (g_next ?s0)\<rparr>)"
    "indexes h p_pubid ((g_pipes ?s0)(g_next ?s0 \<mapsto> new_pipe ?c CHANNEL_PIPE k))" "length k = 32"
    by (rule init_pipe_spec [OF i0 g0])
  define C where "C = \<lparr>c_pipe = ?p, c_head = [], c_banned = [], c_properties = [],
      c_flags = fl OR (if take 1 nm = ''*'' then CHANNEL_NONINTERACTIVE else 0), c_name = nm\<rparr>"
  have "hashtbl_seek (g_hLusers s) (Some (c_name C)) = Some None"
  proof (rule indexes_seek [OF baseD(4) [OF b], of "c_name C"])
    fix d x assume d: "hashtbl_seek (g_hLusers s) (Some (c_name C)) = Some (Some d)" "g_chans s d = Some x" "strcaseeq (c_name C) (c_name x)"
    then have "strcaseeq name (c_name x)" by (simp add: C_def nm(1) strcaseeq_def comp_def)
    then show ?thesis using indexes_hit [OF baseD(4) [OF b] d(2)] free by simp
  qed
  then obtain h2 where h2: "hashtbl_append (g_hLusers s) (Some (c_name C)) ?c = Some h2" "indexes h2 c_name ((g_chans s)(?c \<mapsto> C))"
    using indexes_insert [OF baseD(4) [OF b] _ f(1)] by blast
  define s' where "s' = s\<lparr>g_rpos := pos, g_pipes := (g_pipes s)(?p \<mapsto> new_pipe ?c CHANNEL_PIPE k), g_hPubid := h,
      g_hLusers := h2, g_chans := (g_chans s)(?c \<mapsto> C), g_next := Suc ?p\<rparr>"
  have b': "base s'" unfolding s'_def
    by (rule base_add_chan [OF b]) (use 1(2,3) h2(2) f nm in \<open>simp_all add: C_def chan_ok_def\<close>)
  have e: "members s' = members s" "foot s' = foot s"
    using f(1) by (simp_all add: s'_def members_def foot_def fun_eq_iff C_def)
  have "mkchan E name fl s = Some (Some ?c, s')"
    using quietD(4) [OF q] v 1(1) h2(1) by (simp add: mkchan_def Let_def C_def s'_def)
  then show thesis
    by (rule that [of s' C]) (use b' e worldD(2) [OF w] f nm(1) in \<open>simp_all add: world_def linked_def s'_def C_def\<close>)
qed

end
