(* ===== verification/Ape_Sample.thy ===== *)
theory Ape_Sample
  imports Ape_World
begin

text \<open>
  A concrete consistent state, on which the theorems about the shared state are applied: two users with
  one connection each, one of them the only member of the one channel.
\<close>

section \<open>The initial state\<close>

lemma world_init: "length (sprintf_li now) < 16 \<Longrightarrow> world (ape_init now ev)"
  by (simp add: world_def base_def linked_def ape_init_def indexes_empty msg_inv_def occ_def subs_of_def owner_def
      target_def foot_def members_def host_def conn_def)

section \<open>A populated state\<close>

definition key32 :: "char \<Rightarrow> string" where
  "key32 c = replicate 32 c"

lemma key32_length [simp]: "length (key32 c) = 32"
  by (simp add: key32_def)

lemma key32_eq [simp]: "strcaseeq (key32 c) (key32 d) \<longleftrightarrow> tolower c = tolower d"
  by (simp add: key32_def strcaseeq_def)

definition sample_chan :: CHANNEL where
  "sample_chan = \<lparr>c_pipe = 5, c_head = [\<lparr>ul_userinfo = 0, ul_level = 1\<rparr>], c_banned = [], c_properties = [],
     c_flags = CHANNEL_AUTODESTROY, c_name = ''lobby''\<rparr>"

definition sample_users :: "nat \<rightharpoonup> USERS" where
  "sample_users = [0 \<mapsto> sample_user 3 [6] [2] TRANSPORT_LONGPOLLING (key32 (CHR ''a'')),
                   1 \<mapsto> sample_user 4 [7] [] TRANSPORT_LONGPOLLING (key32 (CHR ''b''))]"

definition sample_pipes :: "nat \<rightharpoonup> transpipe" where
  "sample_pipes = [3 \<mapsto> new_pipe 0 USER_PIPE (key32 (CHR ''c'')), 4 \<mapsto> new_pipe 1 USER_PIPE (key32 (CHR ''d'')),
                   5 \<mapsto> new_pipe 2 CHANNEL_PIPE (key32 (CHR ''e''))]"

definition fill :: "('a \<Rightarrow> string) \<Rightarrow> (nat \<times> 'a) list \<Rightarrow> nat HTBL" where
  "fill key xs = fold (\<lambda>(a, x) h. the (hashtbl_append h (Some (key x)) a)) xs hashtbl_init"

definition sample_world :: acetables where
  "sample_world = (ape_init 0 [])\<lparr>g_next := 8, g_users := sample_users, g_pipes := sample_pipes,
     g_chans := [2 \<mapsto> sample_chan],
     g_subs := [6 \<mapsto> sample_sub [] (Some 10) (Some 0), 7 \<mapsto> sample_sub [] (Some 11) (Some 1)],
     g_co := [10 \<mapsto> \<lparr>s_fd = 10, s_ws = None, s_attach = Some 6\<rparr>, 11 \<mapsto> \<lparr>s_fd = 11, s_ws = None, s_attach = Some 7\<rparr>],
     g_uHead := [1, 0], g_nConnected := 2,
     g_hSessid := fill u_sessid [(0, the (sample_users 0)), (1, the (sample_users 1))],
     g_hPubid := fill p_pubid [(3, the (sample_pipes 3)), (4, the (sample_pipes 4)), (5, the (sample_pipes 5))],
     g_hLusers := fill c_name [(2, sample_chan)]\<rparr>"

lemma indexes_fill:
  assumes "distinct (map fst xs)" and "\<And>i j. i < j \<Longrightarrow> j < length xs \<Longrightarrow> \<not> strcaseeq (key (snd (xs ! j))) (key (snd (xs ! i)))"
  shows "indexes (fill key xs) key (map_of (rev xs))"
  using assms
proof (induction xs rule: rev_induct)
  case Nil
  then show ?case by (simp add: fill_def indexes_empty)
next
  case (snoc ax xs)
  obtain a x where ax: "ax = (a, x)" by (cases ax)
  have IH: "indexes (fill key xs) key (map_of (rev xs))"
  proof (rule snoc.IH)
    show "\<not> strcaseeq (key (snd (xs ! j))) (key (snd (xs ! i)))" if "i < j" "j < length xs" for i j
      using snoc.prems(2) [of i j] that by (simp add: nth_append)
  qed (use snoc.prems(1) in simp)
  have free: "hashtbl_seek (fill key xs) (Some (key x)) = Some None"
  proof (rule indexes_seek [OF IH, of "key x"])
    fix b y assume "map_of (rev xs) b = Some y" "strcaseeq (key x) (key y)"
    then have "(b, y) \<in> set xs" using map_of_SomeD by fastforce
    then obtain i where "i < length xs" "xs ! i = (b, y)" by (auto simp: in_set_conv_nth)
    then show ?thesis using snoc.prems(2) [of i "length xs"] \<open>strcaseeq (key x) (key y)\<close> by (simp add: nth_append ax)
  qed
  have "map_of (rev xs) a = None" using snoc.prems(1) by (simp add: ax map_of_eq_None_iff)
  then obtain h where "hashtbl_append (fill key xs) (Some (key x)) a = Some h" "indexes h key ((map_of (rev xs))(a \<mapsto> x))"
    using indexes_insert [OF IH free] by blast
  then show ?case by (simp add: ax fill_def fun_upd_def)
qed

lemma less_Suc_cases: "i < Suc n \<longleftrightarrow> i < n \<or> i = n"
  by auto

lemma sample_world_indexes:
  "indexes (g_hSessid sample_world) u_sessid (g_users sample_world)"
  "indexes (g_hPubid sample_world) p_pubid (g_pipes sample_world)"
  "indexes (g_hLusers sample_world) c_name (g_chans sample_world)"
proof -
  have "indexes (fill u_sessid [(0, the (sample_users 0)), (1, the (sample_users 1))]) u_sessid
      (map_of (rev [(0, the (sample_users 0)), (1, the (sample_users 1))]))"
    by (rule indexes_fill) (auto simp: sample_users_def sample_user_def less_Suc_cases tolower_def)
  then show "indexes (g_hSessid sample_world) u_sessid (g_users sample_world)"
    by (simp add: sample_world_def sample_users_def fun_upd_twist)
  have "indexes (fill p_pubid [(3, the (sample_pipes 3)), (4, the (sample_pipes 4)), (5, the (sample_pipes 5))]) p_pubid
      (map_of (rev [(3, the (sample_pipes 3)), (4, the (sample_pipes 4)), (5, the (sample_pipes 5))]))"
    by (rule indexes_fill) (auto simp: sample_pipes_def less_Suc_cases tolower_def numeral_2_eq_2)
  then show "indexes (g_hPubid sample_world) p_pubid (g_pipes sample_world)"
    by (simp add: sample_world_def sample_pipes_def fun_upd_twist)
  have "indexes (fill c_name [(2, sample_chan)]) c_name (map_of (rev [(2, sample_chan)]))"
    by (rule indexes_fill) simp_all
  then show "indexes (g_hLusers sample_world) c_name (g_chans sample_world)"
    by (simp add: sample_world_def)
qed

lemma sample_world_msg: "msg_inv sample_world"
proof (rule msg_invI)
  show "occ sample_world r = 0" for r by (simp add: occ_def sample_world_def)
qed (auto simp: sample_world_def ape_init_def sprintf_li_def dec_digits_def split: if_splits)

lemma sample_world_ok: "world sample_world"
proof -
  have "base sample_world"
  proof (rule baseI)
    show "distinct (subs_of sample_world u)" "distinct (map (host sample_world) (subs_of sample_world u))" for u
      by (simp_all add: subs_of_def sample_world_def sample_users_def sample_user_def)
    show "b \<in> set (subs_of sample_world u) \<longleftrightarrow> owner sample_world b = Some u" for u b
      by (auto simp: subs_of_def owner_def sample_world_def sample_users_def sample_user_def sample_sub_def)
    show "map_option u_pipe (g_users sample_world u) = Some p \<longleftrightarrow> target sample_world p = Some (USER_PIPE, u)" for u p
      by (auto simp: target_def sample_world_def sample_users_def sample_user_def sample_pipes_def)
    show "map_option c_pipe (g_chans sample_world c) = Some p \<longleftrightarrow> target sample_world p = Some (CHANNEL_PIPE, c)" for c p
      by (auto simp: target_def sample_world_def sample_chan_def sample_pipes_def)
    show "user_ok U" "u < g_next sample_world" if "g_users sample_world u = Some U" for u U
      using that by (auto simp: sample_world_def sample_users_def sample_user_def user_ok_def sessions_ok_def
          MAX_SESSION_LENGTH_def split: if_splits)
    show "chan_ok C" "c < g_next sample_world" if "g_chans sample_world c = Some C" for c C
      using that by (auto simp: sample_world_def sample_chan_def chan_ok_def MAX_CHAN_LEN_def split: if_splits)
    show "pipe_ok P" "p < g_next sample_world" if "g_pipes sample_world p = Some P" for p P
      using that by (auto simp: sample_world_def sample_pipes_def split: if_splits)
    show "distinct (g_uHead sample_world)" "set (g_uHead sample_world) = dom (g_users sample_world)"
      by (auto simp: sample_world_def sample_users_def)
    show "cl \<in> Some ` dom (g_co sample_world)" if "conn sample_world b = Some (ALIVE, cl)" for b cl
      using that by (auto simp: conn_def sample_world_def sample_sub_def split: if_splits)
    show "owner sample_world b \<noteq> None" if "b \<in> dom (g_subs sample_world)" for b
      using that by (auto simp: owner_def sample_world_def sample_sub_def split: if_splits)
  qed (rule sample_world_indexes sample_world_msg)+
  moreover have "linked sample_world"
    by (auto simp: linked_def foot_def members_def sample_world_def sample_users_def sample_user_def sample_chan_def)
  ultimately show ?thesis by (simp add: world_def)
qed

lemma sample_env_hooks: "quiet sample_env"
  by simp

lemma sample_look:
  "g_users sample_world 0 = Some (sample_user 3 [6] [2] TRANSPORT_LONGPOLLING (key32 (CHR ''a'')))"
  "g_users sample_world 1 = Some (sample_user 4 [7] [] TRANSPORT_LONGPOLLING (key32 (CHR ''b'')))"
  "g_chans sample_world 2 = Some sample_chan" "foot sample_world 0 = [2]" "foot sample_world 1 = []"
  "0 \<in> dom (g_users sample_world)" "1 \<in> dom (g_users sample_world)"
  by (simp_all add: sample_world_def sample_users_def foot_def sample_user_def)

lemma sample_seek:
  "hashtbl_seek (g_hLusers sample_world) (Some ''News'') = Some None"
proof (rule indexes_seek [OF sample_world_indexes(3), of "''News''"])
  fix a x assume "g_chans sample_world a = Some x" "strcaseeq ''News'' (c_name x)"
  then show ?thesis by (auto simp: sample_world_def sample_chan_def strcaseeq_def tolower_def split: if_splits)
qed

lemma sample_gen:
  "\<exists>k pos. gen_sessid_new (e_rand sample_env) sample_world (g_rpos sample_world) = Some (k, pos)"
proof -
  let ?r = "e_rand sample_env"
  have r: "rand_ok ?r" by (auto simp: rand_ok_def sample_env_def RAND_MAX_def zmod_int)
  let ?k = "id_at ?r 32 (g_rpos sample_world)"
  have k: "?k ! 0 = CHR ''a''" "?k ! 1 = CHR ''b''" "length ?k = 32"
    by (simp_all add: id_at_def sample_env_def sample_world_def ape_init_def basic_chars_def partSize_def RAND_MAX_def)
  have n: "\<not> strcaseeq ?k (key32 c)" for c
  proof
    assume "strcaseeq ?k (key32 c)"
    then have "casefold ?k ! 0 = casefold ?k ! 1" by (simp add: strcaseeq_def key32_def)
    then show False using k by (simp add: tolower_def)
  qed
  have "hashtbl_seek (g_hSessid sample_world) (Some ?k) = Some None"
  proof (rule indexes_seek [OF sample_world_indexes(1), of ?k])
    fix a x assume "g_users sample_world a = Some x" "strcaseeq ?k (u_sessid x)"
    moreover from this have "\<exists>c. u_sessid x = key32 c"
      by (auto simp: sample_world_def sample_users_def sample_user_def split: if_splits)
    ultimately show ?thesis using n by auto
  qed
  moreover have "hashtbl_seek (g_hPubid sample_world) (Some ?k) = Some None"
  proof (rule indexes_seek [OF sample_world_indexes(2), of ?k])
    fix a x assume "g_pipes sample_world a = Some x" "strcaseeq ?k (p_pubid x)"
    moreover from this have "\<exists>c. p_pubid x = key32 c" by (auto simp: sample_world_def sample_pipes_def split: if_splits)
    ultimately show ?thesis using n by auto
  qed
  ultimately have "id_free ?k sample_world" using k(3) by (simp add: id_free_def seek_user_id_def get_pipe_def)
  then show ?thesis
    by (subst gen_sessid_new.simps) (simp add: gen_chars_eq [OF r] id_free_def)
qed

end
