(* ===== verification/Ape_Channel_Correct.thy ===== *)
theory Ape_Channel_Correct
  imports Ape_Channel Ape_Sample
begin

text \<open>
  What the channel operations promise, on every consistent state and with no plugin interfering: they
  complete, keep the shared state consistent, change exactly the memberships they are about and tell
  exactly the connections concerned.
\<close>

section \<open>Membership\<close>

text \<open>C15. Joining a channel completes, keeps the shared state consistent, makes the user its newest
  member and nobody else; every connection of the earlier members receives one message (unless the
  channel is non-interactive), every connection of the joining user one message after it, and no other
  connection receives anything.\<close>

theorem join_correct:
  assumes "quiet E" and "world s" and "g_users s u = Some U" and "g_chans s c = Some C" and "c \<notin> set (foot s u)"
  shows "\<exists>s' r1 r2. join E u c s = Some s' \<and> world s' \<and>
     members s' = (members s)(c := u # members s c) \<and> foot s' = (foot s)(u := c # foot s u) \<and>
     (\<forall>b. lowq s' b = lowq s b @ (if interactive C \<and> owner s b \<in> Some ` set (members s c) then [r1] else []) @
        (if owner s b = Some u then [r2] else [])) \<and> highq s' = highq s"
proof -
  have c: "c \<notin> set (u_chan_foot U)" using assms(3,5) by (simp add: foot_def)
  obtain s' r1 r2 where s': "join E u c s = Some s'" "world s'"
    "g_users s' = (g_users s)(u \<mapsto> U\<lparr>u_chan_foot := c # u_chan_foot U\<rparr>)" "g_chans s' = (g_chans s)(c \<mapsto> joined u C)"
    "\<And>b. lowq s' b = lowq s b @ (if interactive C \<and> owner s b \<in> Some ` set (members s c) then [r1] else []) @
       (if owner s b = Some u then [r2] else [])" "highq s' = highq s"
    by (rule join_spec [OF assms(1-3) c assms(4)]) (rule that; assumption)
  have "members s' = (members s)(c := u # members s c)" "foot s' = (foot s)(u := c # foot s u)"
    using s'(3,4) assms(3,4) by (auto simp: members_def foot_def joined_def fun_eq_iff)
  then show ?thesis using s' by blast
qed

text \<open>C16. Leaving a channel completes and keeps the shared state consistent. The user's connections and
  then, on an interactive channel, those of the remaining members receive one message each; when the last
  member leaves a channel created for automatic destruction, the channel, its name and its public address
  are gone, and otherwise it stays with one member less.\<close>

theorem left_correct:
  assumes "quiet E" and "world s" and "g_users s u = Some U" and "g_chans s c = Some C" and "c \<in> set (foot s u)"
  shows "\<exists>s' r1 r2. left E u c s = Some s' \<and> world s' \<and>
     members s' = (members s)(c := remove1 u (members s c)) \<and> foot s' = (foot s)(u := remove1 c (foot s u)) \<and>
     (g_chans s' c = None \<longleftrightarrow> members s c = [u] \<and> c_flags C AND CHANNEL_AUTODESTROY \<noteq> 0) \<and>
     (\<forall>b. lowq s' b = lowq s b @ (if owner s b = Some u then [r1] else []) @
       (if interactive C \<and> owner s b \<in> Some ` set (remove1 u (members s c)) then [r2] else [])) \<and> highq s' = highq s"
proof -
  have c: "c \<in> set (u_chan_foot U)" using assms(3,5) by (simp add: foot_def)
  obtain s' r1 r2 where s': "left E u c s = Some s'" "world s'"
    "g_users s' = (g_users s)(u \<mapsto> U\<lparr>u_chan_foot := remove1 c (u_chan_foot U)\<rparr>)" "g_chans s' = (g_chans s)(c := without u C)"
    "\<And>b. lowq s' b = lowq s b @ (if owner s b = Some u then [r1] else []) @
       (if interactive C \<and> owner s b \<in> Some ` set (remove1 u (members s c)) then [r2] else [])" "highq s' = highq s"
    by (rule left_spec [OF assms(1-3) c assms(4)]) (rule that; assumption)
  note lk = left_links(1,2) [OF worldD(2) [OF assms(2)] assms(3,4) s'(3,4)]
  have mem: "u \<in> set (members s c)" using linkedD(3) [OF worldD(2) [OF assms(2)], of c u] assms(5) by simp
  have "remove1 u (members s c) = [] \<longleftrightarrow> members s c = [u]"
    using mem by (cases "members s c") auto
  then have "g_chans s' c = None \<longleftrightarrow> members s c = [u] \<and> c_flags C AND CHANNEL_AUTODESTROY \<noteq> 0"
    using s'(4) assms(4) remove_user_members [of u "c_head C"] by (auto simp: without_def Let_def members_def)
  then show ?thesis using s'(1,2,5,6) lk by (intro exI [of _ s'] exI [of _ r1] exI [of _ r2]) simp
qed

text \<open>C23. Removing a channel, by whoever asks for it, completes from any consistent state although its loop
  frees the member nodes it walks over: every member has left it, its name and public address are free
  again, the other channels are untouched and the shared state stays consistent.\<close>

theorem rmchan_correct:
  assumes "quiet E" and "world s" and "g_chans s c = Some C"
  shows "\<exists>s'. rmchan E c s = Some s' \<and> world s' \<and> g_chans s' = (g_chans s)(c := None) \<and>
     (\<forall>u. foot s' u = remove1 c (foot s u)) \<and> getchan (c_name C) s' = Some None"
proof -
  obtain s' where s': "rmchan E c s = Some s'" "world s'" "g_chans s' = (g_chans s)(c := None)"
    "\<And>u. foot s' u = remove1 c (foot s u)"
    by (rule rmchan_spec [OF assms]) (rule that; assumption)
  have "hashtbl_seek (g_hLusers s') (Some (c_name C)) = Some None"
  proof (rule indexes_seek [OF baseD(4) [OF worldD(1) [OF s'(2)]], of "c_name C"])
    fix d x assume d: "g_chans s' d = Some x" "strcaseeq (c_name C) (c_name x)"
    then have "g_chans s d = Some x" "d \<noteq> c" by (auto simp: s'(3) split: if_splits)
    then show ?thesis using indexes_inj [OF baseD(4) [OF worldD(1) [OF assms(2)]] assms(3)] d(2) by blast
  qed
  moreover have "length (c_name C) \<le> MAX_CHAN_LEN"
    using baseD(14) [OF worldD(1) [OF assms(2)] assms(3)] by (simp add: chan_ok_def)
  ultimately show ?thesis using s' by (auto simp: getchan_def)
qed

text \<open>A user that leaves every channel is a member of none, and no other membership changes.\<close>

lemma left_all_correct:
  assumes "quiet E" and "world s" and "u \<in> dom (g_users s)"
  shows "\<exists>s'. left_all E (Some u) s = Some s' \<and> world s' \<and> foot s' = (foot s)(u := []) \<and>
     (\<forall>c. members s' c = remove1 u (members s c))"
  by (rule left_all_spec [OF assms]) blast

section \<open>Creation\<close>

text \<open>C26. Creating a channel under a valid name that is not taken gives an empty channel, found under that
  name in any spelling of its letters, with a fresh address; an invalid name (too long for the buffer or
  with a forbidden character) creates nothing.\<close>

theorem mkchan_correct:
  assumes "quiet E" and "world s" and "getchan name s = Some None"
    and "gen_sessid_new (e_rand E) s (g_rpos s) = Some (k, pos)"
  shows "if fst (isvalidchan name)
     then \<exists>s' c C. mkchan E name fl s = Some (Some c, s') \<and> world s' \<and> g_chans s c = None \<and>
       g_chans s' = (g_chans s)(c \<mapsto> C) \<and> c_head C = [] \<and> c_name C = casefold name \<and>
       (\<forall>name'. strcaseeq name' name \<longrightarrow> getchan name' s' = Some (Some c))
     else mkchan E name fl s = Some (None, s)"
proof (cases "fst (isvalidchan name)")
  case False
  then show ?thesis using quietD(4) [OF assms(1)] by (cases "isvalidchan name") (simp add: mkchan_def)
next
  case True
  then obtain nm where v: "isvalidchan name = (True, nm)" by (cases "isvalidchan name") simp
  have l: "length name \<le> MAX_CHAN_LEN" by (rule isvalidchan_name(2) [OF v])
  then have f: "hashtbl_seek (g_hLusers s) (Some name) = Some None" using assms(3) by (simp add: getchan_def)
  obtain s' C where s': "mkchan E name fl s = Some (Some (g_next s), s')" "world s'" "g_chans s' = (g_chans s)(g_next s \<mapsto> C)"
    "c_name C = casefold name" "c_head C = []" "g_chans s (g_next s) = None"
    by (rule mkchan_spec [OF assms(1,2) v f assms(4)]) (rule that; assumption)
  have "getchan name' s' = Some (Some (g_next s))" if n: "strcaseeq name' name" for name'
  proof -
    have "casefold name' = casefold name" using n by (simp add: strcaseeq_def)
    then have "length name' = length name" by (metis length_map)
    moreover have "strcaseeq name' (c_name C)" using n by (simp add: s'(4) strcaseeq_def comp_def)
    ultimately show ?thesis
      using l indexes_hit [OF baseD(4) [OF worldD(1) [OF s'(2)]], of "g_next s" C] s'(3) by (simp add: getchan_def)
  qed
  then show ?thesis using True s' by auto
qed

section \<open>Levels and bans\<close>


text \<open>C24. Banning an address removes exactly the members with that address from the channel, whatever
  their number and position in the list the loop frees nodes of, and records one ban if there was such a
  member and the channel still exists; the shared state stays consistent even when the channel is
  destroyed on the way.\<close>

theorem ban_correct:
  assumes "quiet E" and "world s" and "g_chans s c = Some C" and "a \<in> dom (g_users s)"
  shows "\<exists>s'. ban E (Some c) (Some a) ip reason expire s = Some s' \<and> world s' \<and>
     members s' = (members s)(c := filter (\<lambda>u. \<not> hit s ip u) (members s c)) \<and>
     (\<forall>D. g_chans s' c = Some D \<longrightarrow> c_banned D =
       (if \<exists>u \<in> set (members s c). hit s ip u then ban_entry ip reason (ban_nextime expire s) # c_banned C
        else c_banned C))"
proof -
  obtain s' where s': "ban E (Some c) (Some a) ip reason expire s = Some s'" "world s'"
    "members s' = (members s)(c := filter (\<lambda>u. \<not> hit s ip u) (members s c))"
    "\<And>D. g_chans s' c = Some D \<Longrightarrow> c_banned D =
       (if \<exists>u \<in> set (members s c). hit s ip u then ban_entry ip reason (ban_nextime expire s) # c_banned C else c_banned C)"
    by (rule ban_spec [OF assms]) (rule that; assumption)
  then show ?thesis by blast
qed

lemma getban_loop_spec:
  "getban_loop now ip bs = (r, bs') \<Longrightarrow>
     r = find (\<lambda>b. now \<le> ban_expire b \<and> ban_ip b = ip) bs \<and>
     filter (\<lambda>b. now \<le> ban_expire b) bs' = filter (\<lambda>b. now \<le> ban_expire b) bs \<and>
     (r = None \<longrightarrow> bs' = filter (\<lambda>b. now \<le> ban_expire b) bs)"
proof (induction bs arbitrary: r bs')
  case (Cons b bs)
  show ?case
  proof (cases "ban_expire b < now")
    case True
    then show ?thesis using Cons.IH [of r bs'] Cons.prems by simp
  next
    case False
    then show ?thesis
      using Cons.IH [of r "tl bs'"] Cons.prems by (auto simp: apsnd_eq_Pair split: if_splits)
  qed
qed simp

text \<open>Looking up a ban finds the first entry for the address that has not expired, never an expired
  one, and drops only expired entries on the way.\<close>

lemma getban_correct:
  assumes "g_chans s c = Some C"
  shows "\<exists>s' D. getban c ip s = Some (find (\<lambda>b. g_now s \<le> ban_expire b \<and> ban_ip b = ip) (c_banned C), s') \<and>
     g_chans s' = (g_chans s)(c \<mapsto> D) \<and> D = C\<lparr>c_banned := c_banned D\<rparr> \<and>
     filter (\<lambda>b. g_now s \<le> ban_expire b) (c_banned D) = filter (\<lambda>b. g_now s \<le> ban_expire b) (c_banned C)"
proof -
  obtain r bs where l: "getban_loop (g_now s) ip (c_banned C) = (r, bs)" by (cases "getban_loop (g_now s) ip (c_banned C)")
  note g = getban_loop_spec [OF l]
  have "getban c ip s = Some (r, s\<lparr>g_chans := (g_chans s)(c \<mapsto> C\<lparr>c_banned := bs\<rparr>)\<rparr>)"
    using assms l by (simp add: getban_def upd_chan_def)
  then show ?thesis using g
    by (intro exI [of _ "s\<lparr>g_chans := (g_chans s)(c \<mapsto> C\<lparr>c_banned := bs\<rparr>)\<rparr>"] exI [of _ "C\<lparr>c_banned := bs\<rparr>"]) simp
qed

section \<open>The theorems on the sample state\<close>

theorem join_correct_witness:
  "\<exists>s' r1 r2. join sample_env 1 2 sample_world = Some s' \<and> world s' \<and>
     members s' = (members sample_world)(2 := 1 # members sample_world 2) \<and>
     foot s' = (foot sample_world)(1 := 2 # foot sample_world 1) \<and>
     (\<forall>b. lowq s' b = lowq sample_world b @
        (if interactive sample_chan \<and> owner sample_world b \<in> Some ` set (members sample_world 2) then [r1] else []) @
        (if owner sample_world b = Some 1 then [r2] else [])) \<and> highq s' = highq sample_world"
  by (rule join_correct [OF sample_env_hooks sample_world_ok sample_look(2,3)]) (simp add: sample_look [simplified])

theorem left_correct_witness:
  "\<exists>s' r1 r2. left sample_env 0 2 sample_world = Some s' \<and> world s' \<and>
     members s' = (members sample_world)(2 := remove1 0 (members sample_world 2)) \<and>
     foot s' = (foot sample_world)(0 := remove1 2 (foot sample_world 0)) \<and>
     (g_chans s' 2 = None \<longleftrightarrow> members sample_world 2 = [0] \<and> c_flags sample_chan AND CHANNEL_AUTODESTROY \<noteq> 0) \<and>
     (\<forall>b. lowq s' b = lowq sample_world b @ (if owner sample_world b = Some 0 then [r1] else []) @
       (if interactive sample_chan \<and> owner sample_world b \<in> Some ` set (remove1 0 (members sample_world 2)) then [r2] else [])) \<and>
     highq s' = highq sample_world"
  by (rule left_correct [OF sample_env_hooks sample_world_ok sample_look(1,3)]) (simp add: sample_look)

theorem rmchan_correct_witness:
  "\<exists>s'. rmchan sample_env 2 sample_world = Some s' \<and> world s' \<and> g_chans s' = (g_chans sample_world)(2 := None) \<and>
     (\<forall>u. foot s' u = remove1 2 (foot sample_world u)) \<and> getchan (c_name sample_chan) s' = Some None"
  by (rule rmchan_correct [OF sample_env_hooks sample_world_ok sample_look(3)])

theorem mkchan_correct_witness:
  "if fst (isvalidchan ''News'')
     then \<exists>s' c C. mkchan sample_env ''News'' 0 sample_world = Some (Some c, s') \<and> world s' \<and> g_chans sample_world c = None \<and>
       g_chans s' = (g_chans sample_world)(c \<mapsto> C) \<and> c_head C = [] \<and> c_name C = casefold ''News'' \<and>
       (\<forall>name'. strcaseeq name' ''News'' \<longrightarrow> getchan name' s' = Some (Some c))
     else mkchan sample_env ''News'' 0 sample_world = Some (None, sample_world)"
proof -
  obtain k pos where "gen_sessid_new (e_rand sample_env) sample_world (g_rpos sample_world) = Some (k, pos)"
    using sample_gen by blast
  then show ?thesis
    by (rule mkchan_correct [OF sample_env_hooks sample_world_ok, rotated]) (simp add: getchan_def sample_seek MAX_CHAN_LEN_def)
qed


theorem ban_correct_witness:
  "\<exists>s'. ban sample_env (Some 2) (Some 1) ''10.0.0.1'' ''spam'' 5 sample_world = Some s' \<and> world s' \<and>
     members s' = (members sample_world)(2 := filter (\<lambda>u. \<not> hit sample_world ''10.0.0.1'' u) (members sample_world 2)) \<and>
     (\<forall>D. g_chans s' 2 = Some D \<longrightarrow> c_banned D =
       (if \<exists>u \<in> set (members sample_world 2). hit sample_world ''10.0.0.1'' u
        then ban_entry ''10.0.0.1'' ''spam'' (ban_nextime 5 sample_world) # c_banned sample_chan
        else c_banned sample_chan))"
  by (rule ban_correct [OF sample_env_hooks sample_world_ok sample_look(3,7)])

end
