(* ===== verification/Ape_Ticks.thy ===== *)
theory Ape_Ticks
  imports Ape_Prelude
begin

text \<open>
  Timers, from \<open>src/ticks.c\<close>: a list in which each timer stores the delay after its predecessor. The
  functions the timers call are a parameter: given function and parameter numbers, whether this is the
  last call, the timers and the rest of the state, they give the flag, the timers and the state back, or
  \<open>None\<close> if they do not return. A timer is found again by its identifier.
\<close>

section \<open>Data and operations\<close>

record ticks_callback =
  tk_ticks_need :: int
  tk_delta :: int
  tk_times :: int
  tk_identifier :: nat
  tk_protect :: nat
  tk_func :: nat
  tk_params :: nat

record timers =
  tm_timers :: "ticks_callback list"
  tm_ntimers :: nat

type_synonym 's func_timer = "nat \<Rightarrow> nat \<Rightarrow> bool \<Rightarrow> timers \<Rightarrow> 's \<Rightarrow> (bool \<times> timers \<times> 's) option"

text \<open>The loop of \<open>add_timeout\<close>.\<close>

fun insert_timer :: "ticks_callback \<Rightarrow> ticks_callback list \<Rightarrow> ticks_callback list" where
  "insert_timer new [] = [new]"
| "insert_timer new (t # ts) =
     (if tk_delta new \<le> tk_delta t then new # t\<lparr>tk_delta := tk_delta t - tk_delta new\<rparr> # ts
      else t # insert_timer (new\<lparr>tk_delta := tk_delta new - tk_delta t\<rparr>) ts)"

definition new_timer :: "int \<Rightarrow> nat \<Rightarrow> nat \<Rightarrow> timers \<Rightarrow> ticks_callback" where
  "new_timer msec callback params T =
     \<lparr>tk_ticks_need = msec, tk_delta = msec, tk_times = 1, tk_identifier = tm_ntimers T, tk_protect = 1,
      tk_func = callback, tk_params = params\<rparr>"

definition add_timeout :: "int \<Rightarrow> nat \<Rightarrow> nat \<Rightarrow> timers \<Rightarrow> timers" where
  "add_timeout msec callback params T =
     T\<lparr>tm_timers := insert_timer (new_timer msec callback params T) (tm_timers T), tm_ntimers := Suc (tm_ntimers T)\<rparr>"

text \<open>\<open>new_timer->times = times\<close> on the timer that is now in the list.\<close>

definition add_periodical :: "int \<Rightarrow> int \<Rightarrow> nat \<Rightarrow> nat \<Rightarrow> timers \<Rightarrow> timers" where
  "add_periodical msec tms callback params T =
     T\<lparr>tm_timers := insert_timer ((new_timer msec callback params T)\<lparr>tk_times := tms\<rparr>) (tm_timers T),
       tm_ntimers := Suc (tm_ntimers T)\<rparr>"

definition get_timer_identifier :: "nat \<Rightarrow> timers \<Rightarrow> ticks_callback option" where
  "get_timer_identifier identifier T = find (\<lambda>t. tk_identifier t = identifier) (tm_timers T)"

fun del_timer :: "nat \<Rightarrow> ticks_callback list \<Rightarrow> ticks_callback list" where
  "del_timer identifier [] = []"
| "del_timer identifier (t # ts) = (if tk_identifier t = identifier then ts else t # del_timer identifier ts)"

definition del_timer_identifier :: "nat \<Rightarrow> timers \<Rightarrow> timers" where
  "del_timer_identifier identifier T = T\<lparr>tm_timers := del_timer identifier (tm_timers T)\<rparr>"

definition get_first_timer_ms :: "timers \<Rightarrow> int" where
  "get_first_timer_ms T = (case tm_timers T of [] \<Rightarrow> -1 | t # _ \<Rightarrow> tk_delta t)"

text \<open>\<open>timers->times > 0 && --timers->times == 0\<close>: the number of calls left, and whether this is the last.\<close>

definition count_call :: "ticks_callback \<Rightarrow> ticks_callback" where
  "count_call t = (if tk_times t > 0 then t\<lparr>tk_times := tk_times t - 1\<rparr> else t)"

definition last_call :: "ticks_callback \<Rightarrow> bool" where
  "last_call t \<longleftrightarrow> tk_times t = 1"

text \<open>\<open>timers->next\<close> of a timer in the list.\<close>

fun after_timer :: "nat \<Rightarrow> ticks_callback list \<Rightarrow> (ticks_callback \<times> ticks_callback list) option" where
  "after_timer identifier [] = None"
| "after_timer identifier (t # ts) = (if tk_identifier t = identifier then Some (t, ts) else after_timer identifier ts)"

definition bump :: "ticks_callback list \<Rightarrow> ticks_callback list" where
  "bump ts = (case ts of [] \<Rightarrow> [] | t # ts \<Rightarrow> t\<lparr>tk_delta := tk_delta t + 1\<rparr> # ts)"

text \<open>The renewed timer: \<open>add_timeout\<close>, then identifier, times and protection of the old one.\<close>

definition renew :: "ticks_callback \<Rightarrow> ticks_callback list \<Rightarrow> ticks_callback list" where
  "renew t ts = insert_timer (t\<lparr>tk_delta := tk_ticks_need t\<rparr>) ts"

partial_function (option) process_tick :: "'s func_timer \<Rightarrow> timers \<Rightarrow> 's \<Rightarrow> (timers \<times> 's) option" where
  "process_tick call T s =
     (case tm_timers T of
        [] \<Rightarrow> Some (T, s)
      | t # ts \<Rightarrow>
          (if tk_delta t - 1 \<le> 0 then do {
             let t' = count_call (t\<lparr>tk_delta := tk_delta t - 1\<rparr>);
             (lastcall, T, s) \<leftarrow> call (tk_func t) (tk_params t) (last_call t) (T\<lparr>tm_timers := t' # ts\<rparr>) s;
             (t', rest) \<leftarrow> after_timer (tk_identifier t) (tm_timers T);
             process_tick call (T\<lparr>tm_timers := bump (if lastcall then rest else renew t' rest)\<rparr>) s }
           else Some (T\<lparr>tm_timers := t\<lparr>tk_delta := tk_delta t - 1\<rparr> # ts\<rparr>, s)))"

section \<open>Specification\<close>

text \<open>The timers with the number of ticks until they are due.\<close>

fun dues_from :: "int \<Rightarrow> ticks_callback list \<Rightarrow> (int \<times> ticks_callback) list" where
  "dues_from b [] = []"
| "dues_from b (t # ts) = (b + tk_delta t, t\<lparr>tk_delta := 0\<rparr>) # dues_from (b + tk_delta t) ts"

definition dues :: "timers \<Rightarrow> (int \<times> ticks_callback) list" where
  "dues T = dues_from 0 (tm_timers T)"

fun schedule :: "int \<times> ticks_callback \<Rightarrow> (int \<times> ticks_callback) list \<Rightarrow> (int \<times> ticks_callback) list" where
  "schedule x [] = [x]"
| "schedule x (y # ys) = (if fst x \<le> fst y then x # y # ys else y # schedule x ys)"

text \<open>Functions that leave the timers alone: they change the state and may ask not to be called again.\<close>

definition tame :: "(nat \<Rightarrow> nat \<Rightarrow> bool \<Rightarrow> 's \<Rightarrow> 's) \<Rightarrow> (nat \<Rightarrow> nat \<Rightarrow> bool \<Rightarrow> 's \<Rightarrow> bool) \<Rightarrow> 's func_timer \<Rightarrow> bool" where
  "tame eff stop call \<longleftrightarrow> (\<forall>f p l T s. call f p l T s = Some (l \<or> stop f p l s, T, eff f p l s))"

text \<open>The calls of the timers that are due, in order, and those that are to be called again.\<close>

fun run_due ::
  "(nat \<Rightarrow> nat \<Rightarrow> bool \<Rightarrow> 's \<Rightarrow> 's) \<Rightarrow> (nat \<Rightarrow> nat \<Rightarrow> bool \<Rightarrow> 's \<Rightarrow> bool) \<Rightarrow> ticks_callback list \<Rightarrow> 's \<Rightarrow> ticks_callback list \<times> 's" where
  "run_due eff stop [] s = ([], s)"
| "run_due eff stop (t # ts) s =
     (let (again, s') = run_due eff stop ts (eff (tk_func t) (tk_params t) (last_call t) s) in
      (if last_call t \<or> stop (tk_func t) (tk_params t) (last_call t) s then again else count_call t # again, s'))"

definition tick_spec ::
  "(nat \<Rightarrow> nat \<Rightarrow> bool \<Rightarrow> 's \<Rightarrow> 's) \<Rightarrow> (nat \<Rightarrow> nat \<Rightarrow> bool \<Rightarrow> 's \<Rightarrow> bool) \<Rightarrow> (int \<times> ticks_callback) list \<Rightarrow> 's \<Rightarrow>
   (int \<times> ticks_callback) list \<times> 's" where
  "tick_spec eff stop D s =
     (let (again, s') = run_due eff stop (map snd (takeWhile (\<lambda>x. fst x = 1) D)) s in
      (fold (\<lambda>t. schedule (tk_ticks_need t, t)) again
         (map (\<lambda>x. (fst x - 1, snd x)) (dropWhile (\<lambda>x. fst x = 1) D)), s'))"

section \<open>Lemmas\<close>

lemma dues_insert: "dues_from b (insert_timer new ts) = schedule (b + tk_delta new, new\<lparr>tk_delta := 0\<rparr>) (dues_from b ts)"
  by (induction new ts arbitrary: b rule: insert_timer.induct) (auto simp: algebra_simps)

lemma dues_bump: "dues_from (b - 1) (bump ts) = dues_from b ts"
  by (cases ts) (simp_all add: bump_def)

lemma dues_shift: "dues_from (b - c) ts = map (\<lambda>x. (fst x - c, snd x)) (dues_from b ts)"
proof (induction ts arbitrary: b)
  case (Cons t ts)
  have e: "b - c + tk_delta t = b + tk_delta t - c" by simp
  show ?case using Cons.IH [of "b + tk_delta t"] by (simp add: e)
qed simp

lemma schedule_past: "\<forall>y \<in> set ys. fst y < fst x \<Longrightarrow> schedule x (ys @ zs) = ys @ schedule x zs"
  by (induction ys) auto

lemma schedule_set: "set (schedule x ys) = insert x (set ys)"
  by (induction ys) auto

lemma schedule_sorted: "sorted (map fst ys) \<Longrightarrow> sorted (map fst (schedule x ys))"
  by (induction ys) (auto simp: schedule_set)

lemma count_call_sel [simp]:
  "tk_delta (count_call t) = tk_delta t" "tk_ticks_need (count_call t) = tk_ticks_need t" "tk_identifier (count_call t) = tk_identifier t"
  "tk_func (count_call t) = tk_func t" "tk_params (count_call t) = tk_params t"
  by (simp_all add: count_call_def)

lemma count_call_delta: "(count_call t)\<lparr>tk_delta := d\<rparr> = count_call (t\<lparr>tk_delta := d\<rparr>)"
  by (simp add: count_call_def)

lemma last_call_delta [simp]: "last_call (t\<lparr>tk_delta := d\<rparr>) = last_call t"
  by (simp add: last_call_def)

text \<open>One pass of the loop, with the due timers still at the head of the list: they are due at 0 from now.\<close>

lemma process_loop:
  assumes tm: "tame eff stop call" and D: "dues_from (- 1) (tm_timers T) = map (Pair 0) F @ R"
    and R: "\<forall>x \<in> set R. 0 < fst x" and n: "\<forall>t \<in> set F. 0 < tk_ticks_need t"
  shows "\<exists>T'. process_tick call T s = Some (T', snd (run_due eff stop F s)) \<and> tm_ntimers T' = tm_ntimers T \<and>
     dues T' = fold (\<lambda>t. schedule (tk_ticks_need t, t)) (fst (run_due eff stop F s)) R"
  using D R n
proof (induction F arbitrary: T s R)
  case Nil
  show ?case
  proof (cases "tm_timers T")
    case Nil
    then show ?thesis using Nil.prems(1) by (subst process_tick.simps) (simp add: dues_def)
  next
    case (Cons t ts)
    have "0 < tk_delta t - 1" using Nil.prems Cons by auto
    moreover have "dues_from 0 (t\<lparr>tk_delta := tk_delta t - 1\<rparr> # ts) = R" using Nil.prems(1) Cons by simp
    ultimately show ?thesis using Cons by (subst process_tick.simps) (simp add: dues_def)
  qed
next
  case (Cons f F)
  obtain t ts where t: "tm_timers T = t # ts" using Cons.prems(1) by (cases "tm_timers T") auto
  have d: "tk_delta t = 1" "t\<lparr>tk_delta := 0\<rparr> = f" "dues_from 0 ts = map (Pair 0) F @ R" using Cons.prems(1) t by auto
  have f: "tk_func f = tk_func t" "tk_params f = tk_params t" "last_call f = last_call t" "tk_ticks_need f = tk_ticks_need t"
    using d(2) by auto
  let ?l = "last_call t \<or> stop (tk_func t) (tk_params t) (last_call t) s" and ?s = "eff (tk_func t) (tk_params t) (last_call t) s"
  let ?t = "count_call (t\<lparr>tk_delta := 0\<rparr>)"
  let ?ts = "if ?l then ts else renew ?t ts" and ?R = "if ?l then R else schedule (tk_ticks_need f, count_call f) R"
  have rn: "dues_from 0 (renew ?t ts) = schedule (tk_ticks_need f, count_call f) (map (Pair 0) F @ R)"
    using d(3) unfolding d(2) [symmetric] by (simp add: renew_def dues_insert count_call_delta)
  have "schedule (tk_ticks_need f, count_call f) (map (Pair 0) F @ R) = map (Pair 0) F @ schedule (tk_ticks_need f, count_call f) R"
    by (rule schedule_past) (use Cons.prems(3) in auto)
  then have D: "dues_from (- 1) (bump ?ts) = map (Pair 0) F @ ?R" using dues_bump [of 0] d(3) rn by auto
  have R: "\<forall>x \<in> set ?R. 0 < fst x" using Cons.prems(2,3) by (auto simp: schedule_set)
  have st: "process_tick call T s = process_tick call (T\<lparr>tm_timers := bump ?ts\<rparr>) ?s"
    using tm t d(1) by (subst process_tick.simps) (simp add: tame_def Let_def)
  have "\<exists>T'. process_tick call (T\<lparr>tm_timers := bump ?ts\<rparr>) ?s = Some (T', snd (run_due eff stop F ?s)) \<and>
      tm_ntimers T' = tm_ntimers T \<and> dues T' = fold (\<lambda>t. schedule (tk_ticks_need t, t)) (fst (run_due eff stop F ?s)) ?R"
    using Cons.IH [of "T\<lparr>tm_timers := bump ?ts\<rparr>" ?R ?s] D R Cons.prems(3) by simp
  then show ?case unfolding st by (auto simp: f split: prod.splits)
qed


text \<open>Timers in order of their delays, all still to come, with distinct identifiers given out already.\<close>

definition dues_ok :: "nat \<Rightarrow> (int \<times> ticks_callback) list \<Rightarrow> bool" where
  "dues_ok n D \<longleftrightarrow> sorted (map fst D) \<and>
     (\<forall>x \<in> set D. 1 \<le> fst x \<and> 1 \<le> tk_ticks_need (snd x) \<and> tk_identifier (snd x) < n) \<and>
     distinct (map (\<lambda>x. tk_identifier (snd x)) D)"

definition timers_ok :: "timers \<Rightarrow> bool" where
  "timers_ok T \<longleftrightarrow> dues_ok (tm_ntimers T) (dues T)"

lemma due_split:
  assumes "dues_ok n D"
  shows "takeWhile (\<lambda>x. fst x = 1) D = map (Pair 1) (map snd (takeWhile (\<lambda>x. fst x = 1) D))"
    "\<forall>x \<in> set (dropWhile (\<lambda>x. fst x = 1) D). 1 < fst x"
proof -
  show "takeWhile (\<lambda>x. fst x = 1) D = map (Pair 1) (map snd (takeWhile (\<lambda>x. fst x = 1) D))"
    by (induction D) auto
  show "\<forall>x \<in> set (dropWhile (\<lambda>x. fst x = 1) D). 1 < fst x" using assms
    by (induction D) (auto simp: dues_ok_def)
qed

lemma process_tick_spec:
  assumes tm: "tame eff stop call" and T: "timers_ok T"
  shows "\<exists>T'. process_tick call T s = Some (T', snd (tick_spec eff stop (dues T) s)) \<and> tm_ntimers T' = tm_ntimers T \<and>
     dues T' = fst (tick_spec eff stop (dues T) s)"
proof -
  let ?F = "takeWhile (\<lambda>x. fst x = 1) (dues T)" and ?R = "dropWhile (\<lambda>x. fst x = 1) (dues T)"
  have ok: "dues_ok (tm_ntimers T) (dues T)" using T by (simp add: timers_ok_def)
  have "dues_from (- 1) (tm_timers T) = map (\<lambda>x. (fst x - 1, snd x)) (?F @ ?R)"
    using dues_shift [of 0 1 "tm_timers T"] by (simp add: dues_def)
  also have "\<dots> = map (Pair 0) (map snd ?F) @ map (\<lambda>x. (fst x - 1, snd x)) ?R"
    by (subst due_split(1) [OF ok]) (simp add: comp_def)
  finally have D: "dues_from (- 1) (tm_timers T) = map (Pair 0) (map snd ?F) @ map (\<lambda>x. (fst x - 1, snd x)) ?R" .
  have R: "\<forall>x \<in> set (map (\<lambda>x. (fst x - 1, snd x)) ?R). 0 < fst x" using due_split(2) [OF ok] by auto
  have n: "\<forall>t \<in> set (map snd ?F). 0 < tk_ticks_need t" using ok by (force simp: dues_ok_def dest: set_takeWhileD)
  show ?thesis using process_loop [OF tm D R n, of s] by (simp add: tick_spec_def case_prod_beta)
qed

text \<open>What is called again is part of what was due, with one call less.\<close>

lemma run_due_ids:
  "t \<in> set (fst (run_due eff stop F s)) \<Longrightarrow> \<exists>t' \<in> set F. \<not> last_call t' \<and> tk_identifier t' = tk_identifier t"
proof (induction F arbitrary: s)
  case (Cons f F)
  then show ?case using Cons.IH [of "eff (tk_func f) (tk_params f) (last_call f) s"] by (auto simp: case_prod_beta split: if_splits)
qed simp

lemma run_due_sub: "tk_identifier ` set (fst (run_due eff stop F s)) \<subseteq> tk_identifier ` set F"
proof
  fix i
  assume "i \<in> tk_identifier ` set (fst (run_due eff stop F s))"
  then obtain t where "t \<in> set (fst (run_due eff stop F s))" "i = tk_identifier t" by blast
  then show "i \<in> tk_identifier ` set F" using run_due_ids [of t] by (metis imageI)
qed

lemma run_due_distinct: "distinct (map tk_identifier F) \<Longrightarrow> distinct (map tk_identifier (fst (run_due eff stop F s)))"
proof (induction F arbitrary: s)
  case (Cons t F)
  have "tk_identifier t \<notin> tk_identifier ` set (fst (run_due eff stop F s'))" for s'
    using run_due_sub [of eff stop F s'] Cons.prems by auto
  then show ?case using Cons by (auto simp: case_prod_beta)
qed simp

lemma run_due_need:
  "\<forall>t \<in> set F. 1 \<le> tk_ticks_need t \<and> tk_identifier t < n \<Longrightarrow>
   \<forall>t \<in> set (fst (run_due eff stop F s)). 1 \<le> tk_ticks_need t \<and> tk_identifier t < n"
  by (induction F arbitrary: s) (auto simp: case_prod_beta)

lemma dues_ok_schedule:
  "dues_ok n D \<Longrightarrow> 1 \<le> d \<Longrightarrow> 1 \<le> tk_ticks_need t \<Longrightarrow> tk_identifier t < n \<Longrightarrow> tk_identifier t \<notin> set (map (\<lambda>x. tk_identifier (snd x)) D) \<Longrightarrow>
   dues_ok n (schedule (d, t) D)"
proof -
  have d: "distinct (map g (schedule x D)) \<longleftrightarrow> g x \<notin> set (map g D) \<and> distinct (map g D)" for g :: "int \<times> ticks_callback \<Rightarrow> nat" and x
    by (induction D) (auto simp: schedule_set)
  show "dues_ok n D \<Longrightarrow> 1 \<le> d \<Longrightarrow> 1 \<le> tk_ticks_need t \<Longrightarrow> tk_identifier t < n \<Longrightarrow> tk_identifier t \<notin> set (map (\<lambda>x. tk_identifier (snd x)) D) \<Longrightarrow>
   dues_ok n (schedule (d, t) D)"
    unfolding dues_ok_def d by (simp add: schedule_sorted schedule_set)
qed

lemma fold_schedule:
  assumes "dues_ok n D" "\<And>t. t \<in> set ts \<Longrightarrow> 1 \<le> tk_ticks_need t \<and> tk_identifier t < n" "distinct (map tk_identifier ts)"
    "set (map tk_identifier ts) \<inter> set (map (\<lambda>x. tk_identifier (snd x)) D) = {}"
  shows "dues_ok n (fold (\<lambda>t. schedule (tk_ticks_need t, t)) ts D)" (is ?A)
    "set (fold (\<lambda>t. schedule (tk_ticks_need t, t)) ts D) = (\<lambda>t. (tk_ticks_need t, t)) ` set ts \<union> set D" (is ?B)
proof -
  show ?A using assms
  proof (induction ts arbitrary: D)
    case (Cons t ts)
    have "dues_ok n (schedule (tk_ticks_need t, t) D)" by (rule dues_ok_schedule) (use Cons.prems in auto)
    moreover have "set (map tk_identifier ts) \<inter> set (map (\<lambda>x. tk_identifier (snd x)) (schedule (tk_ticks_need t, t) D)) = {}"
      using Cons.prems(3,4) by (auto simp: schedule_set)
    ultimately show ?case using Cons.IH Cons.prems(2,3) by simp
  qed simp
  show ?B by (induction ts arbitrary: D) (auto simp: schedule_set)
qed

text \<open>A tick keeps the order, brings a timer that is not yet due one step nearer, and drops a last call.\<close>

lemma tick_spec_ok:
  assumes ok: "dues_ok n D"
  shows "dues_ok n (fst (tick_spec eff stop D s))" (is ?A)
    and "(d, t) \<in> set D \<Longrightarrow> 1 < d \<Longrightarrow> (d - 1, t) \<in> set (fst (tick_spec eff stop D s))" (is "?P \<Longrightarrow> ?Q \<Longrightarrow> ?B")
    and "(1, t) \<in> set D \<Longrightarrow> last_call t \<Longrightarrow> tk_identifier t \<notin> (\<lambda>x. tk_identifier (snd x)) ` set (fst (tick_spec eff stop D s))" (is "?U \<Longrightarrow> ?V \<Longrightarrow> ?C")
proof -
  define F where "F = takeWhile (\<lambda>x. fst x = 1) D"
  define R where "R = dropWhile (\<lambda>x. fst x = 1) D"
  define again where "again = fst (run_due eff stop (map snd F) s)"
  let ?R = "map (\<lambda>x. (fst x - 1, snd x)) R"
  have D: "D = F @ R" by (simp add: F_def R_def)
  have f: "\<forall>x \<in> set F. fst x = 1" by (auto simp: F_def dest: set_takeWhileD)
  have r: "\<forall>x \<in> set R. 1 < fst x" using due_split(2) [OF ok] by (simp add: R_def)
  have out: "fst (tick_spec eff stop D s) = fold (\<lambda>t. schedule (tk_ticks_need t, t)) again ?R"
    by (simp add: tick_spec_def again_def F_def R_def case_prod_beta)
  have ids: "distinct (map tk_identifier (map snd F))" "tk_identifier ` snd ` set F \<inter> tk_identifier ` snd ` set R = {}"
    using ok unfolding dues_ok_def D by (auto simp: comp_def)
  have "sorted (map fst R)" using ok unfolding dues_ok_def D by (simp add: sorted_append)
  then have "sorted (map (\<lambda>x. fst x - 1) R)" unfolding sorted_map
    by (rule sorted_wrt_mono_rel [rotated]) simp
  then have okR: "dues_ok n ?R" using ok r unfolding dues_ok_def D by (auto simp: comp_def)
  have need: "\<forall>t \<in> set again. 1 \<le> tk_ticks_need t \<and> tk_identifier t < n"
    unfolding again_def by (rule run_due_need) (use ok D in \<open>auto simp: dues_ok_def\<close>)
  have sub: "tk_identifier ` set again \<subseteq> tk_identifier ` snd ` set F" using run_due_sub [of eff stop "map snd F" s] by (simp add: again_def)
  have dis: "distinct (map tk_identifier again)" unfolding again_def by (rule run_due_distinct) (rule ids(1))
  have sep: "set (map tk_identifier again) \<inter> set (map (\<lambda>x. tk_identifier (snd x)) ?R) = {}"
    using sub ids(2) by (auto simp: image_image)
  note fs = fold_schedule [OF okR _ dis sep]
  show ?A unfolding out by (rule fs(1)) (use need in blast)
  have set_out: "set (fst (tick_spec eff stop D s)) = (\<lambda>t. (tk_ticks_need t, t)) ` set again \<union> set ?R"
    unfolding out by (rule fs(2)) (use need in blast)
  show ?B if p: ?P and q: ?Q
  proof -
    have "(d, t) \<in> set R" using p q f D by fastforce
    then show ?thesis unfolding set_out by force
  qed
  show ?C if tD: ?U and l: ?V
  proof
    assume "tk_identifier t \<in> (\<lambda>x. tk_identifier (snd x)) ` set (fst (tick_spec eff stop D s))"
    then consider t' where "t' \<in> set again" "tk_identifier t' = tk_identifier t" | x where "x \<in> set R" "tk_identifier (snd x) = tk_identifier t"
      unfolding set_out by auto
    moreover have tF: "(1, t) \<in> set F" using tD r D by auto
    ultimately show False
    proof cases
      case 1
      then obtain x where x: "x \<in> set F" "\<not> last_call (snd x)" "tk_identifier (snd x) = tk_identifier t"
        using run_due_ids [of t' eff stop "map snd F" s] by (auto simp: again_def)
      have "inj_on (\<lambda>x. tk_identifier (snd x)) (set F)" using ids(1) by (simp add: distinct_map comp_def)
      then have "x = (1, t)" by (rule inj_onD) (use x tF in simp_all)
      then show False using x(2) l by simp
    next
      case 2
      then show False using tF ids(2) by force
    qed
  qed
qed


section \<open>Correctness\<close>

text \<open>The server loop: one tick after the other.\<close>

fun run_ticks :: "nat \<Rightarrow> 's func_timer \<Rightarrow> timers \<Rightarrow> 's \<Rightarrow> (timers \<times> 's) option" where
  "run_ticks 0 call T s = Some (T, s)"
| "run_ticks (Suc n) call T s = do { (T, s) \<leftarrow> process_tick call T s; run_ticks n call T s }"

lemma dues_add_timeout:
  "dues (add_timeout msec f p T) = schedule (msec, (new_timer msec f p T)\<lparr>tk_delta := 0\<rparr>) (dues T)"
  by (simp add: dues_def add_timeout_def dues_insert new_timer_def)

lemma add_timeout_ok:
  assumes "timers_ok T" "1 \<le> msec"
  shows "timers_ok (add_timeout msec f p T)"
proof -
  have "dues_ok (Suc (tm_ntimers T)) (dues T)" using assms(1) by (force simp: timers_ok_def dues_ok_def)
  moreover have "tm_ntimers T \<notin> set (map (\<lambda>x. tk_identifier (snd x)) (dues T))" using assms(1) by (force simp: timers_ok_def dues_ok_def)
  ultimately have "dues_ok (Suc (tm_ntimers T)) (schedule (msec, (new_timer msec f p T)\<lparr>tk_delta := 0\<rparr>) (dues T))"
    by (intro dues_ok_schedule) (use assms(2) in \<open>simp_all add: new_timer_def\<close>)
  then show ?thesis unfolding timers_ok_def dues_add_timeout by (simp add: add_timeout_def)
qed

lemma process_tick_step:
  assumes "tame eff stop call" "timers_ok T"
  obtains T' where "process_tick call T s = Some (T', snd (tick_spec eff stop (dues T) s))" "timers_ok T'"
    "tm_ntimers T' = tm_ntimers T" "dues T' = fst (tick_spec eff stop (dues T) s)"
proof -
  obtain T' where T': "process_tick call T s = Some (T', snd (tick_spec eff stop (dues T) s))"
    "tm_ntimers T' = tm_ntimers T" "dues T' = fst (tick_spec eff stop (dues T) s)"
    using process_tick_spec [OF assms] by blast
  have "timers_ok T'" using tick_spec_ok(1) assms(2) T'(2,3) by (simp add: timers_ok_def)
  then show thesis using T' that by blast
qed

lemma run_ticks_due:
  assumes "tame eff stop call" "timers_ok T" "(d, t) \<in> set (dues T)" "int n < d"
  shows "\<exists>T' s'. run_ticks n call T s = Some (T', s') \<and> timers_ok T' \<and> (d - int n, t) \<in> set (dues T')"
  using assms(2-4)
proof (induction n arbitrary: T d s)
  case (Suc n)
  obtain T1 where T1: "process_tick call T s = Some (T1, snd (tick_spec eff stop (dues T) s))" "timers_ok T1"
    "dues T1 = fst (tick_spec eff stop (dues T) s)"
    using process_tick_step [OF assms(1) Suc.prems(1)] by blast
  have "(d - 1, t) \<in> set (dues T1)" unfolding T1(3)
    by (rule tick_spec_ok(2) [where n="tm_ntimers T"]) (use Suc.prems in \<open>auto simp: timers_ok_def\<close>)
  then show ?case using Suc.IH [OF T1(2), of "d - 1" "snd (tick_spec eff stop (dues T) s)"] Suc.prems(3) T1(1) by (simp add: algebra_simps)
qed simp

lemma run_due_log:
  "\<exists>xs. snd (run_due (\<lambda>f p l s. s @ [(f, p, l)]) stop F s) = s @ xs \<and> xs = map (\<lambda>t. (tk_func t, tk_params t, last_call t)) F"
  by (induction F arbitrary: s) (auto simp: case_prod_beta)

lemma due_ids: "tk_identifier ` set ts = (\<lambda>x. tk_identifier (snd x)) ` set (dues_from b ts)"
  by (induction ts arbitrary: b) auto

lemma get_timer_none: "get_timer_identifier i T = None \<longleftrightarrow> i \<notin> (\<lambda>x. tk_identifier (snd x)) ` set (dues T)"
  unfolding dues_def due_ids [symmetric] by (auto simp: get_timer_identifier_def find_None_iff)

text \<open>C17. One tick. For functions that leave the timers alone, \<open>process_tick\<close> returns; it calls exactly the
  timers that are due now, in the order of the list; those that go on are entered again at their period,
  before the timers due at the same time; every other timer is one tick nearer.\<close>

theorem process_tick_refines:
  assumes "tame eff stop call" "timers_ok T"
  shows "\<exists>T'. process_tick call T s = Some (T', snd (tick_spec eff stop (dues T) s)) \<and>
     dues T' = fst (tick_spec eff stop (dues T) s) \<and> timers_ok T'"
  by (rule process_tick_step [OF assms]) blast


text \<open>A deleted timer takes its own delay with it: every later timer comes early by it.\<close>

lemma del_timer_early:
  assumes "tm_timers T = as @ t # bs" "tk_identifier t \<notin> tk_identifier ` set as"
  shows "dues (del_timer_identifier (tk_identifier t) T) =
     dues (T\<lparr>tm_timers := as\<rparr>) @ map (\<lambda>x. (fst x - tk_delta t, snd x)) (drop (Suc (length as)) (dues T))"
proof -
  have app: "dues_from b (as @ bs) = dues_from b as @ dues_from (b + sum_list (map tk_delta as)) bs" for b as bs
    by (induction as arbitrary: b) (auto simp: algebra_simps)
  have len: "length (dues_from b as) = length as" for b as by (induction as arbitrary: b) auto
  have del: "del_timer (tk_identifier t) (as @ t # bs) = as @ bs" using assms(2) by (induction as) auto
  show ?thesis unfolding dues_def del_timer_identifier_def
    using dues_shift [of "sum_list (map tk_delta as) + tk_delta t" "tk_delta t" bs] by (simp add: assms(1) del app len)
qed

text \<open>Timers at work: a periodical one and a timeout.\<close>

definition sample_call :: "(nat \<times> nat \<times> bool) list func_timer" where
  "sample_call f p l T s = Some (l, T, s @ [(f, p, l)])"

definition sample_timers :: timers where
  "sample_timers = add_periodical 3 0 1 10 (add_timeout 2 7 8 \<lparr>tm_timers = [], tm_ntimers = 0\<rparr>)"

lemma sample_timers_ok: "timers_ok sample_timers" "tame (\<lambda>f p l s. s @ [(f, p, l)]) (\<lambda>_ _ _ _. False) sample_call"
  by (simp_all add: sample_timers_def timers_ok_def dues_ok_def dues_def add_periodical_def add_timeout_def new_timer_def tame_def sample_call_def)

theorem process_tick_refines_witness:
  "\<exists>T'. process_tick sample_call (add_timeout 1 4 5 sample_timers) [] = Some (T', [(4, 5, True)])"
  using process_tick_refines [OF sample_timers_ok(2), of "add_timeout 1 4 5 sample_timers" "[]"] add_timeout_ok [OF sample_timers_ok(1), of 1 4 5]
  by (auto simp add: dues_add_timeout sample_timers_def dues_def add_periodical_def add_timeout_def new_timer_def tick_spec_def last_call_def)


end
