(* ===== verification/Ape_Json_Parser.thy ===== *)
theory Ape_Json_Parser
  imports Ape_Json
begin

text \<open>
  The JSON reader: the push-down automaton of \<open>src/json_parser.c\<close>, transcribed with its tables, and the
  callback of \<open>src/json.c\<close> that builds the tree. \<open>None\<close> is a failed assertion, an access outside of the stack
  or of the parse buffer, a NULL pointer followed or an uninitialised number read; a result \<open>False\<close> is the
  rejection of the text. The automaton is generic in the callback, an argument, as are the conversion \<open>strtod\<close>
  of the C library and the callback's context. Allocations succeed.

  The tree under construction is the path from \<open>current_cx\<close> up to the root: each item with its earlier
  siblings, nearest first. An item on the path has no later siblings, and the children of every item but
  the first are on the path.
\<close>

section \<open>Tables\<close>

text \<open>\<open>__\<close>, the universal error code, is \<open>None\<close> in the classes and \<open>Bad\<close> in the transitions; the
  actions written as numbers from -9 to -2 are \<open>M9\<close> to \<open>M2\<close>, and \<open>EX\<close> is \<open>EX1\<close>.\<close>

datatype classes =
   C_SPACE | C_WHITE | C_LCURB | C_RCURB | C_LSQRB | C_RSQRB | C_COLON | C_COMMA | C_QUOTE | C_BACKS | C_SLASH
   | C_PLUS | C_MINUS | C_POINT | C_ZERO | C_DIGIT | C_LOW_A | C_LOW_B | C_LOW_C | C_LOW_D | C_LOW_E
   | C_LOW_F | C_LOW_L | C_LOW_N | C_LOW_R | C_LOW_S | C_LOW_T | C_LOW_U | C_ABCDF | C_E | C_ETC | C_STAR

fun class_no :: "classes \<Rightarrow> nat" where
  "class_no C_SPACE = 0"
| "class_no C_WHITE = 1"
| "class_no C_LCURB = 2"
| "class_no C_RCURB = 3"
| "class_no C_LSQRB = 4"
| "class_no C_RSQRB = 5"
| "class_no C_COLON = 6"
| "class_no C_COMMA = 7"
| "class_no C_QUOTE = 8"
| "class_no C_BACKS = 9"
| "class_no C_SLASH = 10"
| "class_no C_PLUS = 11"
| "class_no C_MINUS = 12"
| "class_no C_POINT = 13"
| "class_no C_ZERO = 14"
| "class_no C_DIGIT = 15"
| "class_no C_LOW_A = 16"
| "class_no C_LOW_B = 17"
| "class_no C_LOW_C = 18"
| "class_no C_LOW_D = 19"
| "class_no C_LOW_E = 20"
| "class_no C_LOW_F = 21"
| "class_no C_LOW_L = 22"
| "class_no C_LOW_N = 23"
| "class_no C_LOW_R = 24"
| "class_no C_LOW_S = 25"
| "class_no C_LOW_T = 26"
| "class_no C_LOW_U = 27"
| "class_no C_ABCDF = 28"
| "class_no C_E = 29"
| "class_no C_ETC = 30"
| "class_no C_STAR = 31"

definition ascii_class :: "classes option list" where
  "ascii_class =
    [None, None, None, None, None, None, None, None,
     None, Some C_WHITE, Some C_WHITE, None, None, Some C_WHITE, None, None,
     None, None, None, None, None, None, None, None,
     None, None, None, None, None, None, None, None,
     Some C_SPACE, Some C_ETC, Some C_QUOTE, Some C_ETC, Some C_ETC, Some C_ETC, Some C_ETC, Some C_ETC,
     Some C_ETC, Some C_ETC, Some C_STAR, Some C_PLUS, Some C_COMMA, Some C_MINUS, Some C_POINT, Some C_SLASH,
     Some C_ZERO, Some C_DIGIT, Some C_DIGIT, Some C_DIGIT, Some C_DIGIT, Some C_DIGIT, Some C_DIGIT, Some C_DIGIT,
     Some C_DIGIT, Some C_DIGIT, Some C_COLON, Some C_ETC, Some C_ETC, Some C_ETC, Some C_ETC, Some C_ETC,
     Some C_ETC, Some C_ABCDF, Some C_ABCDF, Some C_ABCDF, Some C_ABCDF, Some C_E, Some C_ABCDF, Some C_ETC,
     Some C_ETC, Some C_ETC, Some C_ETC, Some C_ETC, Some C_ETC, Some C_ETC, Some C_ETC, Some C_ETC,
     Some C_ETC, Some C_ETC, Some C_ETC, Some C_ETC, Some C_ETC, Some C_ETC, Some C_ETC, Some C_ETC,
     Some C_ETC, Some C_ETC, Some C_ETC, Some C_LSQRB, Some C_BACKS, Some C_RSQRB, Some C_ETC, Some C_ETC,
     Some C_ETC, Some C_LOW_A, Some C_LOW_B, Some C_LOW_C, Some C_LOW_D, Some C_LOW_E, Some C_LOW_F, Some C_ETC,
     Some C_ETC, Some C_ETC, Some C_ETC, Some C_ETC, Some C_LOW_L, Some C_ETC, Some C_LOW_N, Some C_ETC,
     Some C_ETC, Some C_ETC, Some C_LOW_R, Some C_LOW_S, Some C_LOW_T, Some C_LOW_U, Some C_ETC, Some C_ETC,
     Some C_ETC, Some C_ETC, Some C_ETC, Some C_LCURB, Some C_ETC, Some C_RCURB, Some C_ETC, Some C_ETC]"

datatype states =
   GO | OK | OB | KE | CO | VA | AR | ST | ES | U1 | U2 | U3 | U4 | MI | ZE | IT | FR | E1 | E2 | E3 | T1 | T2
   | T3 | F1 | F2 | F3 | F4 | N1 | N2 | N3 | C1 | C2 | C3 | FX | D1 | D2

datatype actions =
   CB | CE | FA | TR | NU | DE | DF | SB | MX | ZX | IX | EX1 | UC | M2 | M3 | M4 | M5 | M6 | M7 | M8 | M9

datatype entry = Bad | To states | Act actions

fun state_transition_table :: "states \<Rightarrow> entry list" where
  "state_transition_table GO =
     [To GO, To GO, Act M6, Bad, Act M5, Bad, Bad, Bad, Bad, Bad, Act CB, Bad, Bad, Bad, Bad, Bad, Bad, Bad,
      Bad, Bad, Bad, Bad, Bad, Bad, Bad, Bad, Bad, Bad, Bad, Bad, Bad, Bad]"
| "state_transition_table OK =
     [To OK, To OK, Bad, Act M8, Bad, Act M7, Bad, Act M3, Bad, Bad, Act CB, Bad, Bad, Bad, Bad, Bad, Bad, Bad,
      Bad, Bad, Bad, Bad, Bad, Bad, Bad, Bad, Bad, Bad, Bad, Bad, Bad, Bad]"
| "state_transition_table OB =
     [To OB, To OB, Bad, Act M9, Bad, Bad, Bad, Bad, Act SB, Bad, Act CB, Bad, Bad, Bad, Bad, Bad, Bad, Bad,
      Bad, Bad, Bad, Bad, Bad, Bad, Bad, Bad, Bad, Bad, Bad, Bad, Bad, Bad]"
| "state_transition_table KE =
     [To KE, To KE, Bad, Bad, Bad, Bad, Bad, Bad, Act SB, Bad, Act CB, Bad, Bad, Bad, Bad, Bad, Bad, Bad, Bad,
      Bad, Bad, Bad, Bad, Bad, Bad, Bad, Bad, Bad, Bad, Bad, Bad, Bad]"
| "state_transition_table CO =
     [To CO, To CO, Bad, Bad, Bad, Bad, Act M2, Bad, Bad, Bad, Act CB, Bad, Bad, Bad, Bad, Bad, Bad, Bad, Bad,
      Bad, Bad, Bad, Bad, Bad, Bad, Bad, Bad, Bad, Bad, Bad, Bad, Bad]"
| "state_transition_table VA =
     [To VA, To VA, Act M6, Bad, Act M5, Bad, Bad, Bad, Act SB, Bad, Act CB, Bad, Act MX, Bad, Act ZX, Act IX,
      Bad, Bad, Bad, Bad, Bad, Act FA, Bad, Act NU, Bad, Bad, Act TR, Bad, Bad, Bad, Bad, Bad]"
| "state_transition_table AR =
     [To AR, To AR, Act M6, Bad, Act M5, Act M7, Bad, Bad, Act SB, Bad, Act CB, Bad, Act MX, Bad, Act ZX,
      Act IX, Bad, Bad, Bad, Bad, Bad, Act FA, Bad, Act NU, Bad, Bad, Act TR, Bad, Bad, Bad, Bad, Bad]"
| "state_transition_table ST =
     [To ST, Bad, To ST, To ST, To ST, To ST, To ST, To ST, Act M4, Act EX1, To ST, To ST, To ST, To ST, To ST,
      To ST, To ST, To ST, To ST, To ST, To ST, To ST, To ST, To ST, To ST, To ST, To ST, To ST, To ST, To ST,
      To ST, To ST]"
| "state_transition_table ES =
     [Bad, Bad, Bad, Bad, Bad, Bad, Bad, Bad, To ST, To ST, To ST, Bad, Bad, Bad, Bad, Bad, Bad, To ST, Bad,
      Bad, Bad, To ST, Bad, To ST, To ST, Bad, To ST, To U1, Bad, Bad, Bad, Bad]"
| "state_transition_table U1 =
     [Bad, Bad, Bad, Bad, Bad, Bad, Bad, Bad, Bad, Bad, Bad, Bad, Bad, Bad, To U2, To U2, To U2, To U2, To U2,
      To U2, To U2, To U2, Bad, Bad, Bad, Bad, Bad, Bad, To U2, To U2, Bad, Bad]"
| "state_transition_table U2 =
     [Bad, Bad, Bad, Bad, Bad, Bad, Bad, Bad, Bad, Bad, Bad, Bad, Bad, Bad, To U3, To U3, To U3, To U3, To U3,
      To U3, To U3, To U3, Bad, Bad, Bad, Bad, Bad, Bad, To U3, To U3, Bad, Bad]"
| "state_transition_table U3 =
     [Bad, Bad, Bad, Bad, Bad, Bad, Bad, Bad, Bad, Bad, Bad, Bad, Bad, Bad, To U4, To U4, To U4, To U4, To U4,
      To U4, To U4, To U4, Bad, Bad, Bad, Bad, Bad, Bad, To U4, To U4, Bad, Bad]"
| "state_transition_table U4 =
     [Bad, Bad, Bad, Bad, Bad, Bad, Bad, Bad, Bad, Bad, Bad, Bad, Bad, Bad, Act UC, Act UC, Act UC, Act UC,
      Act UC, Act UC, Act UC, Act UC, Bad, Bad, Bad, Bad, Bad, Bad, Act UC, Act UC, Bad, Bad]"
| "state_transition_table MI =
     [Bad, Bad, Bad, Bad, Bad, Bad, Bad, Bad, Bad, Bad, Bad, Bad, Bad, Bad, To ZE, To IT, Bad, Bad, Bad, Bad,
      Bad, Bad, Bad, Bad, Bad, Bad, Bad, Bad, Bad, Bad, Bad, Bad]"
| "state_transition_table ZE =
     [To OK, To OK, Bad, Act M8, Bad, Act M7, Bad, Act M3, Bad, Bad, Act CB, Bad, Bad, Act DF, Bad, Bad, Bad,
      Bad, Bad, Bad, Bad, Bad, Bad, Bad, Bad, Bad, Bad, Bad, Bad, Bad, Bad, Bad]"
| "state_transition_table IT =
     [To OK, To OK, Bad, Act M8, Bad, Act M7, Bad, Act M3, Bad, Bad, Act CB, Bad, Bad, Act DF, To IT, To IT,
      Bad, Bad, Bad, Bad, Act DE, Bad, Bad, Bad, Bad, Bad, Bad, Bad, Bad, Act DE, Bad, Bad]"
| "state_transition_table FR =
     [To OK, To OK, Bad, Act M8, Bad, Act M7, Bad, Act M3, Bad, Bad, Act CB, Bad, Bad, Bad, To FR, To FR, Bad,
      Bad, Bad, Bad, To E1, Bad, Bad, Bad, Bad, Bad, Bad, Bad, Bad, To E1, Bad, Bad]"
| "state_transition_table E1 =
     [Bad, Bad, Bad, Bad, Bad, Bad, Bad, Bad, Bad, Bad, Bad, To E2, To E2, Bad, To E3, To E3, Bad, Bad, Bad,
      Bad, Bad, Bad, Bad, Bad, Bad, Bad, Bad, Bad, Bad, Bad, Bad, Bad]"
| "state_transition_table E2 =
     [Bad, Bad, Bad, Bad, Bad, Bad, Bad, Bad, Bad, Bad, Bad, Bad, Bad, Bad, To E3, To E3, Bad, Bad, Bad, Bad,
      Bad, Bad, Bad, Bad, Bad, Bad, Bad, Bad, Bad, Bad, Bad, Bad]"
| "state_transition_table E3 =
     [To OK, To OK, Bad, Act M8, Bad, Act M7, Bad, Act M3, Bad, Bad, Bad, Bad, Bad, Bad, To E3, To E3, Bad,
      Bad, Bad, Bad, Bad, Bad, Bad, Bad, Bad, Bad, Bad, Bad, Bad, Bad, Bad, Bad]"
| "state_transition_table T1 =
     [Bad, Bad, Bad, Bad, Bad, Bad, Bad, Bad, Bad, Bad, Bad, Bad, Bad, Bad, Bad, Bad, Bad, Bad, Bad, Bad, Bad,
      Bad, Bad, Bad, To T2, Bad, Bad, Bad, Bad, Bad, Bad, Bad]"
| "state_transition_table T2 =
     [Bad, Bad, Bad, Bad, Bad, Bad, Bad, Bad, Bad, Bad, Bad, Bad, Bad, Bad, Bad, Bad, Bad, Bad, Bad, Bad, Bad,
      Bad, Bad, Bad, Bad, Bad, Bad, To T3, Bad, Bad, Bad, Bad]"
| "state_transition_table T3 =
     [Bad, Bad, Bad, Bad, Bad, Bad, Bad, Bad, Bad, Bad, Act CB, Bad, Bad, Bad, Bad, Bad, Bad, Bad, Bad, Bad,
      To OK, Bad, Bad, Bad, Bad, Bad, Bad, Bad, Bad, Bad, Bad, Bad]"
| "state_transition_table F1 =
     [Bad, Bad, Bad, Bad, Bad, Bad, Bad, Bad, Bad, Bad, Bad, Bad, Bad, Bad, Bad, Bad, To F2, Bad, Bad, Bad,
      Bad, Bad, Bad, Bad, Bad, Bad, Bad, Bad, Bad, Bad, Bad, Bad]"
| "state_transition_table F2 =
     [Bad, Bad, Bad, Bad, Bad, Bad, Bad, Bad, Bad, Bad, Bad, Bad, Bad, Bad, Bad, Bad, Bad, Bad, Bad, Bad, Bad,
      Bad, To F3, Bad, Bad, Bad, Bad, Bad, Bad, Bad, Bad, Bad]"
| "state_transition_table F3 =
     [Bad, Bad, Bad, Bad, Bad, Bad, Bad, Bad, Bad, Bad, Bad, Bad, Bad, Bad, Bad, Bad, Bad, Bad, Bad, Bad, Bad,
      Bad, Bad, Bad, Bad, To F4, Bad, Bad, Bad, Bad, Bad, Bad]"
| "state_transition_table F4 =
     [Bad, Bad, Bad, Bad, Bad, Bad, Bad, Bad, Bad, Bad, Act CB, Bad, Bad, Bad, Bad, Bad, Bad, Bad, Bad, Bad,
      To OK, Bad, Bad, Bad, Bad, Bad, Bad, Bad, Bad, Bad, Bad, Bad]"
| "state_transition_table N1 =
     [Bad, Bad, Bad, Bad, Bad, Bad, Bad, Bad, Bad, Bad, Bad, Bad, Bad, Bad, Bad, Bad, Bad, Bad, Bad, Bad, Bad,
      Bad, Bad, Bad, Bad, Bad, Bad, To N2, Bad, Bad, Bad, Bad]"
| "state_transition_table N2 =
     [Bad, Bad, Bad, Bad, Bad, Bad, Bad, Bad, Bad, Bad, Bad, Bad, Bad, Bad, Bad, Bad, Bad, Bad, Bad, Bad, Bad,
      Bad, To N3, Bad, Bad, Bad, Bad, Bad, Bad, Bad, Bad, Bad]"
| "state_transition_table N3 =
     [Bad, Bad, Bad, Bad, Bad, Bad, Bad, Bad, Bad, Bad, Act CB, Bad, Bad, Bad, Bad, Bad, Bad, Bad, Bad, Bad,
      Bad, Bad, To OK, Bad, Bad, Bad, Bad, Bad, Bad, Bad, Bad, Bad]"
| "state_transition_table C1 =
     [Bad, Bad, Bad, Bad, Bad, Bad, Bad, Bad, Bad, Bad, Bad, Bad, Bad, Bad, Bad, Bad, Bad, Bad, Bad, Bad, Bad,
      Bad, Bad, Bad, Bad, Bad, Bad, Bad, Bad, Bad, Bad, To C2]"
| "state_transition_table C2 =
     [To C2, To C2, To C2, To C2, To C2, To C2, To C2, To C2, To C2, To C2, To C2, To C2, To C2, To C2, To C2,
      To C2, To C2, To C2, To C2, To C2, To C2, To C2, To C2, To C2, To C2, To C2, To C2, To C2, To C2, To C2,
      To C2, To C3]"
| "state_transition_table C3 =
     [To C2, To C2, To C2, To C2, To C2, To C2, To C2, To C2, To C2, To C2, Act CE, To C2, To C2, To C2, To C2,
      To C2, To C2, To C2, To C2, To C2, To C2, To C2, To C2, To C2, To C2, To C2, To C2, To C2, To C2, To C2,
      To C2, To C3]"
| "state_transition_table FX =
     [To OK, To OK, Bad, Act M8, Bad, Act M7, Bad, Act M3, Bad, Bad, Bad, Bad, Bad, Bad, To FR, To FR, Bad,
      Bad, Bad, Bad, To E1, Bad, Bad, Bad, Bad, Bad, Bad, Bad, Bad, To E1, Bad, Bad]"
| "state_transition_table D1 =
     [Bad, Bad, Bad, Bad, Bad, Bad, Bad, Bad, Bad, To D2, Bad, Bad, Bad, Bad, Bad, Bad, Bad, Bad, Bad, Bad,
      Bad, Bad, Bad, Bad, Bad, Bad, Bad, Bad, Bad, Bad, Bad, Bad]"
| "state_transition_table D2 =
     [Bad, Bad, Bad, Bad, Bad, Bad, Bad, Bad, Bad, Bad, Bad, Bad, Bad, Bad, Bad, Bad, Bad, Bad, Bad, Bad, Bad,
      Bad, Bad, Bad, Bad, Bad, Bad, To U1, Bad, Bad, Bad, Bad]"

definition next_entry :: "states \<Rightarrow> classes \<Rightarrow> entry" where
  "next_entry st cl = state_transition_table st ! class_no cl"

section \<open>The parser\<close>

datatype modes = MODE_ARRAY | MODE_DONE | MODE_KEY | MODE_OBJECT

datatype JSON_error =
    JSON_E_NONE | JSON_E_INVALID_CHAR | JSON_E_INVALID_KEYWORD | JSON_E_INVALID_ESCAPE_SEQUENCE
  | JSON_E_INVALID_UNICODE_SEQUENCE | JSON_E_INVALID_NUMBER | JSON_E_NESTING_DEPTH_REACHED
  | JSON_E_UNBALANCED_COLLECTION | JSON_E_EXPECTED_KEY | JSON_E_EXPECTED_COLON | JSON_E_OUT_OF_MEMORY

datatype JSON_value = NoValue | IntValue int | FloatValue rat | StrValue string

text \<open>The stack is a list with its top first, so \<open>top\<close> is its length less one; \<open>jp_size\<close> is the number
  of cells it has. The parse buffer is its content up to \<open>parse_buffer_count\<close>.\<close>

record 'c JSON_parser_struct =
  jp_ctx :: 'c
  jp_state :: states
  jp_before :: states
  jp_type :: json_type
  jp_escaped :: bool
  jp_comment :: bool
  jp_comments :: bool
  jp_manually :: bool
  jp_error :: JSON_error
  jp_point :: char
  jp_utf16 :: u16
  jp_char :: int
  jp_depth :: int
  jp_stack :: "modes list"
  jp_capacity :: nat
  jp_size :: nat
  jp_buf :: string
  jp_bufcap :: nat

record JSON_config =
  jc_depth :: int
  jc_comments :: bool
  jc_manually :: bool

record 'c json_env =
  je_callback :: "('c \<Rightarrow> json_type \<Rightarrow> JSON_value \<Rightarrow> (bool \<times> 'c) option) option"
  je_strtod :: "string \<Rightarrow> rat"

definition JSON_PARSER_STACK_SIZE :: nat where "JSON_PARSER_STACK_SIZE = 128"
definition JSON_PARSER_PARSE_BUFFER_SIZE :: nat where "JSON_PARSER_PARSE_BUFFER_SIZE = 3500"

definition init_JSON_config :: JSON_config where
  "init_JSON_config = \<lparr>jc_depth = int JSON_PARSER_STACK_SIZE - 1, jc_comments = False, jc_manually = False\<rparr>"

text \<open>\<open>if (!m) return false;\<close> before \<open>f\<close>.\<close>

definition orelse_return :: "(bool \<times> 'a) option \<Rightarrow> ('a \<Rightarrow> (bool \<times> 'a) option) \<Rightarrow> (bool \<times> 'a) option" where
  "orelse_return m f = do { (ok, x) \<leftarrow> m; if ok then f x else Some (False, x) }"

definition assert_that :: "bool \<Rightarrow> unit option" where
  "assert_that b = (if b then Some () else None)"

definition reject :: "JSON_error \<Rightarrow> 'c JSON_parser_struct \<Rightarrow> (bool \<times> 'c JSON_parser_struct) option" where
  "reject e jc = Some (False, jc\<lparr>jp_error := e\<rparr>)"

definition set_error :: "'c JSON_parser_struct \<Rightarrow> 'c JSON_parser_struct" where
  "set_error jc = jc\<lparr>jp_error :=
     (case jp_state jc of
        GO \<Rightarrow> if jp_char jc \<in> {0x7B, 0x7D, 0x5B, 0x5D} then JSON_E_UNBALANCED_COLLECTION else JSON_E_INVALID_CHAR
      | OB \<Rightarrow> JSON_E_EXPECTED_KEY
      | AR \<Rightarrow> JSON_E_UNBALANCED_COLLECTION
      | CO \<Rightarrow> JSON_E_EXPECTED_COLON
      | KE \<Rightarrow> JSON_E_EXPECTED_KEY
      | U1 \<Rightarrow> JSON_E_INVALID_UNICODE_SEQUENCE | U2 \<Rightarrow> JSON_E_INVALID_UNICODE_SEQUENCE
      | U3 \<Rightarrow> JSON_E_INVALID_UNICODE_SEQUENCE | U4 \<Rightarrow> JSON_E_INVALID_UNICODE_SEQUENCE
      | D1 \<Rightarrow> JSON_E_INVALID_UNICODE_SEQUENCE | D2 \<Rightarrow> JSON_E_INVALID_UNICODE_SEQUENCE
      | T1 \<Rightarrow> JSON_E_INVALID_KEYWORD | T2 \<Rightarrow> JSON_E_INVALID_KEYWORD | T3 \<Rightarrow> JSON_E_INVALID_KEYWORD
      | F1 \<Rightarrow> JSON_E_INVALID_KEYWORD | F2 \<Rightarrow> JSON_E_INVALID_KEYWORD | F3 \<Rightarrow> JSON_E_INVALID_KEYWORD
      | F4 \<Rightarrow> JSON_E_INVALID_KEYWORD
      | N1 \<Rightarrow> JSON_E_INVALID_KEYWORD | N2 \<Rightarrow> JSON_E_INVALID_KEYWORD | N3 \<Rightarrow> JSON_E_INVALID_KEYWORD
      | MI \<Rightarrow> JSON_E_INVALID_NUMBER | ZE \<Rightarrow> JSON_E_INVALID_NUMBER | IT \<Rightarrow> JSON_E_INVALID_NUMBER
      | FR \<Rightarrow> JSON_E_INVALID_NUMBER | E1 \<Rightarrow> JSON_E_INVALID_NUMBER | E2 \<Rightarrow> JSON_E_INVALID_NUMBER
      | E3 \<Rightarrow> JSON_E_INVALID_NUMBER
      | _ \<Rightarrow> JSON_E_INVALID_CHAR)\<rparr>"

text \<open>\<open>push\<close> compares the index of the top with the capacity, which is one more than the largest index.\<close>

definition jtop :: "'c JSON_parser_struct \<Rightarrow> int" where
  "jtop jc = int (length (jp_stack jc)) - 1"

definition grow_stack :: "'c JSON_parser_struct \<Rightarrow> 'c JSON_parser_struct" where
  "grow_stack jc =
     (if jtop jc = int (jp_capacity jc)
      then jc\<lparr>jp_capacity := jp_capacity jc * 2, jp_size := jp_capacity jc * 2\<rparr> else jc)"

definition push :: "modes \<Rightarrow> 'c JSON_parser_struct \<Rightarrow> (bool \<times> 'c JSON_parser_struct) option" where
  "push mode jc = do {
     assert_that (jtop jc \<le> int (jp_capacity jc));
     if 0 \<le> jp_depth jc \<and> jtop jc = jp_depth jc then reject JSON_E_NESTING_DEPTH_REACHED jc
     else do {
       let jc = (if jp_depth jc < 0 then grow_stack jc else jc);
       assert_that (length (jp_stack jc) < jp_size jc);
       Some (True, jc\<lparr>jp_stack := mode # jp_stack jc\<rparr>) } }"

definition pop :: "modes \<Rightarrow> 'c JSON_parser_struct \<Rightarrow> (bool \<times> 'c JSON_parser_struct) option" where
  "pop mode jc =
     (if jp_stack jc = [] \<or> hd (jp_stack jc) \<noteq> mode then Some (False, jc)
      else Some (True, jc\<lparr>jp_stack := tl (jp_stack jc)\<rparr>))"

text \<open>\<open>jc->stack[jc->top]\<close>\<close>

definition stack_top :: "'c JSON_parser_struct \<Rightarrow> modes option" where
  "stack_top jc = (case jp_stack jc of [] \<Rightarrow> None | m # _ \<Rightarrow> Some m)"

section \<open>The parse buffer\<close>

definition parse_buffer_clear :: "'c JSON_parser_struct \<Rightarrow> 'c JSON_parser_struct" where
  "parse_buffer_clear jc = jc\<lparr>jp_buf := []\<rparr>"

definition parse_buffer_pop_back_char :: "'c JSON_parser_struct \<Rightarrow> 'c JSON_parser_struct option" where
  "parse_buffer_pop_back_char jc = do {
     assert_that (jp_buf jc \<noteq> []);
     Some (jc\<lparr>jp_buf := butlast (jp_buf jc)\<rparr>) }"

definition parse_buffer_has_space_for :: "'c JSON_parser_struct \<Rightarrow> nat \<Rightarrow> bool" where
  "parse_buffer_has_space_for jc count \<longleftrightarrow> length (jp_buf jc) + count + 1 \<le> jp_bufcap jc"

definition parse_buffer_push_back_char :: "char \<Rightarrow> 'c JSON_parser_struct \<Rightarrow> 'c JSON_parser_struct option" where
  "parse_buffer_push_back_char c jc = do {
     assert_that (parse_buffer_has_space_for jc 1);
     Some (jc\<lparr>jp_buf := jp_buf jc @ [c]\<rparr>) }"

text \<open>The loop of \<open>parse_buffer_reserve_for\<close> around \<open>parse_buffer_grow\<close>, on the capacity.\<close>

function grow_to :: "nat \<Rightarrow> nat \<Rightarrow> nat option" where
  "grow_to need cap =
     (if need \<le> cap then Some cap else if cap * 2 = 0 then None else grow_to need (cap * 2))"
  by pat_completeness auto
termination by (relation "measure (\<lambda>(need, cap). need - cap)") auto

declare grow_to.simps [simp del]

definition parse_buffer_reserve_for :: "nat \<Rightarrow> 'c JSON_parser_struct \<Rightarrow> 'c JSON_parser_struct option" where
  "parse_buffer_reserve_for chars jc = do {
     cap \<leftarrow> grow_to (length (jp_buf jc) + chars + 1) (jp_bufcap jc);
     Some (jc\<lparr>jp_bufcap := cap\<rparr>) }"

section \<open>Values\<close>

text \<open>\<open>sscanf\<close> with \<open>%lld\<close>, which saturates in the GNU C library; without a digit the number stays uninitialised.\<close>

definition digit_val :: "char \<Rightarrow> nat" where
  "digit_val c = of_char c - 48"

definition saturate :: "int \<Rightarrow> int" where
  "saturate n = max LLONG_MIN (min LLONG_MAX n)"

definition digits_value :: "string \<Rightarrow> nat" where
  "digits_value ds = fold (\<lambda>d v. v * 10 + digit_val d) ds 0"

definition sscanf_lld :: "string \<Rightarrow> int option" where
  "sscanf_lld s =
     (let s = dropWhile (\<lambda>c. c = CHR '' '' \<or> c = CHR 0x09 \<or> c = CHR 0x0A \<or> c = CHR 0x0D) s;
          neg = (s \<noteq> [] \<and> hd s = CHR ''-'');
          s = (if s \<noteq> [] \<and> hd s \<in> {CHR ''-'', CHR ''+''} then tl s else s);
          ds = takeWhile is_digit s;
          v = int (digits_value ds) in
      if ds = [] then None else Some (saturate (if neg then - v else v)))"

definition is_non_container_type :: "json_type \<Rightarrow> bool" where
  "is_non_container_type t \<longleftrightarrow>
     t \<in> {JSON_T_NULL, JSON_T_FALSE, JSON_T_TRUE, JSON_T_FLOAT, JSON_T_INTEGER, JSON_T_STRING}"

definition buffer_value :: "'c json_env \<Rightarrow> 'c JSON_parser_struct \<Rightarrow> JSON_value option" where
  "buffer_value E jc =
     (case jp_type jc of
        JSON_T_FLOAT \<Rightarrow>
          Some (if jp_manually jc then StrValue (jp_buf jc) else FloatValue (je_strtod E (jp_buf jc)))
      | JSON_T_INTEGER \<Rightarrow> map_option IntValue (sscanf_lld (jp_buf jc))
      | JSON_T_STRING \<Rightarrow> Some (StrValue (jp_buf jc))
      | _ \<Rightarrow> Some NoValue)"

text \<open>\<open>if (jc->callback && !( *jc->callback)(jc->ctx, type, value)) return false;\<close>\<close>

definition call :: "'c json_env \<Rightarrow> json_type \<Rightarrow> JSON_value \<Rightarrow> 'c JSON_parser_struct \<Rightarrow> (bool \<times> 'c JSON_parser_struct) option" where
  "call E type v jc =
     (case je_callback E of
        None \<Rightarrow> Some (True, jc)
      | Some f \<Rightarrow> do { (ok, cx) \<leftarrow> f (jp_ctx jc) type v; Some (ok, jc\<lparr>jp_ctx := cx\<rparr>) })"

definition parse_parse_buffer :: "'c json_env \<Rightarrow> 'c JSON_parser_struct \<Rightarrow> (bool \<times> 'c JSON_parser_struct) option" where
  "parse_parse_buffer E jc =
     orelse_return
       (if je_callback E \<noteq> None \<and> jp_type jc \<noteq> JSON_T_NONE then do {
          assert_that (is_non_container_type (jp_type jc));
          v \<leftarrow> buffer_value E jc;
          call E (jp_type jc) v jc }
        else Some (True, jc))
       (\<lambda>jc. Some (True, parse_buffer_clear jc))"

section \<open>Characters\<close>

unbundle bit_operations_syntax

definition IS_HIGH_SURROGATE :: "u32 \<Rightarrow> bool" where
  "IS_HIGH_SURROGATE uc \<longleftrightarrow> uc AND 0xFC00 = 0xD800"

definition IS_LOW_SURROGATE :: "u32 \<Rightarrow> bool" where
  "IS_LOW_SURROGATE uc \<longleftrightarrow> uc AND 0xFC00 = 0xDC00"

definition DECODE_SURROGATE_PAIR :: "u32 \<Rightarrow> u32 \<Rightarrow> u32" where
  "DECODE_SURROGATE_PAIR hi lo = push_bit 10 (hi AND 0x3FF) + (lo AND 0x3FF) + 0x10000"

definition hex_val :: "char \<Rightarrow> u32" where
  "hex_val c =
     (let x = of_nat (of_char c) :: u32 in
      if x \<ge> 97 then x - (97 - 10) else if x \<ge> 65 then x - (65 - 10) else x AND NOT 0x30)"

fun hex_loop :: "u32 \<Rightarrow> string \<Rightarrow> u32 option" where
  "hex_loop uc [] = Some uc"
| "hex_loop uc (p # ps) = do {
     assert_that (hex_val p < 16);
     hex_loop (uc OR push_bit (4 * length ps) (hex_val p)) ps }"

definition utf8_lead_bits :: "nat \<Rightarrow> u32" where
  "utf8_lead_bits n = [0x00, 0xC0, 0xE0, 0xF0] ! n"

definition utf8_char :: "u32 \<Rightarrow> char" where
  "utf8_char w = char_of (unat (ucast w :: u8))"

text \<open>The lead byte and the \<open>n\<close> bytes that follow it.\<close>

fun trail :: "u32 \<Rightarrow> nat \<Rightarrow> string" where
  "trail uc 0 = []"
| "trail uc (Suc n) = utf8_char ((drop_bit (6 * n) uc AND 0x3F) OR 0x80) # trail uc n"

definition utf8_bytes :: "u32 \<Rightarrow> nat \<Rightarrow> string" where
  "utf8_bytes uc n = utf8_char (drop_bit (n * 6) uc OR utf8_lead_bits n) # trail uc n"

definition put_utf8 :: "u32 \<Rightarrow> nat \<Rightarrow> 'c JSON_parser_struct \<Rightarrow> (bool \<times> 'c JSON_parser_struct) option" where
  "put_utf8 uc trail_bytes jc = do {
     assert_that (length (jp_buf jc) + trail_bytes + 2 \<le> jp_bufcap jc);
     Some (True, jc\<lparr>jp_buf := jp_buf jc @ utf8_bytes uc trail_bytes\<rparr>) }"

definition decode_unicode_char :: "'c JSON_parser_struct \<Rightarrow> (bool \<times> 'c JSON_parser_struct) option" where
  "decode_unicode_char jc = do {
     let n = length (jp_buf jc);
     assert_that (6 \<le> n);
     uc \<leftarrow> hex_loop 0 (drop (n - 4) (jp_buf jc));
     let jc = jc\<lparr>jp_buf := take (n - 6) (jp_buf jc)\<rparr>;
     if jp_utf16 jc \<noteq> 0 then
       (if IS_LOW_SURROGATE uc
        then put_utf8 (DECODE_SURROGATE_PAIR (ucast (jp_utf16 jc)) uc) 3 (jc\<lparr>jp_utf16 := 0\<rparr>)
        else Some (False, jc))
     else if uc < 0x80 then put_utf8 uc 0 jc
     else if uc < 0x800 then put_utf8 uc 1 jc
     else if IS_HIGH_SURROGATE uc then Some (True, jc\<lparr>jp_utf16 := ucast uc\<rparr>)
     else if IS_LOW_SURROGATE uc then Some (False, jc)
     else put_utf8 uc 2 jc }"

definition the_char :: "int \<Rightarrow> char" where
  "the_char n = char_of (nat (n mod 256))"

definition unescaped :: "int \<Rightarrow> char option" where
  "unescaped c =
     (if c = 0x62 then Some (CHR 0x08) else if c = 0x66 then Some (CHR 0x0C) else if c = 0x6E then Some (CHR 0x0A)
      else if c = 0x72 then Some (CHR 0x0D) else if c = 0x74 then Some (CHR 0x09) else if c = 0x22 then Some (CHR 0x22)
      else if c = 0x5C then Some (CHR 0x5C) else if c = 0x2F then Some (CHR 0x2F) else None)"

definition add_escaped_char_to_parse_buffer :: "int \<Rightarrow> 'c JSON_parser_struct \<Rightarrow> (bool \<times> 'c JSON_parser_struct) option" where
  "add_escaped_char_to_parse_buffer next_char jc = do {
     assert_that (parse_buffer_has_space_for jc 1);
     jc \<leftarrow> parse_buffer_pop_back_char (jc\<lparr>jp_escaped := False\<rparr>);
     case unescaped next_char of
       Some c \<Rightarrow> do { jc \<leftarrow> parse_buffer_push_back_char c jc; Some (True, jc) }
     | None \<Rightarrow>
         if next_char = 0x75 then do {
           jc \<leftarrow> parse_buffer_push_back_char (CHR 0x5C) jc;
           jc \<leftarrow> parse_buffer_push_back_char (CHR ''u'') jc;
           Some (True, jc) }
         else Some (False, jc) }"

definition add_char_to_parse_buffer :: "int \<Rightarrow> classes \<Rightarrow> 'c JSON_parser_struct \<Rightarrow> (bool \<times> 'c JSON_parser_struct) option" where
  "add_char_to_parse_buffer next_char next_class jc = do {
     jc \<leftarrow> parse_buffer_reserve_for 1 jc;
     if jp_escaped jc then do {
       (ok, jc) \<leftarrow> add_escaped_char_to_parse_buffer next_char jc;
       if ok then Some (True, jc) else reject JSON_E_INVALID_ESCAPE_SEQUENCE jc }
     else if \<not> jp_comment jc \<and> (jp_type jc \<noteq> JSON_T_NONE \<or> \<not> (next_class = C_SPACE \<or> next_class = C_WHITE)) then do {
       jc \<leftarrow> parse_buffer_push_back_char (the_char next_char) jc;
       Some (True, jc) }
     else Some (True, jc) }"

section \<open>One character\<close>

definition detected :: "json_type \<Rightarrow> states \<Rightarrow> 'c JSON_parser_struct \<Rightarrow> (bool \<times> 'c JSON_parser_struct) option" where
  "detected t st jc = Some (True, jc\<lparr>jp_type := t, jp_state := st\<rparr>)"

text \<open>The actions of \<open>JSON_parser_char\<close>, in the order of its switch; those the model shares are
  \<open>begin_collection\<close> for \<open>[\<close> and \<open>{\<close> and \<open>end_collection\<close> for their ends.\<close>

definition begin_collection ::
  "'c json_env \<Rightarrow> json_type \<Rightarrow> modes \<Rightarrow> states \<Rightarrow> 'c JSON_parser_struct \<Rightarrow> (bool \<times> 'c JSON_parser_struct) option" where
  "begin_collection E ev mode st jc = do {
     jc \<leftarrow> parse_buffer_pop_back_char jc;
     orelse_return (call E ev NoValue jc) (\<lambda>jc.
     orelse_return (push mode jc) (\<lambda>jc. do {
       assert_that (jp_type jc = JSON_T_NONE);
       Some (True, jc\<lparr>jp_state := st\<rparr>) })) }"

definition end_collection ::
  "'c json_env \<Rightarrow> json_type \<Rightarrow> modes \<Rightarrow> 'c JSON_parser_struct \<Rightarrow> (bool \<times> 'c JSON_parser_struct) option" where
  "end_collection E ev mode jc = do {
     jc \<leftarrow> parse_buffer_pop_back_char jc;
     orelse_return (parse_parse_buffer E jc) (\<lambda>jc.
     orelse_return (call E ev NoValue jc) (\<lambda>jc. do {
       (ok, jc) \<leftarrow> pop mode jc;
       if ok then Some (True, jc\<lparr>jp_type := JSON_T_NONE, jp_state := OK\<rparr>)
       else reject JSON_E_UNBALANCED_COLLECTION jc })) }"

definition open_comment :: "'c json_env \<Rightarrow> 'c JSON_parser_struct \<Rightarrow> (bool \<times> 'c JSON_parser_struct) option" where
  "open_comment E jc =
     (if \<not> jp_comments jc then Some (False, jc)
      else do {
        jc \<leftarrow> parse_buffer_pop_back_char jc;
        orelse_return (parse_parse_buffer E jc) (\<lambda>jc. do {
          assert_that (jp_buf jc = []);
          assert_that (jp_type jc \<noteq> JSON_T_STRING);
          m \<leftarrow> stack_top jc;
          let prior = (if m = MODE_ARRAY \<or> m = MODE_OBJECT
                        then (if jp_state jc = VA \<or> jp_state jc = AR then jp_state jc else OK) else jp_state jc);
          Some (True, jc\<lparr>jp_before := prior, jp_type := JSON_T_NONE, jp_state := C1, jp_comment := True\<rparr>) }) })"

definition string_end :: "'c json_env \<Rightarrow> 'c JSON_parser_struct \<Rightarrow> (bool \<times> 'c JSON_parser_struct) option" where
  "string_end E jc = do {
     jc \<leftarrow> parse_buffer_pop_back_char jc;
     m \<leftarrow> stack_top jc;
     case m of
       MODE_KEY \<Rightarrow> do {
         assert_that (jp_type jc = JSON_T_STRING);
         orelse_return (call E JSON_T_KEY (StrValue (jp_buf jc)) (jc\<lparr>jp_type := JSON_T_NONE, jp_state := CO\<rparr>))
           (\<lambda>jc. Some (True, parse_buffer_clear jc)) }
     | MODE_DONE \<Rightarrow> Some (False, jc)
     | _ \<Rightarrow> do {
         assert_that (jp_type jc = JSON_T_STRING);
         orelse_return (parse_parse_buffer E jc)
           (\<lambda>jc. Some (True, jc\<lparr>jp_type := JSON_T_NONE, jp_state := OK\<rparr>)) } }"

definition comma :: "'c json_env \<Rightarrow> 'c JSON_parser_struct \<Rightarrow> (bool \<times> 'c JSON_parser_struct) option" where
  "comma E jc = do {
     jc \<leftarrow> parse_buffer_pop_back_char jc;
     orelse_return (parse_parse_buffer E jc) (\<lambda>jc. do {
       m \<leftarrow> stack_top jc;
       case m of
         MODE_OBJECT \<Rightarrow>
           orelse_return (pop MODE_OBJECT jc) (\<lambda>jc.
           orelse_return (push MODE_KEY jc) (\<lambda>jc. do {
             assert_that (jp_type jc \<noteq> JSON_T_STRING);
             Some (True, jc\<lparr>jp_type := JSON_T_NONE, jp_state := KE\<rparr>) }))
       | MODE_ARRAY \<Rightarrow> do {
           assert_that (jp_type jc \<noteq> JSON_T_STRING);
           Some (True, jc\<lparr>jp_type := JSON_T_NONE, jp_state := VA\<rparr>) }
       | _ \<Rightarrow> Some (False, jc) }) }"

definition colon :: "'c JSON_parser_struct \<Rightarrow> (bool \<times> 'c JSON_parser_struct) option" where
  "colon jc = do {
     jc \<leftarrow> parse_buffer_pop_back_char jc;
     orelse_return (pop MODE_KEY jc) (\<lambda>jc.
     orelse_return (push MODE_OBJECT jc) (\<lambda>jc. do {
       assert_that (jp_type jc = JSON_T_NONE);
       Some (True, jc\<lparr>jp_state := VA\<rparr>) })) }"

definition not_text :: "json_type \<Rightarrow> bool" where
  "not_text t \<longleftrightarrow> t \<notin> {JSON_T_FALSE, JSON_T_TRUE, JSON_T_NULL, JSON_T_STRING}"

definition decimal :: "'c JSON_parser_struct \<Rightarrow> 'c JSON_parser_struct option" where
  "decimal jc =
     (if jp_manually jc then Some jc
      else do {
        assert_that (jp_buf jc \<noteq> [] \<and> last (jp_buf jc) = CHR ''.'');
        Some (jc\<lparr>jp_buf := butlast (jp_buf jc) @ [jp_point jc]\<rparr>) })"

fun perform :: "'c json_env \<Rightarrow> actions \<Rightarrow> 'c JSON_parser_struct \<Rightarrow> (bool \<times> 'c JSON_parser_struct) option" where
  "perform E UC jc = do {
     (ok, jc) \<leftarrow> decode_unicode_char jc;
     if ok then Some (True, jc\<lparr>jp_state := (if jp_utf16 jc \<noteq> 0 then D1 else ST)\<rparr>)
     else reject JSON_E_INVALID_UNICODE_SEQUENCE jc }"
| "perform E EX1 jc = Some (True, jc\<lparr>jp_escaped := True, jp_state := ES\<rparr>)"
| "perform E MX jc = detected JSON_T_INTEGER MI jc"
| "perform E ZX jc = detected JSON_T_INTEGER ZE jc"
| "perform E IX jc = detected JSON_T_INTEGER IT jc"
| "perform E DE jc = do { assert_that (not_text (jp_type jc)); detected JSON_T_FLOAT E1 jc }"
| "perform E DF jc = do { assert_that (not_text (jp_type jc)); jc \<leftarrow> decimal jc; detected JSON_T_FLOAT FX jc }"
| "perform E SB jc = do { assert_that (jp_type jc = JSON_T_NONE); detected JSON_T_STRING ST (parse_buffer_clear jc) }"
| "perform E NU jc = do { assert_that (jp_type jc = JSON_T_NONE); detected JSON_T_NULL N1 jc }"
| "perform E FA jc = do { assert_that (jp_type jc = JSON_T_NONE); detected JSON_T_FALSE F1 jc }"
| "perform E TR jc = do { assert_that (jp_type jc = JSON_T_NONE); detected JSON_T_TRUE T1 jc }"
| "perform E CE jc = do {
     assert_that (jp_buf jc = []);
     assert_that (jp_type jc = JSON_T_NONE);
     Some (True, jc\<lparr>jp_comment := False, jp_state := jp_before jc\<rparr>) }"
| "perform E CB jc = open_comment E jc"
| "perform E M9 jc =
     orelse_return (call E JSON_T_OBJECT_END NoValue (parse_buffer_clear jc)) (\<lambda>jc.
     orelse_return (pop MODE_KEY jc) (\<lambda>jc. Some (True, jc\<lparr>jp_state := OK\<rparr>)))"
| "perform E M8 jc = end_collection E JSON_T_OBJECT_END MODE_OBJECT jc"
| "perform E M7 jc = end_collection E JSON_T_ARRAY_END MODE_ARRAY jc"
| "perform E M6 jc = begin_collection E JSON_T_OBJECT_BEGIN MODE_KEY OB jc"
| "perform E M5 jc = begin_collection E JSON_T_ARRAY_BEGIN MODE_ARRAY AR jc"
| "perform E M4 jc = string_end E jc"
| "perform E M3 jc = comma E jc"
| "perform E M2 jc = colon jc"

definition char_class :: "int \<Rightarrow> classes option" where
  "char_class c = (if c \<ge> 128 then Some C_ETC else ascii_class ! nat c)"

definition JSON_parser_char :: "'c json_env \<Rightarrow> 'c JSON_parser_struct \<Rightarrow> int \<Rightarrow> (bool \<times> 'c JSON_parser_struct) option" where
  "JSON_parser_char E jc next_char =
     (let jc = jc\<lparr>jp_char := next_char\<rparr> in
      if next_char < 0 then reject JSON_E_INVALID_CHAR jc
      else case char_class next_char of
        None \<Rightarrow> Some (False, set_error jc)
      | Some next_class \<Rightarrow>
          orelse_return (add_char_to_parse_buffer next_char next_class jc) (\<lambda>jc.
            case next_entry (jp_state jc) next_class of
              To st \<Rightarrow> Some (True, jc\<lparr>jp_state := st\<rparr>)
            | Act a \<Rightarrow> perform E a jc
            | Bad \<Rightarrow> Some (False, set_error jc)))"

definition JSON_parser_done :: "'c JSON_parser_struct \<Rightarrow> (bool \<times> 'c JSON_parser_struct) option" where
  "JSON_parser_done jc = do {
     (ok, jc) \<leftarrow> (if jp_state jc = OK \<or> jp_state jc = GO then pop MODE_DONE jc else Some (False, jc));
     if ok then Some (True, jc) else reject JSON_E_UNBALANCED_COLLECTION jc }"

definition JSON_parser_is_legal_white_space_string :: "string \<Rightarrow> bool" where
  "JSON_parser_is_legal_white_space_string s \<longleftrightarrow>
     list_all (\<lambda>c. (of_char c :: nat) < 128 \<and> ascii_class ! of_char c \<in> {Some C_SPACE, Some C_WHITE}) s"

section \<open>Creation\<close>

text \<open>A parser that was never used has no parse buffer; its capacity is 0. The result of \<open>push\<close> is ignored.\<close>

definition first_setup :: "'c JSON_parser_struct \<Rightarrow> 'c JSON_parser_struct" where
  "first_setup jc =
     (let jc = (if jp_depth jc > 0
                then jc\<lparr>jp_capacity := nat (jp_depth jc), jp_size := max JSON_PARSER_STACK_SIZE (nat (jp_depth jc))\<rparr>
                else jc\<lparr>jp_capacity := JSON_PARSER_STACK_SIZE, jp_depth := -1, jp_size := JSON_PARSER_STACK_SIZE\<rparr>) in
      jc\<lparr>jp_bufcap := JSON_PARSER_PARSE_BUFFER_SIZE\<rparr>)"

definition JSON_parser_reset :: "'c JSON_parser_struct \<Rightarrow> 'c JSON_parser_struct option" where
  "JSON_parser_reset jc = do {
     let jc = jc\<lparr>jp_state := GO, jp_stack := []\<rparr>;
     let jc = (if jp_bufcap jc = 0 then first_setup jc else jc);
     (ok, jc) \<leftarrow> push MODE_DONE jc;
     Some (parse_buffer_clear jc) }"

definition new_JSON_parser :: "JSON_config \<Rightarrow> 'c \<Rightarrow> 'c JSON_parser_struct option" where
  "new_JSON_parser config ctx =
     JSON_parser_reset
       \<lparr>jp_ctx = ctx, jp_state = GO, jp_before = GO, jp_type = JSON_T_NONE, jp_escaped = False, jp_comment = False,
        jp_comments = jc_comments config, jp_manually = jc_manually config, jp_error = JSON_E_NONE, jp_point = CHR ''.'',
        jp_utf16 = 0, jp_char = 0, jp_depth = (if jc_depth config = 0 then 1 else jc_depth config), jp_stack = [],
        jp_capacity = 0, jp_size = 0, jp_buf = [], jp_bufcap = 0\<rparr>"

section \<open>The tree\<close>

type_synonym place = "json_item \<times> json_item list"

record json_context =
  key_under :: bool
  start_depth :: bool
  cx_path :: "place list"

definition set_child_type :: "json_child_t \<Rightarrow> json_item \<Rightarrow> json_item" where
  "set_child_type ct it = Item (jkey it) (jstr it) (jint it) (jfloat it) (jtype it) ct (jchild it)"

definition set_children :: "json_item list \<Rightarrow> json_item \<Rightarrow> json_item" where
  "set_children ch it = Item (jkey it) (jstr it) (jint it) (jfloat it) (jtype it) (jctype it) ch"

text \<open>The assignments of a value.\<close>

fun set_value :: "json_type \<Rightarrow> JSON_value \<Rightarrow> json_item \<Rightarrow> json_item" where
  "set_value t v (Item k s n f t0 ct ch) =
     (case v of
        IntValue i \<Rightarrow> Item k s i f t ct ch
      | FloatValue x \<Rightarrow> Item k s n x t ct ch
      | StrValue x \<Rightarrow> Item k (Some x) n f t ct ch
      | NoValue \<Rightarrow> Item k s (if t = JSON_T_TRUE then 1 else 0) f t ct ch)"

text \<open>The member of the value that the callback reads has been set.\<close>

definition value_set :: "json_type \<Rightarrow> JSON_value \<Rightarrow> bool" where
  "value_set t v =
     (case t of
        JSON_T_INTEGER \<Rightarrow> (case v of IntValue _ \<Rightarrow> True | _ \<Rightarrow> False)
      | JSON_T_FLOAT \<Rightarrow> (case v of FloatValue _ \<Rightarrow> True | _ \<Rightarrow> False)
      | JSON_T_STRING \<Rightarrow> (case v of StrValue _ \<Rightarrow> True | _ \<Rightarrow> False)
      | _ \<Rightarrow> v = NoValue)"

text \<open>\<open>current_cx = current_cx->father\<close>: the item behind it on the path, with its children linked in.\<close>

fun to_father :: "place list \<Rightarrow> place list" where
  "to_father ((it, sibs) # (fa, fsibs) # up) = (set_children (rev sibs @ [it]) fa, fsibs) # up"
| "to_father p = p"

text \<open>A new item becomes the first child of \<open>current_cx\<close> or its next sibling, and \<open>current_cx\<close> itself.\<close>

definition link_item :: "json_item \<Rightarrow> json_context \<Rightarrow> json_context option" where
  "link_item jval cx =
     (case cx_path cx of
        [] \<Rightarrow> None
      | (it, sibs) # up \<Rightarrow>
          Some (if start_depth cx then cx\<lparr>cx_path := (jval, []) # (it, sibs) # up, start_depth := False\<rparr>
                else cx\<lparr>cx_path := (jval, it # sibs) # up\<rparr>))"

fun at_current :: "(json_item \<Rightarrow> json_item) \<Rightarrow> place list \<Rightarrow> place list option" where
  "at_current f ((it, sibs) # up) = Some ((f it, sibs) # up)"
| "at_current f [] = None"

definition json_begin :: "json_child_t \<Rightarrow> json_context \<Rightarrow> json_context option" where
  "json_begin ct cx = do {
     cx \<leftarrow> (if key_under cx then Some cx
           else if cx_path cx = [] then Some (cx\<lparr>cx_path := [(init_json_item, [])]\<rparr>)
           else link_item init_json_item cx);
     p \<leftarrow> at_current (set_child_type ct) (cx_path cx);
     Some (cx\<lparr>cx_path := p, start_depth := True, key_under := False\<rparr>) }"

definition json_end :: "json_context \<Rightarrow> json_context option" where
  "json_end cx =
     (if cx_path cx = [] then None
      else Some (cx\<lparr>cx_path := (if start_depth cx then cx_path cx else to_father (cx_path cx)),
                    start_depth := False, key_under := False\<rparr>))"

definition json_key :: "string \<Rightarrow> json_context \<Rightarrow> json_context option" where
  "json_key k cx = do {
     cx \<leftarrow> link_item (Item (Some k) None 0 0 JSON_T_UNSET JSON_C_T_NULL []) cx;
     Some (cx\<lparr>key_under := True\<rparr>) }"

definition json_val :: "json_type \<Rightarrow> JSON_value \<Rightarrow> json_context \<Rightarrow> json_context option" where
  "json_val t v cx = do {
     cx \<leftarrow> (if key_under cx then Some cx else link_item init_json_item cx);
     assert_that (value_set t v);
     p \<leftarrow> at_current (set_value t v) (cx_path cx);
     Some (cx\<lparr>cx_path := p, key_under := False\<rparr>) }"

definition json_event :: "json_context \<Rightarrow> json_type \<Rightarrow> JSON_value \<Rightarrow> json_context option" where
  "json_event cx type v =
     (case type of
        JSON_T_OBJECT_BEGIN \<Rightarrow> json_begin JSON_C_T_OBJ cx
      | JSON_T_ARRAY_BEGIN \<Rightarrow> json_begin JSON_C_T_ARR cx
      | JSON_T_OBJECT_END \<Rightarrow> json_end cx
      | JSON_T_ARRAY_END \<Rightarrow> json_end cx
      | JSON_T_KEY \<Rightarrow> (case v of StrValue k \<Rightarrow> json_key k cx | _ \<Rightarrow> None)
      | JSON_T_INTEGER \<Rightarrow> json_val type v cx
      | JSON_T_FLOAT \<Rightarrow> json_val type v cx
      | JSON_T_NULL \<Rightarrow> json_val type v cx
      | JSON_T_TRUE \<Rightarrow> json_val type v cx
      | JSON_T_FALSE \<Rightarrow> json_val type v cx
      | JSON_T_STRING \<Rightarrow> json_val type v cx
      | _ \<Rightarrow> Some cx)"

definition json_callback :: "json_context \<Rightarrow> json_type \<Rightarrow> JSON_value \<Rightarrow> (bool \<times> json_context) option" where
  "json_callback cx type v = do { cx \<leftarrow> json_event cx type v; Some (True, cx) }"

text \<open>The chain that starts at \<open>head\<close>, the first item made.\<close>

function cx_head :: "place list \<Rightarrow> json_item list" where
  "cx_head [] = []"
| "cx_head [(it, sibs)] = rev sibs @ [it]"
| "cx_head ((it, sibs) # (fa, fsibs) # up) = cx_head ((set_children (rev sibs @ [it]) fa, fsibs) # up)"
  by pat_completeness auto
termination by (relation "measure length") auto

text \<open>\<open>init_json_parser\<close>: plain \<open>char\<close> is signed, so a byte beyond ASCII is a negative number.\<close>

definition signed_char :: "char \<Rightarrow> int" where
  "signed_char c = (let n = int (of_char c) in if n < 128 then n else n - 256)"

fun parser_chars :: "'c json_env \<Rightarrow> 'c JSON_parser_struct \<Rightarrow> string \<Rightarrow> (bool \<times> 'c JSON_parser_struct) option" where
  "parser_chars E jc [] = Some (True, jc)"
| "parser_chars E jc (c # cs) =
     orelse_return (JSON_parser_char E jc (signed_char c)) (\<lambda>jc. parser_chars E jc cs)"

definition tree_env :: "(string \<Rightarrow> rat) \<Rightarrow> json_context json_env" where
  "tree_env strtod = \<lparr>je_callback = Some json_callback, je_strtod = strtod\<rparr>"

definition parser_config :: JSON_config where
  "parser_config = \<lparr>jc_depth = 15, jc_comments = False, jc_manually = False\<rparr>"

definition init_json_parser :: "(string \<Rightarrow> rat) \<Rightarrow> string \<Rightarrow> json_item list option" where
  "init_json_parser strtod json_string = do {
     jc \<leftarrow> new_JSON_parser parser_config \<lparr>key_under = False, start_depth = False, cx_path = []\<rparr>;
     (ok, jc) \<leftarrow> orelse_return (parser_chars (tree_env strtod) jc json_string) JSON_parser_done;
     Some (if ok then cx_head (cx_path (jp_ctx jc)) else []) }"

end
