(* ===== verification/Ape_Json_Read.thy ===== *)
theory Ape_Json_Read
  imports Ape_Json_Parser
begin

text \<open>
  What the JSON reader promises. The locale \<open>json_consumer\<close> is the contract between the automaton and the
  callback it reports to: which events can follow in which phase of a text. Under it the automaton never
  leaves its stack or its buffer and fails no assertion. The callback that builds trees satisfies it, and the
  trees are well formed.
\<close>

section \<open>Outcomes\<close>

text \<open>A step that completes, with \<open>P\<close> if it accepts.\<close>

definition gives :: "(bool \<times> 'a) option \<Rightarrow> ('a \<Rightarrow> bool) \<Rightarrow> bool" where
  "gives m P \<longleftrightarrow> (\<exists>ok x. m = Some (ok, x) \<and> (ok \<longrightarrow> P x))"

lemma gives_Some [simp]: "gives (Some (ok, x)) P \<longleftrightarrow> (ok \<longrightarrow> P x)"
  by (simp add: gives_def)

lemma gives_reject [simp]: "gives (reject e jc) P"
  by (simp add: reject_def)

lemma gives_orelse_return:
  assumes "gives m P" and "\<And>x. P x \<Longrightarrow> gives (f x) Q"
  shows "gives (orelse_return m f) Q"
  using assms by (auto simp: gives_def orelse_return_def)

lemma gives_cases:
  assumes "gives m P" and "\<And>ok x. (ok \<Longrightarrow> P x) \<Longrightarrow> gives (g ok x) Q"
  shows "gives (do { (ok, x) \<leftarrow> m; g ok x }) Q"
  using assms by (auto simp: gives_def)

lemma gives_mono: "gives m P \<Longrightarrow> (\<And>x. P x \<Longrightarrow> Q x) \<Longrightarrow> gives m Q"
  by (auto simp: gives_def)

lemma assert_that_bind [simp]: "Option.bind (assert_that b) f = (if b then f () else None)"
  by (simp add: assert_that_def)

section \<open>Characters and classes\<close>

definition is_hex :: "char \<Rightarrow> bool" where
  "is_hex c \<longleftrightarrow> hex_val c < 16"

definition hex_class :: "classes \<Rightarrow> bool" where
  "hex_class cl \<longleftrightarrow> cl \<in> {C_ZERO, C_DIGIT, C_LOW_A, C_LOW_B, C_LOW_C, C_LOW_D, C_LOW_E, C_LOW_F, C_ABCDF, C_E}"

definition class_fits :: "classes \<Rightarrow> char \<Rightarrow> bool" where
  "class_fits cl c \<longleftrightarrow> (cl \<in> {C_ZERO, C_DIGIT} \<longrightarrow> is_digit c) \<and> (hex_class cl \<longrightarrow> is_hex c) \<and>
     (cl = C_POINT \<longrightarrow> c = CHR ''.'') \<and> (cl = C_MINUS \<longrightarrow> c = CHR ''-'')"

lemma all_ascii: "list_all (\<lambda>n. case ascii_class ! n of None \<Rightarrow> True | Some cl \<Rightarrow> class_fits cl (char_of n)) [0..<128]"
  by code_simp

lemma char_class_fits:
  assumes "char_class n = Some cl" and "0 \<le> n"
  shows "class_fits cl (the_char n)"
proof (cases "n < 128")
  case True
  then have "nat n \<in> set [0..<128]" using assms(2) by auto
  from bspec [OF all_ascii [unfolded list_all_iff] this]
  show ?thesis using assms True by (simp add: char_class_def the_char_def)
qed (use assms in \<open>simp add: char_class_def class_fits_def hex_class_def\<close>)

text \<open>A text \<open>sscanf\<close> finds a number in.\<close>

definition numeric :: "string \<Rightarrow> bool" where
  "numeric b \<longleftrightarrow> (\<exists>neg d rest. b = (if neg then ''-'' else []) @ d # rest \<and> is_digit d)"

lemma numeric_snoc: "numeric b \<Longrightarrow> numeric (b @ [c])"
  unfolding numeric_def by (metis append.assoc append_Cons)

lemma digit_not_blank: "is_digit d \<Longrightarrow> d \<noteq> CHR '' '' \<and> d \<noteq> CHR 0x09 \<and> d \<noteq> CHR 0x0A \<and> d \<noteq> CHR 0x0D \<and> d \<noteq> CHR ''-'' \<and> d \<noteq> CHR ''+''"
  by (auto simp: is_digit_def)

lemma saturate_range: "LLONG_MIN \<le> saturate n" "saturate n \<le> LLONG_MAX"
  by (simp_all add: saturate_def LLONG_MIN_def LLONG_MAX_def)

lemma numeric_scan: "numeric b \<Longrightarrow> \<exists>i. sscanf_lld b = Some i \<and> LLONG_MIN \<le> i \<and> i \<le> LLONG_MAX"
proof -
  assume "numeric b"
  then obtain neg d rest where b: "b = (if neg then ''-'' else []) @ d # rest" "is_digit d"
    by (auto simp: numeric_def)
  have "\<exists>n. sscanf_lld b = Some (saturate n)"
    by (cases neg) (simp_all add: b digit_not_blank [OF b(2)] sscanf_lld_def Let_def, blast+)
  then show ?thesis using saturate_range by blast
qed

section \<open>Phases\<close>

datatype phase = Start | Val | OpenArr | OpenObj | Key | Colon | Done

fun phase_of :: "states \<Rightarrow> json_type \<Rightarrow> modes \<Rightarrow> phase" where
  "phase_of GO ty m = Start"
| "phase_of OK ty m = (if ty = JSON_T_NONE then Done else Val)"
| "phase_of OB ty m = OpenObj"
| "phase_of KE ty m = Key"
| "phase_of CO ty m = Colon"
| "phase_of AR ty m = OpenArr"
| "phase_of st ty m = (if ty = JSON_T_STRING \<and> m = MODE_KEY then Key else Val)"

fun phase_mode :: "phase \<Rightarrow> modes \<Rightarrow> bool" where
  "phase_mode Start m = (m = MODE_DONE)"
| "phase_mode Val m = (m = MODE_ARRAY \<or> m = MODE_OBJECT)"
| "phase_mode OpenArr m = (m = MODE_ARRAY)"
| "phase_mode OpenObj m = (m = MODE_KEY)"
| "phase_mode Key m = (m = MODE_KEY)"
| "phase_mode Colon m = (m = MODE_KEY)"
| "phase_mode Done m = (m \<noteq> MODE_KEY)"

definition escape_text :: "nat \<Rightarrow> string \<Rightarrow> bool" where
  "escape_text n b \<longleftrightarrow> (\<exists>a h. b = a @ h \<and> 2 \<le> length a \<and> length h = n \<and> list_all is_hex h)"

lemma escape_text_0 [simp]: "escape_text 0 b \<longleftrightarrow> 2 \<le> length b"
  by (simp add: escape_text_def)

lemma escape_text_snoc: "escape_text n b \<Longrightarrow> is_hex c \<Longrightarrow> escape_text (Suc n) (b @ [c])"
  proof -
  assume "escape_text n b" "is_hex c"
  then obtain a h where "b = a @ h" "2 \<le> length a" "length h = n" "list_all is_hex h" by (auto simp: escape_text_def)
  then have "b @ [c] = a @ (h @ [c]) \<and> 2 \<le> length a \<and> length (h @ [c]) = Suc n \<and> list_all is_hex (h @ [c])"
    using \<open>is_hex c\<close> by simp
  then show ?thesis unfolding escape_text_def by blast
qed

text \<open>Type and content of the parse buffer in each state.\<close>

fun shape :: "states \<Rightarrow> json_type \<Rightarrow> string \<Rightarrow> u16 \<Rightarrow> bool" where
  "shape OK ty b u = (u = 0 \<and> ty \<in> {JSON_T_NONE, JSON_T_INTEGER, JSON_T_FLOAT, JSON_T_TRUE, JSON_T_FALSE, JSON_T_NULL} \<and>
     (ty = JSON_T_NONE \<longrightarrow> b = []) \<and> (ty = JSON_T_INTEGER \<longrightarrow> numeric b))"
| "shape ST ty b u = (u = 0 \<and> ty = JSON_T_STRING)"
| "shape ES ty b u = (u = 0 \<and> ty = JSON_T_STRING \<and> b \<noteq> [])"
| "shape U1 ty b u = (ty = JSON_T_STRING \<and> escape_text 0 b)"
| "shape U2 ty b u = (ty = JSON_T_STRING \<and> escape_text 1 b)"
| "shape U3 ty b u = (ty = JSON_T_STRING \<and> escape_text 2 b)"
| "shape U4 ty b u = (ty = JSON_T_STRING \<and> escape_text 3 b)"
| "shape D1 ty b u = (ty = JSON_T_STRING)"
| "shape D2 ty b u = (ty = JSON_T_STRING \<and> b \<noteq> [])"
| "shape MI ty b u = (u = 0 \<and> ty = JSON_T_INTEGER \<and> b = ''-'')"
| "shape ZE ty b u = (u = 0 \<and> ty = JSON_T_INTEGER \<and> numeric b)"
| "shape IT ty b u = (u = 0 \<and> ty = JSON_T_INTEGER \<and> numeric b)"
| "shape FR ty b u = (u = 0 \<and> ty = JSON_T_FLOAT)"
| "shape E1 ty b u = (u = 0 \<and> ty = JSON_T_FLOAT)"
| "shape E2 ty b u = (u = 0 \<and> ty = JSON_T_FLOAT)"
| "shape E3 ty b u = (u = 0 \<and> ty = JSON_T_FLOAT)"
| "shape FX ty b u = (u = 0 \<and> ty = JSON_T_FLOAT)"
| "shape T1 ty b u = (u = 0 \<and> ty = JSON_T_TRUE)"
| "shape T2 ty b u = (u = 0 \<and> ty = JSON_T_TRUE)"
| "shape T3 ty b u = (u = 0 \<and> ty = JSON_T_TRUE)"
| "shape F1 ty b u = (u = 0 \<and> ty = JSON_T_FALSE)"
| "shape F2 ty b u = (u = 0 \<and> ty = JSON_T_FALSE)"
| "shape F3 ty b u = (u = 0 \<and> ty = JSON_T_FALSE)"
| "shape F4 ty b u = (u = 0 \<and> ty = JSON_T_FALSE)"
| "shape N1 ty b u = (u = 0 \<and> ty = JSON_T_NULL)"
| "shape N2 ty b u = (u = 0 \<and> ty = JSON_T_NULL)"
| "shape N3 ty b u = (u = 0 \<and> ty = JSON_T_NULL)"
| "shape C1 ty b u = False"
| "shape C2 ty b u = False"
| "shape C3 ty b u = False"
| "shape st ty b u = (u = 0 \<and> ty = JSON_T_NONE \<and> b = [])"

text \<open>The buffer after a character that is not escaped.\<close>

definition put :: "json_type \<Rightarrow> classes \<Rightarrow> char \<Rightarrow> string \<Rightarrow> string" where
  "put ty cl c b = (if ty \<noteq> JSON_T_NONE \<or> \<not> (cl = C_SPACE \<or> cl = C_WHITE) then b @ [c] else b)"

lemma put_text [simp]: "ty \<noteq> JSON_T_NONE \<Longrightarrow> put ty cl c b = b @ [c]"
  by (simp add: put_def)

lemma put_blank [simp]: "put JSON_T_NONE C_SPACE c b = b" "put JSON_T_NONE C_WHITE c b = b"
  by (simp_all add: put_def)

lemma numeric_digit: "is_digit c \<Longrightarrow> numeric [CHR ''-'', c]" "is_digit c \<Longrightarrow> numeric [c]"
  unfolding numeric_def by (metis append_Cons append_Nil)+

lemma escape_text_more:
  "escape_text 1 b \<Longrightarrow> is_hex c \<Longrightarrow> escape_text 2 (b @ [c])"
  "escape_text 2 b \<Longrightarrow> is_hex c \<Longrightarrow> escape_text 3 (b @ [c])"
  "escape_text 3 b \<Longrightarrow> is_hex c \<Longrightarrow> escape_text 4 (b @ [c])"
  "2 \<le> length b \<Longrightarrow> is_hex c \<Longrightarrow> escape_text 1 (b @ [c])"
  using escape_text_snoc [of 1 b c] escape_text_snoc [of 2 b c] escape_text_snoc [of 3 b c] escape_text_snoc [of 0 b c]
  by (simp_all add: numeral_eq_Suc)

lemma length_pos: "b \<noteq> [] \<Longrightarrow> 1 \<le> length b"
  by (cases b) auto

lemma to_shape:
  assumes "next_entry st cl = To st'" and "shape st ty b u" and "class_fits cl c" and "st \<noteq> ES"
  shows "shape st' ty (put ty cl c b) u"
  using assms
  by (cases st; cases cl) (simp_all add: next_entry_def class_fits_def hex_class_def numeric_snoc numeric_digit escape_text_more
    length_pos del: One_nat_def)

lemma to_phase: "next_entry st cl = To st' \<Longrightarrow> shape st ty b u \<Longrightarrow> phase_of st' ty m = phase_of st ty m"
  by (cases st; cases cl) (simp_all add: next_entry_def)

lemma to_not_escape: "next_entry st cl = To st' \<Longrightarrow> st' \<noteq> ES"
  by (cases st; cases cl) (simp_all add: next_entry_def)

text \<open>The states an action starts from.\<close>

fun action_from :: "actions \<Rightarrow> states set" where
  "action_from UC = {U4}"
| "action_from EX1 = {ST}"
| "action_from DE = {IT}"
| "action_from DF = {ZE, IT}"
| "action_from SB = {OB, KE, VA, AR}"
| "action_from CE = {C3}"
| "action_from CB = UNIV"
| "action_from M9 = {OB}"
| "action_from M8 = {OK, ZE, IT, FR, E3, FX}"
| "action_from M7 = {OK, ZE, IT, FR, E3, FX, AR}"
| "action_from M6 = {GO, VA, AR}"
| "action_from M5 = {GO, VA, AR}"
| "action_from M4 = {ST}"
| "action_from M3 = {OK, ZE, IT, FR, E3, FX}"
| "action_from M2 = {CO}"
| "action_from a = {VA, AR}"

fun action_class :: "actions \<Rightarrow> classes \<Rightarrow> bool" where
  "action_class UC cl = hex_class cl"
| "action_class MX cl = (cl = C_MINUS)"
| "action_class ZX cl = (cl = C_ZERO)"
| "action_class IX cl = (cl = C_DIGIT)"
| "action_class DF cl = (cl = C_POINT)"
| "action_class a cl = (cl \<noteq> C_SPACE \<and> cl \<noteq> C_WHITE)"

lemma act_from: "next_entry st cl = Act a \<Longrightarrow> st \<in> action_from a \<and> action_class a cl"
  by (cases st; cases cl) (auto simp: next_entry_def hex_class_def)

section \<open>The parse buffer\<close>

lemma grow_to_ok: "0 < cap \<Longrightarrow> \<exists>c. grow_to need cap = Some c \<and> need \<le> c \<and> cap \<le> c"
proof (induction need cap rule: grow_to.induct)
  case (1 need cap)
  show ?case
  proof (cases "need \<le> cap")
    case False
    then obtain c where "grow_to need (cap * 2) = Some c" "need \<le> c" "cap * 2 \<le> c" using 1 by auto
    then show ?thesis using False 1(2) by (intro exI [of _ c]) (simp add: grow_to.simps [of need cap])
  qed (simp add: grow_to.simps)
qed

lemma add_plain:
  assumes "\<not> jp_escaped jc" and "\<not> jp_comment jc" and "0 < jp_bufcap jc"
  obtains cap where "length (jp_buf jc) + 2 \<le> cap"
    and "add_char_to_parse_buffer n cl jc =
      Some (True, jc\<lparr>jp_bufcap := cap, jp_buf := put (jp_type jc) cl (the_char n) (jp_buf jc)\<rparr>)"
proof -
  obtain cap where cap: "grow_to (length (jp_buf jc) + 2) (jp_bufcap jc) = Some cap" "length (jp_buf jc) + 2 \<le> cap"
    using grow_to_ok [OF assms(3)] by blast
  show thesis
    by (rule that [OF cap(2)]) (use cap assms in \<open>simp add: add_char_to_parse_buffer_def parse_buffer_reserve_for_def
      parse_buffer_push_back_char_def parse_buffer_has_space_for_def put_def\<close>)
qed

lemma add_escaped:
  assumes "jp_escaped jc" and "jp_buf jc \<noteq> []" and "0 < jp_bufcap jc"
  obtains (escape) cap t where "length (jp_buf jc) + 2 \<le> cap"
    and "unescaped n = None \<and> n = 0x75 \<and> t = [CHR 0x5C, CHR ''u''] \<or> (\<exists>c. unescaped n = Some c \<and> t = [c])"
    and "add_char_to_parse_buffer n cl jc =
      Some (True, jc\<lparr>jp_bufcap := cap, jp_escaped := False, jp_buf := butlast (jp_buf jc) @ t\<rparr>)"
  | (refused) jc' where "add_char_to_parse_buffer n cl jc = Some (False, jc')"
proof -
  obtain cap where cap: "grow_to (length (jp_buf jc) + 2) (jp_bufcap jc) = Some cap" "length (jp_buf jc) + 2 \<le> cap"
    using grow_to_ok [OF assms(3)] by blast
  have lb: "length (butlast (jp_buf jc)) = length (jp_buf jc) - 1" by simp
  note defs = add_char_to_parse_buffer_def parse_buffer_reserve_for_def parse_buffer_push_back_char_def
    parse_buffer_has_space_for_def add_escaped_char_to_parse_buffer_def parse_buffer_pop_back_char_def reject_def
  show thesis
  proof (cases "unescaped n")
    case None
    then show thesis
    proof (cases "n = 0x75")
      case True
      show thesis
        by (rule escape [of cap "[CHR 0x5C, CHR ''u'']"]) (use cap assms None True in \<open>auto simp: defs\<close>)
    next
      case False
      have "\<exists>jc'. add_char_to_parse_buffer n cl jc = Some (False, jc')" using cap assms None False by (simp add: defs)
      then show thesis using refused by blast
    qed
  next
    case (Some c)
    show thesis by (rule escape [of cap "[c]"]) (use cap assms Some in \<open>auto simp: defs\<close>)
  qed
qed

lemma unescaped_class:
  assumes "unescaped n = Some c" and "char_class n = Some cl"
  shows "next_entry ES cl = To ST"
proof -
  have "n \<in> {0x62, 0x66, 0x6E, 0x72, 0x74, 0x22, 0x5C, 0x2F}" using assms(1) by (auto simp: unescaped_def split: if_splits)
  then show ?thesis using assms(2) by (auto simp: char_class_def ascii_class_def next_entry_def)
qed

lemma escaped_u_class: "char_class 0x75 = Some cl \<Longrightarrow> next_entry ES cl = To U1"
  by (auto simp: char_class_def ascii_class_def next_entry_def)

text \<open>Decoding \<open>\u\<close>: the six characters of the escape go, at most four bytes come.\<close>

lemma hex_loop_ok: "list_all is_hex h \<Longrightarrow> \<exists>uc'. hex_loop uc h = Some uc'"
  by (induction h arbitrary: uc) (auto simp: is_hex_def)

lemma trail_length [simp]: "length (trail uc n) = n"
  by (induction n) auto

lemma decode_ok:
  assumes "escape_text 4 (jp_buf jc)" and "length (jp_buf jc) + 1 \<le> jp_bufcap jc"
  shows "gives (decode_unicode_char jc) (\<lambda>jc'. \<exists>b u. jc' = jc\<lparr>jp_utf16 := u, jp_buf := b\<rparr> \<and> length b + 1 \<le> jp_bufcap jc)"
proof -
  obtain a h where ah: "jp_buf jc = a @ h" "2 \<le> length a" "length h = 4" "list_all is_hex h"
    using assms(1) by (auto simp: escape_text_def)
  obtain uc where uc: "hex_loop 0 h = Some uc" using hex_loop_ok [OF ah(4)] by blast
  let ?b = "take (length a - 2) a"
  let ?P = "\<lambda>jc'. \<exists>b u. jc' = jc\<lparr>jp_utf16 := u, jp_buf := b\<rparr> \<and> length b + 1 \<le> jp_bufcap jc"
  have room: "length ?b + n + 2 \<le> jp_bufcap jc" if "n \<le> 3" for n using that assms(2) ah by simp
  have P: "?P (jc\<lparr>jp_utf16 := u, jp_buf := b\<rparr>)" if "length b + 1 \<le> jp_bufcap jc" for b u using that by blast
  have len: "length (?b @ utf8_bytes w n) + 1 \<le> jp_bufcap jc" if "n \<le> 3" for w n
    using room [OF that] by (simp add: utf8_bytes_def)
  have pu: "gives (put_utf8 w n (jc\<lparr>jp_buf := ?b, jp_utf16 := u\<rparr>)) ?P" if "n \<le> 3" for w n u
    using P [OF len [OF that, of w], of u] room [OF that] by (simp add: put_utf8_def)
  have pu0: "gives (put_utf8 w n (jc\<lparr>jp_buf := ?b\<rparr>)) ?P" if "n \<le> 3" for w n
    using pu [OF that, of w "jp_utf16 jc"] by simp
  have swap: "jc\<lparr>jp_buf := ?b, jp_utf16 := u\<rparr> = jc\<lparr>jp_utf16 := u, jp_buf := ?b\<rparr>" for u by simp
  have hi: "?P (jc\<lparr>jp_buf := ?b, jp_utf16 := u\<rparr>)" for u unfolding swap using room [of 0] by (intro P) simp
  show ?thesis using pu [of 3] pu0 [of 0] pu0 [of 1] pu0 [of 2] hi ah(1-3)
    by (simp add: decode_unicode_char_def Let_def uc)
qed

section \<open>The automaton and its callback\<close>

text \<open>\<open>MODE_DONE\<close> is the bottom of the stack, and only its top can be \<open>MODE_KEY\<close>.\<close>

fun nested :: "modes list \<Rightarrow> bool" where
  "nested [] = False"
| "nested [m] = (m = MODE_DONE)"
| "nested (m # m' # stk) = (m \<noteq> MODE_DONE \<and> m' \<noteq> MODE_KEY \<and> nested (m' # stk))"

definition sound :: "'c JSON_parser_struct \<Rightarrow> bool" where
  "sound jc \<longleftrightarrow> \<not> jp_comment jc \<and> \<not> jp_comments jc \<and> \<not> jp_manually jc \<and> jp_depth jc = 15 \<and> jp_capacity jc = 15 \<and>
     jp_size jc = 128 \<and> length (jp_buf jc) + 1 \<le> jp_bufcap jc \<and> nested (jp_stack jc) \<and> length (jp_stack jc) \<le> 16"

lemma push_ok:
  "sound jc \<Longrightarrow> gives (push m jc) (\<lambda>jc'. jc' = jc\<lparr>jp_stack := m # jp_stack jc\<rparr> \<and> length (jp_stack jc) \<le> 15)"
  by (auto simp: push_def sound_def jtop_def Let_def)

lemma pop_ok: "gives (pop m jc) (\<lambda>jc'. \<exists>rest. jp_stack jc = m # rest \<and> jc' = jc\<lparr>jp_stack := rest\<rparr>)"
  by (cases "jp_stack jc") (auto simp: pop_def)

lemma sound_upd [simp]:
  "sound (jc\<lparr>jp_state := st\<rparr>) = sound jc" "sound (jc\<lparr>jp_type := ty\<rparr>) = sound jc" "sound (jc\<lparr>jp_ctx := cx\<rparr>) = sound jc"
  "sound (jc\<lparr>jp_escaped := e\<rparr>) = sound jc" "sound (jc\<lparr>jp_utf16 := u\<rparr>) = sound jc" "sound (jc\<lparr>jp_char := n\<rparr>) = sound jc"
  by (simp_all add: sound_def)

lemma sound_clear [simp]: "sound jc \<Longrightarrow> sound (jc\<lparr>jp_buf := []\<rparr>)"
  by (simp add: sound_def)

lemma sound_shorter: "sound jc \<Longrightarrow> length b \<le> length (jp_buf jc) \<Longrightarrow> sound (jc\<lparr>jp_buf := b\<rparr>)"
  by (simp add: sound_def)

lemma sound_push: "sound jc \<Longrightarrow> length (jp_stack jc) \<le> 15 \<Longrightarrow> hd (jp_stack jc) \<noteq> MODE_KEY \<Longrightarrow> m \<noteq> MODE_DONE \<Longrightarrow> sound (jc\<lparr>jp_stack := m # jp_stack jc\<rparr>)"
  by (cases "jp_stack jc") (auto simp: sound_def)

lemma sound_swap: "sound jc \<Longrightarrow> jp_stack jc = m # rest \<Longrightarrow> m \<noteq> MODE_DONE \<Longrightarrow> m' \<noteq> MODE_DONE \<Longrightarrow> sound (jc\<lparr>jp_stack := m' # rest\<rparr>)"
  by (cases rest) (auto simp: sound_def)

lemma sound_pop: "sound jc \<Longrightarrow> jp_stack jc = m # rest \<Longrightarrow> m \<noteq> MODE_DONE \<Longrightarrow> sound (jc\<lparr>jp_stack := rest\<rparr>) \<and> hd rest \<noteq> MODE_KEY"
  by (cases rest) (auto simp: sound_def)

definition value_fits :: "json_type \<Rightarrow> JSON_value \<Rightarrow> bool" where
  "value_fits t v \<longleftrightarrow> is_non_container_type t \<and> value_set t v \<and> (\<forall>i. v = IntValue i \<longrightarrow> LLONG_MIN \<le> i \<and> i \<le> LLONG_MAX)"

locale json_consumer =
  fixes callback :: "'c \<Rightarrow> json_type \<Rightarrow> JSON_value \<Rightarrow> (bool \<times> 'c) option"
    and follows :: "modes list \<Rightarrow> phase \<Rightarrow> 'c \<Rightarrow> bool"
  assumes on_value: "follows stk Val cx \<Longrightarrow> value_fits t v \<Longrightarrow> gives (callback cx t v) (follows stk Done)"
    and on_key: "follows stk Key cx \<Longrightarrow> gives (callback cx JSON_T_KEY (StrValue k)) (follows stk Colon)"
    and on_object: "follows stk ph cx \<Longrightarrow> ph = Val \<or> ph = Start \<Longrightarrow>
      gives (callback cx JSON_T_OBJECT_BEGIN NoValue) (\<lambda>cx. length stk \<le> 15 \<longrightarrow> follows (MODE_KEY # stk) OpenObj cx)"
    and on_array: "follows stk ph cx \<Longrightarrow> ph = Val \<or> ph = Start \<Longrightarrow>
      gives (callback cx JSON_T_ARRAY_BEGIN NoValue) (\<lambda>cx. length stk \<le> 15 \<longrightarrow> follows (MODE_ARRAY # stk) OpenArr cx)"
    and on_end: "follows stk ph cx \<Longrightarrow> ph \<in> {Done, OpenArr, OpenObj} \<Longrightarrow> t = JSON_T_OBJECT_END \<or> t = JSON_T_ARRAY_END \<Longrightarrow>
      gives (callback cx t NoValue) (\<lambda>cx. \<forall>m rest. stk = m # rest \<and> m \<noteq> MODE_DONE \<longrightarrow> follows rest Done cx)"
    and filled: "follows stk OpenArr cx \<Longrightarrow> follows stk Val cx" "follows stk OpenObj cx \<Longrightarrow> follows stk Key cx"
    and continued: "follows (MODE_ARRAY # stk) Done cx \<Longrightarrow> follows (MODE_ARRAY # stk) Val cx"
      "follows (MODE_OBJECT # stk) Done cx \<Longrightarrow> follows (MODE_KEY # stk) Key cx"
    and paired: "follows (MODE_KEY # stk) Colon cx \<Longrightarrow> follows (MODE_OBJECT # stk) Val cx"
begin

definition settled :: "states \<Rightarrow> json_type \<Rightarrow> string \<Rightarrow> u16 \<Rightarrow> modes list \<Rightarrow> 'c \<Rightarrow> bool" where
  "settled st ty b u stk cx \<longleftrightarrow> shape st ty b u \<and> phase_mode (phase_of st ty (hd stk)) (hd stk) \<and> follows stk (phase_of st ty (hd stk)) cx"

definition inv :: "'c JSON_parser_struct \<Rightarrow> bool" where
  "inv jc \<longleftrightarrow> sound jc \<and> jp_escaped jc = (jp_state jc = ES) \<and>
     settled (jp_state jc) (jp_type jc) (jp_buf jc) (jp_utf16 jc) (jp_stack jc) (jp_ctx jc)"


lemma call_ok:
  assumes "je_callback E = Some callback" and "gives (callback (jp_ctx jc) t v) Q"
  shows "gives (call E t v jc) (\<lambda>jc'. \<exists>cx. jc' = jc\<lparr>jp_ctx := cx\<rparr> \<and> Q cx)"
  using assms by (auto simp: call_def gives_def)

lemma flush_ok:
  assumes "je_callback E = Some callback"
    and "jp_type jc = JSON_T_NONE \<Longrightarrow> follows stk ph (jp_ctx jc)"
    and "jp_type jc \<noteq> JSON_T_NONE \<Longrightarrow> follows stk Val (jp_ctx jc) \<and> (\<exists>v. buffer_value E jc = Some v \<and> value_fits (jp_type jc) v)"
  shows "gives (parse_parse_buffer E jc) (\<lambda>jc'. \<exists>cx. jc' = jc\<lparr>jp_ctx := cx, jp_buf := []\<rparr> \<and>
    follows stk (if jp_type jc = JSON_T_NONE then ph else Done) cx)"
proof (cases "jp_type jc = JSON_T_NONE")
  case True
  then show ?thesis using assms(2) [OF True]
    by (auto simp: parse_parse_buffer_def orelse_return_def parse_buffer_clear_def intro!: exI [of _ "jp_ctx jc"])
next
  case False
  then obtain v where v: "follows stk Val (jp_ctx jc)" "buffer_value E jc = Some v" "value_fits (jp_type jc) v" using assms(3) by blast
  have "is_non_container_type (jp_type jc)" using v(3) by (simp add: value_fits_def)
  then show ?thesis using False v(2) assms(1)
    by (auto simp: parse_parse_buffer_def parse_buffer_clear_def intro!: gives_orelse_return [OF call_ok [OF assms(1) on_value [OF v(1,3)]]])
qed

lemma number_value:
  assumes "shape OK (jp_type jc) (jp_buf jc) u" and "jp_type jc \<noteq> JSON_T_NONE" and "\<not> jp_manually jc"
  shows "\<exists>v. buffer_value E jc = Some v \<and> value_fits (jp_type jc) v"
proof (cases "jp_type jc = JSON_T_INTEGER")
  case True
  then obtain i where "sscanf_lld (jp_buf jc) = Some i" "LLONG_MIN \<le> i" "i \<le> LLONG_MAX" using assms numeric_scan by auto
  then show ?thesis using True by (simp add: buffer_value_def value_fits_def is_non_container_type_def value_set_def)
qed (use assms in \<open>auto simp: buffer_value_def value_fits_def is_non_container_type_def value_set_def\<close>)

text \<open>A closing character after a value, or after the opening one: the value is reported and the
  character is gone.\<close>

definition loaded :: "string \<Rightarrow> char \<Rightarrow> 'c JSON_parser_struct \<Rightarrow> bool" where
  "loaded b c jc \<longleftrightarrow> sound jc \<and> \<not> jp_escaped jc \<and> jp_buf jc = b @ [c] \<and> jp_state jc \<noteq> ES \<and>
     settled (jp_state jc) (jp_type jc) b (jp_utf16 jc) (jp_stack jc) (jp_ctx jc)"

lemma pop_loaded: "loaded b c jc \<Longrightarrow> parse_buffer_pop_back_char jc = Some (jc\<lparr>jp_buf := b\<rparr>)"
  by (simp add: loaded_def parse_buffer_pop_back_char_def)

lemma loaded_sound: "loaded b c jc \<Longrightarrow> sound (jc\<lparr>jp_buf := b\<rparr>)"
  by (rule sound_shorter) (simp_all add: loaded_def)

lemma end_state:
  assumes "loaded b c jc" and "jp_state jc \<in> {OK, ZE, IT, FR, E3, FX}"
  shows "shape OK (jp_type jc) b (jp_utf16 jc)" "jp_utf16 jc = 0" "phase_of (jp_state jc) (jp_type jc) m = phase_of OK (jp_type jc) m'"
  using assms by (auto simp: loaded_def settled_def)

lemma closed_value:
  assumes E: "je_callback E = Some callback" and l: "loaded b c jc" and st: "jp_state jc \<in> {OK, ZE, IT, FR, E3, FX}"
  shows "gives (parse_parse_buffer E (jc\<lparr>jp_buf := b\<rparr>)) (\<lambda>jc'. \<exists>cx. jc' = jc\<lparr>jp_ctx := cx, jp_buf := []\<rparr> \<and> follows (jp_stack jc) Done cx)"
proof -
  note es = end_state [OF l st]
  have f: "follows (jp_stack jc) (phase_of OK (jp_type jc) MODE_DONE) (jp_ctx jc)" and m: "\<not> jp_manually jc"
    using l es(3) [of "hd (jp_stack jc)" MODE_DONE] by (simp_all add: loaded_def settled_def sound_def)
  have "gives (parse_parse_buffer E (jc\<lparr>jp_buf := b\<rparr>)) (\<lambda>jc'. \<exists>cx. jc' = jc\<lparr>jp_buf := b, jp_ctx := cx, jp_buf := []\<rparr> \<and>
      follows (jp_stack jc) (if jp_type (jc\<lparr>jp_buf := b\<rparr>) = JSON_T_NONE then Done else Done) cx)"
    by (rule flush_ok [OF E]) (use f m es(1) number_value [of "jc\<lparr>jp_buf := b\<rparr>" 0 E] in \<open>auto split: if_splits\<close>)
  then show ?thesis by (rule gives_mono) simp
qed

lemma loadedD:
  assumes "loaded b c jc"
  shows "sound jc" "\<not> jp_escaped jc" "shape (jp_state jc) (jp_type jc) b (jp_utf16 jc)"
    "phase_mode (phase_of (jp_state jc) (jp_type jc) (hd (jp_stack jc))) (hd (jp_stack jc))"
    "follows (jp_stack jc) (phase_of (jp_state jc) (jp_type jc) (hd (jp_stack jc))) (jp_ctx jc)"
    "jp_buf jc = b @ [c]"
  using assms by (simp_all add: loaded_def settled_def)

lemma end_collection_ok:
  assumes E: "je_callback E = Some callback" and l: "loaded b c jc"
    and st: "jp_state jc \<in> {OK, ZE, IT, FR, E3, FX} \<or> jp_state jc = AR"
    and t: "t = JSON_T_OBJECT_END \<or> t = JSON_T_ARRAY_END" and m: "m \<noteq> MODE_DONE"
  shows "gives (end_collection E t m jc) inv"
proof -
  let ?ph = "if jp_state jc = AR then OpenArr else Done"
  have u: "jp_utf16 jc = 0" using loadedD(3) [OF l] st by auto
  have flush: "gives (parse_parse_buffer E (jc\<lparr>jp_buf := b\<rparr>)) (\<lambda>jc'. \<exists>cx. jc' = jc\<lparr>jp_ctx := cx, jp_buf := []\<rparr> \<and> follows (jp_stack jc) ?ph cx)"
  proof (cases "jp_state jc = AR")
    case True
    then have "jp_type jc = JSON_T_NONE" "follows (jp_stack jc) OpenArr (jp_ctx jc)" using loadedD [OF l] by auto
    then show ?thesis using True flush_ok [OF E, of "jc\<lparr>jp_buf := b\<rparr>" "jp_stack jc" OpenArr] by simp
  next
    case False
    then show ?thesis using closed_value [OF E l] st by simp
  qed
  show ?thesis unfolding end_collection_def pop_loaded [OF l] bind.bind_lunit
  proof (rule gives_orelse_return [OF flush], elim exE conjE, hypsubst, rule gives_orelse_return, rule call_ok [OF E], simp, rule on_end [OF _ _ t], assumption)
    fix cx jc1
    assume jc1: "\<exists>cx'. jc1 = jc\<lparr>jp_ctx := cx, jp_buf := []\<rparr>\<lparr>jp_ctx := cx'\<rparr> \<and>
      (\<forall>m rest. jp_stack jc = m # rest \<and> m \<noteq> MODE_DONE \<longrightarrow> follows rest Done cx')"
    show "gives (pop m jc1 \<bind> (\<lambda>(ok, jc). if ok then Some (True, jc\<lparr>jp_type := JSON_T_NONE, jp_state := OK\<rparr>)
        else reject JSON_E_UNBALANCED_COLLECTION jc)) inv"
    proof (rule gives_cases [OF pop_ok])
      fix ok x
      assume x: "ok \<Longrightarrow> \<exists>rest. jp_stack jc1 = m # rest \<and> x = jc1\<lparr>jp_stack := rest\<rparr>"
      show "gives (if ok then Some (True, x\<lparr>jp_type := JSON_T_NONE, jp_state := OK\<rparr>) else reject JSON_E_UNBALANCED_COLLECTION x) inv"
      proof (cases ok)
        case True
        obtain cx' rest where r: "jc1 = jc\<lparr>jp_buf := [], jp_ctx := cx'\<rparr>" "jp_stack jc = m # rest" "x = jc1\<lparr>jp_stack := rest\<rparr>" "follows rest Done cx'"
          using jc1 x [OF True] m by auto
        have "sound jc1 \<and> jp_stack jc1 = m # rest" using loadedD(1) [OF l] r(1,2) by simp
        then have "sound x \<and> hd rest \<noteq> MODE_KEY" using sound_pop [of jc1 m rest] m r(3) by simp
        then show ?thesis using True r u loadedD(2) [OF l] by (simp add: inv_def settled_def)
      qed simp
    qed
  qed simp
qed

lemma begin_collection_ok:
  assumes E: "je_callback E = Some callback" and l: "loaded b c jc" and st: "jp_state jc \<in> {GO, VA, AR}"
    and k: "t = JSON_T_OBJECT_BEGIN \<and> m = MODE_KEY \<and> st = OB \<or> t = JSON_T_ARRAY_BEGIN \<and> m = MODE_ARRAY \<and> st = AR"
  shows "gives (begin_collection E t m st jc) inv"
proof -
  have ty: "jp_type jc = JSON_T_NONE" "jp_utf16 jc = 0" "b = []" and nk: "hd (jp_stack jc) \<noteq> MODE_KEY"
    using loadedD(3,4) [OF l] st by auto
  obtain ph where f: "follows (jp_stack jc) ph (jp_ctx jc)" and ph: "ph = Val \<or> ph = Start"
    using loadedD(5) [OF l] st filled(1) [of "jp_stack jc" "jp_ctx jc"] ty by auto
  have cb: "gives (callback (jp_ctx jc) t NoValue) (\<lambda>cx. length (jp_stack jc) \<le> 15 \<longrightarrow> follows (m # jp_stack jc) (phase_of st JSON_T_NONE m) cx)"
    using k on_object [OF f ph] on_array [OF f ph] by auto
  have s: "sound (jc\<lparr>jp_buf := b, jp_ctx := cx\<rparr>)" for cx using loaded_sound [OF l] by simp
  show ?thesis unfolding begin_collection_def pop_loaded [OF l] bind.bind_lunit
  proof (rule gives_orelse_return [OF call_ok [OF E]], simp, rule cb, elim exE conjE, hypsubst, rule gives_orelse_return [OF push_ok [OF s]], elim conjE, hypsubst)
    fix cx
    assume len: "length (jp_stack (jc\<lparr>jp_buf := b, jp_ctx := cx\<rparr>)) \<le> 15" and fo: "length (jp_stack jc) \<le> 15 \<longrightarrow> follows (m # jp_stack jc) (phase_of st JSON_T_NONE m) cx"
    have "sound (jc\<lparr>jp_buf := b, jp_ctx := cx, jp_stack := m # jp_stack jc\<rparr>)" using sound_push [OF s, of cx m] len nk k by auto
    then show "gives (Option.bind (assert_that (jp_type (jc\<lparr>jp_buf := b, jp_ctx := cx, jp_stack := m # jp_stack (jc\<lparr>jp_buf := b, jp_ctx := cx\<rparr>)\<rparr>) = JSON_T_NONE))
        (\<lambda>_. Some (True, jc\<lparr>jp_buf := b, jp_ctx := cx, jp_stack := m # jp_stack (jc\<lparr>jp_buf := b, jp_ctx := cx\<rparr>)\<rparr>\<lparr>jp_state := st\<rparr>))) inv"
      using ty len fo k loadedD(2) [OF l] by (auto simp: inv_def settled_def)
  qed
qed

lemma comma_ok:
  assumes E: "je_callback E = Some callback" and l: "loaded b c jc" and st: "jp_state jc \<in> {OK, ZE, IT, FR, E3, FX}"
  shows "gives (comma E jc) inv"
proof -
  have ty: "jp_type jc \<noteq> JSON_T_STRING" and u: "jp_utf16 jc = 0" using loadedD(3) [OF l] st by auto
  obtain m rest where stk: "jp_stack jc = m # rest" using loadedD(1) [OF l] by (cases "jp_stack jc") (auto simp: sound_def)
  show ?thesis unfolding comma_def pop_loaded [OF l] bind.bind_lunit
  proof (rule gives_orelse_return [OF closed_value [OF E l st]], elim exE conjE, hypsubst)
    fix cx
    assume f: "follows (jp_stack jc) Done cx"
    let ?jc = "jc\<lparr>jp_ctx := cx, jp_buf := []\<rparr>"
    have s: "sound ?jc" using loadedD(1) [OF l] by simp
    have sk: "m = MODE_OBJECT \<Longrightarrow> sound (?jc\<lparr>jp_stack := MODE_KEY # rest\<rparr>)" "m = MODE_OBJECT \<Longrightarrow> sound (?jc\<lparr>jp_stack := rest\<rparr>)"
      using sound_swap [OF s] sound_pop [OF s] stk by auto
    have len: "length rest \<le> 15" using s stk by (simp add: sound_def)
    show "gives (stack_top ?jc \<bind> case_modes (Option.bind (assert_that (jp_type ?jc \<noteq> JSON_T_STRING))
          (\<lambda>_. Some (True, ?jc\<lparr>jp_type := JSON_T_NONE, jp_state := VA\<rparr>))) (Some (False, ?jc)) (Some (False, ?jc))
        (orelse_return (pop MODE_OBJECT ?jc) (\<lambda>jc. orelse_return (push MODE_KEY jc)
          (\<lambda>jc. Option.bind (assert_that (jp_type jc \<noteq> JSON_T_STRING)) (\<lambda>_. Some (True, jc\<lparr>jp_type := JSON_T_NONE, jp_state := KE\<rparr>)))))) inv"
    proof (cases m)
      case MODE_ARRAY
      then show ?thesis using stk f s ty u loadedD(2) [OF l] continued(1) [of rest cx]
        by (simp add: stack_top_def inv_def settled_def)
    next
      case MODE_OBJECT
      have "pop MODE_OBJECT ?jc = Some (True, ?jc\<lparr>jp_stack := rest\<rparr>)" using stk MODE_OBJECT by (simp add: pop_def)
      moreover have "push MODE_KEY (?jc\<lparr>jp_stack := rest\<rparr>) = Some (True, ?jc\<lparr>jp_stack := MODE_KEY # rest\<rparr>)"
        using sk(2) [OF MODE_OBJECT] len by (auto simp: push_def sound_def jtop_def Let_def)
      ultimately show ?thesis using stk f sk(1) ty u loadedD(2) [OF l] continued(2) [of rest cx] MODE_OBJECT
        by (simp add: stack_top_def inv_def settled_def orelse_return_def)
    qed (simp_all add: stack_top_def stk)
  qed
qed

lemma colon_ok:
  assumes l: "loaded b c jc" and st: "jp_state jc = CO"
  shows "gives (colon jc) inv"
proof -
  have ty: "jp_type jc = JSON_T_NONE" "jp_utf16 jc = 0" "b = []" and k: "hd (jp_stack jc) = MODE_KEY"
    and f: "follows (jp_stack jc) Colon (jp_ctx jc)" using loadedD(3-5) [OF l] st by auto
  obtain rest where stk: "jp_stack jc = MODE_KEY # rest" using loadedD(1) [OF l] k by (cases "jp_stack jc") (auto simp: sound_def)
  let ?jc = "jc\<lparr>jp_buf := []\<rparr>"
  have s: "sound ?jc" using loadedD(1) [OF l] by simp
  have sk: "sound (?jc\<lparr>jp_stack := MODE_OBJECT # rest\<rparr>)" "sound (?jc\<lparr>jp_stack := rest\<rparr>)" "length rest \<le> 15"
    using sound_swap [OF s] sound_pop [OF s] stk s by (auto simp: sound_def)
  have "pop MODE_KEY ?jc = Some (True, ?jc\<lparr>jp_stack := rest\<rparr>)" using stk by (simp add: pop_def)
  moreover have "push MODE_OBJECT (?jc\<lparr>jp_stack := rest\<rparr>) = Some (True, ?jc\<lparr>jp_stack := MODE_OBJECT # rest\<rparr>)"
    using sk by (auto simp: push_def sound_def jtop_def Let_def)
  ultimately show ?thesis using stk f sk(1) ty loadedD(2) [OF l] paired [of rest "jp_ctx jc"]
    by (simp add: colon_def pop_loaded [OF l] inv_def settled_def orelse_return_def)
qed

lemma string_end_ok:
  assumes E: "je_callback E = Some callback" and l: "loaded b c jc" and st: "jp_state jc = ST"
  shows "gives (string_end E jc) inv"
proof -
  have ty: "jp_type jc = JSON_T_STRING" "jp_utf16 jc = 0" using loadedD(3) [OF l] st by auto
  obtain m rest where stk: "jp_stack jc = m # rest" using loadedD(1) [OF l] by (cases "jp_stack jc") (auto simp: sound_def)
  have mode: "m = MODE_KEY \<or> m = MODE_ARRAY \<or> m = MODE_OBJECT" using loadedD(4) [OF l] stk st ty by (auto split: if_splits)
  have s: "sound (jc\<lparr>jp_buf := b\<rparr>)" "\<not> jp_escaped jc" "sound jc" by (rule loaded_sound [OF l], rule loadedD [OF l], rule loadedD [OF l])
  show ?thesis
  proof (cases "m = MODE_KEY")
    case True
    then have f: "follows (jp_stack jc) Key (jp_ctx jc)" using loadedD(5) [OF l] st ty stk by simp
    let ?jc = "jc\<lparr>jp_buf := b, jp_type := JSON_T_NONE, jp_state := CO\<rparr>"
    have "gives (orelse_return (call E JSON_T_KEY (StrValue b) ?jc) (\<lambda>jc. Some (True, parse_buffer_clear jc))) inv"
      by (rule gives_orelse_return [OF call_ok [OF E on_key]])
        (use f s ty stk True in \<open>auto simp: inv_def settled_def parse_buffer_clear_def\<close>)
    then show ?thesis using True stk ty by (simp add: string_end_def pop_loaded [OF l] stack_top_def)
  next
    case False
    then have f: "follows (jp_stack jc) Val (jp_ctx jc)" using loadedD(5) [OF l] st ty stk mode by auto
    let ?jc = "jc\<lparr>jp_buf := b\<rparr>"
    have bv: "\<exists>v. buffer_value E ?jc = Some v \<and> value_fits (jp_type ?jc) v"
      using ty by (simp add: buffer_value_def value_fits_def is_non_container_type_def value_set_def)
    have "gives (parse_parse_buffer E ?jc) (\<lambda>jc'. \<exists>cx. jc' = ?jc\<lparr>jp_ctx := cx, jp_buf := []\<rparr> \<and>
        follows (jp_stack jc) (if jp_type ?jc = JSON_T_NONE then Done else Done) cx)"
      by (rule flush_ok [OF E]) (use f ty bv in simp_all)
    then have "gives (orelse_return (parse_parse_buffer E ?jc) (\<lambda>jc. Some (True, jc\<lparr>jp_type := JSON_T_NONE, jp_state := OK\<rparr>))) inv"
      by (rule gives_orelse_return) (use s ty False stk in \<open>auto simp: inv_def settled_def\<close>)
    then show ?thesis using mode False stk ty by (auto simp: string_end_def pop_loaded [OF l] stack_top_def)
  qed
qed

lemma empty_object_ok:
  assumes E: "je_callback E = Some callback" and l: "loaded b c jc" and st: "jp_state jc = OB"
  shows "gives (perform E M9 jc) inv"
proof -
  have ty: "jp_type jc = JSON_T_NONE" "jp_utf16 jc = 0" and f: "follows (jp_stack jc) OpenObj (jp_ctx jc)"
    using loadedD(3,5) [OF l] st by auto
  let ?jc = "jc\<lparr>jp_buf := []\<rparr>"
  have s: "sound ?jc" "\<not> jp_escaped jc" using loadedD [OF l] by simp_all
  have "gives (orelse_return (call E JSON_T_OBJECT_END NoValue ?jc) (\<lambda>jc.
     orelse_return (pop MODE_KEY jc) (\<lambda>jc. Some (True, jc\<lparr>jp_state := OK\<rparr>)))) inv"
  proof (rule gives_orelse_return [OF call_ok [OF E on_end]])
    show "follows (jp_stack jc) OpenObj (jp_ctx ?jc)" using f by simp
    fix x
    assume "\<exists>cx. x = ?jc\<lparr>jp_ctx := cx\<rparr> \<and> (\<forall>m rest. jp_stack jc = m # rest \<and> m \<noteq> MODE_DONE \<longrightarrow> follows rest Done cx)"
    then obtain cx where x: "x = ?jc\<lparr>jp_ctx := cx\<rparr>" "\<And>m rest. jp_stack jc = m # rest \<Longrightarrow> m \<noteq> MODE_DONE \<Longrightarrow> follows rest Done cx" by blast
    show "gives (orelse_return (pop MODE_KEY x) (\<lambda>jc. Some (True, jc\<lparr>jp_state := OK\<rparr>))) inv"
    proof (rule gives_orelse_return [OF pop_ok])
      fix y
      assume "\<exists>rest. jp_stack x = MODE_KEY # rest \<and> y = x\<lparr>jp_stack := rest\<rparr>"
      then obtain rest where y: "jp_stack x = MODE_KEY # rest" "y = x\<lparr>jp_stack := rest\<rparr>" by blast
      have "sound x" using x(1) s by simp
      from sound_pop [OF this y(1)] show "gives (Some (True, y\<lparr>jp_state := OK\<rparr>)) inv"
        using x y s ty by (simp add: inv_def settled_def)
    qed
  qed simp_all
  then show ?thesis by (simp add: parse_buffer_clear_def)
qed

lemma decode_step_ok:
  assumes l: "loaded b c jc" and st: "jp_state jc = U4" and h: "is_hex c"
  shows "gives (perform E UC jc) inv"
proof -
  have ty: "jp_type jc = JSON_T_STRING" "escape_text 4 (jp_buf jc)" using loadedD(3,6) [OF l] st escape_text_more(3) h by auto
  have f: "phase_mode (phase_of ST JSON_T_STRING (hd (jp_stack jc))) (hd (jp_stack jc))" "follows (jp_stack jc) (phase_of ST JSON_T_STRING (hd (jp_stack jc))) (jp_ctx jc)"
    using loadedD(4,5) [OF l] st ty by simp_all
  have s: "sound jc" "\<not> jp_escaped jc" "length (jp_buf jc) + 1 \<le> jp_bufcap jc" using loadedD(1,2) [OF l] by (simp_all add: sound_def)
  show ?thesis unfolding perform.simps
  proof (rule gives_cases [OF decode_ok [OF ty(2) s(3)]])
    fix ok x
    assume x: "ok \<Longrightarrow> \<exists>b u. x = jc\<lparr>jp_utf16 := u, jp_buf := b\<rparr> \<and> length b + 1 \<le> jp_bufcap jc"
    show "gives (if ok then Some (True, x\<lparr>jp_state := (if jp_utf16 x \<noteq> 0 then D1 else ST)\<rparr>) else reject JSON_E_INVALID_UNICODE_SEQUENCE x) inv"
    proof (cases ok)
      case True
      then obtain b' u where b': "x = jc\<lparr>jp_utf16 := u, jp_buf := b'\<rparr>" "length b' + 1 \<le> jp_bufcap jc" using x by blast
      have "sound x" using s(1) b' by (simp add: sound_def)
      then show ?thesis using True b' s ty f by (simp add: inv_def settled_def)
    qed simp
  qed
qed

text \<open>The actions that only enter a new state.\<close>

lemma detected_inv:
  assumes "sound jc" and "\<not> jp_escaped jc" and "settled st ty (jp_buf jc) (jp_utf16 jc) (jp_stack jc) (jp_ctx jc)" and "st \<noteq> ES"
  shows "gives (detected ty st jc) inv"
  using assms by (simp add: detected_def inv_def)

lemma value_begin:
  assumes l: "loaded b c jc" and st: "jp_state jc \<in> {VA, AR}"
  shows "jp_type jc = JSON_T_NONE" "jp_utf16 jc = 0" "b = []" "follows (jp_stack jc) Val (jp_ctx jc)" "phase_mode Val (hd (jp_stack jc))"
  using loadedD(3-5) [OF l] st filled(1) [of "jp_stack jc" "jp_ctx jc"] by auto

lemma value_start_ok:
  assumes l: "loaded b c jc" and st: "jp_state jc \<in> {VA, AR}" and sh: "shape st' ty [c] 0" and ph: "\<And>m. m \<noteq> MODE_KEY \<Longrightarrow> phase_of st' ty m = Val" and "st' \<noteq> ES"
  shows "gives (detected ty st' jc) inv"
proof (rule detected_inv)
  note v = value_begin [OF l st]
  show "sound jc" "\<not> jp_escaped jc" by (rule loadedD [OF l])+
  have "phase_of st' ty (hd (jp_stack jc)) = Val" using v(5) by (intro ph) auto
  then show "settled st' ty (jp_buf jc) (jp_utf16 jc) (jp_stack jc) (jp_ctx jc)"
    using v sh loadedD(6) [OF l] by (simp add: settled_def)
qed fact

lemma string_begin_ok:
  assumes l: "loaded b c jc" and st: "jp_state jc \<in> {OB, KE, VA, AR}"
  shows "gives (perform E SB jc) inv"
proof -
  have ty: "jp_type jc = JSON_T_NONE" "jp_utf16 jc = 0" using loadedD(3) [OF l] st by auto
  have "phase_mode (phase_of ST JSON_T_STRING (hd (jp_stack jc))) (hd (jp_stack jc)) \<and> follows (jp_stack jc) (phase_of ST JSON_T_STRING (hd (jp_stack jc))) (jp_ctx jc)"
  proof (cases "jp_state jc \<in> {VA, AR}")
    case True
    then show ?thesis using value_begin(4,5) [OF l True] by auto
  next
    case False
    then show ?thesis using loadedD(4,5) [OF l] st filled(2) [of "jp_stack jc" "jp_ctx jc"] by auto
  qed
  then show ?thesis using ty loadedD(1,2) [OF l] by (simp add: parse_buffer_clear_def detected_def inv_def settled_def)
qed

lemma float_ok:
  assumes l: "loaded b c jc" and st: "jp_state jc \<in> {ZE, IT}"
  shows "gives (perform E DE jc) inv" and "c = CHR ''.'' \<Longrightarrow> gives (perform E DF jc) inv"
proof -
  have ty: "jp_type jc = JSON_T_INTEGER" "jp_utf16 jc = 0" and m: "phase_mode Val (hd (jp_stack jc))" and f: "follows (jp_stack jc) Val (jp_ctx jc)"
    using loadedD(3-5) [OF l] st by auto
  have s: "sound jc" "\<not> jp_escaped jc" "jp_buf jc = b @ [c]" "\<not> jp_manually jc" using loadedD [OF l] by (simp_all add: sound_def)
  then have s': "sound (jc\<lparr>jp_buf := b @ [jp_point jc]\<rparr>)" by (intro sound_shorter) simp_all
  show "gives (perform E DE jc) inv" using ty m f s by (simp add: not_text_def detected_def inv_def settled_def)
  show "c = CHR ''.'' \<Longrightarrow> gives (perform E DF jc) inv" using ty m f s s' by (simp add: not_text_def decimal_def detected_def inv_def settled_def)
qed

lemma escape_ok:
  assumes l: "loaded b c jc" and st: "jp_state jc = ST"
  shows "gives (perform E EX1 jc) inv"
  using loadedD [OF l] st by (simp add: inv_def settled_def)

lemma act_ok:
  assumes E: "je_callback E = Some callback" and l: "loaded b c jc" and cl: "class_fits cl c"
    and a: "next_entry (jp_state jc) cl = Act a"
  shows "gives (perform E a jc) inv"
proof -
  note from_st = act_from [OF a]
  show ?thesis
  proof (cases a)
    case CB
    then show ?thesis using loadedD(1) [OF l] by (simp add: open_comment_def sound_def)
  next
    case CE
    then show ?thesis using loadedD(3) [OF l] from_st by simp
  next
    case UC
    then have "jp_state jc = U4" "is_hex c" using from_st cl by (simp_all add: class_fits_def)
    then show ?thesis unfolding UC by (rule decode_step_ok [OF l])
  next
    case EX1
    then show ?thesis using from_st escape_ok [OF l] by simp
  next
    case MX
    then show ?thesis using from_st cl value_start_ok [OF l, of MI JSON_T_INTEGER] by (auto simp: class_fits_def)
  next
    case ZX
    then show ?thesis using from_st cl value_start_ok [OF l, of ZE JSON_T_INTEGER] by (auto simp: class_fits_def numeric_digit)
  next
    case IX
    then show ?thesis using from_st cl value_start_ok [OF l, of IT JSON_T_INTEGER] by (auto simp: class_fits_def numeric_digit)
  next
    case NU
    then show ?thesis using from_st value_begin(1) [OF l] value_start_ok [OF l, of N1 JSON_T_NULL] by auto
  next
    case FA
    then show ?thesis using from_st value_begin(1) [OF l] value_start_ok [OF l, of F1 JSON_T_FALSE] by auto
  next
    case TR
    then show ?thesis using from_st value_begin(1) [OF l] value_start_ok [OF l, of T1 JSON_T_TRUE] by auto
  next
    case DE
    then show ?thesis using from_st float_ok(1) [OF l] by simp
  next
    case DF
    then show ?thesis using from_st cl float_ok(2) [OF l] by (simp add: class_fits_def)
  next
    case SB
    then show ?thesis using from_st string_begin_ok [OF l] by (simp only: action_from.simps)
  next
    case M9
    then show ?thesis using from_st empty_object_ok [OF E l] by (simp only: action_from.simps singleton_iff)
  next
    case M8
    then show ?thesis using from_st end_collection_ok [OF E l] by simp
  next
    case M7
    then show ?thesis using from_st end_collection_ok [OF E l] by simp
  next
    case M6
    then show ?thesis using from_st begin_collection_ok [OF E l] by simp
  next
    case M5
    then show ?thesis using from_st begin_collection_ok [OF E l] by simp
  next
    case M4
    then show ?thesis using from_st string_end_ok [OF E l] by simp
  next
    case M3
    then show ?thesis using from_st comma_ok [OF E l] by simp
  next
    case M2
    then show ?thesis using from_st colon_ok [OF l] by simp
  qed
qed

lemma after_char:
  assumes E: "je_callback E = Some callback" and s: "sound jc" "\<not> jp_escaped jc" "jp_state jc \<noteq> ES"
    and b: "settled (jp_state jc) (jp_type jc) b (jp_utf16 jc) (jp_stack jc) (jp_ctx jc)"
    and c: "jp_buf jc = put (jp_type jc) cl c b" "class_fits cl c"
  shows "gives (case next_entry (jp_state jc) cl of To st \<Rightarrow> Some (True, jc\<lparr>jp_state := st\<rparr>)
    | Act a \<Rightarrow> perform E a jc | Bad \<Rightarrow> Some (False, set_error jc)) inv"
proof (cases "next_entry (jp_state jc) cl")
  case (To st)
  have "shape st (jp_type jc) (jp_buf jc) (jp_utf16 jc)" "\<And>m. phase_of st (jp_type jc) m = phase_of (jp_state jc) (jp_type jc) m"
    using to_shape [OF To _ c(2) s(3)] to_phase [OF To] b c(1) by (auto simp: settled_def)
  then show ?thesis using To s b to_not_escape [OF To] by (simp add: inv_def settled_def)
next
  case (Act a)
  have "cl \<noteq> C_SPACE \<and> cl \<noteq> C_WHITE" using act_from [OF Act] by (cases a) (auto simp: hex_class_def)
  then have "loaded b c jc" using s b c(1) by (simp add: loaded_def put_def)
  then show ?thesis using act_ok [OF E _ c(2) Act] Act by simp
qed simp

lemma escaped_char:
  assumes i: "inv jc" and es: "jp_escaped jc" and cl: "char_class n = Some cl"
  shows "gives (orelse_return (add_char_to_parse_buffer n cl jc) (\<lambda>jc. case next_entry (jp_state jc) cl of
    To st \<Rightarrow> Some (True, jc\<lparr>jp_state := st\<rparr>) | Act a \<Rightarrow> perform E a jc | Bad \<Rightarrow> Some (False, set_error jc))) inv"
proof -
  have st: "jp_state jc = ES" and s: "sound jc" and b: "jp_buf jc \<noteq> []" "0 < jp_bufcap jc" and
    w: "shape ES (jp_type jc) (jp_buf jc) (jp_utf16 jc)" "phase_mode (phase_of ES (jp_type jc) (hd (jp_stack jc))) (hd (jp_stack jc))"
      "follows (jp_stack jc) (phase_of ES (jp_type jc) (hd (jp_stack jc))) (jp_ctx jc)"
    using i es by (auto simp: inv_def settled_def sound_def)
  show ?thesis
  proof (rule add_escaped [OF es b, of n cl])
    fix cap t
    assume cap: "length (jp_buf jc) + 2 \<le> cap"
      and t: "unescaped n = None \<and> n = 117 \<and> t = [CHR 0x5C, CHR ''u''] \<or> (\<exists>c. unescaped n = Some c \<and> t = [c])"
      and add: "add_char_to_parse_buffer n cl jc = Some (True, jc\<lparr>jp_bufcap := cap, jp_escaped := False, jp_buf := butlast (jp_buf jc) @ t\<rparr>)"
    obtain st' where to: "next_entry ES cl = To st'" "st' = ST \<or> st' = U1 \<and> length t = 2"
      using t unescaped_class [OF _ cl] escaped_u_class [of cl] cl by fastforce
    have "length (jp_buf jc) - Suc 0 + length t + 1 \<le> cap" using cap t b(1) by auto
    then have "sound (jc\<lparr>jp_bufcap := cap, jp_escaped := False, jp_buf := butlast (jp_buf jc) @ t\<rparr>)" using s by (simp add: sound_def)
    then show ?thesis using add to st w length_pos [OF b(1)] by (auto simp: orelse_return_def inv_def settled_def)
  next
    fix jc'
    assume "add_char_to_parse_buffer n cl jc = Some (False, jc')"
    then show ?thesis by (simp add: orelse_return_def)
  qed
qed

lemma char_keeps:
  assumes E: "je_callback E = Some callback" and i: "inv jc"
  shows "gives (JSON_parser_char E jc n) inv"
proof (cases "n < 0 \<or> char_class n = None")
  case True
  then show ?thesis by (auto simp: JSON_parser_char_def Let_def)
next
  case False
  then obtain cl where n: "0 \<le> n" "char_class n = Some cl" by auto
  let ?jc = "jc\<lparr>jp_char := n\<rparr>"
  have i': "inv ?jc" using i by (simp add: inv_def)
  have "gives (orelse_return (add_char_to_parse_buffer n cl ?jc) (\<lambda>jc. case next_entry (jp_state jc) cl of
    To st \<Rightarrow> Some (True, jc\<lparr>jp_state := st\<rparr>) | Act a \<Rightarrow> perform E a jc | Bad \<Rightarrow> Some (False, set_error jc))) inv"
  proof (cases "jp_escaped ?jc")
    case True
    then show ?thesis by (rule escaped_char [OF i' _ n(2)])
  next
    case ne: False
    have s: "sound ?jc" "jp_state ?jc \<noteq> ES" "settled (jp_state jc) (jp_type jc) (jp_buf jc) (jp_utf16 jc) (jp_stack jc) (jp_ctx jc)"
      using i' ne by (auto simp: inv_def)
    obtain cap where cap: "length (jp_buf jc) + 2 \<le> cap"
      "add_char_to_parse_buffer n cl ?jc = Some (True, ?jc\<lparr>jp_bufcap := cap, jp_buf := put (jp_type jc) cl (the_char n) (jp_buf jc)\<rparr>)"
      by (rule add_plain [OF ne, of n cl]) (use s in \<open>auto simp: sound_def\<close>)
    have "sound (?jc\<lparr>jp_bufcap := cap, jp_buf := put (jp_type jc) cl (the_char n) (jp_buf jc)\<rparr>)"
      using s(1) cap(1) by (auto simp: sound_def put_def)
    from after_char [OF E this, of "jp_buf jc" cl "the_char n"] show ?thesis
      using ne s(2,3) char_class_fits [OF n(2,1)] by (simp add: cap(2) orelse_return_def)
  qed
  then show ?thesis using n by (simp add: JSON_parser_char_def Let_def)
qed

lemma chars_keep:
  assumes E: "je_callback E = Some callback"
  shows "inv jc \<Longrightarrow> gives (parser_chars E jc cs) inv"
  by (induction cs arbitrary: jc) (simp_all add: gives_orelse_return [OF char_keeps [OF E]])

lemma done_keeps:
  assumes i: "inv jc"
  shows "gives (JSON_parser_done jc) (\<lambda>jc'. jp_ctx jc' = jp_ctx jc \<and> (follows [MODE_DONE] Start (jp_ctx jc) \<or> follows [MODE_DONE] Done (jp_ctx jc)))"
proof -
  have "nested (jp_stack jc)" "settled (jp_state jc) (jp_type jc) (jp_buf jc) (jp_utf16 jc) (jp_stack jc) (jp_ctx jc)"
    using i by (simp_all add: inv_def sound_def)
  moreover from this have "jp_stack jc = [MODE_DONE]" if "hd (jp_stack jc) = MODE_DONE"
    using that by (cases "jp_stack jc" rule: nested.cases) auto
  ultimately show ?thesis
    by (auto simp: JSON_parser_done_def pop_def settled_def split: if_splits)
qed

end

section \<open>The trees\<close>

text \<open>A tree as the reader makes it, \<open>d\<close> levels deep at most and under a father of type \<open>fa\<close>: members of objects
  have keys and elements of arrays have none, an item is a collection or holds a value of its type.\<close>

definition leaf :: "string option \<Rightarrow> int \<Rightarrow> rat \<Rightarrow> json_type \<Rightarrow> bool" where
  "leaf s n f t \<longleftrightarrow> LLONG_MIN \<le> n \<and> n \<le> LLONG_MAX \<and>
     (case t of
        JSON_T_STRING \<Rightarrow> s \<noteq> None \<and> n = 0 \<and> f = 0
      | JSON_T_INTEGER \<Rightarrow> s = None \<and> f = 0
      | JSON_T_FLOAT \<Rightarrow> s = None \<and> n = 0
      | JSON_T_TRUE \<Rightarrow> s = None \<and> n = 1 \<and> f = 0
      | JSON_T_FALSE \<Rightarrow> s = None \<and> n = 0 \<and> f = 0
      | JSON_T_NULL \<Rightarrow> s = None \<and> n = 0 \<and> f = 0
      | _ \<Rightarrow> False)"

fun parsed :: "nat \<Rightarrow> json_child_t option \<Rightarrow> json_item \<Rightarrow> bool" where
  "parsed d fa (Item k s n f t ct ch) \<longleftrightarrow> (fa = Some JSON_C_T_OBJ \<longleftrightarrow> k \<noteq> None) \<and>
     (if ct = JSON_C_T_NULL then ch = [] \<and> leaf s n f t
      else ct \<in> {JSON_C_T_OBJ, JSON_C_T_ARR} \<and> 0 < d \<and> s = None \<and> n = 0 \<and> f = 0 \<and> t = JSON_T_UNSET \<and>
        list_all (parsed (d - 1) (Some ct)) ch)"

fun mode_ctype :: "modes \<Rightarrow> json_child_t option" where
  "mode_ctype MODE_ARRAY = Some JSON_C_T_ARR"
| "mode_ctype MODE_DONE = None"
| "mode_ctype m = Some JSON_C_T_OBJ"

definition complete :: "modes list \<Rightarrow> json_item \<Rightarrow> bool" where
  "complete stk it \<longleftrightarrow> parsed (16 - length stk) (mode_ctype (hd stk)) it"

text \<open>A collection that has just been opened in \<open>stk\<close>.\<close>

definition hollow :: "modes list \<Rightarrow> modes \<Rightarrow> json_item \<Rightarrow> bool" where
  "hollow stk m it \<longleftrightarrow> (\<exists>k ct. it = Item k None 0 0 JSON_T_UNSET ct [] \<and> mode_ctype m = Some ct \<and>
     (mode_ctype (hd stk) = Some JSON_C_T_OBJ \<longleftrightarrow> k \<noteq> None))"

definition siblings :: "modes list \<Rightarrow> json_item list \<Rightarrow> bool" where
  "siblings stk sibs \<longleftrightarrow> list_all (complete stk) sibs \<and> (hd stk = MODE_DONE \<longrightarrow> sibs = [])"

text \<open>The path from the innermost open collection to the root.\<close>

fun opened :: "modes list \<Rightarrow> place list \<Rightarrow> bool" where
  "opened [] p = False"
| "opened (m # stk) [] = (m = MODE_DONE \<and> stk = [])"
| "opened (m # stk) ((it, sibs) # up) = (m \<noteq> MODE_DONE \<and> hollow stk m it \<and> siblings stk sibs \<and> opened stk up)"

definition inside :: "modes list \<Rightarrow> place list \<Rightarrow> bool" where
  "inside stk p \<longleftrightarrow> (\<exists>it sibs up. p = (it, sibs) # up \<and> complete stk it \<and> (hd stk = MODE_DONE \<longrightarrow> jctype it \<noteq> JSON_C_T_NULL) \<and>
     siblings stk sibs \<and> opened stk up)"

definition named :: "modes list \<Rightarrow> place list \<Rightarrow> bool" where
  "named stk p \<longleftrightarrow> (\<exists>k sibs up. p = (Item (Some k) None 0 0 JSON_T_UNSET JSON_C_T_NULL [], sibs) # up \<and>
     siblings stk sibs \<and> opened stk up)"

definition next_place :: "modes list \<Rightarrow> json_context \<Rightarrow> bool" where
  "next_place stk cx \<longleftrightarrow> (if start_depth cx then opened stk (cx_path cx) \<and> cx_path cx \<noteq> [] else inside stk (cx_path cx))"

fun tree_follows :: "modes list \<Rightarrow> phase \<Rightarrow> json_context \<Rightarrow> bool" where
  "tree_follows stk ph cx \<longleftrightarrow> length stk \<le> 16 \<and> key_under cx = (ph = Colon \<or> ph = Val \<and> hd stk = MODE_OBJECT) \<and>
     (case ph of
        Start \<Rightarrow> stk = [MODE_DONE] \<and> cx_path cx = [] \<and> \<not> start_depth cx
      | Val \<Rightarrow> hd stk = MODE_OBJECT \<and> \<not> start_depth cx \<and> named stk (cx_path cx) \<or> hd stk = MODE_ARRAY \<and> next_place stk cx
      | OpenArr \<Rightarrow> hd stk = MODE_ARRAY \<and> start_depth cx \<and> opened stk (cx_path cx)
      | OpenObj \<Rightarrow> hd stk = MODE_KEY \<and> start_depth cx \<and> opened stk (cx_path cx)
      | Key \<Rightarrow> hd stk = MODE_KEY \<and> next_place stk cx
      | Colon \<Rightarrow> hd stk = MODE_KEY \<and> \<not> start_depth cx \<and> named stk (cx_path cx)
      | Done \<Rightarrow> \<not> start_depth cx \<and> inside stk (cx_path cx))"

lemma opened_nonempty: "opened stk p \<Longrightarrow> hd stk \<noteq> MODE_DONE \<Longrightarrow> p \<noteq> []"
  by (cases stk; cases p) auto

text \<open>A new item where the next one is expected.\<close>

lemma link_item_ok:
  assumes "next_place stk cx" and "hd stk \<noteq> MODE_DONE"
  obtains sibs up where "link_item it cx = Some (cx\<lparr>cx_path := (it, sibs) # up, start_depth := False\<rparr>)"
    and "siblings stk sibs" and "opened stk up"
proof (cases "start_depth cx")
  case True
  obtain it' sibs up where p: "cx_path cx = (it', sibs) # up" "opened stk (cx_path cx)"
    using assms(1) True by (cases "cx_path cx") (auto simp: next_place_def)
  show thesis by (rule that [of "[]" "cx_path cx"]) (use p True in \<open>auto simp: link_item_def siblings_def\<close>)
next
  case False
  then obtain it' sibs up where p: "cx_path cx = (it', sibs) # up" "complete stk it'" "siblings stk sibs" "opened stk up"
    using assms(1) by (auto simp: next_place_def inside_def)
  show thesis by (rule that [of "it' # sibs" up]) (use p False assms(2) in \<open>auto simp: link_item_def siblings_def\<close>)
qed

lemma set_value_complete:
  assumes "value_fits t v" and "mode_ctype (hd stk) = Some JSON_C_T_OBJ \<longleftrightarrow> k \<noteq> None"
  shows "complete stk (set_value t v (Item k None 0 0 JSON_T_UNSET JSON_C_T_NULL []))"
  using assms by (cases v) (auto simp: complete_def leaf_def value_fits_def value_set_def is_non_container_type_def LLONG_MIN_def LLONG_MAX_def split: json_type.splits)

lemma json_val_ok:
  assumes f: "tree_follows stk Val cx" and v: "value_fits t v"
  shows "\<exists>cx'. json_val t v cx = Some cx' \<and> tree_follows stk Done cx'"
proof (cases "hd stk = MODE_OBJECT")
  case True
  then obtain k sibs up where p: "cx_path cx = (Item (Some k) None 0 0 JSON_T_UNSET JSON_C_T_NULL [], sibs) # up" "siblings stk sibs" "opened stk up"
    "key_under cx" "\<not> start_depth cx" using f by (auto simp: named_def)
  have "complete stk (set_value t v (Item (Some k) None 0 0 JSON_T_UNSET JSON_C_T_NULL []))" by (rule set_value_complete [OF v]) (simp add: True)
  then show ?thesis using p f v True by (simp add: json_val_def value_fits_def inside_def del: set_value.simps)
next
  case False
  then have a: "hd stk = MODE_ARRAY" "next_place stk cx" "\<not> key_under cx" using f by auto
  obtain sibs up where l: "link_item init_json_item cx = Some (cx\<lparr>cx_path := (init_json_item, sibs) # up, start_depth := False\<rparr>)"
    "siblings stk sibs" "opened stk up" by (rule link_item_ok [OF a(2), of init_json_item]) (use a in auto)
  have "complete stk (set_value t v init_json_item)" unfolding init_json_item_def by (rule set_value_complete [OF v]) (simp add: a)
  then show ?thesis using l a f v by (simp add: json_val_def value_fits_def inside_def del: set_value.simps)
qed

lemma json_key_ok:
  assumes f: "tree_follows stk Key cx"
  shows "\<exists>cx'. json_key k cx = Some cx' \<and> tree_follows stk Colon cx'"
proof -
  have a: "hd stk = MODE_KEY" "next_place stk cx" "length stk \<le> 16" using f by auto
  obtain sibs up where l: "link_item (Item (Some k) None 0 0 JSON_T_UNSET JSON_C_T_NULL []) cx =
      Some (cx\<lparr>cx_path := (Item (Some k) None 0 0 JSON_T_UNSET JSON_C_T_NULL [], sibs) # up, start_depth := False\<rparr>)"
    "siblings stk sibs" "opened stk up" by (rule link_item_ok [OF a(2)]) (use a in auto)
  then show ?thesis using a by (auto simp: json_key_def named_def)
qed

lemma json_begin_ok:
  assumes f: "tree_follows stk ph cx" and ph: "ph = Val \<or> ph = Start"
    and m: "mode_ctype m = Some ct" "m = MODE_ARRAY \<or> m = MODE_KEY"
  shows "\<exists>cx'. json_begin ct cx = Some cx' \<and>
    (length stk \<le> 15 \<longrightarrow> tree_follows (m # stk) (if m = MODE_ARRAY then OpenArr else OpenObj) cx')"
proof -
  have goal: ?thesis if "json_begin ct cx = Some cx'" "opened (m # stk) (cx_path cx')" "start_depth cx'" "\<not> key_under cx'" for cx'
    using that m(2) by (auto simp del: opened.simps)
  have m': "m \<noteq> MODE_DONE" using m(2) by auto
  consider (start) "ph = Start" | (key) "ph = Val" "hd stk = MODE_OBJECT" | (elem) "ph = Val" "hd stk = MODE_ARRAY" using f ph by auto
  then show ?thesis
  proof cases
    case start
    then have c: "stk = [MODE_DONE]" "cx_path cx = []" "\<not> key_under cx" using f by auto
    have h: "hollow stk m (set_child_type ct init_json_item)" using m c by (auto simp: hollow_def set_child_type_def init_json_item_def)
    show ?thesis by (rule goal [of "cx\<lparr>cx_path := [(set_child_type ct init_json_item, [])], start_depth := True, key_under := False\<rparr>"])
      (use c h m' in \<open>simp_all add: json_begin_def siblings_def\<close>)
  next
    case key
    then obtain k sibs up where p: "cx_path cx = (Item (Some k) None 0 0 JSON_T_UNSET JSON_C_T_NULL [], sibs) # up" "siblings stk sibs" "opened stk up"
      "key_under cx" using f by (auto simp: named_def)
    have h: "hollow stk m (Item (Some k) None 0 0 JSON_T_UNSET ct [])" using m key by (auto simp: hollow_def)
    show ?thesis by (rule goal [of "cx\<lparr>cx_path := (Item (Some k) None 0 0 JSON_T_UNSET ct [], sibs) # up, start_depth := True, key_under := False\<rparr>"])
      (use p h m' in \<open>simp_all add: json_begin_def set_child_type_def\<close>)
  next
    case elem
    then have n: "next_place stk cx" "\<not> key_under cx" "cx_path cx \<noteq> []" using f by (auto simp: next_place_def inside_def split: if_splits)
    obtain sibs up where l: "link_item init_json_item cx = Some (cx\<lparr>cx_path := (init_json_item, sibs) # up, start_depth := False\<rparr>)"
      "siblings stk sibs" "opened stk up" by (rule link_item_ok [OF n(1), of init_json_item]) (use elem in auto)
    have h: "hollow stk m (set_child_type ct init_json_item)" using m elem by (auto simp: hollow_def set_child_type_def init_json_item_def)
    show ?thesis by (rule goal [of "cx\<lparr>cx_path := (set_child_type ct init_json_item, sibs) # up, start_depth := True, key_under := False\<rparr>"])
      (use n l h m' in \<open>simp_all add: json_begin_def\<close>)
  qed
qed

lemma hollow_complete:
  assumes "hollow stk m it" and "list_all (complete (m # stk)) ch" and "length (m # stk) \<le> 16"
  shows "complete stk (set_children ch it)" "jctype (set_children ch it) \<noteq> JSON_C_T_NULL"
proof -
  obtain k ct where it: "it = Item k None 0 0 JSON_T_UNSET ct []" "mode_ctype m = Some ct" "mode_ctype (hd stk) = Some JSON_C_T_OBJ \<longleftrightarrow> k \<noteq> None"
    using assms(1) by (auto simp: hollow_def)
  have ct: "ct = JSON_C_T_OBJ \<or> ct = JSON_C_T_ARR" using it(2) by (cases m) auto
  then show "complete stk (set_children ch it)" "jctype (set_children ch it) \<noteq> JSON_C_T_NULL"
    using it assms(2,3) by (auto simp: complete_def set_children_def list_all_iff)
qed

lemma json_end_ok:
  assumes f: "tree_follows stk ph cx" and ph: "ph \<in> {Done, OpenArr, OpenObj}"
  shows "\<exists>cx'. json_end cx = Some cx' \<and> (\<forall>m rest. stk = m # rest \<and> m \<noteq> MODE_DONE \<longrightarrow> tree_follows rest Done cx')"
proof -
  have ne: "cx_path cx \<noteq> []" using f ph opened_nonempty [of stk "cx_path cx"] by (auto simp: inside_def)
  have "tree_follows rest Done (cx\<lparr>cx_path := (if start_depth cx then cx_path cx else to_father (cx_path cx)), start_depth := False, key_under := False\<rparr>)"
    if stk: "stk = m # rest" and m: "m \<noteq> MODE_DONE" for m rest
  proof (cases "ph = Done")
    case True
    then obtain it sibs up where p: "cx_path cx = (it, sibs) # up" "complete stk it" "siblings stk sibs" "opened stk up" "\<not> start_depth cx"
      using f by (auto simp: inside_def)
    then obtain fa fsibs up' where u: "up = (fa, fsibs) # up'" "hollow rest m fa" "siblings rest fsibs" "opened rest up'"
      using stk m by (cases up) auto
    have "list_all (complete (m # rest)) (rev sibs @ [it])" using p(2,3) stk by (simp add: siblings_def list_all_iff)
    from hollow_complete [OF u(2) this] show ?thesis using f p u stk by (auto simp: inside_def)
  next
    case False
    then have o: "start_depth cx" "opened (m # rest) (cx_path cx)" using f ph stk by auto
    then obtain it sibs up where p: "cx_path cx = (it, sibs) # up" "hollow rest m it" "siblings rest sibs" "opened rest up"
      using ne by (cases "cx_path cx") auto
    have "set_children [] it = it" using p(2) by (auto simp: hollow_def set_children_def)
    then show ?thesis using hollow_complete [OF p(2), of "[]"] f p o stk by (auto simp: inside_def)
  qed
  then show ?thesis using ne by (auto simp: json_end_def simp del: tree_follows.simps)
qed

lemma same_opened: "opened (MODE_OBJECT # stk) p = opened (MODE_KEY # stk) p"
  by (cases p) (auto simp: hollow_def)

lemma same_complete: "complete (MODE_OBJECT # stk) = complete (MODE_KEY # stk)"
  by (simp add: complete_def fun_eq_iff)

lemma same_siblings: "siblings (MODE_OBJECT # stk) = siblings (MODE_KEY # stk)"
  by (simp add: siblings_def same_complete fun_eq_iff)

interpretation tree: json_consumer json_callback tree_follows
proof
  fix stk cx t v
  assume "tree_follows stk Val cx" and v: "value_fits t v"
  then obtain cx' where "json_val t v cx = Some cx'" "tree_follows stk Done cx'" using json_val_ok by blast
  moreover have "json_event cx t v = json_val t v cx"
    using v by (cases t) (simp_all add: json_event_def value_fits_def is_non_container_type_def)
  ultimately show "gives (json_callback cx t v) (tree_follows stk Done)"
    by (simp add: json_callback_def del: tree_follows.simps)
next
  fix stk cx k
  assume "tree_follows stk Key cx"
  then obtain cx' where "json_key k cx = Some cx'" "tree_follows stk Colon cx'" using json_key_ok by blast
  then show "gives (json_callback cx JSON_T_KEY (StrValue k)) (tree_follows stk Colon)"
    by (simp add: json_callback_def json_event_def del: tree_follows.simps)
next
  fix stk ph cx
  assume f: "tree_follows stk ph cx" "ph = Val \<or> ph = Start"
  show "gives (json_callback cx JSON_T_OBJECT_BEGIN NoValue) (\<lambda>cx. length stk \<le> 15 \<longrightarrow> tree_follows (MODE_KEY # stk) OpenObj cx)"
    using json_begin_ok [OF f, of MODE_KEY JSON_C_T_OBJ] by (auto simp: json_callback_def json_event_def simp del: tree_follows.simps)
  show "gives (json_callback cx JSON_T_ARRAY_BEGIN NoValue) (\<lambda>cx. length stk \<le> 15 \<longrightarrow> tree_follows (MODE_ARRAY # stk) OpenArr cx)"
    using json_begin_ok [OF f, of MODE_ARRAY JSON_C_T_ARR] by (auto simp: json_callback_def json_event_def simp del: tree_follows.simps)
next
  fix stk ph cx t
  assume f: "tree_follows stk ph cx" "ph \<in> {Done, OpenArr, OpenObj}" and t: "t = JSON_T_OBJECT_END \<or> t = JSON_T_ARRAY_END"
  show "gives (json_callback cx t NoValue) (\<lambda>cx. \<forall>m rest. stk = m # rest \<and> m \<noteq> MODE_DONE \<longrightarrow> tree_follows rest Done cx)"
    using json_end_ok [OF f] t by (auto simp: json_callback_def json_event_def simp del: tree_follows.simps)
next
  fix stk cx
  show "tree_follows stk OpenArr cx \<Longrightarrow> tree_follows stk Val cx" "tree_follows stk OpenObj cx \<Longrightarrow> tree_follows stk Key cx"
    using opened_nonempty [of stk "cx_path cx"] by (auto simp: next_place_def)
  show "tree_follows (MODE_ARRAY # stk) Done cx \<Longrightarrow> tree_follows (MODE_ARRAY # stk) Val cx" by (simp add: next_place_def)
  note same = same_opened same_complete same_siblings
  show "tree_follows (MODE_OBJECT # stk) Done cx \<Longrightarrow> tree_follows (MODE_KEY # stk) Key cx" by (simp add: next_place_def inside_def same)
  show "tree_follows (MODE_KEY # stk) Colon cx \<Longrightarrow> tree_follows (MODE_OBJECT # stk) Val cx" by (simp add: named_def same)
qed

section \<open>Any text\<close>

lemma new_parser:
  obtains jc where "new_JSON_parser parser_config cx = Some jc" and "sound jc" and "\<not> jp_escaped jc" and "jp_state jc = GO"
    and "jp_type jc = JSON_T_NONE" and "jp_buf jc = []" and "jp_utf16 jc = 0" and "jp_stack jc = [MODE_DONE]" and "jp_ctx jc = cx"
proof -
  obtain jc where jc: "new_JSON_parser parser_config cx = Some jc"
    by (simp add: new_JSON_parser_def JSON_parser_reset_def first_setup_def parser_config_def push_def jtop_def Let_def JSON_PARSER_STACK_SIZE_def)
  show thesis by (rule that [OF jc])
    (use jc in \<open>auto simp: new_JSON_parser_def JSON_parser_reset_def first_setup_def parser_config_def push_def jtop_def Let_def
      JSON_PARSER_STACK_SIZE_def JSON_PARSER_PARSE_BUFFER_SIZE_def parse_buffer_clear_def sound_def\<close>)
qed

lemma tree_result: "tree_follows [MODE_DONE] Done cx \<Longrightarrow> \<exists>t. cx_head (cx_path cx) = [t] \<and> parsed 15 None t \<and> jctype t \<noteq> JSON_C_T_NULL"
proof -
  assume "tree_follows [MODE_DONE] Done cx"
  then obtain it up where "cx_path cx = (it, []) # up" "complete [MODE_DONE] it" "jctype it \<noteq> JSON_C_T_NULL" "opened [MODE_DONE] up"
    by (auto simp: inside_def siblings_def)
  moreover from this have "up = []" by (cases up) auto
  ultimately show ?thesis by (simp add: complete_def)
qed

lemma init_json_parser_tree:
  "\<exists>ts. init_json_parser strtod s = Some ts \<and> (ts = [] \<or> (\<exists>t. ts = [t] \<and> parsed 15 None t \<and> jctype t \<noteq> JSON_C_T_NULL))"
proof -
  let ?cx = "\<lparr>key_under = False, start_depth = False, cx_path = []\<rparr>"
  obtain jc where jc: "new_JSON_parser parser_config ?cx = Some jc" "sound jc" "\<not> jp_escaped jc" "jp_state jc = GO"
    "jp_type jc = JSON_T_NONE" "jp_buf jc = []" "jp_utf16 jc = 0" "jp_stack jc = [MODE_DONE]" "jp_ctx jc = ?cx"
    by (rule new_parser [of ?cx])
  have i: "tree.inv jc" using jc by (simp add: tree.inv_def tree.settled_def)
  have E: "je_callback (tree_env strtod) = Some json_callback" by (simp add: tree_env_def)
  have "gives (orelse_return (parser_chars (tree_env strtod) jc s) JSON_parser_done)
    (\<lambda>jc'. tree_follows [MODE_DONE] Start (jp_ctx jc') \<or> tree_follows [MODE_DONE] Done (jp_ctx jc'))"
    by (rule gives_orelse_return [OF tree.chars_keep [OF E i]], rule gives_mono [OF tree.done_keeps], assumption, metis)
  then obtain ok jc' where r: "orelse_return (parser_chars (tree_env strtod) jc s) JSON_parser_done = Some (ok, jc')"
    "ok \<Longrightarrow> tree_follows [MODE_DONE] Start (jp_ctx jc') \<or> tree_follows [MODE_DONE] Done (jp_ctx jc')" by (auto simp only: gives_def)
  have "cx_head (cx_path (jp_ctx jc')) = [] \<or> (\<exists>t. cx_head (cx_path (jp_ctx jc')) = [t] \<and> parsed 15 None t \<and> jctype t \<noteq> JSON_C_T_NULL)" if ok
    using r(2) [OF that] tree_result by auto
  then show ?thesis using jc(1) r(1) by (simp add: init_json_parser_def)
qed

text \<open>C6. Whatever the text, reading it returns, stays within the parser's stack and buffer, fails no assertion and
  follows no NULL pointer; what it accepts is no tree or one object or array, nested 15 deep at most,
  in which members of objects have keys, elements of arrays have none, and every value has the one type
  and the range its tag says.\<close>

theorem init_json_parser_typed:
  "\<exists>ts. init_json_parser strtod s = Some ts \<and> (ts = [] \<or> (\<exists>t. ts = [t] \<and> parsed 15 None t \<and> jctype t \<noteq> JSON_C_T_NULL))"
  by (rule init_json_parser_tree)

end
