(* ===== verification/Ape_Json_Roundtrip.thy ===== *)
theory Ape_Json_Roundtrip
  imports Ape_Json_Read
begin

text \<open>
  Printing and reading: what \<open>json_to_string\<close> writes of a tree, \<open>init_json_parser\<close> reads back as the same
  tree, as far as JSON can tell. The reader's steps are stated as triples \<open>reads\<close> over the text.
\<close>

section \<open>Triples\<close>

definition reads :: "'c json_env \<Rightarrow> ('c JSON_parser_struct \<Rightarrow> bool) \<Rightarrow> string \<Rightarrow> ('c JSON_parser_struct \<Rightarrow> bool) \<Rightarrow> bool" where
  "reads E P s Q \<longleftrightarrow> (\<forall>jc. P jc \<longrightarrow> (\<exists>jc'. parser_chars E jc s = Some (True, jc') \<and> Q jc'))"

lemma parser_chars_append:
  "parser_chars E jc (a @ b) = orelse_return (parser_chars E jc a) (\<lambda>jc. parser_chars E jc b)"
proof (induction a arbitrary: jc)
  case Nil
  show ?case by (simp add: orelse_return_def)
next
  case (Cons c a)
  have "parser_chars E x (a @ b) = orelse_return (parser_chars E x a) (\<lambda>jc. parser_chars E jc b)" for x by (rule Cons)
  then show ?case by (cases "JSON_parser_char E jc (signed_char c)") (auto simp: orelse_return_def)
qed

lemma reads_Nil: "(\<And>jc. P jc \<Longrightarrow> Q jc) \<Longrightarrow> reads E P [] Q"
  by (simp add: reads_def)

lemma reads_append: "reads E P a Q \<Longrightarrow> reads E Q b R \<Longrightarrow> reads E P (a @ b) R"
  by (fastforce simp: reads_def parser_chars_append orelse_return_def)

lemma reads_Cons: "reads E P [c] Q \<Longrightarrow> reads E Q b R \<Longrightarrow> reads E P (c # b) R"
  using reads_append [of E P "[c]" Q b R] by simp

lemma reads_weaken: "reads E P s Q \<Longrightarrow> (\<And>jc. P' jc \<Longrightarrow> P jc) \<Longrightarrow> (\<And>jc. Q jc \<Longrightarrow> Q' jc) \<Longrightarrow> reads E P' s Q'"
  by (fastforce simp: reads_def)

lemma reads_ex: "(\<And>x. reads E (P x) s Q) \<Longrightarrow> reads E (\<lambda>jc. \<exists>x. P x jc) s Q"
  by (auto simp: reads_def)

lemma reads_conj: "(A \<Longrightarrow> reads E P s Q) \<Longrightarrow> reads E (\<lambda>jc. P jc \<and> A) s Q"
  by (auto simp: reads_def)

section \<open>States\<close>

definition at_state :: "states \<Rightarrow> json_type \<Rightarrow> string \<Rightarrow> modes list \<Rightarrow> 'c \<Rightarrow> 'c JSON_parser_struct \<Rightarrow> bool" where
  "at_state st ty b stk cx jc \<longleftrightarrow> sound jc \<and> jp_escaped jc = (st = ES) \<and> jp_utf16 jc = 0 \<and>
     jp_state jc = st \<and> jp_type jc = ty \<and> jp_buf jc = b \<and> jp_stack jc = stk \<and> jp_ctx jc = cx"

definition ascii :: "classes \<Rightarrow> char \<Rightarrow> bool" where
  "ascii cl c \<longleftrightarrow> of_char c < (128 :: nat) \<and> ascii_class ! of_char c = Some cl"

lemma signed_ascii: "of_char c < (128 :: nat) \<Longrightarrow> signed_char c = int (of_char c) \<and> the_char (signed_char c) = c"
  by (simp add: signed_char_def the_char_def)

lemma char_ascii: "ascii cl c \<Longrightarrow> 0 \<le> signed_char c \<and> char_class (signed_char c) = Some cl \<and> the_char (signed_char c) = c"
  using signed_ascii [of c] by (auto simp: ascii_def char_class_def)

text \<open>A character outside of an escape: it is stored, then the table decides.\<close>

lemma read_plain:
  assumes c: "ascii cl c" and st: "st \<noteq> ES" and jc: "at_state st ty b stk cx jc"
  obtains jc1 where "at_state st ty (put ty cl c b) stk cx jc1"
    and "JSON_parser_char E jc (signed_char c) = (case next_entry st cl of To st \<Rightarrow> Some (True, jc1\<lparr>jp_state := st\<rparr>)
      | Act a \<Rightarrow> perform E a jc1 | Bad \<Rightarrow> Some (False, set_error jc1))"
proof -
  note c' = char_ascii [OF c]
  let ?n = "signed_char c" let ?jc = "jc\<lparr>jp_char := ?n\<rparr>"
  have s: "sound ?jc" "\<not> jp_escaped ?jc" "\<not> jp_comment ?jc" "0 < jp_bufcap ?jc" using jc st by (auto simp: at_state_def sound_def)
  obtain cap where cap: "length (jp_buf ?jc) + 2 \<le> cap"
    "add_char_to_parse_buffer ?n cl ?jc = Some (True, ?jc\<lparr>jp_bufcap := cap, jp_buf := put (jp_type ?jc) cl (the_char ?n) (jp_buf ?jc)\<rparr>)"
    by (rule add_plain [OF s(2-4)])
  let ?jc1 = "?jc\<lparr>jp_bufcap := cap, jp_buf := put ty cl c b\<rparr>"
  have "sound ?jc1" using s(1) cap(1) jc by (auto simp: sound_def put_def at_state_def)
  then have "at_state st ty (put ty cl c b) stk cx ?jc1" using jc by (simp add: at_state_def)
  moreover have "add_char_to_parse_buffer ?n cl ?jc = Some (True, ?jc1)" using cap(2) c' jc by (simp add: at_state_def)
  ultimately show thesis using c' jc by (intro that [of ?jc1]) (auto simp: JSON_parser_char_def Let_def orelse_return_def at_state_def)
qed

lemma reads_to:
  assumes c: "ascii cl c" and st: "st \<noteq> ES" and to: "next_entry st cl = To st'"
  shows "reads E (at_state st ty b stk cx) [c] (at_state st' ty (put ty cl c b) stk cx)"
  unfolding reads_def
proof (intro allI impI)
  fix jc :: "'a JSON_parser_struct"
  assume "at_state st ty b stk cx jc"
  then obtain jc1 where "at_state st ty (put ty cl c b) stk cx jc1"
    and "JSON_parser_char E jc (signed_char c) = (case next_entry st cl of To st \<Rightarrow> Some (True, jc1\<lparr>jp_state := st\<rparr>)
      | Act a \<Rightarrow> perform E a jc1 | Bad \<Rightarrow> Some (False, set_error jc1))"
    by (rule read_plain [OF c st])
  then show "\<exists>jc'. parser_chars E jc [c] = Some (True, jc') \<and> at_state st' ty (put ty cl c b) stk cx jc'"
    using to_not_escape [OF to] st by (simp add: to orelse_return_def at_state_def)
qed

lemma reads_act:
  assumes c: "ascii cl c" and st: "st \<noteq> ES" and act: "next_entry st cl = Act a"
    and p: "\<And>jc. at_state st ty (put ty cl c b) stk cx jc \<Longrightarrow> \<exists>jc'. perform E a jc = Some (True, jc') \<and> Q jc'"
  shows "reads E (at_state st ty b stk cx) [c] Q"
  unfolding reads_def
proof (intro allI impI)
  fix jc :: "'a JSON_parser_struct"
  assume "at_state st ty b stk cx jc"
  then obtain jc1 where jc1: "at_state st ty (put ty cl c b) stk cx jc1"
    and ch: "JSON_parser_char E jc (signed_char c) = (case next_entry st cl of To st \<Rightarrow> Some (True, jc1\<lparr>jp_state := st\<rparr>)
      | Act a \<Rightarrow> perform E a jc1 | Bad \<Rightarrow> Some (False, set_error jc1))"
    by (rule read_plain [OF c st])
  show "\<exists>jc'. parser_chars E jc [c] = Some (True, jc') \<and> Q jc'"
    using p [OF jc1] ch by (auto simp: act orelse_return_def)
qed

section \<open>Strings\<close>

definition plain_char :: "char \<Rightarrow> bool" where
  "plain_char c \<longleftrightarrow> 32 \<le> (of_char c :: nat) \<and> (of_char c :: nat) < 128 \<and> c \<noteq> CHR 0x22 \<and> c \<noteq> CHR 0x5C"

text \<open>What an escaped string can hold: \<open>escape_json_char\<close> writes \<open>\'\<close>, which is not an escape of JSON.\<close>

definition text_char :: "char \<Rightarrow> bool" where
  "text_char c \<longleftrightarrow> c \<noteq> CHR 0x27 \<and> (32 \<le> (of_char c :: nat) \<and> (of_char c :: nat) < 128 \<or>
     c = CHR 0x08 \<or> c = CHR 0x09 \<or> c = CHR 0x0A \<or> c = CHR 0x0C \<or> c = CHR 0x0D)"

lemma plain_table:
  "list_all (\<lambda>n. 32 \<le> n \<longrightarrow> n \<noteq> 0x22 \<longrightarrow> n \<noteq> 0x5C \<longrightarrow>
     (case ascii_class ! n of None \<Rightarrow> False | Some cl \<Rightarrow> next_entry ST cl = To ST)) [0..<128]"
  by code_simp

lemma plain_class:
  assumes "plain_char c"
  obtains cl where "ascii cl c" and "next_entry ST cl = To ST"
proof -
  have n: "of_char c \<in> set [0..<128]" "(32 :: nat) \<le> of_char c" using assms by (auto simp: plain_char_def)
  have "of_char c \<noteq> (0x22 :: nat)" "of_char c \<noteq> (0x5C :: nat)"
    using assms of_char_eq_iff [of c "CHR 0x22"] of_char_eq_iff [of c "CHR 0x5C"] by (auto simp: plain_char_def)
  with bspec [OF plain_table [unfolded list_all_iff] n(1)] n(2)
  obtain cl where "ascii_class ! of_char c = Some cl" "next_entry ST cl = To ST" by (auto split: option.splits)
  then show thesis using that assms by (auto simp: ascii_def plain_char_def)
qed

lemma reads_plain_char:
  "plain_char c \<Longrightarrow> reads E (at_state ST JSON_T_STRING b stk cx) [c] (at_state ST JSON_T_STRING (b @ [c]) stk cx)"
  by (rule plain_class) (use reads_to [of _ c ST ST E JSON_T_STRING b stk cx] in auto)

lemma reads_escaped:
  assumes "unescaped (signed_char x) = Some d" and "of_char x < (128 :: nat)" and "char_class (signed_char x) = Some cl"
  shows "reads E (at_state ST JSON_T_STRING b stk cx) [CHR 0x5C, x] (at_state ST JSON_T_STRING (b @ [d]) stk cx)"
proof (rule reads_Cons)
  show "reads E (at_state ST JSON_T_STRING b stk cx) [CHR 0x5C] (at_state ES JSON_T_STRING (b @ [CHR 0x5C]) stk cx)"
    by (rule reads_act [of C_BACKS _ _ EX1]) (auto simp: ascii_def ascii_class_def next_entry_def at_state_def)
  show "reads E (at_state ES JSON_T_STRING (b @ [CHR 0x5C]) stk cx) [x] (at_state ST JSON_T_STRING (b @ [d]) stk cx)"
    unfolding reads_def
  proof (intro allI impI)
    fix jc :: "'a JSON_parser_struct"
    assume jc: "at_state ES JSON_T_STRING (b @ [CHR 0x5C]) stk cx jc"
    let ?n = "signed_char x" let ?jc = "jc\<lparr>jp_char := ?n\<rparr>"
    have es: "jp_escaped ?jc" "jp_buf ?jc \<noteq> []" "0 < jp_bufcap ?jc" using jc by (auto simp: at_state_def sound_def)
    obtain cap where cap: "grow_to (length (jp_buf jc) + 2) (jp_bufcap jc) = Some cap" "length (jp_buf jc) + 2 \<le> cap"
      using grow_to_ok [of "jp_bufcap jc"] es(3) by auto
    let ?jc1 = "?jc\<lparr>jp_bufcap := cap, jp_escaped := False, jp_buf := b @ [d]\<rparr>"
    have "add_char_to_parse_buffer ?n cl ?jc = Some (True, ?jc1)"
      using cap es jc assms(1) by (simp add: add_char_to_parse_buffer_def parse_buffer_reserve_for_def parse_buffer_push_back_char_def
        parse_buffer_has_space_for_def add_escaped_char_to_parse_buffer_def parse_buffer_pop_back_char_def at_state_def)
    moreover have "sound ?jc1" using jc cap(2) by (auto simp: at_state_def sound_def)
    ultimately show "\<exists>jc'. parser_chars E jc [x] = Some (True, jc') \<and> at_state ST JSON_T_STRING (b @ [d]) stk cx jc'"
      using unescaped_class [OF assms(1,3)] assms signed_ascii [OF assms(2)] jc
      by (simp add: JSON_parser_char_def Let_def orelse_return_def at_state_def)
  qed
qed

lemma reads_text_char:
  assumes "text_char c"
  shows "reads E (at_state ST JSON_T_STRING b stk cx) (escape_json_char c) (at_state ST JSON_T_STRING (b @ [c]) stk cx)"
proof (cases "c \<in> {CHR 0x22, CHR 0x5C, CHR 0x0A, CHR 0x08, CHR 0x09, CHR 0x0C, CHR 0x0D}")
  case True
  obtain x cl where "escape_json_char c = [CHR 0x5C, x]" "unescaped (signed_char x) = Some c" "of_char x < (128 :: nat)"
      "char_class (signed_char x) = Some cl"
    using True by (auto simp: signed_char_def unescaped_def char_class_def ascii_class_def)
  then show ?thesis using reads_escaped [of x c cl E b stk cx] by simp
next
  case False
  then have "plain_char c" "escape_json_char c = [c]" using assms by (auto simp: text_char_def plain_char_def)
  then show ?thesis using reads_plain_char [of c E b stk cx] by simp
qed

lemma reads_string:
  "list_all text_char v \<Longrightarrow> reads E (at_state ST JSON_T_STRING b stk cx) (escape_json_string v) (at_state ST JSON_T_STRING (b @ v) stk cx)"
proof (induction v arbitrary: b)
  case (Cons c v)
  then show ?case using reads_append [OF reads_text_char [of c E b stk cx] Cons.IH [of "b @ [c]"]] by (simp add: escape_json_string_def)
qed (simp add: escape_json_string_def reads_Nil)

lemma reads_key_text:
  "list_all plain_char v \<Longrightarrow> reads E (at_state ST JSON_T_STRING b stk cx) v (at_state ST JSON_T_STRING (b @ v) stk cx)"
proof (induction v arbitrary: b)
  case (Cons c v)
  then show ?case using reads_Cons [OF reads_plain_char [of c E b stk cx] Cons.IH [of "b @ [c]"]] by simp
qed (simp add: reads_Nil)

section \<open>Punctuation\<close>

lemma ascii_punct:
  "ascii C_QUOTE (CHR 0x22)" "ascii C_COLON (CHR '':'')" "ascii C_COMMA (CHR '','')" "ascii C_LSQRB (CHR ''['')"
  "ascii C_RSQRB (CHR '']'')" "ascii C_LCURB (CHR 0x7B)" "ascii C_RCURB (CHR 0x7D)" "ascii C_MINUS (CHR ''-'')" "ascii C_ZERO (CHR ''0'')"
  by (simp_all add: ascii_def ascii_class_def)

lemma tree_env_callback [simp]: "je_callback (tree_env f) = Some json_callback"
  by (simp add: tree_env_def)

lemma callback_event: "call (tree_env f) t v jc = (case json_event (jp_ctx jc) t v of None \<Rightarrow> None | Some cx \<Rightarrow> Some (True, jc\<lparr>jp_ctx := cx\<rparr>))"
  by (simp add: call_def tree_env_def json_callback_def split: option.split)

lemma json_event_simps [simp]:
  "json_event cx JSON_T_OBJECT_BEGIN v = json_begin JSON_C_T_OBJ cx" "json_event cx JSON_T_ARRAY_BEGIN v = json_begin JSON_C_T_ARR cx"
  "json_event cx JSON_T_OBJECT_END v = json_end cx" "json_event cx JSON_T_ARRAY_END v = json_end cx"
  "json_event cx JSON_T_KEY (StrValue k) = json_key k cx"
  "is_non_container_type t \<Longrightarrow> json_event cx t v = json_val t v cx"
  by (auto simp: json_event_def is_non_container_type_def)

lemma reads_quote:
  assumes "st \<in> {OB, KE, VA, AR}"
  shows "reads E (at_state st JSON_T_NONE [] stk cx) [CHR 0x22] (at_state ST JSON_T_STRING [] stk cx)"
proof (rule reads_act [OF ascii_punct(1)])
  show "st \<noteq> ES" "next_entry st C_QUOTE = Act SB" using assms by (auto simp: next_entry_def)
  fix jc :: "'a JSON_parser_struct"
  assume "at_state st JSON_T_NONE (put JSON_T_NONE C_QUOTE (CHR 0x22) []) stk cx jc"
  then show "\<exists>jc'. perform E SB jc = Some (True, jc') \<and> at_state ST JSON_T_STRING [] stk cx jc'"
    using assms by (auto simp: at_state_def parse_buffer_clear_def detected_def)
qed

lemma pop_back: "at_state st ty (b @ [c]) stk cx jc \<Longrightarrow> parse_buffer_pop_back_char jc = Some (jc\<lparr>jp_buf := b\<rparr>)"
  by (simp add: at_state_def parse_buffer_pop_back_char_def)

lemma reads_key_end:
  assumes "json_key b cx = Some cx'"
  shows "reads (tree_env f) (at_state ST JSON_T_STRING b (MODE_KEY # stk) cx) [CHR 0x22] (at_state CO JSON_T_NONE [] (MODE_KEY # stk) cx')"
proof (rule reads_act [OF ascii_punct(1)])
  show "ST \<noteq> ES" "next_entry ST C_QUOTE = Act M4" by (auto simp: next_entry_def)
  fix jc
  assume jc: "at_state ST JSON_T_STRING (put JSON_T_STRING C_QUOTE (CHR 0x22) b) (MODE_KEY # stk) cx jc"
  then show "\<exists>jc'. perform (tree_env f) M4 jc = Some (True, jc') \<and> at_state CO JSON_T_NONE [] (MODE_KEY # stk) cx' jc'"
    using pop_back [of ST JSON_T_STRING b "CHR 0x22" "MODE_KEY # stk" cx jc] assms
    by (auto simp: at_state_def string_end_def stack_top_def callback_event orelse_return_def parse_buffer_clear_def)
qed

lemma reads_string_end:
  assumes "json_val JSON_T_STRING (StrValue b) cx = Some cx'" and "m = MODE_ARRAY \<or> m = MODE_OBJECT"
  shows "reads (tree_env f) (at_state ST JSON_T_STRING b (m # stk) cx) [CHR 0x22] (at_state OK JSON_T_NONE [] (m # stk) cx')"
proof (rule reads_act [OF ascii_punct(1)])
  show "ST \<noteq> ES" "next_entry ST C_QUOTE = Act M4" by (auto simp: next_entry_def)
  fix jc
  assume jc: "at_state ST JSON_T_STRING (put JSON_T_STRING C_QUOTE (CHR 0x22) b) (m # stk) cx jc"
  have "sound (jc\<lparr>jp_buf := b\<rparr>)" using jc by (intro sound_shorter) (simp_all add: at_state_def)
  then show "\<exists>jc'. perform (tree_env f) M4 jc = Some (True, jc') \<and> at_state OK JSON_T_NONE [] (m # stk) cx' jc'"
    using jc pop_back [of ST JSON_T_STRING b "CHR 0x22" "m # stk" cx jc] assms
    by (auto simp: at_state_def string_end_def stack_top_def callback_event orelse_return_def parse_buffer_clear_def parse_parse_buffer_def
      is_non_container_type_def buffer_value_def)
qed

lemma reads_colon: "reads E (at_state CO JSON_T_NONE [] (MODE_KEY # stk) cx) [CHR '':''] (at_state VA JSON_T_NONE [] (MODE_OBJECT # stk) cx)"
proof (rule reads_act [OF ascii_punct(2)])
  show "CO \<noteq> ES" "next_entry CO C_COLON = Act M2" by (auto simp: next_entry_def)
  fix jc :: "'a JSON_parser_struct"
  assume "at_state CO JSON_T_NONE (put JSON_T_NONE C_COLON (CHR '':'') []) (MODE_KEY # stk) cx jc"
  then have jc: "at_state CO JSON_T_NONE ([] @ [CHR '':'']) (MODE_KEY # stk) cx jc" by (simp add: put_def)
  let ?jc = "jc\<lparr>jp_buf := []\<rparr>"
  have s: "sound ?jc" "jp_stack ?jc = MODE_KEY # stk" using jc by (simp_all add: at_state_def)
  have "length stk \<le> 15" "sound (?jc\<lparr>jp_stack := MODE_OBJECT # stk\<rparr>)" using s sound_swap [OF s] by (auto simp: sound_def)
  then show "\<exists>jc'. perform E M2 jc = Some (True, jc') \<and> at_state VA JSON_T_NONE [] (MODE_OBJECT # stk) cx jc'"
    using jc s pop_back [OF jc] by (auto simp: colon_def pop_def push_def jtop_def orelse_return_def at_state_def sound_def)
qed

lemma reads_open:
  assumes b: "json_begin ct cx = Some cx'" and st: "st \<in> {GO, VA, AR}" and len: "length stk \<le> 15" and k: "hd stk \<noteq> MODE_KEY"
    and ct: "ct = JSON_C_T_OBJ \<and> c = CHR 0x7B \<and> st' = OB \<and> m = MODE_KEY \<or> ct = JSON_C_T_ARR \<and> c = CHR ''['' \<and> st' = AR \<and> m = MODE_ARRAY"
  shows "reads (tree_env f) (at_state st JSON_T_NONE [] stk cx) [c] (at_state st' JSON_T_NONE [] (m # stk) cx')"
proof -
  define cl t a where "cl = (if ct = JSON_C_T_OBJ then C_LCURB else C_LSQRB)"
    and "t = (if ct = JSON_C_T_OBJ then JSON_T_OBJECT_BEGIN else JSON_T_ARRAY_BEGIN)" and "a = (if ct = JSON_C_T_OBJ then M6 else M5)"
  have pa: "perform (tree_env f) a jc = begin_collection (tree_env f) t m st' jc" for jc using ct by (auto simp: a_def t_def)
  have ev: "json_event x t NoValue = json_begin ct x" for x using ct by (auto simp: t_def)
  show ?thesis
  proof (rule reads_act [of cl c st a])
    show "ascii cl c" "st \<noteq> ES" "next_entry st cl = Act a" using st ct ascii_punct by (auto simp: cl_def a_def next_entry_def)
    fix jc
    assume "at_state st JSON_T_NONE (put JSON_T_NONE cl c []) stk cx jc"
    then have jc: "at_state st JSON_T_NONE ([] @ [c]) stk cx jc" by (simp add: put_def cl_def split: if_splits)
    let ?jc = "jc\<lparr>jp_buf := [], jp_ctx := cx'\<rparr>"
    have s: "sound ?jc" "hd (jp_stack ?jc) \<noteq> MODE_KEY" "length (jp_stack ?jc) \<le> 15" "jp_stack ?jc = stk" using jc k len by (simp_all add: at_state_def)
    have sp: "sound (?jc\<lparr>jp_stack := m # stk\<rparr>)" using sound_push [OF s(1,3,2), of m] ct s(4) by auto
    have "push m ?jc = Some (True, ?jc\<lparr>jp_stack := m # stk\<rparr>)"
      using s by (auto simp: push_def jtop_def sound_def)
    then have "perform (tree_env f) a jc = Some (True, ?jc\<lparr>jp_stack := m # stk\<rparr>\<lparr>jp_state := st'\<rparr>)"
      using jc b by (simp add: pa begin_collection_def pop_back [OF jc] callback_event ev orelse_return_def at_state_def)
    then show "\<exists>jc'. perform (tree_env f) a jc = Some (True, jc') \<and> at_state st' JSON_T_NONE [] (m # stk) cx' jc'"
      using sp jc st ct by (auto simp: at_state_def)
  qed
qed

section \<open>Values\<close>

text \<open>A number or a literal is reported with the character after it; a string or a collection has been.\<close>

definition owed :: "json_type \<Rightarrow> string \<Rightarrow> json_context \<Rightarrow> json_context \<Rightarrow> bool" where
  "owed ty b cx cx' \<longleftrightarrow>
     (if ty = JSON_T_NONE then b = [] \<and> cx' = cx
      else if ty = JSON_T_INTEGER then \<exists>i. sscanf_lld b = Some i \<and> json_val ty (IntValue i) cx = Some cx'
      else ty \<in> {JSON_T_TRUE, JSON_T_FALSE, JSON_T_NULL} \<and> json_val ty NoValue cx = Some cx')"

definition valued :: "modes list \<Rightarrow> json_context \<Rightarrow> json_context JSON_parser_struct \<Rightarrow> bool" where
  "valued stk cx' jc \<longleftrightarrow> (\<exists>st ty b cx. st \<in> {OK, ZE, IT} \<and> at_state st ty b stk cx jc \<and> owed ty b cx cx')"

lemma valued_done: "at_state OK JSON_T_NONE [] stk cx jc \<Longrightarrow> valued stk cx jc"
  by (auto simp: valued_def owed_def)

lemma owed_paid:
  assumes "at_state st ty b stk cx jc" and "owed ty b cx cx'"
  shows "parse_parse_buffer (tree_env f) jc = Some (True, jc\<lparr>jp_ctx := cx', jp_buf := []\<rparr>)"
proof -
  have m: "\<not> jp_manually jc" using assms(1) by (simp add: at_state_def sound_def)
  consider "ty = JSON_T_NONE" | "ty = JSON_T_INTEGER" | "ty \<in> {JSON_T_TRUE, JSON_T_FALSE, JSON_T_NULL}" "ty \<noteq> JSON_T_NONE" "ty \<noteq> JSON_T_INTEGER"
    using assms(2) by (auto simp: owed_def split: if_splits)
  then show ?thesis
  proof cases
    case 1
    then show ?thesis using assms
      by (auto simp: owed_def at_state_def parse_parse_buffer_def orelse_return_def parse_buffer_clear_def)
  next
    case 2
    then show ?thesis using assms
      by (auto simp: owed_def at_state_def parse_parse_buffer_def orelse_return_def parse_buffer_clear_def is_non_container_type_def
        buffer_value_def callback_event)
  next
    case 3
    then show ?thesis using assms
      by (auto simp: owed_def at_state_def parse_parse_buffer_def orelse_return_def parse_buffer_clear_def is_non_container_type_def
        buffer_value_def callback_event)
  qed
qed

text \<open>A character that ends a value: what it owes is paid, and the action goes on from there.\<close>

lemma reads_valued:
  assumes c: "ascii cl c" "\<not> (cl = C_SPACE \<or> cl = C_WHITE)" and act: "\<And>st. st \<in> {OK, ZE, IT} \<Longrightarrow> next_entry st cl = Act a"
    and p: "\<And>jc st ty b cx. st \<in> {OK, ZE, IT} \<Longrightarrow> at_state st ty (b @ [c]) stk cx jc \<Longrightarrow> ty \<noteq> JSON_T_STRING \<Longrightarrow>
      parse_parse_buffer (tree_env f) (jc\<lparr>jp_buf := b\<rparr>) = Some (True, jc\<lparr>jp_ctx := cx', jp_buf := []\<rparr>) \<Longrightarrow>
      \<exists>jc'. perform (tree_env f) a jc = Some (True, jc') \<and> Q jc'"
  shows "reads (tree_env f) (valued stk cx') [c] Q"
  unfolding reads_def
proof (intro allI impI)
  fix jc
  assume "valued stk cx' jc"
  then obtain st ty b cx where st: "st \<in> {OK, ZE, IT}" and at: "at_state st ty b stk cx jc" and o: "owed ty b cx cx'"
    by (auto simp: valued_def)
  have "reads (tree_env f) (at_state st ty b stk cx) [c] Q"
  proof (rule reads_act [OF c(1) _ act [OF st]])
    show "st \<noteq> ES" using st by auto
    fix jc1
    assume "at_state st ty (put ty cl c b) stk cx jc1"
    then have jc1: "at_state st ty (b @ [c]) stk cx jc1" using c(2) by (simp add: put_def)
    have "sound (jc1\<lparr>jp_buf := b\<rparr>)" using jc1 by (intro sound_shorter) (simp_all add: at_state_def)
    then have "at_state st ty b stk cx (jc1\<lparr>jp_buf := b\<rparr>)" using jc1 by (simp add: at_state_def)
    from owed_paid [OF this o, of f] show "\<exists>jc'. perform (tree_env f) a jc1 = Some (True, jc') \<and> Q jc'"
      using o by (intro p [OF st jc1]) (auto simp: owed_def)
  qed
  then show "\<exists>jc'. parser_chars (tree_env f) jc [c] = Some (True, jc') \<and> Q jc'" using at by (simp add: reads_def)
qed

lemma reads_comma:
  "reads (tree_env f) (valued (MODE_ARRAY # stk) cx) '','' (at_state VA JSON_T_NONE [] (MODE_ARRAY # stk) cx)"
  "reads (tree_env f) (valued (MODE_OBJECT # stk) cx) '','' (at_state KE JSON_T_NONE [] (MODE_KEY # stk) cx)"
proof -
  have act: "st \<in> {OK, ZE, IT} \<Longrightarrow> next_entry st C_COMMA = Act M3" for st by (auto simp: next_entry_def)
  show "reads (tree_env f) (valued (MODE_ARRAY # stk) cx) '','' (at_state VA JSON_T_NONE [] (MODE_ARRAY # stk) cx)"
  proof (rule reads_valued [OF ascii_punct(3) _ act])
    fix jc st ty b cx0
    assume jc: "st \<in> {OK, ZE, IT}" "at_state st ty (b @ '','') (MODE_ARRAY # stk) cx0 jc" "ty \<noteq> JSON_T_STRING"
      and p: "parse_parse_buffer (tree_env f) (jc\<lparr>jp_buf := b\<rparr>) = Some (True, jc\<lparr>jp_ctx := cx, jp_buf := []\<rparr>)"
    show "\<exists>jc'. perform (tree_env f) M3 jc = Some (True, jc') \<and> at_state VA JSON_T_NONE [] (MODE_ARRAY # stk) cx jc'"
      using jc by (auto simp: comma_def pop_back [OF jc(2)] p orelse_return_def stack_top_def at_state_def)
  qed simp_all
  show "reads (tree_env f) (valued (MODE_OBJECT # stk) cx) '','' (at_state KE JSON_T_NONE [] (MODE_KEY # stk) cx)"
  proof (rule reads_valued [OF ascii_punct(3) _ act])
    fix jc st ty b cx0
    assume jc: "st \<in> {OK, ZE, IT}" "at_state st ty (b @ '','') (MODE_OBJECT # stk) cx0 jc" "ty \<noteq> JSON_T_STRING"
      and p: "parse_parse_buffer (tree_env f) (jc\<lparr>jp_buf := b\<rparr>) = Some (True, jc\<lparr>jp_ctx := cx, jp_buf := []\<rparr>)"
    let ?jc = "jc\<lparr>jp_ctx := cx, jp_buf := []\<rparr>"
    have s: "sound ?jc" "jp_stack ?jc = MODE_OBJECT # stk" using jc by (simp_all add: at_state_def)
    have k: "length stk \<le> 15" "sound (?jc\<lparr>jp_stack := MODE_KEY # stk\<rparr>)" using s sound_swap [OF s] by (auto simp: sound_def)
    have po: "pop MODE_OBJECT ?jc = Some (True, ?jc\<lparr>jp_stack := stk\<rparr>)" using s(2) by (simp add: pop_def)
    have pu: "push MODE_KEY (?jc\<lparr>jp_stack := stk\<rparr>) = Some (True, ?jc\<lparr>jp_stack := MODE_KEY # stk\<rparr>)"
      using k s(1) by (auto simp: push_def jtop_def sound_def)
    have "perform (tree_env f) M3 jc = Some (True, ?jc\<lparr>jp_stack := MODE_KEY # stk\<rparr>\<lparr>jp_type := JSON_T_NONE, jp_state := KE\<rparr>)"
      using jc by (auto simp: comma_def pop_back [OF jc(2)] p po pu orelse_return_def stack_top_def at_state_def)
    then show "\<exists>jc'. perform (tree_env f) M3 jc = Some (True, jc') \<and> at_state KE JSON_T_NONE [] (MODE_KEY # stk) cx jc'"
      using k jc by (auto simp: at_state_def)
  qed simp_all
qed

lemma reads_close:
  assumes e: "json_end cx = Some cx'" and ct: "ct = JSON_C_T_OBJ \<and> m = MODE_OBJECT \<or> ct = JSON_C_T_ARR \<and> m = MODE_ARRAY"
  shows "reads (tree_env f) (valued (m # stk) cx) (close_brace ct) (at_state OK JSON_T_NONE [] stk cx')"
proof -
  define cl t a c where "cl = (if ct = JSON_C_T_OBJ then C_RCURB else C_RSQRB)" and "t = (if ct = JSON_C_T_OBJ then JSON_T_OBJECT_END else JSON_T_ARRAY_END)"
    and "a = (if ct = JSON_C_T_OBJ then M8 else M7)" and "c = (if ct = JSON_C_T_OBJ then CHR 0x7D else CHR '']'')"
  have pa: "perform (tree_env f) a jc = end_collection (tree_env f) t m jc" for jc using ct by (auto simp: a_def t_def)
  have ev: "json_event x t NoValue = json_end x" for x using ct by (auto simp: t_def)
  have "reads (tree_env f) (valued (m # stk) cx) [c] (at_state OK JSON_T_NONE [] stk cx')"
  proof (rule reads_valued [of cl])
    show "ascii cl c" "\<not> (cl = C_SPACE \<or> cl = C_WHITE)" using ascii_punct by (simp_all add: cl_def c_def)
    show "st \<in> {OK, ZE, IT} \<Longrightarrow> next_entry st cl = Act a" for st by (auto simp: next_entry_def cl_def a_def)
    fix jc st ty b cx0
    assume jc: "st \<in> {OK, ZE, IT}" "at_state st ty (b @ [c]) (m # stk) cx0 jc"
      and p: "parse_parse_buffer (tree_env f) (jc\<lparr>jp_buf := b\<rparr>) = Some (True, jc\<lparr>jp_ctx := cx, jp_buf := []\<rparr>)"
    let ?jc = "jc\<lparr>jp_ctx := cx, jp_buf := []\<rparr>"
    let ?jc1 = "jc\<lparr>jp_buf := [], jp_ctx := cx'\<rparr>"
    have s: "sound ?jc1" "jp_stack ?jc1 = m # stk" "m \<noteq> MODE_DONE" using jc ct by (auto simp: at_state_def)
    have ca: "call (tree_env f) t NoValue ?jc = Some (True, ?jc1)" using e by (simp add: callback_event ev)
    have po: "pop m ?jc1 = Some (True, ?jc1\<lparr>jp_stack := stk\<rparr>)" using s(2) by (simp add: pop_def)
    have "perform (tree_env f) a jc = Some (True, ?jc1\<lparr>jp_stack := stk\<rparr>\<lparr>jp_type := JSON_T_NONE, jp_state := OK\<rparr>)"
      unfolding pa end_collection_def pop_back [OF jc(2)] bind.bind_lunit p by (simp add: orelse_return_def ca po)
    then show "\<exists>jc'. perform (tree_env f) a jc = Some (True, jc') \<and> at_state OK JSON_T_NONE [] stk cx' jc'"
      using sound_pop [OF s] jc by (auto simp: at_state_def)
  qed
  moreover have "close_brace ct = [c]" using ct by (auto simp: c_def)
  ultimately show ?thesis by simp
qed

section \<open>Numbers and literals\<close>

lemma digit_class:
  "n < 10 \<Longrightarrow> ascii (if n = 0 then C_ZERO else C_DIGIT) (char_of (48 + n :: nat)) \<and> is_digit (char_of (48 + n))"
proof -
  have "list_all (\<lambda>n. ascii (if n = 0 then C_ZERO else C_DIGIT) (char_of (48 + n :: nat)) \<and> is_digit (char_of (48 + n))) [0..<10]" by code_simp
  then show "n < 10 \<Longrightarrow> ?thesis" by (simp add: list_all_iff)
qed

definition int_digit :: "char \<Rightarrow> bool" where
  "int_digit c \<longleftrightarrow> is_digit c \<and> (ascii C_ZERO c \<or> ascii C_DIGIT c)"

lemma int_digit_of: "int_digit (char_of (48 + n mod 10 :: nat))"
  using digit_class [of "n mod 10"] by (auto simp: int_digit_def split: if_splits)

lemma itos_loop_text: "0 < n \<Longrightarrow> \<exists>d ds. itos_loop n [] = d # ds \<and> ascii C_DIGIT d \<and> is_digit d \<and> list_all int_digit ds"
proof (induction n rule: less_induct)
  case (less n)
  show ?case
  proof (cases "n div 10 = 0")
    case True
    then have "n < 10" by simp
    then show ?thesis using less.prems digit_class [of n] by (simp add: itos_loop_step [of n])
  next
    case False
    then obtain d ds where "itos_loop (n div 10) [] = d # ds" "ascii C_DIGIT d" "is_digit d" "list_all int_digit ds"
      using less.IH [of "n div 10"] less.prems by auto
    then show ?thesis using less.prems int_digit_of [of n] by (simp add: itos_loop_step [of n])
  qed
qed

lemma digits_value_dec: "fold (\<lambda>d v. v * 10 + digit_val d) ds v = dec_value ds v"
  by (induction ds arbitrary: v) (simp_all add: digit_val_def mult.commute)

lemma scan_print:
  assumes "n \<noteq> 0" and "LLONG_MIN < n" and "n \<le> LLONG_MAX"
  shows "print_int n = (if n < 0 then ''-'' else []) @ itos_loop (nat \<bar>n\<bar>) []" and "sscanf_lld (print_int n) = Some n"
proof -
  show pr: "print_int n = (if n < 0 then ''-'' else []) @ itos_loop (nat \<bar>n\<bar>) []"
    by (rule itos_LENGTH_N [OF assms(2)]) (simp add: print_int_def)
  obtain d ds where t: "itos_loop (nat \<bar>n\<bar>) [] = d # ds" "is_digit d" "list_all int_digit ds" using itos_loop_text [of "nat \<bar>n\<bar>"] assms(1) by auto
  have tw: "takeWhile is_digit (d # ds) = d # ds" using t(2,3) by (simp add: takeWhile_eq_all_conv list_all_iff int_digit_def)
  have dv: "digits_value (d # ds) = nat \<bar>n\<bar>" using dec_value_itos [of "nat \<bar>n\<bar>"] t(1) unfolding digits_value_def digits_value_dec by simp
  have sat: "saturate n = n" using assms by (simp add: saturate_def)
  show "sscanf_lld (print_int n) = Some n"
    unfolding pr t(1) using tw dv sat digit_not_blank [OF t(2)] by (cases "n < 0") (auto simp: sscanf_lld_def Let_def)
qed

lemma reads_digits:
  "list_all int_digit ds \<Longrightarrow> reads E (at_state IT JSON_T_INTEGER b stk cx) ds (at_state IT JSON_T_INTEGER (b @ ds) stk cx)"
proof (induction ds arbitrary: b)
  case (Cons d ds)
  obtain cl where cl: "ascii cl d" "cl = C_ZERO \<or> cl = C_DIGIT" using Cons.prems by (auto simp: int_digit_def)
  have "reads E (at_state IT JSON_T_INTEGER b stk cx) [d] (at_state IT JSON_T_INTEGER (b @ [d]) stk cx)"
    using reads_to [OF cl(1), of IT IT E JSON_T_INTEGER b stk cx] cl(2) by (auto simp: next_entry_def)
  then show ?case using reads_Cons [OF _ Cons.IH [of "b @ [d]"]] Cons.prems by simp
qed (simp add: reads_Nil)

text \<open>The first character of a value that is no string.\<close>

lemma reads_start:
  assumes st: "st \<in> {VA, AR}" and c: "ascii cl c" and a: "(cl, ty, st') \<in> {(C_MINUS, JSON_T_INTEGER, MI), (C_ZERO, JSON_T_INTEGER, ZE),
      (C_DIGIT, JSON_T_INTEGER, IT), (C_LOW_T, JSON_T_TRUE, T1), (C_LOW_F, JSON_T_FALSE, F1), (C_LOW_N, JSON_T_NULL, N1)}"
  shows "reads E (at_state st JSON_T_NONE [] stk cx) [c] (at_state st' ty [c] stk cx)"
proof -
  obtain act where act: "next_entry st cl = Act act" "\<And>jc. jp_type jc = JSON_T_NONE \<Longrightarrow> perform E act jc = detected ty st' jc"
    using st a by (auto simp: next_entry_def)
  show ?thesis
  proof (rule reads_act [OF c _ act(1)])
    show "st \<noteq> ES" using st by auto
    fix jc :: "'a JSON_parser_struct"
    assume "at_state st JSON_T_NONE (put JSON_T_NONE cl c []) stk cx jc"
    then have jc: "at_state st JSON_T_NONE [c] stk cx jc" using a by (auto simp: put_def)
    then show "\<exists>jc'. perform E act jc = Some (True, jc') \<and> at_state st' ty [c] stk cx jc'"
      using act(2) [of jc] st a by (auto simp: at_state_def detected_def)
  qed
qed

lemma reads_int:
  assumes st: "st \<in> {VA, AR}" and n: "n \<noteq> 0" "LLONG_MIN < n" "n \<le> LLONG_MAX"
  shows "reads E (at_state st JSON_T_NONE [] stk cx) (print_int n) (at_state IT JSON_T_INTEGER (print_int n) stk cx)"
proof -
  obtain d ds where t: "itos_loop (nat \<bar>n\<bar>) [] = d # ds" "ascii C_DIGIT d" "list_all int_digit ds" using itos_loop_text [of "nat \<bar>n\<bar>"] n(1) by auto
  note pr = scan_print(1) [OF n, unfolded t(1)]
  show ?thesis
  proof (cases "n < 0")
    case True
    have "reads E (at_state st JSON_T_NONE [] stk cx) (CHR ''-'' # d # ds) (at_state IT JSON_T_INTEGER (CHR ''-'' # d # ds) stk cx)"
    proof (rule reads_Cons [OF reads_start [OF st ascii_punct(8)]], simp, rule reads_Cons)
      show "reads E (at_state MI JSON_T_INTEGER ''-'' stk cx) [d] (at_state IT JSON_T_INTEGER [CHR ''-'', d] stk cx)"
        using reads_to [OF t(2), of MI IT E JSON_T_INTEGER "''-''" stk cx] by (simp add: next_entry_def)
      show "reads E (at_state IT JSON_T_INTEGER [CHR ''-'', d] stk cx) ds (at_state IT JSON_T_INTEGER (CHR ''-'' # d # ds) stk cx)"
        using reads_digits [OF t(3), of E "[CHR ''-'', d]" stk cx] by simp
    qed
    then show ?thesis using True pr by simp
  next
    case False
    have "reads E (at_state st JSON_T_NONE [] stk cx) (d # ds) (at_state IT JSON_T_INTEGER (d # ds) stk cx)"
      using reads_Cons [OF reads_start [OF st t(2)] reads_digits [OF t(3)]] by simp
    then show ?thesis using False pr by simp
  qed
qed

lemma literal_rows:
  "next_entry T1 C_LOW_R = To T2" "next_entry T2 C_LOW_U = To T3" "next_entry T3 C_LOW_E = To OK"
  "next_entry F1 C_LOW_A = To F2" "next_entry F2 C_LOW_L = To F3" "next_entry F3 C_LOW_S = To F4" "next_entry F4 C_LOW_E = To OK"
  "next_entry N1 C_LOW_U = To N2" "next_entry N2 C_LOW_L = To N3" "next_entry N3 C_LOW_L = To OK"
  by (simp_all add: next_entry_def)

lemma ascii_letters:
  "ascii C_LOW_T (CHR ''t'')" "ascii C_LOW_R (CHR ''r'')" "ascii C_LOW_U (CHR ''u'')" "ascii C_LOW_E (CHR ''e'')" "ascii C_LOW_F (CHR ''f'')"
  "ascii C_LOW_A (CHR ''a'')" "ascii C_LOW_L (CHR ''l'')" "ascii C_LOW_S (CHR ''s'')" "ascii C_LOW_N (CHR ''n'')"
  by (simp_all add: ascii_def ascii_class_def)

lemma reads_letter:
  "ascii cl c \<Longrightarrow> next_entry st cl = To st' \<Longrightarrow> st \<noteq> ES \<Longrightarrow> ty \<noteq> JSON_T_NONE \<Longrightarrow>
     reads E (at_state st' ty (b @ [c]) stk cx) s Q \<Longrightarrow> reads E (at_state st ty b stk cx) (c # s) Q"
  by (rule reads_Cons [OF reads_to [of cl]]) simp_all

lemma reads_literal:
  assumes st: "st \<in> {VA, AR}"
  shows "reads E (at_state st JSON_T_NONE [] stk cx) ''true'' (at_state OK JSON_T_TRUE ''true'' stk cx)"
    and "reads E (at_state st JSON_T_NONE [] stk cx) ''false'' (at_state OK JSON_T_FALSE ''false'' stk cx)"
    and "reads E (at_state st JSON_T_NONE [] stk cx) ''null'' (at_state OK JSON_T_NULL ''null'' stk cx)"
  by (rule reads_Cons [OF reads_start [OF st]], rule ascii_letters, simp,
      (rule reads_letter, rule ascii_letters, rule literal_rows, simp, simp)+, rule reads_Nil, simp)+

section \<open>The tree under construction\<close>

definition blank :: "string option \<Rightarrow> json_item" where
  "blank k = Item k None 0 0 JSON_T_UNSET JSON_C_T_NULL []"

text \<open>The collection \<open>fa\<close> is open and has the children \<open>kids\<close> so far; \<open>slot\<close>: the next one has been named \<open>k\<close>, if it has a name.\<close>

definition holds :: "json_context \<Rightarrow> json_item \<Rightarrow> json_item list \<Rightarrow> place list \<Rightarrow> json_item list \<Rightarrow> bool" where
  "holds cx fa fs up kids \<longleftrightarrow> \<not> key_under cx \<and>
     (if start_depth cx then kids = [] \<and> cx_path cx = (fa, fs) # up
      else \<exists>it sibs. kids = rev sibs @ [it] \<and> cx_path cx = (it, sibs) # (fa, fs) # up)"

definition slot :: "string option \<Rightarrow> json_context \<Rightarrow> json_item \<Rightarrow> json_item list \<Rightarrow> place list \<Rightarrow> json_item list \<Rightarrow> bool" where
  "slot k cx fa fs up kids \<longleftrightarrow>
     (case k of
        None \<Rightarrow> holds cx fa fs up kids
      | Some x \<Rightarrow> key_under cx \<and> \<not> start_depth cx \<and> cx_path cx = (blank k, rev kids) # (fa, fs) # up)"

lemma link_holds:
  "holds cx fa fs up kids \<Longrightarrow> link_item x cx = Some (cx\<lparr>cx_path := (x, rev kids) # (fa, fs) # up, start_depth := False\<rparr>)"
  by (auto simp: holds_def link_item_def split: if_splits)

lemma slot_key: "holds cx fa fs up kids \<Longrightarrow> \<exists>cx'. json_key x cx = Some cx' \<and> slot (Some x) cx' fa fs up kids"
  by (auto simp: json_key_def link_holds slot_def blank_def)

lemma slot_val:
  assumes "slot k cx fa fs up kids" and "value_set t v"
  shows "\<exists>cx'. json_val t v cx = Some cx' \<and> holds cx' fa fs up (kids @ [set_value t v (blank k)])"
proof (cases k)
  case None
  then have h: "holds cx fa fs up kids" "\<not> key_under cx" using assms(1) by (auto simp: slot_def holds_def)
  have "init_json_item = blank k" by (simp add: init_json_item_def blank_def None)
  then show ?thesis using h(2) assms(2) by (simp add: json_val_def link_holds [OF h(1)] holds_def)
next
  case (Some x)
  then show ?thesis using assms by (simp add: slot_def json_val_def holds_def)
qed

lemma slot_begin:
  assumes "slot k cx fa fs up kids"
  shows "\<exists>cx'. json_begin ct cx = Some cx' \<and> holds cx' (set_child_type ct (blank k)) (rev kids) ((fa, fs) # up) []"
proof (cases k)
  case None
  then have h: "holds cx fa fs up kids" "\<not> key_under cx" "cx_path cx \<noteq> []" using assms(1) by (auto simp: slot_def holds_def split: if_splits)
  have "init_json_item = blank k" by (simp add: init_json_item_def blank_def None)
  then show ?thesis using h(2,3) by (simp add: json_begin_def link_holds [OF h(1)] holds_def)
next
  case (Some x)
  then show ?thesis using assms by (simp add: slot_def json_begin_def holds_def)
qed

lemma holds_end:
  assumes "holds cx fa fs up kids" and "kids \<noteq> []"
  shows "\<exists>cx'. json_end cx = Some cx' \<and> \<not> key_under cx' \<and> \<not> start_depth cx' \<and> cx_path cx' = (set_children kids fa, fs) # up"
  using assms by (auto simp: holds_def json_end_def split: if_splits)

section \<open>Trees that can be sent\<close>

text \<open>Keys are not escaped, \<open>\'\<close> is no escape of JSON, and a number with decimals is printed with six of them.\<close>

fun sendable :: "nat \<Rightarrow> json_child_t option \<Rightarrow> json_item \<Rightarrow> bool" where
  "sendable d fa (Item k s n f t ct ch) \<longleftrightarrow>
     (fa = Some JSON_C_T_OBJ \<longleftrightarrow> k \<noteq> None) \<and> (case k of None \<Rightarrow> True | Some x \<Rightarrow> list_all plain_char x) \<and>
     (if ch = [] then (case s of Some v \<Rightarrow> list_all text_char v | None \<Rightarrow> f = 0 \<and> LLONG_MIN < n \<and> n \<le> LLONG_MAX)
      else 0 < d \<and> ct \<in> {JSON_C_T_OBJ, JSON_C_T_ARR} \<and> s = None \<and> n = 0 \<and> f = 0 \<and>
        t \<notin> {JSON_T_TRUE, JSON_T_FALSE, JSON_T_NULL} \<and> list_all (sendable (d - 1) (Some ct)) ch)"

text \<open>What the reader reports of a value, and the tree it makes: an item with neither value nor children
  comes back as the number 0.\<close>

fun reported :: "json_item \<Rightarrow> json_type \<times> JSON_value" where
  "reported (Item k s n f t ct ch) =
     (case s of
        Some v \<Rightarrow> (JSON_T_STRING, StrValue v)
      | None \<Rightarrow> if n \<noteq> 0 then (JSON_T_INTEGER, IntValue n)
          else if t \<in> {JSON_T_TRUE, JSON_T_FALSE, JSON_T_NULL} then (t, NoValue) else (JSON_T_INTEGER, IntValue 0))"

fun reread :: "json_item \<Rightarrow> json_item" where
  "reread (Item k s n f t ct ch) =
     (if ch = [] then set_value (fst (reported (Item k s n f t ct ch))) (snd (reported (Item k s n f t ct ch)))
           (Item k None 0 0 JSON_T_UNSET JSON_C_T_NULL [])
      else Item k None 0 0 JSON_T_UNSET ct (map reread ch))"

lemma reported_set: "value_set (fst (reported it)) (snd (reported it))"
  by (cases it) (auto simp: value_set_def split: option.split)

lemma reads_leaf:
  assumes it: "sendable d fa it" "jchild it = []" and st: "st \<in> {VA, AR}" and m: "m = MODE_ARRAY \<or> m = MODE_OBJECT"
    and v: "json_val (fst (reported it)) (snd (reported it)) cx = Some cx'"
  shows "reads (tree_env g) (at_state st JSON_T_NONE [] (m # stk) cx) (print_value it) (valued (m # stk) cx')"
proof -
  obtain k s n f t ct where i: "it = Item k s n f t ct []" using it(2) by (cases it) auto
  have paid: "reads (tree_env g) P w (at_state st' ty b (m # stk) cx) \<Longrightarrow> st' \<in> {OK, ZE, IT} \<Longrightarrow> owed ty b cx cx' \<Longrightarrow> reads (tree_env g) P w (valued (m # stk) cx')"
    for P w st' ty b by (erule reads_weaken) (auto simp: valued_def)
  show ?thesis
  proof (cases s)
    case (Some x)
    then have tc: "list_all text_char x" "json_val JSON_T_STRING (StrValue x) cx = Some cx'" using it v by (simp_all add: i)
    have "reads (tree_env g) (at_state st JSON_T_NONE [] (m # stk) cx) (CHR 0x22 # escape_json_string x @ [CHR 0x22]) (at_state OK JSON_T_NONE [] (m # stk) cx')"
      by (rule reads_Cons [OF reads_quote reads_append [OF reads_string [OF tc(1)]]], use st in blast, simp, rule reads_string_end [OF tc(2) m])
    then have "reads (tree_env g) (at_state st JSON_T_NONE [] (m # stk) cx) (CHR 0x22 # escape_json_string x @ [CHR 0x22]) (valued (m # stk) cx')"
      by (rule reads_weaken) (simp_all add: valued_done)
    then show ?thesis using Some by (simp add: i print_value_def)
  next
    case None
    then have n: "f = 0" "LLONG_MIN < n" "n \<le> LLONG_MAX" using it by (simp_all add: i)
    consider "n \<noteq> 0" | "n = 0" "t = JSON_T_TRUE" | "n = 0" "t = JSON_T_FALSE" | "n = 0" "t = JSON_T_NULL"
      | "n = 0" "t \<notin> {JSON_T_TRUE, JSON_T_FALSE, JSON_T_NULL}" by blast
    then show ?thesis
    proof cases
      case 1
      then show ?thesis using None v n paid [OF reads_int [OF st 1 n(2,3)]] scan_print(2) [OF 1 n(2,3)]
        by (simp add: i print_value_def owed_def)
    next
      case 2
      then show ?thesis using None v n paid [OF reads_literal(1) [OF st]] by (simp add: i print_value_def owed_def)
    next
      case 3
      then show ?thesis using None v n paid [OF reads_literal(2) [OF st]] by (simp add: i print_value_def owed_def)
    next
      case 4
      then show ?thesis using None v n paid [OF reads_literal(3) [OF st]] by (simp add: i print_value_def owed_def)
    next
      case 5
      have "sscanf_lld ''0'' = Some 0" by code_simp
      then show ?thesis using 5 None v n paid [OF reads_start [OF st ascii_punct(9), of JSON_T_INTEGER ZE]] by (simp add: i print_value_def owed_def)
    qed
  qed
qed

section \<open>A tree\<close>

text \<open>Where the next member of a collection begins, and the mode in which its value is read.\<close>

definition begins :: "json_child_t \<Rightarrow> states \<Rightarrow> modes \<Rightarrow> bool" where
  "begins ct st m \<longleftrightarrow> ct = JSON_C_T_ARR \<and> st \<in> {VA, AR} \<and> m = MODE_ARRAY \<or> ct = JSON_C_T_OBJ \<and> st \<in> {OB, KE} \<and> m = MODE_KEY"

definition vmode :: "json_child_t \<Rightarrow> modes" where
  "vmode ct = (if ct = JSON_C_T_OBJ then MODE_OBJECT else MODE_ARRAY)"

lemma vmode: "vmode ct = MODE_ARRAY \<or> vmode ct = MODE_OBJECT" "vmode ct \<noteq> MODE_KEY"
  by (auto simp: vmode_def)

lemma reads_name:
  assumes b: "begins ct st m" and k: "Some ct = Some JSON_C_T_OBJ \<longleftrightarrow> k \<noteq> None" "case k of None \<Rightarrow> True | Some x \<Rightarrow> list_all plain_char x"
    and h: "holds cx fa fs up kids"
  shows "\<exists>cx1 st1. st1 \<in> {VA, AR} \<and> slot k cx1 fa fs up kids \<and>
    reads (tree_env g) (at_state st JSON_T_NONE [] (m # stk) cx) (print_key (Item k s n f t c ch)) (at_state st1 JSON_T_NONE [] (vmode ct # stk) cx1)"
proof (cases k)
  case None
  then have "st \<in> {VA, AR}" "m = vmode ct" using b k(1) by (auto simp: begins_def vmode_def)
  then show ?thesis using None h by (intro exI [of _ cx] exI [of _ st]) (auto simp: slot_def print_key_def intro: reads_Nil)
next
  case (Some x)
  then have st: "st \<in> {OB, KE, VA, AR}" "m = MODE_KEY" "vmode ct = MODE_OBJECT" using b k(1) by (auto simp: begins_def vmode_def)
  obtain cx1 where cx1: "json_key x cx = Some cx1" "slot (Some x) cx1 fa fs up kids" using slot_key [OF h] by blast
  have x: "list_all plain_char x" using k(2) Some by simp
  have "reads (tree_env g) (at_state st JSON_T_NONE [] (MODE_KEY # stk) cx) (CHR 0x22 # x @ [CHR 0x22, CHR '':''])
      (at_state VA JSON_T_NONE [] (MODE_OBJECT # stk) cx1)"
    by (rule reads_Cons [OF reads_quote [OF st(1)] reads_append [OF reads_key_text [OF x]]], simp, rule reads_Cons [OF reads_key_end [OF cx1(1)] reads_colon])
  then show ?thesis using Some st cx1(2) by (intro exI [of _ cx1] exI [of _ VA]) (simp add: print_key_def)
qed

lemma reads_item:
  assumes it: "sendable d (Some ct) (Item k s n f t c ch)" and b: "begins ct st m" and len: "length stk + d \<le> 15" and h: "holds cx fa fs up kids"
    and ih: "\<And>d st m stk cx fa fs up. ch \<noteq> [] \<Longrightarrow> list_all (sendable d (Some c)) ch \<Longrightarrow> begins c st m \<Longrightarrow> length stk + d \<le> 15 \<Longrightarrow>
      holds cx fa fs up [] \<Longrightarrow> \<exists>cx'. \<not> key_under cx' \<and> \<not> start_depth cx' \<and> cx_path cx' = (set_children (map reread ch) fa, fs) # up \<and>
        reads (tree_env g) (at_state st JSON_T_NONE [] (m # stk) cx) (json_print (Some c) ch) (at_state OK JSON_T_NONE [] stk cx')"
  shows "\<exists>cx'. holds cx' fa fs up (kids @ [reread (Item k s n f t c ch)]) \<and>
    reads (tree_env g) (at_state st JSON_T_NONE [] (m # stk) cx)
      (print_key (Item k s n f t c ch) @ print_value (Item k s n f t c ch) @ (if ch \<noteq> [] then open_brace c @ json_print (Some c) ch else []))
      (valued (vmode ct # stk) cx')"
proof -
  let ?it = "Item k s n f t c ch"
  have k: "Some ct = Some JSON_C_T_OBJ \<longleftrightarrow> k \<noteq> None" "case k of None \<Rightarrow> True | Some x \<Rightarrow> list_all plain_char x" using it by simp_all
  obtain cx1 st1 where st1: "st1 \<in> {VA, AR}" and sl: "slot k cx1 fa fs up kids"
    and nm: "reads (tree_env g) (at_state st JSON_T_NONE [] (m # stk) cx) (print_key ?it) (at_state st1 JSON_T_NONE [] (vmode ct # stk) cx1)"
    using reads_name [OF b k h, of g stk s n f t c ch] by blast
  show ?thesis
  proof (cases "ch = []")
    case True
    obtain cx' where v: "json_val (fst (reported ?it)) (snd (reported ?it)) cx1 = Some cx'"
      "holds cx' fa fs up (kids @ [set_value (fst (reported ?it)) (snd (reported ?it)) (blank k)])"
      using slot_val [OF sl reported_set [of ?it]] by blast
    have "reads (tree_env g) (at_state st1 JSON_T_NONE [] (vmode ct # stk) cx1) (print_value ?it) (valued (vmode ct # stk) cx')"
      by (rule reads_leaf [OF it _ st1 vmode(1) v(1)]) (simp add: True)
    note r = reads_append [OF nm this]
    have "reread ?it = set_value (fst (reported ?it)) (snd (reported ?it)) (blank k)"
      using True by (simp only: reread.simps blank_def if_True simp_thms)
    then show ?thesis using True v(2) r by (intro exI [of _ cx']) (simp del: reread.simps reported.simps set_value.simps)
  next
    case False
    then have c: "c = JSON_C_T_OBJ \<or> c = JSON_C_T_ARR" and d: "0 < d" and pv: "print_value ?it = []" and ch: "list_all (sendable (d - 1) (Some c)) ch"
      using it by (auto simp: print_value_def)
    define st2 m2 where "st2 = (if c = JSON_C_T_OBJ then OB else AR)" and "m2 = (if c = JSON_C_T_OBJ then MODE_KEY else MODE_ARRAY)"
    obtain cx2 where cx2: "json_begin c cx1 = Some cx2" "holds cx2 (set_child_type c (blank k)) (rev kids) ((fa, fs) # up) []"
      using slot_begin [OF sl, of c] by blast
    have op: "reads (tree_env g) (at_state st1 JSON_T_NONE [] (vmode ct # stk) cx1) (open_brace c) (at_state st2 JSON_T_NONE [] (m2 # vmode ct # stk) cx2)"
      using c reads_open [OF cx2(1), of st1 "vmode ct # stk"] st1 len d vmode(2) by (auto simp: st2_def m2_def)
    have bg: "begins c st2 m2" using c by (auto simp: begins_def st2_def m2_def)
    obtain cx' where cx': "\<not> key_under cx'" "\<not> start_depth cx'" "cx_path cx' = (set_children (map reread ch) (set_child_type c (blank k)), rev kids) # (fa, fs) # up"
      "reads (tree_env g) (at_state st2 JSON_T_NONE [] (m2 # vmode ct # stk) cx2) (json_print (Some c) ch) (at_state OK JSON_T_NONE [] (vmode ct # stk) cx')"
      using ih [OF False ch bg _ cx2(2), of "vmode ct # stk"] len d by auto
    have "set_children (map reread ch) (set_child_type c (blank k)) = reread ?it"
      using False by (simp add: set_children_def set_child_type_def blank_def)
    then have "holds cx' fa fs up (kids @ [reread ?it])" using cx'(1-3) by (simp add: holds_def)
    moreover have "reads (tree_env g) (at_state st2 JSON_T_NONE [] (m2 # vmode ct # stk) cx2) (json_print (Some c) ch) (valued (vmode ct # stk) cx')"
      by (rule reads_weaken [OF cx'(4)]) (simp_all add: valued_done)
    from reads_append [OF nm reads_append [OF op this]]
    have "reads (tree_env g) (at_state st JSON_T_NONE [] (m # stk) cx) (print_key ?it @ open_brace c @ json_print (Some c) ch) (valued (vmode ct # stk) cx')" .
    ultimately show ?thesis using False pv by auto
  qed
qed

lemma reads_items:
  assumes "items \<noteq> []" and "list_all (sendable d fa0) items" and "fa0 = Some ct" and "begins ct st m" and "length stk + d \<le> 15" and "holds cx fa fs up kids"
  shows "\<exists>cx'. \<not> key_under cx' \<and> \<not> start_depth cx' \<and> cx_path cx' = (set_children (kids @ map reread items) fa, fs) # up \<and>
    reads (tree_env g) (at_state st JSON_T_NONE [] (m # stk) cx) (json_print fa0 items) (at_state OK JSON_T_NONE [] stk cx')"
  using assms
proof (induction fa0 items arbitrary: d ct st m stk cx fa fs up kids rule: json_print.induct)
  case (2 fa0 k s n f t c ch rest)
  let ?it = "Item k s n f t c ch"
  have ct: "ct = JSON_C_T_OBJ \<or> ct = JSON_C_T_ARR" using "2.prems"(4) by (auto simp: begins_def)
  obtain cx1 where h: "holds cx1 fa fs up (kids @ [reread ?it])" and r: "reads (tree_env g) (at_state st JSON_T_NONE [] (m # stk) cx)
      (print_key ?it @ print_value ?it @ (if ch \<noteq> [] then open_brace c @ json_print (Some c) ch else [])) (valued (vmode ct # stk) cx1)"
    using reads_item [of d ct k s n f t c ch st m stk cx fa fs up kids g] "2.prems" "2.IH"(1) [where kids = "[]"] by auto
  show ?case
  proof (cases "rest = []")
    case True
    obtain cx' where e: "json_end cx1 = Some cx'" "\<not> key_under cx'" "\<not> start_depth cx'" "cx_path cx' = (set_children (kids @ [reread ?it]) fa, fs) # up"
      using holds_end [OF h] by auto
    have "reads (tree_env g) (valued (vmode ct # stk) cx1) (close_brace ct) (at_state OK JSON_T_NONE [] stk cx')"
      by (rule reads_close [OF e(1)]) (use ct in \<open>auto simp: vmode_def\<close>)
    then show ?thesis using True e(2-4) "2.prems"(3) reads_append [OF r] by auto
  next
    case False
    define st2 m2 where "st2 = (if ct = JSON_C_T_OBJ then KE else VA)" and "m2 = (if ct = JSON_C_T_OBJ then MODE_KEY else MODE_ARRAY)"
    have bg: "begins ct st2 m2" using ct by (auto simp: begins_def st2_def m2_def)
    have cm: "reads (tree_env g) (valued (vmode ct # stk) cx1) '','' (at_state st2 JSON_T_NONE [] (m2 # stk) cx1)"
      using ct reads_comma [of g stk cx1] by (auto simp: vmode_def st2_def m2_def)
    obtain cx' where e: "\<not> key_under cx'" "\<not> start_depth cx'" "cx_path cx' = (set_children ((kids @ [reread ?it]) @ map reread rest) fa, fs) # up"
      and rr: "reads (tree_env g) (at_state st2 JSON_T_NONE [] (m2 # stk) cx1) (json_print fa0 rest) (at_state OK JSON_T_NONE [] stk cx')"
      using "2.IH"(2) [OF False _ "2.prems"(3) bg "2.prems"(5) h] "2.prems"(2) by auto
    show ?thesis using False e reads_append [OF r reads_append [OF cm rr]] "2.prems"(3) by auto
  qed
qed simp

lemma sendable_printable: "sendable d fa it \<Longrightarrow> json_printable it"
proof (induction d fa it rule: sendable.induct)
  case (1 d fa k s n f t ct ch)
  then show ?case by (cases "ch = []") (auto simp: list_all_iff LLONG_MIN_def split: option.splits)
qed

lemma reads_done:
  assumes "reads E (at_state GO JSON_T_NONE [] [MODE_DONE] cx) s (at_state OK JSON_T_NONE [] [MODE_DONE] cx')"
    and "new_JSON_parser parser_config cx = Some jc"
  shows "\<exists>jc'. orelse_return (parser_chars E jc s) JSON_parser_done = Some (True, jc') \<and> jp_ctx jc' = cx'"
proof -
  have "at_state GO JSON_T_NONE [] [MODE_DONE] cx jc" by (rule new_parser [of cx]) (use assms(2) in \<open>simp add: at_state_def\<close>)
  then obtain jc1 where "parser_chars E jc s = Some (True, jc1)" "at_state OK JSON_T_NONE [] [MODE_DONE] cx' jc1"
    using assms(1) by (auto simp: reads_def)
  then show ?thesis by (auto simp: orelse_return_def JSON_parser_done_def pop_def at_state_def)
qed


definition sample_message :: json_item where
  "sample_message = Item None None 0 0 JSON_T_UNSET JSON_C_T_ARR
     [Item None None 0 0 JSON_T_UNSET JSON_C_T_OBJ
        [Item (Some ''raw'') (Some [CHR 0x22, CHR ''a'', CHR 0x0A]) 0 0 JSON_T_STRING JSON_C_T_NULL [],
         Item (Some ''n'') None (-42) 0 JSON_T_INTEGER JSON_C_T_NULL [],
         Item (Some ''data'') None 0 0 JSON_T_UNSET JSON_C_T_OBJ [Item (Some ''ok'') None 0 0 JSON_T_TRUE JSON_C_T_NULL []]]]"

lemma sample_message_sendable: "sendable 15 None sample_message"
  by code_simp


end
