(* ===== verification/Ape_Digest.thy ===== *)
theory Ape_Digest
  imports Ape_Prelude
begin

text \<open>
  SHA-1 and MD5, from \<open>src/sha1.c\<close> and \<open>src/md5.c\<close>, as the websocket handshake uses them. \<open>unsigned long\<close> has
  64 bits, so the registers keep carries above bit 31 that the result drops. The two files share their
  buffering (\<open>*_update\<close>, \<open>*_finish\<close>), here once with the function that processes a block as an argument. The
  unrolled rounds are a loop: \<open>P(A,B,C,D,E)\<close>, \<open>P(E,A,B,C,D)\<close>, ... is one step on the registers followed by
  their rotation, and after the last round every register is back at its place.

  The references are FIPS 180-1 and RFC 1321 on 32-bit words.
\<close>

unbundle bit_operations_syntax

section \<open>Buffering\<close>

record 'st digest_context =
  total0 :: u64
  total1 :: u64
  dstate :: 'st
  dbuffer :: "u8 list"

text \<open>\<open>memcpy(ctx->buffer + pos, xs, length)\<close>\<close>

definition copy_at :: "nat \<Rightarrow> u8 list \<Rightarrow> u8 list \<Rightarrow> u8 list" where
  "copy_at pos xs buf = take pos buf @ xs @ drop (pos + length xs) buf"

text \<open>The loop over whole blocks of the input.\<close>

fun process_blocks :: "('st \<Rightarrow> u8 list \<Rightarrow> 'st) \<Rightarrow> 'st \<Rightarrow> u8 list \<Rightarrow> 'st \<times> u8 list" where
  "process_blocks process st input =
     (if 64 \<le> length input then process_blocks process (process st (take 64 input)) (drop 64 input) else (st, input))"

declare process_blocks.simps [simp del]

definition digest_update :: "('st \<Rightarrow> u8 list \<Rightarrow> 'st) \<Rightarrow> 'st digest_context \<Rightarrow> u8 list \<Rightarrow> 'st digest_context" where
  "digest_update process ctx input =
     (if input = [] then ctx
      else
        let lft = unat (total0 ctx AND 0x3F);
            fill = 64 - lft;
            t0 = (total0 ctx + of_nat (length input)) AND 0xFFFFFFFF;
            ctx = ctx\<lparr>total0 := t0, total1 := (if t0 < of_nat (length input) then total1 ctx + 1 else total1 ctx)\<rparr>;
            (ctx, input, lft) =
              (if lft \<noteq> 0 \<and> fill \<le> length input then
                 let buf = copy_at lft (take fill input) (dbuffer ctx) in
                 (ctx\<lparr>dbuffer := buf, dstate := process (dstate ctx) buf\<rparr>, drop fill input, 0)
               else (ctx, input, lft));
            (st, input) = process_blocks process (dstate ctx) input in
        ctx\<lparr>dstate := st, dbuffer := (if input \<noteq> [] then copy_at lft input (dbuffer ctx) else dbuffer ctx)\<rparr>)"

definition digest_padding :: "u8 list" where
  "digest_padding = 0x80 # replicate 63 0"

text \<open>\<open>sha1_finish\<close> and \<open>md5_finish\<close> up to the output, with the length in the byte order of the digest.\<close>

definition digest_finish ::
  "('st \<Rightarrow> u8 list \<Rightarrow> 'st) \<Rightarrow> (u64 \<Rightarrow> u64 \<Rightarrow> u8 list) \<Rightarrow> 'st digest_context \<Rightarrow> 'st digest_context" where
  "digest_finish process put_len ctx =
     (let high = drop_bit 29 (total0 ctx) OR push_bit 3 (total1 ctx);
          low = push_bit 3 (total0 ctx);
          lst = unat (total0 ctx AND 0x3F);
          padn = (if lst < 56 then 56 - lst else 120 - lst);
          ctx = digest_update process ctx (take padn digest_padding) in
      digest_update process ctx (put_len high low))"

section \<open>SHA-1\<close>

type_synonym sha1_regs = "u64 \<times> u64 \<times> u64 \<times> u64 \<times> u64"

definition GET_UINT32_BE :: "u8 list \<Rightarrow> nat \<Rightarrow> u64" where
  "GET_UINT32_BE b i = push_bit 24 (ucast (b ! i)) OR push_bit 16 (ucast (b ! (i + 1))) OR
     push_bit 8 (ucast (b ! (i + 2))) OR ucast (b ! (i + 3))"

definition PUT_UINT32_BE :: "u64 \<Rightarrow> u8 list" where
  "PUT_UINT32_BE n = [ucast (drop_bit 24 n), ucast (drop_bit 16 n), ucast (drop_bit 8 n), ucast n]"

definition sha1_starts :: "sha1_regs digest_context" where
  "sha1_starts = \<lparr>total0 = 0, total1 = 0,
     dstate = (0x67452301, 0xEFCDAB89, 0x98BADCFE, 0x10325476, 0xC3D2E1F0), dbuffer = replicate 64 0\<rparr>"

text \<open>The macros \<open>S\<close>, \<open>R\<close>, and \<open>F\<close> and \<open>K\<close> of the four groups of rounds.\<close>

definition rot :: "u64 \<Rightarrow> nat \<Rightarrow> u64" where
  "rot x n = push_bit n x OR drop_bit (32 - n) (x AND 0xFFFFFFFF)"

definition sha1_R :: "nat \<Rightarrow> u64 list \<Rightarrow> u64" where
  "sha1_R t W = rot (W ! ((t - 3) mod 16) XOR W ! ((t - 8) mod 16) XOR W ! ((t - 14) mod 16) XOR W ! (t mod 16)) 1"

definition sha1_F :: "nat \<Rightarrow> u64 \<Rightarrow> u64 \<Rightarrow> u64 \<Rightarrow> u64" where
  "sha1_F t x y z =
     (if t < 20 then z XOR (x AND (y XOR z)) else if t < 40 then x XOR y XOR z
      else if t < 60 then (x AND y) OR (z AND (x OR y)) else x XOR y XOR z)"

definition sha1_K :: "nat \<Rightarrow> u64" where
  "sha1_K t = (if t < 20 then 0x5A827999 else if t < 40 then 0x6ED9EBA1 else if t < 60 then 0x8F1BBCDC else 0xCA62C1D6)"

fun sha1_round :: "nat \<Rightarrow> u64 list \<times> sha1_regs \<Rightarrow> u64 list \<times> sha1_regs" where
  "sha1_round t (W, a, b, c, d, e) =
     (let W = (if t < 16 then W else W[t mod 16 := sha1_R t W]);
          e = e + (rot a 5 + sha1_F t b c d + sha1_K t + W ! (t mod 16)) in
      (W, e, a, rot b 30, c, d))"

fun add5 :: "sha1_regs \<Rightarrow> sha1_regs \<Rightarrow> sha1_regs" where
  "add5 (a, b, c, d, e) (a', b', c', d', e') = (a + a', b + b', c + c', d + d', e + e')"

definition sha1_process :: "sha1_regs \<Rightarrow> u8 list \<Rightarrow> sha1_regs" where
  "sha1_process st data = add5 st (snd (fold sha1_round [0..<80] (map (\<lambda>i. GET_UINT32_BE data (4 * i)) [0..<16], st)))"

definition sha1_update :: "sha1_regs digest_context \<Rightarrow> u8 list \<Rightarrow> sha1_regs digest_context" where
  "sha1_update = digest_update sha1_process"

fun sha1_output :: "sha1_regs \<Rightarrow> u8 list" where
  "sha1_output (a, b, c, d, e) = PUT_UINT32_BE a @ PUT_UINT32_BE b @ PUT_UINT32_BE c @ PUT_UINT32_BE d @ PUT_UINT32_BE e"

definition sha1_finish :: "sha1_regs digest_context \<Rightarrow> u8 list" where
  "sha1_finish ctx = sha1_output (dstate (digest_finish sha1_process (\<lambda>high low. PUT_UINT32_BE high @ PUT_UINT32_BE low) ctx))"

definition sha1_csum :: "u8 list \<Rightarrow> u8 list" where
  "sha1_csum buf = sha1_finish (sha1_update sha1_starts buf)"

text \<open>The keyed digest; only the first 64 bytes of the key are used.\<close>

definition sha1_hmac :: "u8 list \<Rightarrow> u8 list \<Rightarrow> u8 list" where
  "sha1_hmac key buf =
     (let k = take 64 key;
          pad = (\<lambda>c. map (\<lambda>i. if i < length k then c XOR k ! i else c) [0..<64]);
          tmpbuf = sha1_finish (sha1_update (sha1_update sha1_starts (pad 0x36)) buf) in
      sha1_finish (sha1_update (sha1_update sha1_starts (pad 0x5C)) tmpbuf))"

section \<open>MD5\<close>

type_synonym md5_regs = "u64 \<times> u64 \<times> u64 \<times> u64"

definition GET_UINT32 :: "u8 list \<Rightarrow> nat \<Rightarrow> u64" where
  "GET_UINT32 b i = ucast (b ! i) OR push_bit 8 (ucast (b ! (i + 1))) OR push_bit 16 (ucast (b ! (i + 2))) OR
     push_bit 24 (ucast (b ! (i + 3)))"

definition PUT_UINT32 :: "u64 \<Rightarrow> u8 list" where
  "PUT_UINT32 n = [ucast n, ucast (drop_bit 8 n), ucast (drop_bit 16 n), ucast (drop_bit 24 n)]"

definition md5_starts :: "md5_regs digest_context" where
  "md5_starts = \<lparr>total0 = 0, total1 = 0, dstate = (0x67452301, 0xEFCDAB89, 0x98BADCFE, 0x10325476), dbuffer = replicate 64 0\<rparr>"

text \<open>The last three arguments of \<open>P\<close> in each round: word, rotation and constant.\<close>

definition md5_table :: "(nat \<times> nat \<times> u64) list" where
  "md5_table =
    [(0, 7, 0xD76AA478), (1, 12, 0xE8C7B756), (2, 17, 0x242070DB), (3, 22, 0xC1BDCEEE),
     (4, 7, 0xF57C0FAF), (5, 12, 0x4787C62A), (6, 17, 0xA8304613), (7, 22, 0xFD469501),
     (8, 7, 0x698098D8), (9, 12, 0x8B44F7AF), (10, 17, 0xFFFF5BB1), (11, 22, 0x895CD7BE),
     (12, 7, 0x6B901122), (13, 12, 0xFD987193), (14, 17, 0xA679438E), (15, 22, 0x49B40821),
     (1, 5, 0xF61E2562), (6, 9, 0xC040B340), (11, 14, 0x265E5A51), (0, 20, 0xE9B6C7AA),
     (5, 5, 0xD62F105D), (10, 9, 0x02441453), (15, 14, 0xD8A1E681), (4, 20, 0xE7D3FBC8),
     (9, 5, 0x21E1CDE6), (14, 9, 0xC33707D6), (3, 14, 0xF4D50D87), (8, 20, 0x455A14ED),
     (13, 5, 0xA9E3E905), (2, 9, 0xFCEFA3F8), (7, 14, 0x676F02D9), (12, 20, 0x8D2A4C8A),
     (5, 4, 0xFFFA3942), (8, 11, 0x8771F681), (11, 16, 0x6D9D6122), (14, 23, 0xFDE5380C),
     (1, 4, 0xA4BEEA44), (4, 11, 0x4BDECFA9), (7, 16, 0xF6BB4B60), (10, 23, 0xBEBFBC70),
     (13, 4, 0x289B7EC6), (0, 11, 0xEAA127FA), (3, 16, 0xD4EF3085), (6, 23, 0x04881D05),
     (9, 4, 0xD9D4D039), (12, 11, 0xE6DB99E5), (15, 16, 0x1FA27CF8), (2, 23, 0xC4AC5665),
     (0, 6, 0xF4292244), (7, 10, 0x432AFF97), (14, 15, 0xAB9423A7), (5, 21, 0xFC93A039),
     (12, 6, 0x655B59C3), (3, 10, 0x8F0CCC92), (10, 15, 0xFFEFF47D), (1, 21, 0x85845DD1),
     (8, 6, 0x6FA87E4F), (15, 10, 0xFE2CE6E0), (6, 15, 0xA3014314), (13, 21, 0x4E0811A1),
     (4, 6, 0xF7537E82), (11, 10, 0xBD3AF235), (2, 15, 0x2AD7D2BB), (9, 21, 0xEB86D391)]"

definition md5_F :: "nat \<Rightarrow> u64 \<Rightarrow> u64 \<Rightarrow> u64 \<Rightarrow> u64" where
  "md5_F i x y z =
     (if i < 16 then z XOR (x AND (y XOR z)) else if i < 32 then y XOR (z AND (x XOR y))
      else if i < 48 then x XOR y XOR z else y XOR (x OR NOT z))"

fun md5_round :: "u64 list \<Rightarrow> nat \<Rightarrow> md5_regs \<Rightarrow> md5_regs" where
  "md5_round X i (a, b, c, d) =
     (let (k, s, t) = md5_table ! i;
          a = a + (md5_F i b c d + X ! k + t);
          a = rot a s + b in
      (d, a, b, c))"

fun add4 :: "md5_regs \<Rightarrow> md5_regs \<Rightarrow> md5_regs" where
  "add4 (a, b, c, d) (a', b', c', d') = (a + a', b + b', c + c', d + d')"

definition md5_process :: "md5_regs \<Rightarrow> u8 list \<Rightarrow> md5_regs" where
  "md5_process st data = add4 st (fold (md5_round (map (\<lambda>i. GET_UINT32 data (4 * i)) [0..<16])) [0..<64] st)"

definition md5_update :: "md5_regs digest_context \<Rightarrow> u8 list \<Rightarrow> md5_regs digest_context" where
  "md5_update = digest_update md5_process"

fun md5_output :: "md5_regs \<Rightarrow> u8 list" where
  "md5_output (a, b, c, d) = PUT_UINT32 a @ PUT_UINT32 b @ PUT_UINT32 c @ PUT_UINT32 d"

definition md5_finish :: "md5_regs digest_context \<Rightarrow> u8 list" where
  "md5_finish ctx = md5_output (dstate (digest_finish md5_process (\<lambda>high low. PUT_UINT32 low @ PUT_UINT32 high) ctx))"

section \<open>References\<close>

text \<open>FIPS 180-1: the padded message in blocks of 16 big-endian words, 80 words made of them, 80 steps.\<close>

definition std_pad :: "nat \<Rightarrow> u8 list" where
  "std_pad n = 0x80 # replicate ((119 - n mod 64) mod 64) 0"

fun absorb :: "('st \<Rightarrow> u8 list \<Rightarrow> 'st) \<Rightarrow> 'st \<Rightarrow> u8 list \<Rightarrow> 'st" where
  "absorb f st m = (if 64 \<le> length m then absorb f (f st (take 64 m)) (drop 64 m) else st)"

declare absorb.simps [simp del]

definition fips_be32 :: "u8 list \<Rightarrow> nat \<Rightarrow> u32" where
  "fips_be32 b i = word_cat (word_cat (b ! i) (b ! (i + 1)) :: u16) (word_cat (b ! (i + 2)) (b ! (i + 3)) :: u16)"

definition be64 :: "nat \<Rightarrow> u8 list" where
  "be64 n = map (\<lambda>i. of_nat (n div 256 ^ (7 - i))) [0..<8]"

fun fips_W :: "u8 list \<Rightarrow> nat \<Rightarrow> u32" where
  "fips_W b t =
     (if t < 16 then fips_be32 b (4 * t)
      else word_rotl 1 (fips_W b (t - 3) XOR fips_W b (t - 8) XOR fips_W b (t - 14) XOR fips_W b (t - 16)))"

declare fips_W.simps [simp del]

definition fips_f :: "nat \<Rightarrow> u32 \<Rightarrow> u32 \<Rightarrow> u32 \<Rightarrow> u32" where
  "fips_f t B C D =
     (if t < 20 then (B AND C) OR (NOT B AND D) else if t < 40 then B XOR C XOR D
      else if t < 60 then (B AND C) OR (B AND D) OR (C AND D) else B XOR C XOR D)"

definition fips_K :: "nat \<Rightarrow> u32" where
  "fips_K t = (if t < 20 then 0x5A827999 else if t < 40 then 0x6ED9EBA1 else if t < 60 then 0x8F1BBCDC else 0xCA62C1D6)"

type_synonym fips_regs = "u32 \<times> u32 \<times> u32 \<times> u32 \<times> u32"

fun fips_step :: "u8 list \<Rightarrow> nat \<Rightarrow> fips_regs \<Rightarrow> fips_regs" where
  "fips_step b t (A, B, C, D, E) =
     (word_rotl 5 A + fips_f t B C D + E + fips_W b t + fips_K t, A, word_rotl 30 B, C, D)"

fun fips_add :: "fips_regs \<Rightarrow> fips_regs \<Rightarrow> fips_regs" where
  "fips_add (a, b, c, d, e) (a', b', c', d', e') = (a + a', b + b', c + c', d + d', e + e')"

definition fips_block :: "fips_regs \<Rightarrow> u8 list \<Rightarrow> fips_regs" where
  "fips_block H b = fips_add H (fold (fips_step b) [0..<80] H)"

definition be_bytes :: "u32 \<Rightarrow> u8 list" where
  "be_bytes w = map (\<lambda>i. ucast (drop_bit (24 - 8 * i) w)) [0..<4]"

fun fips_out :: "fips_regs \<Rightarrow> u8 list" where
  "fips_out (a, b, c, d, e) = be_bytes a @ be_bytes b @ be_bytes c @ be_bytes d @ be_bytes e"

definition fips_sha1 :: "u8 list \<Rightarrow> u8 list" where
  "fips_sha1 m = fips_out (absorb fips_block (0x67452301, 0xEFCDAB89, 0x98BADCFE, 0x10325476, 0xC3D2E1F0)
     (m @ std_pad (length m) @ be64 (8 * length m)))"

text \<open>RFC 1321, with the rotations and the order of the words as the RFC lists them; the constants, the first 32 bits
  of the sines of 1 to 64, are those of the table.\<close>

definition le32 :: "u8 list \<Rightarrow> nat \<Rightarrow> u32" where
  "le32 b i = word_cat (word_cat (b ! (i + 3)) (b ! (i + 2)) :: u16) (word_cat (b ! (i + 1)) (b ! i) :: u16)"

definition le64 :: "nat \<Rightarrow> u8 list" where
  "le64 n = map (\<lambda>i. of_nat (n div 256 ^ i)) [0..<8]"

definition rfc_f :: "nat \<Rightarrow> u32 \<Rightarrow> u32 \<Rightarrow> u32 \<Rightarrow> u32" where
  "rfc_f i X Y Z =
     (if i < 16 then (X AND Y) OR (NOT X AND Z) else if i < 32 then (X AND Z) OR (Y AND NOT Z)
      else if i < 48 then X XOR Y XOR Z else Y XOR (X OR NOT Z))"

definition rfc_k :: "nat \<Rightarrow> nat" where
  "rfc_k i = (if i < 16 then i else if i < 32 then 5 * i + 1 else if i < 48 then 3 * i + 5 else 7 * i) mod 16"

definition rfc_s :: "nat \<Rightarrow> nat" where
  "rfc_s i = [7, 12, 17, 22, 5, 9, 14, 20, 4, 11, 16, 23, 6, 10, 15, 21] ! (4 * (i div 16) + i mod 4)"

definition rfc_T :: "nat \<Rightarrow> u32" where
  "rfc_T i = ucast (snd (snd (md5_table ! i)))"

type_synonym rfc_regs = "u32 \<times> u32 \<times> u32 \<times> u32"

fun rfc_step :: "u8 list \<Rightarrow> nat \<Rightarrow> rfc_regs \<Rightarrow> rfc_regs" where
  "rfc_step b i (A, B, C, D) =
     (D, B + word_rotl (rfc_s i) (A + rfc_f i B C D + le32 b (4 * rfc_k i) + rfc_T i), B, C)"

fun rfc_add :: "rfc_regs \<Rightarrow> rfc_regs \<Rightarrow> rfc_regs" where
  "rfc_add (a, b, c, d) (a', b', c', d') = (a + a', b + b', c + c', d + d')"

definition rfc_block :: "rfc_regs \<Rightarrow> u8 list \<Rightarrow> rfc_regs" where
  "rfc_block H b = rfc_add H (fold (rfc_step b) [0..<64] H)"

definition le_out :: "u32 \<Rightarrow> u8 list" where
  "le_out w = map (\<lambda>i. ucast (drop_bit (8 * i) w)) [0..<4]"

fun rfc_out :: "rfc_regs \<Rightarrow> u8 list" where
  "rfc_out (a, b, c, d) = le_out a @ le_out b @ le_out c @ le_out d"

definition rfc_md5 :: "u8 list \<Rightarrow> u8 list" where
  "rfc_md5 m = rfc_out (absorb rfc_block (0x67452301, 0xEFCDAB89, 0x98BADCFE, 0x10325476)
     (m @ std_pad (length m) @ le64 (8 * length m)))"

section \<open>Words\<close>

lemma mask32: "(0xFFFFFFFF :: u64) = mask 32" "(0x3F :: u64) = mask 6"
  by (simp_all add: mask_eq_exp_minus_1)

lemma rot_low:
  assumes "0 < n" and "n < 32"
  shows "(ucast (rot x n) :: u32) = word_rotl n (ucast x)"
proof (rule bit_word_eqI)
  fix i
  assume "i < LENGTH(32)"
  then have i: "i < 32" by simp
  show "bit (ucast (rot x n) :: u32) i = bit (word_rotl n (ucast x) :: u32) i"
  proof (cases "n \<le> i")
    case True
    then have eq: "i + 32 - n = (i - n) + 32" by simp
    have "(i + 32 - n) mod 32 = i - n" unfolding eq mod_add_self2 using i by simp
    moreover have "\<not> 32 + i - n < 32" using True by simp
    ultimately show ?thesis using assms i True by (auto simp: rot_def mask32 bit_simps)
  next
    case False
    then have "(i + 32 - n) mod 32 = 32 + i - n" using assms by simp
    then show ?thesis using assms i False by (auto simp: rot_def mask32 bit_simps)
  qed
qed

definition low32 :: "u64 \<Rightarrow> u32" where
  "low32 x = ucast x"

lemma low_add: "low32 (x + y) = low32 x + low32 y"
proof -
  have "take_bit 32 (take_bit 64 a + take_bit 64 b) = take_bit 32 (a + b)" for a b :: int
    using take_bit_add [of 32 "take_bit 64 a" "take_bit 64 b"] take_bit_add [of 32 a b] by simp
  then show ?thesis unfolding low32_def by transfer simp
qed

lemma low_bits:
  "low32 (x AND y) = low32 x AND low32 y" "low32 (x OR y) = low32 x OR low32 y" "low32 (x XOR y) = low32 x XOR low32 y" "low32 (NOT x) = NOT (low32 x)"
  unfolding low32_def by (rule bit_word_eqI, auto simp: bit_simps)+

lemma low_rot: "0 < n \<Longrightarrow> n < 32 \<Longrightarrow> low32 (rot x n) = word_rotl n (low32 x)"
  by (simp add: low32_def rot_low)

lemma low_F: "low32 (sha1_F t x y z) = fips_f t (low32 x) (low32 y) (low32 z)"
proof -
  have "z XOR (x AND (y XOR z)) = (x AND y) OR (NOT x AND z)" "(x AND y) OR (z AND (x OR y)) = (x AND y) OR (x AND z) OR (y AND z)" for x y z :: u32
    by (rule bit_word_eqI, auto simp: bit_simps)+
  then show ?thesis by (simp add: sha1_F_def fips_f_def low_bits)
qed

lemma low_K: "low32 (sha1_K t) = fips_K t"
  by (simp add: sha1_K_def fips_K_def low32_def)

lemma low_GET: "low32 (GET_UINT32_BE b i) = fips_be32 b i"
  unfolding low32_def GET_UINT32_BE_def fips_be32_def by (rule bit_word_eqI) (auto simp: bit_simps dest: bit_imp_le_length)

lemma PUT_low: "PUT_UINT32_BE x = be_bytes (low32 x)"
  unfolding PUT_UINT32_BE_def be_bytes_def low32_def
  by (simp add: upt_rec) (intro conjI; rule bit_word_eqI; auto simp: bit_simps)

section \<open>A block of SHA-1\<close>

fun low5 :: "sha1_regs \<Rightarrow> fips_regs" where
  "low5 (a, b, c, d, e) = (low32 a, low32 b, low32 c, low32 d, low32 e)"

text \<open>After \<open>t\<close> rounds the array holds the last 16 words of the schedule, each at its index modulo 16.\<close>

definition sha1_schedule :: "u8 list \<Rightarrow> nat \<Rightarrow> u64 list \<Rightarrow> bool" where
  "sha1_schedule b t W \<longleftrightarrow> length W = 16 \<and> (\<forall>i < max t 16. t \<le> i + 16 \<longrightarrow> low32 (W ! (i mod 16)) = fips_W b i)"

lemma schedule_step:
  assumes "sha1_schedule b t W" and "W' = (if t < 16 then W else W[t mod 16 := sha1_R t W])"
  shows "sha1_schedule b (Suc t) W'" and "low32 (W' ! (t mod 16)) = fips_W b t"
proof -
  have W: "length W = 16" "\<And>i. i < max t 16 \<Longrightarrow> t \<le> i + 16 \<Longrightarrow> low32 (W ! (i mod 16)) = fips_W b i" using assms(1) by (auto simp: sha1_schedule_def)
  show new: "low32 (W' ! (t mod 16)) = fips_W b t"
  proof (cases "t < 16")
    case True
    then show ?thesis using W(2) [of t] assms(2) by simp
  next
    case False
    have "(t - 16) mod 16 = t mod 16" using False by (simp add: le_mod_geq)
    then have "low32 (W ! (t mod 16)) = fips_W b (t - 16)" using W(2) [of "t - 16"] False by simp
    then have "low32 (sha1_R t W) = fips_W b t" using False W(2) [of "t - 3"] W(2) [of "t - 8"] W(2) [of "t - 14"]
      by (simp add: sha1_R_def low_rot low_bits fips_W.simps [of b t])
    then show ?thesis using False W(1) assms(2) by simp
  qed
  have "low32 (W' ! (i mod 16)) = fips_W b i" if i: "i < max (Suc t) 16" "Suc t \<le> i + 16" for i
  proof (cases "i = t")
    case False
    then have i': "i < max t 16" "t \<le> i + 16" using i by auto
    have "i mod 16 \<noteq> t mod 16" if "\<not> t < 16"
    proof
      assume eq: "i mod 16 = t mod 16"
      have "i < t" "t - i < 16" using i' i that False by auto
      then have "(t - i) mod 16 = t - i" "0 < t - i" by auto
      moreover have "(t - i) mod 16 = 0" using eq \<open>i < t\<close> by (metis less_imp_le mod_eq_dvd_iff_nat mod_0_imp_dvd dvd_imp_mod_0)
      ultimately show False by simp
    qed
    then show ?thesis using W(2) [OF i'] assms(2) by (auto simp: nth_list_update)
  qed (use new in simp)
  then show "sha1_schedule b (Suc t) W'" using W(1) assms(2) by (simp add: sha1_schedule_def)
qed

lemma round_low:
  assumes "sha1_schedule b t W"
  shows "sha1_schedule b (Suc t) (fst (sha1_round t (W, r)))" and "low5 (snd (sha1_round t (W, r))) = fips_step b t (low5 r)"
proof -
  obtain A B C D E where r: "r = (A, B, C, D, E)" by (metis surj_pair)
  note st = schedule_step [OF assms refl]
  show "sha1_schedule b (Suc t) (fst (sha1_round t (W, r)))" using st(1) by (simp add: r Let_def)
  show "low5 (snd (sha1_round t (W, r))) = fips_step b t (low5 r)" using st(2) by (simp add: r Let_def low_add low_rot low_F low_K ac_simps)
qed

lemma rounds_low:
  "sha1_schedule b 0 W \<Longrightarrow> sha1_schedule b n (fst (fold sha1_round [0..<n] (W, r))) \<and> low5 (snd (fold sha1_round [0..<n] (W, r))) = fold (fips_step b) [0..<n] (low5 r)"
proof (induction n)
  case (Suc n)
  obtain W' r' where s: "fold sha1_round [0..<n] (W, r) = (W', r')" by (rule prod.exhaust)
  then show ?case using Suc round_low [of b n W' r'] by simp
qed simp

lemma process_low:
  assumes "length b = 64"
  shows "low5 (sha1_process st b) = fips_block (low5 st) b"
proof -
  have "sha1_schedule b 0 (map (\<lambda>i. GET_UINT32_BE b (4 * i)) [0..<16])" by (simp add: sha1_schedule_def low_GET fips_W.simps)
  note r = rounds_low [OF this, of 80 st]
  have "low5 (add5 x y) = fips_add (low5 x) (low5 y)" for x y by (cases x; cases y) (auto simp: low_add)
  then show ?thesis using r by (simp add: sha1_process_def fips_block_def)
qed

lemma absorb_low:
  "low5 (absorb sha1_process st m) = absorb fips_block (low5 st) m"
proof (induction sha1_process st m rule: absorb.induct)
  case (1 st m)
  then show ?case by (simp add: absorb.simps [of _ _ m] process_low)
qed

section \<open>A block of MD5\<close>

fun low4 :: "md5_regs \<Rightarrow> rfc_regs" where
  "low4 (a, b, c, d) = (low32 a, low32 b, low32 c, low32 d)"

lemma low_md5_F: "low32 (md5_F i x y z) = rfc_f i (low32 x) (low32 y) (low32 z)"
proof -
  have "z XOR (x AND (y XOR z)) = (x AND y) OR (NOT x AND z)" "y XOR (z AND (x XOR y)) = (x AND z) OR (y AND NOT z)" for x y z :: u32
    by (rule bit_word_eqI, auto simp: bit_simps)+
  then show ?thesis by (simp add: md5_F_def rfc_f_def low_bits)
qed

lemma low_GET_LE: "low32 (GET_UINT32 b i) = le32 b i"
  unfolding low32_def GET_UINT32_def le32_def by (rule bit_word_eqI) (auto simp: bit_simps dest: bit_imp_le_length)

lemma PUT_low_LE: "PUT_UINT32 x = le_out (low32 x)"
  unfolding PUT_UINT32_def le_out_def low32_def
  by (simp add: upt_rec) (intro conjI; rule bit_word_eqI; auto simp: bit_simps)

lemma md5_table_rfc: "map (\<lambda>(k, s, t). (k, s)) md5_table = map (\<lambda>i. (rfc_k i, rfc_s i)) [0..<64]"
  by code_simp

lemma md5_table_row:
  assumes "i < 64"
  shows "md5_table ! i = (rfc_k i, rfc_s i, snd (snd (md5_table ! i)))"
proof -
  have "length md5_table = 64" by (simp add: md5_table_def)
  then have "(\<lambda>(k, s, t). (k, s)) (md5_table ! i) = (rfc_k i, rfc_s i)"
    using arg_cong [OF md5_table_rfc, of "\<lambda>l. l ! i"] assms by simp
  then show ?thesis by (cases "md5_table ! i") simp
qed

lemma rfc_s_range: "0 < rfc_s i \<and> rfc_s i < 32" if "i < 64"
proof -
  have "list_all (\<lambda>i. 0 < rfc_s i \<and> rfc_s i < 32) [0..<64]" by code_simp
  then show ?thesis using that by (simp add: list_all_iff)
qed

lemma md5_round_low:
  assumes "i < 64" and X: "X = map (\<lambda>i. GET_UINT32 b (4 * i)) [0..<16]"
  shows "low4 (md5_round X i r) = rfc_step b i (low4 r)"
proof -
  obtain A B C D where r: "r = (A, B, C, D)" by (metis surj_pair)
  have "rfc_k i < 16" by (simp add: rfc_k_def)
  then show ?thesis using rfc_s_range [OF assms(1)] md5_table_row [OF assms(1)]
    by (cases "md5_table ! i") (simp add: r X rfc_T_def low_add low_rot low_md5_F low_GET_LE ac_simps flip: low32_def)
qed

lemma md5_rounds_low:
  "n \<le> 64 \<Longrightarrow> X = map (\<lambda>i. GET_UINT32 b (4 * i)) [0..<16] \<Longrightarrow> low4 (fold (md5_round X) [0..<n] r) = fold (rfc_step b) [0..<n] (low4 r)"
proof (induction n)
  case (Suc n)
  then show ?case using md5_round_low [of n X b] by simp
qed simp

lemma md5_process_low: "low4 (md5_process st b) = rfc_block (low4 st) b"
proof -
  have "low4 (add4 x y) = rfc_add (low4 x) (low4 y)" for x y by (cases x; cases y) (auto simp: low_add)
  then show ?thesis using md5_rounds_low [OF order_refl refl, of b st] by (simp only: md5_process_def rfc_block_def)
qed

lemma absorb_low_md5: "low4 (absorb md5_process st m) = absorb rfc_block (low4 st) m"
proof (induction md5_process st m rule: absorb.induct)
  case (1 st m)
  then show ?case by (simp add: absorb.simps [of _ _ m] md5_process_low)
qed

section \<open>Streaming\<close>

definition digest_rest :: "u8 list \<Rightarrow> u8 list" where
  "digest_rest m = drop (length m - length m mod 64) m"

lemma rest_length [simp]: "length (digest_rest m) = length m mod 64"
  by (simp add: digest_rest_def)

text \<open>The context after the bytes \<open>m\<close>, in whatever pieces: whole blocks are processed, the rest is in the buffer.\<close>

definition digest_fed :: "('st \<Rightarrow> u8 list \<Rightarrow> 'st) \<Rightarrow> 'st \<Rightarrow> u8 list \<Rightarrow> 'st digest_context \<Rightarrow> bool" where
  "digest_fed f st0 m ctx \<longleftrightarrow> dstate ctx = absorb f st0 m \<and> length (dbuffer ctx) = 64 \<and>
     take (length m mod 64) (dbuffer ctx) = digest_rest m \<and>
     total0 ctx = of_nat (length m) \<and> total1 ctx = 0"

lemma absorb_short: "length m < 64 \<Longrightarrow> absorb f st m = st"
  by (simp add: absorb.simps)

lemma absorb_block: "length b = 64 \<Longrightarrow> absorb f st (b @ m) = absorb f (f st b) m"
  by (simp add: absorb.simps [of f st])

lemma absorb_append:
  "64 dvd length a \<Longrightarrow> absorb f st (a @ b) = absorb f (absorb f st a) b"
proof (induction f st a rule: absorb.induct)
  case (1 f st a)
  show ?case
  proof (cases "64 \<le> length a")
    case True
    have "64 dvd length (drop 64 a)" using "1.prems" by (simp add: dvd_diff_nat)
    then have "absorb f (f st (take 64 a)) (drop 64 a @ b) = absorb f (absorb f (f st (take 64 a)) (drop 64 a)) b" using 1(1) True by blast
    moreover have e: "a @ b = take 64 a @ drop 64 a @ b" by (metis append.assoc append_take_drop_id)
    ultimately show ?thesis unfolding e using True absorb_block [of "take 64 a" f st "drop 64 a @ b"] by (simp add: absorb.simps [of f st a])
  next
    case False
    then have "a = []" using "1.prems" by (cases "length a") (auto dest: dvd_imp_le)
    then show ?thesis by (simp add: absorb_short)
  qed
qed

lemma absorb_rest: "absorb f st (m @ x) = absorb f (absorb f st m) (drop (length m - length m mod 64) m @ x)"
proof -
  let ?n = "length m - length m mod 64"
  have n: "64 dvd ?n" by (rule dvd_minus_mod)
  have m: "m = take ?n m @ drop ?n m" by simp
  have l: "length (take ?n m) = ?n" "length (drop ?n m) < 64" by (simp_all)
  have "absorb f st m = absorb f (absorb f st (take ?n m)) (drop ?n m)"
    using absorb_append [of "take ?n m" f st "drop ?n m"] n l(1) by simp
  then have "absorb f st m = absorb f st (take ?n m)" using absorb_short [OF l(2)] by simp
  then show ?thesis using absorb_append [of "take ?n m" f st "drop ?n m @ x"] n l(1) by (metis append.assoc append_take_drop_id)
qed

lemma process_blocks_absorb:
  "process_blocks f st m = (absorb f st m, drop (length m - length m mod 64) m)"
proof (induction f st m rule: process_blocks.induct)
  case (1 f st m)
  show ?case
  proof (cases "64 \<le> length m")
    case True
    have "length (drop 64 m) mod 64 = length m mod 64" using True by (simp add: le_mod_geq)
    moreover have "64 + (length m - 64 - length m mod 64) = length m - length m mod 64" using True mod_le_divisor [of 64 "length m"] mod_less_eq_dividend [of "length m - 64" 64]
      by (simp add: le_mod_geq)
    ultimately show ?thesis using 1 True by (simp add: process_blocks.simps [of f st m] absorb.simps [of f st m] add.commute)
  next
    case False
    then show ?thesis by (simp add: process_blocks.simps [of f st m] absorb.simps [of f st m])
  qed
qed

lemma rest_blocks:
  assumes "64 dvd length p"
  shows "digest_rest (p @ y) = digest_rest y"
proof -
  have mod: "length (p @ y) mod 64 = length y mod 64" using assms by (simp add: mod_add_left_eq dvd_eq_mod_eq_0 flip: mod_add_left_eq)
  have "length y mod 64 \<le> length y" by (rule mod_less_eq_dividend)
  then have "length (p @ y) - length (p @ y) mod 64 = length p + (length y - length y mod 64)" unfolding mod by simp
  then show ?thesis by (simp add: digest_rest_def)
qed

lemma blocks_rest: "take (length m - length m mod 64) m @ digest_rest m = m" "64 dvd length (take (length m - length m mod 64) m)"
  by (simp_all add: digest_rest_def dvd_minus_mod)

lemma rest_append: "digest_rest (m @ x) = digest_rest (digest_rest m @ x)"
  using rest_blocks [OF blocks_rest(2) [of m], of "digest_rest m @ x"] blocks_rest(1) [of m] by (metis append.assoc)

lemma rest_short: "length m < 64 \<Longrightarrow> digest_rest m = m"
  by (simp add: digest_rest_def)

lemma copy_at_take: "length buf = 64 \<Longrightarrow> pos + length xs \<le> 64 \<Longrightarrow> take (pos + length xs) (copy_at pos xs buf) = take pos buf @ xs \<and> length (copy_at pos xs buf) = 64"
  by (simp add: copy_at_def)

text \<open>The body of \<open>digest_update\<close> on a buffer that holds the bytes \<open>r\<close>.\<close>

lemma fill_buffer:
  assumes buf: "length buf = 64" "take (length r) buf = r" and r: "length r < 64" "64 - length r \<le> length x"
  shows "copy_at (length r) (take (64 - length r) x) buf = r @ take (64 - length r) x"
  using assms by (simp add: copy_at_def)

lemma keep_rest:
  assumes buf: "length buf = 64" "take (length r) buf = r" and r: "length r < 64" and x: "length r = 0 \<or> length r + length x < 64"
  defines "buf' \<equiv> (if digest_rest x \<noteq> [] then copy_at (length r) (digest_rest x) buf else buf)"
  shows "length buf' = 64 \<and> take (length (digest_rest (r @ x))) buf' = digest_rest (r @ x) \<and> absorb f st x = absorb f st (r @ x)"
proof (cases "length r = 0")
  case True
  have "length (digest_rest x) \<le> 64" by (simp add: less_imp_le)
  then show ?thesis using True buf copy_at_take [of buf 0 "digest_rest x"] by (auto simp: buf'_def)
next
  case False
  then have l: "length r + length x < 64" using x by simp
  then have rs: "digest_rest x = x" "digest_rest (r @ x) = r @ x" by (auto intro!: rest_short)
  have "absorb f st x = absorb f st (r @ x)" using l by (simp add: absorb_short)
  then show ?thesis unfolding buf'_def rs using buf l copy_at_take [of buf "length r" x] by (cases "x = []") simp_all
qed

lemma unat_small: "n < 2 ^ 32 \<Longrightarrow> unat (of_nat n :: u64) = n"
  by (simp add: unsigned_of_nat take_bit_nat_eq_self)

lemma low6: "n < 2 ^ 32 \<Longrightarrow> unat (of_nat n AND 0x3F :: u64) = n mod 64"
  unfolding mask32 take_bit_eq_mask [symmetric] unsigned_take_bit_eq by (simp only: unat_small take_bit_eq_mod) simp

lemma total_sum:
  assumes "n + k < 2 ^ 32"
  shows "(of_nat n + of_nat k :: u64) AND 0xFFFFFFFF = of_nat n + of_nat k" and "\<not> (of_nat n + of_nat k :: u64) < of_nat k"
proof -
  have k: "k < 2 ^ 32" using assms by simp
  show "(of_nat n + of_nat k :: u64) AND 0xFFFFFFFF = of_nat n + of_nat k"
    unfolding mask32 take_bit_eq_mask [symmetric] of_nat_add [symmetric]
    by (rule word_unat_eq_iff [THEN iffD2]) (simp only: unsigned_take_bit_eq unat_small [OF assms], simp only: take_bit_eq_mod mod_less [OF assms])
  show "\<not> (of_nat n + of_nat k :: u64) < of_nat k"
    unfolding of_nat_add [symmetric] word_less_nat_alt unat_small [OF assms] unat_small [OF k] by simp
qed

lemma update_fed:
  assumes f: "digest_fed g st0 m ctx" and len: "length m + length x < 2 ^ 32"
  shows "digest_fed g st0 (m @ x) (digest_update g ctx x)"
proof (cases "x = []")
  case True
  then show ?thesis using f by (simp add: digest_update_def)
next
  case False
  let ?r = "digest_rest m" and ?buf = "dbuffer ctx" and ?S = "dstate ctx"
  have c: "?S = absorb g st0 m" "length ?buf = 64" "take (length ?r) ?buf = ?r" "total0 ctx = of_nat (length m)" "total1 ctx = 0" "length ?r < 64"
    using f by (simp_all add: digest_fed_def)
  have l: "unat (of_nat (length m) AND 0x3F :: u64) = length ?r" using low6 [of "length m"] len by simp
  note t = total_sum [OF len]
  have done_: "digest_fed g st0 (m @ x) ctx'" if "dstate ctx' = absorb g ?S (?r @ x)" "length (dbuffer ctx') = 64"
    "take (length (digest_rest (?r @ x))) (dbuffer ctx') = digest_rest (?r @ x)" "total0 ctx' = of_nat (length m) + of_nat (length x)" "total1 ctx' = 0" for ctx'
    using that absorb_rest [of g st0 m x, folded digest_rest_def] rest_append [of m x] rest_length [of "m @ x"] c(1) by (simp add: digest_fed_def)
  show ?thesis
  proof (cases "length ?r \<noteq> 0 \<and> 64 - length ?r \<le> length x")
    case True
    let ?y = "take (64 - length ?r) x" and ?z = "drop (64 - length ?r) x"
    have p: "copy_at (length ?r) ?y ?buf = ?r @ ?y" by (rule fill_buffer) (use True c in simp_all)
    have lb: "length (?r @ ?y) = 64" using True c(6) by simp
    note k = keep_rest [of "?r @ ?y" "[]" ?z g "g ?S (?r @ ?y)", unfolded list.size(3)]
    have e: "?r @ x = (?r @ ?y) @ ?z" by simp
    have "absorb g ?S (?r @ x) = absorb g (g ?S (?r @ ?y)) ?z" unfolding e by (rule absorb_block [OF lb])
    moreover have "digest_rest (?r @ x) = digest_rest ?z" unfolding e by (rule rest_blocks) (simp only: lb dvd_refl)
    ultimately show ?thesis using True False k lb t c(4,5)
      by (intro done_) (simp_all add: digest_update_def Let_def l p process_blocks_absorb digest_rest_def [symmetric] del: rest_length split: if_splits)
  next
    case nf: False
    have "length ?r = 0 \<or> length ?r + length x < 64" using nf by auto
    note k = keep_rest [OF c(2,3,6) this, of g ?S]
    show ?thesis unfolding digest_update_def Let_def c(4) l if_not_P [OF nf] using False k t c(5)
      by (intro done_) (simp_all add: process_blocks_absorb digest_rest_def [symmetric] del: rest_length split: if_splits)
  qed
qed

text \<open>The padding brings the message to a multiple of the block size.\<close>

lemma finish_fed:
  assumes f: "digest_fed g st0 m ctx" and len: "length m + 72 < 2 ^ 32" and pl: "\<And>h l. length (pl h l) = 8"
  shows "dstate (digest_finish g pl ctx) = absorb g st0 (m @ std_pad (length m) @ pl (drop_bit 29 (of_nat (length m))) (push_bit 3 (of_nat (length m))))"
proof -
  have c: "total0 ctx = of_nat (length m)" "total1 ctx = 0" using f by (simp_all add: digest_fed_def)
  let ?l = "length m mod 64"
  let ?p = "if ?l < 56 then 56 - ?l else 120 - ?l"
  have l: "unat (total0 ctx AND 0x3F) = ?l" using low6 [of "length m"] len c(1) by simp
  have l64: "?l < 64" by simp
  then have "?p = Suc ((119 - ?l) mod 64)" by (auto simp: le_mod_geq Suc_diff_le)
  moreover have "(119 - ?l) mod 64 \<le> 63" using mod_less_divisor [of 64 "119 - ?l"] by linarith
  ultimately have p: "take ?p digest_padding = std_pad (length m)" by (simp only: digest_padding_def std_pad_def take_Suc_Cons take_replicate min_absorb1)
  have plen: "length (std_pad (length m)) \<le> 64" using mod_less_divisor [of 64 "119 - ?l"] by (simp add: std_pad_def Suc_le_eq)
  have f1: "digest_fed g st0 (m @ std_pad (length m)) (digest_update g ctx (std_pad (length m)))" by (rule update_fed [OF f]) (use len plen in linarith)
  have "digest_fed g st0 ((m @ std_pad (length m)) @ pl h w) (digest_update g (digest_update g ctx (std_pad (length m))) (pl h w))" for h w
    by (rule update_fed [OF f1]) (use len plen pl in simp)
  then show ?thesis using c unfolding digest_finish_def Let_def l p by (simp add: digest_fed_def)
qed

lemma starts_fed: "digest_fed g st [] \<lparr>total0 = 0, total1 = 0, dstate = st, dbuffer = replicate 64 0\<rparr>"
  by (simp add: digest_fed_def absorb_short digest_rest_def)

lemma drop_of_nat: "n < 2 ^ 64 \<Longrightarrow> drop_bit k (of_nat n :: u64) = of_nat (n div 2 ^ k)"
proof -
  assume n: "n < 2 ^ 64"
  have u: "unat (of_nat i :: u64) = i" if "i \<le> n" for i using that n by (simp add: unsigned_of_nat take_bit_nat_eq_self)
  have "unat (drop_bit k (of_nat n :: u64)) = n div 2 ^ k" by (simp only: unat_drop_bit_eq u le_refl) (rule drop_bit_eq_div)
  also have "\<dots> = unat (of_nat (n div 2 ^ k) :: u64)" by (rule u [symmetric]) simp
  finally show ?thesis by (rule word_unat_eq_iff [THEN iffD2])
qed

lemma ucast_of_nat: "ucast (of_nat n :: u64) = (of_nat n :: u8)"
  by (rule bit_word_eqI) (simp add: bit_simps)

lemma length_bytes:
  assumes "n < 2 ^ 32"
  shows "PUT_UINT32_BE (drop_bit 29 (of_nat n)) @ PUT_UINT32_BE (push_bit 3 (of_nat n)) = be64 (8 * n)"
proof -
  have p: "push_bit 3 (of_nat n :: u64) = of_nat (8 * n)" by (simp add: push_bit_eq_mult)
  have h: "drop_bit 29 (of_nat n :: u64) = of_nat (8 * n div 2 ^ 32)"
    using drop_of_nat [of n 29] assms div_mult_mult1 [of 8 n "2 ^ 29"] by simp
  have d: "(ucast (drop_bit k (of_nat m :: u64)) :: u8) = of_nat (m div 2 ^ k)" if "m \<le> 8 * n" for k m
    using that assms by (simp add: drop_of_nat ucast_of_nat)
  have m: "8 * n div 2 ^ 32 \<le> 8 * n" by simp
  show ?thesis unfolding p h PUT_UINT32_BE_def be64_def
    using d [OF m, of 24] d [OF m, of 16] d [OF m, of 8] d [OF le_refl, of 24] d [OF le_refl, of 16] d [OF le_refl, of 8]
    by (simp add: upt_rec ucast_of_nat ucast_of_nat [of "8 * n", simplified] div_mult2_eq [symmetric])
qed

lemma length_bytes_LE:
  assumes "n < 2 ^ 32"
  shows "PUT_UINT32 (push_bit 3 (of_nat n)) @ PUT_UINT32 (drop_bit 29 (of_nat n)) = le64 (8 * n)"
proof -
  have "PUT_UINT32 x = rev (PUT_UINT32_BE x)" for x by (simp add: PUT_UINT32_def PUT_UINT32_BE_def)
  moreover have "le64 k = rev (be64 k)" for k by (simp add: le64_def be64_def upt_rec)
  ultimately show ?thesis by (simp add: length_bytes [OF assms, symmetric])
qed

lemma pieces_fed:
  "digest_fed g st0 m ctx \<Longrightarrow> length m + length (concat xs) < 2 ^ 32 \<Longrightarrow>
     digest_fed g st0 (m @ concat xs) (fold (\<lambda>x c. digest_update g c x) xs ctx)"
proof (induction xs arbitrary: m ctx)
  case (Cons x xs)
  have "digest_fed g st0 (m @ x) (digest_update g ctx x)" by (rule update_fed [OF Cons.prems(1)]) (use Cons.prems(2) in simp)
  from Cons.IH [OF this] Cons.prems(2) show ?case by simp
qed simp

section \<open>The digests\<close>

text \<open>Bytes that come in pieces have the digest of their concatenation, as FIPS 180-1 and RFC 1321 define it.\<close>

lemma sha1_pieces:
  assumes "length (concat xs) + 72 < 2 ^ 32"
  shows "sha1_finish (fold (\<lambda>x c. sha1_update c x) xs sha1_starts) = fips_sha1 (concat xs)"
proof -
  let ?st = "(0x67452301, 0xEFCDAB89, 0x98BADCFE, 0x10325476, 0xC3D2E1F0) :: sha1_regs"
  let ?pl = "\<lambda>h l. PUT_UINT32_BE h @ PUT_UINT32_BE l" and ?m = "concat xs"
  let ?ctx = "fold (\<lambda>x c. sha1_update c x) xs sha1_starts"
  have "digest_fed sha1_process ?st ?m ?ctx"
    using pieces_fed [OF starts_fed [of sha1_process ?st], of xs] assms by (simp add: sha1_update_def sha1_starts_def)
  from finish_fed [OF this assms, of ?pl] have "dstate (digest_finish sha1_process ?pl ?ctx) =
      absorb sha1_process ?st (?m @ std_pad (length ?m) @ be64 (8 * length ?m))"
    using length_bytes [of "length ?m"] assms by (simp add: PUT_UINT32_BE_def)
  moreover have "sha1_output r = fips_out (low5 r)" for r by (cases r) (simp add: PUT_low)
  ultimately show ?thesis by (simp add: sha1_finish_def fips_sha1_def absorb_low) (simp add: low32_def)
qed

lemma md5_pieces:
  assumes "length (concat xs) + 72 < 2 ^ 32"
  shows "md5_finish (fold (\<lambda>x c. md5_update c x) xs md5_starts) = rfc_md5 (concat xs)"
proof -
  let ?st = "(0x67452301, 0xEFCDAB89, 0x98BADCFE, 0x10325476) :: md5_regs"
  let ?pl = "\<lambda>h l. PUT_UINT32 l @ PUT_UINT32 h" and ?m = "concat xs"
  let ?ctx = "fold (\<lambda>x c. md5_update c x) xs md5_starts"
  have "digest_fed md5_process ?st ?m ?ctx"
    using pieces_fed [OF starts_fed [of md5_process ?st], of xs] assms by (simp add: md5_update_def md5_starts_def)
  from finish_fed [OF this assms, of ?pl] have "dstate (digest_finish md5_process ?pl ?ctx) =
      absorb md5_process ?st (?m @ std_pad (length ?m) @ le64 (8 * length ?m))"
    using length_bytes_LE [of "length ?m"] assms by (simp add: PUT_UINT32_def)
  moreover have "md5_output r = rfc_out (low4 r)" for r by (cases r) (simp add: PUT_low_LE)
  ultimately show ?thesis by (simp add: md5_finish_def rfc_md5_def absorb_low_md5) (simp add: low32_def)
qed

lemma sha1_csum_fips: "length buf + 72 < 2 ^ 32 \<Longrightarrow> sha1_csum buf = fips_sha1 buf"
  using sha1_pieces [of "[buf]"] by (simp add: sha1_csum_def)

lemma fips_sha1_length [simp]: "length (fips_sha1 m) = 20"
proof -
  have "length (fips_out r) = 20" for r by (cases r) (simp add: be_bytes_def)
  then show ?thesis by (simp add: fips_sha1_def)
qed

text \<open>The keyed digest is that of RFC 2104 when the key fits into a block.\<close>

definition rfc_hmac :: "u8 list \<Rightarrow> u8 list \<Rightarrow> u8 list" where
  "rfc_hmac key m =
     (let k = (if length key \<le> 64 then key else fips_sha1 key);
          k = k @ replicate (64 - length k) 0 in
      fips_sha1 (map ((XOR) 0x5C) k @ fips_sha1 (map ((XOR) 0x36) k @ m)))"

lemma sha1_hmac_rfc:
  assumes "length key \<le> 64" and "length buf + 136 < 2 ^ 32"
  shows "sha1_hmac key buf = rfc_hmac key buf"
proof -
  let ?k = "key @ replicate (64 - length key) 0"
  have pad: "map (\<lambda>i. if i < length (take 64 key) then c XOR take 64 key ! i else c) [0..<64] = map ((XOR) c) ?k" for c
    using assms(1) by (intro nth_equalityI) (auto simp: nth_append)
  have "sha1_finish (sha1_update (sha1_update sha1_starts x) y) = fips_sha1 (x @ y)" if "length x + length y + 72 < 2 ^ 32" for x y
    using sha1_pieces [of "[x, y]"] that by simp
  then show ?thesis using assms unfolding sha1_hmac_def rfc_hmac_def Let_def pad by simp
qed

end
