(* ===== verification/Ape_Base64.thy ===== *)
theory Ape_Base64
  imports Ape_Utils
begin

text \<open>
  Base64, from \<open>src/base64.c\<close>: the table driven decoder, the encoder with its bit buffer, the standard
  encoding in groups of three bytes as the reference, and the round trip. A buffer of bytes is a list of
  \<open>u8\<close>, text is a string.
\<close>

section \<open>Operations\<close>

definition b64 :: string where
  "b64 = ''ABCDEFGHIJKLMNOPQRSTUVWXYZabcdefghijklmnopqrstuvwxyz0123456789+/''"

definition map2 :: "nat list" where
  "map2 =
    [0x3e, 0xff, 0xff, 0xff, 0x3f, 0x34, 0x35, 0x36,
     0x37, 0x38, 0x39, 0x3a, 0x3b, 0x3c, 0x3d, 0xff,
     0xff, 0xff, 0xff, 0xff, 0xff, 0xff, 0x00, 0x01,
     0x02, 0x03, 0x04, 0x05, 0x06, 0x07, 0x08, 0x09,
     0x0a, 0x0b, 0x0c, 0x0d, 0x0e, 0x0f, 0x10, 0x11,
     0x12, 0x13, 0x14, 0x15, 0x16, 0x17, 0x18, 0x19,
     0xff, 0xff, 0xff, 0xff, 0xff, 0xff, 0x1a, 0x1b,
     0x1c, 0x1d, 0x1e, 0x1f, 0x20, 0x21, 0x22, 0x23,
     0x24, 0x25, 0x26, 0x27, 0x28, 0x29, 0x2a, 0x2b,
     0x2c, 0x2d, 0x2e, 0x2f, 0x30, 0x31, 0x32, 0x33]"

text \<open>\<open>map2[in[i] - 43]\<close>; the difference is unsigned, so characters before \<open>+\<close> and beyond ASCII are out of range.\<close>

definition map2_at :: "char \<Rightarrow> nat option" where
  "map2_at c =
     (let n = of_char c :: nat in
      if 43 \<le> n \<and> n - 43 < length map2 \<and> map2 ! (n - 43) \<noteq> 0xff then Some (map2 ! (n - 43)) else None)"

text \<open>The loop of \<open>base64_decode\<close>; \<open>None\<close> is the result -1.\<close>

fun base64_decode_loop :: "nat \<Rightarrow> u32 \<Rightarrow> u8 list \<Rightarrow> nat \<Rightarrow> string \<Rightarrow> u8 list option" where
  "base64_decode_loop i v out out_length [] = Some out"
| "base64_decode_loop i v out out_length (c # cs) =
     (if c = CHR ''='' then Some out
      else case map2_at c of
        None \<Rightarrow> None
      | Some x \<Rightarrow>
          (let v = push_bit 6 v + of_nat x in
           base64_decode_loop (Suc i) v
             (if i mod 4 \<noteq> 0 \<and> length out < out_length
              then out @ [ucast (signed_drop_bit (6 - 2 * (i mod 4)) v)] else out) out_length cs))"

definition base64_decode :: "string \<Rightarrow> nat \<Rightarrow> u8 list option" where
  "base64_decode inp out_length = base64_decode_loop 0 0 [] out_length inp"

text \<open>The inner loop of \<open>base64_encode\<close>; \<open>i_bits << 6 >> i_shift\<close>, where the shift may have become 0 at the end.\<close>

definition sextet :: "u32 \<Rightarrow> nat \<Rightarrow> char" where
  "sextet i_bits i_shift = b64 ! unat (drop_bit i_shift (push_bit 6 i_bits) AND 0x3f)"

fun emit :: "u32 \<Rightarrow> int \<Rightarrow> bool \<Rightarrow> string \<Rightarrow> int \<times> string" where
  "emit i_bits i_shift final dst =
     (let dst = dst @ [sextet i_bits (nat i_shift)]; i_shift = i_shift - 6 in
      if i_shift > 6 \<or> final \<and> i_shift > 0 then emit i_bits i_shift final dst else (i_shift, dst))"

fun base64_encode_loop :: "u32 \<Rightarrow> int \<Rightarrow> string \<Rightarrow> u8 list \<Rightarrow> string" where
  "base64_encode_loop i_bits i_shift dst [] = dst"
| "base64_encode_loop i_bits i_shift dst (b # bs) =
     (let i_bits = push_bit 8 i_bits + ucast b;
          (i_shift, dst) = emit i_bits (i_shift + 8) (bs = []) dst in
      base64_encode_loop i_bits i_shift dst bs)"

definition base64_encode :: "u8 list \<Rightarrow> string" where
  "base64_encode src =
     (let dst = base64_encode_loop 0 0 [] src in dst @ replicate ((4 - length dst mod 4) mod 4) CHR ''='')"

text \<open>The size of the buffer, \<open>xmalloc(len * 4 / 3 + 12)\<close>.\<close>

definition base64_room :: "nat \<Rightarrow> nat" where
  "base64_room len = len * 4 div 3 + 12"

section \<open>Reference\<close>

text \<open>RFC 4648: three bytes are four sextets, the first bits first, and a short last group is padded.\<close>

definition digit :: "u8 \<Rightarrow> char" where "digit w = b64 ! unat w"

definition sx0 :: "u8 \<Rightarrow> u8" where "sx0 a = drop_bit 2 a"
definition sx1 :: "u8 \<Rightarrow> u8 \<Rightarrow> u8" where "sx1 a b = push_bit 4 (a AND 3) OR drop_bit 4 b"
definition sx2 :: "u8 \<Rightarrow> u8 \<Rightarrow> u8" where "sx2 b c = push_bit 2 (b AND 15) OR drop_bit 6 c"
definition sx3 :: "u8 \<Rightarrow> u8" where "sx3 c = c AND 63"

fun sextets :: "u8 list \<Rightarrow> u8 list" where
  "sextets (a # b # c # bs) = sx0 a # sx1 a b # sx2 b c # sx3 c # sextets bs"
| "sextets [a, b] = [sx0 a, sx1 a b, sx2 b 0]"
| "sextets [a] = [sx0 a, sx1 a 0]"
| "sextets [] = []"

definition base64_spec :: "u8 list \<Rightarrow> string" where
  "base64_spec bs = map digit (sextets bs) @ replicate ((3 - length bs mod 3) mod 3) CHR ''=''"

lemma u8_eqI:
  fixes a b :: u8
  assumes "bit a 0 = bit b 0" "bit a 1 = bit b 1" "bit a 2 = bit b 2" "bit a 3 = bit b 3"
    "bit a 4 = bit b 4" "bit a 5 = bit b 5" "bit a 6 = bit b 6" "bit a 7 = bit b 7"
  shows "a = b"
proof (rule bit_word_eqI)
  fix n :: nat
  assume "n < LENGTH(8)"
  then have "n = 0 \<or> n = 1 \<or> n = 2 \<or> n = 3 \<or> n = 4 \<or> n = 5 \<or> n = 6 \<or> n = 7" by auto
  then show "bit a n \<longleftrightarrow> bit b n" using assms by auto
qed

lemma bit3: "bit (3 :: 'a :: len word) n \<longleftrightarrow> n < 2 \<and> n < LENGTH('a)"
proof -
  have "(3 :: 'a word) = mask 2" by (simp add: mask_eq_exp_minus_1)
  then show ?thesis by (simp only: bit_mask_iff possible_bit_word) auto
qed

lemma bit15: "bit (15 :: 'a :: len word) n \<longleftrightarrow> n < 4 \<and> n < LENGTH('a)"
proof -
  have "(15 :: 'a word) = mask 4" by (simp add: mask_eq_exp_minus_1)
  then show ?thesis by (simp only: bit_mask_iff possible_bit_word) auto
qed

lemma bit63: "bit (63 :: 'a :: len word) n \<longleftrightarrow> n < 6 \<and> n < LENGTH('a)"
proof -
  have "(63 :: 'a word) = mask 6" by (simp add: mask_eq_exp_minus_1)
  then show ?thesis by (simp only: bit_mask_iff possible_bit_word) auto
qed

lemma u8_high: "8 \<le> n \<Longrightarrow> \<not> bit (b :: u8) n"
  using bit_imp_le_length [of b n] by auto

lemmas b64_bits = sx0_def sx1_def sx2_def sx3_def bit_simps bit3 bit15 bit63 u8_high

lemma push8: "(push_bit 8 i + ucast (b :: u8) :: u32) = push_bit 8 i OR ucast b"
  by (rule disjunctive_add) (auto simp: bit_simps u8_high)

lemma low_sextet: "unat (x AND 0x3f :: u32) = unat (ucast (x AND 0x3f) :: u8)"
proof -
  have "x AND 0x3f \<le> 0x3f" by (rule word_and_le1)
  then have "unat (x AND 0x3f) \<le> 63" by (simp add: word_le_nat_alt)
  then show ?thesis by (simp add: unsigned_ucast_eq take_bit_nat_eq_self)
qed

lemma sextet_digit: "ucast (drop_bit s (push_bit 6 x) AND 0x3f) = w \<Longrightarrow> sextet x s = digit w"
  unfolding sextet_def digit_def low_sextet by simp

text \<open>The sextets of one, two and three bytes behind earlier ones.\<close>

lemma sextet_1:
  "sextet (push_bit 8 i + ucast a) 8 = digit (sx0 a)"
  "sextet (push_bit 8 i + ucast a) 2 = digit (sx1 a 0)"
  "sextet (push_bit 8 i + ucast a) 6 = digit (sx3 a)"
  by (rule sextet_digit, unfold push8, rule u8_eqI; simp add: b64_bits)+

lemma sextet_2:
  "sextet (push_bit 8 (push_bit 8 i + ucast a) + ucast b) 14 = digit (sx3 a)"
  "sextet (push_bit 8 (push_bit 8 i + ucast a) + ucast b) 10 = digit (sx1 a b)"
  "sextet (push_bit 8 (push_bit 8 i + ucast a) + ucast b) 12 = digit (sx2 a b)"
  "sextet (push_bit 8 i + ucast a) 4 = digit (sx2 a 0)"
  by (rule sextet_digit, unfold push8, rule u8_eqI; simp add: b64_bits)+

text \<open>Between two groups the last sextet of the group before is still in the bit buffer.\<close>

lemma encode_pending:
  "bs \<noteq> [] \<Longrightarrow> base64_encode_loop (push_bit 8 j + ucast c) 6 dst bs = dst @ digit (sx3 c) # map digit (sextets bs)"
proof (induction bs arbitrary: j c dst rule: sextets.induct)
  case (1 x y z bs)
  show ?case
  proof (cases "bs = []")
    case True
    then show ?thesis by (simp add: sextet_1 sextet_2 Let_def)
  next
    case False
    then show ?thesis using "1.IH" by (simp add: sextet_1 sextet_2 Let_def)
  qed
qed (simp_all add: sextet_1 sextet_2 Let_def)

lemma encode_loop: "base64_encode_loop i 0 dst bs = dst @ map digit (sextets bs)"
proof (induction bs rule: sextets.induct)
  case (1 x y z bs)
  show ?case
  proof (cases "bs = []")
    case True
    then show ?thesis by (simp add: sextet_1 sextet_2 Let_def)
  next
    case False
    then show ?thesis by (simp add: sextet_1 sextet_2 Let_def encode_pending)
  qed
qed (simp_all add: sextet_1 sextet_2 Let_def)

lemma sextets_length: "length (sextets bs) = 4 * (length bs div 3) + (if length bs mod 3 = 0 then 0 else length bs mod 3 + 1)"
  by (induction bs rule: sextets.induct) (simp_all add: div_add1_eq)

lemma sextets_pad: "(4 - length (sextets bs) mod 4) mod 4 = (3 - length bs mod 3) mod 3"
proof -
  have "length bs mod 3 = 0 \<or> length bs mod 3 = 1 \<or> length bs mod 3 = 2" by linarith
  then show ?thesis by (auto simp: sextets_length mod_mult_self4)
qed

text \<open>A digit decodes to its sextet.\<close>

lemma map2_table: "map map2_at b64 = map Some [0..<64]"
  by (simp add: b64_def map2_at_def map2_def upt_conv_Cons)

lemma b64_clean: "length b64 = 64" "CHR ''='' \<notin> set b64"
  by (simp_all add: b64_def)

lemma map2_digit:
  assumes "unat w < 64"
  shows "map2_at (digit w) = Some (unat w)" "digit w \<noteq> CHR ''=''"
proof -
  show "map2_at (digit w) = Some (unat w)"
    using arg_cong [OF map2_table, of "\<lambda>xs. xs ! unat w"] assms by (simp add: digit_def b64_clean)
  show "digit w \<noteq> CHR ''=''" using assms b64_clean by (metis digit_def nth_mem)
qed

definition six :: "u8 \<Rightarrow> bool" where "six w \<longleftrightarrow> \<not> bit w 6 \<and> \<not> bit w 7"

lemma six_less: "six w \<Longrightarrow> unat w < 64"
proof -
  assume "six w"
  then have "w = w AND 63" by (intro u8_eqI) (simp_all add: six_def b64_bits)
  then have "w \<le> 63" by (metis word_and_le1)
  then show "unat w < 64" by (simp add: word_le_nat_alt)
qed

lemma sextets_six: "list_all six (sextets bs)"
  by (induction bs rule: sextets.induct) (simp_all add: six_def b64_bits)

definition shift_in :: "u32 \<Rightarrow> u8 \<Rightarrow> u32" where "shift_in v w = push_bit 6 v OR ucast w"

lemma decode_digit:
  assumes "six w"
  shows "base64_decode_loop i v out L (digit w # cs) =
    base64_decode_loop (Suc i) (shift_in v w)
      (if i mod 4 \<noteq> 0 \<and> length out < L then out @ [ucast (signed_drop_bit (6 - 2 * (i mod 4)) (shift_in v w))] else out) L cs"
proof -
  have n: "\<not> bit w n" if "6 \<le> n" for n
  proof -
    have "n = 6 \<or> n = 7 \<or> 8 \<le> n" using that by linarith
    then show ?thesis using assms u8_high by (auto simp: six_def)
  qed
  have "push_bit 6 v + (ucast w :: u32) = push_bit 6 v OR ucast w" by (rule disjunctive_add) (auto simp: bit_simps n)
  then show ?thesis using map2_digit [OF six_less [OF assms]] by (simp add: Let_def shift_in_def)
qed

lemma decode_bytes:
  "(ucast (signed_drop_bit 4 (shift_in (shift_in v (sx0 a)) (sx1 a b))) :: u8) = a"
  "(ucast (signed_drop_bit 2 (shift_in (shift_in v (sx1 a b)) (sx2 b c))) :: u8) = b"
  "(ucast (shift_in (shift_in v (sx2 b c)) (sx3 c)) :: u8) = c"
  by (rule u8_eqI; simp add: b64_bits shift_in_def)+

lemma decode_end: "list_all (\<lambda>c. c = CHR ''='') pad \<Longrightarrow> base64_decode_loop i v out L pad = Some out"
  by (cases pad) simp_all

lemmas decode_steps = decode_digit decode_bytes decode_end

lemma decode_sextets:
  assumes "list_all (\<lambda>c. c = CHR ''='') pad"
  shows "i mod 4 = 0 \<Longrightarrow> length out + length bs \<le> L \<Longrightarrow>
    base64_decode_loop i v out L (map digit (sextets bs) @ pad) = Some (out @ bs)"
proof (induction bs arbitrary: i v out rule: sextets.induct)
  case (1 a b c bs)
  have m: "Suc i mod 4 = 1" "Suc (Suc i) mod 4 = 2" "Suc (Suc (Suc i)) mod 4 = 3" "Suc (Suc (Suc (Suc i))) mod 4 = 0" "(3 + i) mod 4 = 3"
    using "1.prems"(1) by presburger+
  have L: "length out < L" "Suc (length out) < L" "Suc (Suc (length out)) < L" using "1.prems"(2) by simp_all
  show ?case using sextets_six [of "a # b # c # bs"] "1.IH" [OF m(4)] "1.prems"
    by (simp add: decode_steps m L del: base64_decode_loop.simps)
next
  case (2 a b)
  have m: "Suc i mod 4 = 1" "Suc (Suc i) mod 4 = 2" using "2.prems"(1) by presburger+
  show ?case using sextets_six [of "[a, b]"] "2.prems" assms by (simp add: decode_steps m del: base64_decode_loop.simps)
next
  case (3 a)
  have m: "Suc i mod 4 = 1" using "3.prems"(1) by presburger
  show ?case using sextets_six [of "[a]"] "3.prems" assms by (simp add: decode_steps m del: base64_decode_loop.simps)
next
  case 4
  then show ?case using assms by (simp add: decode_end del: base64_decode_loop.simps)
qed

section \<open>Correctness\<close>

lemma base64_encode_spec: "base64_encode bs = base64_spec bs"
  by (simp add: base64_encode_def base64_spec_def encode_loop Let_def sextets_pad)

lemma base64_encode_length: "length (base64_encode bs) = 4 * ((length bs + 2) div 3)"
proof -
  define q where "q = length bs div 3"
  have "length bs = 3 * q \<or> length bs = 3 * q + 1 \<or> length bs = 3 * q + 2" unfolding q_def by presburger
  then have "length (sextets bs) + (3 - length bs mod 3) mod 3 = 4 * ((length bs + 2) div 3)"
    unfolding sextets_length by (auto; presburger)
  then show ?thesis by (simp add: base64_encode_spec base64_spec_def)
qed


text \<open>C30. Decoding what was encoded gives the bytes back, for every list of bytes and every output
  buffer that can hold them.\<close>

theorem base64_roundtrip:
  assumes "length bs \<le> out_length"
  shows "base64_decode (base64_encode bs) out_length = Some bs"
  unfolding base64_decode_def base64_encode_spec base64_spec_def
  using decode_sextets [of "replicate ((3 - length bs mod 3) mod 3) CHR ''=''" 0 "[]" bs out_length 0] assms
  by (simp add: list_all_iff)

theorem base64_roundtrip_witness: "base64_decode (base64_encode [77, 97, 110, 255]) 4 = Some [77, 97, 110, 255]"
  by (rule base64_roundtrip) simp

end
