(* ===== verification/Ape_Websocket.thy ===== *)
theory Ape_Websocket
  imports Ape_Transports Ape_Base64
begin

text \<open>
  The reader of websocket frames, from \<open>process_websocket\<close> of \<open>src/http.c\<close>: both framings of the IETF
  drafts, byte by byte and in place in the input buffer, the older framing between 0x00 and 0xFF, and the
  buffer as the server loop of \<open>src/sock.c\<close> fills it. What the reader does for the rest of the server,
  to hand over a message or to answer a control frame, is a list of actions. \<open>None\<close> is an access outside
  of a buffer.
\<close>

section \<open>Data\<close>

datatype ws_payload_step =
  WS_STEP_KEY | WS_STEP_START | WS_STEP_LENGTH | WS_STEP_SHORT_LENGTH | WS_STEP_EXTENDED_LENGTH | WS_STEP_DATA | WS_STEP_END

text \<open>\<open>frame_payload\<close> is packed: start, 7 bit length, and eight bytes of length of which the short length
  shares the first two. It is the list of its ten bytes, since the code fills it by position.\<close>

record websocket_state =
  ws_offset :: nat
  ws_ready :: int
  ws_key_val :: "u8 list"
  ws_key_pos :: nat
  ws_frame_payload :: "u8 list"
  ws_step :: ws_payload_step
  ws_data_pos :: nat
  ws_data_inkey :: nat
  ws_frame_pos :: int

text \<open>\<open>data\<close> has one byte more than \<open>size\<close>.\<close>

record ape_buffer =
  b_data :: "u8 list"
  b_size :: nat
  b_length :: nat

datatype ws_act = Ws_sendbin "u8 list" bool | Ws_onready "u8 list" | Ws_shutdown

text \<open>The C string at the beginning of some bytes.\<close>

definition cstring :: "u8 list \<Rightarrow> u8 list" where
  "cstring bs = takeWhile (\<lambda>b. b \<noteq> 0) bs"

definition peek :: "'a list \<Rightarrow> nat \<Rightarrow> 'a option" where
  "peek xs i = (if i < length xs then Some (xs ! i) else None)"

definition poke :: "'a list \<Rightarrow> nat \<Rightarrow> 'a \<Rightarrow> 'a list option" where
  "poke xs i x = (if i < length xs then Some (xs[i := x]) else None)"

section \<open>Lengths\<close>

text \<open>Little endian bytes, as the host keeps them.\<close>

definition le_value :: "u8 list \<Rightarrow> nat" where
  "le_value bs = foldr (\<lambda>b v. v * 256 + unat b) bs 0"

fun le_bytes :: "nat \<Rightarrow> nat \<Rightarrow> u8 list" where
  "le_bytes 0 n = []"
| "le_bytes (Suc k) n = of_nat n # le_bytes k (n div 256)"

definition ws_extended_length :: "websocket_state \<Rightarrow> nat" where
  "ws_extended_length w = le_value (drop 2 (ws_frame_payload w))"

definition ws_short_length :: "websocket_state \<Rightarrow> nat" where
  "ws_short_length w = le_value (take 2 (drop 2 (ws_frame_payload w)))"

definition set_extended_length :: "nat \<Rightarrow> websocket_state \<Rightarrow> websocket_state" where
  "set_extended_length n w = w\<lparr>ws_frame_payload := take 2 (ws_frame_payload w) @ le_bytes 8 (n mod 2 ^ 64)\<rparr>"

text \<open>\<open>ntohs\<close> and \<open>ntohl\<close> on a little endian host.\<close>

definition ntohs :: "nat \<Rightarrow> nat" where
  "ntohs n = le_value (rev (le_bytes 2 n))"

definition ntohl :: "nat \<Rightarrow> nat" where
  "ntohl n = le_value (rev (le_bytes 4 n))"

text \<open>\<open>memcpy(((char *)&frame_payload) + pos, pData, 1)\<close>.\<close>

definition put_payload :: "int \<Rightarrow> u8 \<Rightarrow> websocket_state \<Rightarrow> websocket_state option" where
  "put_payload pos b w =
     (if 0 \<le> pos \<and> pos < 10 then map_option (\<lambda>f. w\<lparr>ws_frame_payload := f\<rparr>) (poke (ws_frame_payload w) (nat pos) b) else None)"

section \<open>One byte of a frame\<close>

text \<open>The outcome of one turn of the loop: whether the function returns, the parser, the buffer and the actions.\<close>

type_synonym ws_turn = "(bool \<times> websocket_state \<times> ape_buffer \<times> ws_act list) option"

definition turn :: "websocket_state \<Rightarrow> ape_buffer \<Rightarrow> ws_act list \<Rightarrow> ws_turn" where
  "turn w buf acts = Some (False, w\<lparr>ws_frame_pos := ws_frame_pos w + 1, ws_offset := ws_offset w + 1\<rparr>, buf, acts)"

definition quit_loop :: "websocket_state \<Rightarrow> ape_buffer \<Rightarrow> ws_act list \<Rightarrow> ws_turn" where
  "quit_loop w buf acts = Some (True, w, buf, acts)"

text \<open>The end of a frame in which the loop goes on: it starts over when the buffer is used up.\<close>

definition end_frame :: "websocket_state \<Rightarrow> ape_buffer \<Rightarrow> ws_act list \<Rightarrow> ws_turn" where
  "end_frame w buf acts =
     (if ws_offset w + 1 = b_length buf
      then quit_loop (w\<lparr>ws_offset := 0, ws_frame_pos := 0\<rparr>) (buf\<lparr>b_length := 0\<rparr>) acts
      else turn w buf acts)"

text \<open>The bytes from \<open>data_pos\<close> to the current one.\<close>

definition frame_body :: "websocket_state \<Rightarrow> ape_buffer \<Rightarrow> u8 list" where
  "frame_body w buf = take (ws_offset w + 1 - ws_data_pos w) (drop (ws_data_pos w) (b_data buf))"

text \<open>The message is terminated for the time of the call by a NUL behind it.\<close>

definition data_frame :: "websocket_state \<Rightarrow> ape_buffer \<Rightarrow> u8 list \<Rightarrow> ws_turn" where
  "data_frame w buf body =
     (if ws_offset w + 1 < length (b_data buf) then end_frame w buf [Ws_onready (cstring body)] else None)"

definition ping_frame :: "u8 \<Rightarrow> u8 \<Rightarrow> websocket_state \<Rightarrow> ape_buffer \<Rightarrow> u8 list \<Rightarrow> ws_turn" where
  "ping_frame pong cls w buf body =
     (if length body > 125 then quit_loop w buf [Ws_sendbin [cls, 0] True]
      else end_frame w buf (Ws_sendbin [pong, of_nat (length body) AND 0x7F] False # (if body = [] then [] else [Ws_sendbin body False])))"

definition ws_byte_07 :: "websocket_state \<Rightarrow> ape_buffer \<Rightarrow> ws_turn" where
  "ws_byte_07 w buf = do {
     b \<leftarrow> peek (b_data buf) (ws_offset w);
     case ws_step w of
       WS_STEP_KEY \<Rightarrow> do {
         key \<leftarrow> poke (ws_key_val w) (ws_key_pos w) b;
         let w = w\<lparr>ws_key_val := key, ws_key_pos := ws_key_pos w + 1\<rparr>;
         turn (if ws_key_pos w = 4 then w\<lparr>ws_step := WS_STEP_DATA, ws_data_inkey := 0\<rparr> else w) buf [] }
     | WS_STEP_START \<Rightarrow> do {
         w \<leftarrow> put_payload 0 b w;
         turn (w\<lparr>ws_step := WS_STEP_LENGTH\<rparr>) buf [] }
     | WS_STEP_LENGTH \<Rightarrow>
         (if b AND 0x80 = 0 then quit_loop w buf []
          else if b AND 0x7F = 126 then turn (w\<lparr>ws_step := WS_STEP_SHORT_LENGTH\<rparr>) buf []
          else if b AND 0x7F = 127 then turn (w\<lparr>ws_step := WS_STEP_EXTENDED_LENGTH\<rparr>) buf []
          else turn ((set_extended_length (unat (b AND 0x7F)) w)\<lparr>ws_step := WS_STEP_KEY\<rparr>) buf [])
     | WS_STEP_SHORT_LENGTH \<Rightarrow> do {
         w \<leftarrow> put_payload (ws_frame_pos w) b w;
         turn (if ws_frame_pos w = 3 then (set_extended_length (ntohs (ws_short_length w)) w)\<lparr>ws_step := WS_STEP_KEY\<rparr> else w) buf [] }
     | WS_STEP_EXTENDED_LENGTH \<Rightarrow> do {
         w \<leftarrow> put_payload (ws_frame_pos w) b w;
         turn (if ws_frame_pos w = 9
               then (set_extended_length (ntohl (ws_extended_length w div 2 ^ 32)) w)\<lparr>ws_step := WS_STEP_KEY\<rparr> else w) buf [] }
     | WS_STEP_DATA \<Rightarrow> do {
         let w = (if ws_data_pos w = 0 then w\<lparr>ws_data_pos := ws_offset w\<rparr> else w);
         k \<leftarrow> peek (ws_key_val w) (ws_data_inkey w mod 4);
         let buf = buf\<lparr>b_data := (b_data buf)[ws_offset w := b XOR k]\<rparr>;
         let w = set_extended_length (ws_extended_length w + (2 ^ 64 - 1)) (w\<lparr>ws_data_inkey := ws_data_inkey w + 1\<rparr>);
         if ws_extended_length w = 0 then do {
           start \<leftarrow> peek (ws_frame_payload w) 0;
           let body = frame_body w buf;
           let w = w\<lparr>ws_step := WS_STEP_START, ws_frame_pos := -1, ws_data_pos := 0, ws_key_pos := 0\<rparr>;
           if start AND 0x0F = 0x8 then quit_loop w buf [Ws_sendbin [0x88, 0] False]
           else if start AND 0x0F = 0x9 then ping_frame 0x8a 0x88 w buf body
           else if start AND 0x0F = 0xA then end_frame w buf []
           else data_frame w buf body }
         else turn w buf [] }
     | WS_STEP_END \<Rightarrow> turn w buf [] }"

text \<open>The older draft: the key comes first and everything behind it is masked.\<close>

definition ws_byte_06 :: "websocket_state \<Rightarrow> ape_buffer \<Rightarrow> ws_turn" where
  "ws_byte_06 w buf = do {
     c \<leftarrow> peek (b_data buf) (ws_offset w);
     k \<leftarrow> (if ws_step w = WS_STEP_KEY then Some 0 else if ws_frame_pos w < 4 then None else peek (ws_key_val w) (nat (ws_frame_pos w - 4) mod 4));
     let b = c XOR k;
     let buf = buf\<lparr>b_data := (b_data buf)[ws_offset w := b]\<rparr>;
     case ws_step w of
       WS_STEP_KEY \<Rightarrow> do {
         key \<leftarrow> (if ws_frame_pos w < 0 then None else poke (ws_key_val w) (nat (ws_frame_pos w)) b);
         let w = w\<lparr>ws_key_val := key\<rparr>;
         turn (if ws_frame_pos w = 3 then w\<lparr>ws_step := WS_STEP_START\<rparr> else w) buf [] }
     | WS_STEP_START \<Rightarrow> do {
         w \<leftarrow> put_payload 0 b w;
         turn (w\<lparr>ws_step := WS_STEP_LENGTH\<rparr>) buf [] }
     | WS_STEP_LENGTH \<Rightarrow>
         (if b AND 0x7F = 126 then turn (w\<lparr>ws_step := WS_STEP_SHORT_LENGTH\<rparr>) buf []
          else if b AND 0x7F = 127 then turn (w\<lparr>ws_step := WS_STEP_EXTENDED_LENGTH\<rparr>) buf []
          else turn ((set_extended_length (unat (b AND 0x7F)) w)\<lparr>ws_step := WS_STEP_DATA\<rparr>) buf [])
     | WS_STEP_SHORT_LENGTH \<Rightarrow> do {
         w \<leftarrow> put_payload (ws_frame_pos w - 4) b w;
         turn (if ws_frame_pos w = 7 then (set_extended_length (ntohs (ws_short_length w)) w)\<lparr>ws_step := WS_STEP_DATA\<rparr> else w) buf [] }
     | WS_STEP_EXTENDED_LENGTH \<Rightarrow> do {
         w \<leftarrow> put_payload (ws_frame_pos w - 4) b w;
         turn (if ws_frame_pos w = 13
               then (set_extended_length (ntohl (ws_extended_length w div 2 ^ 32)) w)\<lparr>ws_step := WS_STEP_DATA\<rparr> else w) buf [] }
     | WS_STEP_DATA \<Rightarrow> do {
         let w = (if ws_data_pos w = 0 then w\<lparr>ws_data_pos := ws_offset w\<rparr> else w);
         let w = set_extended_length (ws_extended_length w + (2 ^ 64 - 1)) w;
         if ws_extended_length w = 0 then do {
           start \<leftarrow> peek (ws_frame_payload w) 0;
           let body = frame_body w buf;
           let w = w\<lparr>ws_step := WS_STEP_KEY, ws_frame_pos := -1, ws_data_pos := 0\<rparr>;
           if start AND 0x0F = 0x1 then quit_loop w buf [Ws_sendbin [0x81, 0] False]
           else if start AND 0x0F = 0x2 then ping_frame 0x83 0x81 w buf body
           else if start AND 0x0F = 0x3 then end_frame w buf []
           else data_frame w buf body }
         else turn w buf [] }
     | WS_STEP_END \<Rightarrow> turn w buf [] }"

section \<open>The loops\<close>

text \<open>The loop goes through the bytes from the offset to the end of the buffer; their number is its bound.\<close>

fun ws_loop :: "(websocket_state \<Rightarrow> ape_buffer \<Rightarrow> ws_turn) \<Rightarrow> nat \<Rightarrow> websocket_state \<Rightarrow> ape_buffer \<Rightarrow>
  (websocket_state \<times> ape_buffer \<times> ws_act list) option" where
  "ws_loop f 0 w buf = Some (w, buf, [])"
| "ws_loop f (Suc n) w buf = do {
     (done, w, buf, acts) \<leftarrow> f w buf;
     if done then Some (w, buf, acts)
     else map_option (\<lambda>(w, buf, acts'). (w, buf, acts @ acts')) (ws_loop f n w buf) }"

definition process_websocket_frame :: "websocket_state \<Rightarrow> ape_buffer \<Rightarrow> (websocket_state \<times> ape_buffer \<times> ws_act list) option" where
  "process_websocket_frame w buf = ws_loop ws_byte_07 (b_length buf - ws_offset w) w buf"

definition process_websocket_frame_06 :: "websocket_state \<Rightarrow> ape_buffer \<Rightarrow> (websocket_state \<times> ape_buffer \<times> ws_act list) option" where
  "process_websocket_frame_06 w buf = ws_loop ws_byte_06 (b_length buf - ws_offset w) w buf"

text \<open>The older framing: the search for the closing 0xFF, which looks at the byte behind the pointer first,
  from the pointer to the terminating NUL at \<open>len\<close>.\<close>

function old_scan :: "u8 list \<Rightarrow> nat \<Rightarrow> nat \<Rightarrow> nat option option" where
  "old_scan dat len d =
     (if d = len then Some None
      else if d > len then None
      else do { b \<leftarrow> peek dat (d + 1); if b = 0xFF then Some (Some (d + 1)) else old_scan dat len (d + 1) })"
  by pat_completeness auto
termination
  by (relation "measure (\<lambda>(dat, len, d). len - d)") auto

declare old_scan.simps [simp del]

lemma old_scan_bound: "old_scan dat len d = Some (Some e) \<Longrightarrow> d < e \<and> e \<le> len"
  by (induction dat len d rule: old_scan.induct)
     (subst (asm) old_scan.simps, auto split: if_splits bind_splits)

definition WS_MAX :: nat where "WS_MAX = 502400"

function process_websocket_old :: "websocket_state \<Rightarrow> ape_buffer \<Rightarrow> (websocket_state \<times> ape_buffer \<times> ws_act list) option" where
  "process_websocket_old w buf =
     (if b_length buf = 0 \<or> ws_ready w = 1 then Some (w, buf, [])
      else if b_length buf > WS_MAX then Some (w, buf, [Ws_shutdown])
      else do {
        dat \<leftarrow> poke (b_data buf) (b_length buf) 0;
        b \<leftarrow> peek dat (ws_offset w);
        found \<leftarrow> old_scan dat (b_length buf) (if b = 0 then ws_offset w + 1 else ws_offset w);
        case found of
          None \<Rightarrow> Some (w, buf\<lparr>b_data := dat\<rparr>, [])
        | Some d \<Rightarrow>
            (let dat = dat[d := 0];
                 msg = cstring (drop (ws_offset w + 1) dat) in
             if d + 1 = b_length buf
             then Some (w\<lparr>ws_ready := -1, ws_offset := 0\<rparr>, buf\<lparr>b_data := dat, b_length := 0\<rparr>, [Ws_onready msg])
             else map_option (\<lambda>(w, buf, acts). (w, buf, Ws_onready msg # acts))
                    (process_websocket_old (w\<lparr>ws_offset := d + 1\<rparr>) (buf\<lparr>b_data := dat\<rparr>))) })"
  by pat_completeness auto
termination
  by (relation "measure (\<lambda>(w, buf). Suc (b_length buf) - ws_offset w)") (auto dest!: old_scan_bound split: if_splits)

definition process_websocket ::
  "ws_version \<Rightarrow> websocket_state \<Rightarrow> ape_buffer \<Rightarrow> (websocket_state \<times> ape_buffer \<times> ws_act list) option" where
  "process_websocket version w buf =
     (if b_length buf = 0 \<or> ws_ready w = 1 then Some (w, buf, [])
      else if b_length buf > WS_MAX then Some (w, buf, [Ws_shutdown])
      else case version of
        WS_IETF_06 \<Rightarrow> process_websocket_frame_06 w buf
      | WS_IETF_07 \<Rightarrow> process_websocket_frame w buf
      | _ \<Rightarrow> process_websocket_old w buf)"

section \<open>Specification: a reader of single bytes\<close>

text \<open>What has been read of the current frame: nothing, the first byte, a part of an extended length, of the
  key, or of the unmasked payload with the length still to come.\<close>

datatype ws_abs =
  A_start
| A_length u8
| A_ext u8 nat "u8 list"
| A_key u8 nat "u8 list"
| A_data u8 "u8 list" nat "u8 list"

definition be_nat :: "u8 list \<Rightarrow> nat" where
  "be_nat bs = le_value (rev bs)"

definition frame_done :: "u8 \<Rightarrow> u8 list \<Rightarrow> ws_act list \<times> ws_abs option" where
  "frame_done op body =
     (if op AND 0x0F = 0x8 then ([Ws_sendbin [0x88, 0] False], None)
      else if op AND 0x0F = 0x9 then
        (if length body > 125 then ([Ws_sendbin [0x88, 0] True], None)
         else ([Ws_sendbin [0x8a, of_nat (length body) AND 0x7F] False, Ws_sendbin body False], Some A_start))
      else if op AND 0x0F = 0xA then ([], Some A_start)
      else ([Ws_onready (cstring body)], Some A_start))"

fun feed :: "ws_abs \<Rightarrow> u8 \<Rightarrow> ws_act list \<times> ws_abs option" where
  "feed A_start b = ([], Some (A_length b))"
| "feed (A_length op) b =
     ([], if b AND 0x80 = 0 then None
          else if b AND 0x7F = 126 then Some (A_ext op 2 [])
          else if b AND 0x7F = 127 then Some (A_ext op 8 [])
          else Some (A_key op (unat (b AND 0x7F)) []))"
| "feed (A_ext op k bs) b =
     ([], Some (if length bs + 1 = k then A_key op (be_nat (drop (k - min k 4) (bs @ [b]))) [] else A_ext op k (bs @ [b])))"
| "feed (A_key op len ks) b =
     ([], Some (if length ks = 3 then A_data op (ks @ [b]) len [] else A_key op len (ks @ [b])))"
| "feed (A_data op key len col) b =
     (let col = col @ [b XOR key ! (length col mod 4)]; len = (len + (2 ^ 64 - 1)) mod 2 ^ 64 in
      if len = 0 then frame_done op col else ([], Some (A_data op key len col)))"

fun feeds :: "ws_abs \<Rightarrow> u8 list \<Rightarrow> ws_act list \<times> ws_abs option" where
  "feeds a [] = ([], Some a)"
| "feeds a (b # bs) =
     (let (acts, r) = feed a b in
      case r of None \<Rightarrow> (acts, None) | Some a' \<Rightarrow> (let (acts', r') = feeds a' bs in (acts @ acts', r')))"

fun ws_sim :: "ws_abs \<Rightarrow> websocket_state \<Rightarrow> ape_buffer \<Rightarrow> bool" where
  "ws_sim A_start w buf \<longleftrightarrow> ws_step w = WS_STEP_START \<and> ws_frame_pos w = 0 \<and> ws_key_pos w = 0 \<and> ws_data_pos w = 0"
| "ws_sim (A_length op) w buf \<longleftrightarrow>
     ws_step w = WS_STEP_LENGTH \<and> ws_frame_pos w = 1 \<and> ws_key_pos w = 0 \<and> ws_data_pos w = 0 \<and> 0 < ws_offset w \<and> ws_frame_payload w ! 0 = op"
| "ws_sim (A_ext op k bs) w buf \<longleftrightarrow>
     (k = 2 \<and> ws_step w = WS_STEP_SHORT_LENGTH \<or> k = 8 \<and> ws_step w = WS_STEP_EXTENDED_LENGTH) \<and> length bs < k \<and>
     ws_frame_pos w = 2 + int (length bs) \<and> ws_key_pos w = 0 \<and> ws_data_pos w = 0 \<and> 0 < ws_offset w \<and> ws_frame_payload w ! 0 = op \<and>
     take (length bs) (drop 2 (ws_frame_payload w)) = bs"
| "ws_sim (A_key op len ks) w buf \<longleftrightarrow>
     ws_step w = WS_STEP_KEY \<and> length ks < 4 \<and> ws_key_pos w = length ks \<and> ws_data_pos w = 0 \<and> 0 < ws_offset w \<and> ws_frame_payload w ! 0 = op \<and>
     ws_extended_length w = len \<and> take (length ks) (ws_key_val w) = ks"
| "ws_sim (A_data op key len col) w buf \<longleftrightarrow>
     ws_step w = WS_STEP_DATA \<and> ws_key_val w = key \<and> ws_data_inkey w = length col \<and> ws_frame_payload w ! 0 = op \<and> ws_extended_length w = len \<and>
     (if col = [] then ws_data_pos w = 0 \<and> 0 < ws_offset w
      else 0 < ws_data_pos w \<and> ws_offset w = ws_data_pos w + length col \<and> take (length col) (drop (ws_data_pos w) (b_data buf)) = col)"

definition ws_ok :: "websocket_state \<Rightarrow> ape_buffer \<Rightarrow> bool" where
  "ws_ok w buf \<longleftrightarrow> length (ws_frame_payload w) = 10 \<and> length (ws_key_val w) = 4 \<and> ws_ready w \<noteq> 1 \<and>
     ws_offset w \<le> b_length buf \<and> b_length buf < length (b_data buf)"

section \<open>The reader implements it\<close>

lemma le_bytes_length [simp]: "length (le_bytes k n) = k"
  by (induction k n rule: le_bytes.induct) auto

lemma le_value_bytes: "le_value (le_bytes k n) = n mod 256 ^ k"
proof (induction k n rule: le_bytes.induct)
  case (2 k n)
  have "le_value (le_bytes (Suc k) n) = (n div 256) mod 256 ^ k * 256 + n mod 256"
    using 2 by (simp add: le_value_def unat_of_nat)
  also have "\<dots> = n mod 256 ^ Suc k" by (simp add: mod_mult2_eq mult.commute)
  finally show ?case .
qed (simp add: le_value_def)

lemma u8_bound: "unat (b :: u8) < 256"
  using unsigned_less [of b] by simp

lemma le_bytes_value: "le_bytes (length bs) (le_value bs) = bs"
proof (induction bs)
  case (Cons b bs)
  have "(of_nat (le_value bs * 256 + unat b) :: u8) = b" 
    by (simp add: word_unat_eq_iff unat_of_nat u8_bound del: of_nat_add of_nat_mult)
  moreover have "(le_value bs * 256 + unat b) div 256 = le_value bs" using u8_bound [of b] by simp
  ultimately show ?case using Cons by (simp add: le_value_def)
qed (simp add: le_value_def)

lemma ntohs_short: "length bs = 2 \<Longrightarrow> ntohs (le_value bs) = be_nat bs"
  using le_bytes_value [of bs] by (simp add: ntohs_def be_nat_def)

lemma ntohl_long: "length bs = 4 \<Longrightarrow> ntohl (le_value bs) = be_nat bs"
  using le_bytes_value [of bs] by (simp add: ntohl_def be_nat_def)

lemma le_value_append: "le_value (as @ bs) = le_value as + 256 ^ length as * le_value bs"
  by (induction as) (simp_all add: le_value_def algebra_simps)

lemma le_value_bound: "le_value bs < 256 ^ length bs"
proof (induction bs)
  case (Cons b bs)
  have "unat b < 256" by (rule u8_bound)
  moreover have "le_value bs * 256 + 256 \<le> 256 ^ length bs * 256" using Cons by linarith
  ultimately show ?case by (simp add: le_value_def)
qed (simp add: le_value_def)

lemma be_nat_bound: "be_nat bs < 256 ^ length bs"
  using le_value_bound [of "rev bs"] by (simp add: be_nat_def)

lemma set_extended [simp]:
  "length (ws_frame_payload w) = 10 \<Longrightarrow> ws_extended_length (set_extended_length n w) = n mod 2 ^ 64"
  "length (ws_frame_payload w) = 10 \<Longrightarrow> length (ws_frame_payload (set_extended_length n w)) = 10"
  "length (ws_frame_payload w) = 10 \<Longrightarrow> ws_frame_payload (set_extended_length n w) ! 0 = ws_frame_payload w ! 0"
  by (simp_all add: ws_extended_length_def set_extended_length_def le_value_bytes nth_append)

lemma set_extended_sel [simp]:
  "ws_offset (set_extended_length n w) = ws_offset w" "ws_ready (set_extended_length n w) = ws_ready w"
  "ws_key_val (set_extended_length n w) = ws_key_val w" "ws_key_pos (set_extended_length n w) = ws_key_pos w"
  "ws_step (set_extended_length n w) = ws_step w" "ws_data_pos (set_extended_length n w) = ws_data_pos w"
  "ws_data_inkey (set_extended_length n w) = ws_data_inkey w" "ws_frame_pos (set_extended_length n w) = ws_frame_pos w"
  by (simp_all add: set_extended_length_def)

lemma extended_cong [simp]:
  "ws_extended_length (w\<lparr>ws_offset := a\<rparr>) = ws_extended_length w" "ws_extended_length (w\<lparr>ws_key_val := k\<rparr>) = ws_extended_length w"
  "ws_extended_length (w\<lparr>ws_key_pos := a\<rparr>) = ws_extended_length w" "ws_extended_length (w\<lparr>ws_step := st\<rparr>) = ws_extended_length w"
  "ws_extended_length (w\<lparr>ws_data_pos := a\<rparr>) = ws_extended_length w" "ws_extended_length (w\<lparr>ws_data_inkey := a\<rparr>) = ws_extended_length w"
  "ws_extended_length (w\<lparr>ws_frame_pos := i\<rparr>) = ws_extended_length w" "ws_extended_length (w\<lparr>ws_frame_payload := f\<rparr>) = le_value (drop 2 f)"
  by (simp_all add: ws_extended_length_def)

text \<open>One turn of the loop does what the specification does with the byte.\<close>

definition turn_ok :: "ws_abs \<Rightarrow> websocket_state \<Rightarrow> ape_buffer \<Rightarrow> ws_act list \<Rightarrow> ws_turn \<Rightarrow> bool" where
  "turn_ok a w buf acts res \<longleftrightarrow>
     (\<exists>w' buf'. res = Some (False, w', buf', acts) \<and> ws_ok w' buf' \<and> ws_sim a w' buf' \<and> ws_offset w' = ws_offset w + 1 \<and>
        b_length buf' = b_length buf \<and> b_size buf' = b_size buf \<and> length (b_data buf') = length (b_data buf) \<and>
        drop (ws_offset w + 1) (b_data buf') = drop (ws_offset w + 1) (b_data buf)) \<or>
     (\<exists>w' buf'. res = Some (True, w', buf', acts) \<and> ws_ok w' buf' \<and> ws_sim a w' buf' \<and> a = A_start \<and> ws_offset w + 1 = b_length buf \<and>
        ws_offset w' = 0 \<and> b_length buf' = 0 \<and> b_size buf' = b_size buf \<and> length (b_data buf') = length (b_data buf))"

lemma byte_start:
  assumes "ws_ok w buf" "ws_sim A_start w buf" "ws_offset w < b_length buf"
  shows "turn_ok (A_length (b_data buf ! ws_offset w)) w buf [] (ws_byte_07 w buf)"
  using assms unfolding turn_ok_def
  by (simp add: ws_byte_07_def ws_ok_def peek_def poke_def put_payload_def turn_def)

lemma byte_length:
  assumes "ws_ok w buf" "ws_sim (A_length op) w buf" "ws_offset w < b_length buf" "b = b_data buf ! ws_offset w" "feed (A_length op) b = ([], Some a)"
  shows "turn_ok a w buf [] (ws_byte_07 w buf)"
proof -
  have "unat (b AND 0x7F) mod 2 ^ 64 = unat (b AND 0x7F)" using u8_bound [of "b AND 0x7F"] by simp
  then show ?thesis using assms unfolding turn_ok_def
    by (auto simp: ws_byte_07_def ws_ok_def peek_def turn_def split: if_splits)
qed

lemma byte_key:
  assumes "ws_ok w buf" "ws_sim (A_key op len ks) w buf" "ws_offset w < b_length buf" "b = b_data buf ! ws_offset w"
    "feed (A_key op len ks) b = ([], Some a)"
  shows "turn_ok a w buf [] (ws_byte_07 w buf)"
proof -
  have "take (Suc (length ks)) ((ws_key_val w)[length ks := b]) = ks @ [b]"
    using assms(1,2) by (simp add: ws_ok_def take_Suc_conv_app_nth)
  moreover have "ks @ [b] = (ws_key_val w)[3 := b]" if "length ks = 3"
    using calculation that assms(1) by (simp add: ws_ok_def)
  ultimately show ?thesis using assms unfolding turn_ok_def
    by (auto simp: ws_byte_07_def ws_ok_def peek_def poke_def turn_def)
qed

lemma put_at:
  assumes "length f = 10" "take (length bs) (drop 2 f) = bs" "length bs < 8"
  shows "take (Suc (length bs)) (drop 2 (f[2 + length bs := b])) = bs @ [b]"
proof -
  have "drop 2 (f[2 + length bs := b]) = (drop 2 f)[length bs := b]" by (simp add: drop_update_swap)
  then show ?thesis using assms by (simp add: take_Suc_conv_app_nth)
qed

lemma byte_ext:
  assumes "ws_ok w buf" "ws_sim (A_ext op k bs) w buf" "ws_offset w < b_length buf" "b = b_data buf ! ws_offset w"
    "feed (A_ext op k bs) b = ([], Some a)"
  shows "turn_ok a w buf [] (ws_byte_07 w buf)"
proof -
  let ?f = "(ws_frame_payload w)[2 + length bs := b]"
  have f: "take (Suc (length bs)) (drop 2 ?f) = bs @ [b]" "length ?f = 10" "?f ! 0 = ws_frame_payload w ! 0"
    using put_at [of "ws_frame_payload w" bs b] assms(1,2) by (auto simp: ws_ok_def)
  have put: "put_payload (ws_frame_pos w) b w = Some (w\<lparr>ws_frame_payload := ?f\<rparr>)"
    using assms(1,2) by (auto simp: ws_ok_def put_payload_def poke_def nat_add_distrib)
  have pk: "peek (b_data buf) (ws_offset w) = Some b" using assms(1,3,4) by (simp add: ws_ok_def peek_def)
  have bound: "be_nat xs mod 2 ^ 64 = be_nat xs" if "length xs \<le> 4" for xs
  proof -
    have "(256 :: nat) ^ length xs \<le> 256 ^ 8" by (rule power_increasing) (use that in simp_all)
    then have "be_nat xs < 2 ^ 64" using be_nat_bound [of xs] by simp
    then show ?thesis by (rule mod_less)
  qed
  show ?thesis
  proof (cases "k = 2")
    case True
    have short: "ntohs (le_value (take 2 (drop 2 ?f))) = be_nat (bs @ [b])" if "length bs = 1"
    proof -
      have "take 2 (drop 2 ?f) = bs @ [b]" using f(1) that by (metis One_nat_def Suc_1)
      then show ?thesis using that by (simp only: ntohs_short length_append) (simp add: ntohs_short)
    qed
    show ?thesis
    proof (cases "length bs = 1")
      case L: True
      show ?thesis using True assms f L put pk short [OF L] bound [of "bs @ [b]"] unfolding turn_ok_def
        by (auto simp: ws_byte_07_def ws_ok_def turn_def ws_short_length_def)
    next
      case False
      then have "bs = []" using True assms(2) by (cases bs) auto
      then show ?thesis using True assms f put pk unfolding turn_ok_def by (auto simp: ws_byte_07_def ws_ok_def turn_def)
    qed
  next
    case False
    then have k: "k = 8" "ws_step w = WS_STEP_EXTENDED_LENGTH" using assms(2) by auto
    show ?thesis
    proof (cases "length bs = 7")
      case L: True
      have d: "drop 2 ?f = bs @ [b]" using f(1,2) L by simp
      have "le_value xs div 2 ^ 32 = le_value (drop 4 xs)" if "length xs = 8" for xs
      proof -
        have "le_value xs = le_value (take 4 xs) + 2 ^ 32 * le_value (drop 4 xs)"
          using le_value_append [of "take 4 xs" "drop 4 xs"] that by simp
        moreover have "le_value (take 4 xs) < 2 ^ 32" using le_value_bound [of "take 4 xs"] that by simp
        ultimately show ?thesis by simp
      qed
      then have "le_value (bs @ [b]) div 2 ^ 32 = le_value (drop 4 (bs @ [b]))" using L by simp
      then have ext: "ntohl (le_value (drop 2 ?f) div 2 ^ 32) = be_nat (drop 4 (bs @ [b]))"
        unfolding d using ntohl_long [of "drop 4 (bs @ [b])"] L by simp
      show ?thesis using k assms f L put pk ext bound [of "drop 4 (bs @ [b])"] unfolding turn_ok_def
        by (auto simp: ws_byte_07_def ws_ok_def turn_def)
    next
      case L: False
      then show ?thesis using k assms f put pk unfolding turn_ok_def by (auto simp: ws_byte_07_def ws_ok_def turn_def)
    qed
  qed
qed

lemma end_frame_ok:
  assumes "ws_ok w buf" "ws_offset w < b_length buf" "ws_step w = WS_STEP_START" "ws_frame_pos w = -1" "ws_key_pos w = 0" "ws_data_pos w = 0"
    "length (b_data buf) = length (b_data buf0)" "b_length buf = b_length buf0" "b_size buf = b_size buf0"
    "drop (ws_offset w + 1) (b_data buf) = drop (ws_offset w + 1) (b_data buf0)" "ws_offset w = ws_offset w0"
  shows "turn_ok A_start w0 buf0 acts (end_frame w buf acts)"
  using assms by (auto simp: turn_ok_def end_frame_def quit_loop_def turn_def ws_ok_def)

lemma byte_data:
  assumes ok: "ws_ok w buf" and sim: "ws_sim (A_data op key len col) w buf" and o: "ws_offset w < b_length buf"
    and b: "b = b_data buf ! ws_offset w" and f: "feed (A_data op key len col) b = (acts, r)"
  shows "case r of Some a \<Rightarrow> turn_ok a w buf acts (ws_byte_07 w buf) | None \<Rightarrow> \<exists>w' buf'. ws_byte_07 w buf = Some (True, w', buf', acts)"
proof -
  let ?x = "b XOR key ! (length col mod 4)"
  let ?buf = "buf\<lparr>b_data := (b_data buf)[ws_offset w := ?x]\<rparr>" and ?n = "(len + (2 ^ 64 - 1)) mod 2 ^ 64"
  define w1 where "w1 = (if ws_data_pos w = 0 then w\<lparr>ws_data_pos := ws_offset w\<rparr> else w)"
  define w2 where "w2 = set_extended_length (ws_extended_length w1 + (2 ^ 64 - 1)) (w1\<lparr>ws_data_inkey := ws_data_inkey w1 + 1\<rparr>)"
  have lens: "length (ws_frame_payload w) = 10" "length (ws_key_val w) = 4" "ws_key_val w = key" "ws_offset w < length (b_data buf)"
    "ws_step w = WS_STEP_DATA" "ws_data_inkey w = length col" "ws_extended_length w = len" "ws_frame_payload w ! 0 = op"
    using ok sim o by (auto simp: ws_ok_def)
  have w1: "ws_offset w1 = ws_offset w" "ws_frame_payload w1 = ws_frame_payload w" "ws_key_val w1 = key" "ws_data_inkey w1 = length col"
    "ws_extended_length w1 = len" "ws_ready w1 = ws_ready w" "ws_step w1 = WS_STEP_DATA"
    using lens by (auto simp: w1_def)
  have w2: "ws_extended_length w2 = ?n" "length (ws_frame_payload w2) = 10" "ws_frame_payload w2 ! 0 = op" "ws_offset w2 = ws_offset w"
    "ws_key_val w2 = key" "ws_data_inkey w2 = Suc (length col)" "ws_ready w2 = ws_ready w" "ws_step w2 = WS_STEP_DATA" "ws_data_pos w2 = ws_data_pos w1"
    using lens w1 by (auto simp: w2_def)
  have w2': "set_extended_length (len + 18446744073709551615) (w1\<lparr>ws_data_inkey := Suc (length col)\<rparr>) = w2"
    by (simp add: w2_def w1)
  have pos: "0 < ws_data_pos w1" "ws_offset w = ws_data_pos w1 + length col" "take (length col) (drop (ws_data_pos w1) (b_data buf)) = col"
    using sim by (auto simp: w1_def split: if_splits)
  have "drop (ws_data_pos w1) (b_data ?buf) = (drop (ws_data_pos w1) (b_data buf))[length col := ?x]"
    using pos(2) by (simp add: drop_update_swap)
  then have col: "take (Suc (length col)) (drop (ws_data_pos w1) (b_data ?buf)) = col @ [?x]"
    using pos lens(4) by (simp add: take_Suc_conv_app_nth)
  have body: "frame_body w2 ?buf = col @ [?x]" using col pos(2) w2 by (simp add: frame_body_def)
  have ok2: "ws_ok w2 ?buf" using ok w2 lens by (simp add: ws_ok_def)
  define w3 where "w3 = w2\<lparr>ws_step := WS_STEP_START, ws_frame_pos := -1, ws_data_pos := 0, ws_key_pos := 0\<rparr>"
  have byte: "ws_byte_07 w buf =
      (if ?n = 0 then
         if op AND 0x0F = 0x8 then quit_loop w3 ?buf [Ws_sendbin [0x88, 0] False]
         else if op AND 0x0F = 0x9 then ping_frame 0x8a 0x88 w3 ?buf (col @ [?x])
         else if op AND 0x0F = 0xA then end_frame w3 ?buf []
         else data_frame w3 ?buf (col @ [?x])
       else turn w2 ?buf [])"
    unfolding ws_byte_07_def
    using lens b w1 w2 body by (simp add: peek_def Let_def w1_def [symmetric] w2' w3_def)
  have ef: "turn_ok A_start w buf as (end_frame w3 ?buf as)" for as
    by (rule end_frame_ok) (use ok2 o w2 in \<open>auto simp: w3_def ws_ok_def\<close>)
  show ?thesis
  proof (cases "?n = 0")
    case True
    have "frame_done op (col @ [?x]) = (acts, r)" using f True by (simp add: Let_def)
    moreover have "data_frame w3 ?buf (col @ [?x]) = end_frame w3 ?buf [Ws_onready (cstring (col @ [?x]))]"
      using ok o w2 by (simp add: data_frame_def w3_def ws_ok_def)
    ultimately show ?thesis using ef True byte
      by (auto simp: frame_done_def ping_frame_def quit_loop_def split: if_splits)
  next
    case False
    have r: "acts = []" "r = Some (A_data op key ?n (col @ [?x]))" using f False by (auto simp: Let_def)
    have "ws_byte_07 w buf = turn w2 ?buf []" using byte False by simp
    then show ?thesis using ok2 w2 col pos o r unfolding turn_ok_def by (auto simp: turn_def ws_ok_def)
  qed
qed

lemma ws_byte_ok:
  assumes "ws_ok w buf" "ws_sim a w buf" "ws_offset w < b_length buf" "feed a (b_data buf ! ws_offset w) = (acts, r)"
  shows "case r of Some a' \<Rightarrow> turn_ok a' w buf acts (ws_byte_07 w buf) | None \<Rightarrow> \<exists>w' buf'. ws_byte_07 w buf = Some (True, w', buf', acts)"
proof (cases a)
  case A_start
  then show ?thesis using assms byte_start [of w buf] by auto
next
  case (A_length op)
  show ?thesis
  proof (cases r)
    case None
    then show ?thesis using assms A_length by (auto simp: ws_byte_07_def ws_ok_def peek_def quit_loop_def split: if_splits)
  next
    case (Some a')
    then show ?thesis using assms A_length byte_length [of w buf op _ a'] by auto
  qed
next
  case (A_ext op k bs)
  then show ?thesis using assms byte_ext [of w buf op k bs] by auto
next
  case (A_key op len ks)
  then show ?thesis using assms byte_key [of w buf op len ks] by auto
next
  case (A_data op key len col)
  then show ?thesis using assms byte_data [of w buf op key len col] by blast
qed

section \<open>Streams\<close>

text \<open>The loop over what is in the buffer does what the specification does with these bytes.\<close>

definition ws_pending :: "websocket_state \<Rightarrow> ape_buffer \<Rightarrow> u8 list" where
  "ws_pending w buf = drop (ws_offset w) (take (b_length buf) (b_data buf))"

lemma ws_pending_Cons:
  "ws_ok w buf \<Longrightarrow> ws_offset w < b_length buf \<Longrightarrow>
   ws_pending w buf = b_data buf ! ws_offset w # drop (Suc (ws_offset w)) (take (b_length buf) (b_data buf))"
  unfolding ws_pending_def by (subst Cons_nth_drop_Suc [symmetric]) (simp_all add: ws_ok_def)

lemma ws_loop_ok:
  assumes "ws_ok w buf" "ws_sim a w buf" "n = b_length buf - ws_offset w" "feeds a (ws_pending w buf) = (acts, Some a')"
  shows "\<exists>w' buf'. ws_loop ws_byte_07 n w buf = Some (w', buf', acts) \<and> ws_ok w' buf' \<and> ws_sim a' w' buf' \<and>
    ws_offset w' = b_length buf' \<and> (b_length buf' = b_length buf \<or> b_length buf' = 0) \<and> b_size buf' = b_size buf \<and> length (b_data buf') = length (b_data buf)"
  using assms
proof (induction n arbitrary: w buf a acts)
  case 0
  then have "ws_pending w buf = []" by (simp add: ws_pending_def)
  then show ?case using 0 by (simp add: ws_ok_def)
next
  case (Suc n)
  have o: "ws_offset w < b_length buf" using Suc.prems(3) by simp
  let ?rest = "drop (Suc (ws_offset w)) (take (b_length buf) (b_data buf))"
  obtain acts1 r where f: "feed a (b_data buf ! ws_offset w) = (acts1, r)" by fastforce
  have fs: "feeds a (b_data buf ! ws_offset w # ?rest) = (acts, Some a')"
    using Suc.prems(4) ws_pending_Cons [OF Suc.prems(1) o] by simp
  then obtain a1 acts2 where r: "r = Some a1" and f2: "feeds a1 ?rest = (acts2, Some a')" "acts = acts1 @ acts2"
    using f by (auto split: option.splits prod.splits)
  have "turn_ok a1 w buf acts1 (ws_byte_07 w buf)" using ws_byte_ok [OF Suc.prems(1,2) o f] r by simp
  then consider (go) w1 buf1 where "ws_byte_07 w buf = Some (False, w1, buf1, acts1)" "ws_ok w1 buf1" "ws_sim a1 w1 buf1"
      "ws_offset w1 = ws_offset w + 1" "b_length buf1 = b_length buf" "b_size buf1 = b_size buf" "length (b_data buf1) = length (b_data buf)"
      "drop (ws_offset w + 1) (b_data buf1) = drop (ws_offset w + 1) (b_data buf)"
    | (fin) w1 buf1 where "ws_byte_07 w buf = Some (True, w1, buf1, acts1)" "ws_ok w1 buf1" "ws_sim a1 w1 buf1" "a1 = A_start"
      "ws_offset w + 1 = b_length buf" "ws_offset w1 = 0" "b_length buf1 = 0" "b_size buf1 = b_size buf" "length (b_data buf1) = length (b_data buf)"
    unfolding turn_ok_def by blast
  then show ?case
  proof cases
    case go
    have "ws_pending w1 buf1 = ?rest" using go by (simp add: ws_pending_def drop_take)
    then have "feeds a1 (ws_pending w1 buf1) = (acts2, Some a')" using f2(1) by simp
    moreover have "n = b_length buf1 - ws_offset w1" using go Suc.prems(3) by simp
    ultimately show ?thesis using Suc.IH [OF go(2,3)] go f2(2) by fastforce
  next
    case fin
    have "?rest = []" using fin(5) by simp
    then have "acts2 = []" "a' = A_start" using f2(1) fin(4) by (auto simp del: drop_eq_Nil)
    then show ?thesis using fin f2(2) by auto
  qed
qed

lemma feeds_append:
  "feeds a (xs @ ys) = (case feeds a xs of (acts, None) \<Rightarrow> (acts, None) | (acts, Some a') \<Rightarrow> (let (acts', r) = feeds a' ys in (acts @ acts', r)))"
  by (induction a xs rule: feeds.induct) (auto simp: Let_def split: option.splits prod.splits)

text \<open>\<open>read\<close> into the free part of the buffer, which is enlarged when it is full.\<close>

definition read_in :: "u8 list \<Rightarrow> ape_buffer \<Rightarrow> ape_buffer" where
  "read_in bs buf =
     (let dat = take (b_length buf) (b_data buf) @ bs @ drop (b_length buf + length bs) (b_data buf); len = b_length buf + length bs in
      if len = b_size buf then \<lparr>b_data = dat @ replicate (b_size buf) 0, b_size = 2 * b_size buf, b_length = len\<rparr>
      else buf\<lparr>b_data := dat, b_length := len\<rparr>)"

text \<open>The server loop on a connection: each \<open>read\<close> returns as many bytes as the kernel has, but no more than
  there is room; then the parser is called.\<close>

fun ws_reads :: "ws_version \<Rightarrow> nat list \<Rightarrow> u8 list \<Rightarrow> websocket_state \<Rightarrow> ape_buffer \<Rightarrow>
  (u8 list \<times> websocket_state \<times> ape_buffer \<times> ws_act list) option" where
  "ws_reads v [] inp w buf = Some (inp, w, buf, [])"
| "ws_reads v (n # ns) inp w buf = do {
     let k = min n (b_size buf - b_length buf);
     (w, buf, acts) \<leftarrow> process_websocket v w (read_in (take k inp) buf);
     (inp, w, buf, acts') \<leftarrow> ws_reads v ns (drop k inp) w buf;
     Some (inp, w, buf, acts @ acts') }"

definition DEFAULT_BUFFER_SIZE :: nat where "DEFAULT_BUFFER_SIZE = 2048"

text \<open>The parser after the handshake, with whatever was in the memory it was given, and the buffer of a connection.\<close>

definition parser_init_stream :: "ws_payload_step \<Rightarrow> u8 list \<Rightarrow> nat \<Rightarrow> websocket_state" where
  "parser_init_stream st key inkey =
     \<lparr>ws_offset = 0, ws_ready = 0, ws_key_val = key, ws_key_pos = 0, ws_frame_payload = replicate 10 0, ws_step = st,
      ws_data_pos = 0, ws_data_inkey = inkey, ws_frame_pos = 0\<rparr>"

definition buffer_ok :: "ape_buffer \<Rightarrow> bool" where
  "buffer_ok buf \<longleftrightarrow> length (b_data buf) = b_size buf + 1 \<and> b_length buf < b_size buf"

lemma read_in_ok:
  assumes "buffer_ok buf" "length bs \<le> b_size buf - b_length buf"
  shows "buffer_ok (read_in bs buf)" "b_length (read_in bs buf) = b_length buf + length bs"
    "take (b_length buf + length bs) (b_data (read_in bs buf)) = take (b_length buf) (b_data buf) @ bs"
  using assms by (auto simp: buffer_ok_def read_in_def Let_def)

lemma sim_read_in:
  assumes "buffer_ok buf" "length bs \<le> b_size buf - b_length buf" "ws_ok w buf" "ws_sim a w buf" "ws_offset w = b_length buf"
  shows "ws_ok w (read_in bs buf)" "ws_sim a w (read_in bs buf)" "ws_pending w (read_in bs buf) = bs"
proof -
  note ri = read_in_ok [OF assms(1,2)]
  show "ws_ok w (read_in bs buf)" using assms(3,5) ri(1,2) by (simp add: ws_ok_def buffer_ok_def)
  show "ws_pending w (read_in bs buf) = bs" using assms(1,5) ri(2,3) by (simp add: ws_pending_def buffer_ok_def)
  have same: "take n (drop m (b_data (read_in bs buf))) = take n (drop m (b_data buf))" if "m + n \<le> b_length buf" for m n
  proof -
    have "take (m + n) (b_data (read_in bs buf)) = take (m + n) (b_data buf)"
      using arg_cong [OF ri(3), of "take (m + n)"] that assms(1) by (simp add: buffer_ok_def min_def split: if_splits)
    then show ?thesis by (simp add: take_drop add.commute)
  qed
  show "ws_sim a w (read_in bs buf)"
  proof (cases a)
    case (A_data op key len col)
    then show ?thesis using assms(4,5) same [of "ws_data_pos w" "length col"] by (auto split: if_splits)
  qed (use assms(4) in auto)
qed

lemma ws_reads_ok:
  assumes "buffer_ok buf" "ws_ok w buf" "ws_sim a w buf" "ws_offset w = b_length buf"
    "b_length buf + length inp \<le> WS_MAX" "snd (feeds a inp) \<noteq> None"
  shows "\<exists>got rest w' buf' acts a'. ws_reads WS_IETF_07 ns inp w buf = Some (rest, w', buf', acts) \<and> inp = got @ rest \<and>
    feeds a got = (acts, Some a') \<and> ws_sim a' w' buf' \<and> ws_ok w' buf' \<and> buffer_ok buf' \<and> ws_offset w' = b_length buf'"
  using assms
proof (induction ns arbitrary: inp w buf a)
  case Nil
  then show ?case by auto
next
  case (Cons n ns)
  define k where "k = min n (b_size buf - b_length buf)"
  let ?bs = "take k inp" and ?buf = "read_in (take k inp) buf"
  have len: "length ?bs \<le> b_size buf - b_length buf" by (simp add: k_def)
  note ri = read_in_ok [OF Cons.prems(1) len] and si = sim_read_in [OF Cons.prems(1) len Cons.prems(2-4)]
  have inp: "feeds a inp = feeds a (?bs @ drop k inp)" by simp
  obtain acts1 a1 where f1: "feeds a ?bs = (acts1, Some a1)" and f2: "snd (feeds a1 (drop k inp)) \<noteq> None"
    using Cons.prems(6) unfolding inp feeds_append by (auto split: prod.splits option.splits)
  have small: "b_length ?buf + length (drop k inp) \<le> WS_MAX" using ri(2) Cons.prems(5) by simp
  obtain w1 buf1 where w1: "ws_loop ws_byte_07 (b_length ?buf - ws_offset w) w ?buf = Some (w1, buf1, acts1)" "ws_ok w1 buf1" "ws_sim a1 w1 buf1"
    "ws_offset w1 = b_length buf1" "b_length buf1 = b_length ?buf \<or> b_length buf1 = 0" "b_size buf1 = b_size ?buf" "length (b_data buf1) = length (b_data ?buf)"
    using ws_loop_ok [OF si(1,2) refl] si(3) f1 by metis
  have pw: "process_websocket WS_IETF_07 w ?buf = Some (w1, buf1, acts1)"
  proof (cases "b_length ?buf = 0")
    case True
    then have "b_length ?buf - ws_offset w = 0" by simp
    then have "w1 = w" "buf1 = ?buf" "acts1 = []" using w1(1) by auto
    then show ?thesis using True by (simp add: process_websocket_def)
  next
    case False
    then show ?thesis using w1(1) small si(1) by (simp add: process_websocket_def process_websocket_frame_def ws_ok_def)
  qed
  have b1: "buffer_ok buf1" using ri(1) w1(5-7) by (auto simp: buffer_ok_def)
  have s1: "b_length buf1 + length (drop k inp) \<le> WS_MAX" using small w1(5) by auto
  obtain got rest w' buf' acts2 a' where IH: "ws_reads WS_IETF_07 ns (drop k inp) w1 buf1 = Some (rest, w', buf', acts2)" "drop k inp = got @ rest"
    "feeds a1 got = (acts2, Some a')" "ws_sim a' w' buf'" "ws_ok w' buf'" "buffer_ok buf'" "ws_offset w' = b_length buf'"
    using Cons.IH [OF b1 w1(2,3,4) s1 f2] by blast
  have "feeds a (?bs @ got) = (acts1 @ acts2, Some a')" unfolding feeds_append f1 by (simp add: IH(3))
  moreover have "inp = (?bs @ got) @ rest" using IH(2) by (metis append.assoc append_take_drop_id)
  moreover have "ws_reads WS_IETF_07 (n # ns) inp w buf = Some (rest, w', buf', acts1 @ acts2)"
    using pw IH(1) by (simp add: k_def [symmetric] Let_def)
  ultimately show ?case using IH(4-7) by blast
qed

section \<open>Frames\<close>

text \<open>A frame as a client sends it: first byte, length in the shortest form, key and masked payload.\<close>

fun ws_masked :: "u8 list \<Rightarrow> nat \<Rightarrow> u8 list \<Rightarrow> u8 list" where
  "ws_masked key i [] = []"
| "ws_masked key i (b # bs) = (b XOR key ! (i mod 4)) # ws_masked key (Suc i) bs"

definition ws_length_field :: "nat \<Rightarrow> u8 list" where
  "ws_length_field n =
     (if n < 126 then [0x80 OR of_nat n]
      else if n < 2 ^ 16 then (0x80 OR 126) # rev (le_bytes 2 n)
      else (0x80 OR 127) # rev (le_bytes 8 n))"

definition ws_frame :: "u8 \<times> u8 list \<times> u8 list \<Rightarrow> u8 list" where
  "ws_frame f = (let (op, key, body) = f in op # ws_length_field (length body) @ key @ ws_masked key 0 body)"

definition ws_frame_ok :: "u8 \<times> u8 list \<times> u8 list \<Rightarrow> bool" where
  "ws_frame_ok f = (let (op, key, body) = f in length key = 4 \<and> body \<noteq> [] \<and> snd (frame_done op body) = Some A_start)"

lemma feeds_run: "feeds a xs = ([], Some a') \<Longrightarrow> feeds a (xs @ ys) = feeds a' ys"
  by (simp add: feeds_append split: prod.splits)

lemma feeds_ext:
  "bs \<noteq> [] \<Longrightarrow> length as + length bs = k \<Longrightarrow> feeds (A_ext op k as) bs = ([], Some (A_key op (be_nat (drop (k - min k 4) (as @ bs))) []))"
proof (induction bs arbitrary: as)
  case (Cons b bs)
  show ?case
  proof (cases "bs = []")
    case True
    then show ?thesis using Cons.prems by simp
  next
    case False
    then have "length as + 1 \<noteq> k" using Cons.prems(2) by (cases bs) auto
    then show ?thesis using Cons.IH [of "as @ [b]"] Cons.prems False by simp
  qed
qed simp

lemma feeds_key: "length ks + length bs = 4 \<Longrightarrow> bs \<noteq> [] \<Longrightarrow> feeds (A_key op n ks) bs = ([], Some (A_data op (ks @ bs) n []))"
proof (induction bs arbitrary: ks)
  case (Cons b bs)
  show ?case
  proof (cases "bs = []")
    case True
    then show ?thesis using Cons.prems by simp
  next
    case False
    then have "length ks \<noteq> 3" using Cons.prems(1) by (cases bs) auto
    then show ?thesis using Cons.IH [of "ks @ [b]"] Cons.prems False by simp
  qed
qed simp

lemma feeds_data:
  "body \<noteq> [] \<Longrightarrow> length body < 2 ^ 64 \<Longrightarrow> snd (frame_done op (col @ body)) = Some A_start \<Longrightarrow>
   feeds (A_data op key (length body) col) (ws_masked key (length col) body) = frame_done op (col @ body)"
proof (induction body arbitrary: col)
  case (Cons b body)
  have n: "(length (b # body) + (2 ^ 64 - 1)) mod 2 ^ 64 = length body"
  proof -
    have "length (b # body) + (2 ^ 64 - 1) = length body + 2 ^ 64" by simp
    then show ?thesis using Cons.prems(2) by (simp only: mod_add_self2) simp
  qed
  have x: "(b XOR k) XOR k = b" for k :: u8 by (simp add: xor.assoc)
  have f: "feed (A_data op key (length (b # body)) col) (b XOR key ! (length col mod 4)) =
      (if body = [] then frame_done op (col @ [b]) else ([], Some (A_data op key (length body) (col @ [b]))))"
    using n by (simp add: Let_def x del: length_Cons)
  show ?case
  proof (cases "body = []")
    case True
    then show ?thesis using f Cons.prems(3) by (cases "frame_done op (col @ [b])") (simp del: feed.simps)
  next
    case False
    then show ?thesis using f Cons.IH [of "col @ [b]"] Cons.prems by (simp split: prod.splits del: feed.simps)
  qed
qed simp

lemma le_bytes_take: "j \<le> k \<Longrightarrow> take j (le_bytes k n) = le_bytes j n"
proof (induction k n arbitrary: j rule: le_bytes.induct)
  case (2 k n)
  then show ?case by (cases j) auto
qed simp

lemma small_length:
  assumes "n < 128"
  shows "(0x80 OR of_nat n :: u8) AND 0x80 \<noteq> 0" "unat ((0x80 OR of_nat n :: u8) AND 0x7F) = n"
proof -
  define w :: u8 where "w = of_nat n"
  have "bit ((0x80 OR w) AND 0x80) 7" by (simp add: bit_simps)
  then show "(0x80 OR of_nat n :: u8) AND 0x80 \<noteq> 0" unfolding w_def by (metis bit_0_eq bot_apply bot_bool_def)
  have "(0x80 OR w) AND 0x7F = w AND 0x7F" by (rule u8_eqI) (simp_all add: bit_simps)
  also have "\<dots> = take_bit 7 w" by (simp add: take_bit_eq_mask mask_eq_exp_minus_1)
  finally show "unat ((0x80 OR of_nat n :: u8) AND 0x7F) = n"
    using assms by (simp add: w_def unat_mod_distrib unat_of_nat take_bit_eq_mod)
qed

lemma feeds_length:
  assumes "n < 2 ^ 32"
  shows "feeds (A_length op) (ws_length_field n) = ([], Some (A_key op n []))"
proof -
  consider "n < 126" | "126 \<le> n" "n < 2 ^ 16" | "2 ^ 16 \<le> n" by linarith
  then show ?thesis
  proof cases
    case 1
    have n: "unat ((0x80 OR of_nat n :: u8) AND 0x7F) = n" "(0x80 OR of_nat n :: u8) AND 0x80 \<noteq> 0" using small_length [of n] 1 by auto
    have "(0x80 OR of_nat n :: u8) AND 0x7F \<noteq> 126" "(0x80 OR of_nat n :: u8) AND 0x7F \<noteq> 127"
      using n(1) 1 by auto
    then show ?thesis using 1 n by (simp add: ws_length_field_def)
  next
    case 2
    have "be_nat (rev (le_bytes 2 n)) = n" using 2 by (simp add: be_nat_def le_value_bytes)
    moreover have "rev (le_bytes 2 n) \<noteq> []" by (simp add: numeral_2_eq_2)
    ultimately show ?thesis using 2 feeds_ext [of "rev (le_bytes 2 n)" "[]" 2 op] by (simp add: ws_length_field_def)
  next
    case 3
    have "be_nat (drop 4 (rev (le_bytes 8 n))) = n"
      using assms by (simp add: be_nat_def drop_rev le_bytes_take le_value_bytes)
    moreover have "rev (le_bytes 8 n) \<noteq> []" using le_bytes_length [of 8 n] by force
    ultimately show ?thesis using 3 feeds_ext [of "rev (le_bytes 8 n)" "[]" 8 op] by (simp add: ws_length_field_def)
  qed
qed

lemma feeds_frame:
  assumes "ws_frame_ok (op, key, body)" "length body < 2 ^ 32"
  shows "feeds A_start (ws_frame (op, key, body)) = frame_done op body"
proof -
  have k: "length key = 4" "body \<noteq> []" "snd (frame_done op body) = Some A_start" using assms(1) by (auto simp: ws_frame_ok_def)
  have "feeds (A_key op (length body) []) key = ([], Some (A_data op key (length body) []))"
    using feeds_key [of "[]" key op "length body"] k(1) by force
  then have "feeds (A_key op (length body) []) (key @ ws_masked key 0 body) = frame_done op body"
    using feeds_data [of body op "[]" key] k assms(2) by (simp add: feeds_run)
  then have "feeds (A_length op) (ws_length_field (length body) @ key @ ws_masked key 0 body) = frame_done op body"
    using feeds_length [OF assms(2), of op] by (simp add: feeds_run)
  then show ?thesis by (simp add: ws_frame_def)
qed

lemma ws_masked_length [simp]: "length (ws_masked key i bs) = length bs"
  by (induction key i bs rule: ws_masked.induct) auto

lemma feeds_frames:
  assumes "list_all ws_frame_ok fs" "length (concat (map ws_frame fs)) < 2 ^ 32"
  shows "feeds A_start (concat (map ws_frame fs)) = (concat (map (\<lambda>(op, key, body). fst (frame_done op body)) fs), Some A_start)"
  using assms
proof (induction fs)
  case (Cons f fs)
  obtain op key body where f: "f = (op, key, body)" by (cases f)
  have "length body \<le> length (ws_frame f)" by (simp add: f ws_frame_def)
  then have "length body < 2 ^ 32" using Cons.prems(2) by simp
  then have "feeds A_start (ws_frame f) = (fst (frame_done op body), Some A_start)"
    using Cons.prems(1) f feeds_frame [of op key body] by (cases "frame_done op body") (simp add: ws_frame_ok_def)
  then show ?case using Cons.IH Cons.prems f by (simp add: feeds_append)
qed simp

section \<open>Arbitrary input\<close>

text \<open>What holds of the parser whatever was received, also after a close frame, which leaves the loop without
  moving on.\<close>

definition ws_inv :: "websocket_state \<Rightarrow> ape_buffer \<Rightarrow> bool" where
  "ws_inv w buf \<longleftrightarrow> length (ws_frame_payload w) = 10 \<and> length (ws_key_val w) = 4 \<and> ws_offset w \<le> b_length buf \<and>
     (case ws_step w of
        WS_STEP_KEY \<Rightarrow> ws_key_pos w < 4
      | WS_STEP_START \<Rightarrow> ws_key_pos w = 0 \<and> -1 \<le> ws_frame_pos w \<and> ws_frame_pos w \<le> 0
      | WS_STEP_LENGTH \<Rightarrow> ws_key_pos w = 0 \<and> 0 \<le> ws_frame_pos w \<and> ws_frame_pos w \<le> 1
      | WS_STEP_SHORT_LENGTH \<Rightarrow> ws_key_pos w = 0 \<and> 1 \<le> ws_frame_pos w \<and> ws_frame_pos w \<le> 3
      | WS_STEP_EXTENDED_LENGTH \<Rightarrow> ws_key_pos w = 0 \<and> 1 \<le> ws_frame_pos w \<and> ws_frame_pos w \<le> 9
      | _ \<Rightarrow> True)"

definition turn_safe :: "ape_buffer \<Rightarrow> nat \<Rightarrow> ws_turn \<Rightarrow> bool" where
  "turn_safe buf off res =
     (case res of
        None \<Rightarrow> False
      | Some (d, w', buf', acts) \<Rightarrow>
          ws_inv w' buf' \<and> length (b_data buf') = length (b_data buf) \<and> b_size buf' = b_size buf \<and> b_length buf' \<le> b_length buf \<and>
          (\<not> d \<longrightarrow> ws_offset w' = off + 1 \<and> b_length buf' = b_length buf))"

lemma turn_safeI:
  "ws_inv (w\<lparr>ws_frame_pos := ws_frame_pos w + 1, ws_offset := ws_offset w + 1\<rparr>) buf' \<Longrightarrow> length (b_data buf') = length (b_data buf) \<Longrightarrow>
   b_size buf' = b_size buf \<Longrightarrow> b_length buf' = b_length buf \<Longrightarrow> ws_offset w = off \<Longrightarrow> turn_safe buf off (turn w buf' acts)"
  by (simp add: turn_safe_def turn_def)

lemma end_frame_safe:
  assumes "length (ws_frame_payload w) = 10" "length (ws_key_val w) = 4" "ws_offset w < b_length buf'" "ws_step w = WS_STEP_START" "ws_key_pos w = 0"
    "ws_frame_pos w = -1" "length (b_data buf') = length (b_data buf)" "b_size buf' = b_size buf" "b_length buf' = b_length buf" "ws_offset w = off"
  shows "turn_safe buf off (end_frame w buf' acts)" "turn_safe buf off (quit_loop w buf' acts)"
  using assms by (simp_all add: turn_safe_def end_frame_def quit_loop_def turn_def ws_inv_def)

lemma ws_byte_safe:
  assumes inv: "ws_inv w buf" and o: "ws_offset w < b_length buf" and len: "b_length buf < length (b_data buf)"
  shows "turn_safe buf (ws_offset w) (ws_byte_07 w buf)"
proof -
  let ?b = "b_data buf ! ws_offset w"
  have pk: "peek (b_data buf) (ws_offset w) = Some ?b" using o len by (simp add: peek_def)
  have l: "length (ws_frame_payload w) = 10" "length (ws_key_val w) = 4" using inv by (auto simp: ws_inv_def)
  show ?thesis
  proof (cases "ws_step w")
    case WS_STEP_KEY
    then show ?thesis using inv o pk
      by (auto simp: ws_byte_07_def poke_def ws_inv_def Let_def intro!: turn_safeI)
  next
    case WS_STEP_START
    then show ?thesis using inv o pk
      by (auto simp: ws_byte_07_def put_payload_def poke_def ws_inv_def intro!: turn_safeI)
  next
    case WS_STEP_LENGTH
    have "turn_safe buf (ws_offset w) (quit_loop w buf [])" using inv by (simp add: turn_safe_def quit_loop_def)
    then show ?thesis using WS_STEP_LENGTH inv o pk l
      by (auto simp: ws_byte_07_def ws_inv_def intro!: turn_safeI)
  next
    case WS_STEP_SHORT_LENGTH
    then show ?thesis using inv o pk l
      by (auto simp: ws_byte_07_def put_payload_def poke_def ws_inv_def nat_less_iff intro!: turn_safeI)
  next
    case WS_STEP_EXTENDED_LENGTH
    then show ?thesis using inv o pk l
      by (auto simp: ws_byte_07_def put_payload_def poke_def ws_inv_def nat_less_iff intro!: turn_safeI)
  next
    case WS_STEP_DATA
    define w1 where "w1 = (if ws_data_pos w = 0 then w\<lparr>ws_data_pos := ws_offset w\<rparr> else w)"
    define w2 where "w2 = set_extended_length (ws_extended_length w1 + (2 ^ 64 - 1)) (w1\<lparr>ws_data_inkey := ws_data_inkey w1 + 1\<rparr>)"
    define w3 where "w3 = w2\<lparr>ws_step := WS_STEP_START, ws_frame_pos := -1, ws_data_pos := 0, ws_key_pos := 0\<rparr>"
    define k where "k = ws_key_val w1 ! (ws_data_inkey w1 mod 4)"
    let ?buf = "buf\<lparr>b_data := (b_data buf)[ws_offset w := ?b XOR k]\<rparr>"
    have w1: "ws_frame_payload w1 = ws_frame_payload w" "ws_key_val w1 = ws_key_val w" "ws_offset w1 = ws_offset w" "ws_step w1 = WS_STEP_DATA"
      using WS_STEP_DATA by (auto simp: w1_def)
    have w2: "length (ws_frame_payload w2) = 10" "ws_key_val w2 = ws_key_val w" "ws_offset w2 = ws_offset w" "ws_step w2 = WS_STEP_DATA"
      using l w1 by (auto simp: w2_def)
    have kk: "peek (ws_key_val w1) (ws_data_inkey w1 mod 4) = Some k" using l w1 by (simp add: peek_def k_def)
    have p0: "peek (ws_frame_payload w2) 0 = Some (ws_frame_payload w2 ! 0)" using w2 by (simp add: peek_def)
    have byte: "ws_byte_07 w buf =
      (if ws_extended_length w2 = 0 then
         if ws_frame_payload w2 ! 0 AND 0x0F = 0x8 then quit_loop w3 ?buf [Ws_sendbin [0x88, 0] False]
         else if ws_frame_payload w2 ! 0 AND 0x0F = 0x9 then ping_frame 0x8a 0x88 w3 ?buf (frame_body w2 ?buf)
         else if ws_frame_payload w2 ! 0 AND 0x0F = 0xA then end_frame w3 ?buf []
         else data_frame w3 ?buf (frame_body w2 ?buf)
       else turn w2 ?buf [])"
      unfolding ws_byte_07_def WS_STEP_DATA Let_def w1_def [symmetric] pk bind.bind_lunit
      by (simp only: ws_payload_step.case kk bind.bind_lunit w1(3) w2_def [symmetric] w3_def [symmetric] p0)
    have e: "turn_safe buf (ws_offset w) (end_frame w3 ?buf as)" "turn_safe buf (ws_offset w) (quit_loop w3 ?buf as)" for as
      by (rule end_frame_safe; use l w2 o in \<open>simp add: w3_def\<close>)+
    have t: "turn_safe buf (ws_offset w) (turn w2 ?buf [])"
      by (rule turn_safeI) (use l w2 o in \<open>simp_all add: ws_inv_def\<close>)
    have d: "data_frame w3 ?buf x = end_frame w3 ?buf [Ws_onready (cstring x)]" for x
      using w2 o len by (simp add: data_frame_def w3_def)
    show ?thesis unfolding byte d ping_frame_def using e t by simp
  next
    case WS_STEP_END
    then show ?thesis using inv o pk by (auto simp: ws_byte_07_def ws_inv_def intro!: turn_safeI)
  qed
qed

lemma ws_loop_safe:
  assumes "ws_inv w buf" "n \<le> b_length buf - ws_offset w" "b_length buf < length (b_data buf)"
  shows "\<exists>w' buf' acts. ws_loop ws_byte_07 n w buf = Some (w', buf', acts) \<and> ws_inv w' buf' \<and>
    length (b_data buf') = length (b_data buf) \<and> b_size buf' = b_size buf \<and> b_length buf' \<le> b_length buf"
  using assms
proof (induction n arbitrary: w buf)
  case (Suc n)
  have o: "ws_offset w < b_length buf" using Suc.prems(2) by simp
  obtain d w1 buf1 acts where r: "ws_byte_07 w buf = Some (d, w1, buf1, acts)" "ws_inv w1 buf1" "length (b_data buf1) = length (b_data buf)"
    "b_size buf1 = b_size buf" "b_length buf1 \<le> b_length buf" "\<not> d \<Longrightarrow> ws_offset w1 = ws_offset w + 1 \<and> b_length buf1 = b_length buf"
    using ws_byte_safe [OF Suc.prems(1) o Suc.prems(3)] unfolding turn_safe_def by (auto split: option.splits)
  show ?case
  proof (cases d)
    case False
    then have "n \<le> b_length buf1 - ws_offset w1" "b_length buf1 < length (b_data buf1)" using r(3,6) Suc.prems(2,3) by auto
    then show ?thesis using Suc.IH [OF r(2)] r False by fastforce
  qed (use r in auto)
qed auto

lemma process_websocket_safe:
  assumes inv: "ws_inv w buf" and ok: "buffer_ok buf"
  shows "\<exists>w' buf' acts. process_websocket WS_IETF_07 w buf = Some (w', buf', acts) \<and> ws_inv w' buf' \<and> buffer_ok buf'"
proof -
  obtain w2 buf2 acts2 where "ws_loop ws_byte_07 (b_length buf - ws_offset w) w buf = Some (w2, buf2, acts2)" "ws_inv w2 buf2" "buffer_ok buf2"
    using ws_loop_safe [OF inv, of "b_length buf - ws_offset w"] ok by (auto simp: buffer_ok_def)
  then show ?thesis using inv ok by (simp add: process_websocket_def process_websocket_frame_def)
qed

lemma ws_inv_read:
  assumes "ws_inv w buf" "buffer_ok buf" "length bs \<le> b_size buf - b_length buf"
  shows "ws_inv w (read_in bs buf)" "buffer_ok (read_in bs buf)"
  using assms read_in_ok [OF assms(2,3)] by (auto simp: ws_inv_def split: ws_payload_step.splits)

lemma ws_reads_safe:
  assumes "ws_inv w buf" "buffer_ok buf"
  shows "\<exists>rest w' buf' acts. ws_reads WS_IETF_07 ns inp w buf = Some (rest, w', buf', acts) \<and> ws_inv w' buf' \<and> buffer_ok buf'"
  using assms
proof (induction ns arbitrary: inp w buf)
  case (Cons n ns)
  define k where "k = min n (b_size buf - b_length buf)"
  have fit: "length (take k inp) \<le> b_size buf - b_length buf" by (simp add: k_def)
  obtain w1 buf1 acts where "process_websocket WS_IETF_07 w (read_in (take k inp) buf) = Some (w1, buf1, acts)" "ws_inv w1 buf1" "buffer_ok buf1"
    using process_websocket_safe [OF ws_inv_read [OF Cons.prems fit]] by blast
  then show ?case using Cons.IH [of w1 buf1 "drop k inp"] by (auto simp: k_def [symmetric] Let_def)
qed auto

lemma parser_init_inv: "length key = 4 \<Longrightarrow> ws_inv (parser_init_stream WS_STEP_START key inkey) buf"
  by (simp add: ws_inv_def parser_init_stream_def)

section \<open>Correctness\<close>

definition fresh_buffer :: "u8 list \<Rightarrow> ape_buffer" where
  "fresh_buffer mem = \<lparr>b_data = mem, b_size = DEFAULT_BUFFER_SIZE, b_length = 0\<rparr>"

text \<open>C21. Websocket frames of the current draft. However the network cuts a stream of well-formed frames
  (data frames, pings of at most 125 bytes, pongs) into reads, the reader stays inside its buffers and does
  exactly what the frames ask for, in order: each data frame is handed over once, unmasked, and each ping is
  answered with its own body. When all was read, all was done.\<close>

theorem ws_frames_delivered:
  assumes "list_all ws_frame_ok fs" "length (concat (map ws_frame fs)) \<le> WS_MAX" "length key = 4" "length mem = DEFAULT_BUFFER_SIZE + 1"
  shows "\<exists>rest w buf acts later. ws_reads WS_IETF_07 ns (concat (map ws_frame fs)) (parser_init_stream WS_STEP_START key inkey) (fresh_buffer mem) =
      Some (rest, w, buf, acts) \<and>
    concat (map (\<lambda>(op, key, body). fst (frame_done op body)) fs) = acts @ later \<and> (rest = [] \<longrightarrow> later = [])"
proof -
  let ?inp = "concat (map ws_frame fs)" and ?w = "parser_init_stream WS_STEP_START key inkey" and ?buf = "fresh_buffer mem"
  have small: "length ?inp < 2 ^ 32" using assms(2) by (simp add: WS_MAX_def)
  note fs = feeds_frames [OF assms(1) small]
  have ok: "buffer_ok ?buf" "ws_ok ?w ?buf" "ws_sim A_start ?w ?buf" "ws_offset ?w = b_length ?buf"
    using assms(3,4) by (simp_all add: buffer_ok_def ws_ok_def parser_init_stream_def fresh_buffer_def DEFAULT_BUFFER_SIZE_def)
  obtain got rest w' buf' acts a' where r: "ws_reads WS_IETF_07 ns ?inp ?w ?buf = Some (rest, w', buf', acts)" "?inp = got @ rest"
    "feeds A_start got = (acts, Some a')"
    using ws_reads_ok [OF ok, of ?inp ns] assms(2) fs by (auto simp: fresh_buffer_def)
  obtain later where l: "concat (map (\<lambda>(op, key, body). fst (frame_done op body)) fs) = acts @ later" "feeds a' rest = (later, Some A_start)"
    using fs unfolding r(2) feeds_append r(3) by (auto split: prod.splits)
  then have "rest = [] \<longrightarrow> later = []" by auto
  then show ?thesis using r(1) l(1) by blast
qed

text \<open>An empty frame, which the protocol allows, is not recognised as complete: the length wraps, and the
  bytes that follow are taken for its payload.\<close>

lemma ws_empty_frame:
  "length key = 4 \<Longrightarrow> feeds A_start (ws_frame (op, key, []) @ [b]) = ([], Some (A_data op key (2 ^ 64 - 1) [b XOR key ! 0]))"
proof -
  assume "length key = 4"
  then have "feeds (A_key op 0 []) key = ([], Some (A_data op key 0 []))" using feeds_key [of "[]" key op 0] by force
  then have "feeds (A_length op) (ws_length_field 0 @ key @ [b]) = ([], Some (A_data op key (2 ^ 64 - 1) [b XOR key ! 0]))"
    using feeds_length [of 0 op] by (simp add: feeds_run)
  then show ?thesis by (simp add: ws_frame_def)
qed

theorem ws_frames_delivered_witness:
  "\<exists>rest w buf acts later. ws_reads WS_IETF_07 [3, 2000] (ws_frame (0x81, [1, 2, 3, 4], [72, 105])) (parser_init_stream WS_STEP_START [0, 0, 0, 0] 0)
      (fresh_buffer (replicate 2049 0)) = Some (rest, w, buf, acts) \<and>
    [Ws_onready [72, 105]] = acts @ later \<and> (rest = [] \<longrightarrow> later = [])"
proof -
  have "ws_frame_ok (0x81, [1, 2, 3, 4], [72, 105])" by (simp add: ws_frame_ok_def frame_done_def)
  moreover have "length (ws_frame (0x81, [1, 2, 3, 4], [72, 105])) \<le> WS_MAX" by (simp add: ws_frame_def ws_length_field_def WS_MAX_def)
  ultimately show ?thesis
    using ws_frames_delivered [of "[(0x81, [1, 2, 3, 4], [72, 105])]" "[0, 0, 0, 0]" "replicate 2049 0" "[3, 2000]" 0]
    by (simp add: DEFAULT_BUFFER_SIZE_def frame_done_def cstring_def)
qed



text \<open>The reader of the earlier draft is not safe: after a close frame it stores the next byte before the key.\<close>

lemma ws_close_06:
  "ws_step w = WS_STEP_KEY \<Longrightarrow> ws_frame_pos w = -1 \<Longrightarrow> ws_byte_06 w buf = None"
  by (simp add: ws_byte_06_def Let_def)

lemma ws_close_06_reached:
  assumes "ws_step w = WS_STEP_DATA" "ws_extended_length w = 1" "length (ws_frame_payload w) = 10" "length (ws_key_val w) = 4" "4 \<le> ws_frame_pos w"
    "ws_offset w < length (b_data buf)" "ws_frame_payload w ! 0 AND 0x0F = 1"
  shows "\<exists>w' buf'. ws_byte_06 w buf = Some (True, w', buf', [Ws_sendbin [0x81, 0] False]) \<and>
    ws_step w' = WS_STEP_KEY \<and> ws_frame_pos w' = -1 \<and> ws_offset w' = ws_offset w"
proof -
  have "set_extended_length (ws_extended_length w + (2 ^ 64 - 1)) w = set_extended_length 0 w"
    using assms(2) by (simp add: set_extended_length_def)
  then show ?thesis using assms by (auto simp: ws_byte_06_def peek_def Let_def quit_loop_def)
qed

end
