(* ===== verification/Ape_Http.thy ===== *)
theory Ape_Http
  imports Ape_Utils Ape_Websocket
begin

text \<open>
  The reader of HTTP requests, from \<open>process_http\<close> of \<open>src/http.c\<close>. The parser works in place in the input
  buffer: the pointers it keeps (\<open>uri\<close>, \<open>data\<close>) are offsets into the buffer, so they survive its
  reallocation, for which the code rebases them. \<open>None\<close> is an access outside of the buffer, a C
  string without an end, or a recursion without an end. A complete request is an action that carries
  the parser and the memory the handler sees.
\<close>

section \<open>Data\<close>

datatype http_method = HTTP_NULL | HTTP_GET | HTTP_GET_WS | HTTP_POST | HTTP_OPTIONS

record http_state =
  hs_hlines :: "(string \<times> string) list"
  hs_uri :: "nat option"
  hs_data :: "nat option"
  hs_host :: "string option"
  hs_pos :: nat
  hs_contentlength :: int
  hs_read :: int
  hs_step :: nat
  hs_type :: http_method
  hs_error :: bool
  hs_ready :: int

definition parser_init_http :: http_state where
  "parser_init_http =
     \<lparr>hs_hlines = [], hs_uri = None, hs_data = None, hs_host = None, hs_pos = 0, hs_contentlength = -1, hs_read = 0,
      hs_step = 0, hs_type = HTTP_NULL, hs_error = False, hs_ready = 0\<rparr>"

datatype http_act = Http_onready http_state "u8 list" | Http_shutdown

definition MAX_CONTENT_LENGTH :: int where "MAX_CONTENT_LENGTH = 51200"

text \<open>The C string at an offset, and a string written there with its terminator.\<close>

definition c_str :: "u8 list \<Rightarrow> nat \<Rightarrow> string option" where
  "c_str m i = (if 0 \<in> set (drop i m) then Some (map char_of_byte (cstring (drop i m))) else None)"

definition put_str :: "u8 list \<Rightarrow> nat \<Rightarrow> string \<Rightarrow> u8 list" where
  "put_str m i s = take i m @ map byte_of s @ 0 # drop (i + length s + 1) m"

section \<open>Header lines\<close>

text \<open>\<open>parse_header_line\<close>: the key up to a colon that a blank follows, then the value up to the end of the line,
  of at most 1024 characters in all.\<close>

fun header_value :: "nat \<Rightarrow> string \<Rightarrow> string" where
  "header_value i [] = []"
| "header_value i (c # cs) =
     (if i < 1024 \<and> c \<noteq> CHR 0x0D \<and> c \<noteq> CHR 0x0A then c # header_value (Suc i) cs else [])"

fun header_key :: "nat \<Rightarrow> string \<Rightarrow> string \<Rightarrow> (string \<times> string) option" where
  "header_key i key [] = None"
| "header_key i key (c # cs) =
     (if i \<ge> 1024 \<or> c = CHR 0x0D \<or> c = CHR 0x0A then None
      else if i = 0 \<and> (c = CHR '':'' \<or> c = CHR '' '') \<or> c = CHR '':'' \<and> (cs = [] \<or> hd cs \<noteq> CHR '' '') \<or> i > 63 then None
      else if c = CHR '':'' then Some (key, header_value (i + 2) (tl cs))
      else header_key (Suc i) (key @ [c]) cs)"

definition parse_header_line :: "string \<Rightarrow> (string \<times> string) option" where
  "parse_header_line line = header_key 0 [] line"

definition get_header_line :: "(string \<times> string) list \<Rightarrow> string \<Rightarrow> string option" where
  "get_header_line lines key = map_option snd (find (\<lambda>(k, v). strcaseeq k key) lines)"

text \<open>\<open>strncasecmp(lit, s, n) == 0\<close> for a literal of length \<open>n\<close>, and \<open>atoi\<close>.\<close>

definition strncaseeq :: "string \<Rightarrow> string \<Rightarrow> bool" where
  "strncaseeq lit s \<longleftrightarrow> casefold (take (length lit) s) = casefold lit"

definition is_space :: "char \<Rightarrow> bool" where
  "is_space c \<longleftrightarrow> c = CHR '' '' \<or> 9 \<le> (of_char c :: nat) \<and> (of_char c :: nat) \<le> 13"

definition atoi :: "string \<Rightarrow> int" where
  "atoi s =
     (let s = dropWhile is_space s;
          (neg, s) = (case s of c # cs \<Rightarrow> if c = CHR ''-'' then (True, cs) else if c = CHR ''+'' then (False, cs) else (False, s) | [] \<Rightarrow> (False, s));
          v = int (dec_value (takeWhile is_digit s) 0) in
      if neg then - v else v)"

section \<open>The request\<close>

text \<open>The rest of the URI behind its first character: the blank that ends it, and the last \<open>?\<close> that
  something follows.\<close>

fun scan_uri :: "nat \<Rightarrow> nat option \<Rightarrow> u8 list \<Rightarrow> (nat option \<times> nat option) option" where
  "scan_uri i d [] = None"
| "scan_uri i d (c # cs) =
     (if c = 32 then Some (Some i, d)
      else if c = 63 then
        (case cs of
           [] \<Rightarrow> None
         | c' # _ \<Rightarrow> scan_uri (Suc i) (if c' \<noteq> 32 \<and> c' \<noteq> 13 \<and> c' \<noteq> 10 then Some (Suc i) else d) cs)
      else if c = 13 \<or> c = 10 \<or> c = 0 then Some (None, d)
      else scan_uri (Suc i) d cs)"

text \<open>\<open>urldecode(http->uri)\<close>, in place.\<close>

definition decode_uri :: "http_state \<Rightarrow> u8 list \<Rightarrow> u8 list option" where
  "decode_uri h m =
     (case hs_uri h of
        None \<Rightarrow> Some m
      | Some u \<Rightarrow> map_option (\<lambda>s. put_str m u (urldecode s)) (c_str m u))"

text \<open>One call of \<open>process_http\<close> up to its recursive call: whether it calls itself, the parser, the buffer and the actions.\<close>

type_synonym http_outcome = "(bool \<times> http_state \<times> ape_buffer \<times> http_act list) option"

definition http_fail :: "http_state \<Rightarrow> ape_buffer \<Rightarrow> http_outcome" where
  "http_fail h buf = Some (False, h\<lparr>hs_error := True\<rparr>, buf, [Http_shutdown])"

definition http_method_at :: "u8 list \<Rightarrow> nat \<Rightarrow> (http_method \<times> nat) option" where
  "http_method_at m i =
     (let w = take 4 (drop i m) in
      if w = map byte_of ''GET '' then Some (HTTP_GET, 4)
      else if w = map byte_of ''POST'' then Some (HTTP_POST, 5) else None)"

definition http_request_line :: "http_state \<Rightarrow> ape_buffer \<Rightarrow> http_outcome" where
  "http_request_line h buf = do {
     let m = b_data buf;
     s \<leftarrow> c_str m (hs_pos h);
     let pos = seof s (CHR 0x0A);
     if pos = -1 then Some (False, h, buf, [])
     else if length m < hs_pos h + 4 then None
     else case http_method_at m (hs_pos h) of
       None \<Rightarrow> http_fail h buf
     | Some (meth, p) \<Rightarrow> do {
         let h = h\<lparr>hs_type := meth\<rparr>;
         let i = hs_pos h + p;
         c \<leftarrow> peek m i;
         if c \<noteq> 47 then http_fail h buf
         else do {
           (stop, d) \<leftarrow> scan_uri (Suc i) (hs_data h) (drop (Suc i) m);
           let h = h\<lparr>hs_data := d\<rparr>;
           case stop of
             None \<Rightarrow> http_fail h buf
           | Some q \<Rightarrow>
               Some (True, h\<lparr>hs_pos := nat pos, hs_step := 1, hs_uri := Some i\<rparr>, buf\<lparr>b_data := m[q := 0]\<rparr>, []) } } }"

definition store_header :: "string \<Rightarrow> http_state \<Rightarrow> http_state" where
  "store_header s h =
     (case parse_header_line s of
        None \<Rightarrow> h
      | Some (k, v) \<Rightarrow>
          (let h = h\<lparr>hs_hlines := (k, v) # hs_hlines h\<rparr> in if strcaseeq k ''host'' then h\<lparr>hs_host := Some v\<rparr> else h))"

definition http_header_line :: "http_state \<Rightarrow> ape_buffer \<Rightarrow> http_outcome" where
  "http_header_line h buf = do {
     let m = b_data buf;
     s \<leftarrow> c_str m (hs_pos h);
     let pos = seof s (CHR 0x0A);
     if pos = -1 then Some (False, h, buf, [])
     else do {
       let next = hs_pos h + nat pos;
       if pos = 1 \<or> pos = 2 \<and> hd s = CHR 0x0D then
         (if hs_type h = HTTP_GET then do {
            let m = m[hs_pos h := 0];
            m \<leftarrow> decode_uri h m;
            Some (False, h\<lparr>hs_ready := -1, hs_pos := 0\<rparr>, buf\<lparr>b_data := m, b_length := 0\<rparr>, [Http_onready h m]) }
          else if hs_type h = HTTP_GET_WS then
            Some (True, h\<lparr>hs_contentlength := 8, hs_data := Some next, hs_step := 2, hs_pos := next\<rparr>, buf, [])
          else if hs_contentlength h = 0 then http_fail h buf
          else Some (True, h\<lparr>hs_data := Some next, hs_step := 2, hs_pos := next\<rparr>, buf, []))
       else do {
         let h = store_header s h;
         if hs_type h = HTTP_POST \<and> pos \<le> 25 \<and> strncaseeq ''content-length: '' s then do {
           let cl = atoi (drop 16 s);
           if cl < 1 \<or> cl > MAX_CONTENT_LENGTH then http_fail h buf
           else Some (True, h\<lparr>hs_contentlength := cl, hs_pos := next\<rparr>, buf, []) }
         else Some (True,
           h\<lparr>hs_type := (if hs_type h = HTTP_GET \<and> strncaseeq ''Sec-WebSocket-Key1: '' s then HTTP_GET_WS else hs_type h),
             hs_pos := next\<rparr>, buf, []) } } }"

definition http_body :: "http_state \<Rightarrow> ape_buffer \<Rightarrow> http_outcome" where
  "http_body h buf = do {
     let rd = int (b_length buf) - int (hs_pos h);
     let h = h\<lparr>hs_pos := b_length buf, hs_read := hs_read h + rd\<rparr>;
     if hs_read h \<ge> hs_contentlength h then do {
       m \<leftarrow> decode_uri h (b_data buf);
       let i = int (hs_pos h) - (hs_read h - hs_contentlength h);
       m \<leftarrow> (if i < 0 then None else poke m (nat i) 0);
       Some (False, h\<lparr>hs_ready := -1\<rparr>, buf\<lparr>b_data := m, b_length := 0\<rparr>, [Http_onready (h\<lparr>hs_ready := 1\<rparr>) m]) }
     else Some (False, h, buf, []) }"

definition http_turn :: "http_state \<Rightarrow> ape_buffer \<Rightarrow> http_outcome" where
  "http_turn h buf =
     (if b_length buf = 0 \<or> hs_ready h = 1 \<or> hs_error h then Some (False, h, buf, [])
      else do {
        m \<leftarrow> poke (b_data buf) (b_length buf) 0;
        let buf = buf\<lparr>b_data := m\<rparr>;
        c \<leftarrow> peek m (hs_pos h);
        if c = 0 then Some (False, h, buf, [])
        else if hs_step h = 0 then http_request_line h buf
        else if hs_step h = 1 then http_header_line h buf
        else if hs_step h = 2 then http_body h buf
        else Some (False, h, buf, []) })"

partial_function (option) process_http :: "http_state \<Rightarrow> ape_buffer \<Rightarrow> (http_state \<times> ape_buffer \<times> http_act list) option" where
  "process_http h buf = do {
     (again, h, buf, acts) \<leftarrow> http_turn h buf;
     if again then do {
       (h, buf, acts') \<leftarrow> process_http h buf;
       Some (h, buf, acts @ acts') }
     else Some (h, buf, acts) }"

text \<open>The reads of the server loop.\<close>

fun http_reads :: "nat list \<Rightarrow> u8 list \<Rightarrow> http_state \<Rightarrow> ape_buffer \<Rightarrow> (u8 list \<times> http_state \<times> ape_buffer \<times> http_act list) option" where
  "http_reads [] inp h buf = Some (inp, h, buf, [])"
| "http_reads (n # ns) inp h buf = do {
     let k = min n (b_size buf - b_length buf);
     (h, buf, acts) \<leftarrow> process_http h (read_in (take k inp) buf);
     (inp, h, buf, acts') \<leftarrow> http_reads ns (drop k inp) h buf;
     Some (inp, h, buf, acts @ acts') }"

section \<open>Arbitrary input\<close>

lemma url_len: "length (urldecode s) \<le> length s"
  by (induction s rule: urldecode.induct) (auto split: option.splits)

lemma takeWhile_short: "x \<in> set xs \<Longrightarrow> \<not> P x \<Longrightarrow> length (takeWhile P xs) < length xs"
  by (induction xs) auto

lemma c_str_nul:
  assumes "0 \<in> set (drop i m)"
  obtains s where "c_str m i = Some s" "i + length s < length m" "m ! (i + length s) = 0" "\<forall>j < length s. m ! (i + j) \<noteq> 0 \<and> s ! j = char_of_byte (m ! (i + j))"
proof -
  define t where "t = cstring (drop i m)"
  have c: "c_str m i = Some (map char_of_byte t)" using assms by (simp add: c_str_def t_def)
  have "length t < length (drop i m)" unfolding t_def cstring_def by (rule takeWhile_short [OF assms]) simp
  then have l: "length t < length (drop i m)" "drop i m ! length t = 0"
    using nth_length_takeWhile [of "\<lambda>b. b \<noteq> 0" "drop i m"] by (auto simp: t_def cstring_def)
  have e: "t ! j = m ! (i + j) \<and> t ! j \<noteq> 0" if "j < length t" for j
  proof -
    have "t ! j = drop i m ! j" using that unfolding t_def cstring_def by (rule takeWhile_nth)
    moreover have "t ! j \<noteq> 0" using nth_mem [OF that] unfolding t_def cstring_def by (auto dest: set_takeWhileD)
    ultimately show ?thesis using that l(1) by simp
  qed
  have "\<forall>j < length (map char_of_byte t). m ! (i + j) \<noteq> 0 \<and> map char_of_byte t ! j = char_of_byte (m ! (i + j))"
    using e by (metis length_map nth_map)
  then show thesis by (intro that [OF c]) (use l in auto)
qed

text \<open>A C string ends at the latest at any NUL behind its beginning.\<close>

lemma c_str_bound: "c_str m i = Some s \<Longrightarrow> i \<le> n \<Longrightarrow> n < length m \<Longrightarrow> m ! n = 0 \<Longrightarrow> i + length s \<le> n"
proof (rule ccontr)
  assume a: "c_str m i = Some s" "i \<le> n" "n < length m" "m ! n = 0" "\<not> i + length s \<le> n"
  have "0 \<in> set (drop i m)" using a(1) by (simp add: c_str_def split: if_splits)
  then obtain s' where s': "c_str m i = Some s'" "\<forall>j < length s'. m ! (i + j) \<noteq> 0" by (rule c_str_nul) blast
  moreover have "n - i < length s'" using a s'(1) by auto
  ultimately have "m ! (i + (n - i)) \<noteq> 0" by blast
  then show False using a(2,4) by simp
qed

lemma nul_iff: "0 \<in> set (drop i m) \<longleftrightarrow> (\<exists>n. i \<le> n \<and> n < length m \<and> m ! n = (0 :: u8))"
proof
  assume "0 \<in> set (drop i m)"
  then obtain j where "j < length (drop i m)" "drop i m ! j = 0" by (auto simp: in_set_conv_nth)
  then show "\<exists>n. i \<le> n \<and> n < length m \<and> m ! n = 0" by (intro exI [of _ "i + j"]) auto
next
  assume "\<exists>n. i \<le> n \<and> n < length m \<and> m ! n = 0"
  then obtain n where "i \<le> n" "n < length m" "m ! n = 0" by blast
  then show "0 \<in> set (drop i m)" by (auto simp: in_set_conv_nth intro!: exI [of _ "n - i"])
qed

lemma nul_drop: "n < length m \<Longrightarrow> m ! n = (0 :: u8) \<Longrightarrow> i \<le> n \<Longrightarrow> 0 \<in> set (drop i m)"
  unfolding nul_iff by blast

lemma nul_poke: "0 \<in> set (drop i m) \<Longrightarrow> 0 \<in> set (drop i (m[k := (0 :: u8)]))"
  unfolding nul_iff by (metis length_list_update nth_list_update_eq nth_list_update_neq)

lemma nul_put_str:
  assumes "c_str m u = Some s" "length t \<le> length s" "0 \<in> set (drop i m)"
  shows "0 \<in> set (drop i (put_str m u t))" "length (put_str m u t) = length m"
proof -
  have "0 \<in> set (drop u m)" using assms(1) by (simp add: c_str_def split: if_splits)
  then obtain s' where "c_str m u = Some s'" "u + length s' < length m" by (rule c_str_nul) blast
  then have u: "u + length t < length m" using assms(1,2) by simp
  then show len: "length (put_str m u t) = length m" by (simp add: put_str_def)
  show "0 \<in> set (drop i (put_str m u t))"
  proof (cases "i \<le> u + length t")
    case True
    have "put_str m u t ! (u + length t) = 0" using u by (simp add: put_str_def nth_append)
    then show ?thesis using nul_drop [of "u + length t" "put_str m u t" i] True u len by simp
  next
    case False
    then obtain k where "i = u + length t + 1 + k" by (metis add.assoc add.commute not_less_eq_eq nat_le_iff_add plus_1_eq_Suc not_le)
    then have "drop i (put_str m u t) = drop i m" using u by (simp add: put_str_def add.commute add.left_commute)
    then show ?thesis using assms(3) by simp
  qed
qed

text \<open>What holds of the parser whatever was received. A pointer points into the text, or to a C string in the
  memory that earlier requests used.\<close>

definition ptr_ok :: "ape_buffer \<Rightarrow> nat option \<Rightarrow> bool" where
  "ptr_ok buf p = (case p of None \<Rightarrow> True | Some u \<Rightarrow> u \<le> b_length buf \<or> 0 \<in> set (drop u (b_data buf)))"

definition http_inv :: "http_state \<Rightarrow> ape_buffer \<Rightarrow> bool" where
  "http_inv h buf \<longleftrightarrow> buffer_ok buf \<and> DEFAULT_BUFFER_SIZE \<le> b_size buf \<and> ptr_ok buf (hs_uri h) \<and> ptr_ok buf (hs_data h) \<and>
     -1 \<le> hs_contentlength h \<and> hs_pos h \<le> b_size buf \<and> (hs_step h = 0 \<longrightarrow> hs_pos h = 0) \<and>
     (hs_step h \<le> 1 \<longrightarrow> hs_pos h \<le> b_length buf \<and> hs_read h = 0) \<and> (hs_step h = 2 \<longrightarrow> 1 \<le> int (hs_pos h) - hs_read h)"

definition http_left :: "http_state \<Rightarrow> ape_buffer \<Rightarrow> nat" where
  "http_left h buf = (2 - hs_step h) * (b_size buf + 1) + (b_length buf - hs_pos h)"

definition http_safe :: "http_state \<Rightarrow> ape_buffer \<Rightarrow> http_outcome \<Rightarrow> bool" where
  "http_safe h buf res =
     (case res of
        None \<Rightarrow> False
      | Some (again, h', buf', acts) \<Rightarrow>
          http_inv h' buf' \<and> b_size buf' = b_size buf \<and> (again \<longrightarrow> http_left h' buf' < http_left h buf))"

text \<open>A parser that looks at its text, which has its terminator.\<close>

definition http_live :: "http_state \<Rightarrow> ape_buffer \<Rightarrow> bool" where
  "http_live h buf \<longleftrightarrow> http_inv h buf \<and> b_data buf ! b_length buf = 0 \<and> b_data buf ! hs_pos h \<noteq> 0"

lemma buffer_len: "http_inv h buf \<Longrightarrow> b_length buf < b_size buf \<and> length (b_data buf) = b_size buf + 1"
  by (simp add: http_inv_def buffer_ok_def)

lemma ptr_nul: "http_live h buf \<Longrightarrow> ptr_ok buf (Some u) \<Longrightarrow> 0 \<in> set (drop u (b_data buf))"
  using nul_drop [of "b_length buf" "b_data buf" u] buffer_len [of h buf] by (auto simp: http_live_def ptr_ok_def)

lemma seof_bound: "seof s c = p \<Longrightarrow> p = -1 \<or> 1 \<le> p \<and> p \<le> int (length s)"
proof -
  have "seof_from s c n = -1 \<or> int n + 1 \<le> seof_from s c n \<and> seof_from s c n \<le> int n + int (length s)" for n
    by (induction s c n rule: seof_from.induct) auto
  from this [of 0] show "seof s c = p \<Longrightarrow> p = -1 \<or> 1 \<le> p \<and> p \<le> int (length s)" by (auto simp: seof_def)
qed

lemma seof_at: "seof s c = p \<Longrightarrow> p \<noteq> -1 \<Longrightarrow> s ! nat (p - 1) = c"
proof -
  have "seof_from s c n = q \<Longrightarrow> q \<noteq> -1 \<Longrightarrow> s ! (nat q - Suc n) = c \<and> int n < q" for n q
  proof (induction s c n rule: seof_from.induct)
    case (2 a s c n)
    show ?case
    proof (cases "a = c")
      case True
      then show ?thesis using "2.prems" by auto
    next
      case False
      then have "s ! (nat q - Suc (Suc n)) = c" "int (Suc n) < q" using "2.IH" "2.prems" by auto
      moreover have "nat q - Suc n = Suc (nat q - Suc (Suc n))" using calculation(2) by linarith
      ultimately show ?thesis by simp
    qed
  qed simp
  from this [of 0 p] show "seof s c = p \<Longrightarrow> p \<noteq> -1 \<Longrightarrow> s ! nat (p - 1) = c" by (auto simp: seof_def nat_diff_distrib)
qed

lemma char_of_byte_of [simp]: "char_of_byte (byte_of c) = c"
proof -
  have "unat (of_nat (of_char c) :: u8) = of_char c" using of_char_less [of c] by (simp add: unat_of_nat del: of_nat_of_char)
  then have "unat (of_char c :: u8) = of_char c" by (simp only: of_nat_of_char)
  then show ?thesis by (simp add: char_of_byte_def byte_of_def)
qed

lemma decode_uri_ok:
  assumes "\<And>u. hs_uri h = Some u \<Longrightarrow> 0 \<in> set (drop u m)"
  obtains m' where "decode_uri h m = Some m'" "length m' = length m" "\<And>i. 0 \<in> set (drop i m) \<Longrightarrow> 0 \<in> set (drop i m')"
proof (cases "hs_uri h")
  case None
  then show ?thesis using that by (simp add: decode_uri_def)
next
  case (Some u)
  obtain s where s: "c_str m u = Some s" by (rule c_str_nul [OF assms [OF Some]])
  note p = nul_put_str [OF s url_len]
  show ?thesis
  proof (rule that)
    show "decode_uri h m = Some (put_str m u (urldecode s))" using Some s by (simp add: decode_uri_def)
    show "length (put_str m u (urldecode s)) = length m" by (rule p(2) [OF assms [OF Some]])
    show "0 \<in> set (drop i m) \<Longrightarrow> 0 \<in> set (drop i (put_str m u (urldecode s)))" for i by (rule p(1))
  qed
qed

lemma http_text:
  assumes "http_live h buf" "hs_step h \<le> 1"
  obtains s where "c_str (b_data buf) (hs_pos h) = Some s" "hs_pos h + length s \<le> b_length buf" "s \<noteq> []" "hd s = char_of_byte (b_data buf ! hs_pos h)"
proof -
  have pos: "hs_pos h \<le> b_length buf" "b_length buf < length (b_data buf)" "b_data buf ! b_length buf = 0" "b_data buf ! hs_pos h \<noteq> 0"
    using assms buffer_len [of h buf] by (auto simp: http_live_def http_inv_def)
  have "0 \<in> set (drop (hs_pos h) (b_data buf))" by (rule nul_drop [OF pos(2,3,1)])
  then obtain s where s: "c_str (b_data buf) (hs_pos h) = Some s" "b_data buf ! (hs_pos h + length s) = 0"
    "\<forall>j < length s. s ! j = char_of_byte (b_data buf ! (hs_pos h + j))" by (rule c_str_nul) blast
  have ne: "s \<noteq> []" using s(2) pos(4) by auto
  then have "hd s = char_of_byte (b_data buf ! hs_pos h)" using s(3) by (cases s) force+
  then show thesis using that s(1) ne c_str_bound [OF s(1) pos(1,2,3)] by blast
qed

lemma http_fail_safe: "http_inv h buf \<Longrightarrow> b_size buf = b_size buf0 \<Longrightarrow> http_safe h0 buf0 (http_fail h buf)"
  by (simp add: http_safe_def http_fail_def http_inv_def)

lemma http_header_safe:
  assumes live: "http_live h buf" and st: "hs_step h = 1"
  shows "http_safe h buf (http_header_line h buf)"
proof -
  have inv: "http_inv h buf" using live by (simp add: http_live_def)
  obtain s where s: "c_str (b_data buf) (hs_pos h) = Some s" "hs_pos h + length s \<le> b_length buf" "s \<noteq> []"
    using http_text [OF live] st by auto
  define p where "p = seof s (CHR 0x0A)"
  show ?thesis
  proof (cases "p = -1")
    case True
    then show ?thesis using s inv by (simp add: http_header_line_def http_safe_def p_def [symmetric])
  next
    case False
    then have p: "1 \<le> p" "p \<le> int (length s)" using seof_bound [of s "CHR 0x0A" p] p_def by auto
    define nxt where "nxt = hs_pos h + nat p"
    have nx: "hs_pos h < nxt" "nxt \<le> b_length buf" "nxt \<le> b_size buf" using p s(2) buffer_len [OF inv] by (auto simp: nxt_def)
    have go: "http_safe h buf (Some (True, h', buf, []))"
      if "hs_step h' = 1 \<or> hs_step h' = 2" "hs_pos h' = nxt" "hs_read h' = hs_read h" "hs_uri h' = hs_uri h" "hs_data h' = hs_data h \<or> hs_data h' = Some nxt"
        "-1 \<le> hs_contentlength h'" for h'
      using inv that nx st unfolding http_safe_def http_inv_def http_left_def by (auto simp: ptr_ok_def)
    have sh: "hs_step (store_header s h) = 1" "hs_read (store_header s h) = hs_read h" "hs_uri (store_header s h) = hs_uri h"
      "hs_data (store_header s h) = hs_data h" "hs_contentlength (store_header s h) = hs_contentlength h" "hs_pos (store_header s h) = hs_pos h"
      using st by (auto simp: store_header_def Let_def split: option.splits)
    have cl: "-1 \<le> hs_contentlength h" using inv by (simp add: http_inv_def)
    have shi: "http_inv (store_header s h) buf" using inv sh st by (simp add: http_inv_def)
    have get: "http_safe h buf (do {
            m \<leftarrow> decode_uri h ((b_data buf)[hs_pos h := 0]);
            Some (False, h\<lparr>hs_ready := -1, hs_pos := 0\<rparr>, buf\<lparr>b_data := m, b_length := 0\<rparr>, [Http_onready h m]) })"
    proof -
      obtain m where m: "decode_uri h ((b_data buf)[hs_pos h := 0]) = Some m" "length m = length (b_data buf)"
        "\<And>i. 0 \<in> set (drop i ((b_data buf)[hs_pos h := 0])) \<Longrightarrow> 0 \<in> set (drop i m)"
        using decode_uri_ok [of h "(b_data buf)[hs_pos h := 0]"] nul_poke ptr_nul [OF live] inv by (metis http_inv_def length_list_update)
      have "ptr_ok (buf\<lparr>b_data := m, b_length := 0\<rparr>) q" if "ptr_ok buf q" for q
      proof (cases q)
        case (Some u)
        have "0 \<in> set (drop u m)" by (intro m(3) nul_poke ptr_nul [OF live]) (use that Some in simp)
        then show ?thesis using Some by (simp add: ptr_ok_def)
      qed (simp add: ptr_ok_def)
      then show ?thesis using m(1,2) inv st by (auto simp: http_safe_def http_inv_def buffer_ok_def)
    qed
    let ?s = "store_header s h"
    have a: "http_safe h buf (Some (True, h\<lparr>hs_contentlength := 8, hs_data := Some nxt, hs_step := 2, hs_pos := nxt\<rparr>, buf, []))"
      "http_safe h buf (Some (True, h\<lparr>hs_data := Some nxt, hs_step := 2, hs_pos := nxt\<rparr>, buf, []))"
      "http_safe h buf (Some (True, ?s\<lparr>hs_type := ty, hs_pos := nxt\<rparr>, buf, []))" for ty
      using cl sh by (auto intro!: go)
    have b: "http_safe h buf (Some (True, ?s\<lparr>hs_contentlength := c, hs_pos := nxt\<rparr>, buf, []))" if "\<not> (c < 1 \<or> c > MAX_CONTENT_LENGTH)" for c
      using that sh by (auto intro!: go)
    note f = http_fail_safe [OF inv refl] http_fail_safe [OF shi refl]
    show ?thesis unfolding http_header_line_def Let_def s(1) p_def [symmetric] nxt_def [symmetric] bind.bind_lunit
      using False by (simp only: if_False if_split a f get) (use b in simp)
  qed
qed

lemma http_body_safe:
  assumes live: "http_live h buf" and st: "hs_step h = 2"
  shows "http_safe h buf (http_body h buf)"
proof -
  have inv: "http_inv h buf" using live by (simp add: http_live_def)
  define h1 where "h1 = h\<lparr>hs_pos := b_length buf, hs_read := hs_read h + (int (b_length buf) - int (hs_pos h))\<rparr>"
  have h1: "hs_uri h1 = hs_uri h" "hs_step h1 = 2" "1 \<le> int (hs_pos h1) - hs_read h1" "hs_pos h1 = b_length buf" "-1 \<le> hs_contentlength h1"
    "hs_data h1 = hs_data h" using inv st by (auto simp: h1_def http_inv_def)
  show ?thesis
  proof (cases "hs_read h1 \<ge> hs_contentlength h1")
    case False
    have "http_inv h1 buf" using inv h1 buffer_len [OF inv] by (auto simp: http_inv_def)
    then show ?thesis unfolding http_body_def Let_def h1_def [symmetric] using False by (simp add: http_safe_def)
  next
    case True
    obtain m where m: "decode_uri h1 (b_data buf) = Some m" "length m = length (b_data buf)"
      "\<And>i. 0 \<in> set (drop i (b_data buf)) \<Longrightarrow> 0 \<in> set (drop i m)"
      using decode_uri_ok [of h1 "b_data buf"] ptr_nul [OF live] inv h1(1) by (metis http_inv_def)
    define i where "i = int (hs_pos h1) - (hs_read h1 - hs_contentlength h1)"
    have i: "0 \<le> i" "nat i < length m" using h1 True m(2) buffer_len [OF inv] by (auto simp: i_def)
    have "ptr_ok (buf\<lparr>b_data := m[nat i := 0], b_length := 0\<rparr>) q" if "ptr_ok buf q" for q
    proof (cases q)
      case (Some u)
      have "0 \<in> set (drop u (m[nat i := 0]))" by (intro nul_poke m(3) ptr_nul [OF live]) (use that Some in simp)
      then show ?thesis using Some by (simp add: ptr_ok_def)
    qed (simp add: ptr_ok_def)
    then have "http_inv (h1\<lparr>hs_ready := -1\<rparr>) (buf\<lparr>b_data := m[nat i := 0], b_length := 0\<rparr>)"
      using inv h1 m(2) buffer_len [OF inv] by (auto simp: http_inv_def buffer_ok_def)
    then show ?thesis unfolding http_body_def Let_def h1_def [symmetric] i_def [symmetric]
      using True m(1) i by (simp add: poke_def http_safe_def)
  qed
qed

lemma scan_uri_ok:
  "0 \<in> set cs \<Longrightarrow> \<exists>stop d'. scan_uri i d cs = Some (stop, d') \<and> (\<forall>q. stop = Some q \<longrightarrow> i \<le> q \<and> q < i + length (cstring cs)) \<and>
     (d' = d \<or> (\<exists>e. d' = Some e \<and> e \<le> i + length (cstring cs)))"
proof (induction i d cs rule: scan_uri.induct)
  case (2 i d c cs)
  consider "c = 32" | "c = 63" | "c = 13 \<or> c = 10 \<or> c = 0" | "c \<noteq> 32" "c \<noteq> 63" "\<not> (c = 13 \<or> c = 10 \<or> c = 0)" by blast
  then show ?case
  proof cases
    case 1
    then show ?thesis by (simp add: cstring_def)
  next
    case 2
    then have "0 \<in> set cs" using "2.prems" by simp
    then obtain c' cs' where cs: "cs = c' # cs'" by (cases cs) auto
    let ?d = "if c' \<noteq> 32 \<and> c' \<noteq> 13 \<and> c' \<noteq> 10 then Some (Suc i) else d"
    have len: "length (cstring (c # cs)) = Suc (length (cstring cs))" using 2 by (simp add: cstring_def)
    have "\<exists>stop d'. scan_uri (Suc i) ?d cs = Some (stop, d') \<and> (\<forall>q. stop = Some q \<longrightarrow> Suc i \<le> q \<and> q < Suc i + length (cstring cs)) \<and>
     (d' = ?d \<or> (\<exists>e. d' = Some e \<and> e \<le> Suc i + length (cstring cs)))"
      using "2.IH"(1) [of c' cs'] 2 cs \<open>0 \<in> set cs\<close> by simp
    then obtain stop d' where r: "scan_uri (Suc i) ?d cs = Some (stop, d')" "\<forall>q. stop = Some q \<longrightarrow> Suc i \<le> q \<and> q < Suc i + length (cstring cs)"
      "d' = ?d \<or> (\<exists>e. d' = Some e \<and> e \<le> Suc i + length (cstring cs))" by blast
    have e: "scan_uri i d (c # cs) = scan_uri (Suc i) ?d cs" using 2 cs by simp
    show ?thesis unfolding e len using r by (intro exI [of _ stop] exI [of _ d']) (auto split: if_splits)
  next
    case 3
    then show ?thesis by auto
  next
    case 4
    then have "0 \<in> set cs" "length (cstring (c # cs)) = Suc (length (cstring cs))" using "2.prems" by (auto simp: cstring_def)
    then show ?thesis using "2.IH"(2) 4 by fastforce
  qed
qed simp

lemma http_request_safe:
  assumes live: "http_live h buf" and st: "hs_step h = 0"
  shows "http_safe h buf (http_request_line h buf)"
proof -
  have inv: "http_inv h buf" and z: "hs_pos h = 0" "b_data buf ! b_length buf = 0" using live st by (auto simp: http_live_def http_inv_def)
  have len: "b_length buf < b_size buf" "length (b_data buf) = b_size buf + 1" "DEFAULT_BUFFER_SIZE \<le> b_size buf"
    using inv by (auto simp: http_inv_def buffer_ok_def)
  obtain s where s: "c_str (b_data buf) 0 = Some s" "length s \<le> b_length buf" "s \<noteq> []" using http_text [OF live] st z by auto
  define p where "p = seof s (CHR 0x0A)"
  have s0: "\<exists>s'. c_str (b_data buf) 0 = Some s' \<and> (\<forall>j < length s'. b_data buf ! j \<noteq> 0 \<and> s' ! j = char_of_byte (b_data buf ! j))"
    using c_str_nul [of 0 "b_data buf"] nul_drop [of "b_length buf" "b_data buf" 0] len z(2) by (metis add_0 le0 less_SucI Suc_eq_plus1)
  show ?thesis
  proof (cases "p = -1")
    case True
    then show ?thesis using s inv z by (simp add: http_request_line_def http_safe_def p_def [symmetric])
  next
    case False
    then have p: "1 \<le> p" "p \<le> int (length s)" using seof_bound [of s "CHR 0x0A" p] p_def by auto
    show ?thesis
    proof (cases "http_method_at (b_data buf) 0")
      case None
      then show ?thesis using s inv z False len
        by (auto simp: http_request_line_def p_def [symmetric] DEFAULT_BUFFER_SIZE_def intro: http_fail_safe)
    next
      case (Some mp)
      then obtain meth k where mk: "http_method_at (b_data buf) 0 = Some (meth, k)" "k = 4 \<or> k = 5"
        by (cases mp) (auto simp: http_method_at_def Let_def split: if_splits)
      have invt: "http_inv (h\<lparr>hs_type := meth\<rparr>) buf" using inv by (simp add: http_inv_def)
      have pk: "peek (b_data buf) k = Some (b_data buf ! k)" using mk(2) len by (auto simp: peek_def DEFAULT_BUFFER_SIZE_def)
      show ?thesis
      proof (cases "b_data buf ! k = 47")
        case False
        then show ?thesis using s z \<open>p \<noteq> -1\<close> len mk pk
          by (auto simp: http_request_line_def p_def [symmetric] DEFAULT_BUFFER_SIZE_def intro: http_fail_safe [OF invt])
      next
        case True
        have nl: "CHR 0x0A \<notin> set (map char_of_byte (take 4 (b_data buf)))"
          using mk(1) by (auto simp: http_method_at_def Let_def split: if_splits)
        have "4 \<le> nat (p - 1)"
        proof (rule ccontr)
          assume a: "\<not> 4 \<le> nat (p - 1)"
          then have "s ! nat (p - 1) = char_of_byte (b_data buf ! nat (p - 1))" using s0 s(1) p by fastforce
          moreover have "s ! nat (p - 1) = CHR 0x0A" using seof_at [of s "CHR 0x0A" p] p_def \<open>p \<noteq> -1\<close> by blast
          moreover have "b_data buf ! nat (p - 1) \<in> set (take 4 (b_data buf))" using a len
            by (auto simp: in_set_conv_nth DEFAULT_BUFFER_SIZE_def intro!: exI [of _ "nat (p - 1)"])
          ultimately show False using nl by (metis imageI image_set)
        qed
        then have "5 \<le> b_length buf" using p s(2) by linarith
        moreover have "k \<noteq> b_length buf" using True z(2) by auto
        ultimately have kb: "Suc k \<le> b_length buf" using mk(2) by auto
        have nul: "0 \<in> set (drop (Suc k) (b_data buf))" by (rule nul_drop [OF _ z(2) kb]) (use len in simp)
        obtain stop d where sc: "scan_uri (Suc k) (hs_data h) (drop (Suc k) (b_data buf)) = Some (stop, d)"
          and d: "d = hs_data h \<or> (\<exists>e. d = Some e \<and> e \<le> Suc k + length (cstring (drop (Suc k) (b_data buf))))"
          using scan_uri_ok [OF nul, of "Suc k" "hs_data h"] by blast
        have "c_str (b_data buf) (Suc k) = Some (map char_of_byte (cstring (drop (Suc k) (b_data buf))))" using nul by (simp add: c_str_def)
        from c_str_bound [OF this kb _ z(2)] have "Suc k + length (cstring (drop (Suc k) (b_data buf))) \<le> b_length buf" using len by simp
        then have dp: "ptr_ok buf d" using d inv by (auto simp: http_inv_def ptr_ok_def)
        have fl: "http_inv (h\<lparr>hs_type := meth, hs_data := d\<rparr>) buf" using inv dp by (simp add: http_inv_def)
        have "ptr_ok (buf\<lparr>b_data := (b_data buf)[q := 0]\<rparr>) x" if "ptr_ok buf x" for x q
          using that nul_poke by (auto simp: ptr_ok_def split: option.splits)
        then have "http_inv (h\<lparr>hs_type := meth, hs_data := d, hs_pos := nat p, hs_step := 1, hs_uri := Some k\<rparr>) (buf\<lparr>b_data := (b_data buf)[q := 0]\<rparr>)" for q
          using inv dp kb p s(2) len st by (auto simp: http_inv_def buffer_ok_def ptr_ok_def)
        then have "http_safe h buf (Some (True, h\<lparr>hs_type := meth, hs_data := d, hs_pos := nat p, hs_step := 1, hs_uri := Some k\<rparr>, buf\<lparr>b_data := (b_data buf)[q := 0]\<rparr>, []))" for q
          using st len by (simp add: http_safe_def http_left_def z)
        then show ?thesis using s(1) z(1) \<open>p \<noteq> -1\<close> len mk(1) pk True sc http_fail_safe [OF fl]
          by (cases stop) (auto simp: http_request_line_def p_def [symmetric] DEFAULT_BUFFER_SIZE_def Let_def)
      qed
    qed
  qed
qed

text \<open>A parser that goes on reading terminates its text first.\<close>

lemma http_turn_live:
  assumes inv: "http_inv h buf" and go: "\<not> (b_length buf = 0 \<or> hs_ready h = 1 \<or> hs_error h)"
  defines "buf1 \<equiv> buf\<lparr>b_data := (b_data buf)[b_length buf := 0]\<rparr>"
  shows "http_turn h buf =
      (if b_data buf1 ! hs_pos h = 0 then Some (False, h, buf1, [])
       else if hs_step h = 0 then http_request_line h buf1
       else if hs_step h = 1 then http_header_line h buf1
       else if hs_step h = 2 then http_body h buf1 else Some (False, h, buf1, []))"
    and "http_inv h buf1" and "b_data buf1 ! hs_pos h \<noteq> 0 \<Longrightarrow> http_live h buf1"
proof -
  have len: "b_length buf < length (b_data buf)" "hs_pos h < length (b_data buf)"
    using buffer_len [OF inv] inv by (auto simp: http_inv_def)
  have "ptr_ok buf1 q" if "ptr_ok buf q" for q
    using that nul_poke by (auto simp: ptr_ok_def buf1_def split: option.splits)
  then show inv': "http_inv h buf1" using inv by (auto simp: http_inv_def buffer_ok_def buf1_def)
  show "http_live h buf1" if "b_data buf1 ! hs_pos h \<noteq> 0" using inv' that len by (simp add: http_live_def buf1_def)
  show "http_turn h buf =
      (if b_data buf1 ! hs_pos h = 0 then Some (False, h, buf1, [])
       else if hs_step h = 0 then http_request_line h buf1
       else if hs_step h = 1 then http_header_line h buf1
       else if hs_step h = 2 then http_body h buf1 else Some (False, h, buf1, []))"
    using go len by (simp add: http_turn_def poke_def peek_def buf1_def)
qed

lemma http_turn_safe:
  assumes inv: "http_inv h buf"
  shows "http_safe h buf (http_turn h buf)"
proof (cases "b_length buf = 0 \<or> hs_ready h = 1 \<or> hs_error h")
  case True
  then show ?thesis using inv by (simp add: http_turn_def http_safe_def)
next
  case False
  let ?buf = "buf\<lparr>b_data := (b_data buf)[b_length buf := 0]\<rparr>"
  note T = http_turn_live [OF inv False]
  have same: "http_safe h ?buf r = http_safe h buf r" for r
    by (cases r) (auto simp: http_safe_def http_left_def)
  have stay: "http_safe h buf (Some (False, h, ?buf, []))" using T(2) by (simp add: http_safe_def)
  show ?thesis unfolding T(1)
    using stay http_request_safe [OF T(3)] http_header_safe [OF T(3)] http_body_safe [OF T(3)] unfolding same by simp
qed

text \<open>What the handler of a request relies on: a URI, and C strings where the pointers point. A turn does one thing
  at most.\<close>

definition request_ptrs :: "http_state \<Rightarrow> u8 list \<Rightarrow> bool" where
  "request_ptrs h m \<longleftrightarrow> (\<exists>u. hs_uri h = Some u \<and> 0 \<in> set (drop u m)) \<and> (\<forall>d. hs_data h = Some d \<longrightarrow> 0 \<in> set (drop d m))"

definition acts_ok :: "http_act list \<Rightarrow> bool" where
  "acts_ok acts \<longleftrightarrow> length acts \<le> 1 \<and> (\<forall>h m. Http_onready h m \<in> set acts \<longrightarrow> request_ptrs h m)"

definition uri_set :: "http_state \<Rightarrow> bool" where
  "uri_set h \<longleftrightarrow> (hs_step h \<noteq> 0 \<longrightarrow> hs_uri h \<noteq> None)"

text \<open>What a turn gives back, whatever it is.\<close>

definition turn_hands :: "http_outcome \<Rightarrow> bool" where
  "turn_hands res \<longleftrightarrow> (\<forall>again h buf acts. res = Some (again, h, buf, acts) \<longrightarrow> uri_set h \<and> acts_ok acts \<and> (again \<longrightarrow> acts = []))"

lemma turn_hands_cases [simp]:
  "turn_hands None" "turn_hands (Some (again, h, buf, acts)) \<longleftrightarrow> uri_set h \<and> acts_ok acts \<and> (again \<longrightarrow> acts = [])"
  by (simp_all add: turn_hands_def)

lemma turn_hands_bind: "(\<And>x. r = Some x \<Longrightarrow> turn_hands (f x)) \<Longrightarrow> turn_hands (Option.bind r f)"
  by (cases r) simp_all

lemma turn_hands_fail: "uri_set h \<Longrightarrow> turn_hands (http_fail h buf)"
  by (simp add: http_fail_def uri_set_def acts_ok_def)

lemma request_line_hands: "hs_step h = 0 \<Longrightarrow> turn_hands (http_request_line h buf)"
  unfolding http_request_line_def Let_def
  by (intro turn_hands_bind)
    (auto simp: uri_set_def acts_ok_def intro!: turn_hands_bind turn_hands_fail split: if_split option.split prod.split)

lemma store_header_uri [simp]: "hs_uri (store_header s h) = hs_uri h" "hs_step (store_header s h) = hs_step h"
  by (cases "parse_header_line s"; simp add: store_header_def Let_def split: prod.split)+

lemma handed_ptrs:
  assumes "http_live h buf" and "hs_uri h \<noteq> None" and "decode_uri h m = Some m'"
    and "\<And>i. 0 \<in> set (drop i (b_data buf)) \<Longrightarrow> 0 \<in> set (drop i m)"
  shows "request_ptrs h m'"
proof -
  have p: "0 \<in> set (drop q m)" if "hs_uri h = Some q \<or> hs_data h = Some q" for q
    using that assms(1) by (intro assms(4) ptr_nul [OF assms(1)]) (auto simp: http_live_def http_inv_def)
  obtain m2 where "decode_uri h m = Some m2" "\<And>i. 0 \<in> set (drop i m) \<Longrightarrow> 0 \<in> set (drop i m2)" by (rule decode_uri_ok [of h m]) (use p in auto)
  then show ?thesis using p assms(2,3) by (auto simp: request_ptrs_def)
qed

lemma header_line_hands:
  assumes live: "http_live h buf" and u: "hs_uri h \<noteq> None"
  shows "turn_hands (http_header_line h buf)"
proof -
  have p: "request_ptrs h m" if "decode_uri h ((b_data buf)[hs_pos h := 0]) = Some m" for m
    by (rule handed_ptrs [OF live u that nul_poke])
  show ?thesis unfolding http_header_line_def Let_def
    by (intro turn_hands_bind)
      (use u in \<open>auto simp: uri_set_def acts_ok_def p intro!: turn_hands_bind turn_hands_fail split: if_split\<close>)
qed

lemma body_hands:
  assumes live: "http_live h buf" and u: "hs_uri h \<noteq> None"
  shows "turn_hands (http_body h buf)"
proof -
  let ?h = "h\<lparr>hs_pos := b_length buf, hs_read := hs_read h + (int (b_length buf) - int (hs_pos h))\<rparr>"
  have p: "request_ptrs (?h\<lparr>hs_ready := 1\<rparr>) (m[i := 0])" if "decode_uri ?h (b_data buf) = Some m" for m i
  proof -
    have "decode_uri h (b_data buf) = Some m" using that by (simp add: decode_uri_def)
    from handed_ptrs [OF live u this] show ?thesis using nul_poke by (auto simp: request_ptrs_def)
  qed
  show ?thesis unfolding http_body_def Let_def
    using u p by (auto simp: uri_set_def acts_ok_def poke_def intro!: turn_hands_bind split: if_splits)
qed

lemma http_turn_hands:
  assumes inv: "http_inv h buf" and u: "uri_set h"
  shows "turn_hands (http_turn h buf)"
proof (cases "b_length buf = 0 \<or> hs_ready h = 1 \<or> hs_error h")
  case True
  then show ?thesis using u by (simp add: http_turn_def acts_ok_def)
next
  case False
  let ?buf = "buf\<lparr>b_data := (b_data buf)[b_length buf := 0]\<rparr>"
  note T = http_turn_live [OF inv False]
  have stay: "turn_hands (Some (False, h, ?buf, []))" using u by (simp add: acts_ok_def)
  show ?thesis unfolding T(1)
    using stay u request_line_hands header_line_hands [OF T(3)] body_hands [OF T(3)] by (auto simp: uri_set_def)
qed

lemma process_http_safe:
  assumes "http_inv h buf"
  shows "\<exists>h' buf' acts. process_http h buf = Some (h', buf', acts) \<and> http_inv h' buf' \<and> b_size buf' = b_size buf"
  using assms
proof (induction "http_left h buf" arbitrary: h buf rule: less_induct)
  case less
  have "http_safe h buf (http_turn h buf)" by (rule http_turn_safe [OF less.prems])
  then obtain again h1 buf1 acts where t: "http_turn h buf = Some (again, h1, buf1, acts)" "http_inv h1 buf1" "b_size buf1 = b_size buf"
    "again \<Longrightarrow> http_left h1 buf1 < http_left h buf" by (auto simp: http_safe_def split: option.splits)
  show ?case
  proof (cases again)
    case True
    obtain h2 buf2 acts2 where "process_http h1 buf1 = Some (h2, buf2, acts2)" "http_inv h2 buf2" "b_size buf2 = b_size buf1"
      using less.hyps [OF t(4) [OF True] t(2)] by blast
    then show ?thesis using t True by (subst process_http.simps) simp
  next
    case False
    then show ?thesis using t by (subst process_http.simps) simp
  qed
qed

lemma process_http_hands:
  assumes "http_inv h buf" "uri_set h" "process_http h buf = Some (h', buf', acts)"
  shows "uri_set h' \<and> acts_ok acts"
  using assms
proof (induction "http_left h buf" arbitrary: h buf h' buf' acts rule: less_induct)
  case less
  have "http_safe h buf (http_turn h buf)" by (rule http_turn_safe [OF less.prems(1)])
  then obtain again h1 buf1 acts1 where t: "http_turn h buf = Some (again, h1, buf1, acts1)" "http_inv h1 buf1"
    "again \<Longrightarrow> http_left h1 buf1 < http_left h buf" by (auto simp: http_safe_def split: option.splits)
  have u: "uri_set h1 \<and> acts_ok acts1 \<and> (again \<longrightarrow> acts1 = [])" using http_turn_hands [OF less.prems(1,2)] t(1) by simp
  show ?case
  proof (cases again)
    case True
    obtain acts2 where 2: "process_http h1 buf1 = Some (h', buf', acts2)" "acts = acts1 @ acts2"
      using less.prems(3) t(1) True process_http.simps [of h buf] by (auto simp: bind_eq_Some_conv)
    show ?thesis using less.hyps [OF t(3) [OF True] t(2) _ 2(1)] u 2(2) True by auto
  next
    case False
    then show ?thesis using less.prems(3) t(1) u process_http.simps [of h buf] by simp
  qed
qed

lemma http_inv_read:
  assumes inv: "http_inv h buf" and fit: "length bs \<le> b_size buf - b_length buf"
  shows "http_inv h (read_in bs buf)"
proof -
  have b: "buffer_ok buf" using inv by (simp add: http_inv_def)
  note ri = read_in_ok [OF b fit]
  have sz: "b_size buf \<le> b_size (read_in bs buf)" by (simp add: read_in_def Let_def)
  have tail: "b_data (read_in bs buf) ! n = b_data buf ! n" "n < length (b_data (read_in bs buf))"
    if "b_length buf + length bs \<le> n" "n < length (b_data buf)" for n
    using that b fit by (auto simp: read_in_def Let_def buffer_ok_def nth_append less_Suc_eq)
  have "ptr_ok (read_in bs buf) q" if q: "ptr_ok buf q" for q
  proof (cases q)
    case (Some u)
    show ?thesis
    proof (cases "u \<le> b_length buf + length bs")
      case False
      then obtain n where "u \<le> n" "n < length (b_data buf)" "b_data buf ! n = 0" using q Some by (auto simp: ptr_ok_def nul_iff)
      then show ?thesis using False tail [of n] Some by (auto simp: ptr_ok_def nul_iff)
    qed (use Some ri(2) in \<open>simp add: ptr_ok_def\<close>)
  qed (simp add: ptr_ok_def)
  then show ?thesis using inv ri sz by (auto simp: http_inv_def)
qed

lemma http_reads_safe:
  assumes "http_inv h buf"
  shows "\<exists>rest h' buf' acts. http_reads ns inp h buf = Some (rest, h', buf', acts) \<and> http_inv h' buf'"
  using assms
proof (induction ns arbitrary: inp h buf)
  case (Cons n ns)
  define k where "k = min n (b_size buf - b_length buf)"
  have "http_inv h (read_in (take k inp) buf)" by (rule http_inv_read [OF Cons.prems]) (simp add: k_def)
  then obtain h1 buf1 acts where "process_http h (read_in (take k inp) buf) = Some (h1, buf1, acts)" "http_inv h1 buf1"
    using process_http_safe by blast
  then show ?case using Cons.IH [of h1 buf1 "drop k inp"] by (auto simp: k_def [symmetric] Let_def)
qed auto

section \<open>Header lines\<close>

definition header_ok :: "string \<times> string \<Rightarrow> bool" where
  "header_ok kv = (let (k, v) = kv in
     k \<noteq> [] \<and> length k \<le> 63 \<and> hd k \<noteq> CHR '' '' \<and> set k \<inter> {CHR '':'', CHR 0x0D, CHR 0x0A, CHR 0x00} = {} \<and>
     set v \<inter> {CHR 0x0D, CHR 0x0A, CHR 0x00} = {} \<and> length k + length v + 2 \<le> 1024)"

definition header_text :: "string \<times> string \<Rightarrow> string" where
  "header_text kv = fst kv @ '': '' @ snd kv @ [CHR 0x0D]"

lemma header_value_line:
  "set v \<inter> {CHR 0x0D, CHR 0x0A} = {} \<Longrightarrow> i + length v \<le> 1024 \<Longrightarrow> header_value i (v @ CHR 0x0D # rest) = v"
  by (induction v arbitrary: i) auto

lemma header_key_line:
  "set k \<inter> {CHR '':'', CHR 0x0D, CHR 0x0A} = {} \<Longrightarrow> i + length k \<le> 63 \<Longrightarrow> (i = 0 \<longrightarrow> k \<noteq> [] \<and> hd k \<noteq> CHR '' '') \<Longrightarrow>
   header_key i key (k @ '': '' @ v) = Some (key @ k, header_value (i + length k + 2) v)"
  by (induction k arbitrary: i key) auto

lemma parse_header_text:
  assumes "header_ok (k, v)"
  shows "parse_header_line (header_text (k, v) @ rest) = Some (k, v)"
proof -
  have "parse_header_line (header_text (k, v) @ rest) = Some (k, header_value (length k + 2) (v @ CHR 0x0D # rest))"
    using header_key_line [of k 0 "[]" "v @ CHR 0x0D # rest"] assms by (simp add: parse_header_line_def header_text_def header_ok_def)
  also have "header_value (length k + 2) (v @ CHR 0x0D # rest) = v"
    by (rule header_value_line) (use assms in \<open>auto simp: header_ok_def\<close>)
  finally show ?thesis .
qed

lemma header_value_bound: "header_value i s = v \<Longrightarrow> length v + i \<le> 1024 \<or> v = []"
proof (induction i s arbitrary: v rule: header_value.induct)
  case (2 i c cs)
  then show ?case by (cases "header_value (Suc i) cs") (auto split: if_splits)
qed simp

lemma header_key_bound:
  "header_key i key s = Some (k, v) \<Longrightarrow> length key = i \<Longrightarrow> 0 < length k \<and> length k \<le> 63 \<and> length k + 2 + length v \<le> 1024"
proof (induction i key s rule: header_key.induct)
  case (2 i key c cs)
  show ?case
  proof (cases "c = CHR '':''")
    case True
    then have "k = key" "v = header_value (i + 2) (tl cs)" "0 < i" "i \<le> 63" using "2.prems" by (auto split: if_splits)
    then show ?thesis using header_value_bound [of "i + 2" "tl cs" v] "2.prems"(2) by auto
  next
    case False
    then show ?thesis using 2 by (auto split: if_splits)
  qed
qed simp

section \<open>A request in one piece\<close>

lemma byte_of_zero [simp]: "byte_of c = 0 \<longleftrightarrow> c = CHR 0x00"
proof -
  have "char_of_byte 0 = CHR 0x00" by (simp add: char_of_byte_def char_of_def)
  moreover have "byte_of (CHR 0x00) = 0" by (simp add: byte_of_def)
  ultimately show ?thesis by (metis char_of_byte_of)
qed

lemma cstring_bytes: "CHR 0x00 \<notin> set s \<Longrightarrow> cstring (map byte_of s @ 0 # b) = map byte_of s"
  unfolding cstring_def by (subst takeWhile_append2) auto

lemma c_str_bytes: "CHR 0x00 \<notin> set s \<Longrightarrow> length a = i \<Longrightarrow> c_str (a @ map byte_of s @ 0 # b) i = Some s"
  by (auto simp: c_str_def cstring_bytes comp_def)

lemma seof_line: "CHR 0x0A \<notin> set l \<Longrightarrow> seof (l @ CHR 0x0A # rest) (CHR 0x0A) = int (length l) + 1"
proof -
  have "CHR 0x0A \<notin> set l \<Longrightarrow> seof_from (l @ CHR 0x0A # rest) (CHR 0x0A) n = int n + int (length l) + 1" for n
    by (induction l arbitrary: n) auto
  then show "CHR 0x0A \<notin> set l \<Longrightarrow> seof (l @ CHR 0x0A # rest) (CHR 0x0A) = int (length l) + 1" by (simp add: seof_def)
qed

lemma tolower_colon: "tolower c = CHR '':'' \<longleftrightarrow> c = CHR '':''"
proof -
  have "char_of (n + 32) \<noteq> CHR '':''" if "65 \<le> n" "n \<le> 90" for n :: nat
  proof
    assume "char_of (n + 32) = CHR '':''"
    then have "of_char (char_of (n + 32) :: char) = (of_char CHR '':'' :: nat)" by simp
    then show False using that by simp
  qed
  then show ?thesis by (auto simp: tolower_def Let_def)
qed

lemma strncaseeq_nth:
  assumes "strncaseeq lit s"
  shows "length lit \<le> length s" "j < length lit \<Longrightarrow> tolower (s ! j) = tolower (lit ! j)"
    "n \<le> length lit \<Longrightarrow> casefold (take n s) = casefold (take n lit)"
proof -
  have e: "map tolower (take (length lit) s) = map tolower lit" using assms by (simp add: strncaseeq_def)
  show len: "length lit \<le> length s" using arg_cong [OF e, of length] by simp
  show "j < length lit \<Longrightarrow> tolower (s ! j) = tolower (lit ! j)" using arg_cong [OF e, of "\<lambda>xs. xs ! j"] len by simp
  show "n \<le> length lit \<Longrightarrow> casefold (take n s) = casefold (take n lit)" using arg_cong [OF e, of "take n"] by (simp add: take_map min_absorb1)
qed

lemma nth_in_take: "j < n \<Longrightarrow> j < length xs \<Longrightarrow> xs ! j \<in> set (take n xs)"
  by (auto simp: in_set_conv_nth)

lemma key1_line:
  assumes "header_ok (k, v)" "\<not> strcaseeq k ''Sec-WebSocket-Key1''"
  shows "\<not> strncaseeq ''Sec-WebSocket-Key1: '' (header_text (k, v) @ rest)"
proof
  let ?s = "header_text (k, v) @ rest" and ?lit = "''Sec-WebSocket-Key1: ''"
  assume eq: "strncaseeq ?lit ?s"
  have len20: "length ?lit = 20" by simp
  have at: "tolower (?s ! j) = tolower (?lit ! j)" if "j < 20" for j by (rule strncaseeq_nth(2) [OF eq]) (use that len20 in simp)
  have c: "tolower CHR '':'' = CHR '':''" by (simp only: tolower_colon)
  have "?s ! 18 = CHR '':''" using at [of 18] by (simp add: c tolower_colon)
  moreover have "?s ! j \<noteq> CHR '':''" if "j < length k" for j
  proof -
    have "CHR '':'' \<notin> set k" using assms(1) by (simp add: header_ok_def)
    then have "k ! j \<noteq> CHR '':''" using nth_mem [OF that] by metis
    then show ?thesis using that by (simp add: header_text_def nth_append)
  qed
  ultimately have "length k \<le> 18" using not_le by blast
  moreover have "length k \<noteq> j" if "j < 18" for j
  proof
    assume "length k = j"
    then have "?s ! j = CHR '':''" by (simp add: header_text_def nth_append)
    then have "tolower (?lit ! j) = CHR '':''" using at [of j] that c by simp
    then have "CHR '':'' = ?lit ! j" by (simp add: tolower_colon)
    moreover have "?lit ! j \<in> set (take 18 ?lit)" by (rule nth_in_take) (use that len20 in simp_all)
    ultimately show False by simp
  qed
  ultimately have "length k = 18" by (metis le_neq_implies_less)
  then have "take 18 ?s = k" by (simp add: header_text_def)
  moreover have "casefold (take 18 ?s) = casefold (take 18 ?lit)" by (rule strncaseeq_nth(3) [OF eq]) simp
  ultimately show False using assms(2) by (simp add: strcaseeq_def)
qed

text \<open>One line of a text in the buffer, when the terminator of the text is in place.\<close>

definition holds_text :: "nat \<Rightarrow> string \<Rightarrow> ape_buffer \<Rightarrow> bool" where
  "holds_text i s buf \<longleftrightarrow> CHR 0x00 \<notin> set s \<and> b_length buf = i + length s \<and> b_length buf < length (b_data buf) \<and>
     take (length s) (drop i (b_data buf)) = map byte_of s \<and> b_data buf ! b_length buf = 0"

lemma holds_text_split:
  assumes "holds_text i s buf"
  shows "b_data buf = take i (b_data buf) @ map byte_of s @ 0 # drop (Suc (b_length buf)) (b_data buf)" "length (take i (b_data buf)) = i"
proof -
  have l: "b_length buf = i + length s" "b_length buf < length (b_data buf)" "take (length s) (drop i (b_data buf)) = map byte_of s"
    "b_data buf ! b_length buf = 0" using assms by (auto simp: holds_text_def)
  have "drop i (b_data buf) = take (length s) (drop i (b_data buf)) @ drop (length s) (drop i (b_data buf))" by (simp only: append_take_drop_id)
  moreover have "drop (length s) (drop i (b_data buf)) = 0 # drop (Suc (b_length buf)) (b_data buf)"
    using Cons_nth_drop_Suc [of "b_length buf" "b_data buf"] l by (simp add: add.commute)
  ultimately show "b_data buf = take i (b_data buf) @ map byte_of s @ 0 # drop (Suc (b_length buf)) (b_data buf)"
    using l(3) by (metis append_take_drop_id)
  show "length (take i (b_data buf)) = i" using l by simp
qed

lemma holds_text_c_str:
  assumes "holds_text i s buf"
  shows "c_str (b_data buf) i = Some s"
  by (subst holds_text_split(1) [OF assms], rule c_str_bytes) (use assms holds_text_split(2) [OF assms] in \<open>simp_all add: holds_text_def\<close>)

lemma holds_text_append: "holds_text i (s @ t) buf \<Longrightarrow> holds_text (i + length s) t buf"
proof -
  assume h: "holds_text i (s @ t) buf"
  then have "take (length (s @ t)) (drop i (b_data buf)) = map byte_of (s @ t)" by (simp add: holds_text_def)
  then have "drop (length s) (take (length (s @ t)) (drop i (b_data buf))) = map byte_of t" by simp
  then show "holds_text (i + length s) t buf" using h by (auto simp: holds_text_def drop_take add.commute add.left_commute)
qed

lemma holds_text_poke: "holds_text i s buf \<Longrightarrow> (b_data buf)[b_length buf := 0] = b_data buf"
  by (simp add: holds_text_def) (metis list_update_id)

lemma turn_header:
  assumes t: "holds_text (hs_pos h) (l @ CHR 0x0A # rest) buf" "CHR 0x0A \<notin> set l" "l \<noteq> []" "l \<noteq> [CHR 0x0D]"
    and h: "hs_step h = 1" "hs_ready h \<noteq> 1" "\<not> hs_error h" "hs_type h = HTTP_GET" "\<not> strncaseeq ''Sec-WebSocket-Key1: '' (l @ CHR 0x0A # rest)"
  shows "http_turn h buf = Some (True, (store_header (l @ CHR 0x0A # rest) h)\<lparr>hs_pos := hs_pos h + Suc (length l)\<rparr>, buf, [])"
proof -
  let ?s = "l @ CHR 0x0A # rest"
  have s: "c_str (b_data buf) (hs_pos h) = Some ?s" by (rule holds_text_c_str [OF t(1)])
  have p: "seof ?s (CHR 0x0A) = int (length l) + 1" by (rule seof_line [OF t(2)])
  have "take (length ?s) (drop (hs_pos h) (b_data buf)) = map byte_of ?s" using t(1) by (simp add: holds_text_def)
  then have "take (length ?s) (drop (hs_pos h) (b_data buf)) ! 0 = map byte_of ?s ! 0" by simp
  then have c: "b_data buf ! hs_pos h = byte_of (hd ?s)" using t(1,3) by (cases l) (simp_all add: holds_text_def)
  moreover have "hd ?s \<noteq> CHR 0x00" using t(1,3) by (cases l) (auto simp: holds_text_def)
  ultimately have nz: "b_data buf ! hs_pos h \<noteq> 0" by simp
  have len: "b_length buf < length (b_data buf)" "hs_pos h < b_length buf" "b_length buf \<noteq> 0" using t(1,3) by (auto simp: holds_text_def)
  have ty: "hs_type (store_header ?s h) = HTTP_GET" using h(4) by (simp add: store_header_def Let_def split: option.splits)
  have e: "http_turn h buf = http_header_line h buf"
    using len h nz holds_text_poke [OF t(1)] by (simp add: http_turn_def poke_def peek_def)
  have nb: "\<not> (int (length l) + 1 = 1 \<or> int (length l) + 1 = 2 \<and> hd ?s = CHR 0x0D)" using t(3,4) by (cases l) auto
  have n: "nat (int (length l) + 1) = Suc (length l)" by simp
  have "(store_header ?s h)\<lparr>hs_type := HTTP_GET, hs_pos := q\<rparr> = (store_header ?s h)\<lparr>hs_pos := q\<rparr>" for q
    using ty by (simp add: http_state.equality)
  then show ?thesis unfolding e http_header_line_def Let_def s bind.bind_lunit p n
    using nb ty h(5) by (simp only: if_False simp_thms if_True http_method.distinct) simp
qed

text \<open>The header lines of a request, and the parser after them.\<close>

definition plain_header :: "string \<times> string \<Rightarrow> bool" where
  "plain_header kv \<longleftrightarrow> header_ok kv \<and> \<not> strcaseeq (fst kv) ''Sec-WebSocket-Key1''"

definition header_lines :: "(string \<times> string) list \<Rightarrow> string" where
  "header_lines hs = concat (map (\<lambda>kv. header_text kv @ [CHR 0x0A]) hs)"

definition take_header :: "string \<times> string \<Rightarrow> http_state \<Rightarrow> http_state" where
  "take_header kv h = h\<lparr>hs_hlines := kv # hs_hlines h, hs_host := (if strcaseeq (fst kv) ''host'' then Some (snd kv) else hs_host h)\<rparr>"

lemma take_headers_sel:
  "hs_uri (fold take_header hs h) = hs_uri h" "hs_data (fold take_header hs h) = hs_data h" "hs_pos (fold take_header hs h) = hs_pos h"
  "hs_step (fold take_header hs h) = hs_step h" "hs_ready (fold take_header hs h) = hs_ready h" "hs_error (fold take_header hs h) = hs_error h"
  "hs_type (fold take_header hs h) = hs_type h" "hs_hlines (fold take_header hs h) = rev hs @ hs_hlines h"
  by (induction hs arbitrary: h) (simp_all add: take_header_def)

lemma take_headers_host:
  "hs_host (fold take_header hs h) = (case get_header_line (rev hs) ''host'' of None \<Rightarrow> hs_host h | Some v \<Rightarrow> Some v)"
  by (induction hs rule: rev_induct) (auto simp: get_header_line_def take_header_def)

lemma take_header_pos: "(take_header kv h)\<lparr>hs_pos := p\<rparr> = take_header kv (h\<lparr>hs_pos := p\<rparr>)"
  by (simp add: take_header_def)

lemma store_header_text: "header_ok kv \<Longrightarrow> store_header (header_text kv @ rest) h = take_header kv h"
  using parse_header_text [of "fst kv" "snd kv" rest] by (cases kv) (simp add: store_header_def take_header_def Let_def)

lemma process_headers:
  assumes "holds_text (hs_pos h) (header_lines hs @ rest) buf" "list_all plain_header hs"
    "hs_step h = 1" "hs_ready h \<noteq> 1" "\<not> hs_error h" "hs_type h = HTTP_GET"
  shows "process_http h buf = process_http (fold take_header hs (h\<lparr>hs_pos := hs_pos h + length (header_lines hs)\<rparr>)) buf"
  using assms
proof (induction hs arbitrary: h)
  case Nil
  then show ?case by (simp add: header_lines_def)
next
  case (Cons kv hs)
  obtain k v where kv: "kv = (k, v)" by (cases kv)
  have ok: "header_ok (k, v)" "\<not> strcaseeq k ''Sec-WebSocket-Key1''" using Cons.prems(2) kv by (auto simp: plain_header_def)
  let ?l = "header_text kv" and ?r = "header_lines hs @ rest"
  let ?h = "take_header kv (h\<lparr>hs_pos := hs_pos h + Suc (length ?l)\<rparr>)"
  have tx: "holds_text (hs_pos h) (?l @ CHR 0x0A # ?r) buf" using Cons.prems(1) by (simp add: header_lines_def)
  have l: "CHR 0x0A \<notin> set ?l" "?l \<noteq> []" "?l \<noteq> [CHR 0x0D]" using ok(1) kv by (auto simp: header_text_def header_ok_def)
  have "http_turn h buf = Some (True, (store_header (?l @ CHR 0x0A # ?r) h)\<lparr>hs_pos := hs_pos h + Suc (length ?l)\<rparr>, buf, [])"
    by (rule turn_header [OF tx l Cons.prems(3-6)]) (use key1_line [OF ok] kv in simp)
  then have "http_turn h buf = Some (True, ?h, buf, [])" using ok(1) kv by (simp add: store_header_text take_header_pos)
  then have step: "process_http h buf = process_http ?h buf"
    by (subst process_http.simps) (auto split: bind_splits)
  have "holds_text (hs_pos h + length (?l @ [CHR 0x0A])) ?r buf" by (rule holds_text_append) (use tx in simp)
  then have "process_http ?h buf = process_http (fold take_header hs (?h\<lparr>hs_pos := hs_pos ?h + length (header_lines hs)\<rparr>)) buf"
    by (intro Cons.IH) (use Cons.prems in \<open>simp_all add: take_header_def\<close>)
  then show ?case unfolding step by (simp add: take_header_pos header_lines_def add.assoc) (simp add: take_header_def add.assoc)
qed

text \<open>The blank line that ends a GET request.\<close>

lemma turn_blank:
  assumes t: "holds_text (hs_pos h) [CHR 0x0D, CHR 0x0A] buf"
    and h: "hs_step h = 1" "hs_ready h \<noteq> 1" "\<not> hs_error h" "hs_type h = HTTP_GET"
    and d: "decode_uri h ((b_data buf)[hs_pos h := 0]) = Some m"
  shows "process_http h buf = Some (h\<lparr>hs_ready := -1, hs_pos := 0\<rparr>, buf\<lparr>b_data := m, b_length := 0\<rparr>, [Http_onready h m])"
proof -
  have s: "c_str (b_data buf) (hs_pos h) = Some [CHR 0x0D, CHR 0x0A]" by (rule holds_text_c_str [OF t])
  have p: "seof [CHR 0x0D, CHR 0x0A] (CHR 0x0A) = 2" by (simp add: seof_def)
  have "take 2 (drop (hs_pos h) (b_data buf)) = map byte_of [CHR 0x0D, CHR 0x0A]" using t by (simp add: holds_text_def numeral_2_eq_2)
  then have "take 2 (drop (hs_pos h) (b_data buf)) ! 0 = map byte_of [CHR 0x0D, CHR 0x0A] ! 0" by simp
  then have nz: "b_data buf ! hs_pos h \<noteq> 0" using t by (auto simp: holds_text_def byte_of_def)
  have len: "b_length buf < length (b_data buf)" "hs_pos h < b_length buf" "b_length buf \<noteq> 0" using t by (auto simp: holds_text_def)
  have e: "http_turn h buf = http_header_line h buf"
    using len h nz holds_text_poke [OF t] by (simp add: http_turn_def poke_def peek_def)
  have "http_turn h buf = Some (False, h\<lparr>hs_ready := -1, hs_pos := 0\<rparr>, buf\<lparr>b_data := m, b_length := 0\<rparr>, [Http_onready h m])"
    unfolding e http_header_line_def Let_def s bind.bind_lunit p using h(4) d by simp
  then show ?thesis by (subst process_http.simps) simp
qed

lemma scan_uri_path:
  assumes "set p \<inter> {CHR '' '', CHR ''?'', CHR 0x0D, CHR 0x0A, CHR 0x00} = {}"
  shows "scan_uri i d (map byte_of p @ cs) = scan_uri (i + length p) d cs"
proof -
  have b: "byte_of c = byte_of c' \<longleftrightarrow> c = c'" for c c' by (metis char_of_byte_of)
  have lit: "byte_of CHR '' '' = 32" "byte_of CHR ''?'' = 63" "byte_of CHR 0x0D = 13" "byte_of CHR 0x0A = 10" by (simp_all add: byte_of_def)
  have ne: "byte_of c \<noteq> 32" "byte_of c \<noteq> 63" "byte_of c \<noteq> 13" "byte_of c \<noteq> 10" "byte_of c \<noteq> 0"
    if "c \<notin> {CHR '' '', CHR ''?'', CHR 0x0D, CHR 0x0A, CHR 0x00}" for c
    using that b [of c] by (auto simp flip: lit)
  show ?thesis using assms
  proof (induction p arbitrary: i)
    case (Cons c p)
    have c: "c \<notin> {CHR '' '', CHR ''?'', CHR 0x0D, CHR 0x0A, CHR 0x00}" using Cons.prems by auto
    have "scan_uri i d (map byte_of (c # p) @ cs) = scan_uri (Suc i) d (map byte_of p @ cs)" using ne [OF c] c by simp
    then show ?case using Cons.IH [of "Suc i"] Cons.prems by simp
  qed simp
qed

text \<open>The request line with a path and a query.\<close>

definition uri_ok :: "string \<Rightarrow> string \<Rightarrow> bool" where
  "uri_ok path query \<longleftrightarrow> path \<noteq> [] \<and> hd path = CHR ''/'' \<and> query \<noteq> [] \<and>
     set path \<inter> {CHR '' '', CHR ''?'', CHR 0x0D, CHR 0x0A, CHR 0x00, CHR ''%''} = {} \<and>
     set query \<inter> {CHR '' '', CHR ''?'', CHR 0x0D, CHR 0x0A, CHR 0x00} = {}"

definition get_line :: "string \<Rightarrow> string \<Rightarrow> string" where
  "get_line path query = ''GET '' @ path @ ''?'' @ query @ '' HTTP/1.1'' @ [CHR 0x0D]"

lemma turn_request:
  assumes t: "holds_text 0 (get_line path query @ CHR 0x0A # rest) buf" and u: "uri_ok path query"
    and h: "hs_pos h = 0" "hs_step h = 0" "hs_ready h \<noteq> 1" "\<not> hs_error h"
  shows "http_turn h buf = Some (True,
     h\<lparr>hs_type := HTTP_GET, hs_data := Some (5 + length path), hs_pos := Suc (length (get_line path query)), hs_step := 1, hs_uri := Some 4\<rparr>,
     buf\<lparr>b_data := (b_data buf)[5 + length path + length query := 0]\<rparr>, [])"
proof -
  let ?l = "get_line path query" and ?m = "b_data buf"
  obtain path' where p: "path = CHR ''/'' # path'" using u by (cases path) (auto simp: uri_ok_def)
  have s: "c_str ?m 0 = Some (?l @ CHR 0x0A # rest)" by (rule holds_text_c_str [OF t])
  have sf: "seof (?l @ CHR 0x0A # rest) (CHR 0x0A) = int (length ?l) + 1"
    by (rule seof_line) (use u in \<open>auto simp: get_line_def uri_ok_def\<close>)
  obtain z where m: "?m = map byte_of (?l @ CHR 0x0A # rest) @ 0 # z" using holds_text_split(1) [OF t] by simp
  have m4: "?m = map byte_of ''GET '' @ 47 # map byte_of path' @ 63 # map byte_of query @ 32 # map byte_of (''HTTP/1.1'' @ CHR 0x0D # CHR 0x0A # rest) @ 0 # z"
    unfolding m get_line_def p by (simp add: byte_of_def)
  have len: "b_length buf < length ?m" "b_length buf \<noteq> 0" "?m \<noteq> []" using t by (auto simp: holds_text_def)
  have meth: "http_method_at ?m 0 = Some (HTTP_GET, 4)" unfolding m4 by (simp add: http_method_at_def)
  have at: "peek ?m 4 = Some 47" unfolding m4 by (simp add: peek_def nth_append)
  obtain q qs where q: "query = q # qs" using u by (cases query) (auto simp: uri_ok_def)
  have qn: "byte_of q \<noteq> 32" "byte_of q \<noteq> 13" "byte_of q \<noteq> 10"
  proof -
    have b: "byte_of q = byte_of c' \<longleftrightarrow> q = c'" for c' by (metis char_of_byte_of)
    have lit: "byte_of CHR '' '' = 32" "byte_of CHR 0x0D = 13" "byte_of CHR 0x0A = 10" by (simp_all add: byte_of_def)
    show "byte_of q \<noteq> 32" "byte_of q \<noteq> 13" "byte_of q \<noteq> 10" using u q b by (auto simp: uri_ok_def simp flip: lit)
  qed
  have "scan_uri 5 (hs_data h) (drop 5 ?m) = scan_uri (5 + length path') (hs_data h) (63 # map byte_of query @ 32 # map byte_of (''HTTP/1.1'' @ CHR 0x0D # CHR 0x0A # rest) @ 0 # z)"
    unfolding m4 using scan_uri_path [of path' 5 "hs_data h"] u p by (simp add: uri_ok_def)
  also have "\<dots> = scan_uri (6 + length path') (Some (6 + length path')) (map byte_of query @ 32 # map byte_of (''HTTP/1.1'' @ CHR 0x0D # CHR 0x0A # rest) @ 0 # z)"
    using q qn by simp
  also have "\<dots> = scan_uri (6 + length path' + length query) (Some (6 + length path')) (32 # map byte_of (''HTTP/1.1'' @ CHR 0x0D # CHR 0x0A # rest) @ 0 # z)"
    by (rule scan_uri_path) (use u in \<open>simp add: uri_ok_def\<close>)
  finally have sc: "scan_uri 5 (hs_data h) (drop 5 ?m) = Some (Some (5 + length path + length query), Some (5 + length path))" by (simp add: p)
  have nz: "?m ! 0 \<noteq> 0" unfolding m4 by (simp add: byte_of_def)
  have l4: "\<not> length ?m < 4" unfolding m4 by simp
  have e: "http_turn h buf = http_request_line h buf"
    using len h nz holds_text_poke [OF t] by (simp add: http_turn_def poke_def peek_def)
  have n: "nat (int (length ?l) + 1) = Suc (length ?l)" "int (length ?l) + 1 \<noteq> -1" by simp_all
  show ?thesis unfolding e http_request_line_def Let_def h(1) s bind.bind_lunit sf n(1) add_0 meth
    using n(2) l4 at sc by (simp add: h(1))
qed

lemma holds_text_before: "holds_text i s buf \<Longrightarrow> q < i \<Longrightarrow> holds_text i s (buf\<lparr>b_data := (b_data buf)[q := x]\<rparr>)"
  by (auto simp: holds_text_def)

lemma byte_of_char_of [simp]: "byte_of (char_of_byte b) = b"
proof -
  have "byte_of (char_of_byte b) = of_nat (of_char (char_of (unat b) :: char))" unfolding byte_of_def char_of_byte_def by (simp only: of_nat_of_char)
  then show ?thesis using u8_bound [of b] by simp
qed

lemma http_turn_terminate:
  "b_length buf \<noteq> 0 \<Longrightarrow> b_length buf < length (b_data buf) \<Longrightarrow> hs_ready h \<noteq> 1 \<Longrightarrow> \<not> hs_error h \<Longrightarrow>
   http_turn h (buf\<lparr>b_data := (b_data buf)[b_length buf := 0]\<rparr>) = http_turn h buf"
  by (simp add: http_turn_def poke_def)

lemma urldecode_plain: "CHR ''%'' \<notin> set p \<Longrightarrow> urldecode (p @ s) = p @ urldecode s"
  by (induction p) auto

lemma urldecode_no_nul: "CHR 0x00 \<notin> set s \<Longrightarrow> CHR 0x00 \<notin> set (urldecode s)"
proof (induction s rule: urldecode.induct)
  case (2 c s)
  show ?case
  proof (cases "c = CHR ''%''")
    case False
    then show ?thesis using 2 by auto
  next
    case True
    show ?thesis
    proof (cases "url_escape s")
      case None
      then show ?thesis using 2 True by auto
    next
      case (Some b)
      then have "b \<noteq> 0" by (auto simp: url_escape_def Let_def split: if_splits)
      then have "char_of_byte b \<noteq> CHR 0x00" by (metis byte_of_zero byte_of_char_of)
      moreover have "CHR 0x00 \<notin> set (drop 2 s)" using "2.prems" by (auto dest: in_set_dropD)
      ultimately show ?thesis using 2 True Some by auto
    qed
  qed
qed simp

lemma urldecode_uri: "uri_ok path query \<Longrightarrow> urldecode (path @ CHR ''?'' # query) = path @ CHR ''?'' # urldecode query"
  using urldecode_plain [of "path @ ''?''" query] by (simp add: uri_ok_def)

text \<open>The memory after the decoding: the URI ends where its query ended, and the data are the decoded query.\<close>

lemma decoded_memory:
  assumes u: "uri_ok path query" and m: "m = map byte_of (''GET '' @ path @ CHR ''?'' # query) @ 0 # z"
  obtains m' where "\<And>h. hs_uri h = Some 4 \<Longrightarrow> decode_uri h m = Some m'" "c_str m' 4 = Some (path @ CHR ''?'' # urldecode query)"
    "c_str m' (5 + length path) = Some (urldecode query)"
proof -
  let ?uri = "path @ CHR ''?'' # query" and ?dec = "path @ CHR ''?'' # urldecode query"
  have nul: "CHR 0x00 \<notin> set ?uri" using u by (auto simp: uri_ok_def)
  have nq: "CHR 0x00 \<notin> set (urldecode query)" by (rule urldecode_no_nul) (use nul in simp)
  then have nd: "CHR 0x00 \<notin> set ?dec" using nul by auto
  define m' where "m' = put_str m 4 ?dec"
  have "m = map byte_of ''GET '' @ map byte_of ?uri @ 0 # z" using m by simp
  then have s: "c_str m 4 = Some ?uri" using c_str_bytes [OF nul, of "map byte_of ''GET ''" 4 z] by simp
  have d: "decode_uri h m = Some m'" if "hs_uri h = Some 4" for h
    using that s urldecode_uri [OF u] by (simp add: decode_uri_def m'_def)
  obtain z' where m': "m' = map byte_of ''GET '' @ map byte_of ?dec @ 0 # z'" by (simp add: m'_def put_str_def m)
  have 1: "c_str m' 4 = Some ?dec" using c_str_bytes [OF nd, of "map byte_of ''GET ''" 4 z'] m' by simp
  have "m' = map byte_of (''GET '' @ path @ ''?'') @ map byte_of (urldecode query) @ 0 # z'" using m' by simp
  then have 2: "c_str m' (5 + length path) = Some (urldecode query)"
    using c_str_bytes [OF nq, of "map byte_of (''GET '' @ path @ ''?'')" "5 + length path" z'] by simp
  show thesis by (rule that [OF d 1 2])
qed

definition get_request :: "string \<Rightarrow> string \<Rightarrow> (string \<times> string) list \<Rightarrow> string" where
  "get_request path query hs = get_line path query @ CHR 0x0A # header_lines hs @ [CHR 0x0D, CHR 0x0A]"

lemma header_lines_no_nul: "list_all plain_header hs \<Longrightarrow> CHR 0x00 \<notin> set (header_lines hs)"
  by (induction hs) (auto simp: header_lines_def header_text_def plain_header_def header_ok_def)

lemma update_behind: "length a < n \<Longrightarrow> \<exists>y'. (a @ x # y)[n := v] = a @ x # y'"
  by (auto simp: list_update_append split: nat.splits)

lemma process_get:
  assumes u: "uri_ok path query" and hs: "list_all plain_header hs" and t: "holds_text 0 (get_request path query hs) buf"
  shows "\<exists>h m h' buf'. process_http parser_init_http buf = Some (h', buf', [Http_onready h m]) \<and>
     Option.bind (hs_uri h) (c_str m) = Some (path @ CHR ''?'' # urldecode query) \<and> Option.bind (hs_data h) (c_str m) = Some (urldecode query) \<and>
     hs_hlines h = rev hs \<and> hs_host h = get_header_line (rev hs) ''host''"
proof -
  let ?l = "get_line path query" and ?q = "5 + length path + length query"
  define h1 where "h1 = parser_init_http\<lparr>hs_type := HTTP_GET, hs_data := Some (5 + length path), hs_pos := Suc (length ?l), hs_step := 1, hs_uri := Some 4\<rparr>"
  define buf1 where "buf1 = buf\<lparr>b_data := (b_data buf)[?q := 0]\<rparr>"
  define P where "P = Suc (length ?l) + length (header_lines hs)"
  define h2 where "h2 = fold take_header hs (h1\<lparr>hs_pos := P\<rparr>)"
  have t0: "holds_text 0 (?l @ CHR 0x0A # (header_lines hs @ [CHR 0x0D, CHR 0x0A])) buf" using t by (simp add: get_request_def)
  have "http_turn parser_init_http buf = Some (True, h1, buf1, [])"
    unfolding h1_def buf1_def by (rule turn_request [OF t0 u]) (simp_all add: parser_init_http_def)
  then have step: "process_http parser_init_http buf = process_http h1 buf1" by (subst process_http.simps) (auto split: bind_splits)
  have "holds_text (0 + length (?l @ [CHR 0x0A])) (header_lines hs @ [CHR 0x0D, CHR 0x0A]) buf" by (rule holds_text_append) (use t0 in simp)
  then have t1: "holds_text (hs_pos h1) (header_lines hs @ [CHR 0x0D, CHR 0x0A]) buf1"
    unfolding buf1_def by (intro holds_text_before) (simp_all add: h1_def get_line_def)
  have hdr: "process_http h1 buf1 = process_http h2 buf1"
    using process_headers [OF t1 hs] by (simp add: h1_def parser_init_http_def h2_def P_def)
  have h2: "hs_uri h2 = Some 4" "hs_data h2 = Some (5 + length path)" "hs_pos h2 = P" "hs_step h2 = 1" "hs_ready h2 \<noteq> 1" "\<not> hs_error h2"
    "hs_type h2 = HTTP_GET" "hs_hlines h2 = rev hs" "hs_host h2 = get_header_line (rev hs) ''host''"
    by (simp_all add: h2_def take_headers_sel take_headers_host h1_def parser_init_http_def split: option.splits)
  have t2: "holds_text (hs_pos h2) [CHR 0x0D, CHR 0x0A] buf1"
    using holds_text_append [OF t1] h2(3) by (simp add: h1_def P_def)
  obtain z where "b_data buf = map byte_of (?l @ CHR 0x0A # (header_lines hs @ [CHR 0x0D, CHR 0x0A])) @ 0 # z" using holds_text_split(1) [OF t0] by simp
  then have "b_data buf = map byte_of (''GET '' @ path @ CHR ''?'' # query) @ byte_of CHR '' '' # map byte_of (''HTTP/1.1'' @ CHR 0x0D # CHR 0x0A # header_lines hs @ [CHR 0x0D, CHR 0x0A]) @ 0 # z"
    by (simp add: get_line_def)
  moreover have "length (map byte_of (''GET '' @ path @ CHR ''?'' # query)) = ?q" by simp
  ultimately obtain y where "b_data buf1 = map byte_of (''GET '' @ path @ CHR ''?'' # query) @ 0 # y"
    unfolding buf1_def by (simp only: ape_buffer.simps list_update_append) (auto simp: list_update_append)
  moreover have "?q < P" by (simp add: P_def get_line_def)
  ultimately obtain y' where m: "(b_data buf1)[P := 0] = map byte_of (''GET '' @ path @ CHR ''?'' # query) @ 0 # y'"
    using update_behind [of "map byte_of (''GET '' @ path @ CHR ''?'' # query)" P 0 y 0] by auto
  obtain m' where m': "\<And>h. hs_uri h = Some 4 \<Longrightarrow> decode_uri h ((b_data buf1)[P := 0]) = Some m'" "c_str m' 4 = Some (path @ CHR ''?'' # urldecode query)"
    "c_str m' (5 + length path) = Some (urldecode query)"
    using decoded_memory [OF u m] by blast
  have "process_http h2 buf1 = Some (h2\<lparr>hs_ready := -1, hs_pos := 0\<rparr>, buf1\<lparr>b_data := m', b_length := 0\<rparr>, [Http_onready h2 m'])"
    by (rule turn_blank [OF t2 h2(4-7)]) (use m'(1) [OF h2(1)] h2(3) in simp)
  then show ?thesis using step hdr h2 m' by auto
qed

section \<open>Correctness\<close>




lemma sample_request: "uri_ok ''/1/'' ''cmd=[]''" "list_all plain_header [(''Host'', ''a'')]"
  "length (get_request ''/1/'' ''cmd=[]'' [(''Host'', ''a'')]) = 36" "urldecode ''cmd=[]'' = ''cmd=[]''"
proof -
  show "list_all plain_header [(''Host'', ''a'')]" by (simp add: plain_header_def header_ok_def strcaseeq_def)
qed (simp_all add: uri_ok_def get_request_def get_line_def header_lines_def header_text_def)


text \<open>A header line of the usual form is read back exactly, and whatever the line, the key and the value
  stay within the arrays of the code with room for the terminators.\<close>

lemma parse_header_line_correct:
  "(header_ok (k, v) \<longrightarrow> parse_header_line (header_text (k, v) @ rest) = Some (k, v)) \<and>
   (parse_header_line line = Some (k', v') \<longrightarrow> 0 < length k' \<and> length k' < 64 \<and> length v' < 1024)"
proof (intro conjI impI)
  show "header_ok (k, v) \<Longrightarrow> parse_header_line (header_text (k, v) @ rest) = Some (k, v)" by (rule parse_header_text)
  assume "parse_header_line line = Some (k', v')"
  then have "0 < length k' \<and> length k' \<le> 63 \<and> length k' + 2 + length v' \<le> 1024" unfolding parse_header_line_def by (rule header_key_bound) simp
  then show "0 < length k'" "length k' < 64" "length v' < 1024" by auto
qed

end
