(* ===== verification/Ape_Users.thy ===== *)
theory Ape_Users
  imports Ape_Channel
begin

text \<open>
  Users and their connections (subusers), from \<open>src/users.c\<close>: creation and deletion, the periodic
  timeout, sessions, and links between users.

  \<open>delsubuser\<close> takes the location that holds the pointer to the subuser; as a subuser is in the list of
  its own user only, the model removes it from there.
\<close>

section \<open>Creation\<close>

definition grant_aceop :: "nat \<Rightarrow> acetables \<Rightarrow> acetables option" where
  "grant_aceop user = upd_user user (\<lambda>u. u\<lparr>u_flags := FLG_AUTOOP OR FLG_NOKICK OR FLG_BOTMANAGE\<rparr>)"

text \<open>\<open>pipe\<close>, \<open>ip\<close> and \<open>istmp\<close> are left uninitialised by \<open>init_user\<close>; \<open>adduser\<close> assigns them.\<close>

definition init_user :: "env \<Rightarrow> acetables \<Rightarrow> (nat \<times> acetables) option" where
  "init_user E s = do {
     (sessid, pos) \<leftarrow> gen_sessid_new (e_rand E) s (g_rpos s);
     let nuser = g_next s;
     let u = \<lparr>u_ulink = [], u_nlink = 0, u_sessions = [], u_sessions_length = 0, u_chan_foot = [], u_pipe = 0,
              u_properties = [], u_subuser = [], u_cmdqueue = [], u_idle = g_now s,
              u_transport = TRANSPORT_LONGPOLLING, u_nsub = 0, u_flags = 0, u_type = HUMAN, u_istmp = False,
              u_ip = [], u_sessid = sessid\<rparr>;
     Some (nuser, s\<lparr>g_rpos := pos, g_next := Suc nuser, g_users := (g_users s)(nuser \<mapsto> u),
                    g_uHead := nuser # g_uHead s\<rparr>) }"

fun getsubuser_loop :: "nat list \<Rightarrow> string \<Rightarrow> acetables \<Rightarrow> nat option option" where
  "getsubuser_loop [] channel s = Some None"
| "getsubuser_loop (current # rest) channel s = do {
     b \<leftarrow> g_subs s current;
     if sub_channel b = channel then Some (Some current) else getsubuser_loop rest channel s }"

definition getsubuser :: "nat \<Rightarrow> string \<Rightarrow> acetables \<Rightarrow> nat option option" where
  "getsubuser user channel s = do { u \<leftarrow> g_users s user; getsubuser_loop (u_subuser u) channel s }"

text \<open>The copy of the previous subuser's low-priority queue: up to the first free cell, which must exist.\<close>

fun copy_queue :: "env \<Rightarrow> nat option list \<Rightarrow> nat \<Rightarrow> acetables \<Rightarrow> acetables option" where
  "copy_queue E [] sub s = None"
| "copy_queue E (None # cells) sub s = Some s"
| "copy_queue E (Some raw # cells) sub s = do {
     s \<leftarrow> upd_raw raw (\<lambda>x. if raw_refcount x = 0 then x\<lparr>raw_refcount := 1\<rparr> else x) s;
     s \<leftarrow> post_copy_z E raw sub s;
     copy_queue E cells sub s }"

text \<open>\<open>sub->next\<close> is the first of the user's earlier subusers.\<close>

definition copy_previous :: "env \<Rightarrow> nat list \<Rightarrow> nat \<Rightarrow> acetables \<Rightarrow> acetables option" where
  "copy_previous E others sub s =
     (case others of
        [] \<Rightarrow> Some s
      | prev # _ \<Rightarrow> do {
          b \<leftarrow> g_subs s prev;
          if pool_nraw (sub_low b) \<noteq> 0 then copy_queue E (pool_cells (sub_low b)) sub s else Some s })"

definition new_sub :: "nat option \<Rightarrow> string \<Rightarrow> nat \<Rightarrow> int \<Rightarrow> subuser" where
  "new_sub client channel user now =
     \<lparr>sub_low = new_pool 32, sub_high = new_pool 8, sub_nraw = 0, sub_content = None, sub_sent = False,
      sub_properties = [], sub_client = client, sub_user = Some user, sub_idle = now, sub_state = ADIED,
      sub_need_update = False, sub_wait_for_free = False, sub_burn_after_writing = False,
      sub_current_chl = 0, sub_channel = channel\<rparr>"

definition addsubuser ::
  "env \<Rightarrow> nat option \<Rightarrow> string \<Rightarrow> nat \<Rightarrow> acetables \<Rightarrow> (nat option \<times> acetables) option" where
  "addsubuser E client channel user s = do {
     old \<leftarrow> getsubuser user channel s;
     if old \<noteq> None \<or> length channel > MAX_HOST_LENGTH then Some (None, s)
     else do {
       u \<leftarrow> g_users s user;
       let sub = g_next s;
       let s1 = s\<lparr>g_next := Suc sub, g_subs := (g_subs s)(sub \<mapsto> new_sub client channel user (g_now s)),
                  g_users := (g_users s)(user \<mapsto> u\<lparr>u_nsub := u_nsub u + 1, u_subuser := sub # u_subuser u\<rparr>)\<rparr>;
       s \<leftarrow> copy_previous E (u_subuser u) sub s1;
       s \<leftarrow> FIRE_EVENT_NONSTOP EV_addsubuser (e_addsubuser E) (\<lambda>cb. cb sub) s;
       Some (Some sub, s) } }"

text \<open>\<open>ip\<close> has 16 bytes; the dotted quads the callers pass fit with their terminator.\<close>

definition adduser ::
  "env \<Rightarrow> nat option \<Rightarrow> string \<Rightarrow> string \<Rightarrow> nat option \<Rightarrow> acetables \<Rightarrow> (nat option \<times> acetables) option" where
  "adduser E client hst ip allocated s =
     (case allocated of
        None \<Rightarrow>
          FIRE_EVENT EV_allocateuser (e_allocateuser E) (\<lambda>cb. cb client hst ip) (\<lambda>s. do {
            (nuser, s) \<leftarrow> init_user E s;
            s \<leftarrow> upd_user nuser (\<lambda>u. u\<lparr>u_ip := take 16 ip\<rparr>) s;
            (p, s) \<leftarrow> init_pipe E nuser USER_PIPE s;
            s \<leftarrow> upd_user nuser (\<lambda>u. u\<lparr>u_pipe := p, u_type := (if client \<noteq> None then HUMAN else BOT), u_istmp := True\<rparr>) s;
            u \<leftarrow> g_users s nuser;
            h \<leftarrow> hashtbl_append (g_hSessid s) (Some (u_sessid u)) nuser;
            (_, s) \<leftarrow> addsubuser E client hst nuser (s\<lparr>g_hSessid := h\<rparr>);
            Some (Some nuser, s) }) s
      | Some nuser \<Rightarrow>
          FIRE_EVENT EV_adduser (e_adduser E) (\<lambda>cb. cb nuser) (\<lambda>s. do {
            s \<leftarrow> upd_user nuser (\<lambda>u. u\<lparr>u_istmp := False\<rparr>) s;
            Some (Some nuser, s\<lparr>g_nConnected := g_nConnected s + 1\<rparr>) }) s)"

section \<open>Deletion\<close>

definition do_died :: "nat \<Rightarrow> acetables \<Rightarrow> acetables option" where
  "do_died sub s = do {
     b \<leftarrow> g_subs s sub;
     if sub_state b = ALIVE then do {
       s \<leftarrow> upd_sub sub (\<lambda>b. b\<lparr>sub_state := ADIED, sub_sent := False, sub_content := None\<rparr>) s;
       client \<leftarrow> sub_client b;
       k \<leftarrow> g_co s client;
       Some (s\<lparr>g_sk := safe_shutdown (s_fd k) (g_sk s)\<rparr>) }
     else Some s }"

definition delsubuser :: "env \<Rightarrow> nat \<Rightarrow> acetables \<Rightarrow> acetables option" where
  "delsubuser E del s = do {
     s \<leftarrow> FIRE_EVENT_NONSTOP EV_delsubuser (e_delsubuser E) (\<lambda>cb. cb del) s;
     b \<leftarrow> g_subs s del;
     user \<leftarrow> sub_user b;
     s \<leftarrow> upd_user user (\<lambda>u. u\<lparr>u_nsub := u_nsub u - 1, u_subuser := remove1 del (u_subuser u)\<rparr>) s;
     s \<leftarrow> destroy_raw_pool (pool_cells (sub_low b)) s;
     s \<leftarrow> destroy_raw_pool (pool_cells (sub_high b)) s;
     s \<leftarrow> upd_sub del (\<lambda>b. b\<lparr>sub_properties := clear_properties (sub_properties b), sub_user := None\<rparr>) s;
     if sub_state b = ALIVE then do {
       s \<leftarrow> upd_sub del (\<lambda>b. b\<lparr>sub_wait_for_free := True\<rparr>) s;
       s \<leftarrow> do_died del s;
       Some (s\<lparr>g_detached := (g_detached s)(del := g_subs s del), g_subs := (g_subs s)(del := None)\<rparr>) }
     else Some (s\<lparr>g_subs := (g_subs s)(del := None)\<rparr>) }"

definition clear_subusers :: "env \<Rightarrow> nat \<Rightarrow> acetables \<Rightarrow> acetables option" where
  "clear_subusers E user s = do {
     u \<leftarrow> g_users s user;
     walk (\<lambda>b s. do { s \<leftarrow> delsubuser E b s; u \<leftarrow> g_users s user; Some (hd_opt (u_subuser u), s) })
       (hd_opt (u_subuser u)) s }"

definition clear_sessions :: "nat \<Rightarrow> acetables \<Rightarrow> acetables option" where
  "clear_sessions user = upd_user user (\<lambda>u. u\<lparr>u_sessions := [], u_sessions_length := 0\<rparr>)"

definition deluser :: "env \<Rightarrow> nat option \<Rightarrow> acetables \<Rightarrow> acetables option" where
  "deluser E user s =
     (case user of
        None \<Rightarrow> Some s
      | Some u \<Rightarrow> do {
          s \<leftarrow> left_all E (Some u) s;
          x \<leftarrow> g_users s u;
          FIRE_EVENT_NULL EV_deluser (e_deluser E) (\<lambda>cb. cb u (u_istmp x)) (\<lambda>s. do {
            s \<leftarrow> clear_subusers E u s;
            x \<leftarrow> g_users s u;
            h \<leftarrow> hashtbl_erase (g_hSessid s) (Some (u_sessid x));
            let s = s\<lparr>g_hSessid := h, g_nConnected := g_nConnected s - 1, g_uHead := remove1 u (g_uHead s)\<rparr>;
            s \<leftarrow> clear_sessions u s;
            s \<leftarrow> upd_user u (\<lambda>x. x\<lparr>u_properties := clear_properties (u_properties x)\<rparr>) s;
            s \<leftarrow> destroy_pipe E (u_pipe x) s;
            Some (s\<lparr>g_users := (g_users s)(u := None)\<rparr>) }) s })"

section \<open>The timer\<close>

text \<open>\<open>transport_data_completly_sent\<close> with the user's transport.\<close>

definition data_completly_sent :: "nat \<Rightarrow> acetables \<Rightarrow> acetables option" where
  "data_completly_sent sub s = do {
     b \<leftarrow> g_subs s sub;
     user \<leftarrow> sub_user b;
     u \<leftarrow> g_users s user;
     if transport_closes (u_transport u) then do_died sub s else Some s }"

definition check_sub :: "env \<Rightarrow> int \<Rightarrow> nat \<Rightarrow> nat \<Rightarrow> acetables \<Rightarrow> (nat option \<times> acetables) option" where
  "check_sub E ctime user n s = do {
     b \<leftarrow> g_subs s n;
     if ctime - sub_idle b \<ge> TIMEOUT_SEC then do {
       u \<leftarrow> g_users s user;
       nxt \<leftarrow> next_of n (u_subuser u);
       s \<leftarrow> delsubuser E n s;
       Some (nxt, s) }
     else do {
       s \<leftarrow> (if sub_state b = ALIVE \<and> sub_nraw b \<noteq> 0 \<and> \<not> sub_need_update b \<and> \<not> sub_burn_after_writing b then do {
               (finish, s) \<leftarrow> send_raws E n s;
               if finish then data_completly_sent n s
               else upd_sub n (\<lambda>b. b\<lparr>sub_burn_after_writing := True\<rparr>) s }
             else FIRE_EVENT_NONSTOP EV_tickuser (e_tickuser E) (\<lambda>cb. cb n) s);
       u \<leftarrow> g_users s user;
       nxt \<leftarrow> next_of n (u_subuser u);
       Some (nxt, s) } }"

definition check_user :: "env \<Rightarrow> int \<Rightarrow> nat \<Rightarrow> acetables \<Rightarrow> (nat option \<times> acetables) option" where
  "check_user E ctime list s = do {
     wait \<leftarrow> next_of list (g_uHead s);
     u \<leftarrow> g_users s list;
     s \<leftarrow> (if ctime - u_idle u \<ge> TIMEOUT_SEC \<and> u_type u = HUMAN then deluser E (Some list) s
           else if u_type u = HUMAN then walk (check_sub E ctime list) (hd_opt (u_subuser u)) s
           else Some s);
     Some (wait, s) }"

definition check_timeout :: "env \<Rightarrow> acetables \<Rightarrow> acetables option" where
  "check_timeout E s = walk (check_user E (g_now s)) (hd_opt (g_uHead s)) s"

section \<open>Sessions\<close>

definition get_session :: "nat \<Rightarrow> string \<Rightarrow> acetables \<Rightarrow> session option option" where
  "get_session user key s = do {
     u \<leftarrow> g_users s user;
     Some (if length key > 32 then None else find (\<lambda>x. ses_key x = key) (u_sessions u)) }"

definition sendback_session :: "env \<Rightarrow> nat \<Rightarrow> session \<Rightarrow> acetables \<Rightarrow> acetables option" where
  "sendback_session E user sess s = do {
     u \<leftarrow> g_users s user;
     forM (u_subuser u) (\<lambda>current s. do {
       b \<leftarrow> g_subs s current;
       if sub_need_update b then do {
         s \<leftarrow> upd_sub current (\<lambda>b. b\<lparr>sub_need_update := False\<rparr>) s;
         let jobj_item = json_set_property_strZ json_new_object (Some (ses_key sess)) (ses_val sess);
         (newraw, s) \<leftarrow> forge_raw_hi ''SESSIONS'' (json_set_property_objN json_new_object (Some ''sessions'') 8 jobj_item) s;
         post_copy_z E newraw current s }
       else Some s }) s }"

fun store_session :: "string \<Rightarrow> string \<Rightarrow> session list \<Rightarrow> session list" where
  "store_session key val [] = []"
| "store_session key val (x # xs) =
     (if ses_key x = key then x\<lparr>ses_val := val\<rparr> # xs else x # store_session key val xs)"

definition set_session ::
  "env \<Rightarrow> nat \<Rightarrow> string \<Rightarrow> string \<Rightarrow> bool \<Rightarrow> acetables \<Rightarrow> (session option \<times> acetables) option" where
  "set_session E user key val update s = do {
     u \<leftarrow> g_users s user;
     let vlen = int (length val);
     if length key > 32 \<or> u_sessions_length u + vlen > MAX_SESSION_LENGTH then Some (None, s)
     else do {
       sTmp \<leftarrow> get_session user key s;
       let sess = \<lparr>ses_key = key, ses_val = val\<rparr>;
       let u' = (case sTmp of
                   Some x \<Rightarrow> u\<lparr>u_sessions_length := u_sessions_length u + (vlen - int (length (ses_val x))),
                              u_sessions := store_session key val (u_sessions u)\<rparr>
                 | None \<Rightarrow> u\<lparr>u_sessions_length := u_sessions_length u + vlen, u_sessions := sess # u_sessions u\<rparr>);
       s \<leftarrow> upd_user user (\<lambda>_. u') s;
       s \<leftarrow> (if update then sendback_session E user sess s else Some s);
       Some (Some sess, s) } }"

section \<open>A reconnecting client\<close>

text \<open>\<open>newraw = forge_raw(...); newraw->priority = RAW_PRI_HI; post_raw_sub(newraw, sub, g_ape)\<close>.\<close>

definition post_hi :: "env \<Rightarrow> string \<Rightarrow> json_item \<Rightarrow> nat \<Rightarrow> acetables \<Rightarrow> acetables option" where
  "post_hi E rawname jlist sub s = do {
     (newraw, s) \<leftarrow> forge_raw_hi rawname jlist s;
     post_raw_sub E newraw sub s }"

definition restor_channel :: "env \<Rightarrow> nat \<Rightarrow> nat \<Rightarrow> acetables \<Rightarrow> acetables option" where
  "restor_channel E sub chan s = do {
     c \<leftarrow> g_chans s chan;
     jlist \<leftarrow> (if c_flags c AND CHANNEL_NONINTERACTIVE = 0 \<and> c_head c \<noteq> []
               then map_option (json_set_property_objN json_new_object (Some ''users'') 5)
                      (user_list_loop (c_head c) json_new_array s)
               else Some json_new_object);
     jc \<leftarrow> get_json_object_channel chan s;
     post_hi E RAW_CHANNEL (json_set_property_objN jlist (Some ''pipe'') 4 jc) sub s }"

definition subuser_restor :: "env \<Rightarrow> nat \<Rightarrow> acetables \<Rightarrow> acetables option" where
  "subuser_restor E sub s = do {
     b \<leftarrow> g_subs s sub;
     user \<leftarrow> sub_user b;
     u \<leftarrow> g_users s user;
     s \<leftarrow> forM (u_chan_foot u) (restor_channel E sub) s;
     ju \<leftarrow> get_json_object_user (Some user) s;
     post_hi E ''IDENT'' (json_set_property_objN json_new_object (Some ''user'') 4 ju) sub s }"

section \<open>Links\<close>

definition are_linked :: "nat \<Rightarrow> nat \<Rightarrow> acetables \<Rightarrow> users_link option option" where
  "are_linked a b s = do {
     x \<leftarrow> g_users s a;
     y \<leftarrow> g_users s b;
     if u_nlink x = 0 \<or> u_nlink y = 0 then Some None
     else let (aUser, bUser) = (if u_nlink x \<le> u_nlink y then (x, b) else (y, a)) in
       Some (find (\<lambda>l. link_b l = bUser \<or> link_a l = bUser) (u_ulink aUser)) }"

definition make_link :: "nat \<Rightarrow> nat \<Rightarrow> acetables \<Rightarrow> acetables option" where
  "make_link a b s = do {
     l \<leftarrow> are_linked a b s;
     if l \<noteq> None then do {
       let link = \<lparr>link_a = a, link_b = b\<rparr>;
       s \<leftarrow> upd_user a (\<lambda>u. u\<lparr>u_ulink := link # u_ulink u, u_nlink := Suc (u_nlink u)\<rparr>) s;
       upd_user b (\<lambda>u. u\<lparr>u_ulink := link # u_ulink u, u_nlink := Suc (u_nlink u)\<rparr>) s }
     else Some s }"

section \<open>Connection events\<close>

text \<open>The callbacks of \<open>src/servers.c\<close> for a connection: all pending output has been written, and the
  connection has closed. \<open>attach\<close> may refer to a live or to a detached subuser.\<close>

definition ape_sent :: "nat \<Rightarrow> acetables \<Rightarrow> acetables option" where
  "ape_sent co s = do {
     k \<leftarrow> g_co s co;
     case s_attach k of
       None \<Rightarrow> Some s
     | Some sub \<Rightarrow>
         (case g_subs s sub of
            Some b \<Rightarrow>
              if sub_burn_after_writing b then do {
                s \<leftarrow> (if sub_user b \<noteq> None then data_completly_sent sub s else Some s);
                upd_sub sub (\<lambda>b. b\<lparr>sub_burn_after_writing := False\<rparr>) s }
              else Some s
          | None \<Rightarrow> do {
              b \<leftarrow> g_detached s sub;
              Some (s\<lparr>g_detached := (g_detached s)(sub \<mapsto> b\<lparr>sub_burn_after_writing := False\<rparr>)\<rparr>) }) }"

definition detach :: "nat \<Rightarrow> acetables \<Rightarrow> acetables option" where
  "detach co s = do { k \<leftarrow> g_co s co; Some (s\<lparr>g_co := (g_co s)(co \<mapsto> k\<lparr>s_attach := None\<rparr>)\<rparr>) }"

definition ape_disconnect :: "env \<Rightarrow> nat \<Rightarrow> acetables \<Rightarrow> acetables option" where
  "ape_disconnect E co s = do {
     k \<leftarrow> g_co s co;
     case s_attach k of
       None \<Rightarrow> Some s
     | Some sub \<Rightarrow>
         (case g_subs s sub of
            Some b \<Rightarrow> do {
              client \<leftarrow> sub_client b;
              kc \<leftarrow> g_co s client;
              if s_fd k = s_fd kc then do {
                s \<leftarrow> upd_sub sub (\<lambda>b. b\<lparr>sub_sent := False, sub_state := ADIED, sub_content := None\<rparr>) s;
                case sub_user b of
                  None \<Rightarrow> Some s
                | Some user \<Rightarrow> do {
                    u \<leftarrow> g_users s user;
                    if u_istmp u then Option.bind (deluser E (Some user) s) (detach co) else Some s } }
              else Some s }
          | None \<Rightarrow> do {
              b \<leftarrow> g_detached s sub;
              detach co (s\<lparr>g_detached := (g_detached s)(sub := None)\<rparr>) }) }"

section \<open>Adding a connection\<close>

lemma getsubuser_eq:
  assumes "base s" and "u \<in> dom (g_users s)"
  shows "getsubuser u ch s = Some (find (\<lambda>b. host s b = ch) (subs_of s u))"
proof -
  obtain U where U: "g_users s u = Some U" using assms(2) by auto
  have "getsubuser_loop bs ch s = Some (find (\<lambda>b. host s b = ch) bs)" if "set bs \<subseteq> dom (g_subs s)" for bs
    using that by (induction bs) (auto simp: host_def)
  moreover have "set (u_subuser U) \<subseteq> dom (g_subs s)" using subs_live [OF assms(1), of _ u] U by (auto simp: subs_of_def subset_iff)
  ultimately show ?thesis using U by (simp add: getsubuser_def subs_of_def)
qed

lemma raws_kept: "posted s s' \<Longrightarrow> g_raws s r \<noteq> None \<Longrightarrow> g_raws s' r \<noteq> None \<and> raw_hi s' r = raw_hi s r"
proof -
  assume p: "posted s s'" "g_raws s r \<noteq> None"
  then have e: "map_option raw_core (g_raws s' r) = map_option raw_core (g_raws s r)" unfolding posted_def by blast
  then have "g_raws s' r \<noteq> None" using p(2) by (metis map_option_is_None)
  moreover have "map_option raw_priority (g_raws s' r) = map_option raw_priority (g_raws s r)"
    using arg_cong [OF e, of "map_option raw_priority"] by (simp add: option.map_comp comp_def raw_core_def)
  ultimately show ?thesis by (simp add: raw_hi_def)
qed

lemma own_reference:
  assumes inv: "msg_inv s" and r: "g_raws s r \<noteq> None"
  obtains s' where "upd_raw r (\<lambda>x. if raw_refcount x = 0 then x\<lparr>raw_refcount := 1\<rparr> else x) s = Some s'" "msg_inv s'"
    "posted s s'" "shared s' r" "lowq s' = lowq s" "highq s' = highq s"
proof -
  obtain x where x: "g_raws s r = Some x" using r by auto
  define x' where "x' = (if raw_refcount x = 0 then x\<lparr>raw_refcount := 1\<rparr> else x)"
  define s' where "s' = s\<lparr>g_raws := (g_raws s)(r \<mapsto> x')\<rparr>"
  have occ: "occ s' = occ s" by (simp add: occ_def s'_def fun_eq_iff)
  have "msg_inv s'"
  proof (rule msg_invI)
    show "0 \<le> raw_refcount z" "r' < g_next s'" "int (occ s' r') \<le> max 1 (raw_refcount z)"
      if "g_raws s' r' = Some z" for r' z
      using that x msg_invD(5-7) [OF inv, of r'] unfolding occ by (auto simp: s'_def x'_def split: if_splits)
    show "occ s' r' = 0" if "g_raws s' r' = None" for r'
      using that msg_invD(4) [OF inv, of r'] unfolding occ by (auto simp: s'_def split: if_splits)
  qed (use msg_invD(1-3,8) [OF inv] in \<open>auto simp: s'_def\<close>)
  moreover have "posted s s'" using x by (simp add: posted_def s'_def x'_def raw_core_def)
  moreover have "shared s' r"
    using msg_invD(6,7) [OF inv x] unfolding shared_def occ by (auto simp: s'_def x'_def)
  moreover have "lowq s' = lowq s" "highq s' = highq s" by (simp_all add: s'_def lowq_def highq_def fun_eq_iff)
  moreover have "upd_raw r (\<lambda>x. if raw_refcount x = 0 then x\<lparr>raw_refcount := 1\<rparr> else x) s = Some s'"
    using x by (simp add: upd_raw_def s'_def x'_def)
  ultimately show thesis using that by blast
qed

lemma copy_queue_spec:
  assumes q: "quiet E" and "msg_inv s" and "\<And>r. r \<in> set rs \<Longrightarrow> g_raws s r \<noteq> None" and "b \<in> dom (g_subs s)" and "0 < k"
  shows "\<exists>s'. copy_queue E (map Some rs @ replicate k None) b s = Some s' \<and> msg_inv s' \<and> posted s s' \<and>
    (\<forall>c. lowq s' c = lowq s c @ (if c = b then filter (\<lambda>r. \<not> raw_hi s r) rs else [])) \<and>
    (\<forall>c. highq s' c = highq s c @ (if c = b then filter (raw_hi s) rs else []))"
  using assms(2-4)
proof (induction rs arbitrary: s)
  case Nil
  then show ?case using assms(5) by (cases k) auto
next
  case (Cons r rs)
  have r: "g_raws s r \<noteq> None" using Cons.prems(2) by simp
  obtain s1 where 1: "upd_raw r (\<lambda>x. if raw_refcount x = 0 then x\<lparr>raw_refcount := 1\<rparr> else x) s = Some s1" "msg_inv s1"
    "posted s s1" "shared s1 r" "lowq s1 = lowq s" "highq s1 = highq s"
    by (rule own_reference [OF Cons.prems(1) r])
  have b1: "b \<in> dom (g_subs s1)" using posted_frame(15) [OF 1(3)] Cons.prems(3) by simp
  obtain s2 where 2: "post_copy_z E r b s1 = Some s2" "msg_inv s2" "posted s1 s2"
    "\<And>c. lowq s2 c = lowq s1 c @ (if c = b \<and> \<not> raw_hi s1 r then [r] else [])"
    "\<And>c. highq s2 c = highq s1 c @ (if c = b \<and> raw_hi s1 r then [r] else [])"
    by (rule post_copy_z_spec [OF q 1(2,4) b1]) (rule that; assumption)
  have p2: "posted s s2" by (rule posted_trans [OF 1(3) 2(3)])
  have live: "g_raws s2 r' \<noteq> None" if "r' \<in> set rs" for r' using raws_kept [OF p2] Cons.prems(2) that by simp
  have b2: "b \<in> dom (g_subs s2)" using posted_frame(15) [OF 2(3)] b1 by simp
  obtain s' where 3: "copy_queue E (map Some rs @ replicate k None) b s2 = Some s'" "msg_inv s'" "posted s2 s'"
    "\<And>c. lowq s' c = lowq s2 c @ (if c = b then filter (\<lambda>r. \<not> raw_hi s2 r) rs else [])"
    "\<And>c. highq s' c = highq s2 c @ (if c = b then filter (raw_hi s2) rs else [])"
    using Cons.IH [OF 2(2) live b2] by blast
  have hi: "raw_hi s1 r = raw_hi s r" using raws_kept [OF 1(3) r] by blast
  have his: "filter (raw_hi s2) rs = filter (raw_hi s) rs" "filter (\<lambda>r. \<not> raw_hi s2 r) rs = filter (\<lambda>r. \<not> raw_hi s r) rs"
    using raws_kept [OF p2] Cons.prems(2) by (auto intro!: filter_cong)
  show ?case
    using 1(1,5,6) 2(1,4,5) 3 his hi posted_trans [OF p2 3(3)] by (intro exI [of _ s']) simp
qed

lemma msg_inv_add_sub:
  assumes inv: "msg_inv s" and b: "g_subs s b = None" and B: "sub_ok B" "sub_raws B = []"
    and s': "g_subs s' = (g_subs s)(b \<mapsto> B)" "g_raws s' = g_raws s" "g_now s' = g_now s" "g_next s \<le> g_next s'" "b < g_next s'"
  shows "msg_inv s'"
proof -
  have occ: "occ s' r = occ s r" for r
  proof -
    have "occ s' r = (\<Sum>c \<in> insert b (dom (g_subs s)). count_list (sub_raws (the (g_subs s' c))) r)"
      by (simp add: occ_def s'(1))
    also have "\<dots> = (\<Sum>c \<in> dom (g_subs s). count_list (sub_raws (the (g_subs s' c))) r)"
      using msg_invD(1) [OF inv] b B(2) by (subst sum.insert) (auto simp: s'(1))
    also have "\<dots> = occ s r" unfolding occ_def by (rule sum.cong) (use b in \<open>auto simp: s'(1)\<close>)
    finally show ?thesis .
  qed
  show ?thesis
  proof (rule msg_invI)
    show "sub_ok x" "c < g_next s'" if "g_subs s' c = Some x" for c x
      using that B(1) msg_invD(2,3) [OF inv, of c] s' by (auto split: if_splits)
    show "r < g_next s'" if "g_raws s' r = Some y" for r y using msg_invD(5) [OF inv, of r y] that s' by simp
  qed (use msg_invD(1,4,6,7,8) [OF inv] s'(1-3) in \<open>simp_all add: occ\<close>)
qed

lemma base_add_sub:
  assumes b: "base s" and U: "g_users s u = Some U" and f: "g_subs s n = None" "g_next s \<le> n"
    and h: "ch \<notin> host s ` set (subs_of s u)"
    and s': "s' = s\<lparr>g_next := Suc n, g_subs := (g_subs s)(n \<mapsto> new_sub client ch u now),
      g_users := (g_users s)(u \<mapsto> U\<lparr>u_nsub := u_nsub U + 1, u_subuser := n # u_subuser U\<rparr>)\<rparr>"
  shows "base s'" "subs_of s' = (subs_of s)(u := n # subs_of s u)" "owner s' = (owner s)(n := Some u)"
    "foot s' = foot s" "members s' = members s" "lowq s' = lowq s" "highq s' = highq s"
proof -
  note B = baseD [OF b]
  have nq: "pool_raws (new_pool 32) = []" "pool_raws (new_pool 8) = []"
    by (rule pool_inv_raws; simp)+
  show su: "subs_of s' = (subs_of s)(u := n # subs_of s u)" and ow: "owner s' = (owner s)(n := Some u)"
    using U by (simp_all add: s' subs_of_def owner_def new_sub_def fun_eq_iff)
  have e: "host s' = (host s)(n := ch)" "conn s' = (conn s)(n \<mapsto> (ADIED, client))" "target s' = target s"
    by (simp_all add: s' host_def conn_def target_def new_sub_def fun_eq_iff)
  show "lowq s' = lowq s" "highq s' = highq s" using f(1) nq by (auto simp: s' lowq_def highq_def new_sub_def fun_eq_iff)
  show "foot s' = foot s" "members s' = members s" using U by (auto simp: s' foot_def members_def fun_eq_iff)
  have nn: "owner s n = None" "n \<notin> set (subs_of s v)" for v
    using f(1) B(7) [of n v] by (simp_all add: owner_def)
  show "base s'"
  proof (rule baseI; (unfold e su ow)?)
    show "msg_inv s'"
      by (rule msg_inv_add_sub [OF B(1) f(1), of "new_sub client ch u now"])
        (use f in \<open>simp_all add: s' new_sub_def sub_ok_def sub_raws_def nq\<close>)
    show "indexes (g_hSessid s') u_sessid (g_users s')" using indexes_upd [OF B(2) U] by (simp add: s')
    show "distinct (((subs_of s)(u := n # subs_of s u)) v)" for v using B(5) [of v] B(5) [of u] nn by simp
    show "distinct (map ((host s)(n := ch)) (((subs_of s)(u := n # subs_of s u)) v))" for v
    proof -
      have "map ((host s)(n := ch)) (subs_of s v) = map (host s) (subs_of s v)" using nn(2) [of v] by auto
      then show ?thesis using B(6) [of v] h nn(2) [of v] by auto
    qed
    show "c \<in> set (((subs_of s)(u := n # subs_of s u)) v) \<longleftrightarrow> ((owner s)(n := Some u)) c = Some v" for c v
      using B(7) [of c v] nn by auto
    show "map_option u_pipe (g_users s' v) = Some p \<longleftrightarrow> target s p = Some (USER_PIPE, v)" for v p
      using B(8) [of v p] U by (auto simp: s')
    show "set (g_uHead s') = dom (g_users s')" using B(11) U by (auto simp: s')
    show "user_ok V" "v < g_next s'" if "g_users s' v = Some V" for v V
      using that B(12,13) [of v] f(2) B(12) [OF U] B(13) [OF U]
      by (auto simp: s' user_ok_def sessions_ok_def split: if_splits)
    show "c < g_next s'" if "g_chans s' c = Some C" for c C using B(15) [of c C] that f(2) by (simp add: s')
    show "p < g_next s'" if "g_pipes s' p = Some P" for p P using B(17) [of p P] that f(2) by (simp add: s')
    show "cl \<in> Some ` dom (g_co s')" if "((conn s)(n \<mapsto> (ADIED, client))) c = Some (ALIVE, cl)" for c cl
      using that B(18) [of c cl] by (auto simp: s' split: if_splits)
    show "((owner s)(n := Some u)) c \<noteq> None" if "c \<in> dom (g_subs s')" for c
      using that B(19) [of c] by (auto simp: s' split: if_splits)
  qed (use B in \<open>simp_all add: s'\<close>)
qed

lemma addsubuser_refused:
  assumes "base s" and "u \<in> dom (g_users s)" and "ch \<in> host s ` set (subs_of s u) \<or> length ch > MAX_HOST_LENGTH"
  shows "addsubuser E client ch u s = Some (None, s)"
proof -
  have "find (\<lambda>b. host s b = ch) (subs_of s u) \<noteq> None \<or> length ch > MAX_HOST_LENGTH"
    using assms(3) by (auto simp: find_eq_None_conv simp del: not_None_eq)
  then show ?thesis using getsubuser_eq [OF assms(1,2), of ch] by (auto simp: addsubuser_def)
qed

lemma copy_previous_spec:
  assumes q: "quiet E" and inv: "msg_inv s" and n: "n \<in> dom (g_subs s)" and others: "set others \<subseteq> dom (g_subs s)"
  obtains s' where "copy_previous E others n s = Some s'" "msg_inv s'" "posted s s'"
    "\<And>c. lowq s' c = lowq s c @
       (if c = n then filter (\<lambda>r. \<not> raw_hi s r) (case others of [] \<Rightarrow> [] | p # _ \<Rightarrow> lowq s p) else [])"
proof (cases others)
  case Nil
  then show thesis using inv by (intro that [of s]) (simp_all add: copy_previous_def)
next
  case (Cons p ps)
  then obtain y where y: "g_subs s p = Some y" using others by auto
  obtain k where k: "pool_cells (sub_low y) = map Some (pool_raws (sub_low y)) @ replicate k None" "0 < k"
    "pool_nraw (sub_low y) = length (pool_raws (sub_low y))"
    by (rule sub_okD [OF msg_invD(2) [OF inv y]]) (rule that; assumption)
  have live: "g_raws s r \<noteq> None" if "r \<in> set (pool_raws (sub_low y))" for r
    using queued_live [OF inv y, of r] that by (auto simp: sub_raws_def)
  have lp: "lowq s p = pool_raws (sub_low y)" using y by (simp add: lowq_def)
  obtain s' where s': "copy_queue E (pool_cells (sub_low y)) n s = Some s'" "msg_inv s'" "posted s s'"
    "\<And>c. lowq s' c = lowq s c @ (if c = n then filter (\<lambda>r. \<not> raw_hi s r) (pool_raws (sub_low y)) else [])"
    using copy_queue_spec [OF q inv live n k(2)] unfolding k(1) by blast
  show thesis
  proof (cases "pool_raws (sub_low y) = []")
    case True
    then show thesis using Cons y k(3) lp inv by (intro that [of s]) (simp_all add: copy_previous_def)
  next
    case False
    then show thesis using Cons y k(3) lp s' by (intro that [of s']) (simp_all add: copy_previous_def)
  qed
qed

lemma addsubuser_spec:
  assumes q: "quiet E" and w: "world s" and U: "g_users s u = Some U"
    and h: "ch \<notin> host s ` set (subs_of s u)" "length ch \<le> MAX_HOST_LENGTH"
  obtains s' where "addsubuser E client ch u s = Some (Some (g_next s), s')" "world s'"
    "subs_of s' = (subs_of s)(u := g_next s # subs_of s u)" "owner s' = (owner s)(g_next s := Some u)"
    "foot s' = foot s" "members s' = members s" "g_chans s' = g_chans s" "g_uHead s' = g_uHead s"
    "g_users s' = (g_users s)(u \<mapsto> U\<lparr>u_nsub := u_nsub U + 1, u_subuser := g_next s # u_subuser U\<rparr>)"
    "\<And>c. lowq s' c = (if c = g_next s then filter (\<lambda>r. \<not> raw_hi s r) (case subs_of s u of [] \<Rightarrow> [] | p # _ \<Rightarrow> lowq s p) else lowq s c)"
    "g_co s' = g_co s" "g_sk s' = g_sk s" "g_hPubid s' = g_hPubid s"
    "conn s' = (conn s)(g_next s \<mapsto> (ADIED, client))" "g_pipes s' = g_pipes s" "g_rpos s' = g_rpos s" "g_now s' = g_now s"
    "g_detached s' = g_detached s"
proof -
  note b = worldD(1) [OF w]
  let ?n = "g_next s"
  have f: "g_subs s ?n = None" using msg_invD(3) [OF baseD(1) [OF b], of ?n] by fastforce
  define s1 where "s1 = s\<lparr>g_next := Suc ?n, g_subs := (g_subs s)(?n \<mapsto> new_sub client ch u (g_now s)),
      g_users := (g_users s)(u \<mapsto> U\<lparr>u_nsub := u_nsub U + 1, u_subuser := ?n # u_subuser U\<rparr>)\<rparr>"
  note 1 = base_add_sub [OF b U f order_refl h(1) s1_def]
  have ud: "u \<in> dom (g_users s)" using U by auto
  have nofind: "getsubuser u ch s = Some None"
    using getsubuser_eq [OF b ud, of ch] h(1) by (auto simp: find_eq_None_conv)
  have lown: "lowq s ?n = []" using f by (simp add: lowq_def)
  have n1: "?n \<in> dom (g_subs s1)" by (simp add: s1_def)
  have o1: "set (u_subuser U) \<subseteq> dom (g_subs s1)"
    using subs_live [OF b, of _ u] U by (auto simp: subs_of_def s1_def subset_iff)
  have hi: "raw_hi s1 = raw_hi s" by (simp add: s1_def raw_hi_def fun_eq_iff)
  obtain s2 where 2: "copy_previous E (u_subuser U) ?n s1 = Some s2" "msg_inv s2" "posted s1 s2"
      "\<And>c. lowq s2 c = lowq s1 c @
        (if c = ?n then filter (\<lambda>r. \<not> raw_hi s1 r) (case u_subuser U of [] \<Rightarrow> [] | p # _ \<Rightarrow> lowq s1 p) else [])"
    by (rule copy_previous_spec [OF q baseD(1) [OF 1(1)] n1 o1]) (rule that; assumption)
  have l2: "linked s2" using worldD(2) [OF w] 1(4,5) linked_posted [OF _ 2(3)] by (simp add: linked_def)
  have "addsubuser E client ch u s = Some (Some ?n, s2)"
    using nofind h(2) U 2(1) [unfolded s1_def] quietD(10) [OF q] by (simp add: addsubuser_def Let_def)
  moreover have "lowq s2 c = (if c = ?n then filter (\<lambda>r. \<not> raw_hi s r) (case subs_of s u of [] \<Rightarrow> [] | p # _ \<Rightarrow> lowq s p)
      else lowq s c)" for c
    using 2(4) [of c, unfolded hi 1(6)] lown U by (simp add: subs_of_def)
  moreover have "g_chans s1 = g_chans s" "g_uHead s1 = g_uHead s" "g_co s1 = g_co s" "g_sk s1 = g_sk s"
    "g_hPubid s1 = g_hPubid s" "g_users s1 = (g_users s)(u \<mapsto> U\<lparr>u_nsub := u_nsub U + 1, u_subuser := ?n # u_subuser U\<rparr>)"
    "conn s1 = (conn s)(?n \<mapsto> (ADIED, client))" "g_pipes s1 = g_pipes s" "g_rpos s1 = g_rpos s" "g_now s1 = g_now s"
    "g_detached s1 = g_detached s"
    by (simp_all add: s1_def conn_def new_sub_def fun_eq_iff)
  ultimately show thesis
    by (intro that [of s2])
      (use base_posted [OF 1(1) 2(3,2)] l2 posted_sub [OF 2(3)] 1(2-5) posted_frame [OF 2(3)] in \<open>simp_all add: world_def\<close>)
qed

section \<open>Deleting a connection\<close>

lemma covers_append:
  assumes "covers raws (ls @ hs)"
  shows "covers raws ls" and "covers (fold free1 ls raws) hs"
proof -
  show "covers (fold free1 ls raws) hs"
    using assms
  proof (induction ls arbitrary: raws)
    case (Cons l ls)
    obtain x where "covers (free1 l raws) (ls @ hs)" using covers_Cons [of raws l "ls @ hs"] Cons.prems by auto
    then show ?case using Cons.IH by simp
  qed simp
  show "covers raws ls" using assms unfolding covers_def by fastforce
qed

lemma occ_del:
  assumes "finite (dom (g_subs s))" and "g_subs s b = Some x" and "g_subs s' = (g_subs s)(b := None)"
  shows "occ s' r + count_list (sub_raws x) r = occ s r"
proof -
  let ?f = "\<lambda>s b. count_list (sub_raws (the (g_subs s b))) r"
  have "occ s r = ?f s b + (\<Sum>c \<in> dom (g_subs s) - {b}. ?f s c)"
    unfolding occ_def by (rule sum.remove) (use assms in auto)
  moreover have "(\<Sum>c \<in> dom (g_subs s) - {b}. ?f s c) = occ s' r"
    unfolding occ_def by (rule sum.cong) (auto simp: assms(3) split: if_splits)
  ultimately show ?thesis using assms(2) by simp
qed

text \<open>What the deletion of a connection leaves alone.\<close>

definition others_kept :: "acetables \<Rightarrow> acetables \<Rightarrow> bool" where
  "others_kept s s' \<longleftrightarrow>
     (g_now s', g_rpos s', g_next s', g_chans s', g_pipes s', g_uHead s', g_hSessid s', g_hPubid s', g_hLusers s',
      g_nConnected s', g_transports s', g_co s', g_fire s', bufout (g_sk s'), wire (g_sk s')) =
     (g_now s, g_rpos s, g_next s, g_chans s, g_pipes s, g_uHead s, g_hSessid s, g_hPubid s, g_hLusers s,
      g_nConnected s, g_transports s, g_co s, g_fire s, bufout (g_sk s), wire (g_sk s))"

definition alive :: "acetables \<Rightarrow> nat \<Rightarrow> bool" where
  "alive s b \<longleftrightarrow> map_option fst (conn s b) = Some ALIVE"

lemma others_keptD:
  assumes "others_kept s s'"
  shows "g_now s' = g_now s" "g_rpos s' = g_rpos s" "g_next s' = g_next s" "g_chans s' = g_chans s" "g_pipes s' = g_pipes s"
    "g_uHead s' = g_uHead s" "g_hSessid s' = g_hSessid s" "g_hPubid s' = g_hPubid s" "g_hLusers s' = g_hLusers s"
    "g_nConnected s' = g_nConnected s" "g_transports s' = g_transports s" "g_co s' = g_co s" "g_fire s' = g_fire s"
    "bufout (g_sk s') = bufout (g_sk s)" "wire (g_sk s') = wire (g_sk s)"
  using assms by (simp_all add: others_kept_def)

lemma others_kept_refl [simp]: "others_kept s s"
  by (simp add: others_kept_def)

lemma others_kept_trans: "others_kept s s' \<Longrightarrow> others_kept s' s'' \<Longrightarrow> others_kept s s''"
  by (simp add: others_kept_def)

lemma base_del_sub:
  assumes b: "base s" and B: "g_subs s n = Some B" "sub_user B = Some u" and U: "g_users s u = Some U"
    and s': "g_subs s' = (g_subs s)(n := None)" "g_raws s' = fold free1 (sub_raws B) (g_raws s)" "others_kept s s'"
      "g_users s' = (g_users s)(u \<mapsto> U\<lparr>u_nsub := u_nsub U - 1, u_subuser := remove1 n (u_subuser U)\<rparr>)"
  shows "base s'" "subs_of s' = (subs_of s)(u := remove1 n (subs_of s u))" "owner s' = (owner s)(n := None)"
    "foot s' = foot s" "members s' = members s" "\<And>c. c \<noteq> n \<Longrightarrow> lowq s' c = lowq s c"
proof -
  note D = baseD [OF b] and K = others_keptD [OF s'(3)]
  show su: "subs_of s' = (subs_of s)(u := remove1 n (subs_of s u))" and ow: "owner s' = (owner s)(n := None)"
    using U by (simp_all add: s'(1,4) subs_of_def owner_def fun_eq_iff)
  show "foot s' = foot s" "members s' = members s" using U by (auto simp: s'(4) K(4) foot_def members_def fun_eq_iff)
  show "lowq s' c = lowq s c" if "c \<noteq> n" for c using that by (simp add: lowq_def s'(1))
  have e: "host s' = (host s)(n := [])" "conn s' = (conn s)(n := None)" "target s' = target s"
    by (simp_all add: s'(1) K(5) host_def conn_def target_def fun_eq_iff)
  have ou: "owner s n = Some u" using B by (simp add: owner_def)
  have only: "v = u" if "n \<in> set (subs_of s v)" for v using D(7) [of n v] that ou by simp
  show "base s'"
  proof (rule baseI; (unfold e su ow K(1-9,12))?)
    show "msg_inv s'"
    proof (rule msg_inv_release [OF D(1) B(1), of "sub_raws B"])
      show "occ s' r + count_list (sub_raws B) r = occ s r" for r
        by (rule occ_del [OF msg_invD(1) [OF D(1)] B(1) s'(1)])
      show "sub_ok z \<and> (c \<noteq> n \<longrightarrow> g_subs s c = Some z) \<and> c \<in> dom (g_subs s)" if "g_subs s' c = Some z" for c z
        using that msg_invD(2) [OF D(1), of c z] by (auto simp: s'(1) split: if_splits)
    qed (simp_all add: s'(2) K)
    show "indexes (g_hSessid s) u_sessid (g_users s')" unfolding s'(4) by (rule indexes_upd [OF D(2) U]) simp
    show "distinct (((subs_of s)(u := remove1 n (subs_of s u))) v)" for v using D(5) [of v] D(5) [of u] by simp
    show "distinct (map ((host s)(n := [])) (((subs_of s)(u := remove1 n (subs_of s u))) v))" for v
    proof -
      have nn: "n \<notin> set (((subs_of s)(u := remove1 n (subs_of s u))) v)" using only [of v] D(5) [of u] by auto
      then have m: "map ((host s)(n := [])) (((subs_of s)(u := remove1 n (subs_of s u))) v) =
          map (host s) (((subs_of s)(u := remove1 n (subs_of s u))) v)" by auto
      have "distinct (map (host s) (((subs_of s)(u := remove1 n (subs_of s u))) v))"
        using D(6) [of v] by (auto simp: distinct_map intro: inj_on_subset)
      then show ?thesis unfolding m .
    qed
    show "c \<in> set (((subs_of s)(u := remove1 n (subs_of s u))) v) \<longleftrightarrow> ((owner s)(n := None)) c = Some v" for c v
      using D(7) [of c v] D(5) [of u] ou by auto
    show "map_option u_pipe (g_users s' v) = Some p \<longleftrightarrow> target s p = Some (USER_PIPE, v)" for v p
      using D(8) [of v p] U by (auto simp: s'(4))
    show "set (g_uHead s) = dom (g_users s')" using D(11) U by (auto simp: s'(4))
    have "n \<in> set (u_subuser U)" using D(7) [of n u] ou U by (simp add: subs_of_def)
    then have "Suc (length (remove1 n (u_subuser U))) = length (u_subuser U)"
      using length_pos_if_in_set [of n "u_subuser U"] by (simp add: length_remove1)
    then have len: "u_nsub U - 1 = int (length (remove1 n (u_subuser U)))" using D(12) [OF U] by (simp add: user_ok_def)
    show "user_ok V" "v < g_next s" if "g_users s' v = Some V" for v V
      using that D(12,13) [of v] D(12) [OF U] D(13) [OF U] len by (auto simp: s'(4) user_ok_def sessions_ok_def split: if_splits)
    show "cl \<in> Some ` dom (g_co s)" if "((conn s)(n := None)) c = Some (ALIVE, cl)" for c cl
      using that D(18) [of c cl] by (auto split: if_splits)
    show "((owner s)(n := None)) c \<noteq> None" if "c \<in> dom (g_subs s')" for c
      using that D(19) [of c] by (auto simp: s'(1) split: if_splits)
  qed (use D in simp_all)
qed

lemma delsubuser_spec:
  assumes q: "quiet E" and b: "base s" and B: "g_subs s n = Some B" "sub_user B = Some u" and U: "g_users s u = Some U"
  obtains s' where "delsubuser E n s = Some s'" "g_subs s' = (g_subs s)(n := None)" "others_kept s s'" "base s'"
    "g_users s' = (g_users s)(u \<mapsto> U\<lparr>u_nsub := u_nsub U - 1, u_subuser := remove1 n (u_subuser U)\<rparr>)"
    "subs_of s' = (subs_of s)(u := remove1 n (subs_of s u))" "owner s' = (owner s)(n := None)"
    "foot s' = foot s" "members s' = members s" "\<And>c. c \<noteq> n \<Longrightarrow> lowq s' c = lowq s c"
    "dom (g_detached s') = dom (g_detached s) \<union> {c. c = n \<and> alive s c}"
proof -
  note inv = baseD(1) [OF b]
  let ?ls = "pool_raws (sub_low B)" and ?hs = "pool_raws (sub_high B)"
  let ?U = "U\<lparr>u_nsub := u_nsub U - 1, u_subuser := remove1 n (u_subuser U)\<rparr>"
  obtain k m where c: "pool_cells (sub_low B) = map Some ?ls @ replicate k None"
    "pool_cells (sub_high B) = map Some ?hs @ replicate m None"
    by (rule sub_okD [OF msg_invD(2) [OF inv B(1)]]) (rule that; assumption)
  have cov: "covers (g_raws s) (?ls @ ?hs)" by (rule covers_of_inv [OF inv B(1)]) (simp add: sub_raws_def)
  define s1 where "s1 = s\<lparr>g_users := (g_users s)(u \<mapsto> ?U)\<rparr>"
  define s2 where "s2 = s1\<lparr>g_raws := fold free1 ?ls (g_raws s)\<rparr>"
  define s3 where "s3 = s2\<lparr>g_raws := fold free1 ?hs (g_raws s2)\<rparr>"
  have d1: "destroy_raw_pool (pool_cells (sub_low B)) s1 = Some s2"
    unfolding c(1) by (subst destroy_raw_pool_free) (use covers_append(1) [OF cov] in \<open>simp_all add: s1_def s2_def\<close>)
  have d2: "destroy_raw_pool (pool_cells (sub_high B)) s2 = Some s3"
    unfolding c(2) by (subst destroy_raw_pool_free) (use covers_append(2) [OF cov] in \<open>simp_all add: s2_def s3_def\<close>)
  have run: "\<exists>s'. delsubuser E n s = Some s' \<and> g_subs s' = (g_subs s)(n := None) \<and> others_kept s s' \<and>
      g_users s' = (g_users s)(u \<mapsto> ?U) \<and> g_raws s' = fold free1 (sub_raws B) (g_raws s) \<and>
      dom (g_detached s') = dom (g_detached s) \<union> {c. c = n \<and> alive s c}"
  proof (cases "sub_state B = ALIVE")
    case True
    then have "conn s n = Some (ALIVE, sub_client B)" using B(1) by (simp add: conn_def)
    then obtain cl kc where "sub_client B = Some cl" "g_co s cl = Some kc" using baseD(18) [OF b] by blast
    then show ?thesis
      using True B U d1 [unfolded s1_def] d2 quietD(11) [OF q]
      by (simp add: delsubuser_def upd_user_def upd_sub_def do_died_def s1_def s2_def s3_def others_kept_def sub_raws_def
          clear_properties_def fun_upd_twist alive_def conn_def) auto
  next
    case False
    then show ?thesis
      using B U d1 [unfolded s1_def] d2 quietD(11) [OF q]
      by (simp add: delsubuser_def upd_user_def upd_sub_def s1_def s2_def s3_def others_kept_def sub_raws_def
          clear_properties_def alive_def conn_def) auto
  qed
  then obtain s' where s': "delsubuser E n s = Some s'" "g_subs s' = (g_subs s)(n := None)" "others_kept s s'"
    "g_users s' = (g_users s)(u \<mapsto> ?U)" "g_raws s' = fold free1 (sub_raws B) (g_raws s)"
    "dom (g_detached s') = dom (g_detached s) \<union> {c. c = n \<and> alive s c}" by blast
  note D = base_del_sub [OF b B U s'(2,5,3,4)]
  show thesis by (rule that [OF s'(1,2,3) D(1) s'(4) D(2-6) s'(6)])
qed

section \<open>Deleting a user\<close>

lemma clear_subusers_spec:
  assumes q: "quiet E" and w: "world s" and u: "u \<in> dom (g_users s)"
  obtains s' U where "clear_subusers E u s = Some s'" "world s'" "others_kept s s'" "subs_of s' = (subs_of s)(u := [])"
    "foot s' = foot s" "members s' = members s" "g_users s u = Some U"
    "g_users s' = (g_users s)(u \<mapsto> U\<lparr>u_nsub := 0, u_subuser := []\<rparr>)" "\<And>b. owner s b \<noteq> Some u \<Longrightarrow> g_subs s' b = g_subs s b"
    "dom (g_detached s') = dom (g_detached s) \<union> {b. owner s b = Some u \<and> alive s b}"
proof -
  obtain U where U: "g_users s u = Some U" using u by auto
  let ?I = "\<lambda>vs t. world t \<and> others_kept s t \<and> subs_of t = (subs_of s)(u := vs) \<and> foot t = foot s \<and> members t = members s \<and>
    (\<exists>k. g_users t = (g_users s)(u \<mapsto> U\<lparr>u_nsub := k, u_subuser := vs\<rparr>)) \<and> (\<forall>b. b \<notin> set (subs_of s u) - set vs \<longrightarrow> g_subs t b = g_subs s b) \<and>
    set vs \<subseteq> set (subs_of s u) \<and> distinct vs \<and> dom (g_detached t) = dom (g_detached s) \<union> {b. b \<in> set (subs_of s u) - set vs \<and> alive s b}"
  let ?body = "\<lambda>b s. do { s \<leftarrow> delsubuser E b s; u \<leftarrow> g_users s u; Some (hd_opt (u_subuser u), s) }"
  have step: "\<exists>t'. ?body n t = Some (hd_opt vs, t') \<and> ?I vs t'" if I: "?I (n # vs) t" for n vs t
  proof -
    have wt: "world t" "others_kept s t" "subs_of t = (subs_of s)(u := n # vs)" "foot t = foot s" "members t = members s"
      "\<And>b. b \<notin> set (subs_of s u) - set (n # vs) \<Longrightarrow> g_subs t b = g_subs s b" "set (n # vs) \<subseteq> set (subs_of s u)" "distinct (n # vs)"
      "dom (g_detached t) = dom (g_detached s) \<union> {b. b \<in> set (subs_of s u) - set (n # vs) \<and> alive s b}" using I by blast+
    obtain k where k: "g_users t = (g_users s)(u \<mapsto> U\<lparr>u_nsub := k, u_subuser := n # vs\<rparr>)" using I by blast
    let ?V = "U\<lparr>u_nsub := k, u_subuser := n # vs\<rparr>"
    have V: "g_users t u = Some ?V" by (simp add: k)
    note b = worldD(1) [OF wt(1)]
    have ow: "owner t n = Some u" using baseD(7) [OF b, of n u] wt(3) by simp
    then obtain B where B: "g_subs t n = Some B" "sub_user B = Some u" by (auto simp: owner_def elim!: bind_SomeE)
    obtain t' where t': "delsubuser E n t = Some t'" "g_subs t' = (g_subs t)(n := None)" "others_kept t t'" "base t'"
      "g_users t' = (g_users t)(u \<mapsto> ?V\<lparr>u_nsub := u_nsub ?V - 1, u_subuser := remove1 n (u_subuser ?V)\<rparr>)"
      "subs_of t' = (subs_of t)(u := remove1 n (subs_of t u))" "foot t' = foot t" "members t' = members t"
      "dom (g_detached t') = dom (g_detached t) \<union> {c. c = n \<and> alive t c}"
      by (rule delsubuser_spec [OF q b B V]) (rule that; assumption)
    have wt': "world t'" using t'(4,7,8) worldD(2) [OF wt(1)] by (simp add: world_def linked_def)
    have "alive t n = alive s n" using wt(6) [of n] by (simp add: alive_def conn_def)
    then have dt: "dom (g_detached t') = dom (g_detached s) \<union> {b. b \<in> set (subs_of s u) - set vs \<and> alive s b}"
      using t'(9) wt(7-9) by auto
    have "g_subs t' b = g_subs s b" if "b \<notin> set (subs_of s u) - set vs" for b
      using that t'(2) wt(6) [of b] wt(7,8) by auto
    moreover have "\<exists>k. g_users t' = (g_users s)(u \<mapsto> U\<lparr>u_nsub := k, u_subuser := vs\<rparr>)" using t'(5) k by (auto simp: fun_eq_iff)
    moreover have "subs_of t' = (subs_of s)(u := vs)" using t'(6) wt(3) by (simp add: fun_eq_iff)
    ultimately have "?I vs t'"
      using others_kept_trans [OF wt(2) t'(3)] wt' t'(7,8) wt(4,5,7,8) dt by simp
    moreover have "g_users t' u = Some (?V\<lparr>u_nsub := u_nsub ?V - 1, u_subuser := vs\<rparr>)" using t'(5) by simp
    ultimately show ?thesis using t'(1) by simp
  qed
  have "?I (u_subuser U) s" using w U baseD(5) [OF worldD(1) [OF w], of u]
    by (auto simp: subs_of_def fun_eq_iff intro!: exI [of _ "u_nsub U"])
  from walk_list [of ?I ?body, OF step this] obtain s' where s': "walk ?body (hd_opt (u_subuser U)) s = Some s'" "?I [] s'"
    by blast
  obtain k where k: "g_users s' = (g_users s)(u \<mapsto> U\<lparr>u_nsub := k, u_subuser := []\<rparr>)" using s'(2) by blast
  have "k = 0" using baseD(12) [OF worldD(1), of s' u] s'(2) k by (auto simp: user_ok_def)
  moreover have "b \<in> set (subs_of s u) \<longleftrightarrow> owner s b = Some u" for b by (rule baseD(7) [OF worldD(1) [OF w]])
  ultimately show thesis by (intro that [of s' U]) (use s' U k in \<open>auto simp: clear_subusers_def\<close>)
qed

lemma base_del_user:
  assumes b: "base s" and U: "g_users s u = Some U" and e: "u_subuser U = []"
    and h: "indexes h1 u_sessid ((g_users s)(u := None))" "indexes h2 p_pubid ((g_pipes s)(u_pipe U := None))"
    and s': "s' = s\<lparr>g_hSessid := h1, g_nConnected := nc, g_uHead := remove1 u (g_uHead s), g_pipes := (g_pipes s)(u_pipe U := None),
      g_hPubid := h2, g_users := (g_users s)(u := None)\<rparr>"
  shows "base s'" "subs_of s' = subs_of s" "foot s' = (foot s)(u := [])" "members s' = members s" "owner s' = owner s"
proof -
  note D = baseD [OF b]
  show m: "subs_of s' = subs_of s" "owner s' = owner s"
    using U e by (auto simp: s' subs_of_def owner_def fun_eq_iff)
  show "foot s' = (foot s)(u := [])" "members s' = members s" using U by (auto simp: s' foot_def members_def fun_eq_iff)
  have t: "host s' = host s" "conn s' = conn s" "target s' = (target s)(u_pipe U := None)"
    by (simp_all add: s' host_def conn_def target_def fun_eq_iff)
  have tp: "target s (u_pipe U) = Some (USER_PIPE, u)" using D(8) [of u "u_pipe U"] U by simp
  show "base s'"
  proof (rule baseI; (unfold t m)?)
    show "msg_inv s'" by (rule msg_inv_cong [OF D(1)]) (simp_all add: s')
    show "map_option u_pipe (g_users s' v) = Some p \<longleftrightarrow> ((target s)(u_pipe U := None)) p = Some (USER_PIPE, v)" for v p
      using D(8) [of v p] tp U by (auto simp: s')
    show "map_option c_pipe (g_chans s' c) = Some p \<longleftrightarrow> ((target s)(u_pipe U := None)) p = Some (CHANNEL_PIPE, c)" for c p
      using D(9) [of c p] tp by (auto simp: s')
    show "set (g_uHead s') = dom (g_users s')" using D(10,11) by (auto simp: s')
  qed (use D(4-7,10,12-19) h in \<open>auto simp: s' split: if_splits\<close>)
qed

text \<open>What other users' operations never change of a user.\<close>

definition who :: "USERS \<Rightarrow> int \<times> user_type \<times> transport_t" where
  "who U = (u_idle U, u_type U, u_transport U)"

lemma deluser_spec:
  assumes q: "quiet E" and w: "world s" and u: "u \<in> dom (g_users s)"
  obtains s' where "deluser E (Some u) s = Some s'" "world s'" "dom (g_users s') = dom (g_users s) - {u}"
    "g_uHead s' = remove1 u (g_uHead s)" "foot s' = (foot s)(u := [])" "subs_of s' = (subs_of s)(u := [])"
    "\<And>c. members s' c = remove1 u (members s c)" "g_nConnected s' = g_nConnected s - 1" "g_co s' = g_co s" "g_now s' = g_now s"
    "\<And>b. owner s b \<noteq> Some u \<Longrightarrow> conn s' b = conn s b \<and> owner s' b = owner s b" "\<And>b. owner s b = Some u \<Longrightarrow> g_subs s' b = None"
    "dom (g_detached s') = dom (g_detached s) \<union> {b. owner s b = Some u \<and> alive s b}"
    "bufout (g_sk s') = bufout (g_sk s)" "wire (g_sk s') = wire (g_sk s)"
    "\<And>v. v \<noteq> u \<Longrightarrow> map_option who (g_users s' v) = map_option who (g_users s v)"
proof -
  obtain s1 where 1: "left_all E (Some u) s = Some s1" "world s1" "people s s1" "foot s1 = (foot s)(u := [])"
    "\<And>c. members s1 c = remove1 u (members s c)"
    by (rule left_all_spec [OF q w u]) (rule that; assumption)
  have u1: "u \<in> dom (g_users s1)" using people_dom(1) [OF 1(3)] u by simp
  obtain s2 U where 2: "clear_subusers E u s1 = Some s2" "world s2" "others_kept s1 s2" "subs_of s2 = (subs_of s1)(u := [])"
    "foot s2 = foot s1" "members s2 = members s1" "g_users s1 u = Some U"
    "g_users s2 = (g_users s1)(u \<mapsto> U\<lparr>u_nsub := 0, u_subuser := []\<rparr>)" "\<And>b. owner s1 b \<noteq> Some u \<Longrightarrow> g_subs s2 b = g_subs s1 b"
    "dom (g_detached s2) = dom (g_detached s1) \<union> {b. owner s1 b = Some u \<and> alive s1 b}"
    by (rule clear_subusers_spec [OF q 1(2) u1]) (rule that; assumption)
  note b2 = worldD(1) [OF 2(2)] and K = others_keptD [OF 2(3)]
  let ?U = "U\<lparr>u_nsub := 0, u_subuser := []\<rparr>"
  have U2: "g_users s2 u = Some ?U" by (simp add: 2(8))
  obtain P where P: "g_pipes s2 (u_pipe U) = Some P" using user_pipe [OF b2 U2] by auto
  obtain h1 where h1: "hashtbl_erase (g_hSessid s2) (Some (u_sessid U)) = Some h1" "indexes h1 u_sessid ((g_users s2)(u := None))"
    using indexes_erase [OF baseD(2) [OF b2] U2] by auto
  define t where "t = s2\<lparr>g_hSessid := h1, g_nConnected := g_nConnected s2 - 1, g_uHead := remove1 u (g_uHead s2),
    g_users := (g_users s2)(u \<mapsto> ?U\<lparr>u_sessions := [], u_sessions_length := 0, u_properties := []\<rparr>)\<rparr>"
  have i: "indexes (g_hPubid t) p_pubid (g_pipes t)" "g_pipes t (u_pipe U) = Some P" "p_link P = []"
    using baseD(3,16) [OF b2] P by (simp_all add: t_def pipe_ok_def)
  obtain h2 where h2: "destroy_pipe E (u_pipe U) t = Some (t\<lparr>g_pipes := (g_pipes t)(u_pipe U := None), g_hPubid := h2\<rparr>)"
    "indexes h2 p_pubid ((g_pipes t)(u_pipe U := None))"
    by (rule destroy_pipe_spec [OF i])
  define s' where "s' = s2\<lparr>g_hSessid := h1, g_nConnected := g_nConnected s2 - 1, g_uHead := remove1 u (g_uHead s2),
      g_pipes := (g_pipes s2)(u_pipe ?U := None), g_hPubid := h2, g_users := (g_users s2)(u := None)\<rparr>"
  have D: "base s'" "subs_of s' = subs_of s2" "foot s' = (foot s2)(u := [])" "members s' = members s2"
    by (rule base_del_user [OF b2 U2 _ h1(2) _ s'_def]; use h2(2) in \<open>simp add: t_def\<close>)+
  have "deluser E (Some u) s = Some s'"
    using 1(1) 2(1,7) U2 h1(1) h2(1) quietD(3) [OF q]
    by (simp add: deluser_def clear_sessions_def upd_user_def clear_properties_def t_def s'_def)
  moreover have "linked s'" using worldD(2) [OF 2(2)] D(3,4) 2(5) 1(4) by (simp add: linked_def)
  moreover have "dom (g_users s') = dom (g_users s) - {u}"
    using people_dom(1) [OF 1(3)] by (auto simp: s'_def 2(8))
  moreover have "conn s' b = conn s b \<and> owner s' b = owner s b" if "owner s b \<noteq> Some u" for b
  proof -
    have "g_subs s' b = g_subs s1 b" using 2(9) [of b] that people_dom(4) [OF 1(3)] by (simp add: s'_def)
    then have "conn s' b = conn s1 b" "owner s' b = owner s1 b" by (simp_all add: conn_def owner_def)
    then show ?thesis using people_dom(4,6) [OF 1(3)] by simp
  qed
  moreover have "g_subs s' b = None" if "owner s b = Some u" for b
  proof (rule ccontr)
    assume "g_subs s' b \<noteq> None"
    then obtain v where "owner s' b = Some v" using baseD(19) [OF D(1), of b] by auto
    then have "b \<in> set (subs_of s' v)" using baseD(7) [OF D(1)] by simp
    then have "v \<noteq> u" "b \<in> set (subs_of s v)" using D(2) 2(4) people_dom(3) [OF 1(3)] by (auto split: if_splits)
    then show False using baseD(7) [OF worldD(1) [OF w], of b v] that by simp
  qed
  moreover have "dom (g_detached s') = dom (g_detached s) \<union> {b. owner s b = Some u \<and> alive s b}"
    using 2(10) people_dom(4,6) [OF 1(3)] 1(3) by (simp add: s'_def alive_def people_def)
  moreover have "map_option who (g_users s' v) = map_option who (g_users s v)" if "v \<noteq> u" for v
    using people_user [OF 1(3), of who v] that by (simp add: s'_def 2(8) who_def [abs_def])
  ultimately show thesis
    by (intro that [of s'])
      (use D(1-4) 1(3-5) 2(4-6) K people_frame [OF 1(3)] people_dom(3) [OF 1(3)] in \<open>simp_all add: world_def s'_def\<close>)
qed

section \<open>Creating a user\<close>

lemma base_add_user:
  assumes b: "base s" and n: "n = g_next s" and U: "user_ok U" "u_pipe U = Suc n" "u_subuser U = []" "u_chan_foot U = []"
    and k: "length k = 32"
    and h: "indexes h1 u_sessid ((g_users s)(n \<mapsto> U))" "indexes h2 p_pubid ((g_pipes s)(Suc n \<mapsto> new_pipe n USER_PIPE k))"
    and s': "s' = s\<lparr>g_rpos := pos, g_next := Suc (Suc n), g_uHead := n # g_uHead s, g_users := (g_users s)(n \<mapsto> U),
      g_pipes := (g_pipes s)(Suc n \<mapsto> new_pipe n USER_PIPE k), g_hPubid := h2, g_hSessid := h1\<rparr>"
  shows "base s'" "subs_of s' = subs_of s" "foot s' = foot s" "members s' = members s" "owner s' = owner s" "g_users s n = None"
proof -
  note D = baseD [OF b]
  have f: "g_users s n = None" "g_pipes s (Suc n) = None"
    using D(13) [of n] D(17) [of "Suc n"] n by fastforce+
  then show "g_users s n = None" by simp
  show m: "subs_of s' = subs_of s" "owner s' = owner s" using f(1) U(3) by (auto simp: s' subs_of_def owner_def fun_eq_iff)
  show "foot s' = foot s" "members s' = members s" using f(1) U(4) by (auto simp: s' foot_def members_def fun_eq_iff)
  have t: "host s' = host s" "conn s' = conn s" "target s' = (target s)(Suc n \<mapsto> (USER_PIPE, n))"
    by (simp_all add: s' host_def conn_def target_def fun_eq_iff)
  have tp: "target s (Suc n) = None" using f by (simp add: target_def)
  show "base s'"
  proof (rule baseI; (unfold t m)?)
    show "msg_inv s'" by (rule msg_inv_cong [OF D(1)]) (simp_all add: s' n)
    show "map_option u_pipe (g_users s' v) = Some p \<longleftrightarrow> ((target s)(Suc n \<mapsto> (USER_PIPE, n))) p = Some (USER_PIPE, v)" for v p
      using D(8) [of v p] D(8) [of n p] D(8) [of v "Suc n"] tp U(2) f(1) by (auto simp: s')
    show "map_option c_pipe (g_chans s' c) = Some p \<longleftrightarrow> ((target s)(Suc n \<mapsto> (USER_PIPE, n))) p = Some (CHANNEL_PIPE, c)" for c p
      using D(9) [of c p] tp by (auto simp: s')
    show "distinct (g_uHead s')" "set (g_uHead s') = dom (g_users s')" using D(10,11) f(1) by (auto simp: s')
    show "v < g_next s'" if "g_users s' v = Some V" for v V using D(13) [of v V] that n by (auto simp: s' split: if_splits)
    show "c < g_next s'" if "g_chans s' c = Some C" for c C using D(15) [of c C] that n by (simp add: s')
    show "p < g_next s'" if "g_pipes s' p = Some P" for p P using D(17) [of p P] that n by (auto simp: s' split: if_splits)
  qed (use D(4-7,12,14,16,18,19) h U(1) k in \<open>auto simp: s' split: if_splits\<close>)
qed

lemma adduser_spec:
  assumes q: "quiet E" and w: "world s" and hl: "length ch \<le> MAX_HOST_LENGTH"
    and g1: "gen_sessid_new (e_rand E) s (g_rpos s) = Some (k1, p1)" and g2: "gen_sessid_new (e_rand E) s p1 = Some (k2, p2)"
  obtains s' U where "adduser E client ch ip None s = Some (Some (g_next s), s')" "world s'" "g_users s (g_next s) = None"
    "g_users s' = (g_users s)(g_next s \<mapsto> U)" "u_sessid U = k1" "u_istmp U" "u_ip U = take 16 ip"
    "subs_of s' = (subs_of s)(g_next s := [Suc (Suc (g_next s))])"
    "owner s' = (owner s)(Suc (Suc (g_next s)) := Some (g_next s))"
    "foot s' = foot s" "members s' = members s" "g_co s' = g_co s" "g_uHead s' = g_next s # g_uHead s"
    "\<And>c. lowq s' c = lowq s c" "g_chans s' = g_chans s" "conn s' = (conn s)(Suc (Suc (g_next s)) \<mapsto> (ADIED, client))"
    "g_pipes s' = (g_pipes s)(Suc (g_next s) \<mapsto> new_pipe (g_next s) USER_PIPE k2)" "g_rpos s' = p2" "g_sk s' = g_sk s"
    "g_now s' = g_now s" "g_detached s' = g_detached s" "u_subuser U = [Suc (Suc (g_next s))]"
proof -
  note b = worldD(1) [OF w] and K1 = gen_sessid_new_spec(1,2) [OF g1]
  let ?n = "g_next s"
  define V where "V = \<lparr>u_ulink = [], u_nlink = 0, u_sessions = [], u_sessions_length = 0, u_chan_foot = [], u_pipe = Suc ?n,
              u_properties = [], u_subuser = [], u_cmdqueue = [], u_idle = g_now s,
              u_transport = TRANSPORT_LONGPOLLING, u_nsub = 0, u_flags = 0, u_type = (if client \<noteq> None then HUMAN else BOT),
              u_istmp = True, u_ip = take 16 ip, u_sessid = k1\<rparr>"
  define t where "t = s\<lparr>g_rpos := p1, g_next := Suc ?n, g_users := (g_users s)(?n \<mapsto> V\<lparr>u_pipe := 0, u_type := HUMAN, u_istmp := False\<rparr>),
      g_uHead := ?n # g_uHead s\<rparr>"
  have i: "indexes (g_hPubid t) p_pubid (g_pipes t)" "g_pipes t (g_next t) = None"
    using baseD(3) [OF b] baseD(17) [OF b, of "Suc ?n"] by (fastforce simp: t_def)+
  have gt: "gen_sessid_new (e_rand E) t (g_rpos t) = Some (k2, p2)"
    using gen_sessid_new_cong [OF g2, of t] by (simp add: t_def)
  obtain h2 where h2: "init_pipe E ?n USER_PIPE t = Some (g_next t, t\<lparr>g_rpos := p2,
      g_pipes := (g_pipes t)(g_next t \<mapsto> new_pipe ?n USER_PIPE k2), g_hPubid := h2, g_next := Suc (g_next t)\<rparr>)"
    "indexes h2 p_pubid ((g_pipes t)(g_next t \<mapsto> new_pipe ?n USER_PIPE k2))" "length k2 = 32"
    by (rule init_pipe_spec [OF i gt])
  have f: "g_users s ?n = None" using baseD(13) [OF b, of ?n] by fastforce
  have seekV: "hashtbl_seek (g_hSessid s) (Some (u_sessid V)) = Some None"
    using id_free_seek(2) [OF K1] by (simp add: V_def)
  obtain h1 where h1: "hashtbl_append (g_hSessid s) (Some (u_sessid V)) ?n = Some h1" "indexes h1 u_sessid ((g_users s)(?n \<mapsto> V))"
    by (rule indexes_insert [OF baseD(2) [OF b] seekV f])
  define s1 where "s1 = s\<lparr>g_rpos := p2, g_next := Suc (Suc ?n), g_uHead := ?n # g_uHead s, g_users := (g_users s)(?n \<mapsto> V),
      g_pipes := (g_pipes s)(Suc ?n \<mapsto> new_pipe ?n USER_PIPE k2), g_hPubid := h2, g_hSessid := h1\<rparr>"
  have Vok: "user_ok V" using K1(2) by (simp add: V_def user_ok_def sessions_ok_def MAX_SESSION_LENGTH_def)
  have 1: "base s1" "subs_of s1 = subs_of s" "foot s1 = foot s" "members s1 = members s" "owner s1 = owner s"
    by (rule base_add_user [OF b refl Vok _ _ _ h2(3) h1(2) _ s1_def]; use h2(2) in \<open>simp add: V_def t_def\<close>)+
  have w1: "world s1" using 1 worldD(2) [OF w] by (simp add: world_def linked_def)
  have V1: "g_users s1 ?n = Some V" and n1: "g_next s1 = Suc (Suc ?n)" by (simp_all add: s1_def)
  have e1: "subs_of s1 ?n = []" using f by (simp add: 1(2) subs_of_def)
  then have nh: "ch \<notin> host s1 ` set (subs_of s1 ?n)" by simp
  obtain s' where 2: "addsubuser E client ch ?n s1 = Some (Some (g_next s1), s')" "world s'"
    "subs_of s' = (subs_of s1)(?n := g_next s1 # subs_of s1 ?n)" "owner s' = (owner s1)(g_next s1 := Some ?n)"
    "foot s' = foot s1" "members s' = members s1" "g_chans s' = g_chans s1" "g_uHead s' = g_uHead s1"
    "g_users s' = (g_users s1)(?n \<mapsto> V\<lparr>u_nsub := u_nsub V + 1, u_subuser := g_next s1 # u_subuser V\<rparr>)"
    "\<And>c. lowq s' c = (if c = g_next s1 then filter (\<lambda>r. \<not> raw_hi s1 r) (case subs_of s1 ?n of [] \<Rightarrow> [] | p # _ \<Rightarrow> lowq s1 p) else lowq s1 c)"
    "g_co s' = g_co s1" "conn s' = (conn s1)(g_next s1 \<mapsto> (ADIED, client))" "g_pipes s' = g_pipes s1" "g_rpos s' = g_rpos s1"
    "g_sk s' = g_sk s1" "g_now s' = g_now s1" "g_detached s' = g_detached s1"
    by (rule addsubuser_spec [OF q w1 V1 nh hl]) (rule that; assumption)
  have c1: "conn s1 = conn s" by (simp add: s1_def conn_def fun_eq_iff)
  have "adduser E client ch ip None s = Some (Some ?n, s')"
  proof -
    define t0 where "t0 = s\<lparr>g_rpos := p1, g_next := Suc ?n, g_users := (g_users s)(?n \<mapsto> V\<lparr>u_pipe := 0, u_type := HUMAN,
      u_istmp := False, u_ip := []\<rparr>), g_uHead := ?n # g_uHead s\<rparr>"
    have "init_user E s = Some (?n, t0)" using g1 by (simp add: init_user_def Let_def t0_def V_def)
    moreover have "upd_user ?n (\<lambda>u. u\<lparr>u_ip := take 16 ip\<rparr>) t0 = Some t" by (simp add: upd_user_def t0_def t_def V_def)
    moreover have "upd_user ?n (\<lambda>u. u\<lparr>u_pipe := Suc ?n, u_type := (if client \<noteq> None then HUMAN else BOT), u_istmp := True\<rparr>)
      (t\<lparr>g_rpos := p2, g_pipes := (g_pipes t)(g_next t \<mapsto> new_pipe ?n USER_PIPE k2), g_hPubid := h2, g_next := Suc (g_next t)\<rparr>)
      = Some (s1\<lparr>g_hSessid := g_hSessid s\<rparr>)" by (simp add: upd_user_def t_def s1_def V_def)
    moreover have "g_users (s1\<lparr>g_hSessid := g_hSessid s\<rparr>) ?n = Some V"
      "hashtbl_append (g_hSessid (s1\<lparr>g_hSessid := g_hSessid s\<rparr>)) (Some (u_sessid V)) ?n = Some h1"
      "s1\<lparr>g_hSessid := g_hSessid s, g_hSessid := h1\<rparr> = s1" using h1(1) by (simp_all add: s1_def)
    ultimately show ?thesis using quietD(1) [OF q] h2(1) 2(1) by (simp add: adduser_def t_def)
  qed
  moreover have "lowq s' c = lowq s c" for c
  proof -
    have "g_subs s (Suc (Suc ?n)) = None" using msg_invD(3) [OF baseD(1) [OF b], of "Suc (Suc ?n)"] by fastforce
    then show ?thesis using 2(10) [of c] e1 n1 by (simp add: s1_def lowq_def)
  qed
  ultimately show thesis
    by (intro that [of s' "V\<lparr>u_nsub := u_nsub V + 1, u_subuser := g_next s1 # u_subuser V\<rparr>"])
      (use 2 1 e1 n1 f c1 in \<open>simp_all add: s1_def V_def\<close>)
qed

end
