(* ===== verification/Ape_Session.thy ===== *)
theory Ape_Session
  imports Ape_Users
begin

text \<open>
  What the operations on connections and sessions do on a consistent state: flags of a connection,
  stored sessions and their replay, the restoration of a returning client, and delivery to a public
  address.
\<close>

section \<open>Connection flags\<close>

text \<open>Two structures of a connection that differ in flags only: same queues, user and host.\<close>

definition same_link :: "subuser \<Rightarrow> subuser \<Rightarrow> bool" where
  "same_link B B' \<longleftrightarrow> sub_low B' = sub_low B \<and> sub_high B' = sub_high B \<and> sub_nraw B' = sub_nraw B \<and>
     sub_user B' = sub_user B \<and> sub_channel B' = sub_channel B \<and> sub_content B' \<in> {sub_content B, None}"

lemma msg_inv_sub_upd:
  assumes inv: "msg_inv s" and B: "g_subs s b = Some B" and sl: "same_link B B'" and s': "s' = s\<lparr>g_subs := (g_subs s)(b \<mapsto> B')\<rparr>"
  shows "msg_inv s'"
proof -
  have r: "sub_raws B' = sub_raws B" and ok: "sub_ok B \<Longrightarrow> sub_ok B'" using sl by (auto simp: same_link_def sub_raws_def sub_ok_def)
  have occ: "occ s' r = occ s r" for r using occ_upd [OF msg_invD(1) [OF inv] B, of s' B' r] by (simp add: r s')
  show ?thesis
  proof (rule msg_invI)
    show "sub_ok x" "c < g_next s'" if "g_subs s' c = Some x" for c x
      using that ok msg_invD(2,3) [OF inv, of c] msg_invD(2,3) [OF inv B] by (auto simp: s' split: if_splits)
    show "occ s' r = 0" if "g_raws s' r = None" for r using that msg_invD(4) [OF inv, of r] by (simp add: occ) (simp add: s')
    show "r < g_next s'" "0 \<le> raw_refcount y" "int (occ s' r) \<le> max 1 (raw_refcount y)" if "g_raws s' r = Some y" for r y
      using that msg_invD(5-7) [OF inv, of r y] by (simp_all add: occ, simp_all add: s')
  qed (use msg_invD(1,8) [OF inv] in \<open>simp_all add: s'\<close>)
qed

lemma sub_upd_world:
  assumes w: "world s" and B: "g_subs s b = Some B" and sl: "same_link B B'"
    and cl: "sub_state B' = ALIVE \<Longrightarrow> sub_client B' \<in> Some ` dom (g_co s)" and s': "s' = s\<lparr>g_subs := (g_subs s)(b \<mapsto> B')\<rparr>"
  shows "world s'" "owner s' = owner s" "subs_of s' = subs_of s" "host s' = host s" "foot s' = foot s" "members s' = members s"
    "lowq s' = lowq s" "highq s' = highq s" "conn s' = (conn s)(b \<mapsto> (sub_state B', sub_client B'))"
proof -
  note D = baseD [OF worldD(1) [OF w]]
  show e: "owner s' = owner s" "subs_of s' = subs_of s" "host s' = host s" "foot s' = foot s" "members s' = members s"
    "lowq s' = lowq s" "highq s' = highq s"
    and c: "conn s' = (conn s)(b \<mapsto> (sub_state B', sub_client B'))"
    using B sl by (simp_all add: s' owner_def subs_of_def host_def foot_def members_def lowq_def highq_def conn_def same_link_def fun_eq_iff)
  have "base s'"
  proof (rule baseI; (unfold e c)?)
    show "msg_inv s'" by (rule msg_inv_sub_upd [OF D(1) B sl s'])
    show "cl \<in> Some ` dom (g_co s')" if "((conn s)(b \<mapsto> (sub_state B', sub_client B'))) d = Some (ALIVE, cl)" for d cl
      using that cl D(18) [of d cl] by (auto simp: s' split: if_splits)
    show "owner s d \<noteq> None" if "d \<in> dom (g_subs s')" for d using that D(19) [of d] B by (auto simp: s' split: if_splits)
  qed (use D in \<open>simp_all add: s' target_def\<close>)
  then show "world s'" using worldD(2) [OF w] by (simp add: world_def linked_def e)
qed

lemma same_link_flags [simp]:
  "same_link B (B\<lparr>sub_need_update := x\<rparr>)" "same_link B (B\<lparr>sub_state := st\<rparr>)" "same_link B (B\<lparr>sub_idle := i\<rparr>)"
  "same_link B (B\<lparr>sub_current_chl := i\<rparr>)" "same_link B (B\<lparr>sub_client := c\<rparr>)" "same_link B (B\<lparr>sub_burn_after_writing := x\<rparr>)"
  "same_link B (B\<lparr>sub_client := c, sub_state := st\<rparr>)"
  "same_link B (B\<lparr>sub_state := st, sub_sent := x, sub_content := None\<rparr>)"
  "same_link B (B\<lparr>sub_sent := x, sub_state := st, sub_content := None\<rparr>)"
  "same_link B (B\<lparr>sub_state := st, sub_sent := x, sub_content := None, sub_burn_after_writing := y\<rparr>)"
  by (simp_all add: same_link_def)

lemma world_posted: "world s \<Longrightarrow> posted s s' \<Longrightarrow> msg_inv s' \<Longrightarrow> world s'"
  using base_posted linked_posted unfolding world_def by blast

section \<open>Messages of high priority\<close>

lemma forge_raw_hi_spec:
  assumes inv: "msg_inv s" and j: "json_wf j"
  obtains r s' x where "forge_raw_hi name j s = Some (r, s')" "msg_inv s'" "posted s s'" "shared s' r"
    "g_subs s' = g_subs s" "raw_hi s' r" "g_raws s' r = Some x" "occ s' r = 0" "g_raws s r = None"
proof -
  obtain r s1 x where 1: "forge_raw name j s = Some (r, s1)" "msg_inv s1" "posted s s1" "shared s1 r"
    "g_subs s1 = g_subs s" "occ s1 r = 0" "g_raws s1 r = Some x" "g_raws s r = None"
    by (rule forge_raw_spec [OF inv j]) (rule that; assumption)
  define s' where "s' = s1\<lparr>g_raws := (g_raws s1)(r \<mapsto> x\<lparr>raw_priority := RAW_PRI_HI\<rparr>)\<rparr>"
  have occ: "occ s' q = occ s1 q" for q by (rule occ_cong) (simp add: s'_def)
  have "msg_inv s'"
  proof (rule msg_invI)
    show "0 \<le> raw_refcount z" "q < g_next s'" "int (occ s' q) \<le> max 1 (raw_refcount z)" if "g_raws s' q = Some z" for q z
      using that 1(7) msg_invD(5-7) [OF 1(2), of q] unfolding occ by (auto simp: s'_def split: if_splits)
    show "occ s' q = 0" if "g_raws s' q = None" for q
      using that msg_invD(4) [OF 1(2), of q] unfolding occ by (auto simp: s'_def split: if_splits)
  qed (use msg_invD(1-3,8) [OF 1(2)] in \<open>auto simp: s'_def\<close>)
  moreover have "posted s s'" using 1(3,8) by (auto simp: posted_def s'_def split: if_splits)
  moreover have "shared s' r" using 1(4,7) unfolding shared_def occ by (simp add: s'_def)
  moreover have "forge_raw_hi name j s = Some (r, s')" using 1(1,7) by (simp add: forge_raw_hi_def upd_raw_def s'_def)
  ultimately show thesis
    by (intro that [of r s']) (use 1(5,6,8) in \<open>simp_all add: occ\<close>, simp_all add: s'_def raw_hi_def)
qed

lemma post_hi_spec:
  assumes q: "quiet E" and w: "world s" and j: "json_wf j" and b: "b \<in> dom (g_subs s)"
  obtains r s' where "post_hi E name j b s = Some s'" "world s'" "posted s s'" "lowq s' = lowq s"
    "\<And>c. highq s' c = highq s c @ (if c = b then [r] else [])"
proof -
  obtain r s1 x where 1: "forge_raw_hi name j s = Some (r, s1)" "msg_inv s1" "posted s s1" "g_subs s1 = g_subs s" "raw_hi s1 r"
    "g_raws s1 r = Some x" "occ s1 r = 0"
    by (rule forge_raw_hi_spec [OF baseD(1) [OF worldD(1) [OF w]] j]) (rule that; assumption)
  obtain y where y: "g_subs s1 b = Some y" using b 1(4) by auto
  have sl: "int (occ s1 r) + 1 \<le> max 1 (raw_refcount x)" using 1(7) by simp
  obtain s' where 2: "post_raw_sub E r b s1 = Some s'" "msg_inv s'" "posted s1 s'"
    "\<And>c. lowq s' c = lowq s1 c @ (if c = b \<and> \<not> raw_hi s1 r then [r] else [])"
    "\<And>c. highq s' c = highq s1 c @ (if c = b \<and> raw_hi s1 r then [r] else [])"
    by (rule post_raw_sub_spec [OF q 1(2,6) y sl]) (rule that; assumption)
  have p: "posted s s'" by (rule posted_trans [OF 1(3) 2(3)])
  have "world s'" by (rule world_posted [OF w p 2(2)])
  moreover have "lowq s' = lowq s" using 2(4) 1(5) lowq_cong(1) [OF 1(4)] by (simp add: fun_eq_iff)
  moreover have "highq s' c = highq s c @ (if c = b then [r] else [])" for c
    using 2(5) [of c] 1(5) lowq_cong(2) [OF 1(4)] by simp
  ultimately show thesis by (intro that [of s' r]) (use 1(1) 2(1) p in \<open>simp_all add: post_hi_def\<close>)
qed

section \<open>What serving a connection leaves alone\<close>

text \<open>No user, connection or connection state is added, removed or changed.\<close>

definition transport_of :: "acetables \<Rightarrow> nat \<Rightarrow> transport_t option" where
  "transport_of s u = map_option u_transport (g_users s u)"

definition kept :: "acetables \<Rightarrow> acetables \<Rightarrow> bool" where
  "kept s s' \<longleftrightarrow> owner s' = owner s \<and> subs_of s' = subs_of s \<and> host s' = host s \<and> conn s' = conn s \<and>
     dom (g_users s') = dom (g_users s) \<and> dom (g_subs s') = dom (g_subs s) \<and> g_co s' = g_co s \<and> g_now s' = g_now s \<and>
     (sock_inv (g_sk s) \<longrightarrow> sock_inv (g_sk s')) \<and> g_detached s' = g_detached s \<and> transport_of s' = transport_of s"

lemma keptD:
  assumes "kept s s'"
  shows "owner s' = owner s" "subs_of s' = subs_of s" "host s' = host s" "conn s' = conn s" "dom (g_users s') = dom (g_users s)"
    "dom (g_subs s') = dom (g_subs s)" "g_co s' = g_co s" "g_now s' = g_now s" "sock_inv (g_sk s) \<Longrightarrow> sock_inv (g_sk s')"
    "g_detached s' = g_detached s" "transport_of s' = transport_of s"
  using assms by (simp_all add: kept_def)

lemma kept_refl [simp]: "kept s s"
  by (simp add: kept_def)

lemma kept_trans: "kept s s' \<Longrightarrow> kept s' s'' \<Longrightarrow> kept s s''"
  by (simp add: kept_def)

lemma kept_people:
  assumes "people s s'"
  shows "kept s s'"
proof -
  have "transport_of s' = transport_of s" using people_user [OF assms, of u_transport] by (simp add: transport_of_def fun_eq_iff)
  then show ?thesis using people_dom [OF assms] people_frame(3-5) [OF assms] assms by (simp add: kept_def) (simp add: people_def)
qed

lemma kept_posted: "posted s s' \<Longrightarrow> kept s s'"
  by (rule kept_people [OF people_posted])

lemma kept_sub_upd:
  assumes B: "g_subs s b = Some B" and sl: "same_link B B'" and st: "sub_state B' = sub_state B" "sub_client B' = sub_client B"
    and s': "s' = s\<lparr>g_subs := (g_subs s)(b \<mapsto> B')\<rparr>"
  shows "kept s s'"
proof -
  have "dom (g_subs s') = dom (g_subs s)" using B by (auto simp: s')
  moreover have "owner s' = owner s" "subs_of s' = subs_of s" "host s' = host s" "conn s' = conn s" "transport_of s' = transport_of s"
    using B sl st by (simp_all add: s' owner_def subs_of_def host_def conn_def transport_of_def same_link_def fun_eq_iff)
  ultimately show ?thesis by (simp add: kept_def) (simp add: s')
qed

lemma forM_inv:
  assumes "\<And>x s. x \<in> set xs \<Longrightarrow> I s \<Longrightarrow> \<exists>s'. f x s = Some s' \<and> I s'" and "I s"
  shows "\<exists>s'. forM xs f s = Some s' \<and> I s'"
  using assms
proof (induction xs arbitrary: s)
  case (Cons x xs)
  obtain s1 where "f x s = Some s1" "I s1" using Cons.prems(1) [of x s] Cons.prems(2) by auto
  then show ?case using Cons.IH [of s1] Cons.prems(1) by simp
qed simp

section \<open>Sessions\<close>

lemma store_session_find:
  "find (\<lambda>x. ses_key x = k) (store_session key val xs) =
     (if k = key then map_option (\<lambda>x. x\<lparr>ses_val := val\<rparr>) (find (\<lambda>x. ses_key x = key) xs) else find (\<lambda>x. ses_key x = k) xs)"
  by (induction xs) auto

lemma store_session_keys: "map ses_key (store_session key val xs) = map ses_key xs"
  by (induction xs) auto

lemma store_session_size:
  assumes "find (\<lambda>x. ses_key x = key) xs = Some x"
  shows "int (sum_list (map (\<lambda>x. length (ses_val x)) (store_session key val xs))) =
     int (sum_list (map (\<lambda>x. length (ses_val x)) xs)) + (int (length val) - int (length (ses_val x)))"
  using assms by (induction xs) (auto split: if_splits)

text \<open>The sessions after one of them is set.\<close>

definition with_session :: "string \<Rightarrow> string \<Rightarrow> USERS \<Rightarrow> USERS" where
  "with_session key val u =
     (case find (\<lambda>x. ses_key x = key) (u_sessions u) of
        Some x \<Rightarrow> u\<lparr>u_sessions_length := u_sessions_length u + (int (length val) - int (length (ses_val x))),
                   u_sessions := store_session key val (u_sessions u)\<rparr>
      | None \<Rightarrow> u\<lparr>u_sessions_length := u_sessions_length u + int (length val),
                  u_sessions := \<lparr>ses_key = key, ses_val = val\<rparr> # u_sessions u\<rparr>)"

lemma with_session_ok:
  assumes "user_ok U" and "length key \<le> 32" and "u_sessions_length U + int (length val) \<le> MAX_SESSION_LENGTH"
  shows "user_ok (with_session key val U)"
proof (cases "find (\<lambda>x. ses_key x = key) (u_sessions U)")
  case None
  then have "key \<notin> ses_key ` set (u_sessions U)" by (auto simp: find_None_iff)
  then show ?thesis using assms None by (simp add: with_session_def user_ok_def sessions_ok_def)
next
  case (Some x)
  have "ses_key ` set (store_session key val (u_sessions U)) = ses_key ` set (u_sessions U)"
    using arg_cong [OF store_session_keys [of key val "u_sessions U"], of set] by simp
  moreover have "\<forall>y \<in> ses_key ` set (u_sessions U). length y \<le> 32" using assms(1) by (simp add: user_ok_def sessions_ok_def)
  ultimately have "\<forall>y \<in> set (store_session key val (u_sessions U)). length (ses_key y) \<le> 32" by (metis imageI)
  then show ?thesis
    using assms Some store_session_size [OF Some, of val] store_session_keys [of key val "u_sessions U"]
    by (simp add: with_session_def user_ok_def sessions_ok_def)
qed

lemma with_session_find:
  "find (\<lambda>x. ses_key x = k) (u_sessions (with_session key val U)) =
     (if k = key then Some \<lparr>ses_key = key, ses_val = val\<rparr> else find (\<lambda>x. ses_key x = k) (u_sessions U))"
proof (cases "find (\<lambda>x. ses_key x = key) (u_sessions U)")
  case (Some x)
  then have "ses_key x = key" by (auto simp: find_Some_iff)
  then show ?thesis using Some by (cases x) (auto simp: with_session_def store_session_find)
qed (auto simp: with_session_def)

lemma with_session_frame:
  "u_sessid (with_session key val U) = u_sessid U" "u_pipe (with_session key val U) = u_pipe U"
  "u_subuser (with_session key val U) = u_subuser U" "u_chan_foot (with_session key val U) = u_chan_foot U"
  "u_transport (with_session key val U) = u_transport U"
  by (simp_all add: with_session_def split: option.split)

lemma user_upd_world:
  assumes w: "world s" and U: "g_users s u = Some U" and f: "u_sessid U' = u_sessid U" "u_pipe U' = u_pipe U"
    "u_subuser U' = u_subuser U" "u_chan_foot U' = u_chan_foot U" "u_transport U' = u_transport U" and ok: "user_ok U'"
    and s': "s' = s\<lparr>g_users := (g_users s)(u \<mapsto> U')\<rparr>"
  shows "world s'" "kept s s'" "foot s' = foot s" "members s' = members s"
proof -
  show e: "foot s' = foot s" "members s' = members s" using U f by (simp_all add: s' foot_def members_def fun_eq_iff)
  show "world s'" using base_user_upd [OF worldD(1) [OF w] U f(1-3) ok] worldD(2) [OF w] e by (simp add: world_def linked_def s')
  show "kept s s'" using U f(3,5) by (auto simp: s' kept_def owner_def subs_of_def host_def conn_def transport_of_def fun_eq_iff)
qed

lemma sendback_session_spec:
  assumes q: "quiet E" and w: "world s" and u: "u \<in> dom (g_users s)"
  obtains s' where "sendback_session E u sess s = Some s'" "world s'" "kept s s'" "g_users s' = g_users s"
proof -
  let ?j = "json_set_property_objN json_new_object (Some ''sessions'') 8
    (json_set_property_strZ json_new_object (Some (ses_key sess)) (ses_val sess))"
  let ?f = "\<lambda>current s. do { b \<leftarrow> g_subs s current;
       if sub_need_update b then do {
         s \<leftarrow> upd_sub current (\<lambda>b. b\<lparr>sub_need_update := False\<rparr>) s;
         (newraw, s) \<leftarrow> forge_raw_hi ''SESSIONS'' ?j s;
         post_copy_z E newraw current s }
       else Some s }"
  let ?I = "\<lambda>t. world t \<and> kept s t \<and> g_users t = g_users s"
  obtain U where U: "g_users s u = Some U" using u by auto
  have step: "\<exists>t'. ?f b t = Some t' \<and> ?I t'" if b: "b \<in> set (u_subuser U)" and I: "?I t" for b t
  proof -
    have wt: "world t" "kept s t" "g_users t = g_users s" using I by blast+
    have "b \<in> dom (g_subs s)" using subs_live [OF worldD(1) [OF w], of b u] b U by (simp add: subs_of_def)
    then obtain B where B: "g_subs t b = Some B" using keptD(6) [OF wt(2)] by (metis domD)
    show ?thesis
    proof (cases "sub_need_update B")
      case False
      then show ?thesis using B I by simp
    next
      case True
      define t1 where "t1 = t\<lparr>g_subs := (g_subs t)(b \<mapsto> B\<lparr>sub_need_update := False\<rparr>)\<rparr>"
      have cl: "sub_client B \<in> Some ` dom (g_co t)" if "sub_state B = ALIVE"
        using baseD(18) [OF worldD(1) [OF wt(1)], of b "sub_client B"] B that by (simp add: conn_def)
      have W: "world t1" by (rule sub_upd_world(1) [OF wt(1) B _ _ t1_def]) (use cl in simp_all)
      have k1: "kept t t1" by (rule kept_sub_upd [OF B _ _ _ t1_def]) simp_all
      have jw: "json_wf ?j" by (simp add: json_container_wf)
      obtain r t2 where 2: "forge_raw_hi ''SESSIONS'' ?j t1 = Some (r, t2)" "msg_inv t2" "posted t1 t2" "shared t2 r"
        by (rule forge_raw_hi_spec [OF baseD(1) [OF worldD(1) [OF W]] jw]) (rule that; assumption)
      have b2: "b \<in> dom (g_subs t2)" using posted_frame(15) [OF 2(3)] by (simp add: t1_def)
      obtain t3 where 3: "post_copy_z E r b t2 = Some t3" "msg_inv t3" "posted t2 t3"
        by (rule post_copy_z_spec [OF q 2(2,4) b2]) (rule that; assumption)
      have p: "posted t1 t3" by (rule posted_trans [OF 2(3) 3(3)])
      have "?f b t = Some t3" using B True 2(1) 3(1) by (simp add: upd_sub_def t1_def)
      moreover have "world t3" by (rule world_posted [OF W p 3(2)])
      moreover have "kept s t3" by (rule kept_trans [OF wt(2) kept_trans [OF k1 kept_posted [OF p]]])
      moreover have "g_users t3 = g_users s" using posted_frame(1) [OF p] wt(3) by (simp add: t1_def)
      ultimately show ?thesis by blast
    qed
  qed
  have "?I s" using w by simp
  then have "\<exists>t'. forM (u_subuser U) ?f s = Some t' \<and> ?I t'" by (rule forM_inv [rotated]) (rule step)
  then obtain t where t: "forM (u_subuser U) ?f s = Some t" "?I t" by blast
  have "sendback_session E u sess s = Some t" unfolding sendback_session_def Let_def using t(1) U by simp
  then show thesis using t(2) by (intro that [of t]) auto
qed

lemma set_session_spec:
  assumes q: "quiet E" and w: "world s" and U: "g_users s u = Some U"
    and l: "length key \<le> 32" "u_sessions_length U + int (length val) \<le> MAX_SESSION_LENGTH"
  obtains s' where "set_session E u key val update s = Some (Some \<lparr>ses_key = key, ses_val = val\<rparr>, s')" "world s'" "kept s s'"
    "g_users s' = (g_users s)(u \<mapsto> with_session key val U)"
proof -
  define s1 where "s1 = s\<lparr>g_users := (g_users s)(u \<mapsto> with_session key val U)\<rparr>"
  have ok: "user_ok (with_session key val U)" by (rule with_session_ok [OF baseD(12) [OF worldD(1) [OF w] U] l])
  note 1 = user_upd_world(1,2) [OF w U with_session_frame ok s1_def]
  have u1: "u \<in> dom (g_users s1)" by (simp add: s1_def)
  obtain s2 where 2: "sendback_session E u \<lparr>ses_key = key, ses_val = val\<rparr> s1 = Some s2" "world s2" "kept s1 s2" "g_users s2 = g_users s1"
    by (rule sendback_session_spec [OF q 1(1) u1]) (rule that; assumption)
  have st: "set_session E u key val update s =
    Option.bind (if update then sendback_session E u \<lparr>ses_key = key, ses_val = val\<rparr> s1 else Some s1)
      (\<lambda>s. Some (Some \<lparr>ses_key = key, ses_val = val\<rparr>, s))"
    using U l by (simp add: set_session_def get_session_def upd_user_def with_session_def [symmetric] s1_def Let_def)
  show thesis
  proof (cases update)
    case True
    then show thesis
      by (intro that [of s2]) (use st 2 kept_trans [OF 1(2) 2(3)] in \<open>simp_all add: s1_def\<close>)
  next
    case False
    then show thesis by (intro that [of s1]) (use st 1 in \<open>simp_all add: s1_def\<close>)
  qed
qed

lemma set_session_refused:
  assumes "g_users s u = Some U" and "length key > 32 \<or> u_sessions_length U + int (length val) > MAX_SESSION_LENGTH"
  shows "set_session E u key val update s = Some (None, s)"
  using assms by (simp add: set_session_def Let_def)

section \<open>A returning client\<close>

lemma restor_channel_spec:
  assumes q: "quiet E" and w: "world s" and c: "c \<in> dom (g_chans s)" and b: "b \<in> dom (g_subs s)"
  obtains r s' where "restor_channel E b c s = Some s'" "world s'" "posted s s'" "lowq s' = lowq s"
    "\<And>d. highq s' d = highq s d @ (if d = b then [r] else [])"
proof -
  note B = worldD(1) [OF w]
  obtain C where C: "g_chans s c = Some C" using c by auto
  have l: "ul_userinfo l \<in> dom (g_users s) \<and> ul_level l \<le> 32" if "l \<in> set (c_head C)" for l
    using members_live [OF worldD(2) [OF w], of "ul_userinfo l" c] baseD(14) [OF B C] that C by (auto simp: members_def chan_ok_def)
  obtain ul where ul: "user_list_loop (c_head C) json_new_array s = Some ul" "json_container ul"
    by (rule user_list_json [OF B]) (use l in auto)
  obtain jc where jc: "get_json_object_channel c s = Some jc" "json_container jc" by (rule channel_json [OF B c])
  let ?P = "c_flags C AND CHANNEL_NONINTERACTIVE = 0 \<and> c_head C \<noteq> []"
  define jl where "jl = (if ?P then json_set_property_objN json_new_object (Some ''users'') 5 ul else json_new_object)"
  have jw: "json_wf (json_set_property_objN jl (Some ''pipe'') 4 jc)" using ul(2) jc(2) by (simp add: jl_def json_container_wf)
  obtain r s' where 1: "post_hi E RAW_CHANNEL (json_set_property_objN jl (Some ''pipe'') 4 jc) b s = Some s'" "world s'" "posted s s'"
    "lowq s' = lowq s" "\<And>d. highq s' d = highq s d @ (if d = b then [r] else [])"
    by (rule post_hi_spec [OF q w jw b]) (rule that; assumption)
  have "restor_channel E b c s = Some s'" using C ul(1) jc(1) 1(1) by (cases ?P) (auto simp: restor_channel_def jl_def)
  then show thesis using 1(2-5) by (rule that)
qed

lemma subuser_restor_spec:
  assumes q: "quiet E" and w: "world s" and u: "owner s b = Some u"
  obtains rs s' where "subuser_restor E b s = Some s'" "world s'" "posted s s'" "lowq s' = lowq s"
    "\<And>d. highq s' d = highq s d @ (if d = b then rs else [])" "length rs = Suc (length (foot s u))"
proof -
  obtain B U where B: "g_subs s b = Some B" "sub_user B = Some u" and U: "g_users s u = Some U"
    using u owner_user [OF worldD(1) [OF w] u] by (auto simp: owner_def bind_eq_Some_conv)
  have loop: "\<exists>rs s'. forM cs (restor_channel E b) s = Some s' \<and> world s' \<and> posted s s' \<and> lowq s' = lowq s \<and>
      (\<forall>d. highq s' d = highq s d @ (if d = b then rs else [])) \<and> length rs = length cs"
    if "world s" "set cs \<subseteq> dom (g_chans s)" "b \<in> dom (g_subs s)" for cs s
    using that
  proof (induction cs arbitrary: s)
    case (Cons c cs)
    have c: "c \<in> dom (g_chans s)" using Cons.prems(2) by simp
    obtain r s1 where 1: "restor_channel E b c s = Some s1" "world s1" "posted s s1" "lowq s1 = lowq s"
      "\<And>d. highq s1 d = highq s d @ (if d = b then [r] else [])"
      by (rule restor_channel_spec [OF q Cons.prems(1) c Cons.prems(3)]) (rule that; assumption)
    have d: "set cs \<subseteq> dom (g_chans s1)" "b \<in> dom (g_subs s1)" using posted_frame(2,15) [OF 1(3)] Cons.prems(2,3) by simp_all
    obtain rs s' where 2: "forM cs (restor_channel E b) s1 = Some s'" "world s'" "posted s1 s'" "lowq s' = lowq s1"
      "\<And>d. highq s' d = highq s1 d @ (if d = b then rs else [])" "length rs = length cs"
      using Cons.IH [OF 1(2) d] by blast
    have "highq s' d = highq s d @ (if d = b then r # rs else [])" for d using 1(5) [of d] 2(5) [of d] by simp
    then show ?case using 1(1,4) 2(1,2,4,6) posted_trans [OF 1(3) 2(3)]
      by (intro exI [of _ "r # rs"] exI [of _ s']) simp
  qed (intro exI [of _ "[]"] exI, auto)
  have cs: "set (u_chan_foot U) \<subseteq> dom (g_chans s)" using foot_live [OF worldD(2) [OF w], of _ u] U by (auto simp: foot_def)
  have bd: "b \<in> dom (g_subs s)" using B by auto
  obtain rs s1 where 1: "forM (u_chan_foot U) (restor_channel E b) s = Some s1" "world s1" "posted s s1" "lowq s1 = lowq s"
    "\<And>d. highq s1 d = highq s d @ (if d = b then rs else [])" "length rs = length (u_chan_foot U)"
    using loop [OF w cs bd] by blast
  have u1: "u \<in> dom (g_users s1)" "b \<in> dom (g_subs s1)" using posted_frame(1,15) [OF 1(3)] U bd by auto
  obtain ju where ju: "get_json_object_user (Some u) s1 = Some ju" "json_container ju" by (rule user_json [OF worldD(1) [OF 1(2)] u1(1)])
  have jw: "json_wf (json_set_property_objN json_new_object (Some ''user'') 4 ju)" using ju(2) by (simp add: json_container_wf)
  obtain r s' where 2: "post_hi E ''IDENT'' (json_set_property_objN json_new_object (Some ''user'') 4 ju) b s1 = Some s'" "world s'"
    "posted s1 s'" "lowq s' = lowq s1" "\<And>d. highq s' d = highq s1 d @ (if d = b then [r] else [])"
    by (rule post_hi_spec [OF q 1(2) jw u1(2)]) (rule that; assumption)
  have "subuser_restor E b s = Some s'" using B U 1(1) ju(1) 2(1) by (simp add: subuser_restor_def)
  then show thesis
    by (rule that [of s' "rs @ [r]"]) (use 1 2 U posted_trans [OF 1(3) 2(3)] in \<open>simp_all add: foot_def\<close>)
qed

section \<open>Delivery to a public address\<close>

lemma get_pipe_spec:
  assumes "base s"
  obtains p P where "get_pipe k s = Some (Some p)" "g_pipes s p = Some P" "strcaseeq k (p_pubid P)" "length k = 32"
  | "get_pipe k s = Some None" "\<And>p P. g_pipes s p = Some P \<Longrightarrow> \<not> strcaseeq k (p_pubid P)"
proof -
  note i = baseD(3) [OF assms]
  have len: "length k = 32" if "g_pipes s p = Some P" "strcaseeq k (p_pubid P)" for p P
    using baseD(16) [OF assms that(1)] that(2) by (metis pipe_ok_def strcaseeq_def length_map)
  show thesis
  proof (cases "length k = 32")
    case False
    then show thesis using len by (intro that(2)) (auto simp: get_pipe_def)
  next
    case True
    show thesis
    proof (rule indexes_seek [OF i, of k])
      fix p P assume "hashtbl_seek (g_hPubid s) (Some k) = Some (Some p)" "g_pipes s p = Some P" "strcaseeq k (p_pubid P)"
      then show thesis using True by (intro that(1)) (simp_all add: get_pipe_def)
    next
      assume n: "hashtbl_seek (g_hPubid s) (Some k) = Some None"
      then show thesis using True indexes_hit [OF i] by (intro that(2)) (fastforce simp: get_pipe_def)+
    qed
  qed
qed

end
