(* ===== verification/Ape_Deliver.thy ===== *)
theory Ape_Deliver
  imports Ape_Session Ape_Sample
begin

text \<open>
  Delivery of a message to a public address (\<open>post_to_pipe\<close> of \<open>src/raw.c\<close>) and of a reply on the spot
  (\<open>send_raw_inline\<close>): who receives what.
\<close>

section \<open>To an address\<close>

lemma pipe_json:
  assumes "base s" and "g_pipes s p = Some P"
  obtains j where "get_json_object_pipe p s = Some (Some j)" "json_container j"
proof (cases "p_type P")
  case USER_PIPE
  have "p_pipe P \<in> dom (g_users s)" using baseD(8) [OF assms(1), of "p_pipe P" p] assms(2) USER_PIPE by (auto simp: target_def)
  then obtain j where "get_json_object_user (Some (p_pipe P)) s = Some j" "json_container j" by (rule user_json [OF assms(1)])
  then show thesis using USER_PIPE assms(2) by (intro that) (simp_all add: get_json_object_pipe_def)
next
  case CHANNEL_PIPE
  have "p_pipe P \<in> dom (g_chans s)" using baseD(9) [OF assms(1), of "p_pipe P" p] assms(2) CHANNEL_PIPE by (auto simp: target_def)
  then obtain j where "get_json_object_channel (p_pipe P) s = Some j" "json_container j" by (rule channel_json [OF assms(1)])
  then show thesis using CHANNEL_PIPE assms(2) by (intro that) (simp_all add: get_json_object_pipe_def)
next
  case CUSTOM_PIPE
  have "extend_inv (p_properties P)" using baseD(16) [OF assms] by (simp add: pipe_ok_def)
  then have "json_wf (public_props (p_properties P) json_new_object)"
    by (intro json_container_wf public_props_container) simp_all
  then show thesis using that CUSTOM_PIPE assms(2) by (simp add: get_json_object_pipe_def get_json_object_pipe_custom_def Let_def)
next
  case PROXY_PIPE
  then show thesis using baseD(16) [OF assms] by (simp add: pipe_ok_def)
qed

text \<open>What is assumed of the function a plugin stores in a pipe of its own: it returns, and it leaves the
  shared state consistent and the users and connections in place.\<close>

definition polite :: "env \<Rightarrow> bool" where
  "polite E \<longleftrightarrow> (\<forall>f p v j s. world s \<longrightarrow> (\<exists>s'. e_on_send E f p v j s = Some s' \<and> world s' \<and> people s s'))"

text \<open>The users a message from \<open>u\<close> to the pipe \<open>p\<close> is for.\<close>

definition recipients :: "acetables \<Rightarrow> nat \<Rightarrow> nat \<Rightarrow> nat set" where
  "recipients s u p =
     (case target s p of
        Some (USER_PIPE, v) \<Rightarrow> {v}
      | Some (CHANNEL_PIPE, c) \<Rightarrow> set (members s c) - {u}
      | _ \<Rightarrow> {})"

lemma recipients_posted: "posted s s' \<Longrightarrow> recipients s' u p = recipients s u p"
  using posted_sub(4,6) [of s s'] by (auto simp: recipients_def split: option.split pipe_type.split)

text \<open>The copy for the sender's other connections.\<close>

lemma echo_spec:
  assumes q: "quiet E" and w: "world s" and u: "u \<in> dom (g_users s)" and j: "json_wf j"
  obtains r s1 s' where "forge_raw n j s = Some (r, s1)" "post_raw_restricted E r u (Some b) s1 = Some s'" "world s'" "posted s s'"
    "\<And>c. lowq s' c = lowq s c @ (if owner s c = Some u \<and> c \<noteq> b then [r] else [])" "highq s' = highq s"
proof -
  note B = worldD(1) [OF w]
  obtain U where U: "g_users s u = Some U" using u by auto
  obtain r s1 x where f: "forge_raw n j s = Some (r, s1)" "msg_inv s1" "posted s s1" "shared s1 r" "g_subs s1 = g_subs s" "\<not> raw_hi s1 r"
    by (rule forge_raw_spec [OF baseD(1) [OF B] j]) (rule that; assumption)
  let ?bs = "filter (\<lambda>t. b \<noteq> t) (u_subuser U)"
  have U1: "g_users s1 u = Some U" using posted_frame(1) [OF f(3)] U by simp
  have bs: "set ?bs \<subseteq> dom (g_subs s1)" using subs_live [OF B, of _ u] U f(5) by (auto simp: subs_of_def)
  obtain s' where p: "forM ?bs (post_copy_z E r) s1 = Some s'" "msg_inv s'" "posted s1 s'"
    "\<And>c. lowq s' c = lowq s1 c @ (if raw_hi s1 r then [] else replicate (count_list ?bs c) r)"
    "\<And>c. highq s' c = highq s1 c @ (if raw_hi s1 r then replicate (count_list ?bs c) r else [])"
    by (rule post_copies_spec [OF q f(2,4) bs]) (rule that; assumption)
  have "post_raw_restricted E r u (Some b) s1 = Some s'"
    using U1 p(1) forM_filter [of "u_subuser U" "\<lambda>t. b \<noteq> t" "post_copy_z E r" s1] by (simp add: post_raw_restricted_def)
  moreover have ps: "posted s s'" by (rule posted_trans [OF f(3) p(3)])
  moreover have "world s'" by (rule world_posted [OF w ps p(2)])
  moreover have "lowq s' c = lowq s c @ (if owner s c = Some u \<and> c \<noteq> b then [r] else [])" for c
  proof -
    have "distinct ?bs" using baseD(5) [OF B, of u] U by (simp add: subs_of_def)
    moreover have "c \<in> set ?bs \<longleftrightarrow> owner s c = Some u \<and> c \<noteq> b" using baseD(7) [OF B, of c u] U by (auto simp: subs_of_def)
    ultimately show ?thesis using p(4) [of c] f(6) lowq_cong(1) [OF f(5)] count_distinct [of ?bs c] by simp
  qed
  moreover have "highq s' = highq s" using p(5) f(6) lowq_cong(2) [OF f(5)] by (simp add: fun_eq_iff)
  ultimately show thesis using f(1) that by blast
qed

lemma post_to_pipe_refused:
  assumes q: "quiet E" and w: "world s" and u: "owner s from = Some u" and r: "get_pipe_strict k (Some u) s = Some None"
  obtains m s' where "post_to_pipe E j n k from s = Some (False, s')" "world s'" "posted s s'"
    "\<And>b. lowq s' b = lowq s b @ (if owner s b = Some u then [m] else [])" "highq s' = highq s"
proof -
  obtain B where B: "g_subs s from = Some B" "sub_user B = Some u" using u by (auto simp: owner_def bind_eq_Some_conv)
  obtain s' m where e: "send_error E u ''UNKNOWN_PIPE'' ''109'' s = Some s'" "world s'" "posted s s'"
    "\<And>b. lowq s' b = lowq s b @ (if owner s b = Some u then [m] else [])" "highq s' = highq s"
    by (rule send_error_spec [OF q w owner_user [OF worldD(1) [OF w] u]]) (rule that; assumption)
  have "post_to_pipe E j n k from s = Some (False, s')" using B r e(1) by (simp add: post_to_pipe_def)
  then show thesis using e(2-5) by (rule that)
qed

lemma echo_step:
  assumes q: "quiet E" and w: "world s" and u: "owner s from = Some u" and j: "json_container j" and P: "g_pipes s p = Some P"
  obtains m s' where "echo_sender E j n p u from s = Some s'" "world s'" "posted s s'"
    "\<And>c. lowq s' c = lowq s c @ (if owner s c = Some u \<and> c \<noteq> from then [m] else [])" "highq s' = highq s"
proof -
  note B = worldD(1) [OF w]
  have ud: "u \<in> dom (g_users s)" by (rule owner_user [OF B u])
  then obtain U where U: "g_users s u = Some U" by auto
  have n: "u_nsub U = int (length (subs_of s u))" using baseD(12) [OF B U] U by (simp add: user_ok_def subs_of_def)
  show thesis
  proof (cases "1 < u_nsub U")
    case False
    have "c = from" if "owner s c = Some u" for c
    proof -
      have "c \<in> set (subs_of s u)" "from \<in> set (subs_of s u)" using baseD(7) [OF B] that u by simp_all
      moreover have "length (subs_of s u) \<le> 1" using False n by simp
      ultimately show ?thesis by (cases "subs_of s u") auto
    qed
    then show thesis using False U w by (intro that [of s]) (auto simp: echo_sender_def)
  next
    case True
    obtain jp where jp: "get_json_object_pipe p s = Some (Some jp)" "json_container jp" by (rule pipe_json [OF B P])
    have "json_container (json_item_copy j)" using j json_item_copy_wf [of j] by (cases j) (simp add: json_container_def)
    then have jw: "json_wf (json_set_property_objN (json_item_copy j) (Some ''pipe'') 4 jp)" using jp(2) by (simp add: json_container_wf)
    obtain m s1 s' where 1: "forge_raw n (json_set_property_objN (json_item_copy j) (Some ''pipe'') 4 jp) s = Some (m, s1)"
      "post_raw_restricted E m u (Some from) s1 = Some s'" "world s'" "posted s s'"
      "\<And>c. lowq s' c = lowq s c @ (if owner s c = Some u \<and> c \<noteq> from then [m] else [])" "highq s' = highq s"
      by (rule echo_spec [OF q w ud jw]) (rule that; assumption)
    show thesis by (rule that [OF _ 1(3-6)]) (use U True jp(1) 1(1,2) in \<open>simp add: echo_sender_def\<close>)
  qed
qed

text \<open>The message itself.\<close>

lemma pipe_step:
  assumes q: "quiet E" and po: "polite E" and w: "world s" and u: "u \<in> dom (g_users s)" and j: "json_container j"
    and P: "g_pipes s p = Some P" and on: "p_type P = CHANNEL_PIPE \<Longrightarrow> u \<in> set (members s (p_pipe P))"
  obtains m s' where "send_to_pipe E j n p (Some u) s = Some s'" "world s'" "people s s'"
    "p_type P \<noteq> CUSTOM_PIPE \<Longrightarrow> posted s s'"
    "\<And>c. p_type P \<noteq> CUSTOM_PIPE \<Longrightarrow> lowq s' c = lowq s c @ (if owner s c \<in> Some ` recipients s u p then [m] else [])"
    "p_type P \<noteq> CUSTOM_PIPE \<Longrightarrow> highq s' = highq s"
proof (cases "p_type P")
  case USER_PIPE
  note B = worldD(1) [OF w]
  obtain ju where ju: "get_json_object_user (Some u) s = Some ju" "json_container ju" by (rule user_json [OF B u])
  have jw: "json_wf (json_set_property_objN j (Some ''pipe'') 4 ju)" using j ju(2) by (simp add: json_container_wf)
  have v: "p_pipe P \<in> dom (g_users s)" using baseD(8) [OF B, of "p_pipe P" p] P USER_PIPE by (auto simp: target_def)
  have rc: "recipients s u p = {p_pipe P}" using P USER_PIPE by (simp add: recipients_def target_def)
  obtain m s1 s' where 1: "forge_raw n (json_set_property_objN j (Some ''pipe'') 4 ju) s = Some (m, s1)" "post_raw E m (p_pipe P) s1 = Some s'"
    "posted s s'" "base s'" "\<And>b. lowq s' b = lowq s b @ (if owner s b = Some (p_pipe P) then [m] else [])" "highq s' = highq s"
    by (rule announce_user [OF q B jw v]) (rule that; assumption)
  have "world s'" using 1(4) linked_posted [OF worldD(2) [OF w] 1(3)] by (simp add: world_def)
  then show thesis
    by (rule that [of s' m, rotated]) (use P USER_PIPE ju(1) 1 rc people_posted [OF 1(3)] in \<open>simp_all add: send_to_pipe_def\<close>)
next
  case CHANNEL_PIPE
  note B = worldD(1) [OF w]
  let ?c = "p_pipe P"
  have cd: "?c \<in> dom (g_chans s)" using baseD(9) [OF B, of ?c p] P CHANNEL_PIPE by (auto simp: target_def)
  then obtain C where C: "g_chans s ?c = Some C" by auto
  have len: "length (c_head C) = length (members s ?c)" using C by (simp add: members_def)
  have rc: "recipients s u p = set (members s ?c) - {u}" using P CHANNEL_PIPE by (simp add: recipients_def target_def)
  show thesis
  proof (cases "2 \<le> length (c_head C)")
    case False
    have "set (members s ?c) - {u} = {}"
      using on [OF CHANNEL_PIPE] False unfolding len by (cases "members s ?c") (auto simp: not_le Suc_le_eq)
    then have "recipients s u p = {}" unfolding rc .
    then show thesis using P CHANNEL_PIPE False C w by (intro that [of s]) (simp_all add: send_to_pipe_def)
  next
    case True
    obtain jc where jc: "get_json_object_channel ?c s = Some jc" "json_container jc" by (rule channel_json [OF B cd])
    have jw: "json_wf (json_set_property_objN j (Some ''pipe'') 4 jc)" using j jc(2) by (simp add: json_container_wf)
    let ?us = "filter (\<lambda>v. Some v \<noteq> Some u) (members s ?c)"
    have us: "set ?us \<subseteq> dom (g_users s)" "distinct ?us" using members_live [OF worldD(2) [OF w]] linkedD(2) [OF worldD(2) [OF w]] by auto
    obtain m s1 s' where 1: "forge_raw n (json_set_property_objN j (Some ''pipe'') 4 jc) s = Some (m, s1)" "posted s s1"
      "forM ?us (post_raw E m) s1 = Some s'" "posted s s'" "base s'"
      "\<And>b. lowq s' b = lowq s b @ (if owner s b \<in> Some ` set ?us then [m] else [])" "highq s' = highq s"
      by (rule announce [OF q B jw us]) (rule that; assumption)
    have cd1: "?c \<in> dom (g_chans s1)" using posted_frame(2) [OF 1(2)] cd by simp
    have pr: "post_raw_channel_restricted E m ?c (Some u) s1 = Some s'"
      using post_raw_channel_restricted_eq [OF cd1, of E m "Some u"] posted_sub(6) [OF 1(2)] 1(3) by simp
    have rs: "set ?us = recipients s u p" using rc by auto
    have "world s'" using 1(5) linked_posted [OF worldD(2) [OF w] 1(4)] by (simp add: world_def)
    then show thesis
      by (rule that [of s' m, rotated]) (use P CHANNEL_PIPE C True jc(1) 1(1,4,6,7) pr rs people_posted [OF 1(4)] in \<open>simp_all add: send_to_pipe_def\<close>)
  qed
next
  case CUSTOM_PIPE
  obtain ju where ju: "get_json_object_user (Some u) s = Some ju" by (rule user_json [OF worldD(1) [OF w] u])
  let ?j = "json_set_property_objN j (Some ''pipe'') 4 ju"
  have "\<exists>s'. post_json_custom E ?j (Some u) p s = Some s' \<and> world s' \<and> people s s'"
    using po w P unfolding polite_def by (cases "p_on_send P") (simp_all add: post_json_custom_def)
  then obtain s' where "post_json_custom E ?j (Some u) p s = Some s'" "world s'" "people s s'" by blast
  then show thesis using P CUSTOM_PIPE ju by (intro that [of s']) (simp_all add: send_to_pipe_def)
next
  case PROXY_PIPE
  then show thesis using baseD(16) [OF worldD(1) [OF w] P] by (simp add: pipe_ok_def)
qed

lemma post_to_pipe_delivered:
  assumes q: "quiet E" and po: "polite E" and w: "world s" and u: "owner s from = Some u" and j: "json_container j"
    and r: "get_pipe_strict k (Some u) s = Some (Some p)"
  obtains m1 m2 s' where "post_to_pipe E j n k from s = Some (True, s')" "world s'" "people s s'"
    "\<And>b. map_option fst (target s p) \<noteq> Some CUSTOM_PIPE \<Longrightarrow> lowq s' b = lowq s b @ (if owner s b = Some u \<and> b \<noteq> from then [m1] else []) @
       (if owner s b \<in> Some ` recipients s u p then [m2] else [])"
proof -
  obtain B where B: "g_subs s from = Some B" "sub_user B = Some u" using u by (auto simp: owner_def bind_eq_Some_conv)
  have ud: "u \<in> dom (g_users s)" by (rule owner_user [OF worldD(1) [OF w] u])
  obtain P where P: "g_pipes s p = Some P" and on: "p_type P = CHANNEL_PIPE \<Longrightarrow> isonchannel (Some u) (Some (p_pipe P)) s = Some True"
    using r by (auto simp: get_pipe_strict_def bind_eq_Some_conv split: option.splits if_splits)
  have mem: "u \<in> set (members s (p_pipe P))" if "p_type P = CHANNEL_PIPE"
    using on [OF that] ud linkedD(3) [OF worldD(2) [OF w], of "p_pipe P" u] by (auto simp: isonchannel_def foot_def)
  obtain ju where ju: "get_json_object_user (Some u) s = Some ju" "json_container ju" by (rule user_json [OF worldD(1) [OF w] ud])
  have jc: "json_container (json_set_property_objN j (Some ''from'') 4 ju)" using j ju(2) by (simp add: json_container_wf)
  let ?j = "json_set_property_objN j (Some ''from'') 4 ju"
  obtain m1 s1 where 1: "echo_sender E ?j n p u from s = Some s1" "world s1" "posted s s1"
    "\<And>c. lowq s1 c = lowq s c @ (if owner s c = Some u \<and> c \<noteq> from then [m1] else [])" "highq s1 = highq s"
    by (rule echo_step [OF q w u jc P]) (rule that; assumption)
  have f1: "g_pipes s1 p = Some P" "u \<in> dom (g_users s1)" using posted_frame(1,3) [OF 1(3)] P ud by auto
  have m1: "u \<in> set (members s1 (p_pipe P))" if "p_type P = CHANNEL_PIPE" using mem [OF that] posted_sub(6) [OF 1(3)] by simp
  obtain m2 s' where 2: "send_to_pipe E ?j n p (Some u) s1 = Some s'" "world s'" "people s1 s'"
    "\<And>c. p_type P \<noteq> CUSTOM_PIPE \<Longrightarrow> lowq s' c = lowq s1 c @ (if owner s1 c \<in> Some ` recipients s1 u p then [m2] else [])"
    by (rule pipe_step [OF q po 1(2) f1(2) jc f1(1)], erule m1) (rule that; assumption)
  have "post_to_pipe E j n k from s = Some (True, s')" using B r ju(1) 1(1) 2(1) by (simp add: post_to_pipe_def Let_def)
  moreover have "people s s'" by (rule people_trans [OF people_posted [OF 1(3)] 2(3)])
  moreover have "lowq s' b = lowq s b @ (if owner s b = Some u \<and> b \<noteq> from then [m1] else []) @
       (if owner s b \<in> Some ` recipients s u p then [m2] else [])" if "map_option fst (target s p) \<noteq> Some CUSTOM_PIPE" for b
    using 2(4) [of b] 1(4) [of b] that P posted_sub(1) [OF 1(3)] recipients_posted [OF 1(3)] by (simp add: target_def)
  ultimately show thesis using 2(2) by (intro that [of s' m1 m2])
qed

end
