(* ===== verification/Ape_Cmd.thy ===== *)
theory Ape_Cmd
  imports Ape_Users
begin

text \<open>
  The command layer, from \<open>src/cmd.c\<close>: the table of commands and their hooks, the eight built-in
  commands, \<open>process_cmd\<close> for one command and \<open>checkcmd\<close> for a request, and the request handlers of
  \<open>src/handle_http.c\<close> that call it once the request is parsed.

  Functions of plugins are numbers that the environment interprets, as are the callbacks stored in
  pipes; the built-in functions are constructors. The tables change when modules are loaded and are
  read by the functions below. A \<open>json_item *\<close> is a list, the chain of siblings that starts there.
\<close>

section \<open>Data\<close>

definition RETURN_LOGIN :: u32 where "RETURN_LOGIN = 0x01"
definition RETURN_NULL :: u32 where "RETURN_NULL = 0x04"
definition RETURN_UPDATE_IP :: u32 where "RETURN_UPDATE_IP = 0x08"
definition RETURN_NOTHING :: u32 where "RETURN_NOTHING = 0x10"
definition RETURN_BAD_PARAMS :: u32 where "RETURN_BAD_PARAMS = 0x20"
definition RETURN_CONTINUE :: u32 where "RETURN_CONTINUE = 0x40"
definition RETURN_BAD_CMD :: u32 where "RETURN_BAD_CMD = 0x80"
definition RETURN_HANG :: u32 where "RETURN_HANG = 0x100"

datatype need = NEED_NICK | NEED_SESSID | NEED_NOTHING

datatype connect_op = CONNECT_SHUTDOWN | CONNECT_KEEPALIVE

datatype cmd_func =
    Cmd_connect | Cmd_script | Cmd_check | Cmd_send | Cmd_quit | Cmd_join | Cmd_left | Cmd_session
  | Handle_bad_cmd | Plugin_cmd nat

record callback =
  cb_func :: cmd_func
  cb_need :: need

record callback_hook =
  hook_cmd :: string
  hook_data :: "nat option"
  hook_func :: nat

record callbackp =
  cp_client :: nat
  cp_param :: "json_item list"
  cp_hlines :: "(string \<times> string) list"
  cp_call_user :: "nat option"
  cp_ip :: string
  cp_host :: string
  cp_cmd :: string
  cp_data :: "nat option"
  cp_call_subuser :: "nat option"
  cp_transport :: transport_t
  cp_chl :: int

record cmd_process =
  pc_hlines :: "(string \<times> string) list"
  pc_guser :: "nat option"
  pc_sub :: "nat option"
  pc_client :: nat
  pc_host :: string
  pc_ip :: string
  pc_transport :: transport_t

record cmdtables =
  hCallback :: "callback HTBL"
  bad_cmd_callbacks :: "callback_hook list"
  cmd_hook :: "callback_hook list"

text \<open>\<open>x_domain\<close> is the value of \<open>Server\<close>/\<open>domain\<close> in the configuration.\<close>

record cmdenv =
  x_env :: env
  x_plugin :: "nat \<Rightarrow> callbackp \<Rightarrow> acetables \<Rightarrow> (u32 \<times> callbackp \<times> acetables) option"
  x_domain :: "string option"
  x_tab :: cmdtables

definition cmd_init :: cmdtables where
  "cmd_init = \<lparr>hCallback = hashtbl_init, bad_cmd_callbacks = [], cmd_hook = []\<rparr>"

section \<open>Registration\<close>

definition register_cmd :: "string \<Rightarrow> cmd_func \<Rightarrow> need \<Rightarrow> cmdtables \<Rightarrow> cmdtables option" where
  "register_cmd cmd func need T = do {
     old_cmd \<leftarrow> hashtbl_seek (hCallback T) (Some cmd);
     h \<leftarrow> (if old_cmd \<noteq> None then hashtbl_erase (hCallback T) (Some cmd) else Some (hCallback T));
     h \<leftarrow> hashtbl_append h (Some cmd) \<lparr>cb_func = func, cb_need = need\<rparr>;
     Some (T\<lparr>hCallback := h\<rparr>) }"

definition unregister_cmd :: "string \<Rightarrow> cmdtables \<Rightarrow> cmdtables option" where
  "unregister_cmd cmd T = map_option (\<lambda>h. T\<lparr>hCallback := h\<rparr>) (hashtbl_erase (hCallback T) (Some cmd))"

text \<open>\<open>cmd\<close> is not assigned in the entries of this list.\<close>

definition register_bad_cmd :: "nat \<Rightarrow> nat option \<Rightarrow> cmdtables \<Rightarrow> cmdtables" where
  "register_bad_cmd func data T =
     T\<lparr>bad_cmd_callbacks := \<lparr>hook_cmd = [], hook_data = data, hook_func = func\<rparr> # bad_cmd_callbacks T\<rparr>"

definition register_hook_cmd :: "string \<Rightarrow> nat \<Rightarrow> nat option \<Rightarrow> cmdtables \<Rightarrow> (bool \<times> cmdtables) option" where
  "register_hook_cmd cmd func data T = do {
     cb \<leftarrow> hashtbl_seek (hCallback T) (Some cmd);
     Some (if cb = None then (False, T)
           else (True, T\<lparr>cmd_hook := cmd_hook T @ [\<lparr>hook_cmd = cmd, hook_data = data, hook_func = func\<rparr>]\<rparr>)) }"

definition do_register :: "cmdtables \<Rightarrow> cmdtables option" where
  "do_register T = do {
     T \<leftarrow> register_cmd ''CONNECT'' Cmd_connect NEED_NOTHING T;
     T \<leftarrow> register_cmd ''SCRIPT'' Cmd_script NEED_NOTHING T;
     T \<leftarrow> register_cmd ''CHECK'' Cmd_check NEED_SESSID T;
     T \<leftarrow> register_cmd ''SEND'' Cmd_send NEED_SESSID T;
     T \<leftarrow> register_cmd ''QUIT'' Cmd_quit NEED_SESSID T;
     T \<leftarrow> register_cmd ''JOIN'' Cmd_join NEED_SESSID T;
     T \<leftarrow> register_cmd ''LEFT'' Cmd_left NEED_SESSID T;
     register_cmd ''SESSION'' Cmd_session NEED_SESSID T }"

section \<open>Hooks\<close>

fun call_hooks ::
  "cmdenv \<Rightarrow> callback_hook list \<Rightarrow> callbackp \<Rightarrow> acetables \<Rightarrow> (u32 \<times> callbackp \<times> acetables) option" where
  "call_hooks X [] cp s = Some (RETURN_CONTINUE, cp\<lparr>cp_data := None\<rparr>, s)"
| "call_hooks X (hook # rest) cp s =
     (let cp = cp\<lparr>cp_data := hook_data hook\<rparr> in
      if strcaseeq (hook_cmd hook) (cp_cmd cp) then do {
        (ret, cp, s) \<leftarrow> x_plugin X (hook_func hook) cp s;
        if ret \<noteq> RETURN_CONTINUE then Some (ret, cp, s) else call_hooks X rest cp s }
      else call_hooks X rest cp s)"

definition call_cmd_hook :: "cmdenv \<Rightarrow> callbackp \<Rightarrow> acetables \<Rightarrow> (u32 \<times> callbackp \<times> acetables) option" where
  "call_cmd_hook X cp s = call_hooks X (cmd_hook (x_tab X)) cp s"

fun call_bad_hooks ::
  "cmdenv \<Rightarrow> callback_hook list \<Rightarrow> callbackp \<Rightarrow> acetables \<Rightarrow> (u32 \<times> callbackp \<times> acetables) option" where
  "call_bad_hooks X [] cp s = Some (RETURN_BAD_CMD, cp\<lparr>cp_data := None\<rparr>, s)"
| "call_bad_hooks X (hook # rest) cp s = do {
     (flagret, cp, s) \<leftarrow> x_plugin X (hook_func hook) (cp\<lparr>cp_data := hook_data hook\<rparr>) s;
     if flagret \<noteq> RETURN_BAD_CMD then Some (flagret, cp, s) else call_bad_hooks X rest cp s }"

definition handle_bad_cmd :: "cmdenv \<Rightarrow> callbackp \<Rightarrow> acetables \<Rightarrow> (u32 \<times> callbackp \<times> acetables) option" where
  "handle_bad_cmd X cp s = call_bad_hooks X (bad_cmd_callbacks (x_tab X)) cp s"

section \<open>Parameters\<close>

text \<open>The macros of \<open>src/json.h\<close>: the string under a key, the strings of a chain, and its strings with
  their keys.\<close>

definition JSTR :: "string \<Rightarrow> callbackp \<Rightarrow> string option" where
  "JSTR key cp = (case json_lookup (cp_param cp) key of [] \<Rightarrow> None | it # _ \<Rightarrow> jstr it)"

definition JFOREACH :: "string \<Rightarrow> callbackp \<Rightarrow> string list" where
  "JFOREACH fkey cp = List.map_filter jstr (json_lookup (cp_param cp) fkey)"

definition JFOREACH_K :: "string \<Rightarrow> callbackp \<Rightarrow> (string \<times> string) list" where
  "JFOREACH_K fkey cp =
     List.map_filter (\<lambda>it. case (jstr it, jkey it) of (Some v, Some k) \<Rightarrow> Some (k, v) | _ \<Rightarrow> None)
       (json_lookup (cp_param cp) fkey)"

section \<open>Commands\<close>

definition cmd_connect :: "cmdenv \<Rightarrow> callbackp \<Rightarrow> acetables \<Rightarrow> (u32 \<times> callbackp \<times> acetables) option" where
  "cmd_connect X cp s = do {
     call_user \<leftarrow> cp_call_user cp;
     (nuser, s) \<leftarrow> adduser (x_env X) None [] [] (Some call_user) s;
     let cp = cp\<lparr>cp_call_user := nuser\<rparr>;
     ju \<leftarrow> get_json_object_user nuser s;
     sub \<leftarrow> cp_call_subuser cp;
     s \<leftarrow> post_hi (x_env X) ''IDENT'' (json_set_property_objN json_new_object (Some ''user'') 4 ju) sub s;
     n \<leftarrow> nuser;
     u \<leftarrow> g_users s n;
     (newraw, s) \<leftarrow> forge_raw_hi RAW_LOGIN (json_set_property_strN json_new_object (Some ''sessid'') 6 (u_sessid u) 32) s;
     s \<leftarrow> post_raw (x_env X) newraw n s;
     Some (RETURN_NOTHING, cp, s) }"

text \<open>The texts \<open>sendf\<close> formats.\<close>

definition script_head :: "string \<Rightarrow> string" where
  "script_head domain = HEADER_DEFAULT @ ''<html>'' @ [CHR 0x0A] @ ''<head>'' @ [CHR 0x0A, CHR 0x09] @ ''<script>'' @
     [CHR 0x0A, CHR 0x09, CHR 0x09] @ ''document.domain='' @ [CHR 0x22] @ domain @ [CHR 0x22, CHR 0x0A, CHR 0x09] @
     ''</script>'' @ [CHR 0x0A]"

definition script_line :: "string \<Rightarrow> string" where
  "script_line script = [CHR 0x09] @ ''<script type='' @ [CHR 0x22] @ ''text/javascript'' @ [CHR 0x22] @ '' src='' @
     [CHR 0x22] @ script @ [CHR 0x22] @ ''></script>'' @ [CHR 0x0A]"

definition script_foot :: string where
  "script_foot = ''</head>'' @ [CHR 0x0A] @ ''<body>'' @ [CHR 0x0A] @ ''</body>'' @ [CHR 0x0A] @ ''</html>''"

text \<open>Without a configured domain the error goes to the calling user, whom this command does not need.\<close>

definition cmd_script :: "cmdenv \<Rightarrow> callbackp \<Rightarrow> acetables \<Rightarrow> (u32 \<times> callbackp \<times> acetables) option" where
  "cmd_script X cp s =
     (case x_domain X of
        None \<Rightarrow> do {
          u \<leftarrow> cp_call_user cp;
          s \<leftarrow> send_error (x_env X) u ''NO_DOMAIN'' ''201'' s;
          Some (RETURN_NOTHING, cp, s) }
      | Some domain \<Rightarrow> do {
          let domain = (if domain = ''auto'' then (case JSTR ''domain'' cp of None \<Rightarrow> domain | Some autodom \<Rightarrow> autodom)
                        else domain);
          k \<leftarrow> g_co s (cp_client cp);
          (_, s) \<leftarrow> send_chunks (x_env X) (s_fd k)
            (script_head domain # map script_line (JFOREACH ''scripts'' cp) @ [cbytes script_foot 30]) s;
          Some (RETURN_NOTHING, cp, s) })"

definition join_one :: "env \<Rightarrow> nat \<Rightarrow> string \<Rightarrow> acetables \<Rightarrow> acetables option" where
  "join_one E user chan_name s = do {
     jchan \<leftarrow> getchan chan_name s;
     case jchan of
       None \<Rightarrow> do {
         (jchan, s) \<leftarrow> mkchan E chan_name CHANNEL_AUTODESTROY s;
         case jchan of
           None \<Rightarrow> send_error E user ''CANT_JOIN_CHANNEL'' ''202'' s
         | Some c \<Rightarrow> join E user c s }
     | Some c \<Rightarrow> do {
         on \<leftarrow> isonchannel (Some user) (Some c) s;
         if on then send_error E user ''ALREADY_ON_CHANNEL'' ''100'' s
         else do {
           u \<leftarrow> g_users s user;
           (blist, s) \<leftarrow> getban c (u_ip u) s;
           case blist of
             Some b \<Rightarrow> do {
               let jlist = json_set_property_strZ json_new_object (Some ''reason'') (ban_reason b);
               let jlist = json_set_property_strZ jlist (Some ''error'') ''YOU_ARE_BANNED'';
               (newraw, s) \<leftarrow> forge_raw RAW_ERR jlist s;
               post_raw E newraw user s }
           | None \<Rightarrow> join E user c s } } }"

definition cmd_join :: "cmdenv \<Rightarrow> callbackp \<Rightarrow> acetables \<Rightarrow> (u32 \<times> callbackp \<times> acetables) option" where
  "cmd_join X cp s =
     (if JFOREACH ''channels'' cp = [] then Some (RETURN_BAD_PARAMS, cp, s)
      else do {
        user \<leftarrow> cp_call_user cp;
        s \<leftarrow> forM (JFOREACH ''channels'' cp) (join_one (x_env X) user) s;
        Some (RETURN_NOTHING, cp, s) })"

definition cmd_check :: "cmdenv \<Rightarrow> callbackp \<Rightarrow> acetables \<Rightarrow> (u32 \<times> callbackp \<times> acetables) option" where
  "cmd_check X cp s = Some (RETURN_NOTHING, cp, s)"

definition cmd_send :: "cmdenv \<Rightarrow> callbackp \<Rightarrow> acetables \<Rightarrow> (u32 \<times> callbackp \<times> acetables) option" where
  "cmd_send X cp s =
     (case (JSTR ''msg'' cp, JSTR ''pipe'' cp) of
        (Some msg, Some pipe) \<Rightarrow> do {
          sub \<leftarrow> cp_call_subuser cp;
          (_, s) \<leftarrow> post_to_pipe (x_env X) (json_set_property_strZ json_new_object (Some ''msg'') msg) RAW_DATA pipe sub s;
          Some (RETURN_NOTHING, cp, s) }
      | _ \<Rightarrow> Some (RETURN_BAD_PARAMS, cp, s))"

definition cmd_quit :: "cmdenv \<Rightarrow> callbackp \<Rightarrow> acetables \<Rightarrow> (u32 \<times> callbackp \<times> acetables) option" where
  "cmd_quit X cp s = do {
     (newraw, s) \<leftarrow> forge_raw ''QUIT'' (json_set_property_strZ json_new_object (Some ''value'') ''null'') s;
     (_, s) \<leftarrow> send_raw_inline (x_env X) (cp_client cp) (cp_transport cp) newraw s;
     s \<leftarrow> deluser (x_env X) (cp_call_user cp) s;
     Some (RETURN_NULL, cp, s) }"

definition cmd_left :: "cmdenv \<Rightarrow> callbackp \<Rightarrow> acetables \<Rightarrow> (u32 \<times> callbackp \<times> acetables) option" where
  "cmd_left X cp s =
     (case JSTR ''channel'' cp of
        None \<Rightarrow> Some (RETURN_BAD_PARAMS, cp, s)
      | Some chan_name \<Rightarrow> do {
          user \<leftarrow> cp_call_user cp;
          chan \<leftarrow> getchan chan_name s;
          on \<leftarrow> isonchannel (Some user) chan s;
          s \<leftarrow> (case chan of
                 None \<Rightarrow> send_error (x_env X) user ''UNKNOWN_CHANNEL'' ''103'' s
               | Some c \<Rightarrow> if \<not> on then send_error (x_env X) user ''NOT_IN_CHANNEL'' ''104'' s
                           else left (x_env X) user c s);
          Some (RETURN_NOTHING, cp, s) })"

definition session_set :: "env \<Rightarrow> nat \<Rightarrow> string \<times> string \<Rightarrow> acetables \<Rightarrow> acetables option" where
  "session_set E user kv s = do {
     (r, s) \<leftarrow> set_session E user (fst kv) (snd kv) False s;
     if r = None then send_error E user ''SESSION_ERROR'' ''203'' s else Some s }"

fun session_get :: "nat \<Rightarrow> string list \<Rightarrow> json_item \<Rightarrow> acetables \<Rightarrow> json_item option" where
  "session_get user [] jobj s = Some jobj"
| "session_get user (val # vals) jobj s = do {
     sTmp \<leftarrow> get_session user val s;
     session_get user vals (json_set_property_strZ jobj (Some val)
       (case sTmp of None \<Rightarrow> ''null'' | Some x \<Rightarrow> ses_val x)) s }"

definition cmd_session :: "cmdenv \<Rightarrow> callbackp \<Rightarrow> acetables \<Rightarrow> (u32 \<times> callbackp \<times> acetables) option" where
  "cmd_session X cp s =
     (case JSTR ''action'' cp of
        None \<Rightarrow> Some (RETURN_BAD_PARAMS, cp, s)
      | Some action \<Rightarrow>
          if strcaseeq action ''set'' then
            (if JFOREACH_K ''values'' cp = [] then Some (RETURN_BAD_PARAMS, cp, s)
             else do {
               user \<leftarrow> cp_call_user cp;
               s \<leftarrow> forM (JFOREACH_K ''values'' cp) (session_set (x_env X) user) s;
               Some (RETURN_NOTHING, cp, s) })
          else if strcaseeq action ''get'' then
            (if JFOREACH ''values'' cp = [] then Some (RETURN_BAD_PARAMS, cp, s)
             else do {
               user \<leftarrow> cp_call_user cp;
               jobj \<leftarrow> session_get user (JFOREACH ''values'' cp) json_new_object s;
               let jlist = json_set_property_objN json_new_object (Some ''sessions'') 8 jobj;
               (newraw, s) \<leftarrow> forge_raw ''SESSIONS'' (json_set_property_intN jlist (Some ''chl'') 3 (cp_chl cp)) s;
               sub \<leftarrow> cp_call_subuser cp;
               s \<leftarrow> post_raw_sub (x_env X) newraw sub s;
               Some (RETURN_NOTHING, cp, s) })
          else Some (RETURN_BAD_PARAMS, cp, s))"

fun run_cmd :: "cmdenv \<Rightarrow> cmd_func \<Rightarrow> callbackp \<Rightarrow> acetables \<Rightarrow> (u32 \<times> callbackp \<times> acetables) option" where
  "run_cmd X Cmd_connect = cmd_connect X"
| "run_cmd X Cmd_script = cmd_script X"
| "run_cmd X Cmd_check = cmd_check X"
| "run_cmd X Cmd_send = cmd_send X"
| "run_cmd X Cmd_quit = cmd_quit X"
| "run_cmd X Cmd_join = cmd_join X"
| "run_cmd X Cmd_left = cmd_left X"
| "run_cmd X Cmd_session = cmd_session X"
| "run_cmd X Handle_bad_cmd = handle_bad_cmd X"
| "run_cmd X (Plugin_cmd f) = x_plugin X f"

section \<open>One command\<close>

definition err_obj :: "int \<Rightarrow> string \<Rightarrow> string \<Rightarrow> json_item" where
  "err_obj chl code val =
     json_set_property_strZ (json_set_property_strZ
       (if chl \<noteq> 0 then json_set_property_intN json_new_object (Some ''chl'') 3 chl else json_new_object)
       (Some ''code'') code) (Some ''value'') val"

definition inline_raw :: "env \<Rightarrow> nat \<Rightarrow> transport_t \<Rightarrow> string \<Rightarrow> json_item \<Rightarrow> acetables \<Rightarrow> acetables option" where
  "inline_raw E client transport rawname jlist s = do {
     (newraw, s) \<leftarrow> forge_raw rawname jlist s;
     (_, s) \<leftarrow> send_raw_inline E client transport newraw s;
     Some s }"

text \<open>A second connection of a user from the same host while the first one is open: one of the two is
  closed. The result is the connection that stays and whether it becomes attached.\<close>

definition takeover :: "env \<Rightarrow> cmd_process \<Rightarrow> nat \<Rightarrow> nat \<Rightarrow> acetables \<Rightarrow> (nat option \<times> bool \<times> acetables) option" where
  "takeover E pc user sub s = do {
     b \<leftarrow> g_subs s sub;
     client \<leftarrow> sub_client b;
     u \<leftarrow> g_users s user;
     let retval = transport_open_same_host (Some client) (Some (pc_client pc)) (u_transport u);
     s \<leftarrow> (case client_close retval of
             None \<Rightarrow> Some s
           | Some close \<Rightarrow> do {
               k \<leftarrow> g_co s close;
               kp \<leftarrow> g_co s (pc_client pc);
               s \<leftarrow> (if \<not> sub_sent b then
                       inline_raw E (if s_fd k = s_fd kp then pc_client pc else client) (pc_transport pc) ''CLOSE''
                         (json_set_property_strZ json_new_object (Some ''value'') ''null'') s
                     else Some s);
               s \<leftarrow> upd_sub sub (\<lambda>b. b\<lparr>sub_state := ADIED, sub_sent := False, sub_content := None, sub_burn_after_writing := False\<rparr>) s;
               s \<leftarrow> detach (s_fd k) s;
               Some (s\<lparr>g_sk := safe_shutdown (s_fd k) (g_sk s)\<rparr>) });
     s \<leftarrow> upd_sub sub (\<lambda>b. b\<lparr>sub_client := client_listener retval, sub_state := ret_substate retval\<rparr>) s;
     Some (client_listener retval, ret_attach retval, s) }"

text \<open>The subuser for a user identified by its session: the result is \<open>cp.client\<close> as set so far, the
  subuser and whether it becomes attached.\<close>

definition pick_sub ::
  "env \<Rightarrow> cmd_process \<Rightarrow> nat \<Rightarrow> acetables \<Rightarrow> (nat option \<times> nat option \<times> bool \<times> acetables) option" where
  "pick_sub E pc user s = do {
     sub \<leftarrow> getsubuser user (pc_host pc) s;
     case sub of
       None \<Rightarrow> do {
         (sub, s) \<leftarrow> addsubuser E (Some (pc_client pc)) (pc_host pc) user s;
         s \<leftarrow> (case sub of None \<Rightarrow> Some s | Some b \<Rightarrow> subuser_restor E b s);
         Some (None, sub, True, s) }
     | Some b \<Rightarrow> do {
         x \<leftarrow> g_subs s b;
         client \<leftarrow> sub_client x;
         kc \<leftarrow> g_co s client;
         kp \<leftarrow> g_co s (pc_client pc);
         if s_fd kc \<noteq> s_fd kp \<and> sub_state x = ALIVE then do {
           (client, att, s) \<leftarrow> takeover E pc user b s;
           Some (client, Some b, att, s) }
         else do {
           s \<leftarrow> upd_sub b (\<lambda>x. x\<lparr>sub_client := Some (pc_client pc)\<rparr>) s;
           Some (None, Some b, True, s) } } }"

definition find_sub ::
  "env \<Rightarrow> cmd_process \<Rightarrow> nat \<Rightarrow> acetables \<Rightarrow> (nat option \<times> nat option \<times> bool \<times> acetables) option" where
  "find_sub E pc user s = do {
     (client, sub, att, s) \<leftarrow> pick_sub E pc user s;
     s \<leftarrow> upd_user user (\<lambda>u. u\<lparr>u_idle := g_now s\<rparr>) s;
     b \<leftarrow> sub;
     s \<leftarrow> upd_sub b (\<lambda>x. x\<lparr>sub_idle := g_now s\<rparr>) s;
     Some (client, sub, att, s) }"

text \<open>The answer to a failed command: a queued message if there is a user, else a reply on the spot. The
  result is \<open>sub\<close>, which is looked up when it is not known.\<close>

definition fail_cmd ::
  "env \<Rightarrow> cmd_process \<Rightarrow> callbackp \<Rightarrow> nat option \<Rightarrow> string \<Rightarrow> string \<Rightarrow> acetables \<Rightarrow> (nat option \<times> acetables) option" where
  "fail_cmd E pc cp sub code val s =
     (if cp_call_user cp \<noteq> None then do {
        (newraw, s) \<leftarrow> forge_raw RAW_ERR (err_obj (cp_chl cp) code val) s;
        sub \<leftarrow> (if sub = None then do { g \<leftarrow> pc_guser pc; getsubuser g (pc_host pc) s } else Some sub);
        b \<leftarrow> sub;
        s \<leftarrow> post_raw_sub E newraw b s;
        Some (sub, s) }
      else do {
        s \<leftarrow> inline_raw E (pc_client pc) (pc_transport pc) RAW_ERR (err_obj (cp_chl cp) code val) s;
        Some (sub, s) })"

text \<open>The end of \<open>process_cmd\<close>, from the command's flag on. An outer \<open>None\<close> result stands for -1.\<close>

definition finish_cmd ::
  "env \<Rightarrow> u32 \<Rightarrow> bool \<Rightarrow> cmd_process \<Rightarrow> callbackp \<Rightarrow> nat option \<Rightarrow> nat option \<Rightarrow> acetables \<Rightarrow>
   (connect_op option \<times> cmd_process \<times> nat option \<times> acetables) option" where
  "finish_cmd E flag att pc cp sub iuser s = do {
     (pc, sub, s) \<leftarrow>
       (if flag AND RETURN_NULL \<noteq> 0 then Some (pc\<lparr>pc_guser := None\<rparr>, sub, s)
        else if flag AND RETURN_BAD_PARAMS \<noteq> 0 then
          map_option (\<lambda>(sub, s). (pc, sub, s)) (fail_cmd E pc cp sub ''001'' ''BAD_PARAMS'' s)
        else if flag AND RETURN_BAD_CMD \<noteq> 0 then
          map_option (\<lambda>(sub, s). (pc, sub, s)) (fail_cmd E pc cp sub ''003'' ''BAD_CMD'' s)
        else Some (pc, sub, s));
     case pc_guser pc of
       Some g \<Rightarrow> do {
         sub \<leftarrow> (if sub = None then getsubuser g (pc_host pc) s else Some sub);
         let iuser = (if att then sub else None);
         b \<leftarrow> sub;
         s \<leftarrow> upd_sub b (\<lambda>x. x\<lparr>sub_state := ALIVE\<rparr>) s;
         Some (if flag AND RETURN_HANG \<noteq> 0 \<or> flag AND RETURN_BAD_PARAMS \<noteq> 0 then Some CONNECT_KEEPALIVE else None,
               pc, iuser, s) }
     | None \<Rightarrow>
         Some (Some (if flag AND RETURN_HANG \<noteq> 0 then CONNECT_KEEPALIVE else CONNECT_SHUTDOWN), pc, iuser, s) }"

text \<open>An \<open>int\<close> variable holds the low 32 bits of a JSON integer.\<close>

definition int_of_json :: "int \<Rightarrow> int" where
  "int_of_json n = signed_take_bit 31 n"

text \<open>The user a \<open>CONNECT\<close> preallocates.\<close>

definition preallocate ::
  "env \<Rightarrow> cmd_process \<Rightarrow> callbackp \<Rightarrow> acetables \<Rightarrow> (cmd_process \<times> callbackp \<times> nat option \<times> acetables) option" where
  "preallocate E pc cp s = do {
     (nuser, s) \<leftarrow> adduser E (Some (cp_client cp)) (cp_host cp) (cp_ip cp) None s;
     n \<leftarrow> nuser;
     s \<leftarrow> upd_user n (\<lambda>u. u\<lparr>u_transport := pc_transport pc\<rparr>) s;
     u \<leftarrow> g_users s n;
     let sub = hd_opt (u_subuser u);
     Some (pc\<lparr>pc_guser := Some n\<rparr>, cp\<lparr>cp_call_user := Some n, cp_call_subuser := sub\<rparr>, sub, s) }"

definition dispatch ::
  "cmdenv \<Rightarrow> callback \<Rightarrow> bool \<Rightarrow> cmd_process \<Rightarrow> callbackp \<Rightarrow> nat option \<Rightarrow> nat option \<Rightarrow> acetables \<Rightarrow>
   (connect_op option \<times> cmd_process \<times> nat option \<times> acetables) option" where
  "dispatch X cmdback att pc cp sub iuser s = do {
     (flag, cp, s) \<leftarrow> call_cmd_hook X cp s;
     (flag, cp, s) \<leftarrow> (if flag = RETURN_CONTINUE then run_cmd X (cb_func cmdback) cp s else Some (flag, cp, s));
     finish_cmd (x_env X) flag att pc cp sub iuser s }"

definition store_chl :: "json_item list \<Rightarrow> nat option \<Rightarrow> nat option \<Rightarrow> acetables \<Rightarrow> acetables option" where
  "store_chl jchl guser sub s =
     (case (guser, sub, jchl) of
        (Some g, Some b, it # _) \<Rightarrow> upd_sub b (\<lambda>x. x\<lparr>sub_current_chl := int_of_json (jint it)\<rparr>) s
      | _ \<Rightarrow> Some s)"

definition identify :: "json_item \<Rightarrow> cmd_process \<Rightarrow> acetables \<Rightarrow> nat option option" where
  "identify ijson pc s =
     (case (pc_guser pc, Option.bind (hd_opt (json_lookup (jchild ijson) ''sessid'')) jstr) of
        (None, Some jsid) \<Rightarrow> seek_user_id jsid s
      | _ \<Rightarrow> Some (pc_guser pc))"

text \<open>The subuser of the request: the one an earlier command attached, or the one of its host.\<close>

definition locate_sub ::
  "env \<Rightarrow> cmd_process \<Rightarrow> acetables \<Rightarrow> (nat option \<times> nat option \<times> bool \<times> acetables) option" where
  "locate_sub E pc s =
     (case (pc_guser pc, pc_sub pc) of
        (Some g, None) \<Rightarrow> find_sub E pc g s
      | _ \<Rightarrow> Some (None, pc_sub pc, True, s))"

text \<open>From there on: the challenge, the parameters of the command, the user of a \<open>CONNECT\<close>, the command.\<close>

definition serve_cmd ::
  "cmdenv \<Rightarrow> json_item \<Rightarrow> string \<Rightarrow> callback \<Rightarrow> nat \<Rightarrow> nat option \<Rightarrow> bool \<Rightarrow> cmd_process \<Rightarrow> nat option \<Rightarrow> acetables \<Rightarrow>
   (connect_op option \<times> cmd_process \<times> nat option \<times> acetables) option" where
  "serve_cmd X ijson cmd cmdback client sub att pc iuser s = do {
     s \<leftarrow> store_chl (json_lookup (jchild ijson) ''chl'') (pc_guser pc) sub s;
     chl \<leftarrow> (case sub of None \<Rightarrow> Some 0 | Some b \<Rightarrow> map_option (\<lambda>x. int_of_json (sub_current_chl x)) (g_subs s b));
     let cp = \<lparr>cp_client = client, cp_param = json_lookup (jchild ijson) ''params'', cp_hlines = pc_hlines pc,
               cp_call_user = pc_guser pc, cp_ip = pc_ip pc, cp_host = pc_host pc, cp_cmd = cmd, cp_data = None,
               cp_call_subuser = sub, cp_transport = pc_transport pc, cp_chl = chl\<rparr>;
     (pc, cp, sub, s) \<leftarrow> (if strcaseeq cmd ''CONNECT'' then preallocate (x_env X) pc cp s else Some (pc, cp, sub, s));
     dispatch X cmdback att pc cp sub iuser s }"

definition process_cmd ::
  "cmdenv \<Rightarrow> json_item \<Rightarrow> cmd_process \<Rightarrow> nat option \<Rightarrow> acetables \<Rightarrow>
   (connect_op option \<times> cmd_process \<times> nat option \<times> acetables) option" where
  "process_cmd X ijson pc iuser s =
     (let E = x_env X in
      case Option.bind (hd_opt (json_lookup (jchild ijson) ''cmd'')) jstr of
        None \<Rightarrow> do {
          s \<leftarrow> inline_raw E (pc_client pc) (pc_transport pc) RAW_ERR (err_obj 0 ''003'' ''NO_CMD'') s;
          Some (Some CONNECT_SHUTDOWN, pc, iuser, s) }
      | Some cmd \<Rightarrow> do {
          found \<leftarrow> hashtbl_seek (hCallback (x_tab X)) (Some cmd);
          let cmdback = (case found of None \<Rightarrow> \<lparr>cb_func = Handle_bad_cmd, cb_need = NEED_NOTHING\<rparr> | Some c \<Rightarrow> c);
          guser \<leftarrow> identify ijson pc s;
          let pc = pc\<lparr>pc_guser := guser\<rparr>;
          if cb_need cmdback \<noteq> NEED_NOTHING \<and> guser = None then do {
            s \<leftarrow> inline_raw E (pc_client pc) (pc_transport pc) RAW_ERR (err_obj 0 ''004'' ''BAD_SESSID'') s;
            Some (Some CONNECT_SHUTDOWN, pc, iuser, s) }
          else do {
            (client, sub, att, s) \<leftarrow> locate_sub E pc s;
            serve_cmd X ijson cmd cmdback (case client of None \<Rightarrow> pc_client pc | Some c \<Rightarrow> c) sub att pc iuser s } })"

section \<open>A request\<close>

text \<open>The loop over the commands of a request; \<open>ijson\<close> is the chain of those still to come.\<close>

fun checkcmd_loop ::
  "cmdenv \<Rightarrow> json_item list \<Rightarrow> cmd_process \<Rightarrow> nat option \<Rightarrow> acetables \<Rightarrow> (connect_op \<times> nat option \<times> acetables) option" where
  "checkcmd_loop X [] pc iuser s = Some (CONNECT_KEEPALIVE, iuser, s)"
| "checkcmd_loop X (ijson # rest) pc iuser s = do {
     delayed \<leftarrow> (case pc_guser pc of None \<Rightarrow> Some False | Some g \<Rightarrow> map_option u_istmp (g_users s g));
     if delayed then do {
       g \<leftarrow> pc_guser pc;
       s \<leftarrow> upd_user g (\<lambda>u. u\<lparr>u_cmdqueue := map json_item_copy (ijson # rest)\<rparr>) s;
       Some (CONNECT_KEEPALIVE, iuser, s) }
     else do {
       (ret, pc, iuser, s) \<leftarrow> process_cmd X ijson pc iuser s;
       case ret of
         Some op \<Rightarrow> Some (op, iuser, s)
       | None \<Rightarrow> checkcmd_loop X rest (if iuser \<noteq> None then pc\<lparr>pc_sub := iuser\<rparr> else pc) iuser s } }"

text \<open>\<open>ojson\<close> is the tree \<open>init_json_parser\<close> made of the request, [] if it is not valid JSON.\<close>

definition checkcmd ::
  "cmdenv \<Rightarrow> json_item list \<Rightarrow> (string \<times> string) list \<Rightarrow> nat \<Rightarrow> string \<Rightarrow> string \<Rightarrow> transport_t \<Rightarrow> acetables \<Rightarrow>
   (connect_op \<times> nat option \<times> acetables) option" where
  "checkcmd X ojson hlines client hst ip transport s =
     (case ojson of
        it # _ \<Rightarrow>
          if jchild it \<noteq> [] then
            checkcmd_loop X (jchild it) \<lparr>pc_hlines = hlines, pc_guser = None, pc_sub = None, pc_client = client,
              pc_host = hst, pc_ip = ip, pc_transport = transport\<rparr> None s
          else do { s \<leftarrow> inline_raw (x_env X) client transport RAW_ERR (err_obj 0 ''005'' ''BAD_JSON'') s;
                    Some (CONNECT_SHUTDOWN, None, s) }
      | [] \<Rightarrow> do { s \<leftarrow> inline_raw (x_env X) client transport RAW_ERR (err_obj 0 ''005'' ''BAD_JSON'') s;
                  Some (CONNECT_SHUTDOWN, None, s) })"

end
