(* ===== verification/Ape_Serve.thy ===== *)
theory Ape_Serve
  imports Ape_Deliver Ape_Cmd
begin

text \<open>
  The commands on a consistent state: each of them returns, and it leaves the state consistent.
\<close>

section \<open>Replies on the spot\<close>

text \<open>Only output of one descriptor was added.\<close>

definition replied :: "nat \<Rightarrow> acetables \<Rightarrow> acetables \<Rightarrow> bool" where
  "replied fd s s' \<longleftrightarrow>
     (g_users s', g_subs s', g_chans s', g_pipes s', g_uHead s', g_hSessid s', g_hPubid s', g_hLusers s', g_now s', g_rpos s', g_co s', g_detached s', g_fire s', g_transports s', g_nConnected s') =
     (g_users s, g_subs s, g_chans s, g_pipes s, g_uHead s, g_hSessid s, g_hPubid s, g_hLusers s, g_now s, g_rpos s, g_co s, g_detached s, g_fire s, g_transports s, g_nConnected s) \<and> g_raws s' = g_raws s \<and>
     g_next s \<le> g_next s' \<and> sock_inv (g_sk s') \<and> (\<forall>fd'. fd' \<noteq> fd \<longrightarrow> outp (g_sk s') fd' = outp (g_sk s) fd')"

lemma repliedD:
  assumes "replied fd s s'"
  shows "g_users s' = g_users s" "g_subs s' = g_subs s" "g_chans s' = g_chans s" "g_pipes s' = g_pipes s" "g_raws s' = g_raws s"
    "g_uHead s' = g_uHead s" "g_hSessid s' = g_hSessid s" "g_hPubid s' = g_hPubid s" "g_hLusers s' = g_hLusers s"
    "g_now s' = g_now s" "g_rpos s' = g_rpos s" "g_co s' = g_co s" "g_detached s' = g_detached s" "g_next s \<le> g_next s'"
    "sock_inv (g_sk s')"
  using assms by (simp_all add: replied_def)

lemma wrote_others:
  assumes "wrote fd x s s'"
  shows "(g_users s', g_subs s', g_chans s', g_pipes s', g_uHead s', g_hSessid s', g_hPubid s', g_hLusers s', g_now s', g_rpos s', g_co s', g_detached s', g_fire s', g_transports s', g_nConnected s') =
     (g_users s, g_subs s, g_chans s, g_pipes s, g_uHead s, g_hSessid s, g_hPubid s, g_hLusers s, g_now s, g_rpos s, g_co s, g_detached s, g_fire s, g_transports s, g_nConnected s)" "g_next s' = g_next s"
proof -
  have e: "s'\<lparr>g_sk := g_sk s, g_raws := g_raws s\<rparr> = s" using assms by (simp add: wrote_def)
  from arg_cong [OF e, of "\<lambda>s. (g_next s, g_users s, g_subs s, g_chans s, g_pipes s, g_uHead s, g_hSessid s, g_hPubid s, g_hLusers s, g_now s, g_rpos s, g_co s, g_detached s, g_fire s, g_transports s, g_nConnected s)"]
  show "(g_users s', g_subs s', g_chans s', g_pipes s', g_uHead s', g_hSessid s', g_hPubid s', g_hLusers s', g_now s', g_rpos s', g_co s', g_detached s', g_fire s', g_transports s', g_nConnected s') =
     (g_users s, g_subs s, g_chans s, g_pipes s, g_uHead s, g_hSessid s, g_hPubid s, g_hLusers s, g_now s, g_rpos s, g_co s, g_detached s, g_fire s, g_transports s, g_nConnected s)" "g_next s' = g_next s" by simp_all
qed

lemma world_replied:
  assumes w: "world s" and r: "replied fd s s'"
  shows "world s'" "kept s s'" "lowq s' = lowq s" "highq s' = highq s" "foot s' = foot s" "members s' = members s"
proof -
  note D = baseD [OF worldD(1) [OF w]] and R = repliedD [OF r]
  have e: "owner s' = owner s" "subs_of s' = subs_of s" "host s' = host s" "conn s' = conn s" "target s' = target s" "transport_of s' = transport_of s"
    by (simp_all add: owner_def subs_of_def host_def conn_def target_def transport_of_def R fun_eq_iff)
  show f: "foot s' = foot s" "members s' = members s" "lowq s' = lowq s" "highq s' = highq s"
    by (simp_all add: foot_def members_def lowq_def highq_def R fun_eq_iff)
  show "kept s s'" using R by (simp add: kept_def e)
  have "base s'"
  proof (rule baseI; (unfold e)?)
    show "msg_inv s'" by (rule msg_inv_cong [OF D(1) R(2,5,10,14)])
    show "u < g_next s'" if "g_users s' u = Some U" for u U using that D(13) [of u U] R(1) by (intro less_le_trans [OF _ R(14)]) simp
    show "c < g_next s'" if "g_chans s' c = Some C" for c C using that D(15) [of c C] R(3) by (intro less_le_trans [OF _ R(14)]) simp
    show "p < g_next s'" if "g_pipes s' p = Some P" for p P using that D(17) [of p P] R(4) by (intro less_le_trans [OF _ R(14)]) simp
  qed (use D in \<open>simp_all add: R\<close>)
  then show "world s'" using worldD(2) [OF w] f by (simp add: world_def linked_def)
qed

lemma inline_raw_spec:
  assumes os: "good_os (e_os E)" "sock_inv (g_sk s)" and w: "world s" and j: "json_wf j" and k: "g_co s client = Some k"
    and ws: "tr = TRANSPORT_WEBSOCKET_IETF \<Longrightarrow> s_ws k \<noteq> None"
  obtains s' where "inline_raw E client tr n j s = Some s'" "replied (s_fd k) s s'"
proof -
  note inv = baseD(1) [OF worldD(1) [OF w]]
  obtain r s1 x where 1: "forge_raw n j s = Some (r, s1)" "posted s s1" "g_subs s1 = g_subs s" "g_raws s1 r = Some x"
    "raw_refcount x = 0" "g_raws s r = None" "\<And>q. q \<noteq> r \<Longrightarrow> g_raws s1 q = g_raws s q"
    by (rule forge_raw_spec [OF inv j]) (rule that; assumption)
  let ?pr = "transport_get_properties tr (g_transports s1)"
  have si: "sock_inv (g_sk s1)" using posted_frame(11) [OF 1(2)] os(2) by simp
  obtain f1 s2 where 2: "send_transport_header E None tr (s_fd k) s1 = Some (f1, s2)"
    "wrote (s_fd k) (case transport_header tr of None \<Rightarrow> [] | Some (h, _) \<Rightarrow> h) s1 s2" "g_raws s2 = g_raws s1"
    using send_transport_header_wrote [OF os(1) si, where transport = tr and fd = "s_fd k"] by metis
  obtain f2 s3 where 3: "send_chunks E (s_fd k) (pad_chunk pad_left ?pr) s2 = Some (f2, s3)"
    "wrote (s_fd k) (concat (pad_chunk pad_left ?pr)) s2 s3" "g_raws s3 = g_raws s2"
    by (rule send_chunks_wrote [OF os(1) wrote_inv [OF 2(2)]])
  obtain wsh where wsh: "ws_head_chunk tr (s_ws k) (length (raw_data x) + 2) = Some wsh"
    using ws by (cases "tr = TRANSPORT_WEBSOCKET_IETF") (auto simp: ws_head_chunk_def)
  obtain f3 s4 where 4: "send_chunks E (s_fd k) (wsh @ [''['', raw_data x, '']''] @ pad_chunk pad_right ?pr) s3 = Some (f3, s4)"
    "wrote (s_fd k) (concat (wsh @ [''['', raw_data x, '']''] @ pad_chunk pad_right ?pr)) s3 s4" "g_raws s4 = g_raws s3"
    by (rule send_chunks_wrote [OF os(1) wrote_inv [OF 3(2)]])
  note W = wrote_trans [OF wrote_trans [OF 2(2) 3(2)] 4(2)]
  have x4: "g_raws s4 r = Some x" using 1(4) 2(3) 3(3) 4(3) by simp
  define s' where "s' = s4\<lparr>g_raws := free1 r (g_raws s4)\<rparr>"
  have fr: "map_option snd (free_raw r s4) = Some s'" using free_raw_free1 [OF x4] by (simp add: s'_def)
  have gr: "g_raws s' = g_raws s"
    using 1(4-7) 2(3) 3(3) 4(3) by (auto simp: s'_def free1_def fun_eq_iff)
  have k1: "g_co s1 client = Some k" using posted_frame(10) [OF 1(2)] k by simp
  have "inline_raw E client tr n j s = Some s'"
    using 1(1,4) k1 2(1) 3(1) wsh 4(1) fr by (auto simp: inline_raw_def send_raw_inline_def Let_def)
  moreover have "replied (s_fd k) s s'"
    using wrote_others [OF W] posted_frame [OF 1(2)] 1(3) gr W by (auto simp: replied_def s'_def wrote_def)
  ultimately show thesis by (rule that)
qed

section \<open>A supply of identifiers\<close>

text \<open>The identifiers in use, and the next \<open>n\<close> the generator produces being different and not in use.\<close>

definition taken :: "acetables \<Rightarrow> string set" where
  "taken s = u_sessid ` ran (g_users s) \<union> p_pubid ` ran (g_pipes s)"

definition ids_ready :: "env \<Rightarrow> nat \<Rightarrow> acetables \<Rightarrow> bool" where
  "ids_ready E n s \<longleftrightarrow> rand_ok (e_rand E) \<and>
     distinct (map (\<lambda>i. id_at (e_rand E) 32 (g_rpos s + 32 * i)) [0..<n]) \<and>
     (\<forall>i < n. \<forall>x \<in> taken s. \<not> strcaseeq (id_at (e_rand E) 32 (g_rpos s + 32 * i)) x)"

lemma id_at_length [simp]: "length (id_at r n pos) = n"
  by (simp add: id_at_def)

lemma id_free_taken:
  assumes "world s" and "length k = 32" and "\<forall>x \<in> taken s. \<not> strcaseeq k x"
  shows "id_free k s"
proof -
  note D = baseD(2,3) [OF worldD(1) [OF assms(1)]]
  have "hashtbl_seek (g_hSessid s) (Some k) = Some None"
  proof (rule indexes_seek [OF D(1), of k])
    fix a x assume a: "g_users s a = Some x" "strcaseeq k (u_sessid x)"
    then have "u_sessid x \<in> taken s" by (auto simp: taken_def ran_def)
    then show ?thesis using assms(3) a(2) by blast
  qed
  moreover have "hashtbl_seek (g_hPubid s) (Some k) = Some None"
  proof (rule indexes_seek [OF D(2), of k])
    fix a x assume a: "g_pipes s a = Some x" "strcaseeq k (p_pubid x)"
    then have "p_pubid x \<in> taken s" by (auto simp: taken_def ran_def)
    then show ?thesis using assms(3) a(2) by blast
  qed
  ultimately show ?thesis using assms(2) by (simp add: id_free_def seek_user_id_def get_pipe_def)
qed

lemma ids_ready_gen:
  assumes w: "world s" and i: "ids_ready E n s" and k: "k < n"
  shows "gen_sessid_new (e_rand E) s (g_rpos s + 32 * k) = Some (id_at (e_rand E) 32 (g_rpos s + 32 * k), g_rpos s + 32 * k + 32)"
proof -
  have r: "rand_ok (e_rand E)" using i by (simp add: ids_ready_def)
  have "id_free (id_at (e_rand E) 32 (g_rpos s + 32 * k)) s"
    by (rule id_free_taken [OF w]) (use i k in \<open>simp_all add: ids_ready_def\<close>)
  then show ?thesis by (subst gen_sessid_new.simps) (simp add: gen_chars_eq [OF r] id_free_def)
qed

lemma ids_ready_le: "ids_ready E n s \<Longrightarrow> m \<le> n \<Longrightarrow> ids_ready E m s"
proof -
  assume i: "ids_ready E n s" and m: "m \<le> n"
  have "[0..<n] = [0..<m] @ [m..<n]" using upt_add_eq_append [of 0 m "n - m"] m by simp
  then show ?thesis using i m by (auto simp: ids_ready_def)
qed

lemma ids_ready_same:
  assumes "ids_ready E n s" and "g_rpos s' = g_rpos s" and "taken s' \<subseteq> taken s"
  shows "ids_ready E n s'"
  using assms unfolding ids_ready_def by auto

lemma id_at_lower:
  assumes "rand_ok r"
  shows "strcaseeq (id_at r n p) (id_at r n q) \<longleftrightarrow> id_at r n p = id_at r n q"
proof -
  have "\<forall>c \<in> set (id_at r n p). tolower c = c" for p
  proof
    fix c assume "c \<in> set (id_at r n p)"
    then have "c \<in> set basic_chars" using gen_chars_length [OF gen_chars_eq [OF assms, of n p]] by auto
    then show "tolower c = c" by (auto simp: basic_chars_def tolower_def)
  qed
  then have "casefold (id_at r n p) = id_at r n p" for p by (simp add: map_idI)
  then show ?thesis by (simp add: strcaseeq_def)
qed

lemma ids_ready_use:
  assumes i: "ids_ready E (Suc n) s" and p: "g_rpos s' = g_rpos s + 32"
    and t: "taken s' \<subseteq> insert (id_at (e_rand E) 32 (g_rpos s)) (taken s)"
  shows "ids_ready E n s'"
proof -
  let ?f = "\<lambda>i. id_at (e_rand E) 32 (g_rpos s + 32 * i)"
  have r: "rand_ok (e_rand E)" and d: "distinct (map ?f [0..<Suc n])" using i by (simp_all add: ids_ready_def del: upt_Suc)
  have f: "id_at (e_rand E) 32 (g_rpos s' + 32 * j) = ?f (Suc j)" for j by (simp add: p algebra_simps)
  have sp: "map ?f [0..<Suc n] = ?f 0 # map (\<lambda>j. ?f (Suc j)) [0..<n]"
    by (simp only: upt_conv_Cons [OF zero_less_Suc] list.map map_Suc_upt [symmetric] map_map comp_def)
  have "\<not> strcaseeq (?f (Suc j)) x" if "j < n" "x \<in> taken s'" for j x
  proof (cases "x = ?f 0")
    case True
    have "?f 0 \<notin> (\<lambda>j. ?f (Suc j)) ` {0..<n}" using d unfolding sp by simp
    then have "?f (Suc j) \<noteq> ?f 0" using that(1) by (metis atLeastLessThan_iff imageI zero_le)
    then show ?thesis using True id_at_lower [OF r, of 32 "g_rpos s + 32 * Suc j" "g_rpos s + 32 * 0"] by simp
  next
    case False
    then have "x \<in> taken s" using t that(2) by auto
    then show ?thesis using i that(1) unfolding ids_ready_def by blast
  qed
  moreover have "distinct (map (\<lambda>j. ?f (Suc j)) [0..<n])" using d unfolding sp by simp
  ultimately show ?thesis using r by (simp add: ids_ready_def f)
qed

lemma taken_posted: "posted s s' \<Longrightarrow> taken s' = taken s"
  using posted_frame(1,3) [of s s'] by (simp add: taken_def)

section \<open>Serving\<close>

text \<open>An open connection is in its own slot of the connection table. A user on the framed websocket
  transport needs connections with a websocket parser.\<close>

definition open_at :: "acetables \<Rightarrow> nat \<Rightarrow> bool" where
  "open_at s cl \<longleftrightarrow> map_option s_fd (g_co s cl) = Some cl"

definition fits :: "acetables \<Rightarrow> transport_t option \<Rightarrow> nat \<Rightarrow> bool" where
  "fits s tr cl \<longleftrightarrow> cl \<in> dom (g_co s) \<and> (tr = Some TRANSPORT_WEBSOCKET_IETF \<longrightarrow> Option.bind (g_co s cl) s_ws \<noteq> None)"

definition link_ok :: "acetables \<Rightarrow> transport_t option \<Rightarrow> substate \<times> nat option \<Rightarrow> bool" where
  "link_ok s tr stcl \<longleftrightarrow> (\<exists>cl. snd stcl = Some cl \<and> cl \<in> dom (g_co s) \<and> (fst stcl = ALIVE \<longrightarrow> open_at s cl \<and> fits s tr cl))"

lemma fits_dom: "fits s tr cl \<Longrightarrow> cl \<in> dom (g_co s)"
  by (simp add: fits_def)

text \<open>A consistent state: every connection has a slot, and those in use are open and fit their transport.\<close>

definition serving :: "acetables \<Rightarrow> bool" where
  "serving s \<longleftrightarrow> world s \<and> sock_inv (g_sk s) \<and>
     (\<forall>b u x. owner s b = Some u \<longrightarrow> conn s b = Some x \<longrightarrow> link_ok s (transport_of s u) x)"

lemma servingD:
  assumes "serving s"
  shows "world s" "base s" "sock_inv (g_sk s)" "owner s b = Some u \<Longrightarrow> conn s b = Some x \<Longrightarrow> link_ok s (transport_of s u) x"
  using assms worldD(1) [of s] unfolding serving_def by blast+

lemma link_ok_co: "g_co s' = g_co s \<Longrightarrow> link_ok s' = link_ok s" "g_co s' = g_co s \<Longrightarrow> open_at s' = open_at s" "g_co s' = g_co s \<Longrightarrow> fits s' = fits s"
  unfolding link_ok_def [abs_def] open_at_def [abs_def] fits_def [abs_def] by simp_all

lemma serving_kept:
  assumes "serving s" and "world s'" and "kept s s'"
  shows "serving s'"
  using assms keptD [OF assms(3)] link_ok_co(1) [of s' s] by (simp add: serving_def)

text \<open>A request as \<open>process_cmd\<close> hands it to a command.\<close>

definition cp_ok :: "acetables \<Rightarrow> callbackp \<Rightarrow> bool" where
  "cp_ok s cp \<longleftrightarrow> fits s (Some (cp_transport cp)) (cp_client cp) \<and>
     (\<forall>u. cp_call_user cp = Some u \<longrightarrow> (\<exists>b. cp_call_subuser cp = Some b \<and> owner s b = Some u)) \<and>
     LLONG_MIN < cp_chl cp \<and> cp_chl cp \<le> LLONG_MAX"

lemma cp_okD:
  assumes "cp_ok s cp" and "cp_call_user cp = Some u" and "base s"
  obtains b B U where "cp_call_subuser cp = Some b" "owner s b = Some u" "g_subs s b = Some B" "g_users s u = Some U"
proof -
  obtain b where b: "cp_call_subuser cp = Some b" "owner s b = Some u" using assms(1,2) unfolding cp_ok_def by blast
  then obtain B U where "g_subs s b = Some B" "g_users s u = Some U"
    using owner_user [OF assms(3) b(2)] by (auto simp: owner_def bind_eq_Some_conv)
  then show thesis using b by (intro that)
qed

text \<open>What a command that does not end the user's session leaves behind.\<close>

definition served :: "acetables \<Rightarrow> callbackp \<Rightarrow> (u32 \<times> callbackp \<times> acetables) option \<Rightarrow> bool" where
  "served s cp r \<longleftrightarrow> (\<exists>flag s'. r = Some (flag, cp, s') \<and> flag \<in> {RETURN_NOTHING, RETURN_BAD_PARAMS} \<and> world s' \<and> kept s s')"

lemma servedI: "r = Some (flag, cp, s') \<Longrightarrow> flag \<in> {RETURN_NOTHING, RETURN_BAD_PARAMS} \<Longrightarrow> world s' \<Longrightarrow> kept s s' \<Longrightarrow> served s cp r"
  by (auto simp: served_def)

lemma served_refused: "world s \<Longrightarrow> served s cp (Some (RETURN_BAD_PARAMS, cp, s))"
  by (rule servedI [OF refl]) simp_all

lemma cmd_check_ok: "world s \<Longrightarrow> served s cp (cmd_check X cp s)"
  unfolding cmd_check_def by (rule servedI [OF refl]) simp_all

lemma isonchannel_live: "u \<in> dom (g_users s) \<Longrightarrow> isonchannel (Some u) (Some c) s = Some (c \<in> set (foot s u))"
  by (auto simp: isonchannel_def foot_def)

lemma get_pipe_strict_total:
  assumes "base s" and "u \<in> dom (g_users s)"
  obtains r where "get_pipe_strict k (Some u) s = Some r"
proof (rule get_pipe_spec [OF assms(1), of k])
  fix p P assume "get_pipe k s = Some (Some p)" "g_pipes s p = Some P"
  then show thesis using that isonchannel_live [OF assms(2)] by (cases "p_type P = CHANNEL_PIPE") (auto simp: get_pipe_strict_def)
next
  assume "get_pipe k s = Some None"
  then show thesis using that by (simp add: get_pipe_strict_def)
qed

lemma cmd_send_ok:
  assumes q: "quiet (x_env X)" "polite (x_env X)" and w: "world s" and cp: "cp_ok s cp" and u: "cp_call_user cp = Some u"
  shows "served s cp (cmd_send X cp s)"
proof (cases "JSTR ''msg'' cp = None \<or> JSTR ''pipe'' cp = None")
  case True
  then show ?thesis using served_refused [OF w] by (auto simp: cmd_send_def split: option.split)
next
  case False
  then obtain msg k where mk: "JSTR ''msg'' cp = Some msg" "JSTR ''pipe'' cp = Some k" by auto
  note b = worldD(1) [OF w]
  obtain fb where f: "cp_call_subuser cp = Some fb" "owner s fb = Some u" by (rule cp_okD [OF cp u b]) (rule that; assumption)
  let ?j = "json_set_property_strZ json_new_object (Some ''msg'') msg"
  have j: "json_container ?j" by simp
  obtain r where r: "get_pipe_strict k (Some u) s = Some r" by (rule get_pipe_strict_total [OF b owner_user [OF b f(2)]])
  have "\<exists>ok s'. post_to_pipe (x_env X) ?j RAW_DATA k fb s = Some (ok, s') \<and> world s' \<and> people s s'"
  proof (cases r)
    case None
    then show ?thesis using post_to_pipe_refused [OF q(1) w f(2), of k ?j RAW_DATA] r people_posted by metis
  next
    case (Some p)
    then show ?thesis using post_to_pipe_delivered [OF q w f(2) j, of k p RAW_DATA] r by metis
  qed
  then obtain ok s' where s': "post_to_pipe (x_env X) ?j RAW_DATA k fb s = Some (ok, s')" "world s'" "people s s'" by blast
  show ?thesis
    by (rule servedI [OF _ _ s'(2) kept_people [OF s'(3)], where flag = RETURN_NOTHING]) (use mk f(1) s'(1) in \<open>simp_all add: cmd_send_def\<close>)
qed

lemma getchan_spec:
  assumes "base s"
  obtains c C where "getchan name s = Some (Some c)" "g_chans s c = Some C" "strcaseeq name (c_name C)"
  | "getchan name s = Some None" "length name \<le> MAX_CHAN_LEN \<Longrightarrow> hashtbl_seek (g_hLusers s) (Some name) = Some None"
proof (cases "length name > MAX_CHAN_LEN")
  case True
  then show thesis by (intro that(2)) (simp_all add: getchan_def)
next
  case False
  show thesis
    by (rule indexes_seek [OF baseD(4) [OF assms], of name]) (use False that in \<open>auto simp: getchan_def\<close>)
qed

lemma taken_people:
  assumes "people s s'" and "g_pipes s' = g_pipes s"
  shows "taken s' = taken s"
proof -
  have sub: "u_sessid ` ran (g_users t') \<subseteq> u_sessid ` ran (g_users t)" if "\<And>u. map_option u_sessid (g_users t' u) = map_option u_sessid (g_users t u)" for t t'
  proof
    fix x assume "x \<in> u_sessid ` ran (g_users t')"
    then obtain u U where "g_users t' u = Some U" "x = u_sessid U" by (auto simp: ran_def)
    then have "map_option u_sessid (g_users t u) = Some x" using that [of u] by simp
    then show "x \<in> u_sessid ` ran (g_users t)" by (auto simp: ran_def)
  qed
  have e: "map_option u_sessid (g_users s' u) = map_option u_sessid (g_users s u)" for u
    using people_user [OF assms(1), of u_sessid u] by simp
  have "u_sessid ` ran (g_users s') = u_sessid ` ran (g_users s)"
    by (rule equalityI [OF sub [OF e] sub [OF e [symmetric]]])
  then show ?thesis using assms(2) by (simp add: taken_def)
qed

text \<open>One channel of a \<open>JOIN\<close>.\<close>

lemma join_known:
  assumes q: "quiet E" and w: "world s" and u: "u \<in> dom (g_users s)" and c: "c \<in> dom (g_chans s)" "c \<notin> set (foot s u)"
  obtains s' where "join E u c s = Some s'" "world s'" "people s s'" "g_pipes s' = g_pipes s"
proof -
  obtain U C where U: "g_users s u = Some U" and C: "g_chans s c = Some C" using u c(1) by auto
  have n: "c \<notin> set (u_chan_foot U)" using c(2) U by (simp add: foot_def)
  show thesis by (rule join_spec [OF q w U n C]) (rule that; assumption)
qed

lemma join_existing:
  assumes q: "quiet E" and w: "world s" and u: "u \<in> dom (g_users s)" and c: "getchan name s = Some (Some c)" "c \<in> dom (g_chans s)"
  shows "\<exists>s'. join_one E u name s = Some s' \<and> world s' \<and> people s s' \<and> g_pipes s' = g_pipes s"
proof (cases "c \<in> set (foot s u)")
  case True
  obtain s' where "send_error E u ''ALREADY_ON_CHANNEL'' ''100'' s = Some s'" "world s'" "posted s s'"
    by (rule send_error_spec [OF q w u]) (rule that; assumption)
  then show ?thesis using True c(1) isonchannel_live [OF u] people_posted posted_frame(3) by (auto simp: join_one_def)
next
  case False
  obtain U C where U: "g_users s u = Some U" and C: "g_chans s c = Some C" using u c(2) by auto
  obtain r bs where gb: "getban_loop (g_now s) (u_ip U) (c_banned C) = (r, bs)" by (cases "getban_loop (g_now s) (u_ip U) (c_banned C)")
  define s1 where "s1 = s\<lparr>g_chans := (g_chans s)(c \<mapsto> C\<lparr>c_banned := bs\<rparr>)\<rparr>"
  have ok: "chan_ok (C\<lparr>c_banned := bs\<rparr>)" using baseD(14) [OF worldD(1) [OF w] C] by (simp add: chan_ok_def)
  note 1 = chan_upd_world [OF w C _ _ ok _ s1_def, simplified]
  have getb: "getban c (u_ip U) s = Some (r, s1)" using C gb by (simp add: getban_def upd_chan_def s1_def)
  have d1: "u \<in> dom (g_users s1)" "c \<in> dom (g_chans s1)" "c \<notin> set (foot s1 u)" using u False 1(3) by (auto simp: s1_def)
  show ?thesis
  proof (cases r)
    case None
    obtain s' where s': "join E u c s1 = Some s'" "world s'" "people s1 s'" "g_pipes s' = g_pipes s1" by (rule join_known [OF q 1(1) d1])
    have "join_one E u name s = Some s'" using False c(1) isonchannel_live [OF u] U getb None s'(1) by (simp add: join_one_def)
    then show ?thesis using s' people_trans [OF 1(4) s'(3)] by (auto simp: s1_def)
  next
    case (Some bn)
    let ?j = "json_set_property_strZ (json_set_property_strZ json_new_object (Some ''reason'') (ban_reason bn)) (Some ''error'') ''YOU_ARE_BANNED''"
    have jw: "json_wf ?j" by (simp add: json_container_wf)
    obtain m t s' where s': "forge_raw RAW_ERR ?j s1 = Some (m, t)" "post_raw E m u t = Some s'" "posted s1 s'" "base s'"
      by (rule announce_user [OF q worldD(1) [OF 1(1)] jw d1(1)]) (rule that; assumption)
    have "join_one E u name s = Some s'" using False c(1) isonchannel_live [OF u] U getb Some s'(1,2) by (simp add: join_one_def Let_def)
    moreover have "world s'" using s'(4) linked_posted [OF worldD(2) [OF 1(1)] s'(3)] by (simp add: world_def)
    ultimately show ?thesis using people_trans [OF 1(4) people_posted [OF s'(3)]] posted_frame(3) [OF s'(3)] by (auto simp: s1_def)
  qed
qed

lemma join_new:
  assumes q: "quiet E" and w: "world s" and u: "u \<in> dom (g_users s)" and n: "getchan name s = Some None"
    "length name \<le> MAX_CHAN_LEN \<Longrightarrow> hashtbl_seek (g_hLusers s) (Some name) = Some None" and i: "ids_ready E (Suc k) s"
  shows "\<exists>s'. join_one E u name s = Some s' \<and> world s' \<and> kept s s' \<and> ids_ready E k s'"
proof (cases "isvalidchan name")
  case (Pair v nm)
  show ?thesis
  proof (cases v)
    case False
    obtain s' where s': "send_error E u ''CANT_JOIN_CHANNEL'' ''202'' s = Some s'" "world s'" "posted s s'"
      by (rule send_error_spec [OF q w u]) (rule that; assumption)
    have "join_one E u name s = Some s'" using n(1) Pair False s'(1) quietD(4) [OF q] by (simp add: join_one_def mkchan_def)
    moreover have "ids_ready E k s'"
      by (rule ids_ready_same [OF ids_ready_le [OF i]]) (use posted_frame(9) [OF s'(3)] taken_posted [OF s'(3)] in simp_all)
    ultimately show ?thesis using s'(2) kept_posted [OF s'(3)] by blast
  next
    case True
    have v: "isvalidchan name = (True, nm)" using Pair True by simp
    let ?id = "id_at (e_rand E) 32 (g_rpos s)"
    have g: "gen_sessid_new (e_rand E) s (g_rpos s) = Some (?id, g_rpos s + 32)" using ids_ready_gen [OF w i, of 0] by simp
    have fr: "hashtbl_seek (g_hLusers s) (Some name) = Some None" by (rule n(2) [OF isvalidchan_name(2) [OF v]])
    obtain s1 C where 1: "mkchan E name CHANNEL_AUTODESTROY s = Some (Some (g_next s), s1)" "world s1" "g_chans s1 = (g_chans s)(g_next s \<mapsto> C)"
      "c_head C = []" "g_users s1 = g_users s" "g_subs s1 = g_subs s" "members s1 = members s" "foot s1 = foot s" "g_chans s (g_next s) = None"
      "g_pipes s1 = (g_pipes s)(Suc (g_next s) \<mapsto> new_pipe (g_next s) CHANNEL_PIPE ?id)" "g_rpos s1 = g_rpos s + 32"
      "g_co s1 = g_co s" "g_sk s1 = g_sk s" "g_now s1 = g_now s" "g_detached s1 = g_detached s"
      by (rule mkchan_spec [OF q w v fr g]) (rule that; assumption)
    have "owner s1 = owner s" "subs_of s1 = subs_of s" "host s1 = host s" "conn s1 = conn s" "transport_of s1 = transport_of s"
      by (rule ext, simp add: owner_def subs_of_def host_def conn_def transport_of_def 1(5,6))+
    then have k1: "kept s s1" using 1(5,6,12-15) by (simp add: kept_def)
    have "members s (g_next s) = []" using 1(9) by (simp add: members_def)
    then have nf: "g_next s \<notin> set (foot s1 u)" using linkedD(3) [OF worldD(2) [OF 1(2)], of "g_next s" u] 1(7) by simp
    have d1: "u \<in> dom (g_users s1)" "g_next s \<in> dom (g_chans s1)" using u 1(3,5) by auto
    obtain s' where 2: "join E u (g_next s) s1 = Some s'" "world s'" "people s1 s'" "g_pipes s' = g_pipes s1"
      by (rule join_known [OF q 1(2) d1 nf])
    have "join_one E u name s = Some s'" using n(1) 1(1) 2(1) by (simp add: join_one_def)
    moreover have "taken s1 \<subseteq> insert ?id (taken s)" using 1(5,10) by (auto simp: taken_def ran_def split: if_splits)
    then have "ids_ready E k s1" by (rule ids_ready_use [OF i 1(11)])
    then have "ids_ready E k s'" by (rule ids_ready_same) (use people_frame(7) [OF 2(3)] taken_people [OF 2(3,4)] in simp_all)
    ultimately show ?thesis using 2(2) kept_trans [OF k1 kept_people [OF 2(3)]] by blast
  qed
qed

lemma join_one_ok:
  assumes q: "quiet E" and w: "world s" and u: "u \<in> dom (g_users s)" and i: "ids_ready E (Suc k) s"
  shows "\<exists>s'. join_one E u name s = Some s' \<and> world s' \<and> kept s s' \<and> ids_ready E k s'"
proof (rule getchan_spec [OF worldD(1) [OF w], of name])
  fix c C assume c: "getchan name s = Some (Some c)" "g_chans s c = Some C"
  then have "c \<in> dom (g_chans s)" by blast
  from join_existing [OF q w u c(1) this] obtain s' where s': "join_one E u name s = Some s'" "world s'" "people s s'" "g_pipes s' = g_pipes s"
    by blast
  have "ids_ready E k s'"
    by (rule ids_ready_same [OF ids_ready_le [OF i]]) (use people_frame(7) [OF s'(3)] taken_people [OF s'(3,4)] in simp_all)
  then show ?thesis using s'(1,2) kept_people [OF s'(3)] by blast
next
  assume "getchan name s = Some None" "length name \<le> MAX_CHAN_LEN \<Longrightarrow> hashtbl_seek (g_hLusers s) (Some name) = Some None"
  then show ?thesis by (rule join_new [OF q w u _ _ i])
qed

lemma cmd_join_ok:
  assumes q: "quiet (x_env X)" and w: "world s" and cp: "cp_ok s cp" and u: "cp_call_user cp = Some u"
    and i: "ids_ready (x_env X) (length (JFOREACH ''channels'' cp)) s"
  shows "served s cp (cmd_join X cp s)"
proof (cases "JFOREACH ''channels'' cp = []")
  case True
  then show ?thesis using served_refused [OF w] by (simp add: cmd_join_def)
next
  case False
  have ud: "u \<in> dom (g_users s)" by (rule cp_okD [OF cp u worldD(1) [OF w]]) blast
  have "\<exists>s'. forM names (join_one (x_env X) u) s = Some s' \<and> world s' \<and> kept s s'"
    if "world s" "u \<in> dom (g_users s)" "ids_ready (x_env X) (length names) s" for names s
    using that
  proof (induction names arbitrary: s)
    case (Cons nm names)
    have i1: "ids_ready (x_env X) (Suc (length names)) s" using Cons.prems(3) by simp
    obtain s1 where 1: "join_one (x_env X) u nm s = Some s1" "world s1" "kept s s1" "ids_ready (x_env X) (length names) s1"
      using join_one_ok [OF q Cons.prems(1,2) i1] by blast
    have "u \<in> dom (g_users s1)" using keptD(5) [OF 1(3)] Cons.prems(2) by simp
    then obtain s' where "forM names (join_one (x_env X) u) s1 = Some s'" "world s'" "kept s1 s'" using Cons.IH [OF 1(2) _ 1(4)] by blast
    then show ?case using 1(1) kept_trans [OF 1(3)] by auto
  qed simp
  from this [OF w ud i] obtain s' where s': "forM (JFOREACH ''channels'' cp) (join_one (x_env X) u) s = Some s'" "world s'" "kept s s'" by blast
  show ?thesis
    by (rule servedI [OF _ _ s'(2,3), where flag = RETURN_NOTHING]) (use False u s'(1) in \<open>simp_all add: cmd_join_def\<close>)
qed

lemma cmd_left_ok:
  assumes q: "quiet (x_env X)" and w: "world s" and cp: "cp_ok s cp" and u: "cp_call_user cp = Some u"
  shows "served s cp (cmd_left X cp s)"
proof (cases "JSTR ''channel'' cp")
  case None
  then show ?thesis using served_refused [OF w] by (simp add: cmd_left_def)
next
  case (Some name)
  note b = worldD(1) [OF w]
  obtain U where U: "g_users s u = Some U" by (rule cp_okD [OF cp u b]) (rule that; assumption)
  then have ud: "u \<in> dom (g_users s)" by blast
  have err: "\<exists>s'. send_error (x_env X) u m c s = Some s' \<and> world s' \<and> people s s'" for m c
    using send_error_spec [OF q w ud, of m c] people_posted by metis
  show ?thesis
  proof (rule getchan_spec [OF b, of name])
    assume n: "getchan name s = Some None"
    obtain s' where s': "send_error (x_env X) u ''UNKNOWN_CHANNEL'' ''103'' s = Some s'" "world s'" "people s s'" using err by blast
    show ?thesis
      by (rule servedI [OF _ _ s'(2) kept_people [OF s'(3)], where flag = RETURN_NOTHING])
        (use Some n u s'(1) in \<open>simp_all add: cmd_left_def isonchannel_def\<close>)
  next
    fix c C assume c: "getchan name s = Some (Some c)" "g_chans s c = Some C"
    have "\<exists>s'. (if \<not> c \<in> set (foot s u) then send_error (x_env X) u ''NOT_IN_CHANNEL'' ''104'' s else left (x_env X) u c s) = Some s' \<and>
      world s' \<and> people s s'"
    proof (cases "c \<in> set (foot s u)")
      case True
      then have "c \<in> set (u_chan_foot U)" using U by (simp add: foot_def)
      from left_spec [OF q w U this c(2)] show ?thesis using True by metis
    qed (use err in simp)
    then obtain s' where s': "(if \<not> c \<in> set (foot s u) then send_error (x_env X) u ''NOT_IN_CHANNEL'' ''104'' s else left (x_env X) u c s) = Some s'"
      "world s'" "people s s'" by blast
    show ?thesis
      by (rule servedI [OF _ _ s'(2) kept_people [OF s'(3)], where flag = RETURN_NOTHING])
        (use Some c(1) u s'(1) isonchannel_live [OF ud, of c] in \<open>simp_all add: cmd_left_def split: if_splits\<close>)
  qed
qed

lemma session_set_ok:
  assumes q: "quiet E" and w: "world s" and u: "u \<in> dom (g_users s)"
  shows "\<exists>s'. session_set E u kv s = Some s' \<and> world s' \<and> kept s s'"
proof -
  obtain U where U: "g_users s u = Some U" using u by auto
  show ?thesis
  proof (cases "length (fst kv) > 32 \<or> u_sessions_length U + int (length (snd kv)) > MAX_SESSION_LENGTH")
    case True
    obtain s' where "send_error E u ''SESSION_ERROR'' ''203'' s = Some s'" "world s'" "posted s s'"
      by (rule send_error_spec [OF q w u]) (rule that; assumption)
    then show ?thesis using set_session_refused [OF U True, of E False] kept_posted by (auto simp: session_set_def)
  next
    case False
    then have l: "length (fst kv) \<le> 32" "u_sessions_length U + int (length (snd kv)) \<le> MAX_SESSION_LENGTH" by simp_all
    obtain s' where "set_session E u (fst kv) (snd kv) False s = Some (Some \<lparr>ses_key = fst kv, ses_val = snd kv\<rparr>, s')" "world s'" "kept s s'"
      by (rule set_session_spec [OF q w U l, of False]) (rule that; assumption)
    then show ?thesis by (simp add: session_set_def)
  qed
qed

lemma session_get_ok:
  assumes "u \<in> dom (g_users s)" and "json_container jobj"
  shows "\<exists>j. session_get u vals jobj s = Some j \<and> json_container j"
  using assms(2)
proof (induction vals arbitrary: jobj)
  case (Cons v vals)
  obtain r where r: "get_session u v s = Some r" using assms(1) by (auto simp: get_session_def)
  have "json_container (json_set_property_strZ jobj (Some v) (case r of None \<Rightarrow> ''null'' | Some x \<Rightarrow> ses_val x))"
    using Cons.prems by simp
  then show ?case using Cons.IH r by simp
qed simp

lemma cmd_session_ok:
  assumes q: "quiet (x_env X)" and w: "world s" and cp: "cp_ok s cp" and u: "cp_call_user cp = Some u"
  shows "served s cp (cmd_session X cp s)"
proof (cases "JSTR ''action'' cp")
  case None
  then show ?thesis using served_refused [OF w] by (simp add: cmd_session_def)
next
  case (Some a)
  obtain b B where b: "cp_call_subuser cp = Some b" "g_subs s b = Some B" and ud: "u \<in> dom (g_users s)"
    by (rule cp_okD [OF cp u worldD(1) [OF w]]) blast
  consider (set) "strcaseeq a ''set''" "JFOREACH_K ''values'' cp \<noteq> []"
    | (get) "\<not> strcaseeq a ''set''" "strcaseeq a ''get''" "JFOREACH ''values'' cp \<noteq> []"
    | (bad) "\<not> strcaseeq a ''set'' \<and> \<not> strcaseeq a ''get'' \<or> strcaseeq a ''set'' \<and> JFOREACH_K ''values'' cp = [] \<or>
        \<not> strcaseeq a ''set'' \<and> JFOREACH ''values'' cp = []"
    by blast
  then show ?thesis
  proof cases
    case set
    let ?I = "\<lambda>t. world t \<and> kept s t"
    have "\<exists>t'. session_set (x_env X) u kv t = Some t' \<and> ?I t'" if "?I t" for kv t
      using session_set_ok [OF q, of t u kv] that ud keptD(5) [of s t] kept_trans [of s t] by auto
    then have "\<exists>s'. forM (JFOREACH_K ''values'' cp) (session_set (x_env X) u) s = Some s' \<and> ?I s'"
      by (intro forM_inv) (use w in auto)
    then obtain s' where s': "forM (JFOREACH_K ''values'' cp) (session_set (x_env X) u) s = Some s'" "world s'" "kept s s'" by blast
    show ?thesis
      by (rule servedI [OF _ _ s'(2,3), where flag = RETURN_NOTHING]) (use Some set u s'(1) in \<open>simp_all add: cmd_session_def\<close>)
  next
    case get
    obtain j where j: "session_get u (JFOREACH ''values'' cp) json_new_object s = Some j" "json_container j"
      using session_get_ok [OF ud, of json_new_object] by auto
    let ?j = "json_set_property_intN (json_set_property_objN json_new_object (Some ''sessions'') 8 j) (Some ''chl'') 3 (cp_chl cp)"
    have jw: "json_wf ?j" using j(2) cp by (simp add: json_container_wf cp_ok_def)
    obtain r s1 x where 1: "forge_raw ''SESSIONS'' ?j s = Some (r, s1)" "msg_inv s1" "posted s s1" "g_subs s1 = g_subs s"
      "occ s1 r = 0" "g_raws s1 r = Some x"
      by (rule forge_raw_spec [OF baseD(1) [OF worldD(1) [OF w]] jw]) (rule that; assumption)
    have B1: "g_subs s1 b = Some B" and sl: "int (occ s1 r) + 1 \<le> max 1 (raw_refcount x)" using b(2) 1(4,5) by simp_all
    obtain s' where 2: "post_raw_sub (x_env X) r b s1 = Some s'" "msg_inv s'" "posted s1 s'"
      by (rule post_raw_sub_spec [OF q 1(2,6) B1 sl]) (rule that; assumption)
    have p: "posted s s'" by (rule posted_trans [OF 1(3) 2(3)])
    show ?thesis
      by (rule servedI [OF _ _ world_posted [OF w p 2(2)] kept_posted [OF p], where flag = RETURN_NOTHING])
        (use Some get u j(1) 1(1) b(1) 2(1) in \<open>simp_all add: cmd_session_def Let_def\<close>)
  next
    case bad
    then have "cmd_session X cp s = Some (RETURN_BAD_PARAMS, cp, s)" using Some by (auto simp: cmd_session_def)
    then show ?thesis using served_refused [OF w] by simp
  qed
qed

lemma cmd_script_ok:
  assumes os: "good_os (e_os (x_env X))" "sock_inv (g_sk s)" and q: "quiet (x_env X)" and w: "world s" and cp: "cp_ok s cp"
    and d: "x_domain X \<noteq> None \<or> cp_call_user cp \<noteq> None"
  shows "served s cp (cmd_script X cp s)"
proof (cases "x_domain X")
  case None
  then obtain u where u: "cp_call_user cp = Some u" using d by auto
  have ud: "u \<in> dom (g_users s)" by (rule cp_okD [OF cp u worldD(1) [OF w]]) blast
  obtain s' where s': "send_error (x_env X) u ''NO_DOMAIN'' ''201'' s = Some s'" "world s'" "posted s s'"
    by (rule send_error_spec [OF q w ud]) (rule that; assumption)
  show ?thesis
    by (rule servedI [OF _ _ s'(2) kept_posted [OF s'(3)], where flag = RETURN_NOTHING]) (use None u s'(1) in \<open>simp_all add: cmd_script_def\<close>)
next
  case (Some domain)
  obtain k where k: "g_co s (cp_client cp) = Some k" using cp by (auto simp: cp_ok_def fits_def)
  let ?d = "if domain = ''auto'' then (case JSTR ''domain'' cp of None \<Rightarrow> domain | Some autodom \<Rightarrow> autodom) else domain"
  let ?xs = "script_head ?d # map script_line (JFOREACH ''scripts'' cp) @ [cbytes script_foot 30]"
  obtain f s' where s': "send_chunks (x_env X) (s_fd k) ?xs s = Some (f, s')" "wrote (s_fd k) (concat ?xs) s s'" "g_raws s' = g_raws s"
    by (rule send_chunks_wrote [OF os])
  have "replied (s_fd k) s s'" using wrote_others [OF s'(2)] s'(2,3) by (auto simp: replied_def wrote_def)
  note W = world_replied(1,2) [OF w this]
  show ?thesis
    by (rule servedI [OF _ _ W, where flag = RETURN_NOTHING]) (use Some k s'(1) in \<open>simp_all add: cmd_script_def Let_def\<close>)
qed

lemma transport_who: "map_option who (g_users s' v) = map_option who (g_users s v) \<Longrightarrow> transport_of s' v = transport_of s v"
  by (cases "g_users s' v"; cases "g_users s v"; simp add: transport_of_def who_def)

lemma deluser_serving:
  assumes q: "quiet E" and sv: "serving s" and u: "u \<in> dom (g_users s)"
  obtains s' where "deluser E (Some u) s = Some s'" "serving s'" "dom (g_users s') = dom (g_users s) - {u}"
    "g_uHead s' = remove1 u (g_uHead s)" "g_co s' = g_co s" "g_now s' = g_now s"
    "\<And>b. owner s b \<noteq> Some u \<Longrightarrow> conn s' b = conn s b \<and> owner s' b = owner s b"
    "dom (g_detached s') = dom (g_detached s) \<union> {b. owner s b = Some u \<and> alive s b}"
    "\<And>v. v \<noteq> u \<Longrightarrow> map_option who (g_users s' v) = map_option who (g_users s v)"
proof -
  obtain s' where 2: "deluser E (Some u) s = Some s'" "world s'" "dom (g_users s') = dom (g_users s) - {u}" "g_co s' = g_co s"
    "\<And>b. owner s b \<noteq> Some u \<Longrightarrow> conn s' b = conn s b \<and> owner s' b = owner s b" "\<And>b. owner s b = Some u \<Longrightarrow> g_subs s' b = None"
    "dom (g_detached s') = dom (g_detached s) \<union> {b. owner s b = Some u \<and> alive s b}" "bufout (g_sk s') = bufout (g_sk s)"
    "\<And>v. v \<noteq> u \<Longrightarrow> map_option who (g_users s' v) = map_option who (g_users s v)" "g_uHead s' = remove1 u (g_uHead s)" "g_now s' = g_now s"
    by (rule deluser_spec [OF q servingD(1) [OF sv] u]) (rule that; assumption)
  have "link_ok s' (transport_of s' v) x" if "owner s' b = Some v" "conn s' b = Some x" for b v x
  proof -
    have "g_subs s' b \<noteq> None" using that(2) by (auto simp: conn_def)
    then have "owner s b \<noteq> Some u" using 2(6) [of b] by auto
    then have o: "conn s b = Some x" "owner s b = Some v" "v \<noteq> u" using 2(5) [of b] that by auto
    show ?thesis using servingD(4) [OF sv o(2,1)] transport_who [OF 2(9) [OF o(3)]] link_ok_co(1) [OF 2(4)] by simp
  qed
  moreover have "sock_inv (g_sk s')" using sock_inv_cong [OF 2(8)] servingD(3) [OF sv] by simp
  ultimately have "serving s'" using 2(2) by (simp add: serving_def)
  then show thesis by (rule that [OF 2(1) _ 2(3,10,4,11,5,7,9)])
qed

lemma cmd_quit_ok:
  assumes os: "good_os (e_os (x_env X))" and q: "quiet (x_env X)" and sv: "serving s" and cp: "cp_ok s cp" and u: "cp_call_user cp = Some u"
  obtains s' where "cmd_quit X cp s = Some (RETURN_NULL, cp, s')" "serving s'" "g_co s' = g_co s" "dom (g_users s') = dom (g_users s) - {u}"
    "\<And>b. owner s b \<noteq> Some u \<Longrightarrow> conn s' b = conn s b \<and> owner s' b = owner s b" "dom (g_detached s') = dom (g_detached s) \<union> {b. owner s b = Some u \<and> alive s b}"
proof -
  note w = servingD(1) [OF sv]
  obtain k where k: "g_co s (cp_client cp) = Some k" "cp_transport cp = TRANSPORT_WEBSOCKET_IETF \<Longrightarrow> s_ws k \<noteq> None"
    using cp by (auto simp: cp_ok_def fits_def)
  let ?j = "json_set_property_strZ json_new_object (Some ''value'') ''null''"
  have jw: "json_wf ?j" by (simp add: json_container_wf)
  obtain s1 where 1: "inline_raw (x_env X) (cp_client cp) (cp_transport cp) ''QUIT'' ?j s = Some s1" "replied (s_fd k) s s1"
    by (rule inline_raw_spec [OF os servingD(3) [OF sv] w jw k(1)], erule k(2)) (rule that; assumption)
  note W = world_replied(1,2) [OF w 1(2)]
  have sv1: "serving s1" by (rule serving_kept [OF sv W])
  have ud: "u \<in> dom (g_users s1)" by (rule cp_okD [OF cp u worldD(1) [OF w]]) (use repliedD(1) [OF 1(2)] in auto)
  obtain s' where 2: "deluser (x_env X) (Some u) s1 = Some s'" "serving s'" "dom (g_users s') = dom (g_users s1) - {u}" "g_co s' = g_co s1"
    "\<And>b. owner s1 b \<noteq> Some u \<Longrightarrow> conn s' b = conn s1 b \<and> owner s' b = owner s1 b"
    "dom (g_detached s') = dom (g_detached s1) \<union> {b. owner s1 b = Some u \<and> alive s1 b}"
    by (rule deluser_serving [OF q sv1 ud]) (rule that; assumption)
  have K: "owner s1 = owner s" "conn s1 = conn s" "g_co s1 = g_co s" "g_detached s1 = g_detached s" "dom (g_users s1) = dom (g_users s)"
    using keptD [OF W(2)] by simp_all
  have "cmd_quit X cp s = Some (RETURN_NULL, cp, s')"
    using 1(1) 2(1) u by (auto simp: cmd_quit_def inline_raw_def bind_eq_Some_conv)
  then show thesis using 2(2-6) K by (intro that [of s']) (auto simp: alive_def)
qed

lemma handle_bad_cmd_plain: "bad_cmd_callbacks (x_tab X) = [] \<Longrightarrow> handle_bad_cmd X cp s = Some (RETURN_BAD_CMD, cp\<lparr>cp_data := None\<rparr>, s)"
  by (simp add: handle_bad_cmd_def)

lemma world_nConnected:
  assumes w: "world s"
  shows "world (s\<lparr>g_nConnected := n\<rparr>)" (is "world ?s'") "kept s (s\<lparr>g_nConnected := n\<rparr>)"
proof -
  note D = baseD [OF worldD(1) [OF w]]
  have e: "owner ?s' = owner s" "subs_of ?s' = subs_of s" "host ?s' = host s" "conn ?s' = conn s" "target ?s' = target s"
    "foot ?s' = foot s" "members ?s' = members s" "transport_of ?s' = transport_of s"
    by (simp_all add: owner_def subs_of_def host_def conn_def target_def foot_def members_def transport_of_def fun_eq_iff)
  show "kept s ?s'" by (simp add: kept_def e)
  have "base ?s'"
  proof (rule baseI; (unfold e)?)
    show "msg_inv ?s'" by (rule msg_inv_cong [OF D(1)]) simp_all
  qed (use D in simp_all)
  then show "world ?s'" using worldD(2) [OF w] e by (simp add: world_def linked_def)
qed

lemma cmd_connect_ok:
  assumes q: "quiet (x_env X)" and w: "world s" and cp: "cp_ok s cp" and u: "cp_call_user cp = Some u"
  shows "served s cp (cmd_connect X cp s)"
proof -
  let ?E = "x_env X"
  obtain b B U where b: "cp_call_subuser cp = Some b" "owner s b = Some u" "g_subs s b = Some B" "g_users s u = Some U"
    by (rule cp_okD [OF cp u worldD(1) [OF w]]) (rule that; assumption)
  define s0 where "s0 = s\<lparr>g_users := (g_users s)(u \<mapsto> U\<lparr>u_istmp := False\<rparr>)\<rparr>"
  have ok: "user_ok (U\<lparr>u_istmp := False\<rparr>)" using baseD(12) [OF worldD(1) [OF w] b(4)] by (simp add: user_ok_def sessions_ok_def)
  note W0 = user_upd_world(1,2) [OF w b(4) _ _ _ _ _ ok s0_def, simplified]
  define s1 where "s1 = s0\<lparr>g_nConnected := g_nConnected s0 + 1\<rparr>"
  note W1 = world_nConnected [OF W0(1), of "g_nConnected s0 + 1", folded s1_def]
  have k1: "kept s s1" by (rule kept_trans [OF W0(2) W1(2)])
  have d1: "u \<in> dom (g_users s1)" "b \<in> dom (g_subs s1)" using b(3) by (auto simp: s1_def s0_def)
  obtain ju where ju: "get_json_object_user (Some u) s1 = Some ju" "json_container ju" by (rule user_json [OF worldD(1) [OF W1(1)] d1(1)])
  have jw: "json_wf (json_set_property_objN json_new_object (Some ''user'') 4 ju)" using ju(2) by (simp add: json_container_wf)
  obtain r s2 where 2: "post_hi ?E ''IDENT'' (json_set_property_objN json_new_object (Some ''user'') 4 ju) b s1 = Some s2" "world s2" "posted s1 s2"
    by (rule post_hi_spec [OF q W1(1) jw d1(2)]) (rule that; assumption)
  obtain V where V: "g_users s2 u = Some V" using posted_frame(1) [OF 2(3)] d1(1) by auto
  let ?j = "json_set_property_strN json_new_object (Some ''sessid'') 6 (u_sessid V) 32"
  have jw2: "json_wf ?j" by (simp add: json_container_wf)
  obtain r' s3 where 3: "forge_raw_hi RAW_LOGIN ?j s2 = Some (r', s3)" "msg_inv s3" "posted s2 s3" "shared s3 r'"
    by (rule forge_raw_hi_spec [OF baseD(1) [OF worldD(1) [OF 2(2)]] jw2]) (rule that; assumption)
  have W3: "world s3" by (rule world_posted [OF 2(2) 3(3,2)])
  have "u \<in> dom (g_users s3)" using posted_frame(1) [OF 3(3)] V by auto
  from base_reachable [OF worldD(1) [OF W3] this] obtain s' where 4: "post_raw ?E r' u s3 = Some s'" "msg_inv s'" "posted s3 s'"
    by (rule post_raw_spec [OF q 3(2,4)]) (rule that; assumption)
  have k: "kept s s'" by (rule kept_trans [OF k1 kept_trans [OF kept_posted [OF 2(3)] kept_trans [OF kept_posted [OF 3(3)] kept_posted [OF 4(3)]]]])
  have add: "adduser ?E None [] [] (Some u) s = Some (Some u, s1)"
    using quietD(2) [OF q] b(4) by (simp add: adduser_def upd_user_def s1_def s0_def)
  have "cp\<lparr>cp_call_user := Some u\<rparr> = cp" using u by simp
  then have "cmd_connect X cp s = Some (RETURN_NOTHING, cp, s')"
    using u add b(1) ju(1) 2(1) V 3(1) 4(1) by (simp add: cmd_connect_def)
  then show ?thesis by (rule servedI [OF _ _ world_posted [OF W3 4(3,2)] k]) simp
qed

end
