(* ===== verification/Ape_Attach.thy ===== *)
theory Ape_Attach
  imports Ape_Serve
begin

text \<open>
  The connection a request comes on: replies on it, its take-over from an older one, and the subuser that
  stands for it. On a consistent state these return and leave the state consistent.
\<close>

section \<open>Attaching a connection\<close>

text \<open>No user was added or removed, and no connection was opened or closed.\<close>

definition co_core :: "ape_socket \<Rightarrow> nat \<times> ws_version option" where
  "co_core k = (s_fd k, s_ws k)"

definition grown :: "acetables \<Rightarrow> acetables \<Rightarrow> bool" where
  "grown s s' \<longleftrightarrow> dom (g_users s') = dom (g_users s) \<and> transport_of s' = transport_of s \<and>
     (\<forall>c. map_option co_core (g_co s' c) = map_option co_core (g_co s c)) \<and> g_rpos s' = g_rpos s \<and> taken s' = taken s \<and>
     g_now s' = g_now s \<and> g_detached s' = g_detached s"

lemma grown_refl [simp]: "grown s s"
  by (simp add: grown_def)

lemma grown_trans: "grown s s' \<Longrightarrow> grown s' s'' \<Longrightarrow> grown s s''"
  by (simp add: grown_def)

lemma link_grown:
  assumes "grown s s'"
  shows "open_at s' = open_at s" "fits s' = fits s" "link_ok s' = link_ok s"
proof -
  have f: "map_option s_fd (g_co s' c) = map_option s_fd (g_co s c)" "Option.bind (g_co s' c) s_ws = Option.bind (g_co s c) s_ws" for c
  proof -
    have "map_option co_core (g_co s' c) = map_option co_core (g_co s c)" using assms by (simp add: grown_def)
    then show "map_option s_fd (g_co s' c) = map_option s_fd (g_co s c)" "Option.bind (g_co s' c) s_ws = Option.bind (g_co s c) s_ws"
      by (cases "g_co s' c"; cases "g_co s c"; simp add: co_core_def)+
  qed
  have d: "c \<in> dom (g_co s') \<longleftrightarrow> c \<in> dom (g_co s)" for c using f(1) [of c] by (metis domIff map_option_is_None)
  show a: "open_at s' = open_at s" "fits s' = fits s" by (rule ext, simp add: open_at_def f(1)) (intro ext, simp add: fits_def f(2) d)
  show "link_ok s' = link_ok s" by (intro ext) (simp only: link_ok_def a d)
qed

text \<open>No subuser was added or removed either; it may have changed its state.\<close>

definition steady :: "acetables \<Rightarrow> acetables \<Rightarrow> bool" where
  "steady s s' \<longleftrightarrow> owner s' = owner s \<and> subs_of s' = subs_of s \<and> host s' = host s \<and> dom (g_users s') = dom (g_users s) \<and>
     dom (g_subs s') = dom (g_subs s) \<and> transport_of s' = transport_of s \<and>
     (\<forall>c. map_option co_core (g_co s' c) = map_option co_core (g_co s c)) \<and> g_now s' = g_now s \<and> g_rpos s' = g_rpos s \<and>
     taken s' = taken s \<and> g_detached s' = g_detached s \<and> (sock_inv (g_sk s) \<longrightarrow> sock_inv (g_sk s'))"

lemma steadyD:
  assumes "steady s s'"
  shows "owner s' = owner s" "subs_of s' = subs_of s" "host s' = host s" "dom (g_users s') = dom (g_users s)"
    "dom (g_subs s') = dom (g_subs s)" "transport_of s' = transport_of s"
    "map_option co_core (g_co s' c) = map_option co_core (g_co s c)" "g_now s' = g_now s" "g_rpos s' = g_rpos s"
    "taken s' = taken s" "g_detached s' = g_detached s" "sock_inv (g_sk s) \<Longrightarrow> sock_inv (g_sk s')"
  using assms by (simp_all add: steady_def)

lemma steady_refl [simp]: "steady s s"
  by (simp add: steady_def)

lemma steady_trans: "steady s s' \<Longrightarrow> steady s' s'' \<Longrightarrow> steady s s''"
  by (simp add: steady_def)

lemma kept_steady: "kept s s' \<Longrightarrow> g_rpos s' = g_rpos s \<Longrightarrow> taken s' = taken s \<Longrightarrow> steady s s'"
  by (simp add: kept_def steady_def)

lemma steady_posted: "posted s s' \<Longrightarrow> steady s s'"
  by (intro kept_steady kept_posted posted_frame(9) taken_posted)

lemma steady_replied:
  assumes "world s" and "replied fd s s'"
  shows "steady s s'"
  by (rule kept_steady [OF world_replied(2) [OF assms] repliedD(11) [OF assms(2)]]) (simp add: taken_def repliedD [OF assms(2)])

lemma steady_grown: "steady s s' \<Longrightarrow> grown s s'"
  by (simp add: grown_def steady_def)

lemmas link_steady = link_grown [OF steady_grown]

lemma serving_steady:
  assumes sv: "serving s" and w: "world s'" and st: "steady s s'"
    and c: "\<And>b u x. owner s b = Some u \<Longrightarrow> conn s' b = Some x \<Longrightarrow> conn s b \<noteq> Some x \<Longrightarrow> link_ok s (transport_of s u) x"
  shows "serving s'"
  unfolding serving_def
proof (intro conjI allI impI)
  show "world s'" by (rule w)
  show "sock_inv (g_sk s')" by (rule steadyD(12) [OF st servingD(3) [OF sv]])
  fix b u x assume "owner s' b = Some u" "conn s' b = Some x"
  then show "link_ok s' (transport_of s' u) x"
    using c [of b u x] servingD(4) [OF sv, of b u x] steadyD(1,6) [OF st] link_steady(3) [OF st] by metis
qed

text \<open>Changing the flags, state or client of a connection.\<close>

lemma sub_upd_serving:
  assumes sv: "serving s" and B: "g_subs s b = Some B" and u: "owner s b = Some u" and sl: "same_link B B'"
    and l: "link_ok s (transport_of s u) (sub_state B', sub_client B')" and s': "s' = s\<lparr>g_subs := (g_subs s)(b \<mapsto> B')\<rparr>"
  shows "serving s'" "steady s s'" "conn s' = (conn s)(b \<mapsto> (sub_state B', sub_client B'))" "lowq s' = lowq s" "highq s' = highq s"
proof -
  have cl: "sub_client B' \<in> Some ` dom (g_co s)" using l unfolding link_ok_def by force
  note W = sub_upd_world [OF servingD(1) [OF sv] B sl cl s']
  have "dom (g_subs s') = dom (g_subs s)" using B by (auto simp: s')
  then show st: "steady s s'" using W by (simp add: steady_def) (simp add: s' transport_of_def fun_eq_iff taken_def)
  show "serving s'" by (rule serving_steady [OF sv W(1) st]) (use W(9) l u in \<open>auto split: if_splits\<close>)
  show "conn s' = (conn s)(b \<mapsto> (sub_state B', sub_client B'))" "lowq s' = lowq s" "highq s' = highq s" by (rule W)+
qed

lemma detach_serving:
  assumes sv: "serving s" and k: "g_co s c = Some k"
  obtains s' where "detach c s = Some s'" "serving s'" "steady s s'" "conn s' = conn s" "g_subs s' = g_subs s" "g_sk s' = g_sk s"
proof -
  define s' where "s' = s\<lparr>g_co := (g_co s)(c \<mapsto> k\<lparr>s_attach := None\<rparr>)\<rparr>"
  note D = baseD [OF servingD(2) [OF sv]]
  have e: "owner s' = owner s" "subs_of s' = subs_of s" "host s' = host s" "target s' = target s" "transport_of s' = transport_of s"
    "foot s' = foot s" "members s' = members s" "taken s' = taken s" and c: "conn s' = conn s"
    by (simp_all add: s'_def owner_def subs_of_def host_def conn_def target_def transport_of_def foot_def members_def taken_def fun_eq_iff)
  have dm: "dom (g_co s') = dom (g_co s)" using k by (auto simp: s'_def)
  have "base s'"
  proof (rule baseI; (unfold e c dm)?)
    show "msg_inv s'" by (rule msg_inv_cong [OF D(1)]) (simp_all add: s'_def)
  qed (use D in \<open>simp_all add: s'_def\<close>)
  then have w: "world s'" using worldD(2) [OF servingD(1) [OF sv]] e by (simp add: world_def linked_def)
  have "map_option co_core (g_co s' d) = map_option co_core (g_co s d)" for d using k by (simp add: s'_def co_core_def)
  then have st: "steady s s'" by (simp add: steady_def e) (simp add: s'_def)
  have sv': "serving s'" by (rule serving_steady [OF sv w st]) (use c in simp)
  show thesis by (rule that [OF _ sv' st c]) (use k in \<open>simp_all add: detach_def s'_def\<close>)
qed

lemma shutdown_serving:
  assumes sv: "serving s" and s': "s' = s\<lparr>g_sk := safe_shutdown fd (g_sk s)\<rparr>"
  shows "serving s'" "steady s s'" "conn s' = conn s"
proof -
  note w = servingD(1) [OF sv]
  have "sock_inv (g_sk s')" using servingD(3) [OF sv] by (simp add: s' sock_inv_def)
  then have r: "replied 0 s s'" by (simp add: replied_def) (simp add: s' outp_def pending_def)
  note W = world_replied [OF w r]
  show st: "steady s s'" by (rule steady_replied [OF w r])
  show c: "conn s' = conn s" using keptD(4) [OF W(2)] .
  show "serving s'" by (rule serving_kept [OF sv W(1,2)])
qed

lemma inline_serving:
  assumes os: "good_os (e_os E)" and sv: "serving s" and j: "json_wf j" and f: "fits s (Some tr) cl"
  obtains s' where "inline_raw E cl tr n j s = Some s'" "serving s'" "steady s s'" "conn s' = conn s" "g_subs s' = g_subs s" "g_co s' = g_co s"
proof -
  note w = servingD(1) [OF sv]
  obtain k where k: "g_co s cl = Some k" "tr = TRANSPORT_WEBSOCKET_IETF \<Longrightarrow> s_ws k \<noteq> None" using f by (auto simp: fits_def)
  obtain s' where s': "inline_raw E cl tr n j s = Some s'" "replied (s_fd k) s s'"
    by (rule inline_raw_spec [OF os servingD(3) [OF sv] w j k(1)], erule k(2)) (rule that; assumption)
  note W = world_replied [OF w s'(2)]
  show thesis
    by (rule that [OF s'(1) serving_kept [OF sv W(1,2)] steady_replied [OF w s'(2)] keptD(4) [OF W(2)] repliedD(2,12) [OF s'(2)]])
qed

text \<open>The request as \<open>process_cmd\<close> gets it. The host name fits and the transport is the one the user
  connected with.\<close>

definition pc_ok :: "acetables \<Rightarrow> cmd_process \<Rightarrow> bool" where
  "pc_ok s pc \<longleftrightarrow> open_at s (pc_client pc) \<and> fits s (Some (pc_transport pc)) (pc_client pc) \<and> length (pc_host pc) \<le> MAX_HOST_LENGTH \<and>
     (\<forall>u. pc_guser pc = Some u \<longrightarrow> transport_of s u = Some (pc_transport pc)) \<and>
     (\<forall>b. pc_sub pc = Some b \<longrightarrow> alive s b \<and> owner s b = pc_guser pc)"

lemma pc_ok_steady: "pc_ok s pc \<Longrightarrow> steady s s' \<Longrightarrow> (\<And>b. pc_sub pc = Some b \<Longrightarrow> alive s' b) \<Longrightarrow> pc_ok s' pc"
  using link_steady(1,2) [of s s'] steadyD(1,6) [of s s'] by (simp add: pc_ok_def)

lemma takeover_spec:
  assumes os: "good_os (e_os E)" and sv: "serving s" and pc: "pc_ok s pc" and u: "owner s b = Some u"
    and tr: "transport_of s u = Some (pc_transport pc)" and cn: "conn s b = Some (ALIVE, Some cl)" and ne: "cl \<noteq> pc_client pc"
  obtains lis att st s' where "takeover E pc u b s = Some (Some lis, att, s')" "serving s'" "steady s s'"
    "conn s' = (conn s)(b \<mapsto> (st, Some lis))" "lis \<in> {cl, pc_client pc}"
proof -
  obtain B where B: "g_subs s b = Some B" "sub_state B = ALIVE" "sub_client B = Some cl" using cn by (auto simp: conn_def)
  obtain U where U: "g_users s u = Some U" "u_transport U = pc_transport pc" using tr by (auto simp: transport_of_def)
  have lk: "fits s (Some (pc_transport pc)) cl" "open_at s cl" using servingD(4) [OF sv u cn] tr by (auto simp: link_ok_def)
  have lp: "fits s (Some (pc_transport pc)) (pc_client pc)" "open_at s (pc_client pc)" using pc by (simp_all add: pc_ok_def)
  define r where "r = transport_open_same_host (Some cl) (Some (pc_client pc)) (u_transport U)"
  obtain cls lis where r: "client_close r = Some cls" "client_listener r = Some lis" "{cls, lis} = {cl, pc_client pc}" "cls \<noteq> lis"
    using ne by (cases "u_transport U \<in> {TRANSPORT_PERSISTANT, TRANSPORT_XHRSTREAMING, TRANSPORT_SSE_LONGPOLLING}")
      (auto simp: r_def transport_open_same_host_def)
  have both: "fits s (Some (pc_transport pc)) x" "open_at s x" if "x \<in> {cls, lis}" for x using that lk lp unfolding r(3) by auto
  obtain k where k: "g_co s cls = Some k" "s_fd k = cls" using both(2) [of cls] by (auto simp: open_at_def)
  obtain kp where kp: "g_co s (pc_client pc) = Some kp" "s_fd kp = pc_client pc" using lp(2) by (auto simp: open_at_def)
  have inl: "(if s_fd k = s_fd kp then pc_client pc else cl) = cls" using r(3,4) k(2) kp(2) ne by auto
  let ?j = "json_set_property_strZ json_new_object (Some ''value'') ''null''"
  have jw: "json_wf ?j" by (simp add: json_container_wf)
  obtain s1 where 1: "(if \<not> sub_sent B then inline_raw E cls (pc_transport pc) ''CLOSE'' ?j s else Some s) = Some s1" "serving s1"
    "steady s s1" "conn s1 = conn s" "g_subs s1 = g_subs s" "g_co s1 = g_co s"
  proof (cases "sub_sent B")
    case False
    have fc: "fits s (Some (pc_transport pc)) cls" using both(1) [of cls] by simp
    obtain t where "inline_raw E cls (pc_transport pc) ''CLOSE'' ?j s = Some t" "serving t" "steady s t" "conn t = conn s"
      "g_subs t = g_subs s" "g_co t = g_co s"
      by (rule inline_serving [OF os sv jw fc]) (rule that; assumption)
    then show thesis using False by (intro that [of t]) simp_all
  qed (use sv in \<open>intro that [of s]; simp\<close>)
  have B1: "g_subs s1 b = Some B" and o1: "owner s1 b = Some u" and t1: "transport_of s1 = transport_of s"
    using B(1) 1(5) u steadyD(1,6) [OF 1(3)] by simp_all
  let ?B = "B\<lparr>sub_state := ADIED, sub_sent := False, sub_content := None, sub_burn_after_writing := False\<rparr>"
  define s2 where "s2 = s1\<lparr>g_subs := (g_subs s1)(b \<mapsto> ?B)\<rparr>"
  have l2: "link_ok s1 (transport_of s1 u) (sub_state ?B, sub_client ?B)"
    using fits_dom [OF lk(1)] 1(6) B(3) by (simp add: link_ok_def)
  note 2 = sub_upd_serving [OF 1(2) B1 o1 _ l2 s2_def, simplified]
  have k2: "g_co s2 cls = Some k" using 1(6) k(1) by (simp add: s2_def)
  obtain s3 where 3: "detach cls s2 = Some s3" "serving s3" "steady s2 s3" "conn s3 = conn s2" "g_subs s3 = g_subs s2"
    by (rule detach_serving [OF 2(1) k2]) (rule that; assumption)
  define s4 where "s4 = s3\<lparr>g_sk := safe_shutdown cls (g_sk s3)\<rparr>"
  note 4 = shutdown_serving [OF 3(2) s4_def]
  have st4: "steady s s4" by (rule steady_trans [OF 1(3) steady_trans [OF 2(2) steady_trans [OF 3(3) 4(2)]]])
  have B4: "g_subs s4 b = Some ?B" and o4: "owner s4 b = Some u" and t4: "transport_of s4 = transport_of s"
    using 3(5) u steadyD(1,6) [OF st4] by (simp_all add: s4_def s2_def)
  let ?C = "?B\<lparr>sub_client := client_listener r, sub_state := ret_substate r\<rparr>"
  define s' where "s' = s4\<lparr>g_subs := (g_subs s4)(b \<mapsto> ?C)\<rparr>"
  have l5: "link_ok s4 (transport_of s4 u) (sub_state ?C, sub_client ?C)"
    using both [of lis] fits_dom [of s4] link_steady(1,2) [OF st4] tr t4 r(2) by (simp add: link_ok_def)
  have sl: "same_link ?B ?C" by (simp add: same_link_def)
  note 5 = sub_upd_serving [OF 4(1) B4 o4 sl l5 s'_def]
  have "takeover E pc u b s = Some (Some lis, ret_attach r, s')"
    using B U(1) k kp 1(1) B1 B4 r(1,2) 3(1) inl
    by (cases "sub_sent B") (simp_all add: takeover_def r_def [symmetric] Let_def upd_sub_def s2_def s4_def s'_def)
  moreover have "conn s' = (conn s)(b \<mapsto> (ret_substate r, Some lis))" using 5(3) 4(3) 3(4) 2(3) 1(4) r(2) by simp
  moreover have "lis \<in> {cl, pc_client pc}" using r(3) by auto
  ultimately show thesis using 5(1) steady_trans [OF st4 5(2)] by (intro that)
qed

lemma conn_of: "g_subs s b = Some B \<Longrightarrow> conn s b = Some (sub_state B, sub_client B)"
  by (simp add: conn_def)

lemma owned:
  assumes "base s" and "owner s b = Some u"
  obtains B U where "g_subs s b = Some B" "sub_user B = Some u" "g_users s u = Some U"
  using owner_user [OF assms] assms(2) by (auto simp: owner_def bind_eq_Some_conv)

lemma flag_serving:
  assumes sv: "serving s" and u: "owner s b = Some u" and f: "\<And>B. same_link B (f B) \<and> sub_state (f B) = sub_state B \<and> sub_client (f B) = sub_client B"
  obtains s' where "upd_sub b f s = Some s'" "serving s'" "steady s s'" "conn s' = conn s" "g_users s' = g_users s"
proof -
  obtain B where B: "g_subs s b = Some B" by (rule owned [OF servingD(2) [OF sv] u])
  have l: "link_ok s (transport_of s u) (sub_state (f B), sub_client (f B))" using servingD(4) [OF sv u conn_of [OF B]] f [of B] by simp
  define s' where "s' = s\<lparr>g_subs := (g_subs s)(b \<mapsto> f B)\<rparr>"
  have sl: "same_link B (f B)" using f by blast
  note S = sub_upd_serving [OF sv B u sl l s'_def]
  have "conn s' = conn s" using S(3) f [of B] conn_of [OF B] by (simp add: fun_upd_idem)
  then show thesis by (intro that [OF _ S(1,2)]) (use B in \<open>simp_all add: upd_sub_def s'_def\<close>)
qed

lemma taken_user_upd:
  assumes "g_users s u = Some U" and "u_sessid U' = u_sessid U" and "g_users s' = (g_users s)(u \<mapsto> U')" and "g_pipes s' = g_pipes s"
  shows "taken s' = taken s"
proof -
  have "x \<in> u_sessid ` ran (g_users s') \<longleftrightarrow> x \<in> u_sessid ` ran (g_users s)" for x
  proof -
    have "(\<exists>a V. g_users s' a = Some V \<and> x = u_sessid V) \<longleftrightarrow> (\<exists>a V. g_users s a = Some V \<and> x = u_sessid V)"
      using assms(1-3) by auto (metis option.inject)
    then show ?thesis by (auto simp: ran_def image_iff)
  qed
  then show ?thesis using assms(4) by (auto simp: taken_def)
qed

lemma idle_serving:
  assumes sv: "serving s" and u: "u \<in> dom (g_users s)"
  obtains s' where "upd_user u (\<lambda>x. x\<lparr>u_idle := i\<rparr>) s = Some s'" "serving s'" "steady s s'" "conn s' = conn s"
proof -
  obtain U where U: "g_users s u = Some U" using u by auto
  define s' where "s' = s\<lparr>g_users := (g_users s)(u \<mapsto> U\<lparr>u_idle := i\<rparr>)\<rparr>"
  have ok: "user_ok (U\<lparr>u_idle := i\<rparr>)" using baseD(12) [OF servingD(2) [OF sv] U] by (simp add: user_ok_def sessions_ok_def)
  note W = user_upd_world(1,2) [OF servingD(1) [OF sv] U _ _ _ _ _ ok s'_def, simplified]
  have "taken s' = taken s" by (rule taken_user_upd [OF U]) (simp_all add: s'_def)
  then have "steady s s'" by (intro kept_steady [OF W(2)]) (simp_all add: s'_def)
  then show thesis
    by (intro that [OF _ serving_kept [OF sv W] _ keptD(4) [OF W(2)]]) (use U in \<open>simp_all add: upd_user_def s'_def\<close>)
qed

text \<open>Finding or making the subuser of an identified user for the request's host.\<close>

lemma new_sub_serving:
  assumes q: "quiet E" and sv: "serving s" and u: "u \<in> dom (g_users s)" and h: "ch \<notin> host s ` set (subs_of s u)" "length ch \<le> MAX_HOST_LENGTH"
    and cl: "fits s (transport_of s u) cl"
  obtains b s' where "addsubuser E (Some cl) ch u s = Some (Some b, s')" "serving s'" "grown s s'" "owner s' b = Some u"
    "conn s' b = Some (ADIED, Some cl)"
proof -
  obtain U where U: "g_users s u = Some U" using u by auto
  let ?n = "g_next s"
  obtain s' where 1: "addsubuser E (Some cl) ch u s = Some (Some ?n, s')" "world s'" "owner s' = (owner s)(?n := Some u)"
    "g_users s' = (g_users s)(u \<mapsto> U\<lparr>u_nsub := u_nsub U + 1, u_subuser := ?n # u_subuser U\<rparr>)"
    "g_co s' = g_co s" "g_sk s' = g_sk s" "conn s' = (conn s)(?n \<mapsto> (ADIED, Some cl))" "g_pipes s' = g_pipes s" "g_rpos s' = g_rpos s"
    "g_now s' = g_now s" "g_detached s' = g_detached s"
    by (rule addsubuser_spec [OF q servingD(1) [OF sv] U h]) (rule that; assumption)
  have tr: "transport_of s' = transport_of s" using U 1(4) by (simp add: transport_of_def fun_eq_iff)
  have tk: "taken s' = taken s" by (rule taken_user_upd [OF U _ 1(4,8)]) simp
  have dm: "dom (g_users s') = dom (g_users s)" using U 1(4) by auto
  have g: "grown s s'" using tr tk dm 1(5,9-11) by (simp add: grown_def)
  have "serving s'" unfolding serving_def
  proof (intro conjI allI impI)
    show "world s'" by (rule 1(2))
    show "sock_inv (g_sk s')" using 1(6) servingD(3) [OF sv] by simp
    fix b v x assume o: "owner s' b = Some v" "conn s' b = Some x"
    show "link_ok s' (transport_of s' v) x"
    proof (cases "b = ?n")
      case True
      then show ?thesis using o 1(3,5,7) fits_dom [OF cl] by (auto simp: link_ok_def)
    next
      case False
      then show ?thesis using o 1(3,7) servingD(4) [OF sv, of b v x] link_grown(3) [OF g] tr by simp
    qed
  qed
  then show thesis by (intro that [OF 1(1) _ g]) (use 1(3,7) in simp_all)
qed

lemma pick_sub_spec:
  assumes os: "good_os (e_os E)" and q: "quiet E" and sv: "serving s" and pc: "pc_ok s pc" and u: "u \<in> dom (g_users s)"
    and tr: "transport_of s u = Some (pc_transport pc)"
  obtains client b att s' st cl where "pick_sub E pc u s = Some (client, Some b, att, s')" "serving s'" "grown s s'" "owner s' b = Some u"
    "conn s' b = Some (st, Some cl)" "open_at s cl" "fits s (Some (pc_transport pc)) cl" "client = None \<or> client = Some cl"
proof (cases "find (\<lambda>b. host s b = pc_host pc) (subs_of s u)")
  case None
  have h: "pc_host pc \<notin> host s ` set (subs_of s u)" using None by (auto simp: find_None_iff)
  have lp: "fits s (Some (pc_transport pc)) (pc_client pc)" "open_at s (pc_client pc)" "length (pc_host pc) \<le> MAX_HOST_LENGTH"
    using pc by (simp_all add: pc_ok_def)
  have ft: "fits s (transport_of s u) (pc_client pc)" using lp(1) tr by simp
  have gs: "getsubuser u (pc_host pc) s = Some None" using getsubuser_eq [OF servingD(2) [OF sv] u] None by simp
  obtain b s1 where 1: "addsubuser E (Some (pc_client pc)) (pc_host pc) u s = Some (Some b, s1)" "serving s1" "grown s s1"
    "owner s1 b = Some u" "conn s1 b = Some (ADIED, Some (pc_client pc))"
    by (rule new_sub_serving [OF q sv u h lp(3) ft]) (rule that; assumption)
  obtain s2 where 2: "subuser_restor E b s1 = Some s2" "world s2" "posted s1 s2"
    by (rule subuser_restor_spec [OF q servingD(1) [OF 1(2)] 1(4)]) (rule that; assumption)
  have "serving s2" by (rule serving_kept [OF 1(2) 2(2) kept_posted [OF 2(3)]])
  moreover have "grown s s2" by (rule grown_trans [OF 1(3) steady_grown [OF steady_posted [OF 2(3)]]])
  moreover have "owner s2 b = Some u" "conn s2 b = Some (ADIED, Some (pc_client pc))" using posted_sub(1,7) [OF 2(3)] 1(4,5) by simp_all
  ultimately show thesis using lp by (intro that [of None b True s2]) (use gs 1(1) 2(1) in \<open>simp_all add: pick_sub_def\<close>)
next
  case (Some b)
  have lp: "fits s (Some (pc_transport pc)) (pc_client pc)" "open_at s (pc_client pc)" using pc by (simp_all add: pc_ok_def)
  have gs: "getsubuser u (pc_host pc) s = Some (Some b)" using getsubuser_eq [OF servingD(2) [OF sv] u] Some by simp
  have "b \<in> set (subs_of s u)" using Some by (auto simp: find_Some_iff)
  then have o: "owner s b = Some u" using baseD(7) [OF servingD(2) [OF sv]] by simp
  obtain B where B: "g_subs s b = Some B" by (rule owned [OF servingD(2) [OF sv] o])
  obtain cl where cl: "sub_client B = Some cl" "cl \<in> dom (g_co s)" "sub_state B = ALIVE \<Longrightarrow> open_at s cl \<and> fits s (Some (pc_transport pc)) cl"
    using servingD(4) [OF sv o conn_of [OF B]] tr by (auto simp: link_ok_def)
  obtain kc kp where k: "g_co s cl = Some kc" "g_co s (pc_client pc) = Some kp" using cl(2) fits_dom [OF lp(1)] by auto
  have fp: "s_fd kp = pc_client pc" using lp(2) k(2) by (simp add: open_at_def)
  show thesis
  proof (cases "s_fd kc \<noteq> s_fd kp \<and> sub_state B = ALIVE")
    case True
    then have ne: "cl \<noteq> pc_client pc" and cn: "conn s b = Some (ALIVE, Some cl)" using k cl(1) conn_of [OF B] by auto
    obtain lis att st s' where s': "takeover E pc u b s = Some (Some lis, att, s')" "serving s'" "steady s s'"
      "conn s' = (conn s)(b \<mapsto> (st, Some lis))" "lis \<in> {cl, pc_client pc}"
      by (rule takeover_spec [OF os sv pc o tr cn ne]) (rule that; assumption)
    have "open_at s lis" "fits s (Some (pc_transport pc)) lis" using s'(5) lp cl(3) True by auto
    then show thesis
      by (intro that [of "Some lis" b att s' st lis])
        (use gs B cl(1) k True s' steady_grown [OF s'(3)] steadyD(1) [OF s'(3)] o in \<open>simp_all add: pick_sub_def\<close>)
  next
    case False
    let ?B = "B\<lparr>sub_client := Some (pc_client pc)\<rparr>"
    define s' where "s' = s\<lparr>g_subs := (g_subs s)(b \<mapsto> ?B)\<rparr>"
    have l: "link_ok s (transport_of s u) (sub_state ?B, sub_client ?B)" using lp fits_dom [OF lp(1)] tr by (simp add: link_ok_def)
    note S = sub_upd_serving [OF sv B o _ l s'_def, simplified]
    have "upd_sub b (\<lambda>x. x\<lparr>sub_client := Some (pc_client pc)\<rparr>) s = Some s'" using B by (simp add: upd_sub_def s'_def)
    then have "pick_sub E pc u s = Some (None, Some b, True, s')" using gs B cl(1) k False by (auto simp: pick_sub_def)
    then show thesis
      by (rule that [OF _ S(1) steady_grown [OF S(2)]]) (use steadyD(1) [OF S(2)] o S(3) lp in simp_all)
  qed
qed

lemma find_sub_spec:
  assumes os: "good_os (e_os E)" and q: "quiet E" and sv: "serving s" and pc: "pc_ok s pc" and u: "u \<in> dom (g_users s)"
    and tr: "transport_of s u = Some (pc_transport pc)"
  obtains client b att s' st cl where "find_sub E pc u s = Some (client, Some b, att, s')" "serving s'" "grown s s'" "owner s' b = Some u"
    "conn s' b = Some (st, Some cl)" "open_at s cl" "fits s (Some (pc_transport pc)) cl" "client = None \<or> client = Some cl"
proof -
  obtain client b att s1 st cl where 1: "pick_sub E pc u s = Some (client, Some b, att, s1)" "serving s1" "grown s s1" "owner s1 b = Some u"
    "conn s1 b = Some (st, Some cl)" "open_at s cl" "fits s (Some (pc_transport pc)) cl" "client = None \<or> client = Some cl"
    by (rule pick_sub_spec [OF os q sv pc u tr])
  have u1: "u \<in> dom (g_users s1)" by (rule owner_user [OF servingD(2) [OF 1(2)] 1(4)])
  obtain s2 where 2: "upd_user u (\<lambda>x. x\<lparr>u_idle := g_now s1\<rparr>) s1 = Some s2" "serving s2" "steady s1 s2" "conn s2 = conn s1"
    by (rule idle_serving [OF 1(2) u1])
  have o2: "owner s2 b = Some u" using steadyD(1) [OF 2(3)] 1(4) by simp
  have fl: "same_link B (B\<lparr>sub_idle := g_now s2\<rparr>) \<and> sub_state (B\<lparr>sub_idle := g_now s2\<rparr>) = sub_state B \<and>
    sub_client (B\<lparr>sub_idle := g_now s2\<rparr>) = sub_client B" for B by simp
  obtain s' where 3: "upd_sub b (\<lambda>x. x\<lparr>sub_idle := g_now s2\<rparr>) s2 = Some s'" "serving s'" "steady s2 s'" "conn s' = conn s2"
    by (rule flag_serving [OF 2(2) o2 fl]) (rule that; assumption)
  have "grown s s'" by (rule grown_trans [OF 1(3) grown_trans [OF steady_grown [OF 2(3)] steady_grown [OF 3(3)]]])
  then show thesis
    by (intro that [of client b att s' st cl]) (use 1 2(1,4) 3 steadyD(1) [OF 3(3)] o2 in \<open>simp_all add: find_sub_def\<close>)
qed

end
