(* ===== verification/Ape_Process.thy ===== *)
theory Ape_Process
  imports Ape_Attach
begin

text \<open>
  \<open>process_cmd\<close> and \<open>checkcmd\<close> on a consistent state: whatever the request says, they return and leave
  the state consistent.
\<close>

section \<open>The table of commands\<close>

text \<open>Only built-in commands are registered, those that act for a user ask for a session, and no hook is
  installed.\<close>

definition needs_user :: "cmd_func \<Rightarrow> bool" where
  "needs_user f \<longleftrightarrow> f \<in> {Cmd_check, Cmd_send, Cmd_quit, Cmd_join, Cmd_left, Cmd_session}"

definition builtin :: "cmdtables \<Rightarrow> bool" where
  "builtin T \<longleftrightarrow> htbl_inv (hCallback T) \<and> cmd_hook T = [] \<and> bad_cmd_callbacks T = [] \<and>
     (\<forall>k c. hashtbl_seek (hCallback T) (Some k) = Some (Some c) \<longrightarrow>
        cb_func c \<notin> range Plugin_cmd \<and> cb_func c \<noteq> Handle_bad_cmd \<and> (needs_user (cb_func c) \<longrightarrow> cb_need c \<noteq> NEED_NOTHING) \<and>
        (cb_func c = Cmd_connect \<longrightarrow> strcaseeq k ''CONNECT''))"

section \<open>Running a command\<close>

text \<open>What is assumed of the environment of a request: a healthy kernel, no plugin hooks, and enough
  identifiers for the channels it may create.\<close>

definition calm :: "cmdenv \<Rightarrow> bool" where
  "calm X \<longleftrightarrow> good_os (e_os (x_env X)) \<and> quiet (x_env X) \<and> polite (x_env X) \<and> x_domain X \<noteq> None \<and> builtin (x_tab X)"

lemma calmD:
  assumes "calm X"
  shows "good_os (e_os (x_env X))" "quiet (x_env X)" "polite (x_env X)" "x_domain X \<noteq> None" "builtin (x_tab X)"
  using assms by (simp_all add: calm_def)

lemma run_ok:
  assumes X: "calm X" and sv: "serving s" and cp: "cp_ok s cp" and f: "f \<notin> range Plugin_cmd" "f \<noteq> Cmd_quit"
    and u: "needs_user f \<or> f = Cmd_connect \<Longrightarrow> cp_call_user cp \<noteq> None"
    and i: "ids_ready (x_env X) (length (JFOREACH ''channels'' cp)) s"
  shows "\<exists>flag d s'. run_cmd X f cp s = Some (flag, cp\<lparr>cp_data := d\<rparr>, s') \<and> flag \<in> {RETURN_NOTHING, RETURN_BAD_PARAMS, RETURN_BAD_CMD} \<and>
     world s' \<and> kept s s'"
proof -
  note E = calmD [OF X] and w = servingD(1) [OF sv]
  have use: ?thesis if r: "served s cp (run_cmd X f cp s)"
  proof -
    obtain flag s' where s': "run_cmd X f cp s = Some (flag, cp, s')" "flag \<in> {RETURN_NOTHING, RETURN_BAD_PARAMS}" "world s'" "kept s s'"
      using r unfolding served_def by blast
    have "run_cmd X f cp s = Some (flag, cp\<lparr>cp_data := cp_data cp\<rparr>, s')" using s'(1) by simp
    then show ?thesis using s'(2-4) by blast
  qed
  have u': "\<exists>v. cp_call_user cp = Some v" if "f \<in> {Cmd_connect, Cmd_send, Cmd_join, Cmd_left, Cmd_session}"
    using u that by (auto simp: needs_user_def)
  show ?thesis
  proof (cases f)
    case Cmd_connect
    obtain v where v: "cp_call_user cp = Some v" using u' Cmd_connect by auto
    show ?thesis by (rule use) (simp add: Cmd_connect cmd_connect_ok [OF E(2) w cp v])
  next
    case Cmd_script
    show ?thesis by (rule use) (simp add: Cmd_script cmd_script_ok [OF E(1) servingD(3) [OF sv] E(2) w cp] E(4))
  next
    case Cmd_check
    show ?thesis by (rule use) (simp add: Cmd_check cmd_check_ok [OF w])
  next
    case Cmd_send
    obtain v where v: "cp_call_user cp = Some v" using u' Cmd_send by auto
    show ?thesis by (rule use) (simp add: Cmd_send cmd_send_ok [OF E(2,3) w cp v])
  next
    case Cmd_join
    obtain v where v: "cp_call_user cp = Some v" using u' Cmd_join by auto
    show ?thesis by (rule use) (simp add: Cmd_join cmd_join_ok [OF E(2) w cp v i])
  next
    case Cmd_left
    obtain v where v: "cp_call_user cp = Some v" using u' Cmd_left by auto
    show ?thesis by (rule use) (simp add: Cmd_left cmd_left_ok [OF E(2) w cp v])
  next
    case Cmd_session
    obtain v where v: "cp_call_user cp = Some v" using u' Cmd_session by auto
    show ?thesis by (rule use) (simp add: Cmd_session cmd_session_ok [OF E(2) w cp v])
  next
    case Handle_bad_cmd
    have "bad_cmd_callbacks (x_tab X) = []" using E(5) by (simp add: builtin_def)
    then have "run_cmd X f cp s = Some (RETURN_BAD_CMD, cp\<lparr>cp_data := None\<rparr>, s)" using handle_bad_cmd_plain Handle_bad_cmd by simp
    then show ?thesis using w kept_refl by blast
  qed (use f in auto)
qed

lemma flags:
  "RETURN_NOTHING AND RETURN_NULL = 0" "RETURN_BAD_PARAMS AND RETURN_NULL = 0" "RETURN_BAD_CMD AND RETURN_NULL = 0"
  "RETURN_NOTHING AND RETURN_BAD_PARAMS = 0" "RETURN_BAD_CMD AND RETURN_BAD_PARAMS = 0" "RETURN_NOTHING AND RETURN_BAD_CMD = 0"
  "RETURN_BAD_PARAMS \<noteq> 0" "RETURN_BAD_CMD \<noteq> 0" "RETURN_NULL \<noteq> 0"
  "RETURN_NOTHING AND RETURN_HANG = 0" "RETURN_BAD_PARAMS AND RETURN_HANG = 0" "RETURN_BAD_CMD AND RETURN_HANG = 0" "RETURN_NULL AND RETURN_HANG = 0"
  by (simp_all add: RETURN_NOTHING_def RETURN_NULL_def RETURN_BAD_PARAMS_def RETURN_BAD_CMD_def RETURN_HANG_def)

lemma err_obj_wf: "LLONG_MIN < chl \<Longrightarrow> chl \<le> LLONG_MAX \<Longrightarrow> json_wf (err_obj chl code val)"
  by (simp add: err_obj_def json_container_wf)

text \<open>The answer to a failed command.\<close>

lemma fail_cmd_ok:
  assumes X: "calm X" and sv: "serving s" and cp: "cp_ok s cp" and f: "fits s (Some (pc_transport pc)) (pc_client pc)"
    and sub: "\<And>u. cp_call_user cp = Some u \<Longrightarrow> sub \<noteq> None \<and> owner s (the sub) = Some u"
  shows "\<exists>s'. fail_cmd (x_env X) pc cp sub code val s = Some (sub, s') \<and> serving s' \<and> kept s s'"
proof -
  note E = calmD [OF X] and w = servingD(1) [OF sv]
  have jw: "json_wf (err_obj (cp_chl cp) code val)" using cp by (intro err_obj_wf) (simp_all add: cp_ok_def)
  show ?thesis
  proof (cases "cp_call_user cp")
    case None
    obtain k where k: "g_co s (pc_client pc) = Some k" "pc_transport pc = TRANSPORT_WEBSOCKET_IETF \<Longrightarrow> s_ws k \<noteq> None"
      using f by (auto simp: fits_def)
    obtain s' where s': "inline_raw (x_env X) (pc_client pc) (pc_transport pc) RAW_ERR (err_obj (cp_chl cp) code val) s = Some s'" "replied (s_fd k) s s'"
      by (rule inline_raw_spec [OF E(1) servingD(3) [OF sv] w jw k(1)], erule k(2)) (rule that; assumption)
    note W = world_replied(1,2) [OF w s'(2)]
    show ?thesis using None s'(1) W serving_kept [OF sv W] by (simp add: fail_cmd_def)
  next
    case (Some u)
    obtain b where b: "sub = Some b" "owner s b = Some u" using sub [OF Some] by auto
    obtain B where B: "g_subs s b = Some B" by (rule owned [OF servingD(2) [OF sv] b(2)])
    obtain r s1 x where 1: "forge_raw RAW_ERR (err_obj (cp_chl cp) code val) s = Some (r, s1)" "msg_inv s1" "posted s s1" "g_subs s1 = g_subs s"
      "occ s1 r = 0" "g_raws s1 r = Some x"
      by (rule forge_raw_spec [OF baseD(1) [OF servingD(2) [OF sv]] jw]) (rule that; assumption)
    have B1: "g_subs s1 b = Some B" and sl: "int (occ s1 r) + 1 \<le> max 1 (raw_refcount x)" using B 1(4,5) by simp_all
    obtain s' where 2: "post_raw_sub (x_env X) r b s1 = Some s'" "msg_inv s'" "posted s1 s'"
      by (rule post_raw_sub_spec [OF E(2) 1(2,6) B1 sl]) (rule that; assumption)
    have p: "posted s s'" by (rule posted_trans [OF 1(3) 2(3)])
    have "serving s'" by (rule serving_kept [OF sv world_posted [OF w p 2(2)] kept_posted [OF p]])
    then show ?thesis using Some b(1) 1(1) 2(1) kept_posted [OF p] by (simp add: fail_cmd_def)
  qed
qed

text \<open>The end of a command that did not end the user's session: the connection of the subuser becomes
  alive.\<close>

definition ready :: "acetables \<Rightarrow> transport_t \<Rightarrow> nat option \<Rightarrow> nat option \<Rightarrow> bool" where
  "ready s tr guser sub \<longleftrightarrow> (case guser of None \<Rightarrow> True
     | Some g \<Rightarrow> (\<exists>b st cl. sub = Some b \<and> owner s b = Some g \<and> conn s b = Some (st, Some cl) \<and> open_at s cl \<and> fits s (Some tr) cl \<and> transport_of s g = Some tr))"

lemma ready_steady: "ready s tr g sub \<Longrightarrow> steady s s' \<Longrightarrow> conn s' = conn s \<Longrightarrow> ready s' tr g sub"
  using link_steady(1,2) [of s s'] steadyD(1,6) [of s s'] by (simp add: ready_def split: option.splits)

lemma ready_kept: "ready s tr g sub \<Longrightarrow> kept s s' \<Longrightarrow> ready s' tr g sub"
  using link_ok_co(2,3) [of s' s] keptD [of s s'] by (simp add: ready_def split: option.splits)

text \<open>What \<open>process_cmd\<close> leaves for the next command of the request.\<close>

definition pc_next :: "cmd_process \<Rightarrow> nat option \<Rightarrow> cmd_process" where
  "pc_next pc iuser = (if iuser \<noteq> None then pc\<lparr>pc_sub := iuser\<rparr> else pc)"

definition iuser_ok :: "acetables \<Rightarrow> nat option \<Rightarrow> bool" where
  "iuser_ok s iuser \<longleftrightarrow> (\<forall>b. iuser = Some b \<longrightarrow> alive s b \<or> b \<in> dom (g_detached s))"

text \<open>The slots of the connection table are still there, with their descriptors and parsers.\<close>

definition slots :: "acetables \<Rightarrow> acetables \<Rightarrow> bool" where
  "slots s s' \<longleftrightarrow> (\<forall>c. map_option co_core (g_co s' c) = map_option co_core (g_co s c))"

lemma slots_trans: "slots s s' \<Longrightarrow> slots s' s'' \<Longrightarrow> slots s s''"
  by (simp add: slots_def)

lemma slots_steps [intro]:
  "g_co s' = g_co s \<Longrightarrow> slots s s'" "kept s s' \<Longrightarrow> slots s s'" "steady s s' \<Longrightarrow> slots s s'" "grown s s' \<Longrightarrow> slots s s'"
  by (simp_all add: slots_def kept_def steady_def grown_def)

lemma finish_ok:
  assumes X: "calm X" and sv: "serving s" and cp: "cp_ok s cp" and f: "fits s (Some (pc_transport pc)) (pc_client pc)" "open_at s (pc_client pc)"
    and h: "length (pc_host pc) \<le> MAX_HOST_LENGTH" and fl: "flag \<in> {RETURN_NOTHING, RETURN_BAD_PARAMS, RETURN_BAD_CMD}"
    and g: "cp_call_user cp = pc_guser pc" and r: "ready s (pc_transport pc) (pc_guser pc) sub"
    and a: "\<not> att \<Longrightarrow> pc_sub pc = None" and iu: "pc_guser pc = None \<Longrightarrow> iuser_ok s iuser"
  shows "\<exists>ret iuser' s'. finish_cmd (x_env X) flag att pc cp sub iuser s = Some (ret, pc, iuser', s') \<and> serving s' \<and>
     (ret = None \<longrightarrow> pc_ok s' (pc_next pc iuser') \<and> pc_sub (pc_next pc iuser') = iuser') \<and> iuser_ok s' iuser' \<and> slots s s'"
proof -
  note E = calmD [OF X]
  have own: "sub \<noteq> None \<and> owner s (the sub) = Some u" if "cp_call_user cp = Some u" for u
    using r that g by (auto simp: ready_def)
  let ?mid = "if flag AND RETURN_NULL \<noteq> 0 then Some (pc\<lparr>pc_guser := None\<rparr>, sub, s)
    else if flag AND RETURN_BAD_PARAMS \<noteq> 0 then map_option (\<lambda>(sub, s). (pc, sub, s)) (fail_cmd (x_env X) pc cp sub ''001'' ''BAD_PARAMS'' s)
    else if flag AND RETURN_BAD_CMD \<noteq> 0 then map_option (\<lambda>(sub, s). (pc, sub, s)) (fail_cmd (x_env X) pc cp sub ''003'' ''BAD_CMD'' s)
    else Some (pc, sub, s)"
  have "\<exists>s1. ?mid = Some (pc, sub, s1) \<and> serving s1 \<and> kept s s1"
  proof -
    consider "flag = RETURN_NOTHING" | "flag = RETURN_BAD_PARAMS" | "flag = RETURN_BAD_CMD" using fl by blast
    then show ?thesis
    proof cases
      case 1
      then show ?thesis using sv by (simp add: flags)
    next
      case 2
      then show ?thesis using fail_cmd_ok [OF X sv cp f(1) own, of "''001''" "''BAD_PARAMS''"] by (auto simp: flags)
    next
      case 3
      then show ?thesis using fail_cmd_ok [OF X sv cp f(1) own, of "''003''" "''BAD_CMD''"] by (auto simp: flags)
    qed
  qed
  then obtain s1 where 1: "?mid = Some (pc, sub, s1)" "serving s1" "kept s s1" by blast
  have hang: "flag AND RETURN_HANG = 0" using fl flags by auto
  show ?thesis
  proof (cases "pc_guser pc")
    case None
    then have "finish_cmd (x_env X) flag att pc cp sub iuser s = Some (Some CONNECT_SHUTDOWN, pc, iuser, s1)"
      using 1(1) hang by (simp add: finish_cmd_def)
    moreover have "iuser_ok s1 iuser" using iu [OF None] keptD(4,10) [OF 1(3)] by (simp add: iuser_ok_def alive_def)
    ultimately show ?thesis using 1(2) slots_steps(2) [OF 1(3)] by blast
  next
    case (Some u)
    obtain b st cl where b: "sub = Some b" "owner s1 b = Some u" "conn s1 b = Some (st, Some cl)" "open_at s1 cl" "fits s1 (Some (pc_transport pc)) cl" "transport_of s1 u = Some (pc_transport pc)"
      using ready_kept [OF r 1(3)] Some by (auto simp: ready_def)
    obtain B where B: "g_subs s1 b = Some B" by (rule owned [OF servingD(2) [OF 1(2)] b(2)])
    have cl: "sub_client B = Some cl" using conn_of [OF B] b(3) by simp
    let ?B = "B\<lparr>sub_state := ALIVE\<rparr>"
    define s' where "s' = s1\<lparr>g_subs := (g_subs s1)(b \<mapsto> ?B)\<rparr>"
    have l: "link_ok s1 (transport_of s1 u) (sub_state ?B, sub_client ?B)" using cl b(4-6) fits_dom [OF b(5)] by (simp add: link_ok_def)
    have sl: "same_link B ?B" by (simp add: same_link_def)
    note S = sub_upd_serving [OF 1(2) B b(2) sl l s'_def]
    have al: "alive s' b" using S(3) by (simp add: alive_def)
    define ret where "ret = (if flag AND RETURN_HANG \<noteq> 0 \<or> flag AND RETURN_BAD_PARAMS \<noteq> 0 then Some CONNECT_KEEPALIVE else None)"
    have fin: "finish_cmd (x_env X) flag att pc cp sub iuser s = Some (ret, pc, if att then Some b else None, s')"
      unfolding finish_cmd_def 1(1) using Some b(1) B by (simp add: upd_sub_def s'_def ret_def)
    have o': "owner s' b = Some u" "transport_of s' u = Some (pc_transport pc)" using steadyD(1,6) [OF S(2)] b(2,6) by simp_all
    have c': "open_at s' = open_at s" "fits s' = fits s"
      using link_steady(1,2) [OF S(2)] link_ok_co(2,3) [OF keptD(7) [OF 1(3)]] by simp_all
    have "pc_ok s' (pc_next pc (if att then Some b else None))"
      using Some f h o' c' al a by (auto simp: pc_ok_def pc_next_def)
    moreover have "pc_sub (pc_next pc (if att then Some b else None)) = (if att then Some b else None)" using a by (simp add: pc_next_def)
    moreover have "iuser_ok s' (if att then Some b else None)" using al by (simp add: iuser_ok_def)
    ultimately show ?thesis using fin S(1) slots_trans [OF slots_steps(2) [OF 1(3)] slots_steps(3) [OF S(2)]] by blast
  qed
qed

section \<open>Identification\<close>

lemma identify_ok:
  assumes sv: "serving s"
  shows "\<exists>guser. identify ijson pc s = Some guser \<and> (\<forall>g. pc_guser pc = None \<longrightarrow> guser = Some g \<longrightarrow> g \<in> dom (g_users s)) \<and>
     (pc_guser pc \<noteq> None \<longrightarrow> guser = pc_guser pc)"
proof (cases "pc_guser pc = None \<and> Option.bind (hd_opt (json_lookup (jchild ijson) ''sessid'')) jstr \<noteq> None")
  case True
  then obtain sid where sid: "Option.bind (hd_opt (json_lookup (jchild ijson) ''sessid'')) jstr = Some sid" by auto
  have "\<exists>guser. seek_user_id sid s = Some guser \<and> (\<forall>g. guser = Some g \<longrightarrow> g \<in> dom (g_users s))"
    by (rule indexes_seek [OF baseD(2) [OF servingD(2) [OF sv]], of sid]) (auto simp: seek_user_id_def)
  then show ?thesis using True sid by (simp add: identify_def)
next
  case False
  then have "identify ijson pc s = Some (pc_guser pc)" by (auto simp: identify_def split: option.splits)
  then show ?thesis by auto
qed

lemma store_chl_ok:
  assumes sv: "serving s" and b: "\<And>g b. guser = Some g \<Longrightarrow> sub = Some b \<Longrightarrow> owner s b = Some g"
  shows "\<exists>s'. store_chl jchl guser sub s = Some s' \<and> serving s' \<and> steady s s' \<and> conn s' = conn s"
proof (cases "\<exists>g b it l. guser = Some g \<and> sub = Some b \<and> jchl = it # l")
  case True
  then obtain g b0 it l where a: "guser = Some g" "sub = Some b0" "jchl = it # l" by blast
  let ?f = "\<lambda>x. x\<lparr>sub_current_chl := int_of_json (jint it)\<rparr>"
  have fl: "same_link B (?f B) \<and> sub_state (?f B) = sub_state B \<and> sub_client (?f B) = sub_client B" for B by (simp add: same_link_def)
  obtain s' where "upd_sub b0 ?f s = Some s'" "serving s'" "steady s s'" "conn s' = conn s"
    by (rule flag_serving [OF sv b [OF a(1,2)] fl]) (rule that; assumption)
  then show ?thesis using a by (simp add: store_chl_def)
next
  case False
  then have "store_chl jchl guser sub s = Some s" by (auto simp: store_chl_def split: option.splits list.splits)
  then show ?thesis using sv by simp
qed

lemma int_of_json_bounds: "LLONG_MIN < int_of_json n" "int_of_json n \<le> LLONG_MAX"
proof -
  have "- (2 ^ 31) \<le> int_of_json n" "int_of_json n < 2 ^ 31"
    unfolding int_of_json_def using signed_take_bit_int_greater_eq_minus_exp [of 31 n] signed_take_bit_int_less_exp [of 31 n] by simp_all
  then show "LLONG_MIN < int_of_json n" "int_of_json n \<le> LLONG_MAX" by (simp_all add: LLONG_MIN_def LLONG_MAX_def)
qed

section \<open>A new user\<close>

lemma taken_add:
  assumes "g_users s' = (g_users s)(u \<mapsto> U)" and "g_pipes s' = (g_pipes s)(p \<mapsto> P)"
  shows "taken s' \<subseteq> insert (u_sessid U) (insert (p_pubid P) (taken s))"
  using assms by (auto simp: taken_def ran_def split: if_splits)

lemma preallocate_ok:
  assumes q: "quiet E" and sv: "serving s" and cl: "fits s (Some (pc_transport pc)) (cp_client cp)" "open_at s (cp_client cp)"
    and h: "length (cp_host cp) \<le> MAX_HOST_LENGTH" and i: "ids_ready E (n + 2) s"
  obtains u b s' where "preallocate E pc cp s = Some (pc\<lparr>pc_guser := Some u\<rparr>, cp\<lparr>cp_call_user := Some u, cp_call_subuser := Some b\<rparr>, Some b, s')"
    "serving s'" "ready s' (pc_transport pc) (Some u) (Some b)" "ids_ready E n s'" "g_co s' = g_co s" "owner s' b = Some u"
    "g_users s u = None" "map_option u_istmp (g_users s' u) = Some True" "\<And>iu. iuser_ok s iu \<Longrightarrow> iuser_ok s' iu"
proof -
  note w = servingD(1) [OF sv]
  let ?id = "\<lambda>k. id_at (e_rand E) 32 (g_rpos s + 32 * k)"
  let ?n = "g_next s" let ?b = "Suc (Suc (g_next s))"
  have g: "gen_sessid_new (e_rand E) s (g_rpos s) = Some (?id 0, g_rpos s + 32)"
    "gen_sessid_new (e_rand E) s (g_rpos s + 32) = Some (?id 1, g_rpos s + 64)"
    using ids_ready_gen [OF w i, of 0] ids_ready_gen [OF w i, of 1] by (simp_all add: add.assoc)
  obtain s1 U where 1: "adduser E (Some (cp_client cp)) (cp_host cp) (cp_ip cp) None s = Some (Some ?n, s1)" "world s1" "g_users s ?n = None"
    "g_users s1 = (g_users s)(?n \<mapsto> U)" "u_sessid U = ?id 0" "u_istmp U" "owner s1 = (owner s)(?b := Some ?n)" "g_co s1 = g_co s"
    "conn s1 = (conn s)(?b \<mapsto> (ADIED, Some (cp_client cp)))" "g_pipes s1 = (g_pipes s)(Suc ?n \<mapsto> new_pipe ?n USER_PIPE (?id 1))"
    "g_rpos s1 = g_rpos s + 64" "g_sk s1 = g_sk s" "u_subuser U = [?b]" "g_detached s1 = g_detached s"
    by (rule adduser_spec [OF q w h g]) (rule that; assumption)
  let ?U = "U\<lparr>u_transport := pc_transport pc\<rparr>"
  define s' where "s' = s1\<lparr>g_users := (g_users s1)(?n \<mapsto> ?U)\<rparr>"
  have U1: "g_users s1 ?n = Some U" using 1(4) by simp
  have ok: "user_ok ?U" using baseD(12) [OF worldD(1) [OF 1(2)] U1] by (simp add: user_ok_def sessions_ok_def)
  have e: "foot s' = foot s1" "members s' = members s1" using U1 by (simp_all add: s'_def foot_def members_def fun_eq_iff)
  have "base s'" using base_user_upd [OF worldD(1) [OF 1(2)] U1 _ _ _ ok] by (simp add: s'_def)
  then have w': "world s'" using worldD(2) [OF 1(2)] e by (simp add: world_def linked_def)
  have o: "owner s' = (owner s)(?b := Some ?n)" "conn s' = (conn s)(?b \<mapsto> (ADIED, Some (cp_client cp)))" "g_co s' = g_co s" "g_rpos s' = g_rpos s + 64"
    using 1(7-9,11) by (simp_all add: s'_def owner_def conn_def fun_eq_iff)
  have tr: "transport_of s' = (transport_of s)(?n \<mapsto> pc_transport pc)" using 1(4) by (simp add: s'_def transport_of_def fun_eq_iff)
  have co: "link_ok s' = link_ok s" "open_at s' = open_at s" "fits s' = fits s" by (rule link_ok_co [OF o(3)])+
  have "serving s'" unfolding serving_def
  proof (intro conjI allI impI)
    show "sock_inv (g_sk s')" using 1(12) servingD(3) [OF sv] by (simp add: s'_def)
    fix b u x assume a: "owner s' b = Some u" "conn s' b = Some x"
    show "link_ok s' (transport_of s' u) x"
    proof (cases "b = ?b")
      case True
      then show ?thesis using a o(1-3) fits_dom [OF cl(1)] by (auto simp: link_ok_def)
    next
      case False
      then have a': "owner s b = Some u" "conn s b = Some x" using a o(1,2) by simp_all
      have "u \<noteq> ?n" using owner_user [OF servingD(2) [OF sv] a'(1)] 1(3) by auto
      then show ?thesis using servingD(4) [OF sv a'] co tr by simp
    qed
  qed (rule w')
  moreover have "ready s' (pc_transport pc) (Some ?n) (Some ?b)" using o tr co cl by (simp add: ready_def)
  moreover have "ids_ready E n s'"
  proof -
    have t: "taken s' \<subseteq> insert (?id 0) (insert (?id 1) (taken s))"
      using taken_add [of s' s ?n ?U "Suc ?n" "new_pipe ?n USER_PIPE (?id 1)"] 1(4,5,10) by (auto simp: s'_def)
    define t1 where "t1 = s\<lparr>g_rpos := g_rpos s + 32, g_users := (g_users s)(?n \<mapsto> U)\<rparr>"
    have i1: "ids_ready E (Suc n) t1"
      by (rule ids_ready_use [of E "Suc n" s]) (use i 1(5) in \<open>auto simp: t1_def taken_def ran_def split: if_splits\<close>)
    have "taken t1 = insert (?id 0) (taken s)" using 1(5) ran_map_upd [where m = "g_users s" and a = ?n and b = U, OF 1(3)] by (simp add: t1_def taken_def)
    then show ?thesis by (intro ids_ready_use [OF i1]) (use t o(4) in \<open>auto simp: t1_def\<close>)
  qed
  moreover have "preallocate E pc cp s = Some (pc\<lparr>pc_guser := Some ?n\<rparr>, cp\<lparr>cp_call_user := Some ?n, cp_call_subuser := Some ?b\<rparr>, Some ?b, s')"
    using 1(1,13) U1 by (simp add: preallocate_def upd_user_def s'_def hd_opt_def Let_def)
  moreover have "iuser_ok s' iu" if "iuser_ok s iu" for iu
  proof -
    have "\<not> alive s ?b" using msg_invD(3) [OF baseD(1) [OF servingD(2) [OF sv]], of ?b] by (fastforce simp: alive_def conn_def)
    then show ?thesis using that o(2) 1(14) by (auto simp: iuser_ok_def alive_def s'_def)
  qed
  moreover have "owner s' ?b = Some ?n" "map_option u_istmp (g_users s' ?n) = Some True" using o(1) 1(6) by (simp_all add: s'_def)
  ultimately show thesis using o(3) 1(3) by (intro that [of ?n ?b s']) assumption+
qed

section \<open>One command of a request\<close>

text \<open>The identifiers one command may use up, and the condition under which a session is continued:
  a request uses the transport its user connected with.\<close>

definition ids_needed :: "json_item \<Rightarrow> nat" where
  "ids_needed ijson = length (List.map_filter jstr (json_lookup (json_lookup (jchild ijson) ''params'') ''channels''))"

definition same_transport :: "json_item \<Rightarrow> cmd_process \<Rightarrow> acetables \<Rightarrow> bool" where
  "same_transport ijson pc s \<longleftrightarrow> (\<forall>g. identify ijson pc s = Some (Some g) \<longrightarrow> transport_of s g = Some (pc_transport pc))"

definition processed :: "acetables \<Rightarrow> (connect_op option \<times> cmd_process \<times> nat option \<times> acetables) option \<Rightarrow> bool" where
  "processed s0 r \<longleftrightarrow> (\<exists>ret pc iuser s. r = Some (ret, pc, iuser, s) \<and> serving s \<and> slots s0 s \<and> (ret = None \<longrightarrow> pc_ok s (pc_next pc iuser) \<and> pc_sub (pc_next pc iuser) = iuser) \<and> iuser_ok s iuser)"

lemma processedI:
  "r = Some (ret, pc, iuser, s) \<Longrightarrow> serving s \<Longrightarrow> (ret = None \<Longrightarrow> pc_ok s (pc_next pc iuser) \<and> pc_sub (pc_next pc iuser) = iuser) \<Longrightarrow>
    iuser_ok s iuser \<Longrightarrow> slots s0 s \<Longrightarrow> processed s0 r"
  unfolding processed_def by blast

lemma processed_trans: "slots s s' \<Longrightarrow> processed s' r \<Longrightarrow> processed s r"
  unfolding processed_def using slots_trans by blast

lemma dispatch_ok:
  assumes X: "calm X" and sv: "serving s" and cp: "cp_ok s cp" and f: "fits s (Some (pc_transport pc)) (pc_client pc)" "open_at s (pc_client pc)"
    and h: "length (pc_host pc) \<le> MAX_HOST_LENGTH" and g: "cp_call_user cp = pc_guser pc" and r: "ready s (pc_transport pc) (pc_guser pc) sub"
    and a: "\<not> att \<Longrightarrow> pc_sub pc = None" and iu: "iuser_ok s iuser"
    and i: "ids_ready (x_env X) (length (JFOREACH ''channels'' cp)) s"
    and c: "cb_func c \<notin> range Plugin_cmd" "needs_user (cb_func c) \<or> cb_func c = Cmd_connect \<Longrightarrow> cp_call_user cp \<noteq> None"
  shows "processed s (dispatch X c att pc cp sub iuser s)"
proof -
  note E = calmD [OF X]
  let ?cp = "cp\<lparr>cp_data := None\<rparr>"
  have hk: "call_cmd_hook X cp s = Some (RETURN_CONTINUE, ?cp, s)" using E(5) by (simp add: call_cmd_hook_def builtin_def)
  have cp': "cp_ok s ?cp" and u: "cp_call_user ?cp = cp_call_user cp" using cp by (simp_all add: cp_ok_def)
  have i': "ids_ready (x_env X) (length (JFOREACH ''channels'' ?cp)) s" using i by (simp add: JFOREACH_def)
  show ?thesis
  proof (cases "cb_func c = Cmd_quit")
    case True
    obtain v where v: "cp_call_user ?cp = Some v" using c(2) True u by (auto simp: needs_user_def)
    obtain s' where s': "cmd_quit X ?cp s = Some (RETURN_NULL, ?cp, s')" "serving s'" "g_co s' = g_co s"
      "\<And>b. owner s b \<noteq> Some v \<Longrightarrow> conn s' b = conn s b \<and> owner s' b = owner s b" "dom (g_detached s') = dom (g_detached s) \<union> {b. owner s b = Some v \<and> alive s b}"
      by (rule cmd_quit_ok [OF E(1,2) sv cp' v]) (rule that; assumption)
    have "iuser_ok s' iuser"
    proof (unfold iuser_ok_def, intro allI impI)
      fix b assume "iuser = Some b"
      then have "alive s b \<or> b \<in> dom (g_detached s)" using iu by (simp add: iuser_ok_def)
      then show "alive s' b \<or> b \<in> dom (g_detached s')"
        using s'(4) [of b] s'(5) by (cases "owner s b = Some v") (auto simp: alive_def)
    qed
    moreover have "dispatch X c att pc cp sub iuser s = Some (Some CONNECT_SHUTDOWN, pc\<lparr>pc_guser := None\<rparr>, iuser, s')"
      using hk s'(1) True flags by (simp add: dispatch_def finish_cmd_def)
    ultimately show ?thesis using s'(2) slots_steps(1) [OF s'(3)] by (intro processedI) auto
  next
    case False
    obtain flag d s1 where 1: "run_cmd X (cb_func c) ?cp s = Some (flag, ?cp\<lparr>cp_data := d\<rparr>, s1)"
      "flag \<in> {RETURN_NOTHING, RETURN_BAD_PARAMS, RETURN_BAD_CMD}" "world s1" "kept s s1"
      using run_ok [OF X sv cp' c(1) False _ i'] c(2) u by auto
    have sv1: "serving s1" by (rule serving_kept [OF sv 1(3,4)])
    note K = keptD [OF 1(4)] and L = link_ok_co [OF keptD(7) [OF 1(4)]]
    let ?cp1 = "?cp\<lparr>cp_data := d\<rparr>"
    have cp1: "cp_ok s1 ?cp1" using cp' L K(1) by (simp add: cp_ok_def)
    have f1: "fits s1 (Some (pc_transport pc)) (pc_client pc)" "open_at s1 (pc_client pc)" using f L by simp_all
    have g1: "cp_call_user ?cp1 = pc_guser pc" using g by simp
    have iu1: "iuser_ok s1 iuser" using iu(1) K(4,10) by (simp add: iuser_ok_def alive_def)
    obtain ret iuser' s' where "finish_cmd (x_env X) flag att pc ?cp1 sub iuser s1 = Some (ret, pc, iuser', s')" "serving s'"
      "ret = None \<longrightarrow> pc_ok s' (pc_next pc iuser') \<and> pc_sub (pc_next pc iuser') = iuser'" "iuser_ok s' iuser'" "slots s1 s'"
      using finish_ok [OF X sv1 cp1 f1 h 1(2) g1 ready_kept [OF r 1(4)] a iu1] by blast
    then show ?thesis using hk 1(1) slots_trans [OF slots_steps(2) [OF 1(4)]]
      by (intro processedI [of _ ret pc iuser' s']) (simp_all add: dispatch_def)
  qed
qed

text \<open>The subuser the request belongs to.\<close>

lemma locate_ok:
  assumes X: "calm X" and sv: "serving s" and pc: "pc_ok s pc" and id: "identify ijson pc s = Some guser" and st: "same_transport ijson pc s"
  obtains client sub att s' where
    "locate_sub (x_env X) (pc\<lparr>pc_guser := guser\<rparr>) s = Some (client, sub, att, s')"
    "serving s'" "grown s s'" "ready s' (pc_transport pc) guser sub" "guser = None \<Longrightarrow> sub = None"
    "fits s (Some (pc_transport pc)) (case client of None \<Rightarrow> pc_client pc | Some c \<Rightarrow> c)"
    "open_at s (case client of None \<Rightarrow> pc_client pc | Some c \<Rightarrow> c)" "\<not> att \<Longrightarrow> pc_sub pc = None" "iuser_ok s' (pc_sub pc)"
proof -
  note E = calmD [OF X]
  have lp: "fits s (Some (pc_transport pc)) (pc_client pc)" "open_at s (pc_client pc)" using pc by (simp_all add: pc_ok_def)
  have tr: "transport_of s g = Some (pc_transport pc)" if "guser = Some g" for g using st id that by (simp add: same_transport_def)
  have ow: "alive s b" "owner s b = pc_guser pc" "pc_guser pc \<noteq> None" if "pc_sub pc = Some b" for b
  proof -
    show a: "alive s b" "owner s b = pc_guser pc" using pc that by (simp_all add: pc_ok_def)
    have "b \<in> dom (g_subs s)" using a(1) by (auto simp: alive_def conn_def)
    then show "pc_guser pc \<noteq> None" using baseD(19) [OF servingD(2) [OF sv], of b] a(2) by simp
  qed
  have gu: "guser = pc_guser pc" if "pc_guser pc \<noteq> None" using identify_ok [OF sv, of ijson pc] id that by auto
  consider (seek) g where "guser = Some g" "pc_sub pc = None" | (known) g b where "guser = Some g" "pc_sub pc = Some b"
    | (nobody) "guser = None" "pc_sub pc = None"
    using ow(3) gu by (cases guser; cases "pc_sub pc") auto
  then show thesis
  proof cases
    case seek
    let ?pc = "pc\<lparr>pc_guser := guser\<rparr>"
    have pc': "pc_ok s ?pc" using pc seek tr by (simp add: pc_ok_def)
    have ud: "g \<in> dom (g_users s)" and tp: "transport_of s g = Some (pc_transport ?pc)" using tr [OF seek(1)] by (auto simp: transport_of_def)
    obtain client b att s' st cl where f: "find_sub (x_env X) ?pc g s = Some (client, Some b, att, s')" "serving s'" "grown s s'" "owner s' b = Some g"
      "conn s' b = Some (st, Some cl)" "open_at s cl" "fits s (Some (pc_transport ?pc)) cl" "client = None \<or> client = Some cl"
      by (rule find_sub_spec [OF E(1,2) sv pc' ud tp]) (rule that; assumption)
    have "transport_of s' = transport_of s" "open_at s' = open_at s" "fits s' = fits s" using f(3) link_grown(1,2) [OF f(3)] by (simp_all add: grown_def)
    then have r: "ready s' (pc_transport pc) guser (Some b)" using seek(1) f(4-7) tr [OF seek(1)] by (simp add: ready_def)
    show thesis by (rule that [OF _ f(2,3) r]) (use seek f lp in \<open>auto simp: iuser_ok_def locate_sub_def\<close>)
  next
    case known
    note o = ow [OF known(2)]
    have og: "owner s b = Some g" using o gu known(1) by simp
    obtain B where B: "g_subs s b = Some B" by (rule owned [OF servingD(2) [OF sv] og])
    obtain cl where cl: "conn s b = Some (ALIVE, Some cl)" "open_at s cl" "fits s (transport_of s g) cl"
      using servingD(4) [OF sv og conn_of [OF B]] o(1) conn_of [OF B] by (auto simp: link_ok_def alive_def)
    have r: "ready s (pc_transport pc) guser (Some b)" using known(1) og cl tr [OF known(1)] by (simp add: ready_def)
    show thesis by (rule that [of None "Some b" True s]) (use known sv r lp o in \<open>simp_all add: iuser_ok_def locate_sub_def\<close>)
  next
    case nobody
    show thesis by (rule that [of None None True s]) (use nobody sv lp in \<open>simp_all add: iuser_ok_def ready_def locate_sub_def\<close>)
  qed
qed

text \<open>The part of \<open>process_cmd\<close> after the subuser is known.\<close>

lemma located_ok:
  assumes X: "calm X" and sv: "serving s" and r: "ready s (pc_transport pc) (pc_guser pc) sub" and n: "pc_guser pc = None \<Longrightarrow> sub = None"
    and f: "fits s (Some (pc_transport pc)) (pc_client pc)" "open_at s (pc_client pc)" and h: "length (pc_host pc) \<le> MAX_HOST_LENGTH"
    and cl: "fits s (Some (pc_transport pc)) client" "open_at s client" and a: "\<not> att \<Longrightarrow> pc_sub pc = None" and iu: "iuser_ok s iuser"
    and i: "ids_ready (x_env X) (ids_needed ijson + 2) s" and c: "cb_func c \<notin> range Plugin_cmd"
    and u: "needs_user (cb_func c) \<Longrightarrow> pc_guser pc \<noteq> None" and k: "cb_func c = Cmd_connect \<Longrightarrow> strcaseeq cmd ''CONNECT''"
  shows "processed s (serve_cmd X ijson cmd c client sub att pc iuser s)"
proof -
  let ?E = "x_env X"
  note E = calmD [OF X]
  have own: "owner s b = Some g" if "pc_guser pc = Some g" "sub = Some b" for g b using r that by (simp add: ready_def)
  obtain s2 where 2: "store_chl (json_lookup (jchild ijson) ''chl'') (pc_guser pc) sub s = Some s2" "serving s2" "steady s s2" "conn s2 = conn s"
    using store_chl_ok [OF sv own] by blast
  have r2: "ready s2 (pc_transport pc) (pc_guser pc) sub" by (rule ready_steady [OF r 2(3,4)])
  obtain chl where chl: "(case sub of None \<Rightarrow> Some 0 | Some b \<Rightarrow> map_option (\<lambda>x. int_of_json (sub_current_chl x)) (g_subs s2 b)) = Some chl"
    "LLONG_MIN < chl" "chl \<le> LLONG_MAX"
  proof (cases sub)
    case None
    then show thesis by (intro that [of 0]) (simp_all add: LLONG_MIN_def LLONG_MAX_def)
  next
    case (Some b)
    then obtain g where "owner s2 b = Some g" using r2 n by (auto simp: ready_def split: option.splits)
    then obtain B where "g_subs s2 b = Some B" by (rule owned [OF servingD(2) [OF 2(2)]])
    then show thesis using Some int_of_json_bounds by (intro that) simp_all
  qed
  define cp where "cp = \<lparr>cp_client = client, cp_param = json_lookup (jchild ijson) ''params'', cp_hlines = pc_hlines pc, cp_call_user = pc_guser pc,
    cp_ip = pc_ip pc, cp_host = pc_host pc, cp_cmd = cmd, cp_data = None, cp_call_subuser = sub, cp_transport = pc_transport pc, cp_chl = chl\<rparr>"
  note L = link_steady(1,2) [OF 2(3)]
  have cl2: "fits s2 (Some (pc_transport pc)) (cp_client cp)" "open_at s2 (cp_client cp)" and h2: "length (cp_host cp) \<le> MAX_HOST_LENGTH"
    and f2: "fits s2 (Some (pc_transport pc)) (pc_client pc)" "open_at s2 (pc_client pc)" using cl f h L by (simp_all add: cp_def)
  have cp: "cp_ok s2 cp" using cl2 chl(2,3) r2 by (auto simp: cp_ok_def ready_def cp_def)
  have iu2: "iuser_ok s2 iuser" using iu 2(4) steadyD(11) [OF 2(3)] by (simp add: iuser_ok_def alive_def)
  have i2: "ids_ready ?E (ids_needed ijson + 2) s2" by (rule ids_ready_same [OF i steadyD(9) [OF 2(3)]]) (simp add: steadyD(10) [OF 2(3)])
  have nd: "length (JFOREACH ''channels'' cp) = ids_needed ijson" by (simp add: JFOREACH_def ids_needed_def cp_def)
  show ?thesis
  proof (cases "strcaseeq cmd ''CONNECT''")
    case True
    obtain v b s3 where 3: "preallocate ?E pc cp s2 = Some (pc\<lparr>pc_guser := Some v\<rparr>, cp\<lparr>cp_call_user := Some v, cp_call_subuser := Some b\<rparr>, Some b, s3)"
      "serving s3" "ready s3 (pc_transport pc) (Some v) (Some b)" "ids_ready ?E (ids_needed ijson) s3" "g_co s3 = g_co s2" "owner s3 b = Some v"
      "\<And>iu. iuser_ok s2 iu \<Longrightarrow> iuser_ok s3 iu"
      by (rule preallocate_ok [OF E(2) 2(2) cl2 h2 i2]) (rule that; assumption)
    let ?pc = "pc\<lparr>pc_guser := Some v\<rparr>" let ?cp = "cp\<lparr>cp_call_user := Some v, cp_call_subuser := Some b\<rparr>"
    note L3 = link_ok_co(2,3) [OF 3(5)]
    have cp3: "cp_ok s3 ?cp" using cp 3(6) L3 by (simp add: cp_ok_def)
    have i3: "ids_ready ?E (length (JFOREACH ''channels'' ?cp)) s3" using 3(4) nd by (simp add: JFOREACH_def)
    have "processed s3 (dispatch X c att ?pc ?cp (Some b) iuser s3)"
      by (rule dispatch_ok [OF X 3(2) cp3 _ _ _ _ _ _ 3(7) [OF iu2] i3 c]) (use f2 L3 h 3(3) a in simp_all)
    then have "processed s (dispatch X c att ?pc ?cp (Some b) iuser s3)"
      by (rule processed_trans [OF slots_trans [OF slots_steps(3) [OF 2(3)] slots_steps(1) [OF 3(5)]]])
    then show ?thesis using 2(1) chl(1) True 3(1) by (simp add: serve_cmd_def cp_def [symmetric] Let_def)
  next
    case False
    have i3: "ids_ready ?E (length (JFOREACH ''channels'' cp)) s2" using ids_ready_le [OF i2] nd by simp
    have "processed s2 (dispatch X c att pc cp sub iuser s2)"
      by (rule dispatch_ok [OF X 2(2) cp f2 h _ r2 a iu2 i3 c]) (use u k False in \<open>auto simp: cp_def\<close>)
    then have "processed s (dispatch X c att pc cp sub iuser s2)" by (rule processed_trans [OF slots_steps(3) [OF 2(3)]])
    then show ?thesis using 2(1) chl(1) False by (simp add: serve_cmd_def cp_def [symmetric] Let_def)
  qed
qed

lemma process_cmd_ok:
  assumes X: "calm X" and sv: "serving s" and pc: "pc_ok s pc" and st: "same_transport ijson pc s"
    and i: "ids_ready (x_env X) (ids_needed ijson + 2) s"
  shows "processed s (process_cmd X ijson pc (pc_sub pc) s)"
proof -
  let ?E = "x_env X"
  note E = calmD [OF X]
  have lp: "fits s (Some (pc_transport pc)) (pc_client pc)" "open_at s (pc_client pc)" "length (pc_host pc) \<le> MAX_HOST_LENGTH"
    and iu: "iuser_ok s (pc_sub pc)" using pc by (simp_all add: pc_ok_def iuser_ok_def)
  have err: "\<exists>s'. inline_raw ?E (pc_client pc) (pc_transport pc) RAW_ERR (err_obj 0 code val) s = Some s' \<and> serving s' \<and> iuser_ok s' (pc_sub pc) \<and> slots s s'" for code val
  proof -
    have jw: "json_wf (err_obj 0 code val)" by (rule err_obj_wf) (simp_all add: LLONG_MIN_def LLONG_MAX_def)
    obtain s' where s': "inline_raw ?E (pc_client pc) (pc_transport pc) RAW_ERR (err_obj 0 code val) s = Some s'" "serving s'" "steady s s'" "conn s' = conn s"
      by (rule inline_serving [OF E(1) sv jw lp(1)]) (rule that; assumption)
    have "iuser_ok s' (pc_sub pc)" using iu s'(4) steadyD(11) [OF s'(3)] by (simp add: iuser_ok_def alive_def)
    then show ?thesis using s'(1,2) slots_steps(3) [OF s'(3)] by blast
  qed
  show ?thesis
  proof (cases "Option.bind (hd_opt (json_lookup (jchild ijson) ''cmd'')) jstr")
    case None
    obtain s' where "inline_raw ?E (pc_client pc) (pc_transport pc) RAW_ERR (err_obj 0 ''003'' ''NO_CMD'') s = Some s'" "serving s'" "iuser_ok s' (pc_sub pc)" "slots s s'"
      using err by blast
    then show ?thesis using None by (intro processedI [of _ "Some CONNECT_SHUTDOWN" pc "pc_sub pc" s']) (simp_all add: process_cmd_def)
  next
    case (Some cmd)
    obtain found where fd: "hashtbl_seek (hCallback (x_tab X)) (Some cmd) = Some found"
      using E(5) hashtbl_seek_total [of "hCallback (x_tab X)" "Some cmd"] by (auto simp: builtin_def)
    define c where "c = (case found of None \<Rightarrow> \<lparr>cb_func = Handle_bad_cmd, cb_need = NEED_NOTHING\<rparr> | Some c \<Rightarrow> c)"
    have c: "cb_func c \<notin> range Plugin_cmd" "needs_user (cb_func c) \<Longrightarrow> cb_need c \<noteq> NEED_NOTHING"
      "cb_func c = Cmd_connect \<Longrightarrow> strcaseeq cmd ''CONNECT''"
    proof -
      have *: "hashtbl_seek (hCallback (x_tab X)) (Some cmd) = Some (Some d) \<longrightarrow> cb_func d \<notin> range Plugin_cmd \<and>
        (needs_user (cb_func d) \<longrightarrow> cb_need d \<noteq> NEED_NOTHING) \<and> (cb_func d = Cmd_connect \<longrightarrow> strcaseeq cmd ''CONNECT'')" for d
        using E(5) unfolding builtin_def by blast
      show "cb_func c \<notin> range Plugin_cmd" "needs_user (cb_func c) \<Longrightarrow> cb_need c \<noteq> NEED_NOTHING" "cb_func c = Cmd_connect \<Longrightarrow> strcaseeq cmd ''CONNECT''"
        using * [of c] fd by (cases found; auto simp: c_def needs_user_def)+
    qed
    obtain guser where g: "identify ijson pc s = Some guser" using identify_ok [OF sv, of ijson pc] by blast
    let ?pc = "pc\<lparr>pc_guser := guser\<rparr>"
    show ?thesis
    proof (cases "cb_need c \<noteq> NEED_NOTHING \<and> guser = None")
      case True
      obtain s' where "inline_raw ?E (pc_client pc) (pc_transport pc) RAW_ERR (err_obj 0 ''004'' ''BAD_SESSID'') s = Some s'" "serving s'" "iuser_ok s' (pc_sub pc)" "slots s s'"
        using err by blast
      then show ?thesis using True Some fd g
        by (intro processedI [of _ "Some CONNECT_SHUTDOWN" ?pc "pc_sub pc" s']) (simp_all add: process_cmd_def c_def [symmetric] Let_def)
    next
      case False
      obtain client sub att s1 where 1:
        "locate_sub ?E ?pc s = Some (client, sub, att, s1)"
        "serving s1" "grown s s1" "ready s1 (pc_transport pc) guser sub" "guser = None \<Longrightarrow> sub = None"
        "fits s (Some (pc_transport pc)) (case client of None \<Rightarrow> pc_client pc | Some c \<Rightarrow> c)"
        "open_at s (case client of None \<Rightarrow> pc_client pc | Some c \<Rightarrow> c)" "\<not> att \<Longrightarrow> pc_sub pc = None" "iuser_ok s1 (pc_sub pc)"
        by (rule locate_ok [OF X sv pc g st]) (rule that; assumption)
      let ?cl = "case client of None \<Rightarrow> pc_client pc | Some c \<Rightarrow> c"
      note L = link_grown(1,2) [OF 1(3)]
      have i1: "ids_ready ?E (ids_needed ijson + 2) s1"
        by (rule ids_ready_same [OF i]) (use 1(3) in \<open>simp_all add: grown_def\<close>)
      have "processed s1 (serve_cmd X ijson cmd c ?cl sub att ?pc (pc_sub pc) s1)"
        by (rule located_ok [OF X 1(2)]) (use 1 lp L i1 c False in simp_all)
      then have "processed s (serve_cmd X ijson cmd c ?cl sub att ?pc (pc_sub pc) s1)" by (rule processed_trans [OF slots_steps(4) [OF 1(3)]])
      then show ?thesis using Some fd g 1(1) False by (cases client) (auto simp: process_cmd_def c_def [symmetric] Let_def)
    qed
  qed
qed

section \<open>A request\<close>

text \<open>What a request needs as its commands are processed one after the other: each continues a session on
  the transport it was opened with and finds enough fresh identifiers.\<close>

fun supplied :: "cmdenv \<Rightarrow> json_item list \<Rightarrow> cmd_process \<Rightarrow> acetables \<Rightarrow> bool" where
  "supplied X [] pc s = True"
| "supplied X (ijson # rest) pc s =
     (same_transport ijson pc s \<and> ids_ready (x_env X) (ids_needed ijson + 2) s \<and>
      (case process_cmd X ijson pc (pc_sub pc) s of
         Some (None, pc', iuser, s') \<Rightarrow> supplied X rest (pc_next pc' iuser) s'
       | _ \<Rightarrow> True))"

lemma checkcmd_loop_ok:
  assumes X: "calm X" and sv: "serving s" and pc: "pc_ok s pc" and sp: "supplied X ijson pc s"
  shows "\<exists>op iuser s'. checkcmd_loop X ijson pc (pc_sub pc) s = Some (op, iuser, s') \<and> serving s' \<and> iuser_ok s' iuser \<and> slots s s'"
  using sv pc sp
proof (induction ijson arbitrary: pc s)
  case Nil
  then show ?case using slots_steps(1) by (simp add: iuser_ok_def pc_ok_def)
next
  case (Cons ijson rest)
  note sv = Cons.prems(1) and pc = Cons.prems(2)
  obtain delayed where d: "(case pc_guser pc of None \<Rightarrow> Some False | Some g \<Rightarrow> map_option u_istmp (g_users s g)) = Some delayed"
    using pc by (cases "pc_guser pc") (auto simp: pc_ok_def transport_of_def)
  show ?case
  proof (cases delayed)
    case True
    then obtain g U where g: "pc_guser pc = Some g" "g_users s g = Some U" using d by (auto split: option.splits)
    let ?U = "U\<lparr>u_cmdqueue := map json_item_copy (ijson # rest)\<rparr>"
    define s' where "s' = s\<lparr>g_users := (g_users s)(g \<mapsto> ?U)\<rparr>"
    have ok: "user_ok ?U" using baseD(12) [OF servingD(2) [OF sv] g(2)] by (simp add: user_ok_def sessions_ok_def)
    note W = user_upd_world(1,2) [OF servingD(1) [OF sv] g(2) _ _ _ _ _ ok s'_def, simplified]
    have "iuser_ok s' (pc_sub pc)" using pc keptD(4) [OF W(2)] by (simp add: iuser_ok_def alive_def pc_ok_def)
    moreover have "checkcmd_loop X (ijson # rest) pc (pc_sub pc) s = Some (CONNECT_KEEPALIVE, pc_sub pc, s')"
      using d True g by (simp add: upd_user_def s'_def)
    ultimately show ?thesis using serving_kept [OF sv W] slots_steps(2) [OF W(2)] by blast
  next
    case False
    have st: "same_transport ijson pc s" and i: "ids_ready (x_env X) (ids_needed ijson + 2) s" using Cons.prems(3) by simp_all
    obtain ret pc' iuser s' where p: "process_cmd X ijson pc (pc_sub pc) s = Some (ret, pc', iuser, s')" "serving s'"
      "ret = None \<longrightarrow> pc_ok s' (pc_next pc' iuser) \<and> pc_sub (pc_next pc' iuser) = iuser" "iuser_ok s' iuser" "slots s s'"
      using process_cmd_ok [OF X sv pc st i] unfolding processed_def by blast
    show ?thesis
    proof (cases ret)
      case None
      then have pn: "pc_ok s' (pc_next pc' iuser)" "pc_sub (pc_next pc' iuser) = iuser" using p(3) by simp_all
      have "supplied X rest (pc_next pc' iuser) s'" using Cons.prems(3) p(1) None by simp
      from Cons.IH [OF p(2) pn(1) this] obtain op iuser2 s2 where
        "checkcmd_loop X rest (pc_next pc' iuser) (pc_sub (pc_next pc' iuser)) s' = Some (op, iuser2, s2)" "serving s2" "iuser_ok s2 iuser2" "slots s' s2"
        by blast
      then show ?thesis using d False p(1) None pn(2) slots_trans [OF p(5)] by (cases iuser) (simp_all add: pc_next_def)
    next
      case (Some op)
      then show ?thesis using d False p by simp
    qed
  qed
qed

lemma checkcmd_ok:
  assumes X: "calm X" and sv: "serving s" and cl: "open_at s client" "fits s (Some tr) client" and h: "length hst \<le> MAX_HOST_LENGTH"
    and sp: "supplied X (concat (map jchild (take 1 ojson))) \<lparr>pc_hlines = hlines, pc_guser = None, pc_sub = None, pc_client = client,
              pc_host = hst, pc_ip = ip, pc_transport = tr\<rparr> s"
  shows "\<exists>op iuser s'. checkcmd X ojson hlines client hst ip tr s = Some (op, iuser, s') \<and> serving s' \<and> iuser_ok s' iuser \<and> slots s s'"
proof -
  let ?pc = "\<lparr>pc_hlines = hlines, pc_guser = None, pc_sub = None, pc_client = client, pc_host = hst, pc_ip = ip, pc_transport = tr\<rparr>"
  have pc: "pc_ok s ?pc" using cl h by (simp add: pc_ok_def)
  have jw: "json_wf (err_obj 0 ''005'' ''BAD_JSON'')" by (rule err_obj_wf) (simp_all add: LLONG_MIN_def LLONG_MAX_def)
  obtain s' where s': "inline_raw (x_env X) client tr RAW_ERR (err_obj 0 ''005'' ''BAD_JSON'') s = Some s'" "serving s'" "steady s s'"
    by (rule inline_serving [OF calmD(1) [OF X] sv jw cl(2)]) (rule that; assumption)
  show ?thesis
  proof (cases "\<exists>it l. ojson = it # l \<and> jchild it \<noteq> []")
    case True
    then obtain it l where o: "ojson = it # l" "jchild it \<noteq> []" by blast
    then show ?thesis using checkcmd_loop_ok [OF X sv pc, of "jchild it"] sp by (simp add: checkcmd_def)
  next
    case False
    then have "checkcmd X ojson hlines client hst ip tr s = Some (CONNECT_SHUTDOWN, None, s')"
      using s'(1) by (cases ojson) (auto simp: checkcmd_def)
    then show ?thesis using s'(2) slots_steps(3) [OF s'(3)] by (simp add: iuser_ok_def)
  qed
qed

end
