(* ===== verification/Ape_Timer.thy ===== *)
theory Ape_Timer
  imports Ape_Process
begin

text \<open>
  The periodic pass over the users, \<open>check_timeout\<close>: it returns, leaves the state consistent, removes
  the users and connections that have been silent for too long and writes the queues that can be written.
\<close>

section \<open>Writing a queue\<close>

text \<open>No user was added, removed or renamed in the list of users, and no connection.\<close>

definition roll :: "acetables \<Rightarrow> acetables \<Rightarrow> bool" where
  "roll s s' \<longleftrightarrow> g_uHead s' = g_uHead s \<and> g_now s' = g_now s \<and> (\<forall>u. map_option who (g_users s' u) = map_option who (g_users s u)) \<and> slots s s'"

lemma roll_refl [simp]: "roll s s"
  by (simp add: roll_def slots_def)

lemma roll_trans: "roll s s' \<Longrightarrow> roll s' s'' \<Longrightarrow> roll s s''"
  using slots_trans [of s s' s''] by (simp add: roll_def)

lemma flushed_world:
  assumes w: "world s" and y: "g_subs s b = Some y" and inv: "msg_inv s'"
    and fr: "s'\<lparr>g_subs := g_subs s, g_raws := g_raws s, g_sk := g_sk s\<rparr> = s"
    and su: "\<And>c. c \<noteq> b \<Longrightarrow> g_subs s' c = g_subs s c" "g_subs s' b = Some (sub_flushed y)" and sk: "sock_inv (g_sk s')"
  shows "world s'" "kept s s'" "roll s s'"
proof -
  note D = baseD [OF worldD(1) [OF w]]
  have F: "g_users s' = g_users s" "g_chans s' = g_chans s" "g_pipes s' = g_pipes s" "g_uHead s' = g_uHead s" "g_hSessid s' = g_hSessid s"
    "g_hPubid s' = g_hPubid s" "g_hLusers s' = g_hLusers s" "g_now s' = g_now s" "g_co s' = g_co s" "g_detached s' = g_detached s" "g_next s' = g_next s"
    using arg_cong [OF fr, of "\<lambda>s. (g_users s, g_chans s, g_pipes s, g_uHead s, g_hSessid s, g_hPubid s, g_hLusers s, g_now s, g_co s, g_detached s, g_next s)"]
    by simp_all
  have sub: "map_option f (g_subs s' c) = map_option f (g_subs s c)" if "f (sub_flushed y) = f y" for f :: "subuser \<Rightarrow> 'a" and c
    using su y that by (cases "c = b") simp_all
  have g: "owner s' = owner s" "host s' = host s" "conn s' = conn s"
  proof -
    have "owner s' c = owner s c" for c using su y by (cases "c = b") (simp_all add: owner_def sub_flushed_def)
    then show "owner s' = owner s" by (rule ext)
    have "host s' c = host s c" for c using su y by (cases "c = b") (simp_all add: host_def sub_flushed_def)
    then show "host s' = host s" by (rule ext)
    have "conn s' c = conn s c" for c using su y by (cases "c = b") (simp_all add: conn_def sub_flushed_def)
    then show "conn s' = conn s" by (rule ext)
  qed
  have e: "subs_of s' = subs_of s" "target s' = target s" "transport_of s' = transport_of s" "foot s' = foot s" "members s' = members s"
    by (simp_all add: subs_of_def target_def transport_of_def foot_def members_def F fun_eq_iff)
  have dm: "dom (g_subs s') = dom (g_subs s)"
  proof (rule set_eqI)
    show "c \<in> dom (g_subs s') \<longleftrightarrow> c \<in> dom (g_subs s)" for c using su y by (cases "c = b") (simp_all add: domIff)
  qed
  have "base s'"
    by (rule baseI; (unfold e g dm F)?) (use D inv in simp_all)
  then show "world s'" using worldD(2) [OF w] e by (simp add: world_def linked_def)
  show "kept s s'" using sk by (simp add: kept_def e g dm F)
  show "roll s s'" using slots_steps(1) [OF F(9)] by (simp add: roll_def F)
qed

lemma send_raws_serving:
  assumes os: "good_os (e_os E)" and sv: "serving s" and o: "owner s b = Some u" and y: "g_subs s b = Some y" "sub_nraw y \<noteq> 0" and al: "sub_state y = ALIVE"
    and U: "g_users s u = Some U" and k: "sub_client y = Some cl" "g_co s cl = Some k"
  obtains f s' where "send_raws E b s = Some (f, s')" "serving s'" "kept s s'" "roll s s'" "g_subs s' b = Some (sub_flushed y)" "lowq s' b = []" "highq s' b = []"
    "outp (g_sk s') (s_fd k) = outp (g_sk s) (s_fd k) @ (if s_fd k = 0 then [] else reply_text s y (u_transport U) (s_ws k))"
proof -
  have f: "fits s (transport_of s u) cl"
    using servingD(4) [OF sv o conn_of [OF y(1)]] al k(1) by (auto simp: link_ok_def)
  have "sub_user y = Some u" using o y(1) by (simp add: owner_def)
  then have rd: "sub_ready s y k U" using k U f by (auto simp: sub_ready_def fits_def transport_of_def)
  obtain f s' where s': "send_raws E b s = Some (f, s')" "msg_inv s'" "sock_inv (g_sk s')" "\<And>c. c \<noteq> b \<Longrightarrow> g_subs s' c = g_subs s c"
    "s'\<lparr>g_subs := g_subs s, g_raws := g_raws s, g_sk := g_sk s\<rparr> = s" "g_subs s' b = Some (sub_flushed y)" "lowq s' b = []" "highq s' b = []"
    "outp (g_sk s') (s_fd k) = outp (g_sk s) (s_fd k) @ (if s_fd k = 0 then [] else reply_text s y (u_transport U) (s_ws k))"
    by (rule send_raws_spec [OF os servingD(3) [OF sv] baseD(1) [OF servingD(2) [OF sv]] y rd]) (rule that; assumption)
  note W = flushed_world [OF servingD(1) [OF sv] y(1) s'(2,5,4,6,3)]
  show thesis by (rule that [OF s'(1) serving_kept [OF sv W(1,2)] W(2,3) s'(6-9)])
qed

section \<open>Closing connections\<close>

text \<open>The messages queued for a connection.\<close>

definition queued :: "acetables \<Rightarrow> nat \<Rightarrow> nat list \<times> nat list" where
  "queued s b = (highq s b, lowq s b)"

lemma steady_roll: "steady s s' \<Longrightarrow> g_users s' = g_users s \<Longrightarrow> g_uHead s' = g_uHead s \<Longrightarrow> roll s s'"
  using slots_steps(3) [of s s'] by (simp add: roll_def steadyD(8))

lemma do_died_serving:
  assumes sv: "serving s" and o: "owner s b = Some u"
  obtains s' where "do_died b s = Some s'" "serving s'" "steady s s'" "roll s s'" "queued s' = queued s" "outp (g_sk s') = outp (g_sk s)"
proof -
  obtain B where B: "g_subs s b = Some B" by (rule owned [OF servingD(2) [OF sv] o])
  obtain cl k where cl: "sub_client B = Some cl" and k: "g_co s cl = Some k"
    using servingD(4) [OF sv o conn_of [OF B]] by (auto simp: link_ok_def)
  show thesis
  proof (cases "sub_state B = ALIVE")
    case False
    then show thesis using B sv by (intro that [of s]) (simp_all add: do_died_def)
  next
    case True
    let ?B = "B\<lparr>sub_state := ADIED, sub_sent := False, sub_content := None\<rparr>"
    define s1 where "s1 = s\<lparr>g_subs := (g_subs s)(b \<mapsto> ?B)\<rparr>"
    have l: "link_ok s (transport_of s u) (sub_state ?B, sub_client ?B)" using cl k by (auto simp: link_ok_def)
    note 1 = sub_upd_serving [OF sv B o _ l s1_def, simplified]
    define s' where "s' = s1\<lparr>g_sk := safe_shutdown (s_fd k) (g_sk s1)\<rparr>"
    note 2 = shutdown_serving [OF 1(1) s'_def]
    have "do_died b s = Some s'" using B True cl k by (simp add: do_died_def upd_sub_def s'_def s1_def)
    moreover have st: "steady s s'" by (rule steady_trans [OF 1(2) 2(2)])
    moreover have "roll s s'" by (rule steady_roll [OF st]) (simp_all add: s'_def s1_def)
    moreover have "queued s' = queued s" using B by (simp add: queued_def lowq_def highq_def s'_def s1_def fun_eq_iff)
    moreover have "outp (g_sk s') = outp (g_sk s)" by (simp add: s'_def s1_def outp_def pending_def fun_eq_iff)
    ultimately show thesis using 2(1) by (intro that)
  qed
qed

lemma delsubuser_serving:
  assumes q: "quiet E" and sv: "serving s" and o: "owner s b = Some u"
  obtains s' where "delsubuser E b s = Some s'" "serving s'" "roll s s'" "subs_of s' = (subs_of s)(u := remove1 b (subs_of s u))"
    "g_subs s' = (g_subs s)(b := None)" "dom (g_detached s') = dom (g_detached s) \<union> {c. c = b \<and> alive s c}" "g_co s' = g_co s"
proof -
  obtain B U where B: "g_subs s b = Some B" "sub_user B = Some u" "g_users s u = Some U" by (rule owned [OF servingD(2) [OF sv] o])
  obtain s' where s': "delsubuser E b s = Some s'" "g_subs s' = (g_subs s)(b := None)" "others_kept s s'" "base s'"
    "g_users s' = (g_users s)(u \<mapsto> U\<lparr>u_nsub := u_nsub U - 1, u_subuser := remove1 b (u_subuser U)\<rparr>)"
    "subs_of s' = (subs_of s)(u := remove1 b (subs_of s u))" "owner s' = (owner s)(b := None)"
    "foot s' = foot s" "members s' = members s" "dom (g_detached s') = dom (g_detached s) \<union> {c. c = b \<and> alive s c}"
    by (rule delsubuser_spec [OF q servingD(2) [OF sv] B]) (rule that; assumption)
  note K = others_keptD [OF s'(3)]
  have w: "world s'" using s'(4,8,9) worldD(2) [OF servingD(1) [OF sv]] by (simp add: world_def linked_def)
  have wh: "map_option who (g_users s' v) = map_option who (g_users s v)" for v using B(3) s'(5) by (simp add: who_def)
  have tr: "transport_of s' = transport_of s" using transport_who [OF wh] by (rule ext)
  have cn: "conn s' = (conn s)(b := None)" by (simp add: s'(2) conn_def fun_eq_iff)
  have "link_ok s' (transport_of s' v) x" if "owner s' c = Some v" "conn s' c = Some x" for c v x
    using that servingD(4) [OF sv, of c v x] s'(7) cn tr link_ok_co(1) [OF K(12)] by (auto split: if_splits)
  moreover have "sock_inv (g_sk s')" using sock_inv_cong [OF K(14)] servingD(3) [OF sv] by simp
  ultimately have "serving s'" using w by (simp add: serving_def)
  moreover have "roll s s'" using K(1,6) wh slots_steps(1) [OF K(12)] by (simp add: roll_def)
  ultimately show thesis using K(12) by (intro that [OF s'(1) _ _ s'(6,2,10)])
qed

lemma data_sent_serving:
  assumes sv: "serving s" and o: "owner s b = Some u"
  obtains s' where "data_completly_sent b s = Some s'" "serving s'" "steady s s'" "roll s s'" "queued s' = queued s" "outp (g_sk s') = outp (g_sk s)"
proof -
  obtain B U where B: "g_subs s b = Some B" "sub_user B = Some u" "g_users s u = Some U" by (rule owned [OF servingD(2) [OF sv] o])
  show thesis
  proof (cases "transport_closes (u_transport U)")
    case True
    obtain s' where "do_died b s = Some s'" "serving s'" "steady s s'" "roll s s'" "queued s' = queued s" "outp (g_sk s') = outp (g_sk s)"
      by (rule do_died_serving [OF sv o]) (rule that; assumption)
    then show thesis using B True by (intro that [of s']) (simp_all add: data_completly_sent_def)
  qed (use B sv in \<open>intro that [of s]; simp add: data_completly_sent_def\<close>)
qed

section \<open>The pass\<close>

lemma kept_subs: "steady s s' \<Longrightarrow> subs_of s' = subs_of s" "kept s s' \<Longrightarrow> subs_of s' = subs_of s"
  by (simp_all add: steady_def kept_def)

lemma write_ok:
  assumes os: "good_os (e_os E)" and sv: "serving s" and o: "owner s b = Some u" and y: "g_subs s b = Some y" "sub_nraw y \<noteq> 0" and al: "sub_state y = ALIVE"
    and U: "g_users s u = Some U" and k: "sub_client y = Some cl" "g_co s cl = Some k"
  obtains s' where "(do { (finish, s) \<leftarrow> send_raws E b s;
      if finish then data_completly_sent b s else upd_sub b (\<lambda>b. b\<lparr>sub_burn_after_writing := True\<rparr>) s }) = Some s'"
    "serving s'" "roll s s'" "subs_of s' = subs_of s" "queued s' b = ([], [])"
    "outp (g_sk s') (s_fd k) = outp (g_sk s) (s_fd k) @ (if s_fd k = 0 then [] else reply_text s y (u_transport U) (s_ws k))"
proof -
  obtain f s1 where 1: "send_raws E b s = Some (f, s1)" "serving s1" "kept s s1" "roll s s1" "lowq s1 b = []" "highq s1 b = []"
    "outp (g_sk s1) (s_fd k) = outp (g_sk s) (s_fd k) @ (if s_fd k = 0 then [] else reply_text s y (u_transport U) (s_ws k))"
    by (rule send_raws_serving [OF os sv o y al U k]) (rule that; assumption)
  have o1: "owner s1 b = Some u" using keptD(1) [OF 1(3)] o by simp
  have q1: "queued s1 b = ([], [])" using 1(5,6) by (simp add: queued_def)
  show thesis
  proof (cases f)
    case True
    obtain s' where 2: "data_completly_sent b s1 = Some s'" "serving s'" "steady s1 s'" "roll s1 s'" "queued s' = queued s1" "outp (g_sk s') = outp (g_sk s1)"
      by (rule data_sent_serving [OF 1(2) o1]) (rule that; assumption)
    show thesis by (rule that [of s']) (use True 1 2 q1 roll_trans [OF 1(4) 2(4)] kept_subs in simp_all)
  next
    case False
    have fl: "same_link B (B\<lparr>sub_burn_after_writing := True\<rparr>) \<and> sub_state (B\<lparr>sub_burn_after_writing := True\<rparr>) = sub_state B \<and>
      sub_client (B\<lparr>sub_burn_after_writing := True\<rparr>) = sub_client B" for B by simp
    obtain s' where 2: "upd_sub b (\<lambda>b. b\<lparr>sub_burn_after_writing := True\<rparr>) s1 = Some s'" "serving s'" "steady s1 s'" "g_users s' = g_users s1"
      by (rule flag_serving [OF 1(2) o1 fl]) (rule that; assumption)
    have e: "g_uHead s' = g_uHead s1" "g_sk s' = g_sk s1" "queued s' b = queued s1 b"
      using 2(1) by (auto simp: upd_sub_def queued_def lowq_def highq_def split: option.splits)
    have "roll s1 s'" by (rule steady_roll [OF 2(3,4) e(1)])
    then show thesis by (intro that [of s']) (use False 1 2 e(2,3) q1 roll_trans [OF 1(4)] kept_subs in simp_all)
  qed
qed

lemma check_sub_ok:
  assumes os: "good_os (e_os E)" and q: "quiet E" and sv: "serving s" and n: "subs_of s u = pre @ n # rest"
  obtains s' where "check_sub E t u n s = Some (hd_opt rest, s')" "serving s'" "roll s s'" "\<exists>pre'. subs_of s' u = pre' @ rest"
proof -
  have o: "owner s n = Some u" using baseD(7) [OF servingD(2) [OF sv], of n u] n by simp
  have np: "n \<notin> set pre" using baseD(5) [OF servingD(2) [OF sv], of u] n by simp
  obtain B U where B: "g_subs s n = Some B" "sub_user B = Some u" "g_users s u = Some U" by (rule owned [OF servingD(2) [OF sv] o])
  have nx: "next_of n (u_subuser V) = Some (hd_opt rest)" if "g_users s' u = Some V" "subs_of s' u = pre @ n # rest" for s' V
    using next_of_mid [OF np, of rest] that by (simp add: subs_of_def)
  show thesis
  proof (cases "t - sub_idle B \<ge> TIMEOUT_SEC")
    case True
    obtain s' where s': "delsubuser E n s = Some s'" "serving s'" "roll s s'" "subs_of s' = (subs_of s)(u := remove1 n (subs_of s u))"
      by (rule delsubuser_serving [OF q sv o]) (rule that; assumption)
    have "subs_of s' u = pre @ rest" using s'(4) n np by (simp add: remove1_append)
    then show thesis by (intro that [OF _ s'(2,3)]) (use B True nx [OF B(3) n] s'(1) in \<open>auto simp: check_sub_def\<close>)
  next
    case False
    let ?w = "if sub_state B = ALIVE \<and> sub_nraw B \<noteq> 0 \<and> \<not> sub_need_update B \<and> \<not> sub_burn_after_writing B then
      (do { (finish, s) \<leftarrow> send_raws E n s;
         if finish then data_completly_sent n s else upd_sub n (\<lambda>b. b\<lparr>sub_burn_after_writing := True\<rparr>) s })
      else FIRE_EVENT_NONSTOP EV_tickuser (e_tickuser E) (\<lambda>cb. cb n) s"
    obtain s' where s': "?w = Some s'" "serving s'" "roll s s'" "subs_of s' = subs_of s"
    proof (cases "sub_state B = ALIVE \<and> sub_nraw B \<noteq> 0 \<and> \<not> sub_need_update B \<and> \<not> sub_burn_after_writing B")
      case True
      then have ne: "sub_nraw B \<noteq> 0" "sub_state B = ALIVE" by simp_all
      obtain cl k where k: "sub_client B = Some cl" "g_co s cl = Some k"
        using servingD(4) [OF sv o conn_of [OF B(1)]] by (auto simp: link_ok_def)
      obtain s' where "(do { (finish, s) \<leftarrow> send_raws E n s;
          if finish then data_completly_sent n s else upd_sub n (\<lambda>b. b\<lparr>sub_burn_after_writing := True\<rparr>) s }) = Some s'"
        "serving s'" "roll s s'" "subs_of s' = subs_of s"
        by (rule write_ok [OF os sv o B(1) ne B(3) k]) (rule that; assumption)
      then show thesis using True by (intro that [of s']) simp_all
    next
      case False
      show thesis by (rule that [of s]) (use False sv quietD(8) [OF q] in auto)
    qed
    have n': "subs_of s' u = pre @ n # rest" using s'(4) n by simp
    then obtain V where V: "g_users s' u = Some V" by (auto simp: subs_of_def split: option.splits)
    have "check_sub E t u n s = Some (hd_opt rest, s')"
      unfolding check_sub_def using B(1) False s'(1) V nx [OF V n'] by simp
    then show thesis by (rule that [OF _ s'(2,3)]) (use n' in \<open>auto intro: exI [of _ "pre @ [n]"]\<close>)
  qed
qed

text \<open>A human user that has been silent for too long.\<close>

definition expired :: "int \<Rightarrow> int \<times> user_type \<times> transport_t \<Rightarrow> bool" where
  "expired t w \<longleftrightarrow> t - fst w \<ge> TIMEOUT_SEC \<and> fst (snd w) = HUMAN"

lemma expired_who: "expired t (who U) \<longleftrightarrow> t - u_idle U \<ge> TIMEOUT_SEC \<and> u_type U = HUMAN"
  by (simp add: expired_def who_def)

definition profile :: "acetables \<Rightarrow> nat \<Rightarrow> (int \<times> user_type \<times> transport_t) option" where
  "profile s u = map_option who (g_users s u)"

definition silent :: "acetables \<Rightarrow> int \<Rightarrow> nat \<Rightarrow> bool" where
  "silent s t u \<longleftrightarrow> (case profile s u of None \<Rightarrow> False | Some w \<Rightarrow> expired t w)"

lemma silent_user: "g_users s u = Some U \<Longrightarrow> silent s t u \<longleftrightarrow> t - u_idle U \<ge> TIMEOUT_SEC \<and> u_type U = HUMAN"
  by (simp add: silent_def profile_def expired_who)

lemma check_user_ok:
  assumes os: "good_os (e_os E)" and q: "quiet E" and sv: "serving s" and n: "g_uHead s = pre @ u # rest"
  obtains s' pre' where "check_user E t u s = Some (hd_opt rest, s')" "serving s'" "g_uHead s' = pre' @ rest" "g_now s' = g_now s" "slots s s'"
    "\<And>v. profile s' v = (if v = u \<and> silent s t u then None else profile s v)"
proof -
  have np: "u \<notin> set pre" using baseD(10) [OF servingD(2) [OF sv]] n by simp
  have ud: "u \<in> dom (g_users s)" using baseD(11) [OF servingD(2) [OF sv]] n by auto
  then obtain U where U: "g_users s u = Some U" by auto
  have nx: "next_of u (g_uHead s) = Some (hd_opt rest)" using next_of_mid [OF np, of rest] n by simp
  note sil = silent_user [OF U, of t]
  consider (gone) "silent s t u" | (human) "\<not> silent s t u" "u_type U = HUMAN" | (bot) "\<not> silent s t u" "u_type U \<noteq> HUMAN" by blast
  then show thesis
  proof cases
    case gone
    obtain s' where s': "deluser E (Some u) s = Some s'" "serving s'" "dom (g_users s') = dom (g_users s) - {u}" "g_uHead s' = remove1 u (g_uHead s)"
      "g_now s' = g_now s" "\<And>v. v \<noteq> u \<Longrightarrow> map_option who (g_users s' v) = map_option who (g_users s v)" "g_co s' = g_co s"
      by (rule deluser_serving [OF q sv ud]) (rule that; assumption)
    have "g_users s' u = None" using s'(3) by auto
    moreover have "g_uHead s' = pre @ rest" using s'(4) n np by (simp add: remove1_append)
    moreover have "check_user E t u s = Some (hd_opt rest, s')" using nx U gone s'(1) sil by (simp add: check_user_def)
    ultimately show thesis using s'(2,5,6) gone slots_steps(1) [OF s'(7)] by (intro that [of s' pre]) (auto simp: profile_def)
  next
    case human
    let ?I = "\<lambda>vs t'. serving t' \<and> roll s t' \<and> (\<exists>pre'. subs_of t' u = pre' @ vs)"
    have step: "\<exists>t'. check_sub E t u b x = Some (hd_opt vs, t') \<and> ?I vs t'" if I: "?I (b # vs) x" for b vs x
    proof -
      obtain pre' where p: "serving x" "roll s x" "subs_of x u = pre' @ b # vs" using I by blast
      obtain t' where "check_sub E t u b x = Some (hd_opt vs, t')" "serving t'" "roll x t'" "\<exists>pre'. subs_of t' u = pre' @ vs"
        by (rule check_sub_ok [OF os q p(1,3)]) (rule that; assumption)
      then show ?thesis using roll_trans [OF p(2)] by blast
    qed
    have "?I (u_subuser U) s" using sv U by (simp add: subs_of_def)
    from walk_list [of ?I "check_sub E t u", OF step this] obtain s' where
      s': "walk (check_sub E t u) (hd_opt (u_subuser U)) s = Some s'" "serving s'" "roll s s'" by blast
    have "check_user E t u s = Some (hd_opt rest, s')" using nx U human s'(1) sil by (simp add: check_user_def)
    moreover have "g_uHead s' = (pre @ [u]) @ rest" using s'(3) n by (simp add: roll_def)
    ultimately show thesis using s'(2,3) human(1) by (intro that [of s' "pre @ [u]"]) (auto simp: roll_def profile_def)
  next
    case bot
    have "check_user E t u s = Some (hd_opt rest, s)" using nx U bot sil by (simp add: check_user_def)
    then show thesis using sv bot(1) n slots_steps(1) [of s s] by (intro that [of s "pre @ [u]"]) auto
  qed
qed

lemma check_timeout_ok:
  assumes os: "good_os (e_os E)" and q: "quiet E" and sv: "serving s"
  shows "\<exists>s'. check_timeout E s = Some s' \<and> serving s' \<and> g_now s' = g_now s \<and> slots s s' \<and>
     (\<forall>v. profile s' v = (if silent s (g_now s) v then None else profile s v))"
proof -
  let ?I = "\<lambda>vs t. serving t \<and> g_now t = g_now s \<and> slots s t \<and> (\<exists>pre. g_uHead t = pre @ vs) \<and>
    (\<forall>v. profile t v = (if silent s (g_now s) v \<and> v \<notin> set vs then None else profile s v))"
  have step: "\<exists>t'. check_user E (g_now s) u t = Some (hd_opt vs, t') \<and> ?I vs t'" if I: "?I (u # vs) t" for u vs t
  proof -
    obtain pre where p: "serving t" "g_now t = g_now s" "g_uHead t = pre @ u # vs" "slots s t"
      "\<And>v. profile t v = (if silent s (g_now s) v \<and> v \<notin> set (u # vs) then None else profile s v)"
      using I by blast
    have nu: "u \<notin> set vs" using baseD(10) [OF servingD(2) [OF p(1)]] p(3) by simp
    obtain t' pre' where t': "check_user E (g_now s) u t = Some (hd_opt vs, t')" "serving t'" "g_uHead t' = pre' @ vs" "g_now t' = g_now t" "slots t t'"
      "\<And>v. profile t' v = (if v = u \<and> silent t (g_now s) u then None else profile t v)"
      by (rule check_user_ok [OF os q p(1,3)]) (rule that; assumption)
    have "silent t (g_now s) u = silent s (g_now s) u" using p(5) [of u] by (simp add: silent_def)
    then have "profile t' v = (if silent s (g_now s) v \<and> v \<notin> set vs then None else profile s v)" for v
      using t'(6) [of v] p(5) [of v] nu by (cases "v = u") simp_all
    then show ?thesis using t'(1-4) p(2) slots_trans [OF p(4) t'(5)] by auto
  qed
  have "?I (g_uHead s) s"
  proof -
    have "v \<in> set (g_uHead s)" if "silent s (g_now s) v" for v
      using that baseD(11) [OF servingD(2) [OF sv]] by (auto simp: silent_def profile_def split: option.splits)
    then show ?thesis using sv slots_steps(1) [of s s] by auto
  qed
  from walk_list [of ?I "check_user E (g_now s)", OF step this] show ?thesis by (auto simp: check_timeout_def)
qed

end
