(* ===== verification/Ape_Users_Correct.thy ===== *)
theory Ape_Users_Correct
  imports Ape_Timer Ape_Sample
begin

text \<open>
  What the operations on users, connections and sessions, the delivery of messages and the command layer
  promise on every consistent state.
\<close>

section \<open>A concrete serving state\<close>

lemma sample_serving: "serving sample_world"
proof -
  have "sock_inv (g_sk sample_world)" by (simp add: sample_world_def ape_init_def)
  moreover have "link_ok sample_world (transport_of sample_world u) x" if "owner sample_world b = Some u" "conn sample_world b = Some x" for b u x
  proof -
    have "b = 6 \<and> u = 0 \<and> x = (ALIVE, Some 10) \<or> b = 7 \<and> u = 1 \<and> x = (ALIVE, Some 11)"
      using that by (auto simp: owner_def conn_def sample_world_def sample_sub_def split: if_splits)
    moreover have "link_ok sample_world (transport_of sample_world 0) (ALIVE, Some 10)" "link_ok sample_world (transport_of sample_world 1) (ALIVE, Some 11)"
      by (simp_all add: link_ok_def open_at_def fits_def transport_of_def sample_world_def sample_users_def sample_user_def)
    ultimately show ?thesis by auto
  qed
  ultimately show ?thesis using sample_world_ok by (simp add: serving_def)
qed

text \<open>A generator whose identifiers differ from block to block.\<close>

definition block_rand :: "nat \<Rightarrow> int" where
  "block_rand i = (if i mod 32 = 1 \<or> i mod 32 = 2 + i div 32 then 134217728 else 0)"

definition block_env :: env where
  "block_env = sample_env\<lparr>e_rand := block_rand\<rparr>"

lemma block_env_ok [simp]: "quiet block_env" "good_os (e_os block_env)" "e_rand block_env = block_rand" "rand_ok block_rand"
  using sample_env_quiet by (simp_all add: block_env_def quiet_def rand_ok_def block_rand_def RAND_MAX_def)

lemma block_env_polite: "polite block_env"
  by (simp add: polite_def block_env_def sample_env_def people_refl)

lemma block_id_at: "id_at block_rand 32 (32 * b) ! j = (if j = 1 \<or> j = 2 + b then CHR ''b'' else CHR ''a'')" if "j < 32"
proof -
  have "(32 * b + j) mod 32 = j" "(32 * b + j) div 32 = b" using that by simp_all
  then show ?thesis using that by (simp add: id_at_def block_rand_def partSize_def RAND_MAX_def basic_chars_def)
qed

lemma sample_taken: "x \<in> taken sample_world \<Longrightarrow> \<exists>c. x = key32 c"
  by (auto simp: taken_def sample_world_def sample_users_def sample_user_def sample_pipes_def ran_def split: if_splits)

lemma sample_ids_ready: "n \<le> 8 \<Longrightarrow> ids_ready block_env n sample_world"
proof -
  assume n: "n \<le> 8"
  let ?f = "\<lambda>i. id_at block_rand 32 (32 * i)"
  have r: "g_rpos sample_world = 0" by (simp add: sample_world_def ape_init_def)
  have "inj_on ?f {0..<n}"
  proof (rule inj_onI)
    fix i j assume i: "i \<in> {0..<n}" "j \<in> {0..<n}" "?f i = ?f j"
    then have "?f i ! (2 + i) = ?f j ! (2 + i)" by simp
    then show "i = j" using i n block_id_at [of "2 + i" i] block_id_at [of "2 + i" j] by (simp split: if_splits)
  qed
  moreover have "\<not> strcaseeq (?f i) x" if x: "x \<in> taken sample_world" for i x
  proof
    assume a: "strcaseeq (?f i) x"
    obtain c where "x = key32 c" using sample_taken [OF x] by blast
    then have "casefold (?f i) ! 0 = casefold (?f i) ! 1" using a by (simp add: strcaseeq_def key32_def)
    then show False using block_id_at [of 0 i] block_id_at [of 1 i] by (simp add: id_at_length tolower_def)
  qed
  ultimately show ?thesis by (simp add: ids_ready_def r distinct_map)
qed

section \<open>The table of commands\<close>

lemma register_cmd_spec:
  assumes "htbl_inv (hCallback T)"
  obtains T' where "register_cmd cmd f n T = Some T'" "htbl_inv (hCallback T')" "cmd_hook T' = cmd_hook T" "bad_cmd_callbacks T' = bad_cmd_callbacks T"
    "\<And>k. hashtbl_seek (hCallback T') (Some k) =
       (if strcaseeq k cmd then Some (Some \<lparr>cb_func = f, cb_need = n\<rparr>) else hashtbl_seek (hCallback T) (Some k))"
proof -
  let ?c = "\<lparr>cb_func = f, cb_need = n\<rparr>"
  obtain old where old: "hashtbl_seek (hCallback T) (Some cmd) = Some old" using ht.seek_total [OF assms] by blast
  obtain h where h: "(if old \<noteq> None then hashtbl_erase (hCallback T) (Some cmd) else Some (hCallback T)) = Some h" "htbl_inv h"
    "\<And>k. \<not> strcaseeq k cmd \<Longrightarrow> hashtbl_seek h (Some k) = hashtbl_seek (hCallback T) (Some k)"
  proof (cases old)
    case None
    then show thesis using assms by (intro that [of "hCallback T"]) simp_all
  next
    case (Some c)
    obtain h where "hashtbl_erase (hCallback T) (Some cmd) = Some h" "htbl_inv h"
      "\<forall>k. hashtbl_seek h (Some k) = (if strcaseeq k cmd then Some None else hashtbl_seek (hCallback T) (Some k))"
      using ht.erase_law [OF assms, of cmd] by blast
    then show thesis using Some by (intro that [of h]) simp_all
  qed
  obtain h' where h': "hashtbl_append h (Some cmd) ?c = Some h'" "htbl_inv h'"
    "\<forall>k. hashtbl_seek h' (Some k) = (if strcaseeq k cmd then Some (Some ?c) else hashtbl_seek h (Some k))"
    using ht.append_law [OF h(2), of cmd ?c] by blast
  show thesis by (rule that [of "T\<lparr>hCallback := h'\<rparr>"]) (use old h h' in \<open>simp_all add: register_cmd_def\<close>)
qed

lemma forM_fun: "forM [] f = Some" "forM (x # xs) f = (\<lambda>s. Option.bind (f x s) (forM xs f))"
  by (simp_all add: fun_eq_iff)

lemma register_all:
  assumes "htbl_inv (hCallback T)"
  shows "\<exists>T'. forM xs (\<lambda>(n, c). register_cmd n (cb_func c) (cb_need c)) T = Some T' \<and> htbl_inv (hCallback T') \<and>
     cmd_hook T' = cmd_hook T \<and> bad_cmd_callbacks T' = bad_cmd_callbacks T \<and>
     (\<forall>k. hashtbl_seek (hCallback T') (Some k) =
       (case map_of (rev (map (apfst casefold) xs)) (casefold k) of None \<Rightarrow> hashtbl_seek (hCallback T) (Some k) | Some c \<Rightarrow> Some (Some c)))"
  using assms
proof (induction xs arbitrary: T)
  case (Cons nc xs)
  obtain n c where nc: "nc = (n, c)" by (cases nc)
  obtain T1 where 1: "register_cmd n (cb_func c) (cb_need c) T = Some T1" "htbl_inv (hCallback T1)" "cmd_hook T1 = cmd_hook T"
    "bad_cmd_callbacks T1 = bad_cmd_callbacks T"
    "\<And>k. hashtbl_seek (hCallback T1) (Some k) =
       (if strcaseeq k n then Some (Some \<lparr>cb_func = cb_func c, cb_need = cb_need c\<rparr>) else hashtbl_seek (hCallback T) (Some k))"
    by (rule register_cmd_spec [OF Cons.prems]) (rule that; assumption)
  obtain T' where T': "forM xs (\<lambda>(n, c). register_cmd n (cb_func c) (cb_need c)) T1 = Some T'" "htbl_inv (hCallback T')"
    "cmd_hook T' = cmd_hook T1" "bad_cmd_callbacks T' = bad_cmd_callbacks T1"
    "\<And>k. hashtbl_seek (hCallback T') (Some k) =
       (case map_of (rev (map (apfst casefold) xs)) (casefold k) of None \<Rightarrow> hashtbl_seek (hCallback T1) (Some k) | Some c \<Rightarrow> Some (Some c))"
    using Cons.IH [OF 1(2)] by blast
  have "hashtbl_seek (hCallback T') (Some k) = (case map_of (rev (map (apfst casefold) (nc # xs))) (casefold k) of
      None \<Rightarrow> hashtbl_seek (hCallback T) (Some k) | Some c \<Rightarrow> Some (Some c))" for k
    using T'(5) [of k] 1(5) [of k] by (simp add: nc map_add_def strcaseeq_def split: option.splits)
  then show ?case using 1(1,3,4) T'(1-4) by (simp add: nc)
qed simp

definition builtin_commands :: "(string \<times> callback) list" where
  "builtin_commands =
     [(''CONNECT'', \<lparr>cb_func = Cmd_connect, cb_need = NEED_NOTHING\<rparr>), (''SCRIPT'', \<lparr>cb_func = Cmd_script, cb_need = NEED_NOTHING\<rparr>),
      (''CHECK'', \<lparr>cb_func = Cmd_check, cb_need = NEED_SESSID\<rparr>), (''SEND'', \<lparr>cb_func = Cmd_send, cb_need = NEED_SESSID\<rparr>),
      (''QUIT'', \<lparr>cb_func = Cmd_quit, cb_need = NEED_SESSID\<rparr>), (''JOIN'', \<lparr>cb_func = Cmd_join, cb_need = NEED_SESSID\<rparr>),
      (''LEFT'', \<lparr>cb_func = Cmd_left, cb_need = NEED_SESSID\<rparr>), (''SESSION'', \<lparr>cb_func = Cmd_session, cb_need = NEED_SESSID\<rparr>)]"

text \<open>The command of a name, up to case.\<close>

definition command_named :: "string \<Rightarrow> callback option" where
  "command_named k = map_of (rev (map (apfst casefold) builtin_commands)) (casefold k)"

lemma command_named_in: "command_named k = Some c \<Longrightarrow> \<exists>n. (n, c) \<in> set builtin_commands \<and> strcaseeq k n"
proof -
  assume "command_named k = Some c"
  then have "(casefold k, c) \<in> set (map (apfst casefold) builtin_commands)" unfolding command_named_def using map_of_SomeD by fastforce
  then show ?thesis unfolding strcaseeq_def by auto
qed

lemma do_register_spec:
  obtains T where "do_register cmd_init = Some T" "htbl_inv (hCallback T)" "cmd_hook T = []" "bad_cmd_callbacks T = []"
    "\<And>k. hashtbl_seek (hCallback T) (Some k) = Some (command_named k)"
proof -
  have 0: "htbl_inv (hCallback cmd_init)" by (simp add: cmd_init_def ht.inv_empty)
  obtain T where T: "forM builtin_commands (\<lambda>(n, c). register_cmd n (cb_func c) (cb_need c)) cmd_init = Some T" "htbl_inv (hCallback T)"
    "cmd_hook T = cmd_hook cmd_init" "bad_cmd_callbacks T = bad_cmd_callbacks cmd_init"
    "\<And>k. hashtbl_seek (hCallback T) (Some k) =
       (case map_of (rev (map (apfst casefold) builtin_commands)) (casefold k) of None \<Rightarrow> hashtbl_seek (hCallback cmd_init) (Some k) | Some c \<Rightarrow> Some (Some c))"
    using register_all [OF 0, of builtin_commands] by blast
  have e: "hashtbl_seek (hCallback cmd_init) (Some k) = Some None" for k by (simp add: cmd_init_def ht.seek_empty)
  have "hashtbl_seek (hCallback T) (Some k) = Some (command_named k)" for k
    unfolding T(5) command_named_def e by (simp split: option.split)
  moreover have "do_register cmd_init = Some T" using T(1) by (simp add: builtin_commands_def do_register_def forM_fun)
  ultimately show thesis using T(2-4) by (intro that [of T]) (simp_all add: cmd_init_def)
qed

lemma do_register_builtin: "do_register cmd_init = Some T \<Longrightarrow> builtin T"
proof -
  assume T: "do_register cmd_init = Some T"
  have t: "htbl_inv (hCallback T)" "cmd_hook T = []" "bad_cmd_callbacks T = []"
    "hashtbl_seek (hCallback T) (Some k) = Some (command_named k)" for k
    by (rule do_register_spec, simp add: T)+
  have "cb_func c \<notin> range Plugin_cmd \<and> cb_func c \<noteq> Handle_bad_cmd \<and> (needs_user (cb_func c) \<longrightarrow> cb_need c \<noteq> NEED_NOTHING) \<and>
    (cb_func c = Cmd_connect \<longrightarrow> strcaseeq k ''CONNECT'')" if c: "command_named k = Some c" for k c
  proof -
    obtain n where n: "(n, c) \<in> set builtin_commands" "strcaseeq k n" using command_named_in [OF c] by blast
    then show ?thesis by (auto simp: builtin_commands_def needs_user_def)
  qed
  then show ?thesis unfolding builtin_def t(4) using t(1-3) by blast
qed

text \<open>After start-up the table of commands holds exactly the eight built-in commands, found in any
  spelling of their names, and the six that act for a user ask for a session.\<close>

lemma do_register_table:
  "\<exists>T. do_register cmd_init = Some T \<and> builtin T \<and>
     (\<forall>k. hashtbl_seek (hCallback T) (Some k) = Some (command_named k))"
  by (rule do_register_spec) (use do_register_builtin in blast)

section \<open>A concrete request\<close>

definition sample_cmdenv :: cmdenv where
  "sample_cmdenv = \<lparr>x_env = block_env, x_plugin = (\<lambda>_ _ _. None), x_domain = Some ''ape.example'', x_tab = the (do_register cmd_init)\<rparr>"

lemma sample_calm: "calm sample_cmdenv"
proof -
  obtain T where "do_register cmd_init = Some T" by (rule do_register_spec)
  then have "builtin (x_tab sample_cmdenv)" using do_register_builtin by (simp add: sample_cmdenv_def)
  then show ?thesis by (simp add: calm_def sample_cmdenv_def block_env_polite)
qed

text \<open>One \<open>JOIN\<close> of a new channel, with the session of the second user.\<close>

definition sample_cmd :: json_item where
  "sample_cmd = json_set_property_objN
     (json_set_property_strZ (json_set_property_strZ json_new_object (Some ''cmd'') ''JOIN'') (Some ''sessid'') (key32 (CHR ''b'')))
     (Some ''params'') 6 (json_set_property_objN json_new_object (Some ''channels'') 8 (json_set_element_strZ json_new_array ''News''))"

definition sample_request :: "json_item list" where
  "sample_request = [json_set_element_obj json_new_array sample_cmd]"

lemma sample_request_cmds: "concat (map jchild (take 1 sample_request)) = [sample_cmd]" "ids_needed sample_cmd = 1"
  by code_simp+

lemma sample_same_transport: "pc_guser pc = None \<Longrightarrow> pc_transport pc = TRANSPORT_LONGPOLLING \<Longrightarrow> same_transport ijson pc sample_world"
  using identify_ok [OF sample_serving, of ijson pc]
  by (auto simp: same_transport_def transport_of_def sample_world_def sample_users_def sample_user_def split: if_splits)

lemma supplied_one: "same_transport c pc s \<Longrightarrow> ids_ready (x_env X) (ids_needed c + 2) s \<Longrightarrow> supplied X [c] pc s"
  by (simp split: option.split prod.split)

section \<open>Users\<close>



text \<open>C5. The periodic pass returns although users and connections are deleted while it walks over them:
  afterwards the human users that were silent for \<open>TIMEOUT_SEC\<close> or longer are gone, every other user is
  still there with its idle time, type and transport, and the state is consistent.\<close>

theorem check_timeout_correct:
  assumes "good_os (e_os E)" and "quiet E" and "serving s"
  shows "\<exists>s'. check_timeout E s = Some s' \<and> serving s' \<and>
     (\<forall>u. map_option who (g_users s' u) =
       (case g_users s u of
          None \<Rightarrow> None
        | Some U \<Rightarrow> if g_now s - u_idle U \<ge> TIMEOUT_SEC \<and> u_type U = HUMAN then None else Some (who U)))"
proof -
  obtain s' where s': "check_timeout E s = Some s'" "serving s'" "\<And>u. profile s' u = (if silent s (g_now s) u then None else profile s u)"
    using check_timeout_ok [OF assms] by blast
  have "map_option who (g_users s' u) = (case g_users s u of None \<Rightarrow> None
      | Some U \<Rightarrow> if g_now s - u_idle U \<ge> TIMEOUT_SEC \<and> u_type U = HUMAN then None else Some (who U))" for u
    using s'(3) [of u] by (cases "g_users s u") (auto simp: profile_def silent_def expired_who)
  then show ?thesis using s'(1,2) by blast
qed

theorem check_timeout_correct_witness:
  "\<exists>s'. check_timeout sample_env sample_world = Some s' \<and> serving s' \<and>
     (\<forall>u. map_option who (g_users s' u) =
       (case g_users sample_world u of
          None \<Rightarrow> None
        | Some U \<Rightarrow> if g_now sample_world - u_idle U \<ge> TIMEOUT_SEC \<and> u_type U = HUMAN then None else Some (who U)))"
  by (rule check_timeout_correct [OF sample_env_quiet(2,1) sample_serving])

text \<open>C13. A preallocated user has two fresh identifiers, one connection for its host that is not alive yet,
  and is the newest of the users; it is in no channel, and nobody else is affected.\<close>

theorem adduser_correct:
  assumes "quiet E" and "world s" and "length ch \<le> MAX_HOST_LENGTH" and "ids_ready E 2 s"
  shows "\<exists>u b s'. adduser E client ch ip None s = Some (Some u, s') \<and> world s' \<and> u \<notin> dom (g_users s) \<and>
     g_uHead s' = u # g_uHead s \<and> map_option u_istmp (g_users s' u) = Some True \<and>
     map_option u_sessid (g_users s' u) = Some (id_at (e_rand E) 32 (g_rpos s)) \<and>
     subs_of s' = (subs_of s)(u := [b]) \<and> conn s' = (conn s)(b \<mapsto> (ADIED, client)) \<and>
     foot s' u = [] \<and> foot s' = foot s \<and> members s' = members s \<and> (\<forall>v. v \<noteq> u \<longrightarrow> g_users s' v = g_users s v)"
proof -
  have g: "gen_sessid_new (e_rand E) s (g_rpos s) = Some (id_at (e_rand E) 32 (g_rpos s), g_rpos s + 32)"
    "gen_sessid_new (e_rand E) s (g_rpos s + 32) = Some (id_at (e_rand E) 32 (g_rpos s + 32), g_rpos s + 64)"
    using ids_ready_gen [OF assms(2,4), of 0] ids_ready_gen [OF assms(2,4), of 1] by (simp_all add: add.assoc)
  obtain s' U where s': "adduser E client ch ip None s = Some (Some (g_next s), s')" "world s'" "g_users s (g_next s) = None"
    "g_users s' = (g_users s)(g_next s \<mapsto> U)" "u_sessid U = id_at (e_rand E) 32 (g_rpos s)" "u_istmp U"
    "subs_of s' = (subs_of s)(g_next s := [Suc (Suc (g_next s))])" "foot s' = foot s" "members s' = members s" "g_uHead s' = g_next s # g_uHead s"
    "conn s' = (conn s)(Suc (Suc (g_next s)) \<mapsto> (ADIED, client))"
    by (rule adduser_spec [OF assms(1-3) g]) (rule that; assumption)
  have "foot s' (g_next s) = []" using s'(3,8) by (simp add: foot_def)
  then show ?thesis using s' by (intro exI [of _ "g_next s"] exI [of _ "Suc (Suc (g_next s))"] exI [of _ s']) auto
qed

theorem adduser_correct_witness:
  "\<exists>u b s'. adduser block_env (Some 12) ''ape'' ''10.0.0.2'' None sample_world = Some (Some u, s') \<and> world s' \<and> u \<notin> dom (g_users sample_world) \<and>
     g_uHead s' = u # g_uHead sample_world \<and> map_option u_istmp (g_users s' u) = Some True \<and>
     map_option u_sessid (g_users s' u) = Some (id_at (e_rand block_env) 32 (g_rpos sample_world)) \<and>
     subs_of s' = (subs_of sample_world)(u := [b]) \<and> conn s' = (conn sample_world)(b \<mapsto> (ADIED, Some 12)) \<and>
     foot s' u = [] \<and> foot s' = foot sample_world \<and> members s' = members sample_world \<and>
     (\<forall>v. v \<noteq> u \<longrightarrow> g_users s' v = g_users sample_world v)"
  by (rule adduser_correct [OF block_env_ok(1) sample_world_ok _ sample_ids_ready]) (simp_all add: MAX_HOST_LENGTH_def)

text \<open>C14. Deleting a user removes it from the list of users, from every channel and from the session
  table, releases its connections (those that are alive are kept, detached, until they close) and leaves
  every other user and connection as it was.\<close>

theorem deluser_correct:
  assumes "quiet E" and "world s" and "u \<in> dom (g_users s)"
  shows "\<exists>s'. deluser E (Some u) s = Some s' \<and> world s' \<and> dom (g_users s') = dom (g_users s) - {u} \<and>
     g_uHead s' = remove1 u (g_uHead s) \<and> foot s' = (foot s)(u := []) \<and> (\<forall>c. members s' c = remove1 u (members s c)) \<and>
     (\<forall>b. owner s b = Some u \<longrightarrow> g_subs s' b = None) \<and>
     dom (g_detached s') = dom (g_detached s) \<union> {b. owner s b = Some u \<and> alive s b} \<and>
     (\<forall>b. owner s b \<noteq> Some u \<longrightarrow> conn s' b = conn s b \<and> owner s' b = owner s b) \<and> g_nConnected s' = g_nConnected s - 1"
  by (rule deluser_spec [OF assms]) blast

theorem deluser_correct_witness:
  "\<exists>s'. deluser sample_env (Some 0) sample_world = Some s' \<and> world s' \<and> dom (g_users s') = dom (g_users sample_world) - {0} \<and>
     g_uHead s' = remove1 0 (g_uHead sample_world) \<and> foot s' = (foot sample_world)(0 := []) \<and>
     (\<forall>c. members s' c = remove1 0 (members sample_world c)) \<and> (\<forall>b. owner sample_world b = Some 0 \<longrightarrow> g_subs s' b = None) \<and>
     dom (g_detached s') = dom (g_detached sample_world) \<union> {b. owner sample_world b = Some 0 \<and> alive sample_world b} \<and>
     (\<forall>b. owner sample_world b \<noteq> Some 0 \<longrightarrow> conn s' b = conn sample_world b \<and> owner s' b = owner sample_world b) \<and>
     g_nConnected s' = g_nConnected sample_world - 1"
  by (rule deluser_correct [OF sample_env_hooks sample_world_ok sample_look(6)])

text \<open>C37. A further connection of a user for a host it has none for: the connection is new and its own,
  not alive yet, and starts with a copy of the low-priority messages its user's newest connection still
  has queued, so that nothing sent meanwhile is missed; a host that is known or too long is refused and
  changes nothing.\<close>

theorem addsubuser_correct:
  assumes "quiet E" and "world s" and "g_users s u = Some U"
  shows "if ch \<in> host s ` set (subs_of s u) \<or> length ch > MAX_HOST_LENGTH then addsubuser E client ch u s = Some (None, s)
    else \<exists>b s'. addsubuser E client ch u s = Some (Some b, s') \<and> world s' \<and> b \<notin> dom (g_subs s) \<and>
      subs_of s' = (subs_of s)(u := b # subs_of s u) \<and> conn s' = (conn s)(b \<mapsto> (ADIED, client)) \<and>
      (\<forall>c. lowq s' c = (if c = b then filter (\<lambda>r. \<not> raw_hi s r) (case subs_of s u of [] \<Rightarrow> [] | p # _ \<Rightarrow> lowq s p) else lowq s c))"
proof (cases "ch \<in> host s ` set (subs_of s u) \<or> length ch > MAX_HOST_LENGTH")
  case True
  then show ?thesis using addsubuser_refused [OF worldD(1) [OF assms(2)] domI [where m = "g_users s", OF assms(3)]] by simp
next
  case False
  then have h: "ch \<notin> host s ` set (subs_of s u)" "length ch \<le> MAX_HOST_LENGTH" by simp_all
  obtain s' where s': "addsubuser E client ch u s = Some (Some (g_next s), s')" "world s'" "subs_of s' = (subs_of s)(u := g_next s # subs_of s u)"
    "\<And>c. lowq s' c = (if c = g_next s then filter (\<lambda>r. \<not> raw_hi s r) (case subs_of s u of [] \<Rightarrow> [] | p # _ \<Rightarrow> lowq s p) else lowq s c)"
    "conn s' = (conn s)(g_next s \<mapsto> (ADIED, client))"
    by (rule addsubuser_spec [OF assms h]) (rule that; assumption)
  have "g_next s \<notin> dom (g_subs s)" using msg_invD(3) [OF baseD(1) [OF worldD(1) [OF assms(2)]]] by blast
  then show ?thesis using False s' by auto
qed

theorem addsubuser_correct_witness:
  "if ''other'' \<in> host sample_world ` set (subs_of sample_world 0) \<or> length ''other'' > MAX_HOST_LENGTH
    then addsubuser sample_env (Some 11) ''other'' 0 sample_world = Some (None, sample_world)
    else \<exists>b s'. addsubuser sample_env (Some 11) ''other'' 0 sample_world = Some (Some b, s') \<and> world s' \<and> b \<notin> dom (g_subs sample_world) \<and>
      subs_of s' = (subs_of sample_world)(0 := b # subs_of sample_world 0) \<and> conn s' = (conn sample_world)(b \<mapsto> (ADIED, Some 11)) \<and>
      (\<forall>c. lowq s' c = (if c = b then filter (\<lambda>r. \<not> raw_hi sample_world r)
         (case subs_of sample_world 0 of [] \<Rightarrow> [] | p # _ \<Rightarrow> lowq sample_world p) else lowq sample_world c))"
  by (rule addsubuser_correct [OF sample_env_hooks sample_world_ok sample_look(1)])

section \<open>Sessions\<close>



section \<open>Delivery\<close>

text \<open>The pipe of a public identifier, and whether a user may write to it: to a channel only as a member.\<close>

lemma get_pipe_strict_eq:
  assumes w: "world s" and P: "g_pipes s p = Some P" "strcaseeq k (p_pubid P)" and u: "u \<in> dom (g_users s)"
  shows "get_pipe_strict k (Some u) s = Some (if p_type P = CHANNEL_PIPE \<longrightarrow> u \<in> set (members s (p_pipe P)) then Some p else None)"
proof -
  note B = worldD(1) [OF w]
  have "length k = 32" using baseD(16) [OF B P(1)] P(2) [unfolded strcaseeq_def, THEN arg_cong, of length] by (simp add: pipe_ok_def)
  then have "get_pipe k s = Some (Some p)" using indexes_hit [OF baseD(3) [OF B] P(1), of k] P(2) by (simp add: get_pipe_def)
  moreover have "isonchannel (Some u) (Some c) s = Some (u \<in> set (members s c))" for c
    using isonchannel_live [OF u, of c] linkedD(3) [OF worldD(2) [OF w], of c u] by simp
  ultimately show ?thesis using P(1) by (simp add: get_pipe_strict_def)
qed

text \<open>C11. A message to a pipe reaches exactly those it is for: when the sender may write there, its other
  connections receive one copy and every connection of the addressed user, or of the other members of the
  channel, one message; a sender that is not a member of the channel receives one error on its own
  connections and nobody else receives anything.\<close>

theorem post_to_pipe_correct:
  assumes "quiet E" and "polite E" and "world s" and "owner s b0 = Some u" and "json_container j"
    and "g_pipes s p = Some P" and "strcaseeq k (p_pubid P)" and "p_type P \<noteq> CUSTOM_PIPE"
  shows "if p_type P = CHANNEL_PIPE \<longrightarrow> u \<in> set (members s (p_pipe P))
    then \<exists>m1 m2 s'. post_to_pipe E j n k b0 s = Some (True, s') \<and> world s' \<and>
      (\<forall>b. lowq s' b = lowq s b @ (if owner s b = Some u \<and> b \<noteq> b0 then [m1] else []) @
        (if owner s b \<in> Some ` (if p_type P = CHANNEL_PIPE then set (members s (p_pipe P)) - {u} else {p_pipe P}) then [m2] else []))
    else \<exists>m s'. post_to_pipe E j n k b0 s = Some (False, s') \<and> world s' \<and>
      (\<forall>b. lowq s' b = lowq s b @ (if owner s b = Some u then [m] else []))"
proof -
  have ud: "u \<in> dom (g_users s)" by (rule owner_user [OF worldD(1) [OF assms(3)] assms(4)])
  note g = get_pipe_strict_eq [OF assms(3,6,7) ud]
  have ty: "p_type P = USER_PIPE \<or> p_type P = CHANNEL_PIPE"
    using assms(8) baseD(16) [OF worldD(1) [OF assms(3)] assms(6)] by (cases "p_type P") (simp_all add: pipe_ok_def)
  have rc: "recipients s u p = (if p_type P = CHANNEL_PIPE then set (members s (p_pipe P)) - {u} else {p_pipe P})"
    using assms(6) ty by (auto simp: recipients_def target_def)
  show ?thesis
  proof (cases "p_type P = CHANNEL_PIPE \<longrightarrow> u \<in> set (members s (p_pipe P))")
    case True
    have gp: "get_pipe_strict k (Some u) s = Some (Some p)" using g True by simp
    have nc: "map_option fst (target s p) \<noteq> Some CUSTOM_PIPE" using assms(6,8) by (simp add: target_def)
    obtain m1 m2 s' where "post_to_pipe E j n k b0 s = Some (True, s')" "world s'"
      "\<And>b. map_option fst (target s p) \<noteq> Some CUSTOM_PIPE \<Longrightarrow> lowq s' b = lowq s b @ (if owner s b = Some u \<and> b \<noteq> b0 then [m1] else []) @
         (if owner s b \<in> Some ` recipients s u p then [m2] else [])"
      by (rule post_to_pipe_delivered [OF assms(1-5) gp]) (rule that; assumption)
    then show ?thesis using True nc unfolding rc by auto
  next
    case False
    have gp: "get_pipe_strict k (Some u) s = Some None" using g False by simp
    have "\<exists>m s'. post_to_pipe E j n k b0 s = Some (False, s') \<and> world s' \<and> (\<forall>b. lowq s' b = lowq s b @ (if owner s b = Some u then [m] else []))"
      by (rule post_to_pipe_refused [OF assms(1,3,4) gp]) blast
    then show ?thesis using False by simp
  qed
qed

theorem post_to_pipe_correct_witness:
  "if p_type (new_pipe 2 CHANNEL_PIPE (key32 (CHR ''e''))) = CHANNEL_PIPE \<longrightarrow> 0 \<in> set (members sample_world (p_pipe (new_pipe 2 CHANNEL_PIPE (key32 (CHR ''e'')))))
    then \<exists>m1 m2 s'. post_to_pipe block_env json_new_object ''DATA'' (key32 (CHR ''e'')) 6 sample_world = Some (True, s') \<and> world s' \<and>
      (\<forall>b. lowq s' b = lowq sample_world b @ (if owner sample_world b = Some 0 \<and> b \<noteq> 6 then [m1] else []) @
        (if owner sample_world b \<in> Some ` (if p_type (new_pipe 2 CHANNEL_PIPE (key32 (CHR ''e''))) = CHANNEL_PIPE
           then set (members sample_world (p_pipe (new_pipe 2 CHANNEL_PIPE (key32 (CHR ''e''))))) - {0}
           else {p_pipe (new_pipe 2 CHANNEL_PIPE (key32 (CHR ''e'')))}) then [m2] else []))
    else \<exists>m s'. post_to_pipe block_env json_new_object ''DATA'' (key32 (CHR ''e'')) 6 sample_world = Some (False, s') \<and> world s' \<and>
      (\<forall>b. lowq s' b = lowq sample_world b @ (if owner sample_world b = Some 0 then [m] else []))"
  by (rule post_to_pipe_correct [OF block_env_ok(1) block_env_polite sample_world_ok, where p = 5])
    (simp_all add: owner_def sample_world_def sample_sub_def sample_pipes_def tolower_def new_pipe_def)

section \<open>Writing queues and links\<close>

text \<open>C12. Nothing stays queued for a connection that can be written to: in the periodic pass a live
  connection with messages, no pending update and no unfinished write gets its whole queue written,
  once, in the reply its transport prescribes, and is left with an empty queue.\<close>

theorem check_sub_flushes:
  assumes "good_os (e_os E)" and "serving s" and "owner s b = Some u" and "g_users s u = Some U" and "g_subs s b = Some B"
    and "sub_state B = ALIVE" and "sub_nraw B \<noteq> 0" and "\<not> sub_need_update B" and "\<not> sub_burn_after_writing B"
    and "t - sub_idle B < TIMEOUT_SEC" and "sub_client B = Some cl" and "g_co s cl = Some k" and "cl \<noteq> 0"
  shows "\<exists>r s'. check_sub E t u b s = Some (r, s') \<and> serving s' \<and> lowq s' b = [] \<and> highq s' b = [] \<and>
     outp (g_sk s') cl = outp (g_sk s) cl @ reply_text s B (u_transport U) (s_ws k)"
proof -
  have fd: "s_fd k = cl" using servingD(4) [OF assms(2,3) conn_of [OF assms(5)]] assms(6,11,12) by (auto simp: link_ok_def open_at_def)
  obtain s' where s': "(do { (finish, s) \<leftarrow> send_raws E b s;
      if finish then data_completly_sent b s else upd_sub b (\<lambda>b. b\<lparr>sub_burn_after_writing := True\<rparr>) s }) = Some s'"
    "serving s'" "roll s s'" "subs_of s' = subs_of s" "queued s' b = ([], [])"
    "outp (g_sk s') (s_fd k) = outp (g_sk s) (s_fd k) @ (if s_fd k = 0 then [] else reply_text s B (u_transport U) (s_ws k))"
    by (rule write_ok [OF assms(1-3,5,7,6,4,11,12)]) (rule that; assumption)
  have "b \<in> set (subs_of s' u)" using s'(4) baseD(7) [OF servingD(2) [OF assms(2)], of b u] assms(3) by simp
  then obtain pre rest where n: "subs_of s' u = pre @ b # rest" "b \<notin> set pre" using split_list_first by metis
  then obtain V where V: "g_users s' u = Some V" "u_subuser V = pre @ b # rest" by (auto simp: subs_of_def split: option.splits)
  have "check_sub E t u b s = Some (hd_opt rest, s')"
    unfolding check_sub_def using assms(5-10) s'(1) V next_of_mid [OF n(2), of rest] by simp
  then show ?thesis using s'(2,5,6) fd assms(13) by (auto simp: queued_def)
qed

text \<open>A state with a queued message.\<close>

definition loaded_world :: acetables where
  "loaded_world = sample_world\<lparr>g_next := 9, g_raws := [8 \<mapsto> \<lparr>raw_data = ''hello'', raw_priority = RAW_PRI_LO, raw_refcount = 0\<rparr>],
     g_subs := (g_subs sample_world)(6 \<mapsto> sample_sub [8] (Some 10) (Some 0))\<rparr>"

lemma loaded_serving: "serving loaded_world"
proof -
  have dm: "dom (g_subs loaded_world) = {6, 7}" by (auto simp: loaded_world_def sample_world_def)
  have o: "occ loaded_world r = (if r = 8 then 1 else 0)" for r
    unfolding occ_def dm by (simp add: loaded_world_def sample_world_def)
  have "msg_inv loaded_world"
  proof (rule msg_invI)
    show "occ loaded_world r = 0" if "g_raws loaded_world r = None" for r
      using that unfolding o by (auto simp: loaded_world_def split: if_splits)
    show "r < g_next loaded_world" "0 \<le> raw_refcount y" "int (occ loaded_world r) \<le> max 1 (raw_refcount y)"
      if "g_raws loaded_world r = Some y" for r y
      using that unfolding o by (auto simp: loaded_world_def split: if_splits)
  qed (use dm in \<open>auto simp: loaded_world_def sample_world_def ape_init_def sprintf_li_def dec_digits_def split: if_splits\<close>)
  moreover have "posted sample_world loaded_world"
    by (simp add: posted_def loaded_world_def) (simp add: sample_world_def ape_init_def sub_core_def sample_sub_def)
  ultimately show ?thesis using serving_kept [OF sample_serving world_posted [OF sample_world_ok] kept_posted] by blast
qed

theorem check_sub_flushes_witness:
  "\<exists>r s'. check_sub sample_env 10 0 6 loaded_world = Some (r, s') \<and> serving s' \<and> lowq s' 6 = [] \<and> highq s' 6 = [] \<and>
     outp (g_sk s') 10 = outp (g_sk loaded_world) 10 @
       reply_text loaded_world (sample_sub [8] (Some 10) (Some 0)) (u_transport (sample_user 3 [6] [2] TRANSPORT_LONGPOLLING (key32 (CHR ''a''))))
         (s_ws \<lparr>s_fd = 10, s_ws = None, s_attach = Some 6\<rparr>)"
  by (rule check_sub_flushes [OF sample_env_quiet(2) loaded_serving])
    (simp_all add: loaded_world_def sample_world_def sample_sub_def sample_users_def owner_def TIMEOUT_SEC_def)

text \<open>The guard of \<open>make_link\<close> asks for the link it is about to create, so two users that are not linked
  never become linked.\<close>

lemma make_link_no_op: "are_linked a b s = Some None \<Longrightarrow> make_link a b s = Some s"
  by (simp add: make_link_def)

end
