(* ===== verification/Ape_Handshake.thy ===== *)
theory Ape_Handshake
  imports Ape_Digest Ape_Http Ape_Json_Read Ape_Users_Correct
begin

text \<open>
  What becomes of a request that a reader has found, from \<open>src/handle_http.c\<close> and \<open>src/parser.c\<close>: the websocket
  handshake, or the commands. The text that answers a request without commands contains the date of the build
  and is a parameter, as is the contents of the uninitialised memory a websocket parser is made of.
  \<open>None\<close> is again a run that leaves a buffer or follows a NULL pointer.
\<close>

unbundle bit_operations_syntax

section \<open>Transport\<close>

definition transport_number :: "nat \<Rightarrow> transport_t" where
  "transport_number n = [TRANSPORT_LONGPOLLING, TRANSPORT_XHRSTREAMING, TRANSPORT_JSONP, TRANSPORT_PERSISTANT,
     TRANSPORT_SSE_LONGPOLLING, TRANSPORT_SSE_JSONP, TRANSPORT_WEBSOCKET, TRANSPORT_WEBSOCKET_IETF] ! n"

definition gettransport :: "string \<Rightarrow> transport_t" where
  "gettransport input =
     (case dropWhile (\<lambda>c. c \<noteq> CHR ''/'') input of
        _ # d # e # _ \<Rightarrow>
          if 48 \<le> (of_char d :: nat) \<and> (of_char d :: nat) \<le> 54 \<and> e = CHR ''/'' then transport_number (of_char d - 48) else transport_number 0
      | _ \<Rightarrow> transport_number 0)"

section \<open>Handshake\<close>

definition WS_IETF_GUID :: string where
  "WS_IETF_GUID = ''258EAFA5-E914-47DA-95CA-C5AB0DC85B11''"

text \<open>The number in a key of revision 76: its digits, divided by its number of blanks.\<close>

fun r76_scan :: "u64 \<Rightarrow> nat \<Rightarrow> string \<Rightarrow> u64 \<times> nat" where
  "r76_scan val spaces [] = (val, spaces)"
| "r76_scan val spaces (c # cs) =
     (if is_digit c then r76_scan (val * 10 + of_nat (of_char c - 48)) spaces cs
      else if c = CHR '' '' then r76_scan val (spaces + 1) cs
      else r76_scan val spaces cs)"

definition ws_compute_key_r76 :: "string \<Rightarrow> u64" where
  "ws_compute_key_r76 key =
     (let (val, spaces) = r76_scan 0 0 key in if spaces = 0 then 0 else val div of_nat spaces)"

text \<open>\<open>htonl\<close> on the low 32 bits, on a little-endian machine.\<close>

definition htonl :: "u64 \<Rightarrow> u64" where
  "htonl n = push_bit 24 (n AND 0xFF) OR push_bit 8 (n AND 0xFF00) OR (drop_bit 8 n AND 0xFF00) OR (drop_bit 24 n AND 0xFF)"

text \<open>The answer to the eight bytes behind the headers. \<open>md5_update(&ctx, &ckey, 4)\<close> takes the first four bytes in
  memory of a number.\<close>

definition md5_answer :: "string \<Rightarrow> string \<Rightarrow> u8 list \<Rightarrow> u8 list" where
  "md5_answer key1 key2 body =
     (let ckey1 = htonl (ws_compute_key_r76 key1);
          ckey2 = htonl (ws_compute_key_r76 key2);
          ctx = md5_update md5_starts (PUT_UINT32 ckey1);
          ctx = md5_update ctx (PUT_UINT32 ckey2);
          ctx = md5_update ctx body in
      md5_finish ctx)"

definition ws_compute_key :: "string \<Rightarrow> string option" where
  "ws_compute_key key =
     (if length key > 32 then None else Some (base64_encode (sha1_csum (map byte_of (key @ WS_IETF_GUID)))))"

text \<open>\<open>(int)strtol\<close>, which is what \<open>atoi\<close> is in glibc.\<close>

definition atoi_int :: "string \<Rightarrow> int" where
  "atoi_int s = sint (word_of_int (max LLONG_MIN (min LLONG_MAX (atoi s))) :: 32 word)"

text \<open>The version with what its answer needs; an inner \<open>None\<close> is a refused handshake.\<close>

definition ws_handshake :: "http_state \<Rightarrow> u8 list \<Rightarrow> (ws_version \<times> string \<times> string option \<times> u8 list) option option" where
  "ws_handshake h m =
     (let hd = get_header_line (hs_hlines h);
          origin = (case hd ''Origin'' of None \<Rightarrow> hd ''Sec-WebSocket-Origin'' | Some v \<Rightarrow> Some v) in
      case origin of
        None \<Rightarrow> Some None
      | Some org \<Rightarrow>
          (case (hd ''Sec-WebSocket-Key1'', hd ''Sec-WebSocket-Key2'') of
             (Some key1, Some key2) \<Rightarrow> do {
               d \<leftarrow> hs_data h;
               if d + 8 \<le> length m then Some (Some (WS_76, org, None, md5_answer key1 key2 (take 8 (drop d m)))) else None }
           | _ \<Rightarrow>
             (case hd ''Sec-WebSocket-Key'' of
                Some keybase \<Rightarrow>
                  (case ws_compute_key keybase of
                     None \<Rightarrow> Some None
                   | Some wsaccept \<Rightarrow>
                       Some (Some (case hd ''Sec-WebSocket-Version'' of
                           None \<Rightarrow> WS_OLD
                         | Some v \<Rightarrow> if atoi_int v = 6 then WS_IETF_06 else WS_IETF_07, org, Some wsaccept, [])))
              | None \<Rightarrow> Some (Some (WS_OLD, org, None, [])))))"

definition WEBSOCKET_HARDCODED_HEADERS_OLD :: string where
  "WEBSOCKET_HARDCODED_HEADERS_OLD = ''HTTP/1.1 101 Web Socket Protocol Handshake'' @ crlf @ ''Upgrade: WebSocket'' @ crlf @ ''Connection: Upgrade'' @ crlf"

definition WEBSOCKET_HARDCODED_HEADERS_NEW :: string where
  "WEBSOCKET_HARDCODED_HEADERS_NEW = ''HTTP/1.1 101 WebSocket Protocol Handshake'' @ crlf @ ''Upgrade: WebSocket'' @ crlf @ ''Connection: Upgrade'' @ crlf"

definition WEBSOCKET_HARDCODED_HEADERS_IETF :: string where
  "WEBSOCKET_HARDCODED_HEADERS_IETF = ''HTTP/1.1 101 Switching Protocols'' @ crlf @ ''Upgrade: WebSocket'' @ crlf @ ''Connection: Upgrade'' @ crlf"

text \<open>The pieces of the answer, one per \<open>sendbin\<close>.\<close>

definition ws_answer ::
  "ws_version \<Rightarrow> string \<Rightarrow> string \<Rightarrow> string \<Rightarrow> string option \<Rightarrow> string option \<Rightarrow> u8 list \<Rightarrow> string list option" where
  "ws_answer version origin hst uri wsaccept ws_protocol md5sum = do {
     body \<leftarrow> (case version of
         WS_OLD \<Rightarrow> Some [WEBSOCKET_HARDCODED_HEADERS_OLD, ''WebSocket-Origin: '', origin, crlf @ ''WebSocket-Location: ws://'', hst, uri]
       | WS_76 \<Rightarrow> Some [WEBSOCKET_HARDCODED_HEADERS_NEW, ''Sec-WebSocket-Origin: '', origin, crlf @ ''Sec-WebSocket-Location: ws://'', hst, uri]
       | _ \<Rightarrow> map_option (\<lambda>acc. [WEBSOCKET_HARDCODED_HEADERS_IETF, ''Sec-WebSocket-Accept: '', acc] @
             (case ws_protocol of None \<Rightarrow> [] | Some p \<Rightarrow> [crlf @ ''Sec-WebSocket-Protocol: '', p])) wsaccept);
     Some (body @ [crlf @ crlf] @ (if version = WS_76 then [map char_of_byte md5sum] else [])) }"

section \<open>Requests\<close>

definition shutdown :: "nat \<Rightarrow> acetables \<Rightarrow> acetables" where
  "shutdown fd s = s\<lparr>g_sk := (g_sk s)\<lparr>shut := (shut (g_sk s))(fd := True)\<rparr>\<rparr>"

definition send_pieces :: "env \<Rightarrow> nat \<Rightarrow> string list \<Rightarrow> acetables \<Rightarrow> acetables option" where
  "send_pieces E fd ps s = map_option (\<lambda>(_, sk). s\<lparr>g_sk := sk\<rparr>) (send_seq (e_os E) fd ps (g_sk s))"

text \<open>What is left in the memory a websocket parser is made of: step, key, and position in the key.\<close>

type_synonym leftover = "ws_payload_step \<times> u8 list \<times> nat"

definition first_step :: "ws_version \<Rightarrow> leftover \<Rightarrow> websocket_state" where
  "first_step version mem =
     (case mem of (st, key, inkey) \<Rightarrow>
        parser_init_stream (case version of WS_IETF_06 \<Rightarrow> WS_STEP_KEY | WS_IETF_07 \<Rightarrow> WS_STEP_START | _ \<Rightarrow> st) key inkey)"

record reqenv =
  r_cmd :: cmdenv
  r_strtod :: "string \<Rightarrow> rat"
  r_notfound :: string
  r_mem :: leftover

abbreviation r_env :: "reqenv \<Rightarrow> env" where
  "r_env R \<equiv> x_env (r_cmd R)"

text \<open>The result is the subuser to attach and, after a handshake, the new parser of the connection.\<close>

definition checkrecv ::
  "reqenv \<Rightarrow> http_state \<Rightarrow> u8 list \<Rightarrow> string \<Rightarrow> nat \<Rightarrow> acetables \<Rightarrow> (nat option \<times> websocket_state option \<times> acetables) option" where
  "checkrecv R h m ip co s = do {
     k \<leftarrow> g_co s co;
     case hs_host h of
       None \<Rightarrow> Some (None, None, shutdown (s_fd k) s)
     | Some hst \<Rightarrow> do {
         u \<leftarrow> hs_uri h;
         uri \<leftarrow> c_str m u;
         if gettransport uri = TRANSPORT_WEBSOCKET then do {
           hs \<leftarrow> ws_handshake h m;
           case hs of
             None \<Rightarrow> Some (None, None, shutdown (s_fd k) s)
           | Some (version, origin, wsaccept, md5sum) \<Rightarrow> do {
               ps \<leftarrow> ws_answer version origin hst uri wsaccept (get_header_line (hs_hlines h) ''Sec-WebSocket-Protocol'') md5sum;
               s \<leftarrow> send_pieces (r_env R) (s_fd k) ps s;
               Some (None, Some (first_step version (r_mem R)), s\<lparr>g_co := (g_co s)(co \<mapsto> k\<lparr>s_ws := Some version\<rparr>)\<rparr>) } }
         else case hs_data h of
           None \<Rightarrow> do {
             s \<leftarrow> send_pieces (r_env R) (s_fd k) [take HEADER_DEFAULT_LEN HEADER_DEFAULT, r_notfound R] s;
             Some (None, None, s\<lparr>g_sk := safe_shutdown (s_fd k) (g_sk s)\<rparr>) }
         | Some d \<Rightarrow> do {
             get \<leftarrow> c_str m d;
             ojson \<leftarrow> init_json_parser (r_strtod R) get;
             (op, user, s) \<leftarrow> checkcmd (r_cmd R) ojson (hs_hlines h) co hst ip (gettransport uri) s;
             k \<leftarrow> g_co s co;
             Some (user, None, case op of CONNECT_SHUTDOWN \<Rightarrow> s\<lparr>g_sk := safe_shutdown (s_fd k) (g_sk s)\<rparr> | CONNECT_KEEPALIVE \<Rightarrow> s) } } }"

definition checkrecv_websocket ::
  "reqenv \<Rightarrow> http_state \<Rightarrow> string \<Rightarrow> string \<Rightarrow> nat \<Rightarrow> acetables \<Rightarrow> (nat option \<times> acetables) option" where
  "checkrecv_websocket R h msg ip co s = do {
     k \<leftarrow> g_co s co;
     version \<leftarrow> s_ws k;
     hst \<leftarrow> hs_host h;
     ojson \<leftarrow> init_json_parser (r_strtod R) msg;
     (op, user, s) \<leftarrow> checkcmd (r_cmd R) ojson (hs_hlines h) co hst ip
       (if version = WS_IETF_06 \<or> version = WS_IETF_07 then TRANSPORT_WEBSOCKET_IETF else TRANSPORT_WEBSOCKET) s;
     Some (user, s) }"

definition attach :: "nat \<Rightarrow> nat option \<Rightarrow> acetables \<Rightarrow> acetables option" where
  "attach co user s = do { k \<leftarrow> g_co s co; Some (s\<lparr>g_co := (g_co s)(co \<mapsto> k\<lparr>s_attach := user\<rparr>)\<rparr>) }"

definition parser_ready_http ::
  "reqenv \<Rightarrow> http_state \<Rightarrow> u8 list \<Rightarrow> string \<Rightarrow> nat \<Rightarrow> acetables \<Rightarrow> (websocket_state option \<times> acetables) option" where
  "parser_ready_http R h m ip co s = do {
     (user, parser, s) \<leftarrow> checkrecv R h m ip co s;
     s \<leftarrow> attach co user s;
     Some (parser, s) }"

text \<open>The subuser attached so far dies when another one takes its place, wherever it is by then.\<close>

definition parser_ready_websocket ::
  "reqenv \<Rightarrow> http_state \<Rightarrow> string \<Rightarrow> string \<Rightarrow> nat \<Rightarrow> acetables \<Rightarrow> acetables option" where
  "parser_ready_websocket R h msg ip co s = do {
     k \<leftarrow> g_co s co;
     let tmp = s_attach k;
     (user, s) \<leftarrow> checkrecv_websocket R h msg ip co s;
     s \<leftarrow> attach co user s;
     case tmp of
       None \<Rightarrow> Some s
     | Some b \<Rightarrow>
         if user = Some b then Some s
         else (case g_subs s b of
             Some _ \<Rightarrow> upd_sub b (\<lambda>x. x\<lparr>sub_state := ADIED\<rparr>) s
           | None \<Rightarrow> do { x \<leftarrow> g_detached s b; Some (s\<lparr>g_detached := (g_detached s)(b \<mapsto> x\<lparr>sub_state := ADIED\<rparr>)\<rparr>) }) }"

section \<open>Keys\<close>

text \<open>\<open>ckey\<close> is in memory in network order.\<close>

lemma byte_masks: "(0xFF :: u64) = mask 8" "(0xFF00 :: u64) = push_bit 8 (mask 8)"
  by (simp_all add: mask_eq_exp_minus_1 push_bit_eq_mult)

lemma htonl_bytes: "PUT_UINT32 (htonl n) = PUT_UINT32_BE n"
  unfolding PUT_UINT32_def PUT_UINT32_BE_def htonl_def list.inject byte_masks
  by (intro conjI refl; rule bit_word_eqI; auto simp: bit_simps)

lemma r76_scan_spec:
  "r76_scan (of_nat v) k cs = (of_nat (dec_value (filter is_digit cs) v), k + count_list cs (CHR '' ''))"
proof (induction cs arbitrary: v k)
  case (Cons c cs)
  have "\<not> is_digit (CHR '' '')" by (simp add: is_digit_def)
  moreover have "(of_nat v * 10 + of_nat (of_char c - 48) :: u64) = of_nat (10 * v + (of_char c - 48))" by simp
  ultimately show ?case using Cons.IH [of "10 * v + (of_char c - 48)"] Cons.IH [of v] by (auto simp del: of_nat_add of_nat_mult)
qed simp

lemma ws_compute_key_r76_spec:
  "ws_compute_key_r76 key =
     (if CHR '' '' \<in> set key then of_nat (dec_value (filter is_digit key) 0) div of_nat (count_list key (CHR '' '')) else 0)"
  using r76_scan_spec [of 0 0 key] by (simp add: ws_compute_key_r76_def count_list_0_iff)

lemma md5_answer_rfc:
  assumes "length body = 8"
  shows "md5_answer key1 key2 body =
     rfc_md5 (PUT_UINT32_BE (ws_compute_key_r76 key1) @ PUT_UINT32_BE (ws_compute_key_r76 key2) @ body)"
  using md5_pieces [of "[PUT_UINT32_BE (ws_compute_key_r76 key1), PUT_UINT32_BE (ws_compute_key_r76 key2), body]"] assms
  by (simp add: md5_answer_def htonl_bytes PUT_UINT32_BE_def)

lemma ws_compute_key_spec:
  "ws_compute_key key =
     (if 32 < length key then None else Some (base64_spec (fips_sha1 (map byte_of (key @ WS_IETF_GUID)))))"
proof -
  have "sha1_csum (map byte_of (key @ WS_IETF_GUID)) = fips_sha1 (map byte_of (key @ WS_IETF_GUID))" if "length key \<le> 32"
    by (rule sha1_csum_fips) (use that in \<open>simp add: WS_IETF_GUID_def\<close>)
  then show ?thesis by (simp add: ws_compute_key_def base64_encode_spec)
qed

section \<open>Answers\<close>

lemma send_pieces_spec:
  assumes "good_os (e_os E)" and "sock_inv (g_sk s)"
  obtains s' where "send_pieces E fd ps s = Some s'" "s'\<lparr>g_sk := g_sk s\<rparr> = s" "sock_inv (g_sk s')"
    "outp (g_sk s') fd = outp (g_sk s) fd @ (if fd = 0 then [] else concat ps)" "\<forall>fd'. fd' \<noteq> fd \<longrightarrow> outp (g_sk s') fd' = outp (g_sk s) fd'"
proof -
  obtain fin sk where "send_seq (e_os E) fd ps (g_sk s) = Some (fin, sk)" "sock_inv sk" "outp sk fd = outp (g_sk s) fd @ (if fd = 0 then [] else concat ps)"
    "\<forall>fd'. fd' \<noteq> fd \<longrightarrow> outp sk fd' = outp (g_sk s) fd'"
    using send_seq_good [OF assms] by blast
  then show thesis by (intro that [of "s\<lparr>g_sk := sk\<rparr>"]) (simp_all add: send_pieces_def)
qed

lemma ws_handshake_ietf:
  assumes "get_header_line (hs_hlines h) ''Origin'' = Some origin" and "get_header_line (hs_hlines h) ''Sec-WebSocket-Key1'' = None"
    and "get_header_line (hs_hlines h) ''Sec-WebSocket-Key'' = Some key" and "length key \<le> 32"
    and "get_header_line (hs_hlines h) ''Sec-WebSocket-Version'' = Some v"
  shows "ws_handshake h m = Some (Some (if atoi_int v = 6 then WS_IETF_06 else WS_IETF_07, origin,
     Some (base64_spec (fips_sha1 (map byte_of (key @ WS_IETF_GUID)))), []))"
  using assms by (simp add: ws_handshake_def ws_compute_key_spec Let_def)

text \<open>A connection that asks for the IETF protocol.\<close>

lemma handshake_ietf:
  assumes os: "good_os (e_os (r_env R))" "sock_inv (g_sk s)" and k: "g_co s co = Some k" "s_fd k \<noteq> 0"
    and req: "hs_host h = Some hst" "hs_uri h = Some u" "c_str m u = Some uri" "gettransport uri = TRANSPORT_WEBSOCKET"
    and hd: "get_header_line (hs_hlines h) ''Origin'' = Some origin" "get_header_line (hs_hlines h) ''Sec-WebSocket-Key1'' = None"
      "get_header_line (hs_hlines h) ''Sec-WebSocket-Key'' = Some key" "length key \<le> 32"
      "get_header_line (hs_hlines h) ''Sec-WebSocket-Version'' = Some v"
  defines "version \<equiv> if atoi_int v = 6 then WS_IETF_06 else WS_IETF_07"
    and "answer \<equiv> WEBSOCKET_HARDCODED_HEADERS_IETF @ ''Sec-WebSocket-Accept: '' @ base64_spec (fips_sha1 (map byte_of (key @ WS_IETF_GUID))) @
      (case get_header_line (hs_hlines h) ''Sec-WebSocket-Protocol'' of None \<Rightarrow> [] | Some p \<Rightarrow> crlf @ ''Sec-WebSocket-Protocol: '' @ p) @ crlf @ crlf"
  shows "\<exists>s'. parser_ready_http R h m ip co s = Some (Some (first_step version (r_mem R)), s') \<and>
     outp (g_sk s') (s_fd k) = outp (g_sk s) (s_fd k) @ answer \<and> (\<forall>fd. fd \<noteq> s_fd k \<longrightarrow> outp (g_sk s') fd = outp (g_sk s) fd) \<and>
     g_co s' = (g_co s)(co \<mapsto> k\<lparr>s_ws := Some version, s_attach := None\<rparr>) \<and> s'\<lparr>g_sk := g_sk s, g_co := g_co s\<rparr> = s"
proof -
  let ?acc = "base64_spec (fips_sha1 (map byte_of (key @ WS_IETF_GUID)))"
  let ?pr = "get_header_line (hs_hlines h) ''Sec-WebSocket-Protocol''"
  define ps where "ps = [WEBSOCKET_HARDCODED_HEADERS_IETF, ''Sec-WebSocket-Accept: '', ?acc] @
    (case ?pr of None \<Rightarrow> [] | Some p \<Rightarrow> [crlf @ ''Sec-WebSocket-Protocol: '', p]) @ [crlf @ crlf]"
  have ans: "ws_answer version origin hst uri (Some ?acc) ?pr [] = Some ps" by (simp add: ws_answer_def version_def ps_def)
  have cat: "concat ps = answer" by (simp add: ps_def answer_def split: option.split)
  obtain s1 where 1: "send_pieces (r_env R) (s_fd k) ps s = Some s1" "s1\<lparr>g_sk := g_sk s\<rparr> = s"
    "outp (g_sk s1) (s_fd k) = outp (g_sk s) (s_fd k) @ (if s_fd k = 0 then [] else concat ps)"
    "\<forall>fd'. fd' \<noteq> s_fd k \<longrightarrow> outp (g_sk s1) fd' = outp (g_sk s) fd'"
    by (rule send_pieces_spec [OF os]) (rule that; assumption)
  have c1: "g_co s1 = g_co s" using arg_cong [OF 1(2), of g_co] by simp
  define s' where "s' = s1\<lparr>g_co := (g_co s)(co \<mapsto> k\<lparr>s_ws := Some version, s_attach := None\<rparr>)\<rparr>"
  have "parser_ready_http R h m ip co s = Some (Some (first_step version (r_mem R)), s')"
    using k(1) req ans 1(1) c1 ws_handshake_ietf [OF hd, of m, folded version_def]
    by (simp add: parser_ready_http_def checkrecv_def attach_def s'_def)
  moreover have "s'\<lparr>g_sk := g_sk s, g_co := g_co s\<rparr> = s" using 1(2) c1 by (cases s1; cases s) (simp add: s'_def)
  ultimately show ?thesis using 1(3,4) k(2) cat by (intro exI [of _ s']) (simp add: s'_def)
qed

section \<open>Requests on a consistent state\<close>

text \<open>Changes of connections, output, detached subusers and clock only, which leave every connection in use
  open and its parser a websocket parser if it was one.\<close>

lemma serving_frame:
  assumes sv: "serving s"
    and e: "s'\<lparr>g_now := g_now s, g_detached := g_detached s, g_co := g_co s, g_sk := g_sk s\<rparr> = s"
    and now: "length (sprintf_li (g_now s')) < 16" and sk: "sock_inv (g_sk s')" and dm: "dom (g_co s) \<subseteq> dom (g_co s')"
    and lk: "\<And>b cl. conn s b = Some (ALIVE, Some cl) \<Longrightarrow> map_option s_fd (g_co s' cl) = map_option s_fd (g_co s cl) \<and>
      (Option.bind (g_co s cl) s_ws \<noteq> None \<longrightarrow> Option.bind (g_co s' cl) s_ws \<noteq> None)"
  shows "serving s'"
proof -
  have f: "g_users s' = g_users s" "g_subs s' = g_subs s" "g_chans s' = g_chans s" "g_pipes s' = g_pipes s" "g_raws s' = g_raws s"
    "g_uHead s' = g_uHead s" "g_hSessid s' = g_hSessid s" "g_hPubid s' = g_hPubid s" "g_hLusers s' = g_hLusers s" "g_next s' = g_next s"
    using arg_cong [OF e, of g_users] arg_cong [OF e, of g_subs] arg_cong [OF e, of g_chans] arg_cong [OF e, of g_pipes] arg_cong [OF e, of g_raws]
      arg_cong [OF e, of g_uHead] arg_cong [OF e, of g_hSessid] arg_cong [OF e, of g_hPubid] arg_cong [OF e, of g_hLusers] arg_cong [OF e, of g_next]
    by simp_all
  note D = baseD [OF servingD(2) [OF sv]]
  have e': "owner s' = owner s" "subs_of s' = subs_of s" "host s' = host s" "target s' = target s" "conn s' = conn s"
    "transport_of s' = transport_of s" "foot s' = foot s" "members s' = members s"
    by (simp_all add: f owner_def subs_of_def host_def conn_def target_def transport_of_def foot_def members_def fun_eq_iff)
  have "base s'"
  proof (rule baseI; (unfold e')?)
    note M = msg_invD [OF D(1)]
    show "msg_inv s'" by (rule msg_invI) (use M now in \<open>simp_all add: f occ_cong [of s' s]\<close>)
    show "cl \<in> Some ` dom (g_co s')" if "conn s b = Some (ALIVE, cl)" for b cl using D(18) [OF that] dm by blast
  qed (use D in \<open>simp_all add: f\<close>)
  then have w: "world s'" using worldD(2) [OF servingD(1) [OF sv]] e' by (simp add: world_def linked_def)
  have "link_ok s' tr (st, cl)" if c: "conn s b = Some (st, cl)" and l: "link_ok s tr (st, cl)" for b tr st cl
  proof -
    obtain c where c': "cl = Some c" "c \<in> dom (g_co s)" "st = ALIVE \<longrightarrow> open_at s c \<and> fits s tr c" using l by (auto simp: link_ok_def)
    have "open_at s' c \<and> fits s' tr c" if "st = ALIVE"
      using lk [of b c] c c' dm that by (auto simp: open_at_def fits_def)
    then show ?thesis using c' dm by (auto simp: link_ok_def)
  qed
  then show ?thesis using w sk servingD(4) [OF sv] by (auto simp: serving_def e')
qed

lemma serving_now: "serving s \<Longrightarrow> length (sprintf_li (g_now s)) < 16"
  using msg_invD(8) [OF baseD(1) [OF servingD(2)]] by blast

text \<open>The usual case: slots keep their descriptors, and only the parser of one may become a websocket parser.\<close>

definition co_le :: "nat \<Rightarrow> acetables \<Rightarrow> acetables \<Rightarrow> bool" where
  "co_le co s s' \<longleftrightarrow> (\<forall>c. map_option s_fd (g_co s' c) = map_option s_fd (g_co s c) \<and>
     (c \<noteq> co \<or> Option.bind (g_co s c) s_ws \<noteq> None \<longrightarrow> Option.bind (g_co s' c) s_ws = Option.bind (g_co s c) s_ws))"

lemma co_le_refl [simp]: "g_co s' = g_co s \<Longrightarrow> co_le co s s'"
  by (simp add: co_le_def)

lemma co_le_trans: "co_le co s s' \<Longrightarrow> co_le co s' s'' \<Longrightarrow> co_le co s s''"
  by (auto simp: co_le_def)

lemma slots_le: "slots s s' \<Longrightarrow> co_le co s s'"
  unfolding slots_def co_le_def
proof (intro allI)
  fix c assume "\<forall>c. map_option co_core (g_co s' c) = map_option co_core (g_co s c)"
  then have "map_option co_core (g_co s' c) = map_option co_core (g_co s c)" by blast
  then show "map_option s_fd (g_co s' c) = map_option s_fd (g_co s c) \<and>
     (c \<noteq> co \<or> Option.bind (g_co s c) s_ws \<noteq> None \<longrightarrow> Option.bind (g_co s' c) s_ws = Option.bind (g_co s c) s_ws)"
    by (cases "g_co s' c"; cases "g_co s c") (simp_all add: co_core_def)
qed

lemma co_le_open: "co_le co s s' \<Longrightarrow> open_at s' c = open_at s c"
  by (simp add: co_le_def open_at_def)

lemma co_le_dom: "co_le co s s' \<Longrightarrow> dom (g_co s') = dom (g_co s)"
  by (auto simp: co_le_def dom_def) (metis map_option_is_None option.exhaust_sel)+

lemma serving_le:
  assumes "serving s" and "s'\<lparr>g_now := g_now s, g_detached := g_detached s, g_co := g_co s, g_sk := g_sk s\<rparr> = s"
    and "g_now s' = g_now s" and "sock_inv (g_sk s')" and "co_le co s s'"
  shows "serving s'"
  using assms co_le_dom [OF assms(5)] serving_now [OF assms(1)]
  by (intro serving_frame [of s s']) (auto simp: co_le_def)

text \<open>Only connections, output and detached subusers differ.\<close>

definition outside :: "nat \<Rightarrow> acetables \<Rightarrow> acetables \<Rightarrow> bool" where
  "outside co s s' \<longleftrightarrow> s'\<lparr>g_now := g_now s, g_detached := g_detached s, g_co := g_co s, g_sk := g_sk s\<rparr> = s \<and> g_now s' = g_now s \<and>
     (sock_inv (g_sk s) \<longrightarrow> sock_inv (g_sk s')) \<and> co_le co s s'"

lemma outside_serving: "serving s \<Longrightarrow> outside co s s' \<Longrightarrow> serving s'"
  using servingD(3) by (intro serving_le [of s s' co]) (simp_all add: outside_def)

lemma outside_shutdown: "outside co s (shutdown fd s)" "outside co s (s\<lparr>g_sk := safe_shutdown fd (g_sk s)\<rparr>)"
  by (simp_all add: outside_def shutdown_def sock_inv_def)

lemma attach_outside:
  assumes "g_co s co = Some k"
  obtains s' where "attach co user s = Some s'" "outside co s s'" "Option.bind (g_co s' co) s_ws = s_ws k"
  by (rule that [of "s\<lparr>g_co := (g_co s)(co \<mapsto> k\<lparr>s_attach := user\<rparr>)\<rparr>"])
    (use assms in \<open>simp_all add: attach_def outside_def co_le_def\<close>)

lemma send_outside:
  assumes "good_os (e_os E)" and "sock_inv (g_sk s)"
  obtains s' where "send_pieces E fd ps s = Some s'" "outside co s s'" "g_co s' = g_co s"
proof (rule send_pieces_spec [OF assms])
  fix s' assume a: "send_pieces E fd ps s = Some s'" "s'\<lparr>g_sk := g_sk s\<rparr> = s" "sock_inv (g_sk s')"
  have c: "g_co s' = g_co s" "g_now s' = g_now s" "g_detached s' = g_detached s"
    using arg_cong [OF a(2), of g_co] arg_cong [OF a(2), of g_now] arg_cong [OF a(2), of g_detached] by simp_all
  have "s'\<lparr>g_now := g_now s', g_detached := g_detached s', g_co := g_co s', g_sk := g_sk s\<rparr> = s" using a(2) by simp
  then show thesis by (intro that [OF a(1) _ c(1)]) (use a(3) c in \<open>simp add: outside_def\<close>)
qed

lemma handshake_accept: "ws_handshake h m = Some (Some (v, org, acc, md)) \<Longrightarrow> v = WS_OLD \<or> v = WS_76 \<or> acc \<noteq> None"
  by (auto simp: ws_handshake_def Let_def bind_eq_Some_conv split: option.splits if_splits) metis+

lemma ws_answer_given: "ws_handshake h m = Some (Some (v, org, acc, md)) \<Longrightarrow> ws_answer v org hst uri acc pr md \<noteq> None"
  using handshake_accept [of h m v org acc md] by (cases v) (auto simp: ws_answer_def)

text \<open>What a request must satisfy besides: the host name fits, its commands find what they need, and
  behind the headers of an old handshake there are the eight bytes it is about.\<close>

abbreviation request_pc :: "(string \<times> string) list \<Rightarrow> nat \<Rightarrow> string \<Rightarrow> string \<Rightarrow> transport_t \<Rightarrow> cmd_process" where
  "request_pc hl co hst ip tr \<equiv> \<lparr>pc_hlines = hl, pc_guser = None, pc_sub = None, pc_client = co, pc_host = hst, pc_ip = ip, pc_transport = tr\<rparr>"

definition text_ok :: "reqenv \<Rightarrow> http_state \<Rightarrow> string \<Rightarrow> string \<Rightarrow> string \<Rightarrow> nat \<Rightarrow> transport_t \<Rightarrow> acetables \<Rightarrow> bool" where
  "text_ok R h hst get ip co tr s \<longleftrightarrow> length hst \<le> MAX_HOST_LENGTH \<and>
     (case init_json_parser (r_strtod R) get of
        None \<Rightarrow> True
      | Some ojson \<Rightarrow> supplied (r_cmd R) (concat (map jchild (take 1 ojson))) (request_pc (hs_hlines h) co hst ip tr) s)"

definition request_ok :: "reqenv \<Rightarrow> http_state \<Rightarrow> u8 list \<Rightarrow> string \<Rightarrow> nat \<Rightarrow> acetables \<Rightarrow> bool" where
  "request_ok R h m ip co s \<longleftrightarrow>
     (case (hs_host h, Option.bind (hs_uri h) (c_str m)) of
        (Some hst, Some uri) \<Rightarrow>
          if gettransport uri = TRANSPORT_WEBSOCKET then ws_handshake h m \<noteq> None
          else (case Option.bind (hs_data h) (c_str m) of None \<Rightarrow> True | Some get \<Rightarrow> text_ok R h hst get ip co (gettransport uri) s)
      | _ \<Rightarrow> True)"

lemma checkcmd_text:
  assumes "calm (r_cmd R)" "serving s" "open_at s co" "fits s (Some tr) co" "text_ok R h hst get ip co tr s"
  obtains ojson op user s' where "init_json_parser (r_strtod R) get = Some ojson"
    "checkcmd (r_cmd R) ojson (hs_hlines h) co hst ip tr s = Some (op, user, s')" "serving s'" "slots s s'"
proof -
  obtain ojson where "init_json_parser (r_strtod R) get = Some ojson" using init_json_parser_tree by blast
  then show thesis using that assms checkcmd_ok [OF assms(1-4), of hst ojson "hs_hlines h" ip] unfolding text_ok_def by auto
qed

lemma transport_plain: "gettransport uri \<noteq> TRANSPORT_WEBSOCKET_IETF"
proof -
  have "transport_number n \<noteq> TRANSPORT_WEBSOCKET_IETF" if "n \<le> 6" for n
    using that by (auto simp: transport_number_def numeral_eq_Suc nth_Cons less_Suc_eq_le le_Suc_eq split: nat.split)
  then show ?thesis by (auto simp: gettransport_def split: list.split)
qed

lemma parser_ready_http_ok:
  assumes X: "calm (r_cmd R)" and sv: "serving s" and op: "open_at s co" and plain: "Option.bind (g_co s co) s_ws = None"
    and ptrs: "request_ptrs h m" and ok: "request_ok R h m ip co s"
  obtains w s' where "parser_ready_http R h m ip co s = Some (w, s')" "serving s'" "co_le co s s'"
    "w = map_option (\<lambda>v. first_step v (r_mem R)) (Option.bind (g_co s' co) s_ws)" "w \<noteq> None \<Longrightarrow> hs_host h \<noteq> None"
proof -
  note give = that
  note os = calmD(1) [OF X] servingD(3) [OF sv]
  obtain k where k: "g_co s co = Some k" "s_fd k = co" "s_ws k = None" using op plain by (auto simp: open_at_def)
  have fin: thesis if r: "checkrecv R h m ip co s = Some (user, w, s1)" and s1: "serving s1" "co_le co s s1"
    and w: "w = map_option (\<lambda>v. first_step v (r_mem R)) (Option.bind (g_co s1 co) s_ws)" "w \<noteq> None \<Longrightarrow> hs_host h \<noteq> None" for user w s1
  proof -
    obtain k1 where k1: "g_co s1 co = Some k1" using co_le_open [OF s1(2)] op by (auto simp: open_at_def)
    obtain s' where s': "attach co user s1 = Some s'" "outside co s1 s'" "Option.bind (g_co s' co) s_ws = s_ws k1" by (rule attach_outside [OF k1])
    show thesis
      by (rule give [of w s'])
        (use r s' w k1 co_le_trans [OF s1(2)] outside_serving [OF s1(1) s'(2)] in \<open>auto simp: parser_ready_http_def outside_def\<close>)
  qed
  have down: "serving (shutdown (s_fd k) s)" "co_le co s (shutdown (s_fd k) s)" "g_co (shutdown (s_fd k) s) = g_co s"
    using outside_serving [OF sv outside_shutdown(1)] by (simp_all add: shutdown_def)
  show thesis
  proof (cases "hs_host h")
    case None
    then show thesis using k down by (intro fin [of None None "shutdown (s_fd k) s"]) (simp_all add: checkrecv_def)
  next
    case (Some hst)
    obtain u where u: "hs_uri h = Some u" "0 \<in> set (drop u m)" using ptrs by (auto simp: request_ptrs_def)
    obtain uri where uri: "c_str m u = Some uri" by (rule c_str_nul [OF u(2)])
    note req = Some u(1) uri
    show thesis
    proof (cases "gettransport uri = TRANSPORT_WEBSOCKET")
      case True
      obtain hs where hs: "ws_handshake h m = Some hs" using ok True req by (auto simp: request_ok_def)
      show thesis
      proof (cases hs)
        case None
        then show thesis using k down req True hs by (intro fin [of None None "shutdown (s_fd k) s"]) (simp_all add: checkrecv_def)
      next
        case (Some a)
        obtain v org acc md where a: "a = (v, org, acc, md)" by (cases a)
        obtain ps where ps: "ws_answer v org hst uri acc (get_header_line (hs_hlines h) ''Sec-WebSocket-Protocol'') md = Some ps"
          using ws_answer_given [of h m v org acc md] hs Some a by blast
        obtain s1 where 1: "send_pieces (r_env R) (s_fd k) ps s = Some s1" "outside co s s1" "g_co s1 = g_co s" by (rule send_outside [OF os])
        let ?s = "s1\<lparr>g_co := (g_co s1)(co \<mapsto> k\<lparr>s_ws := Some v\<rparr>)\<rparr>"
        have o: "outside co s1 ?s" using k 1(3) by (simp add: outside_def co_le_def)
        have "serving ?s" by (rule outside_serving [OF outside_serving [OF sv 1(2)] o])
        moreover have "co_le co s ?s" by (rule co_le_trans [of co s s1]) (use 1(2) o in \<open>simp_all add: outside_def\<close>)
        ultimately show thesis using k req True hs Some a ps 1(1)
          by (intro fin [of None "Some (first_step v (r_mem R))" ?s]) (simp_all add: checkrecv_def)
      qed
    next
      case False
      show thesis
      proof (cases "hs_data h")
        case None
        obtain s1 where 1: "send_pieces (r_env R) (s_fd k) [take HEADER_DEFAULT_LEN HEADER_DEFAULT, r_notfound R] s = Some s1" "outside co s s1" "g_co s1 = g_co s"
          by (rule send_outside [OF os])
        let ?s = "s1\<lparr>g_sk := safe_shutdown (s_fd k) (g_sk s1)\<rparr>"
        have "serving ?s" by (rule outside_serving [OF outside_serving [OF sv 1(2)] outside_shutdown(2)])
        then show thesis using k req False None 1(1,3) by (intro fin [of None None ?s]) (simp_all add: checkrecv_def)
      next
        case (Some d)
        then have "0 \<in> set (drop d m)" using ptrs by (simp add: request_ptrs_def)
        then obtain get where g: "c_str m d = Some get" by (rule c_str_nul)
        have t: "text_ok R h hst get ip co (gettransport uri) s" using ok False req Some g by (simp add: request_ok_def)
        have f: "fits s (Some (gettransport uri)) co" using k transport_plain by (auto simp: fits_def)
        obtain ojson cop user s1 where 1: "init_json_parser (r_strtod R) get = Some ojson"
          "checkcmd (r_cmd R) ojson (hs_hlines h) co hst ip (gettransport uri) s = Some (cop, user, s1)" "serving s1" "slots s s1"
          by (rule checkcmd_text [OF X sv op f t])
        have sl: "map_option co_core (g_co s1 co) = map_option co_core (g_co s co)" using 1(4) unfolding slots_def by blast
        then obtain k1 where k1: "g_co s1 co = Some k1" "s_ws k1 = None" using k by (auto simp: co_core_def)
        let ?s = "case cop of CONNECT_SHUTDOWN \<Rightarrow> s1\<lparr>g_sk := safe_shutdown (s_fd k1) (g_sk s1)\<rparr> | CONNECT_KEEPALIVE \<Rightarrow> s1"
        have "serving ?s" using 1(3) outside_serving [OF 1(3) outside_shutdown(2)] by (cases cop) simp_all
        moreover have c: "g_co ?s = g_co s1" by (cases cop) simp_all
        moreover have "co_le co s ?s" using slots_le [OF 1(4)] c by (simp add: co_le_def)
        ultimately show thesis using k req False Some g 1(1,2) k1 by (intro fin [of user None ?s]) (simp_all add: checkrecv_def)
      qed
    qed
  qed
qed

text \<open>A message on a websocket. The subuser attached so far must still be there when it is marked dead.\<close>

definition ws_transport :: "ws_version \<Rightarrow> transport_t" where
  "ws_transport v = (if v = WS_IETF_06 \<or> v = WS_IETF_07 then TRANSPORT_WEBSOCKET_IETF else TRANSPORT_WEBSOCKET)"

definition ws_request_ok :: "reqenv \<Rightarrow> http_state \<Rightarrow> string \<Rightarrow> string \<Rightarrow> nat \<Rightarrow> acetables \<Rightarrow> bool" where
  "ws_request_ok R h msg ip co s \<longleftrightarrow>
     (case (hs_host h, g_co s co) of
        (Some hst, Some k) \<Rightarrow>
          (\<forall>v. s_ws k = Some v \<longrightarrow> text_ok R h hst msg ip co (ws_transport v) s) \<and>
          (case (s_attach k, checkrecv_websocket R h msg ip co s) of
             (Some b, Some (user, s1)) \<Rightarrow> user = Some b \<or> b \<in> dom (g_subs s1) \<or> b \<in> dom (g_detached s1)
           | _ \<Rightarrow> True)
      | _ \<Rightarrow> True)"

lemma mark_dead:
  assumes sv: "serving s" and B: "g_subs s b = Some B"
  obtains s' where "upd_sub b (\<lambda>x. x\<lparr>sub_state := ADIED\<rparr>) s = Some s'" "serving s'" "co_le co s s'"
proof -
  obtain u where u: "owner s b = Some u" using baseD(19) [OF servingD(2) [OF sv], of b] B by auto
  let ?B = "B\<lparr>sub_state := ADIED\<rparr>"
  have l: "link_ok s (transport_of s u) (sub_state ?B, sub_client ?B)" using servingD(4) [OF sv u conn_of [OF B]] by (auto simp: link_ok_def)
  have sl: "same_link B ?B" by (simp add: same_link_def)
  note S = sub_upd_serving [OF sv B u sl l refl]
  show thesis by (rule that [OF _ S(1)]) (use B in \<open>simp_all add: upd_sub_def\<close>)
qed

lemma parser_ready_websocket_ok:
  assumes X: "calm (r_cmd R)" and sv: "serving s" and op: "open_at s co" and ver: "Option.bind (g_co s co) s_ws = Some v"
    and hst: "hs_host h = Some hst" and ok: "ws_request_ok R h msg ip co s"
  obtains s' where "parser_ready_websocket R h msg ip co s = Some s'" "serving s'" "co_le co s s'"
proof -
  obtain k where k: "g_co s co = Some k" "s_ws k = Some v" using ver by (cases "g_co s co") auto
  have t: "text_ok R h hst msg ip co (ws_transport v) s" using ok hst k by (auto simp: ws_request_ok_def)
  have f: "fits s (Some (ws_transport v)) co" using k by (auto simp: fits_def)
  obtain ojson cop user s1 where 1: "init_json_parser (r_strtod R) msg = Some ojson"
    "checkcmd (r_cmd R) ojson (hs_hlines h) co hst ip (ws_transport v) s = Some (cop, user, s1)" "serving s1" "slots s s1"
    by (rule checkcmd_text [OF X sv op f t])
  have r: "checkrecv_websocket R h msg ip co s = Some (user, s1)" using k hst 1(1,2) by (simp add: checkrecv_websocket_def ws_transport_def)
  obtain k1 where k1: "g_co s1 co = Some k1" using co_le_open [OF slots_le [OF 1(4)]] op by (auto simp: open_at_def)
  obtain s2 where 2: "attach co user s1 = Some s2" "outside co s1 s2" by (rule attach_outside [OF k1])
  have sv2: "serving s2" by (rule outside_serving [OF 1(3) 2(2)])
  have c2: "co_le co s s2" by (rule co_le_trans [OF slots_le [OF 1(4)]]) (use 2(2) in \<open>simp add: outside_def\<close>)
  have e2: "g_subs s2 = g_subs s1" "g_detached s2 = g_detached s1"
    using 2(1) k1 by (auto simp: attach_def)
  have pr: "parser_ready_websocket R h msg ip co s =
    (case s_attach k of None \<Rightarrow> Some s2 | Some b \<Rightarrow> if user = Some b then Some s2
      else (case g_subs s2 b of Some _ \<Rightarrow> upd_sub b (\<lambda>x. x\<lparr>sub_state := ADIED\<rparr>) s2
        | None \<Rightarrow> do { x \<leftarrow> g_detached s2 b; Some (s2\<lparr>g_detached := (g_detached s2)(b \<mapsto> x\<lparr>sub_state := ADIED\<rparr>)\<rparr>) }))"
    using k r 2(1) by (simp add: parser_ready_websocket_def)
  show thesis
  proof (cases "s_attach k = None \<or> user = s_attach k")
    case True
    then show thesis using pr sv2 c2 by (intro that [of s2]) (auto split: option.splits)
  next
    case False
    then obtain b where b: "s_attach k = Some b" "user \<noteq> Some b" by auto
    then have in1: "b \<in> dom (g_subs s1) \<or> b \<in> dom (g_detached s1)" using ok hst k r by (auto simp: ws_request_ok_def)
    show thesis
    proof (cases "g_subs s2 b")
      case (Some B)
      obtain s' where s': "upd_sub b (\<lambda>x. x\<lparr>sub_state := ADIED\<rparr>) s2 = Some s'" "serving s'" "co_le co s2 s'" by (rule mark_dead [OF sv2 Some])
      show thesis by (rule that [OF _ s'(2) co_le_trans [OF c2 s'(3)]]) (use pr b Some s'(1) in simp)
    next
      case None
      then obtain x where x: "g_detached s2 b = Some x" using in1 e2 by auto
      let ?s = "s2\<lparr>g_detached := (g_detached s2)(b \<mapsto> x\<lparr>sub_state := ADIED\<rparr>)\<rparr>"
      have o: "outside co s2 ?s" by (simp add: outside_def)
      show thesis
        by (rule that [of ?s]) (use pr b None x outside_serving [OF sv2 o] co_le_trans [OF c2, of ?s] in simp_all)
    qed
  qed
qed

section \<open>Correctness\<close>

text \<open>C10. The value of \<open>Sec-WebSocket-Accept\<close>: a key of at most 32 characters is answered with the standard
  base64 text of the SHA-1 digest, as FIPS 180-1 defines it, of the key and the GUID of the protocol; a longer one is refused.\<close>

theorem ws_compute_key_standard:
  "ws_compute_key key =
     (if 32 < length key then None else Some (base64_spec (fips_sha1 (map byte_of (key @ WS_IETF_GUID)))))"
  by (rule ws_compute_key_spec)

text \<open>C9. A request for the IETF protocol switches its connection: exactly the 101 answer with the accept value goes to this
  connection and nothing to others, the connection gets a parser for the version asked for, at its first step and
  with no subuser, and nothing else of the server's state changes.\<close>

theorem handshake_answered:
  assumes "good_os (e_os (r_env R))" and "sock_inv (g_sk s)" and "g_co s co = Some k" and "s_fd k \<noteq> 0"
    and "hs_host h = Some hst" and "hs_uri h = Some u" and "c_str m u = Some uri" and "gettransport uri = TRANSPORT_WEBSOCKET"
    and "get_header_line (hs_hlines h) ''Origin'' = Some origin" and "get_header_line (hs_hlines h) ''Sec-WebSocket-Key1'' = None"
    and "get_header_line (hs_hlines h) ''Sec-WebSocket-Key'' = Some key" and "length key \<le> 32"
    and "get_header_line (hs_hlines h) ''Sec-WebSocket-Version'' = Some v"
  shows "\<exists>s'. parser_ready_http R h m ip co s = Some (Some (first_step (if atoi_int v = 6 then WS_IETF_06 else WS_IETF_07) (r_mem R)), s') \<and>
     outp (g_sk s') (s_fd k) = outp (g_sk s) (s_fd k) @
       WEBSOCKET_HARDCODED_HEADERS_IETF @ ''Sec-WebSocket-Accept: '' @ base64_spec (fips_sha1 (map byte_of (key @ WS_IETF_GUID))) @
       (case get_header_line (hs_hlines h) ''Sec-WebSocket-Protocol'' of None \<Rightarrow> [] | Some p \<Rightarrow> crlf @ ''Sec-WebSocket-Protocol: '' @ p) @ crlf @ crlf \<and>
     (\<forall>fd. fd \<noteq> s_fd k \<longrightarrow> outp (g_sk s') fd = outp (g_sk s) fd) \<and>
     g_co s' = (g_co s)(co \<mapsto> k\<lparr>s_ws := Some (if atoi_int v = 6 then WS_IETF_06 else WS_IETF_07), s_attach := None\<rparr>) \<and>
     s'\<lparr>g_sk := g_sk s, g_co := g_co s\<rparr> = s"
  using assms by (rule handshake_ietf)

definition sample_reqenv :: reqenv where
  "sample_reqenv = \<lparr>r_cmd = sample_cmdenv, r_strtod = (\<lambda>_. 0), r_notfound = ''none'', r_mem = (WS_STEP_END, [1, 2, 3, 4], 0)\<rparr>"

definition sample_upgrade :: http_state where
  "sample_upgrade = parser_init_http\<lparr>hs_uri := Some 0, hs_host := Some ''h'',
     hs_hlines := [(''Host'', ''h''), (''Origin'', ''o''), (''Sec-WebSocket-Key'', ''dGhlIHNhbXBsZSBub25jZQ==''), (''Sec-WebSocket-Version'', ''8'')]\<rparr>"

theorem handshake_answered_witness:
  "\<exists>s'. parser_ready_http sample_reqenv sample_upgrade (map byte_of ''/6/'' @ [0]) ''10.0.0.1'' 10 sample_world =
       Some (Some (first_step WS_IETF_07 (r_mem sample_reqenv)), s') \<and>
     outp (g_sk s') 10 = WEBSOCKET_HARDCODED_HEADERS_IETF @ ''Sec-WebSocket-Accept: '' @
       base64_spec (fips_sha1 (map byte_of (''dGhlIHNhbXBsZSBub25jZQ=='' @ WS_IETF_GUID))) @ crlf @ crlf"
proof -
  let ?R = sample_reqenv and ?h = sample_upgrade and ?m = "map byte_of ''/6/'' @ [0 :: u8]"
  have hd: "get_header_line (hs_hlines ?h) ''Origin'' = Some ''o''" "get_header_line (hs_hlines ?h) ''Sec-WebSocket-Key1'' = None"
    "get_header_line (hs_hlines ?h) ''Sec-WebSocket-Key'' = Some ''dGhlIHNhbXBsZSBub25jZQ==''" "length ''dGhlIHNhbXBsZSBub25jZQ=='' \<le> 32"
    "get_header_line (hs_hlines ?h) ''Sec-WebSocket-Version'' = Some ''8''" "get_header_line (hs_hlines ?h) ''Sec-WebSocket-Protocol'' = None"
    by code_simp+
  have v: "atoi_int ''8'' = 8" by code_simp
  have os: "good_os (e_os (r_env ?R))" using calmD(1) [OF sample_calm] by (simp add: sample_reqenv_def)
  have uri: "c_str ?m 0 = Some ''/6/''" using c_str_bytes [of "''/6/''" "[]" 0 "[]"] by simp
  have tr: "gettransport ''/6/'' = TRANSPORT_WEBSOCKET" by code_simp
  have k: "g_co sample_world 10 = Some \<lparr>s_fd = 10, s_ws = None, s_attach = Some 6\<rparr>" "s_fd \<lparr>s_fd = 10, s_ws = None, s_attach = Some 6\<rparr> \<noteq> 0"
    "outp (g_sk sample_world) 10 = []"
    by (simp_all add: sample_world_def ape_init_def outp_def pending_def sock_init_def)
  have req: "hs_host ?h = Some ''h''" "hs_uri ?h = Some 0" by (simp_all add: sample_upgrade_def)
  show ?thesis
    using handshake_answered [OF os servingD(3) [OF sample_serving] k(1,2) req uri tr hd(1-5), of "''10.0.0.1''"] k(3) hd(6) v by auto
qed

end
