(* ===== verification/Ape_Server.thy ===== *)
theory Ape_Server
  imports Ape_Handshake
begin

text \<open>
  The server as a state machine, from \<open>sockroutine\<close> and \<open>close_socket\<close> of \<open>src/sock.c\<close> and the callbacks of
  \<open>src/servers.c\<close>: connections are accepted, bytes arrive, descriptors become writable, peers hang up, the timer
  calls \<open>check_timeout\<close>, time passes. A step is one event that \<open>sockroutine\<close> dispatches; the order of
  events is the multiplexer's and arbitrary. A descriptor of a client carries its parser and its input buffer.
\<close>

section \<open>State\<close>

datatype ape_parser = Parser_http http_state | Parser_stream http_state websocket_state

record link =
  l_parser :: ape_parser
  l_buffer :: ape_buffer
  l_ip :: string

record server =
  sv_tab :: acetables
  sv_link :: "nat \<rightharpoonup> link"

definition server_init :: "int \<Rightarrow> string \<Rightarrow> server" where
  "server_init now eval_func = \<lparr>sv_tab = ape_init now eval_func, sv_link = Map.empty\<rparr>"

section \<open>Events\<close>

text \<open>\<open>accept\<close> returned a descriptor: its slot is cleared and set up, \<open>ape_onaccept\<close> gives it a parser. \<open>mem\<close> is what
  \<open>malloc\<close> left in the input buffer. What was written to an earlier connection with this number is forgotten.\<close>

definition on_accept :: "nat \<Rightarrow> string \<Rightarrow> u8 list \<Rightarrow> server \<Rightarrow> server" where
  "on_accept fd ip mem S =
     (let s = sv_tab S; sk = g_sk s in
      S\<lparr>sv_tab := s\<lparr>g_co := (g_co s)(fd \<mapsto> \<lparr>s_fd = fd, s_ws = None, s_attach = None\<rparr>),
           g_sk := sk\<lparr>bufout := (bufout sk)(fd := None), burn_aw := (burn_aw sk)(fd := 0), shut := (shut sk)(fd := False),
             wire := (wire sk)(fd := [])\<rparr>\<rparr>,
         sv_link := (sv_link S)(fd \<mapsto> \<lparr>l_parser = Parser_http parser_init_http, l_buffer = fresh_buffer mem, l_ip = ip\<rparr>)\<rparr>)"

text \<open>What the readers ask for. A handshake gives the connection another parser.\<close>

fun run_http ::
  "reqenv \<Rightarrow> string \<Rightarrow> nat \<Rightarrow> http_act list \<Rightarrow> acetables \<Rightarrow> ((http_state \<times> websocket_state) option \<times> acetables) option" where
  "run_http R ip fd [] s = Some (None, s)"
| "run_http R ip fd (Http_shutdown # acts) s = run_http R ip fd acts (shutdown fd s)"
| "run_http R ip fd (Http_onready h m # acts) s = do {
     (w, s) \<leftarrow> parser_ready_http R h m ip fd s;
     (later, s) \<leftarrow> run_http R ip fd acts s;
     Some (case later of None \<Rightarrow> map_option (Pair h) w | Some x \<Rightarrow> Some x, s) }"

fun run_ws :: "reqenv \<Rightarrow> string \<Rightarrow> nat \<Rightarrow> http_state \<Rightarrow> ws_act list \<Rightarrow> acetables \<Rightarrow> acetables option" where
  "run_ws R ip fd h [] s = Some s"
| "run_ws R ip fd h (Ws_shutdown # acts) s = run_ws R ip fd h acts (shutdown fd s)"
| "run_ws R ip fd h (Ws_sendbin bs burn # acts) s = do {
     (fin, sk) \<leftarrow> sendbin (e_os (r_env R)) fd (map char_of_byte bs) burn (g_sk s);
     run_ws R ip fd h acts (s\<lparr>g_sk := sk\<rparr>) }"
| "run_ws R ip fd h (Ws_onready msg # acts) s = do {
     s \<leftarrow> parser_ready_websocket R h (map char_of_byte msg) ip fd s;
     run_ws R ip fd h acts s }"

text \<open>\<open>read\<close> returned some bytes: \<open>ape_read\<close> calls the parser of the connection. After the handler of a
  request, the HTTP parser sets \<open>ready\<close> of the connection's parser, which may be the new one.\<close>

definition on_read :: "reqenv \<Rightarrow> nat \<Rightarrow> u8 list \<Rightarrow> server \<Rightarrow> server option" where
  "on_read R fd bs S = do {
     l \<leftarrow> sv_link S fd;
     let buf = read_in bs (l_buffer l);
     case l_parser l of
       Parser_http h \<Rightarrow> do {
         (h', buf', acts) \<leftarrow> process_http h buf;
         (up, s) \<leftarrow> run_http R (l_ip l) fd acts (sv_tab S);
         let p = (case up of None \<Rightarrow> Parser_http h' | Some (hr, w) \<Rightarrow> Parser_stream hr (w\<lparr>ws_ready := -1\<rparr>));
         Some (S\<lparr>sv_tab := s, sv_link := (sv_link S)(fd \<mapsto> l\<lparr>l_parser := p, l_buffer := buf'\<rparr>)\<rparr>) }
     | Parser_stream h w \<Rightarrow> do {
         k \<leftarrow> g_co (sv_tab S) fd;
         version \<leftarrow> s_ws k;
         (w', buf', acts) \<leftarrow> process_websocket version w buf;
         s \<leftarrow> run_ws R (l_ip l) fd h acts (sv_tab S);
         Some (S\<lparr>sv_tab := s, sv_link := (sv_link S)(fd \<mapsto> l\<lparr>l_parser := Parser_stream h w', l_buffer := buf'\<rparr>)\<rparr>) } }"

text \<open>The descriptor is writable.\<close>

definition on_write :: "reqenv \<Rightarrow> nat \<Rightarrow> server \<Rightarrow> server option" where
  "on_write R fd S =
     (if bufout (g_sk (sv_tab S)) fd = None then Some S
      else do {
        (fin, sk) \<leftarrow> sendqueue (e_os (r_env R)) fd (g_sk (sv_tab S));
        let s = (sv_tab S)\<lparr>g_sk := sk\<rparr>;
        s \<leftarrow> (if fin then do {
                 s \<leftarrow> ape_sent fd s;
                 Some (if burn_aw (g_sk s) fd \<noteq> 0 then shutdown fd s else s) }
              else Some s);
        Some (S\<lparr>sv_tab := s\<rparr>) })"

definition close_socket :: "nat \<Rightarrow> server \<Rightarrow> server option" where
  "close_socket fd S = do {
     let s = sv_tab S;
     k \<leftarrow> g_co s fd;
     Some (S\<lparr>sv_tab := s\<lparr>g_sk := (g_sk s)\<lparr>bufout := (bufout (g_sk s))(fd := None)\<rparr>,
          g_co := (g_co s)(fd \<mapsto> \<lparr>s_fd = 0, s_ws = None, s_attach = None\<rparr>)\<rparr>,
        sv_link := (sv_link S)(fd := None)\<rparr>) }"

text \<open>\<open>read\<close> said that the peer has gone.\<close>

definition on_hangup :: "reqenv \<Rightarrow> nat \<Rightarrow> server \<Rightarrow> server option" where
  "on_hangup R fd S = do {
     s \<leftarrow> ape_disconnect (r_env R) fd (sv_tab S);
     close_socket fd (S\<lparr>sv_tab := s\<rparr>) }"

definition on_timer :: "reqenv \<Rightarrow> server \<Rightarrow> server option" where
  "on_timer R S = map_option (\<lambda>s. S\<lparr>sv_tab := s\<rparr>) (check_timeout (r_env R) (sv_tab S))"

section \<open>Steps\<close>

text \<open>What the environment is assumed to respect. The input fits into the buffer, as the length given to
  \<open>read\<close> says. Requests satisfy \<open>request_ok\<close> and \<open>ws_request_ok\<close> when their turn comes. The drafts before
  the last one are only followed as long as their readers stay inside their buffers.\<close>

fun ws_acts_ok :: "reqenv \<Rightarrow> string \<Rightarrow> nat \<Rightarrow> http_state \<Rightarrow> ws_act list \<Rightarrow> acetables \<Rightarrow> bool" where
  "ws_acts_ok R ip fd h [] s = True"
| "ws_acts_ok R ip fd h (Ws_onready msg # acts) s =
     (ws_request_ok R h (map char_of_byte msg) ip fd s \<and>
      (case run_ws R ip fd h [Ws_onready msg] s of None \<Rightarrow> True | Some s' \<Rightarrow> ws_acts_ok R ip fd h acts s'))"
| "ws_acts_ok R ip fd h (a # acts) s = (case run_ws R ip fd h [a] s of None \<Rightarrow> True | Some s' \<Rightarrow> ws_acts_ok R ip fd h acts s')"

definition read_ok :: "reqenv \<Rightarrow> nat \<Rightarrow> u8 list \<Rightarrow> server \<Rightarrow> bool" where
  "read_ok R fd bs S \<longleftrightarrow>
     (case sv_link S fd of
        None \<Rightarrow> False
      | Some l \<Rightarrow>
          length bs \<le> b_size (l_buffer l) - b_length (l_buffer l) \<and>
          (case l_parser l of
             Parser_http h \<Rightarrow>
               (case process_http h (read_in bs (l_buffer l)) of
                  None \<Rightarrow> True
                | Some (_, _, acts) \<Rightarrow> list_all (\<lambda>a. case a of Http_onready hr m \<Rightarrow> request_ok R hr m (l_ip l) fd (sv_tab S) | Http_shutdown \<Rightarrow> True) acts)
           | Parser_stream h w \<Rightarrow>
               (case Option.bind (g_co (sv_tab S) fd) s_ws of
                  None \<Rightarrow> True
                | Some v \<Rightarrow>
                    (case process_websocket v w (read_in bs (l_buffer l)) of
                       None \<Rightarrow> v = WS_IETF_07
                     | Some (_, _, acts) \<Rightarrow> ws_acts_ok R (l_ip l) fd h acts (sv_tab S)))))"

text \<open>A connection serves the subuser attached to it and no other.\<close>

definition sole :: "nat \<Rightarrow> acetables \<Rightarrow> bool" where
  "sole fd s \<longleftrightarrow> (\<forall>b. conn s b = Some (ALIVE, Some fd) \<longrightarrow> Option.bind (g_co s fd) s_attach = Some b)"

inductive server_step :: "reqenv \<Rightarrow> server \<Rightarrow> server \<Rightarrow> bool" for R where
  ev_accept: "fd \<noteq> 0 \<Longrightarrow> \<not> open_at (sv_tab S) fd \<Longrightarrow> length mem = DEFAULT_BUFFER_SIZE + 1 \<Longrightarrow> server_step R S (on_accept fd ip mem S)"
| ev_read: "read_ok R fd bs S \<Longrightarrow> on_read R fd bs S = Some S' \<Longrightarrow> server_step R S S'"
| ev_write: "fd \<in> dom (sv_link S) \<Longrightarrow> on_write R fd S = Some S' \<Longrightarrow> server_step R S S'"
| ev_hangup: "fd \<in> dom (sv_link S) \<Longrightarrow> sole fd (sv_tab S) \<Longrightarrow> on_hangup R fd S = Some S' \<Longrightarrow> server_step R S S'"
| ev_timer: "on_timer R S = Some S' \<Longrightarrow> server_step R S S'"
| ev_clock: "length (sprintf_li t) < 16 \<Longrightarrow> server_step R S (S\<lparr>sv_tab := (sv_tab S)\<lparr>g_now := t\<rparr>\<rparr>)"

inductive reachable_from :: "reqenv \<Rightarrow> server \<Rightarrow> server \<Rightarrow> bool" for R S where
  at_start: "reachable_from R S S"
| one_more: "reachable_from R S S' \<Longrightarrow> server_step R S' S'' \<Longrightarrow> reachable_from R S S''"

inductive_cases server_stepE: "server_step R S S'"

section \<open>Invariant\<close>

definition link_inv :: "acetables \<Rightarrow> nat \<Rightarrow> link \<Rightarrow> bool" where
  "link_inv s fd l \<longleftrightarrow> open_at s fd \<and>
     (case l_parser l of
        Parser_http h \<Rightarrow> Option.bind (g_co s fd) s_ws = None \<and> http_inv h (l_buffer l) \<and> uri_set h
      | Parser_stream h w \<Rightarrow> hs_host h \<noteq> None \<and>
          (\<exists>v. Option.bind (g_co s fd) s_ws = Some v \<and> (v = WS_IETF_07 \<longrightarrow> ws_inv w (l_buffer l) \<and> buffer_ok (l_buffer l))))"

definition server_inv :: "server \<Rightarrow> bool" where
  "server_inv S \<longleftrightarrow> serving (sv_tab S) \<and> (\<forall>fd l. sv_link S fd = Some l \<longrightarrow> link_inv (sv_tab S) fd l)"

definition env_ok :: "reqenv \<Rightarrow> bool" where
  "env_ok R \<longleftrightarrow> calm (r_cmd R) \<and> length (fst (snd (r_mem R))) = 4"

lemma env_okD: "env_ok R \<Longrightarrow> calm (r_cmd R)"
  by (simp add: env_ok_def)

lemma server_invD: "server_inv S \<Longrightarrow> serving (sv_tab S)" "server_inv S \<Longrightarrow> sv_link S fd = Some l \<Longrightarrow> link_inv (sv_tab S) fd l"
  by (simp_all add: server_inv_def)

lemma link_cong:
  "open_at s' c = open_at s c \<Longrightarrow> Option.bind (g_co s' c) s_ws = Option.bind (g_co s c) s_ws \<Longrightarrow> link_inv s' c l = link_inv s c l"
  by (cases "l_parser l") (simp_all add: link_inv_def)

lemma link_other: "co_le fd s s' \<Longrightarrow> c \<noteq> fd \<Longrightarrow> link_inv s c l \<Longrightarrow> link_inv s' c l"
proof -
  assume a: "co_le fd s s'" "c \<noteq> fd" "link_inv s c l"
  then show ?thesis using link_cong [OF co_le_open [OF a(1), of c], of l] by (simp add: co_le_def)
qed

lemma link_slots: "slots s s' \<Longrightarrow> link_inv s c l \<Longrightarrow> link_inv s' c l"
  using link_other [OF slots_le [of s s' "Suc c"], of c l] by simp

text \<open>An event of one connection.\<close>

lemma server_inv_event:
  assumes "server_inv S" and "serving s'" and "co_le fd (sv_tab S) s'" and "link_inv s' fd l'"
  shows "server_inv (S\<lparr>sv_tab := s', sv_link := (sv_link S)(fd \<mapsto> l')\<rparr>)"
  using assms link_other [OF assms(3)] by (auto simp: server_inv_def)

lemma server_inv_slots: "server_inv S \<Longrightarrow> serving s' \<Longrightarrow> slots (sv_tab S) s' \<Longrightarrow> server_inv (S\<lparr>sv_tab := s'\<rparr>)"
  using link_slots by (auto simp: server_inv_def)

lemma init_inv: "length (sprintf_li now) < 16 \<Longrightarrow> server_inv (server_init now ev)"
  using world_init [of now ev] by (simp add: server_inv_def server_init_def serving_def) (simp add: ape_init_def owner_def)

lemma accept_inv:
  assumes inv: "server_inv S" and fd: "\<not> open_at (sv_tab S) fd" and mem: "length mem = DEFAULT_BUFFER_SIZE + 1"
  shows "server_inv (on_accept fd ip mem S)"
proof -
  let ?s = "sv_tab S" and ?S = "on_accept fd ip mem S"
  note sv = server_invD(1) [OF inv]
  have sk: "sock_inv (g_sk (sv_tab ?S))" using servingD(3) [OF sv] by (auto simp: on_accept_def Let_def sock_inv_def)
  have lk: "cl \<noteq> fd" if c: "conn ?s b = Some (ALIVE, Some cl)" for b cl
  proof -
    have "b \<in> dom (g_subs ?s)" using c by (auto simp: conn_def)
    then obtain u where "owner ?s b = Some u" using baseD(19) [OF servingD(2) [OF sv], of b] by auto
    then show ?thesis using servingD(4) [OF sv _ c] fd by (auto simp: link_ok_def)
  qed
  have "serving (sv_tab ?S)"
  proof (rule serving_frame [OF sv _ _ sk])
    show "dom (g_co ?s) \<subseteq> dom (g_co (sv_tab ?S))" by (auto simp: on_accept_def Let_def)
  qed (use lk serving_now [OF sv] in \<open>auto simp: on_accept_def Let_def\<close>)
  moreover have "link_inv (sv_tab ?S) c l" if l: "sv_link ?S c = Some l" for c l
  proof (cases "c = fd")
    case True
    have "http_inv parser_init_http (fresh_buffer mem)" "uri_set parser_init_http"
      using mem by (simp_all add: http_inv_def parser_init_http_def fresh_buffer_def buffer_ok_def ptr_ok_def DEFAULT_BUFFER_SIZE_def uri_set_def)
    then show ?thesis using True l by (auto simp: link_inv_def on_accept_def Let_def open_at_def)
  next
    case False
    then have "link_inv ?s c l" using l server_invD(2) [OF inv] by (simp add: on_accept_def Let_def)
    moreover have "open_at (sv_tab ?S) c = open_at ?s c" "Option.bind (g_co (sv_tab ?S) c) s_ws = Option.bind (g_co ?s c) s_ws"
      using False by (simp_all add: on_accept_def Let_def open_at_def)
    ultimately show ?thesis using link_cong by blast
  qed
  ultimately show ?thesis by (simp add: server_inv_def)
qed

section \<open>Input\<close>

lemma run_http_ok:
  assumes R: "env_ok R" and sv: "serving s" and op: "open_at s fd" and plain: "Option.bind (g_co s fd) s_ws = None" and a: "acts_ok acts"
    and ok: "list_all (\<lambda>a. case a of Http_onready hr m \<Rightarrow> request_ok R hr m ip fd s | Http_shutdown \<Rightarrow> True) acts"
  obtains up s' where "run_http R ip fd acts s = Some (up, s')" "serving s'" "co_le fd s s'"
    "map_option snd up = map_option (\<lambda>v. first_step v (r_mem R)) (Option.bind (g_co s' fd) s_ws)" "\<And>h w. up = Some (h, w) \<Longrightarrow> hs_host h \<noteq> None"
proof -
  consider "acts = []" | "acts = [Http_shutdown]" | h m where "acts = [Http_onready h m]"
    using a by (cases acts; cases "hd acts") (auto simp: acts_ok_def)
  then show thesis
  proof cases
    case 1
    then show thesis using sv plain by (intro that [of None s]) simp_all
  next
    case 2
    then show thesis using outside_serving [OF sv outside_shutdown(1)] plain
      by (intro that [of None "shutdown fd s"]) (simp_all add: shutdown_def)
  next
    case 3
    then have p: "request_ptrs h m" and r: "request_ok R h m ip fd s" using a ok by (simp_all add: acts_ok_def)
    obtain w s' where "parser_ready_http R h m ip fd s = Some (w, s')" "serving s'" "co_le fd s s'"
      "w = map_option (\<lambda>v. first_step v (r_mem R)) (Option.bind (g_co s' fd) s_ws)" "w \<noteq> None \<Longrightarrow> hs_host h \<noteq> None"
      by (rule parser_ready_http_ok [OF env_okD [OF R] sv op plain p r]) (rule that; assumption)
    then show thesis using 3 by (intro that [of "map_option (Pair h) w" s']) (auto simp: option.map_comp comp_def)
  qed
qed

lemma run_ws_ok:
  assumes R: "env_ok R" and h: "hs_host h \<noteq> None"
  shows "serving s \<Longrightarrow> open_at s fd \<Longrightarrow> Option.bind (g_co s fd) s_ws = Some v \<Longrightarrow> ws_acts_ok R ip fd h acts s \<Longrightarrow>
    \<exists>s'. run_ws R ip fd h acts s = Some s' \<and> serving s' \<and> co_le fd s s'"
proof (induction acts arbitrary: s)
  case (Cons a acts)
  have "\<exists>s1. run_ws R ip fd h [a] s = Some s1 \<and> serving s1 \<and> co_le fd s s1"
  proof (cases a)
    case (Ws_sendbin bs burn)
    obtain fin sk where sk: "sendbin (e_os (r_env R)) fd (map char_of_byte bs) burn (g_sk s) = Some (fin, sk)" "sock_inv sk"
      using sendbin_good [of "e_os (r_env R)" "g_sk s" fd "map char_of_byte bs" burn] calmD(1) [of "r_cmd R"] R servingD(3) [OF Cons.prems(1)]
      by (auto simp: env_ok_def)
    have "outside fd s (s\<lparr>g_sk := sk\<rparr>)" using sk(2) by (simp add: outside_def)
    then show ?thesis using outside_serving [OF Cons.prems(1)] sk(1) Ws_sendbin by (simp add: outside_def)
  next
    case (Ws_onready msg)
    obtain hst where hst: "hs_host h = Some hst" using h by auto
    have ok: "ws_request_ok R h (map char_of_byte msg) ip fd s" using Cons.prems(4) Ws_onready by simp
    obtain s' where "parser_ready_websocket R h (map char_of_byte msg) ip fd s = Some s'" "serving s'" "co_le fd s s'"
      by (rule parser_ready_websocket_ok [OF env_okD [OF R] Cons.prems(1-3) hst ok])
    then show ?thesis using Ws_onready by simp
  next
    case Ws_shutdown
    then show ?thesis using outside_serving [OF Cons.prems(1) outside_shutdown(1)] outside_shutdown(1) [of fd s] by (simp add: outside_def)
  qed
  then obtain s1 where 1: "run_ws R ip fd h [a] s = Some s1" "serving s1" "co_le fd s s1" by blast
  have "ws_acts_ok R ip fd h acts s1" using Cons.prems(4) 1(1) by (cases a) simp_all
  moreover have "open_at s1 fd" "Option.bind (g_co s1 fd) s_ws = Some v"
    using Cons.prems(2,3) co_le_open [OF 1(3)] 1(3) by (simp_all add: co_le_def)
  ultimately obtain s' where s': "run_ws R ip fd h acts s1 = Some s'" "serving s'" "co_le fd s1 s'" using Cons.IH [OF 1(2)] by blast
  have "run_ws R ip fd h (a # acts) s = run_ws R ip fd h acts s1" using 1(1) by (cases a) (auto simp: bind_eq_Some_conv)
  then show ?case using s' co_le_trans [OF 1(3)] by auto
qed simp

lemma read_inv:
  assumes R: "env_ok R" and inv: "server_inv S" and ok: "read_ok R fd bs S"
  shows "\<exists>S'. on_read R fd bs S = Some S' \<and> server_inv S'"
proof -
  note sv = server_invD(1) [OF inv]
  obtain l where l: "sv_link S fd = Some l" and fit: "length bs \<le> b_size (l_buffer l) - b_length (l_buffer l)"
    using ok by (auto simp: read_ok_def split: option.splits)
  let ?buf = "read_in bs (l_buffer l)"
  note li = server_invD(2) [OF inv l]
  have op: "open_at (sv_tab S) fd" using li by (simp add: link_inv_def)
  show ?thesis
  proof (cases "l_parser l")
    case (Parser_http h)
    have h: "Option.bind (g_co (sv_tab S) fd) s_ws = None" "http_inv h (l_buffer l)" "uri_set h" using li Parser_http by (simp_all add: link_inv_def)
    note hi = http_inv_read [OF h(2) fit]
    obtain h' buf' acts where p: "process_http h ?buf = Some (h', buf', acts)" "http_inv h' buf'" using process_http_safe [OF hi] by blast
    note hand = process_http_hands [OF hi h(3) p(1)]
    have rq: "list_all (\<lambda>a. case a of Http_onready hr m \<Rightarrow> request_ok R hr m (l_ip l) fd (sv_tab S) | Http_shutdown \<Rightarrow> True) acts"
      using ok l Parser_http p(1) by (simp add: read_ok_def)
    obtain up s' where r: "run_http R (l_ip l) fd acts (sv_tab S) = Some (up, s')" "serving s'" "co_le fd (sv_tab S) s'"
      "map_option snd up = map_option (\<lambda>v. first_step v (r_mem R)) (Option.bind (g_co s' fd) s_ws)" "\<And>h w. up = Some (h, w) \<Longrightarrow> hs_host h \<noteq> None"
      by (rule run_http_ok [OF R sv op h(1) conjunct2 [OF hand] rq]) (rule that; assumption)
    let ?p = "case up of None \<Rightarrow> Parser_http h' | Some (hr, w) \<Rightarrow> Parser_stream hr (w\<lparr>ws_ready := -1\<rparr>)"
    have "ws_inv (w\<lparr>ws_ready := -1\<rparr>) buf'" if "w = first_step WS_IETF_07 (r_mem R)" for w
      using that R by (auto simp: env_ok_def first_step_def ws_inv_def parser_init_stream_def split: prod.splits)
    moreover have "buffer_ok buf'" using p(2) by (simp add: http_inv_def)
    ultimately have "link_inv s' fd (l\<lparr>l_parser := ?p, l_buffer := buf'\<rparr>)"
      using op co_le_open [OF r(3)] r(4,5) p(2) hand
      by (cases up; cases "Option.bind (g_co s' fd) s_ws") (auto simp: link_inv_def)
    then show ?thesis using server_inv_event [OF inv r(2,3)] l Parser_http p(1) r(1) by (simp add: on_read_def Let_def)
  next
    case (Parser_stream h w)
    obtain v where v: "hs_host h \<noteq> None" "Option.bind (g_co (sv_tab S) fd) s_ws = Some v"
      "v = WS_IETF_07 \<longrightarrow> ws_inv w (l_buffer l) \<and> buffer_ok (l_buffer l)" using li Parser_stream by (auto simp: link_inv_def)
    obtain k where k: "g_co (sv_tab S) fd = Some k" "s_ws k = Some v" using v(2) by (cases "g_co (sv_tab S) fd") auto
    have "\<exists>w' buf' acts. process_websocket v w ?buf = Some (w', buf', acts) \<and> (v = WS_IETF_07 \<longrightarrow> ws_inv w' buf' \<and> buffer_ok buf')"
    proof (cases "v = WS_IETF_07")
      case True
      then show ?thesis using process_websocket_safe [OF ws_inv_read [OF _ _ fit]] v(3) by auto
    next
      case False
      then show ?thesis using ok l Parser_stream v(2) by (auto simp: read_ok_def split: option.splits)
    qed
    then obtain w' buf' acts where p: "process_websocket v w ?buf = Some (w', buf', acts)" "v = WS_IETF_07 \<longrightarrow> ws_inv w' buf' \<and> buffer_ok buf'" by blast
    have "ws_acts_ok R (l_ip l) fd h acts (sv_tab S)" using ok l Parser_stream v(2) p(1) by (simp add: read_ok_def)
    from run_ws_ok [OF R v(1) sv op v(2) this] obtain s' where
      r: "run_ws R (l_ip l) fd h acts (sv_tab S) = Some s'" "serving s'" "co_le fd (sv_tab S) s'" by blast
    have "Option.bind (g_co s' fd) s_ws = Some v" using r(3) v(2) by (simp add: co_le_def)
    then have "link_inv s' fd (l\<lparr>l_parser := Parser_stream h w', l_buffer := buf'\<rparr>)"
      using op co_le_open [OF r(3)] v(1) p(2) by (simp add: link_inv_def)
    then show ?thesis using server_inv_event [OF inv r(2,3)] l Parser_stream p(1) r(1) k by (simp add: on_read_def Let_def)
  qed
qed

section \<open>Output and timer\<close>

lemma sent_serving:
  assumes sv: "serving s" and r: "ape_sent fd s = Some s'"
  shows "serving s'" "slots s s'"
proof -
  obtain k where k: "g_co s fd = Some k" using r by (auto simp: ape_sent_def bind_eq_Some_conv)
  have "serving s' \<and> slots s s'"
  proof (cases "s_attach k")
    case None
    then show ?thesis using r k sv slots_steps(1) [of s s] by (simp add: ape_sent_def)
  next
    case (Some b)
    show ?thesis
    proof (cases "g_subs s b")
      case None
      then obtain x where x: "g_detached s b = Some x" "s' = s\<lparr>g_detached := (g_detached s)(b \<mapsto> x\<lparr>sub_burn_after_writing := False\<rparr>)\<rparr>"
        using r k Some by (auto simp: ape_sent_def bind_eq_Some_conv)
      have "outside 0 s s'" using x(2) by (simp add: outside_def)
      then show ?thesis using outside_serving [OF sv] x(2) slots_steps(1) [of s' s] by auto
    next
      case B: (Some B)
      obtain u where u: "owner s b = Some u" using baseD(19) [OF servingD(2) [OF sv], of b] B by auto
      then have nn: "sub_user B \<noteq> None" using B by (simp add: owner_def)
      show ?thesis
      proof (cases "sub_burn_after_writing B")
        case False
        then show ?thesis using r k Some B sv slots_steps(1) [of s s] by (simp add: ape_sent_def)
      next
        case True
        obtain s1 where 1: "data_completly_sent b s = Some s1" "serving s1" "steady s s1"
          by (rule data_sent_serving [OF sv u]) (rule that; assumption)
        have u1: "owner s1 b = Some u" using steadyD(1) [OF 1(3)] u by simp
        have fl: "same_link B (B\<lparr>sub_burn_after_writing := False\<rparr>) \<and> sub_state (B\<lparr>sub_burn_after_writing := False\<rparr>) = sub_state B \<and>
          sub_client (B\<lparr>sub_burn_after_writing := False\<rparr>) = sub_client B" for B by (simp add: same_link_def)
        obtain s2 where 2: "upd_sub b (\<lambda>b. b\<lparr>sub_burn_after_writing := False\<rparr>) s1 = Some s2" "serving s2" "steady s1 s2"
          by (rule flag_serving [OF 1(2) u1 fl]) (rule that; assumption)
        have "s' = s2" using r k Some B True nn 1(1) 2(1) by (simp add: ape_sent_def)
        then show ?thesis using 2(2) slots_steps(3) [OF steady_trans [OF 1(3) 2(3)]] by simp
      qed
    qed
  qed
  then show "serving s'" "slots s s'" by simp_all
qed

lemma write_inv:
  assumes R: "env_ok R" and inv: "server_inv S" and r: "on_write R fd S = Some S'"
  shows "server_inv S'"
proof (cases "bufout (g_sk (sv_tab S)) fd = None")
  case True
  then show ?thesis using r inv by (simp add: on_write_def)
next
  case False
  note sv = server_invD(1) [OF inv]
  obtain fin sk where sk: "sendqueue (e_os (r_env R)) fd (g_sk (sv_tab S)) = Some (fin, sk)" "sock_inv sk"
    using sendqueue_good [OF calmD(1) [OF env_okD [OF R]] servingD(3) [OF sv], of fd] by blast
  let ?s = "(sv_tab S)\<lparr>g_sk := sk\<rparr>"
  have o: "outside 0 (sv_tab S) ?s" using sk(2) by (simp add: outside_def)
  note sv1 = outside_serving [OF sv o]
  obtain s' where s': "(if fin then do { s \<leftarrow> ape_sent fd ?s; Some (if burn_aw (g_sk s) fd \<noteq> 0 then shutdown fd s else s) } else Some ?s) = Some s'"
    "S' = S\<lparr>sv_tab := s'\<rparr>" using r False sk(1) by (auto simp: on_write_def Let_def bind_eq_Some_conv)
  have "serving s' \<and> slots ?s s'"
  proof (cases fin)
    case True
    then obtain s2 where 2: "ape_sent fd ?s = Some s2" "s' = (if burn_aw (g_sk s2) fd \<noteq> 0 then shutdown fd s2 else s2)"
      using s'(1) by (auto simp: bind_eq_Some_conv)
    note S2 = sent_serving [OF sv1 2(1)]
    have "slots s2 (shutdown fd s2)" by (rule slots_steps(1)) (simp add: shutdown_def)
    then show ?thesis using 2(2) S2 outside_serving [OF S2(1) outside_shutdown(1), of fd] slots_trans [OF S2(2)] by simp
  next
    case False
    then show ?thesis using s'(1) sv1 slots_steps(1) [of ?s ?s] by simp
  qed
  moreover have "slots (sv_tab S) ?s" by (rule slots_steps(1)) simp
  ultimately show ?thesis unfolding s'(2) using server_inv_slots [OF inv] slots_trans by blast
qed

lemma timer_inv:
  assumes "env_ok R" and "server_inv S"
  shows "\<exists>S'. on_timer R S = Some S' \<and> server_inv S'"
proof -
  note X = env_okD [OF assms(1)]
  obtain s' where "check_timeout (r_env R) (sv_tab S) = Some s'" "serving s'" "slots (sv_tab S) s'"
    using check_timeout_ok [OF calmD(1,2) [OF X] server_invD(1) [OF assms(2)]] by blast
  then show ?thesis using server_inv_slots [OF assms(2)] by (simp add: on_timer_def)
qed

section \<open>Hanging up\<close>

text \<open>After \<open>ape_disconnect\<close> nobody is alive on the connection.\<close>

lemma disconnect_serving:
  assumes q: "quiet E" and sv: "serving s" and so: "sole fd s" and op: "open_at s fd" and r: "ape_disconnect E fd s = Some s'"
  shows "serving s'" "slots s s'" "conn s' b \<noteq> Some (ALIVE, Some fd)"
proof -
  obtain k where k: "g_co s fd = Some k" "s_fd k = fd" using op by (auto simp: open_at_def)
  have "serving s' \<and> slots s s' \<and> (\<forall>b. conn s' b \<noteq> Some (ALIVE, Some fd))"
  proof (cases "s_attach k")
    case None
    then show ?thesis using r k sv so slots_steps(1) [of s s] by (auto simp: ape_disconnect_def sole_def)
  next
    case (Some a)
    have other: "conn s b \<noteq> Some (ALIVE, Some fd)" if "b \<noteq> a" for b using so k Some that by (auto simp: sole_def)
    show ?thesis
    proof (cases "g_subs s a")
      case None
      let ?s = "s\<lparr>g_detached := (g_detached s)(a := None)\<rparr>"
      have o: "outside 0 s ?s" and k1: "g_co ?s fd = Some k" using k by (simp_all add: outside_def)
      obtain s2 where "detach fd ?s = Some s2" "serving s2" "steady ?s s2" "conn s2 = conn ?s"
        by (rule detach_serving [OF outside_serving [OF sv o] k1]) (rule that; assumption)
      moreover have "detach fd ?s = Some s'" using r k Some None by (auto simp: ape_disconnect_def bind_eq_Some_conv)
      moreover have "conn ?s = conn s" "slots s ?s" by (simp_all add: conn_def fun_eq_iff slots_def)
      moreover have "conn s b \<noteq> Some (ALIVE, Some fd)" for b using other [of b] None by (cases "b = a") (simp_all add: conn_def)
      ultimately show ?thesis using slots_steps(3) slots_trans by auto
    next
      case B: (Some B)
      obtain cl kc where cl: "sub_client B = Some cl" "g_co s cl = Some kc" using r k Some B by (auto simp: ape_disconnect_def bind_eq_Some_conv)
      obtain u where u: "owner s a = Some u" using baseD(19) [OF servingD(2) [OF sv], of a] B by auto
      then have su: "sub_user B = Some u" using B by (simp add: owner_def)
      show ?thesis
      proof (cases "s_fd kc = fd")
        case False
        then have "s' = s" using r k Some B cl by (simp add: ape_disconnect_def)
        moreover have "conn s a \<noteq> Some (ALIVE, Some fd)" using False cl k B by (auto simp: conn_def)
        ultimately show ?thesis using sv other slots_steps(1) [of s s] by metis
      next
        case True
        let ?B = "B\<lparr>sub_sent := False, sub_state := ADIED, sub_content := None\<rparr>"
        define s1 where "s1 = s\<lparr>g_subs := (g_subs s)(a \<mapsto> ?B)\<rparr>"
        have sl: "same_link B ?B" by (simp add: same_link_def)
        have l: "link_ok s (transport_of s u) (sub_state ?B, sub_client ?B)" using servingD(4) [OF sv u conn_of [OF B]] by (auto simp: link_ok_def)
        note S = sub_upd_serving [OF sv B u sl l s1_def]
        have n1: "conn s1 b \<noteq> Some (ALIVE, Some fd)" for b using S(3) other [of b] by simp
        obtain U where U: "g_users s u = Some U" using owner_user [OF servingD(2) [OF sv] u] by auto
        have U1: "g_users s1 u = Some U" by (simp add: s1_def U)
        have r1: "(if u_istmp U then Option.bind (deluser E (Some u) s1) (detach fd) else Some s1) = Some s'"
          using r k Some B cl True su U by (simp add: ape_disconnect_def upd_sub_def s1_def [symmetric] U1)
        show ?thesis
        proof (cases "u_istmp U")
          case False
          then show ?thesis using r1 S(1) n1 slots_steps(3) [OF S(2)] by simp
        next
          case True
          have ud: "u \<in> dom (g_users s1)" using U1 by auto
          obtain s2 where 2: "deluser E (Some u) s1 = Some s2" "serving s2" "g_co s2 = g_co s1"
            "\<And>b. owner s1 b \<noteq> Some u \<Longrightarrow> conn s2 b = conn s1 b \<and> owner s2 b = owner s1 b"
            by (rule deluser_serving [OF q S(1) ud]) (rule that; assumption)
          have gone: "g_subs s2 b = None" if "owner s1 b = Some u" for b
            by (rule deluser_spec [OF q servingD(1) [OF S(1)] ud]) (use 2(1) that in auto)
          have n2: "conn s2 b \<noteq> Some (ALIVE, Some fd)" for b
            using n1 [of b] 2(4) [of b] gone [of b] by (cases "owner s1 b = Some u") (auto simp: conn_def)
          have "g_co s1 fd = Some k" using k by (simp add: s1_def)
          then have k2: "g_co s2 fd = Some k" using 2(3) by simp
          obtain s3 where 3: "detach fd s2 = Some s3" "serving s3" "steady s2 s3" "conn s3 = conn s2"
            by (rule detach_serving [OF 2(2) k2]) (rule that; assumption)
          have "s' = s3" using r1 True 2(1) 3(1) by simp
          then show ?thesis
            using 3(2,4) n2 slots_trans [OF slots_steps(3) [OF S(2)] slots_trans [OF slots_steps(1) [OF 2(3)] slots_steps(3) [OF 3(3)]]] by simp
        qed
      qed
    qed
  qed
  then show "serving s'" "slots s s'" "conn s' b \<noteq> Some (ALIVE, Some fd)" by blast+
qed

lemma hangup_inv:
  assumes R: "env_ok R" and inv: "server_inv S" and l: "fd \<in> dom (sv_link S)" and so: "sole fd (sv_tab S)" and r: "on_hangup R fd S = Some S'"
  shows "server_inv S'"
proof -
  note sv = server_invD(1) [OF inv]
  have op: "open_at (sv_tab S) fd" using l server_invD(2) [OF inv] by (auto simp: link_inv_def)
  obtain s where s: "ape_disconnect (r_env R) fd (sv_tab S) = Some s" "close_socket fd (S\<lparr>sv_tab := s\<rparr>) = Some S'"
    using r by (auto simp: on_hangup_def bind_eq_Some_conv)
  note D = disconnect_serving [OF calmD(2) [OF env_okD [OF R]] sv so op s(1)]
  let ?k = "\<lparr>s_fd = 0, s_ws = None, s_attach = None\<rparr>"
  let ?s = "s\<lparr>g_sk := (g_sk s)\<lparr>bufout := (bufout (g_sk s))(fd := None)\<rparr>, g_co := (g_co s)(fd \<mapsto> ?k)\<rparr>"
  have S': "S' = S\<lparr>sv_tab := ?s, sv_link := (sv_link S)(fd := None)\<rparr>" using s(2) by (auto simp: close_socket_def Let_def bind_eq_Some_conv)
  have "sock_inv (g_sk ?s)" using servingD(3) [OF D(1)] by (auto simp: sock_inv_def)
  then have "serving ?s"
    by (intro serving_frame [OF D(1)]) (use D(3) serving_now [OF D(1)] in auto)
  moreover have "link_inv ?s c l" if "c \<noteq> fd" "sv_link S c = Some l" for c l
  proof -
    have "link_inv s c l" by (rule link_slots [OF D(2) server_invD(2) [OF inv that(2)]])
    moreover have "link_inv ?s c l = link_inv s c l" by (rule link_cong) (use that(1) in \<open>simp_all add: open_at_def\<close>)
    ultimately show ?thesis by simp
  qed
  ultimately show ?thesis by (simp add: S' server_inv_def)
qed

lemma clock_inv:
  assumes "server_inv S" and "length (sprintf_li t) < 16"
  shows "server_inv (S\<lparr>sv_tab := (sv_tab S)\<lparr>g_now := t\<rparr>\<rparr>)"
proof -
  note sv = server_invD(1) [OF assms(1)]
  have "serving ((sv_tab S)\<lparr>g_now := t\<rparr>)" by (rule serving_frame [OF sv]) (use assms(2) servingD(3) [OF sv] in simp_all)
  then show ?thesis by (rule server_inv_slots [OF assms(1)]) (simp add: slots_def)
qed

lemma step_inv: "server_step R S S' \<Longrightarrow> env_ok R \<Longrightarrow> server_inv S \<Longrightarrow> server_inv S'"
proof (induction rule: server_step.induct)
  case (ev_accept fd S mem ip)
  then show ?case by (intro accept_inv)
next
  case (ev_read fd bs S S')
  then show ?case using read_inv [of R S fd bs] by auto
next
  case (ev_write fd S S')
  then show ?case using write_inv by blast
next
  case (ev_hangup fd S S')
  then show ?case using hangup_inv by blast
next
  case (ev_timer S S')
  then show ?case using timer_inv [of R S] by auto
next
  case (ev_clock t S)
  then show ?case by (intro clock_inv)
qed

lemma reachable_inv: "reachable_from R S S' \<Longrightarrow> env_ok R \<Longrightarrow> server_inv S \<Longrightarrow> server_inv S'"
  by (induction rule: reachable_from.induct) (auto intro: step_inv)

section \<open>Correctness\<close>

definition sample_server :: server where
  "sample_server = on_accept 5 ''10.0.0.1'' (replicate 2049 0) (server_init 0 [])"

lemma sample_reqenv_ok: "env_ok sample_reqenv"
  using sample_calm by (simp add: env_ok_def sample_reqenv_def)

lemma sample_server_reached: "reachable_from sample_reqenv (server_init 0 []) sample_server"
  unfolding sample_server_def
  by (rule reachable_from.one_more [OF reachable_from.at_start server_step.ev_accept])
    (simp_all add: server_init_def ape_init_def open_at_def DEFAULT_BUFFER_SIZE_def)





end
