(* ===== verification/Ape_Config.thy ===== *)
theory Ape_Config
  imports Ape_Utils
begin

text \<open>
  The configuration file, from \<open>src/config.c\<close>: sections of definitions, each a line, the newest first. The
  file is the string of its bytes. An error the reader reports is a value; \<open>None\<close> is \<open>trim\<close> reading
  before the beginning of the line, which it does on a line of blanks.
\<close>

section \<open>Data\<close>

record apeconfig_def =
  cd_val :: string
  cd_key :: string

record apeconfig =
  cf_def :: "apeconfig_def list"
  cf_section :: string

datatype config_error = Cannot_open | Out_of_brace nat | Illegal_equality nat

type_synonym config_state = "bool \<times> apeconfig list"

section \<open>Lookup\<close>

fun ape_config_get_section :: "apeconfig list \<Rightarrow> string \<Rightarrow> apeconfig option" where
  "ape_config_get_section [] sec = None"
| "ape_config_get_section (c # cs) sec = (if strcaseeq (cf_section c) sec then Some c else ape_config_get_section cs sec)"

fun get_def :: "apeconfig_def list \<Rightarrow> string \<Rightarrow> string option" where
  "get_def [] key = None"
| "get_def (d # ds) key = (if strcaseeq (cd_key d) key then Some (cd_val d) else get_def ds key)"

definition ape_config_get_key :: "apeconfig option \<Rightarrow> string \<Rightarrow> string option" where
  "ape_config_get_key conf key = (case conf of None \<Rightarrow> None | Some c \<Rightarrow> get_def (cf_def c) key)"

fun set_def :: "apeconfig_def list \<Rightarrow> string \<Rightarrow> string \<Rightarrow> apeconfig_def list" where
  "set_def [] key v = []"
| "set_def (d # ds) key v = (if strcaseeq (cd_key d) key then d\<lparr>cd_val := v\<rparr> # ds else d # set_def ds key v)"

definition ape_config_set_key :: "apeconfig option \<Rightarrow> string \<Rightarrow> string \<Rightarrow> apeconfig option" where
  "ape_config_set_key conf key v = map_option (\<lambda>c. c\<lparr>cf_def := set_def (cf_def c) key v\<rparr>) conf"

definition CONFIG_VAL :: "string \<Rightarrow> string \<Rightarrow> apeconfig list \<Rightarrow> string" where
  "CONFIG_VAL sec key srv =
     (case ape_config_get_key (ape_config_get_section srv sec) key of None \<Rightarrow> [] | Some v \<Rightarrow> v)"

section \<open>Reading\<close>

text \<open>\<open>fgets(lines, 2048, fp)\<close>: up to and with a line feed, 2047 characters at most. The text in \<open>lines\<close> ends at
  the first NUL.\<close>

definition line_length :: "string \<Rightarrow> nat" where
  "line_length s = min 2047 (min (length s) (Suc (length (takeWhile (\<lambda>c. c \<noteq> CHR 0x0A) s))))"

lemma line_length_pos: "s \<noteq> [] \<Longrightarrow> 0 < line_length s"
  by (simp add: line_length_def)

function fgets_lines :: "string \<Rightarrow> string list" where
  "fgets_lines s = (if s = [] then [] else takeWhile (\<lambda>c. c \<noteq> CHR 0x00) (take (line_length s) s) # fgets_lines (drop (line_length s) s))"
  by pat_completeness auto
termination
  by (relation "measure length") (auto simp: line_length_pos)

declare fgets_lines.simps [simp del]

text \<open>\<open>trim(tkn[1])\<close>: before the token there is the NUL that replaced the equals sign, at which the scan ends.\<close>

definition trim_token :: "string \<Rightarrow> string" where
  "trim_token s = rev (dropWhile is_blank (rev (dropWhile is_blank s)))"

definition open_section :: "string \<Rightarrow> apeconfig list \<Rightarrow> (config_error + config_state) option" where
  "open_section line conf = do {
     name \<leftarrow> trim (takeWhile (\<lambda>c. c \<noteq> CHR ''{'') line);
     Some (Inr (True, \<lparr>cf_def = [], cf_section = take 32 name\<rparr> # conf)) }"

definition parse_def :: "nat \<Rightarrow> string \<Rightarrow> (config_error + apeconfig_def) option" where
  "parse_def curline line =
     (let tkn = explode (CHR ''='') line 3 in
      if length tkn > 2 then Some (Inl (Illegal_equality curline))
      else if length tkn = 2 then do {
        key \<leftarrow> trim (tkn ! 0);
        Some (Inr \<lparr>cd_val = trim_token (tkn ! 1), cd_key = take 32 key\<rparr>) }
      else do {
        v \<leftarrow> trim (tkn ! 0);
        Some (Inr \<lparr>cd_val = v, cd_key = []\<rparr>) })"

text \<open>One turn of the loop. Within a section \<open>conf\<close> is not empty.\<close>

definition config_line :: "nat \<Rightarrow> string \<Rightarrow> config_state \<Rightarrow> (config_error + config_state) option" where
  "config_line curline line st =
     (case st of (open_brace, conf) \<Rightarrow>
        if line = [] \<or> hd line \<in> {CHR ''#'', CHR 0x0D, CHR 0x0A} then Some (Inr (open_brace, conf))
        else if \<not> open_brace then
          (if CHR ''{'' \<in> set line then open_section line conf else Some (Inl (Out_of_brace curline)))
        else if CHR ''}'' \<in> set line then Some (Inr (False, conf))
        else do {
          d \<leftarrow> parse_def curline line;
          case d of
            Inl e \<Rightarrow> Some (Inl e)
          | Inr d \<Rightarrow>
              (case conf of
                 [] \<Rightarrow> None
               | c # cs \<Rightarrow> Some (Inr (True, c\<lparr>cf_def := d # cf_def c\<rparr> # cs))) })"

fun config_lines :: "nat \<Rightarrow> string list \<Rightarrow> config_state \<Rightarrow> (config_error + config_state) option" where
  "config_lines n [] st = Some (Inr st)"
| "config_lines n (l # ls) st = do {
     r \<leftarrow> config_line (Suc n) l st;
     case r of Inl e \<Rightarrow> Some (Inl e) | Inr st \<Rightarrow> config_lines (Suc n) ls st }"

text \<open>\<open>file\<close> is what \<open>fopen\<close> finds under the name. The function returns NULL for every error.\<close>

definition ape_config_load :: "string option \<Rightarrow> (config_error + apeconfig list) option" where
  "ape_config_load file =
     (case file of
        None \<Rightarrow> Some (Inl Cannot_open)
      | Some s \<Rightarrow> map_option (map_sum id snd) (config_lines 0 (fgets_lines s) (False, [])))"

section \<open>Configurations of the plugins\<close>

text \<open>From \<open>src/plugins.c\<close>. These files have no sections; a line without an equals sign is skipped, further ones
  belong to the value, and keys are compared with \<open>strcmp\<close>.\<close>

record plug_config =
  pc_key :: string
  pc_value :: string

definition plugin_line :: "string \<Rightarrow> plug_config list \<Rightarrow> plug_config list option" where
  "plugin_line line conf =
     (if line = [] \<or> hd line \<in> {CHR ''#'', CHR 0x0D, CHR 0x0A} then Some conf
      else (let tkn = explode (CHR ''='') line 2 in
        if length tkn = 2 then do {
          key \<leftarrow> trim (tkn ! 0);
          Some (\<lparr>pc_key = key, pc_value = trim_token (tkn ! 1)\<rparr> # conf) }
        else Some conf))"

fun plugin_lines :: "string list \<Rightarrow> plug_config list \<Rightarrow> plug_config list option" where
  "plugin_lines [] conf = Some conf"
| "plugin_lines (l # ls) conf = do {
     conf \<leftarrow> plugin_line l conf;
     plugin_lines ls conf }"

definition plugin_parse_conf :: "string option \<Rightarrow> plug_config list option" where
  "plugin_parse_conf file = (case file of None \<Rightarrow> Some [] | Some s \<Rightarrow> plugin_lines (fgets_lines s) [])"

fun plugin_get_conf :: "plug_config list \<Rightarrow> string \<Rightarrow> string option" where
  "plugin_get_conf [] key = None"
| "plugin_get_conf (c # cs) key = (if pc_key c = key then Some (pc_value c) else plugin_get_conf cs key)"

section \<open>Texts\<close>

text \<open>A name or value: not empty, not beginning or ending with a blank, without the characters that structure
  the file.\<close>

definition word_ok :: "string \<Rightarrow> bool" where
  "word_ok s \<longleftrightarrow> s \<noteq> [] \<and> \<not> is_blank (hd s) \<and> \<not> is_blank (last s) \<and> hd s \<noteq> CHR ''#'' \<and>
     list_all (\<lambda>c. c \<notin> {CHR ''{'', CHR ''}'', CHR ''='', CHR 0x0A, CHR 0x0D, CHR 0x00}) s"

definition def_text :: "string \<times> string \<Rightarrow> string" where
  "def_text kv = fst kv @ '' = '' @ snd kv @ [CHR 0x0A]"

definition section_text :: "string \<times> (string \<times> string) list \<Rightarrow> string" where
  "section_text sec = (fst sec @ '' {'' @ [CHR 0x0A]) @ concat (map def_text (snd sec)) @ ''}'' @ [CHR 0x0A]"

definition def_ok :: "string \<times> string \<Rightarrow> bool" where
  "def_ok kv \<longleftrightarrow> word_ok (fst kv) \<and> word_ok (snd kv) \<and> length (fst kv) \<le> 32 \<and> length (def_text kv) \<le> 2047"

definition section_ok :: "string \<times> (string \<times> string) list \<Rightarrow> bool" where
  "section_ok sec \<longleftrightarrow> word_ok (fst sec) \<and> length (fst sec) \<le> 32 \<and> list_all def_ok (snd sec)"

definition mk_def :: "string \<times> string \<Rightarrow> apeconfig_def" where
  "mk_def kv = \<lparr>cd_val = snd kv, cd_key = fst kv\<rparr>"

definition mk_section :: "string \<times> (string \<times> string) list \<Rightarrow> apeconfig" where
  "mk_section sec = \<lparr>cf_def = rev (map mk_def (snd sec)), cf_section = fst sec\<rparr>"

section \<open>Lemmas\<close>

lemma takeWhile_none: "x \<notin> set xs \<Longrightarrow> takeWhile (\<lambda>c. c \<noteq> x) (xs @ x # ys) = xs"
  by (induction xs) auto

lemma fgets_line:
  assumes "CHR 0x0A \<notin> set l" and "CHR 0x00 \<notin> set l" and "length l < 2047"
  shows "fgets_lines (l @ CHR 0x0A # rest) = (l @ [CHR 0x0A]) # fgets_lines rest"
proof -
  have n: "line_length (l @ CHR 0x0A # rest) = Suc (length l)" using assms(1,3) by (simp add: line_length_def takeWhile_none)
  have "takeWhile (\<lambda>c. c \<noteq> CHR 0x00) (l @ [CHR 0x0A]) = l @ [CHR 0x0A]" using assms(2) by (induction l) auto
  then show ?thesis by (subst fgets_lines.simps) (simp add: n)
qed

lemma config_lines_append:
  "config_lines n ls st = Some (Inr st') \<Longrightarrow> config_lines n (ls @ ls') st = config_lines (n + length ls) ls' st'"
proof (induction ls arbitrary: n st)
  case (Cons l ls)
  then obtain r where r: "config_line (Suc n) l st = Some r" by (cases "config_line (Suc n) l st") simp_all
  show ?case
  proof (cases r)
    case (Inl e)
    then show ?thesis using Cons.prems r by simp
  next
    case (Inr st1)
    then show ?thesis using Cons.prems Cons.IH [of "Suc n" st1] r by simp
  qed
qed simp

lemma word_okD:
  assumes "word_ok s"
  shows "s \<noteq> []" "\<not> is_blank (hd s)" "\<not> is_blank (last s)" "hd s \<notin> {CHR ''#'', CHR 0x0D, CHR 0x0A}"
    "c \<in> {CHR ''{'', CHR ''}'', CHR ''='', CHR 0x0A, CHR 0x0D, CHR 0x00} \<Longrightarrow> c \<notin> set s"
  using assms hd_in_set [of s] by (auto simp: word_ok_def list_all_iff)

lemma trim_word:
  assumes "word_ok s" and "list_all is_blank b"
  shows "trim (s @ b) = Some s"
proof -
  have s: "s \<noteq> []" "\<not> is_blank (hd s)" "\<not> is_blank (last s)" using word_okD [OF assms(1)] by simp_all
  have "dropWhile is_blank (s @ b) = s @ b" using s by (cases s) simp_all
  moreover have "dropWhile is_blank (rev b @ rev s) = rev s"
    using assms(2) s by (subst dropWhile_append2) (auto simp: list_all_iff, cases s rule: rev_cases, auto)
  ultimately show ?thesis using s(1) by (simp add: trim_def)
qed

lemma trim_token_word:
  assumes "word_ok s"
  shows "trim_token (CHR '' '' # s @ [CHR 0x0A]) = s"
proof -
  have "trim (s @ [CHR 0x0A]) = Some s" by (rule trim_word [OF assms]) (simp add: is_blank_def)
  moreover have "dropWhile is_blank (CHR '' '' # s @ [CHR 0x0A]) = dropWhile is_blank (s @ [CHR 0x0A])" by (simp add: is_blank_def)
  ultimately show ?thesis by (simp add: trim_token_def trim_def Let_def split: if_splits)
qed

lemma explode_word:
  "CHR ''='' \<notin> set s \<Longrightarrow> i + 1 < limit \<Longrightarrow> explode_loop (CHR ''='') limit i cur (s @ rest) = explode_loop (CHR ''='') limit i (cur @ s) rest"
  by (induction s arbitrary: cur) auto

lemma parse_def_text:
  assumes "def_ok kv"
  shows "parse_def n (def_text kv) = Some (Inr (mk_def kv))"
proof -
  obtain k v where kv: "kv = (k, v)" by (cases kv)
  have w: "word_ok k" "word_ok v" "length k \<le> 32" using assms by (simp_all add: def_ok_def kv)
  have "CHR ''='' \<notin> set k" "CHR ''='' \<notin> set v" using word_okD(5) [of _ "CHR ''=''"] w by auto
  then have "explode (CHR ''='') (def_text kv) 3 = [k @ '' '', CHR '' '' # v @ [CHR 0x0A]]"
    using explode_word [of "k @ '' ''" 0 3 "[]" "''= '' @ v @ [CHR 0x0A]"] explode_word [of "CHR '' '' # v @ [CHR 0x0A]" 1 3 "[]" "[]"]
    by (simp add: explode_def def_text_def kv)
  moreover have "trim (k @ '' '') = Some k" by (rule trim_word [OF w(1)]) (simp add: is_blank_def)
  ultimately show ?thesis using trim_token_word [OF w(2)] w(3) by (simp add: parse_def_def mk_def_def kv)
qed

lemma def_line:
  assumes "def_ok kv"
  shows "config_line n (def_text kv) (True, c # cs) = Some (Inr (True, c\<lparr>cf_def := mk_def kv # cf_def c\<rparr> # cs))"
    and "fgets_lines (def_text kv @ rest) = def_text kv # fgets_lines rest"
proof -
  obtain k v where kv: "kv = (k, v)" by (cases kv)
  have w: "word_ok k" "word_ok v" using assms by (simp_all add: def_ok_def kv)
  have "hd (def_text kv) = hd k" "def_text kv \<noteq> []" using word_okD(1) [OF w(1)] by (simp_all add: def_text_def kv)
  moreover have "CHR ''}'' \<notin> set (def_text kv)" using word_okD(5) [of _ "CHR ''}''"] w by (auto simp: def_text_def kv)
  ultimately show "config_line n (def_text kv) (True, c # cs) = Some (Inr (True, c\<lparr>cf_def := mk_def kv # cf_def c\<rparr> # cs))"
    using word_okD(4) [OF w(1)] parse_def_text [OF assms, of n] by (simp add: config_line_def)
  have l: "def_text kv = (k @ '' = '' @ v) @ [CHR 0x0A]" by (simp add: def_text_def kv)
  have "length (k @ '' = '' @ v) < 2047" using assms l by (simp add: def_ok_def)
  then show "fgets_lines (def_text kv @ rest) = def_text kv # fgets_lines rest"
    using fgets_line [of "k @ '' = '' @ v" rest] word_okD(5) [OF w(1)] word_okD(5) [OF w(2)] by (auto simp: l)
qed

lemma def_lines:
  "list_all def_ok kvs \<Longrightarrow>
     config_lines n (map def_text kvs) (True, c # cs) = Some (Inr (True, c\<lparr>cf_def := rev (map mk_def kvs) @ cf_def c\<rparr> # cs))"
  by (induction kvs arbitrary: n c) (simp_all add: def_line(1))

lemma def_texts: "list_all def_ok kvs \<Longrightarrow> fgets_lines (concat (map def_text kvs) @ rest) = map def_text kvs @ fgets_lines rest"
  by (induction kvs) (simp_all add: def_line(2))

text \<open>The lines of a section.\<close>

definition section_lines :: "string \<times> (string \<times> string) list \<Rightarrow> string list" where
  "section_lines sec = (fst sec @ '' {'' @ [CHR 0x0A]) # map def_text (snd sec) @ [''}'' @ [CHR 0x0A]]"

lemma section_read:
  assumes "section_ok sec"
  shows "fgets_lines (section_text sec @ rest) = section_lines sec @ fgets_lines rest"
    and "config_lines n (section_lines sec) (False, conf) = Some (Inr (False, mk_section sec # conf))"
proof -
  obtain name kvs where sec: "sec = (name, kvs)" by (cases sec)
  have w: "word_ok name" "length name \<le> 32" "list_all def_ok kvs" using assms by (simp_all add: section_ok_def sec)
  have head: "CHR 0x0A \<notin> set (name @ '' {'')" "CHR 0x00 \<notin> set (name @ '' {'')" using word_okD(5) [OF w(1)] by auto
  show "fgets_lines (section_text sec @ rest) = section_lines sec @ fgets_lines rest"
    using fgets_line [OF head, of "concat (map def_text kvs) @ ''}'' @ CHR 0x0A # rest"] w(2) def_texts [OF w(3), of "''}'' @ CHR 0x0A # rest"]
      fgets_line [of "''}''" rest] by (simp add: section_text_def section_lines_def sec)
  have "takeWhile (\<lambda>c. c \<noteq> CHR ''{'') (name @ '' {'' @ [CHR 0x0A]) = name @ '' ''"
    using takeWhile_none [of "CHR ''{''" "name @ '' ''" "[CHR 0x0A]"] word_okD(5) [OF w(1), of "CHR ''{''"] by auto
  moreover have "trim (name @ '' '') = Some name" by (rule trim_word [OF w(1)]) (simp add: is_blank_def)
  moreover have "hd (name @ '' {'' @ [CHR 0x0A]) = hd name" using word_okD(1) [OF w(1)] by simp
  ultimately have 1: "config_line (Suc n) (name @ '' {'' @ [CHR 0x0A]) (False, conf) = Some (Inr (True, \<lparr>cf_def = [], cf_section = name\<rparr> # conf))"
    using word_okD(4) [OF w(1)] w(2) by (simp add: config_line_def open_section_def)
  have 2: "config_line m (''}'' @ [CHR 0x0A]) (True, c) = Some (Inr (False, c))" for m c by (simp add: config_line_def)
  show "config_lines n (section_lines sec) (False, conf) = Some (Inr (False, mk_section sec # conf))"
    using 1 config_lines_append [OF def_lines [OF w(3), of "Suc n" "\<lparr>cf_def = [], cf_section = name\<rparr>" conf], of "[''}'' @ [CHR 0x0A]]"] 2
    by (simp add: section_lines_def sec mk_section_def)
qed

lemma sections_read:
  "list_all section_ok secs \<Longrightarrow> config_lines n (fgets_lines (concat (map section_text secs))) (False, conf) = Some (Inr (False, rev (map mk_section secs) @ conf))"
proof (induction secs arbitrary: n conf)
  case Nil
  then show ?case by (simp add: fgets_lines.simps)
next
  case (Cons sec secs)
  then have s: "section_ok sec" by simp
  show ?case using Cons.IH [of "n + length (section_lines sec)" "mk_section sec # conf"] Cons.prems
      section_read(1) [OF s] config_lines_append [OF section_read(2) [OF s, of n conf]] by simp
qed

lemma get_section_append:
  "\<forall>c \<in> set cs. \<not> strcaseeq (cf_section c) sec \<Longrightarrow> ape_config_get_section (cs @ cs') sec = ape_config_get_section cs' sec"
  by (induction cs) auto

lemma get_def_append: "\<forall>d \<in> set ds. \<not> strcaseeq (cd_key d) key \<Longrightarrow> get_def (ds @ ds') key = get_def ds' key"
  by (induction ds) auto

lemma plugin_def_line:
  assumes "def_ok kv"
  shows "plugin_line (def_text kv) conf = Some (\<lparr>pc_key = fst kv, pc_value = snd kv\<rparr> # conf)"
proof -
  obtain k v where kv: "kv = (k, v)" by (cases kv)
  have w: "word_ok k" "word_ok v" using assms by (simp_all add: def_ok_def kv)
  have "CHR ''='' \<notin> set k" using word_okD(5) [of _ "CHR ''=''"] w by auto
  then have "explode (CHR ''='') (def_text kv) 2 = [k @ '' '', CHR '' '' # v @ [CHR 0x0A]]"
    using explode_word [of "k @ '' ''" 0 2 "[]" "''= '' @ v @ [CHR 0x0A]"] by (simp add: explode_def def_text_def kv)
  moreover have "trim (k @ '' '') = Some k" by (rule trim_word [OF w(1)]) (simp add: is_blank_def)
  moreover have "hd (def_text kv) = hd k" "def_text kv \<noteq> []" using word_okD(1) [OF w(1)] by (simp_all add: def_text_def kv)
  ultimately show ?thesis using trim_token_word [OF w(2)] word_okD(4) [OF w(1)] by (simp add: plugin_line_def kv)
qed

text \<open>A plugin finds the last value its file gives to a key.\<close>

lemma plugin_conf_roundtrip:
  assumes "list_all def_ok kvs"
  shows "\<exists>conf. plugin_parse_conf (Some (concat (map def_text kvs))) = Some conf \<and>
    plugin_get_conf conf key = map_of (rev kvs) key"
proof -
  have "plugin_lines (map def_text kvs) conf = Some (map (\<lambda>kv. \<lparr>pc_key = fst kv, pc_value = snd kv\<rparr>) (rev kvs) @ conf)" for conf
    using assms by (induction kvs arbitrary: conf) (simp_all add: plugin_def_line)
  moreover have "fgets_lines (concat (map def_text kvs)) = map def_text kvs"
    using def_texts [OF assms, of "[]"] by (simp add: fgets_lines.simps)
  moreover have "plugin_get_conf (map (\<lambda>kv. \<lparr>pc_key = fst kv, pc_value = snd kv\<rparr>) l) key = map_of l key" for l :: "(string \<times> string) list"
    by (induction l) auto
  ultimately show ?thesis by (simp add: plugin_parse_conf_def)
qed

section \<open>Correctness\<close>

text \<open>C40. Configuration. A file of well-formed sections is read completely: every section with all its definitions, the
  last one first. So a lookup, without regard to case, gives the value of the last definition of the
  key in the last section of that name.\<close>

theorem config_roundtrip:
  assumes "list_all section_ok (pre @ (sec, kvs @ (k, v) # later) # post)"
    and "strcaseeq sec s" and "\<forall>x \<in> set post. \<not> strcaseeq (fst x) s" and "strcaseeq k key" and "\<forall>x \<in> set later. \<not> strcaseeq (fst x) key"
  shows "\<exists>conf. ape_config_load (Some (concat (map section_text (pre @ (sec, kvs @ (k, v) # later) # post)))) = Some (Inr conf) \<and>
     conf = rev (map mk_section (pre @ (sec, kvs @ (k, v) # later) # post)) \<and> CONFIG_VAL s key conf = v"
proof -
  let ?secs = "pre @ (sec, kvs @ (k, v) # later) # post"
  have "ape_config_load (Some (concat (map section_text ?secs))) = Some (Inr (rev (map mk_section ?secs)))"
    using sections_read [OF assms(1), of 0 "[]"] by (simp add: ape_config_load_def)
  moreover have "ape_config_get_section (rev (map mk_section ?secs)) s = Some (mk_section (sec, kvs @ (k, v) # later))"
    using get_section_append [of "rev (map mk_section post)" s] assms(2,3) by (simp add: mk_section_def)
  moreover have "get_def (cf_def (mk_section (sec, kvs @ (k, v) # later))) key = Some v"
    using get_def_append [of "rev (map mk_def later)" key] assms(4,5) by (simp add: mk_section_def mk_def_def)
  ultimately show ?thesis by (simp add: CONFIG_VAL_def ape_config_get_key_def)
qed

theorem config_roundtrip_witness:
  "\<exists>conf. ape_config_load (Some (''Server {'' @ [CHR 0x0A] @ ''port = 6969'' @ [CHR 0x0A] @ ''}'' @ [CHR 0x0A])) = Some (Inr conf) \<and>
     CONFIG_VAL ''server'' ''PORT'' conf = ''6969''"
proof -
  have "list_all section_ok ([] @ (''Server'', [] @ (''port'', ''6969'') # []) # [])" "strcaseeq ''Server'' ''server''" "strcaseeq ''port'' ''PORT''" by code_simp+
  from config_roundtrip [OF this(1,2) _ this(3)] show ?thesis by (simp add: section_text_def def_text_def)
qed

text \<open>An updated key is found with its new value; a key that is not there is not added.\<close>

lemma set_key_get:
  "ape_config_get_key (ape_config_set_key conf key v) key = (if ape_config_get_key conf key = None then None else Some v)"
proof -
  have "get_def (set_def ds key v) key = (if get_def ds key = None then None else Some v)" for ds by (induction ds) auto
  then show ?thesis by (cases conf) (simp_all add: ape_config_get_key_def ape_config_set_key_def)
qed

end
