(* ===== verification/Ape_Select.thy ===== *)
theory Ape_Select
  imports Ape_Prelude
begin

text \<open>
  The portable multiplexer, from \<open>src/event_select.c\<close> and \<open>src/events.h\<close>: a table of 1024 descriptors, each with two bits per
  direction (in use, ready), and the array of the descriptors that the last poll found ready. \<open>select\<close>
  itself is a parameter. \<open>None\<close> is an access outside of the table or the array.
\<close>

section \<open>Data\<close>

definition MAX_SELECT_FDS :: nat where "MAX_SELECT_FDS = 1024"

definition EVENT_READ :: nat where "EVENT_READ = 1"

definition EVENT_WRITE :: nat where "EVENT_WRITE = 2"

record select_fd =
  sf_fd :: nat
  sf_read :: "2 word"
  sf_write :: "2 word"

text \<open>\<open>fv_events\<close> is the allocated array; a cell that was never written is \<open>None\<close>. Pointers into \<open>fds\<close> are indexes.\<close>

record fdevent =
  fv_basemem :: nat
  fv_fds :: "select_fd list"
  fv_events :: "nat option list"

text \<open>\<open>select(nfds, readfds, writefds, exceptfds, timeout)\<close>: \<open>None\<close> for a failure, otherwise what is left in the sets.
  The timeout is in seconds and microseconds.\<close>

type_synonym select_call = "nat \<Rightarrow> nat set \<Rightarrow> nat set \<Rightarrow> nat set \<Rightarrow> int \<times> int \<Rightarrow> (nat set \<times> nat set \<times> nat set) option"

section \<open>Operations\<close>

definition zero_fd :: select_fd where "zero_fd = \<lparr>sf_fd = 0, sf_read = 0, sf_write = 0\<rparr>"

definition upd_fd :: "int \<Rightarrow> (select_fd \<Rightarrow> select_fd) \<Rightarrow> fdevent \<Rightarrow> fdevent option" where
  "upd_fd fd f ev =
     (if 0 \<le> fd \<and> nat fd < length (fv_fds ev) then Some (ev\<lparr>fv_fds := (fv_fds ev)[nat fd := f (fv_fds ev ! nat fd)]\<rparr>) else None)"

definition event_select_add :: "fdevent \<Rightarrow> int \<Rightarrow> nat \<Rightarrow> (int \<times> fdevent) option" where
  "event_select_add ev fd bitadd =
     (if fd < 0 \<or> fd > int MAX_SELECT_FDS then Some (-1, ev)
      else do {
        ev \<leftarrow> upd_fd fd (\<lambda>x. x\<lparr>
           sf_read := (if bitadd AND EVENT_READ \<noteq> 0 then sf_read x OR 1 else sf_read x),
           sf_write := (if bitadd AND EVENT_WRITE \<noteq> 0 then sf_write x OR 1 else sf_write x),
           sf_fd := nat fd\<rparr>) ev;
        Some (1, ev) })"

definition event_select_remove :: "fdevent \<Rightarrow> int \<Rightarrow> (int \<times> fdevent) option" where
  "event_select_remove ev fd = do {
     ev \<leftarrow> upd_fd fd (\<lambda>x. x\<lparr>sf_read := 0, sf_write := 0\<rparr>) ev;
     Some (1, ev) }"

text \<open>The sets given to \<open>select\<close>, and the largest descriptor in them.\<close>

definition watched :: "(select_fd \<Rightarrow> bool) \<Rightarrow> fdevent \<Rightarrow> nat set" where
  "watched p ev = set (filter (\<lambda>fd. p (fv_fds ev ! fd)) [0..<MAX_SELECT_FDS])"

definition rfds :: "fdevent \<Rightarrow> nat set" where "rfds = watched (\<lambda>x. sf_read x \<noteq> 0)"

definition wfds :: "fdevent \<Rightarrow> nat set" where "wfds = watched (\<lambda>x. sf_write x \<noteq> 0)"

definition efds :: "fdevent \<Rightarrow> nat set" where "efds = watched (\<lambda>x. sf_read x \<noteq> 0 \<or> sf_write x \<noteq> 0)"

definition maxfd :: "fdevent \<Rightarrow> nat" where
  "maxfd ev = fold (\<lambda>fd m. if fd \<in> efds ev \<and> fd > m then fd else m) [0..<MAX_SELECT_FDS] 0"

definition mark :: "bool \<Rightarrow> 2 word \<Rightarrow> 2 word" where
  "mark ready b = (if ready then b OR 2 else b AND 1)"

definition marked :: "nat set \<Rightarrow> nat set \<Rightarrow> nat set \<Rightarrow> fdevent \<Rightarrow> select_fd list" where
  "marked r w e ev = map (\<lambda>fd. let x = fv_fds ev ! fd in
     if fd > maxfd ev \<or> fd \<in> e then x
     else x\<lparr>sf_read := mark (fd \<in> r) (sf_read x), sf_write := mark (fd \<in> w) (sf_write x)\<rparr>) [0..<length (fv_fds ev)]"

definition event_select_poll :: "select_call \<Rightarrow> fdevent \<Rightarrow> int \<Rightarrow> (int \<times> fdevent) option" where
  "event_select_poll sel ev timeout_ms =
     (case sel (maxfd ev + 1) (rfds ev) (wfds ev) (efds ev) (sgn timeout_ms * (\<bar>timeout_ms\<bar> div 1000), sgn timeout_ms * (\<bar>timeout_ms\<bar> mod 1000) * 1000) of
        None \<Rightarrow> Some (-1, ev)
      | Some (r, w, e) \<Rightarrow>
          let hits = filter (\<lambda>fd. fd \<in> r \<or> fd \<in> w) [0..<Suc (maxfd ev)] in
          if length hits \<le> length (fv_events ev)
          then Some (int (length hits), ev\<lparr>fv_fds := marked r w e ev, fv_events := map Some hits @ drop (length hits) (fv_events ev)\<rparr>)
          else None)"

definition current :: "fdevent \<Rightarrow> nat \<Rightarrow> select_fd option" where
  "current ev i = do {
     fd \<leftarrow> (if i < length (fv_events ev) then fv_events ev ! i else None);
     if fd < length (fv_fds ev) then Some (fv_fds ev ! fd) else None }"

definition event_select_get_fd :: "fdevent \<Rightarrow> nat \<Rightarrow> nat option" where
  "event_select_get_fd ev i = map_option sf_fd (current ev i)"

definition event_select_growup :: "fdevent \<Rightarrow> fdevent" where
  "event_select_growup ev = ev\<lparr>fv_events := take (fv_basemem ev) (fv_events ev) @ replicate (fv_basemem ev - length (fv_events ev)) None\<rparr>"

definition revent_bits :: "select_fd \<Rightarrow> nat" where
  "revent_bits x = (if sf_read x AND 2 \<noteq> 0 then EVENT_READ else 0) OR (if sf_write x AND 2 \<noteq> 0 then EVENT_WRITE else 0)"

definition reset :: "select_fd \<Rightarrow> select_fd" where
  "reset x = x\<lparr>sf_read := sf_read x AND 1, sf_write := sf_write x AND 1\<rparr>"

definition event_select_revent :: "fdevent \<Rightarrow> nat \<Rightarrow> (nat \<times> fdevent) option" where
  "event_select_revent ev i = do {
     fd \<leftarrow> event_select_get_fd ev i;
     bitret \<leftarrow> (if fd < length (fv_fds ev) then Some (revent_bits (fv_fds ev ! fd)) else None);
     ev \<leftarrow> upd_fd (int fd) reset ev;
     Some (bitret, ev) }"

definition event_select_reload :: "fdevent \<Rightarrow> fdevent" where
  "event_select_reload ev = ev\<lparr>fv_fds := replicate MAX_SELECT_FDS zero_fd\<rparr>"

text \<open>The array that \<open>event_select_init\<close> leaves has one byte, room for no pointer.\<close>

definition event_select_init :: "nat \<Rightarrow> fdevent" where
  "event_select_init basemem = \<lparr>fv_basemem = basemem, fv_fds = replicate MAX_SELECT_FDS zero_fd, fv_events = []\<rparr>"

text \<open>\<open>growup\<close> of \<open>sock.c\<close>, as \<open>prepare_ape_socket\<close> repeats it: what it does to the multiplexer. \<open>basemem\<close> is positive.\<close>

function prepare_events :: "nat \<Rightarrow> fdevent \<Rightarrow> fdevent" where
  "prepare_events fd ev =
     (if fv_basemem ev = 0 \<or> fd < fv_basemem ev then ev
      else prepare_events fd (event_select_growup (ev\<lparr>fv_basemem := fv_basemem ev * 2\<rparr>)))"
  by pat_completeness auto
termination
  by (relation "measure (\<lambda>(fd, ev). Suc fd - fv_basemem ev)") (auto simp: event_select_growup_def)

declare prepare_events.simps [simp del]

text \<open>The loop of \<open>sockroutine\<close> over the events of a poll: descriptor and directions of each.\<close>

fun event_round :: "nat list \<Rightarrow> fdevent \<Rightarrow> ((nat \<times> nat) list \<times> fdevent) option" where
  "event_round [] ev = Some ([], ev)"
| "event_round (i # is) ev = do {
     fd \<leftarrow> event_select_get_fd ev i;
     (bits, ev) \<leftarrow> event_select_revent ev i;
     (rest, ev) \<leftarrow> event_round is ev;
     Some ((fd, bits) # rest, ev) }"

section \<open>Invariant\<close>

text \<open>Between two polls no descriptor is marked ready, a descriptor in use is entered under its own number, and the array has
  room for it.\<close>

definition fd_inv :: "nat \<Rightarrow> nat \<Rightarrow> select_fd \<Rightarrow> bool" where
  "fd_inv room i x \<longleftrightarrow> sf_read x \<in> {0, 1} \<and> sf_write x \<in> {0, 1} \<and> (sf_read x \<noteq> 0 \<or> sf_write x \<noteq> 0 \<longrightarrow> sf_fd x = i \<and> i < room)"

definition fdevent_inv :: "fdevent \<Rightarrow> bool" where
  "fdevent_inv ev \<longleftrightarrow> length (fv_fds ev) = MAX_SELECT_FDS \<and> fv_basemem ev > 0 \<and>
     (\<forall>i < MAX_SELECT_FDS. fd_inv (length (fv_events ev)) i (fv_fds ev ! i))"

text \<open>\<open>select\<close> only takes descriptors out of the sets.\<close>

definition select_ok :: "select_call \<Rightarrow> bool" where
  "select_ok sel \<longleftrightarrow> (\<forall>n r w e tv r' w' e'. sel n r w e tv = Some (r', w', e') \<longrightarrow> r' \<subseteq> r \<and> w' \<subseteq> w \<and> e' \<subseteq> e)"

lemma fdevent_invD:
  assumes "fdevent_inv ev"
  shows "length (fv_fds ev) = MAX_SELECT_FDS" "i < MAX_SELECT_FDS \<Longrightarrow> fd_inv (length (fv_events ev)) i (fv_fds ev ! i)"
  using assms by (simp_all add: fdevent_inv_def)

lemma init_select_inv: "0 < basemem \<Longrightarrow> fdevent_inv (event_select_init basemem)"
  by (simp add: fdevent_inv_def event_select_init_def fd_inv_def zero_fd_def)

lemma upd_fd_inv:
  assumes "fdevent_inv ev" and "fd_inv (length (fv_events ev)) fd (f (fv_fds ev ! fd))" and "fd < MAX_SELECT_FDS"
  obtains ev' where "upd_fd (int fd) f ev = Some ev'" "fdevent_inv ev'" "length (fv_events ev') = length (fv_events ev)"
  using assms that by (auto simp: upd_fd_def fdevent_inv_def nth_list_update)

lemma add_inv:
  assumes "fdevent_inv ev" and "fd < MAX_SELECT_FDS" and "fd < length (fv_events ev)"
  shows "\<exists>ev'. event_select_add ev (int fd) bits = Some (1, ev') \<and> fdevent_inv ev'"
proof -
  have x: "fd_inv (length (fv_events ev)) fd (fv_fds ev ! fd)" by (rule fdevent_invD(2) [OF assms(1,2)])
  then have "fd_inv (length (fv_events ev)) fd ((fv_fds ev ! fd)\<lparr>
       sf_read := (if bits AND EVENT_READ \<noteq> 0 then sf_read (fv_fds ev ! fd) OR 1 else sf_read (fv_fds ev ! fd)),
       sf_write := (if bits AND EVENT_WRITE \<noteq> 0 then sf_write (fv_fds ev ! fd) OR 1 else sf_write (fv_fds ev ! fd)),
       sf_fd := fd\<rparr>)" using assms(3) by (auto simp: fd_inv_def)
  then show ?thesis using assms(2) by (auto simp: event_select_add_def intro: upd_fd_inv [OF assms(1) _ assms(2)])
qed

lemma remove_inv:
  assumes "fdevent_inv ev" and "fd < MAX_SELECT_FDS"
  shows "\<exists>ev'. event_select_remove ev (int fd) = Some (1, ev') \<and> fdevent_inv ev'"
proof -
  have "fd_inv (length (fv_events ev)) fd ((fv_fds ev ! fd)\<lparr>sf_read := 0, sf_write := 0\<rparr>)" by (simp add: fd_inv_def)
  then show ?thesis by (auto simp: event_select_remove_def intro: upd_fd_inv [OF assms(1) _ assms(2)])
qed

lemma fdevent_inv_room:
  "fdevent_inv ev \<Longrightarrow> length (fv_events ev) \<le> length evs \<Longrightarrow> fdevent_inv (ev\<lparr>fv_events := evs\<rparr>)"
  by (fastforce simp: fdevent_inv_def fd_inv_def)

lemma growup_inv:
  assumes "fdevent_inv ev" and "length (fv_events ev) \<le> fv_basemem ev"
  shows "fdevent_inv (event_select_growup ev)" "length (fv_events (event_select_growup ev)) = fv_basemem ev"
  using assms fdevent_inv_room [OF assms(1), of "take (fv_basemem ev) (fv_events ev) @ replicate (fv_basemem ev - length (fv_events ev)) None"]
  by (auto simp: event_select_growup_def)

text \<open>After a connection was prepared there is room for it, unless no call of \<open>growup\<close> was needed.\<close>

lemma prepare_events_inv:
  "fdevent_inv ev \<Longrightarrow> length (fv_events ev) \<le> fv_basemem ev \<Longrightarrow> fd < length (fv_events ev) \<or> fv_basemem ev \<le> fd \<Longrightarrow>
     fdevent_inv (prepare_events fd ev) \<and> length (fv_events (prepare_events fd ev)) \<le> fv_basemem (prepare_events fd ev) \<and>
     fd < length (fv_events (prepare_events fd ev))"
proof (induction fd ev rule: prepare_events.induct)
  case (1 fd ev)
  show ?case
  proof (cases "fd < fv_basemem ev")
    case True
    then show ?thesis using 1 by (subst (1 2 3 4) prepare_events.simps) auto
  next
    case False
    let ?e = "ev\<lparr>fv_basemem := fv_basemem ev * 2\<rparr>"
    have b: "fv_basemem ev \<noteq> 0" using 1(2) by (simp add: fdevent_inv_def)
    have "fdevent_inv ?e" using 1(2) by (simp add: fdevent_inv_def)
    then have g: "fdevent_inv (event_select_growup ?e)" "length (fv_events (event_select_growup ?e)) = fv_basemem ev * 2"
      using growup_inv [of ?e] 1(3) by simp_all
    have base: "fv_basemem (event_select_growup ?e) = fv_basemem ev * 2" by (simp add: event_select_growup_def)
    have e: "prepare_events fd ev = prepare_events fd (event_select_growup ?e)" using False b by (subst prepare_events.simps) simp
    show ?thesis unfolding e by (rule 1(1)) (use False b g base in auto)
  qed
qed

section \<open>A round\<close>

lemma mark_bits:
  assumes "b \<in> {0, 1 :: 2 word}"
  shows "mark ready b AND 1 = b" "mark ready b AND 2 \<noteq> 0 \<longleftrightarrow> ready" "b AND 2 = 0" "b AND 1 = b"
  using assms by (auto simp: mark_def)

definition reset_all :: "nat list \<Rightarrow> select_fd list \<Rightarrow> select_fd list" where
  "reset_all js fds = fold (\<lambda>j f. f[j := reset (f ! j)]) js fds"

lemma reset_all_nth:
  "n < length fds \<Longrightarrow> distinct js \<Longrightarrow> reset_all js fds ! n = (if n \<in> set js then reset (fds ! n) else fds ! n)"
  unfolding reset_all_def
proof (induction js arbitrary: fds)
  case (Cons j js)
  then show ?case by (cases "n = j") auto
qed simp

lemma reset_all_length: "length (reset_all js fds) = length fds"
  unfolding reset_all_def by (induction js arbitrary: fds) simp_all

lemma event_round_exact:
  assumes "\<forall>i \<in> set is. i < length (fv_events ev) \<and> fv_events ev ! i = Some (h i) \<and> h i < length (fv_fds ev) \<and> sf_fd (fv_fds ev ! h i) = h i"
    and "distinct (map h is)"
  shows "event_round is ev =
    Some (map (\<lambda>i. (h i, revent_bits (fv_fds ev ! h i))) is, ev\<lparr>fv_fds := reset_all (map h is) (fv_fds ev)\<rparr>)"
  using assms
proof (induction "is" arbitrary: ev)
  case Nil
  then show ?case by (simp add: reset_all_def)
next
  case (Cons i "is")
  let ?ev = "ev\<lparr>fv_fds := (fv_fds ev)[h i := reset (fv_fds ev ! h i)]\<rparr>"
  have i: "event_select_get_fd ev i = Some (h i)" "event_select_revent ev i = Some (revent_bits (fv_fds ev ! h i), ?ev)"
    using Cons.prems(1) by (simp_all add: event_select_get_fd_def event_select_revent_def current_def upd_fd_def)
  have o: "fv_fds ?ev ! h j = fv_fds ev ! h j" if "j \<in> set is" for j
  proof -
    have "h j \<noteq> h i" using Cons.prems(2) that by (metis distinct.simps(2) image_eqI image_set list.simps(9))
    then show ?thesis by simp
  qed
  have "event_round is ?ev =
    Some (map (\<lambda>i. (h i, revent_bits (fv_fds ?ev ! h i))) is, ?ev\<lparr>fv_fds := reset_all (map h is) (fv_fds ?ev)\<rparr>)"
    by (rule Cons.IH) (use Cons.prems o in auto)
  moreover have "map (\<lambda>i. (h i, revent_bits (fv_fds ?ev ! h i))) is = map (\<lambda>i. (h i, revent_bits (fv_fds ev ! h i))) is"
    using o by auto
  ultimately show ?case using i by (simp add: reset_all_def)
qed

lemma maxfd_bound:
  assumes "fd \<in> efds ev"
  shows "fd \<le> maxfd ev"
proof -
  have "m \<le> fold (\<lambda>fd m. if fd \<in> E \<and> fd > m then fd else m) xs m \<and>
      (\<forall>fd \<in> set xs \<inter> E. fd \<le> fold (\<lambda>fd m. if fd \<in> E \<and> fd > m then fd else m) xs m)" for E :: "nat set" and xs and m :: nat
  proof (induction xs arbitrary: m)
    case (Cons x xs)
    show ?case using Cons.IH [of m] Cons.IH [of x] by (auto intro: order_trans)
  qed simp
  moreover have "fd \<in> set [0..<MAX_SELECT_FDS]" using assms by (simp add: efds_def watched_def)
  ultimately show ?thesis using assms unfolding maxfd_def by blast
qed

lemma hits_sorted:
  assumes "A \<subseteq> {..n}"
  shows "filter (\<lambda>x. x \<in> A) [0..<Suc n] = sorted_list_of_set A"
proof -
  have "set (filter (\<lambda>x. x \<in> A) [0..<Suc n]) = A" using assms by (auto simp: less_Suc_eq_le simp del: upt_Suc)
  then show ?thesis by (metis sorted_list_of_set.idem_if_sorted_distinct sorted_wrt_filter sorted_upt distinct_filter distinct_upt)
qed

section \<open>Correctness\<close>

text \<open>What a descriptor is reported with. One with an exceptional condition is reported without a direction.\<close>

definition ready_bits :: "nat set \<Rightarrow> nat set \<Rightarrow> nat set \<Rightarrow> nat \<Rightarrow> nat" where
  "ready_bits r w e fd = (if fd \<in> e then 0 else (if fd \<in> r then EVENT_READ else 0) OR (if fd \<in> w then EVENT_WRITE else 0))"

lemma marked_length: "length (marked r w e ev) = length (fv_fds ev)"
  by (simp add: marked_def)

lemma marked_bits:
  assumes "fdevent_inv ev" and "fd < MAX_SELECT_FDS" and "fd \<le> maxfd ev"
  shows "revent_bits (marked r w e ev ! fd) = ready_bits r w e fd" "sf_fd (marked r w e ev ! fd) = sf_fd (fv_fds ev ! fd)"
proof -
  have "fd_inv (length (fv_events ev)) fd (fv_fds ev ! fd)" by (rule fdevent_invD(2) [OF assms(1,2)])
  then show "revent_bits (marked r w e ev ! fd) = ready_bits r w e fd" using assms fdevent_invD(1) [OF assms(1)] mark_bits
    by (auto simp: marked_def Let_def revent_bits_def ready_bits_def fd_inv_def)
  show "sf_fd (marked r w e ev ! fd) = sf_fd (fv_fds ev ! fd)" using assms fdevent_invD(1) [OF assms(1)] by (simp add: marked_def Let_def)
qed

lemma marked_reset:
  assumes "fdevent_inv ev" and "set js = r \<union> w" and "distinct js"
  shows "reset_all js (marked r w e ev) = fv_fds ev"
proof (rule nth_equalityI)
  show "length (reset_all js (marked r w e ev)) = length (fv_fds ev)" by (simp add: reset_all_length marked_length)
  fix n assume "n < length (reset_all js (marked r w e ev))"
  then have n: "n < length (fv_fds ev)" by (simp add: reset_all_length marked_length)
  then have "fd_inv (length (fv_events ev)) n (fv_fds ev ! n)" using fdevent_invD [OF assms(1)] by simp
  then have b: "sf_read (fv_fds ev ! n) \<in> {0, 1}" "sf_write (fv_fds ev ! n) \<in> {0, 1}" by (simp_all add: fd_inv_def)
  have "n \<notin> r \<union> w \<Longrightarrow> marked r w e ev ! n = fv_fds ev ! n"
    using n mark_bits(4) [OF b(1)] mark_bits(4) [OF b(2)] by (simp add: marked_def Let_def mark_def)
  moreover have "reset (marked r w e ev ! n) = fv_fds ev ! n"
    using n mark_bits [OF b(1)] mark_bits [OF b(2)] by (simp add: reset_def marked_def Let_def)
  ultimately show "reset_all js (marked r w e ev) ! n = fv_fds ev ! n" using n assms(2,3) by (simp add: reset_all_nth marked_length)
qed

text \<open>What \<open>select\<close> may answer.\<close>

lemma ready_fd:
  assumes "fdevent_inv ev" and "fd \<in> r \<union> w" and "r \<subseteq> rfds ev" and "w \<subseteq> wfds ev"
  shows "fd < MAX_SELECT_FDS \<and> fd < length (fv_events ev) \<and> sf_fd (fv_fds ev ! fd) = fd \<and> fd \<le> maxfd ev"
proof -
  have "fd \<in> efds ev" using assms(2-4) by (auto simp: efds_def rfds_def wfds_def watched_def)
  then show ?thesis using fdevent_invD(2) [OF assms(1), of fd] maxfd_bound by (auto simp: efds_def watched_def fd_inv_def)
qed

lemma poll_exact:
  assumes "fdevent_inv ev" and "r \<subseteq> rfds ev" and "w \<subseteq> wfds ev" and "0 \<le> t"
    and "sel (maxfd ev + 1) (rfds ev) (wfds ev) (efds ev) (t div 1000, t mod 1000 * 1000) = Some (r, w, e)"
  shows "finite (r \<union> w)" and "card (r \<union> w) \<le> length (fv_events ev)"
    and "event_select_poll sel ev t = Some (int (card (r \<union> w)), ev\<lparr>fv_fds := marked r w e ev,
      fv_events := map Some (sorted_list_of_set (r \<union> w)) @ drop (card (r \<union> w)) (fv_events ev)\<rparr>)"
proof -
  have sub: "r \<union> w \<subseteq> {..maxfd ev}" "r \<union> w \<subseteq> {..<length (fv_events ev)}" using ready_fd [OF assms(1) _ assms(2,3)] by auto
  then show fin: "finite (r \<union> w)" by (auto intro: finite_subset [of _ "{..maxfd ev}"])
  show room: "card (r \<union> w) \<le> length (fv_events ev)" using card_mono [OF _ sub(2)] by simp
  have tv: "(sgn t * (\<bar>t\<bar> div 1000), sgn t * (\<bar>t\<bar> mod 1000) * 1000) = (t div 1000, t mod 1000 * 1000)" using assms(4) by (auto simp: sgn_if)
  have hits: "filter (\<lambda>fd. fd \<in> r \<or> fd \<in> w) [0..<Suc (maxfd ev)] = sorted_list_of_set (r \<union> w)" using hits_sorted [OF sub(1)] by (simp del: upt_Suc)
  show "event_select_poll sel ev t = Some (int (card (r \<union> w)), ev\<lparr>fv_fds := marked r w e ev,
      fv_events := map Some (sorted_list_of_set (r \<union> w)) @ drop (card (r \<union> w)) (fv_events ev)\<rparr>)"
    unfolding event_select_poll_def tv using assms(5) room by (simp add: hits Let_def del: upt_Suc)
qed


text \<open>Descriptor 5 is watched in both directions and can be written.\<close>

definition sample_events :: fdevent where
  "sample_events = (event_select_init 8)\<lparr>fv_fds := (replicate MAX_SELECT_FDS zero_fd)[5 := \<lparr>sf_fd = 5, sf_read = 1, sf_write = 1\<rparr>],
     fv_events := replicate 8 None\<rparr>"


end
