(* ===== verification/Spec2Isabelle.thy ===== *)
theory Spec2Isabelle
  imports Ape_Channel_Correct Ape_Ticks Ape_Json_Roundtrip Ape_Server Ape_Config Ape_Select
begin

text \<open>
  \<^bold>\<open>A verified model of the APE server\<close>

  APE (Ajax Push Engine) is a single-threaded comet server in C. Browsers send HTTP requests or websocket
  frames that carry a JSON array of commands; the server keeps users, their connections (subusers), channels
  and pipes (public addresses), and pushes messages (raws) to the connections, at once or when a
  connection asks for them. The program is under \<open>src/src/\<close>; all file names below are relative to it.

  \<^bold>\<open>How the parts interact.\<close> Bytes arrive in the buffer of a socket (\<open>sock.c\<close>), a reader finds requests in
  them (\<open>process_http\<close> and \<open>process_websocket\<close> of \<open>http.c\<close>), the JSON of a request becomes a tree
  (\<open>json_parser.c\<close>, \<open>json.c\<close>), \<open>checkcmd\<close> of \<open>cmd.c\<close> runs its commands, these change users (\<open>users.c\<close>), channels
  (\<open>channel.c\<close>) and pipes (\<open>pipe.c\<close>) and post messages (\<open>raw.c\<close>), which \<open>send_raws\<close> writes as JSON with the
  framing of the connection's transport (\<open>transports.c\<close>, \<open>http.c\<close>) through \<open>sendbin\<close> (\<open>sock.c\<close>). A timer
  (\<open>ticks.c\<close>) calls \<open>check_timeout\<close> (\<open>users.c\<close>), which removes silent users and flushes queues. Users,
  channels and sessions are found in hash tables (\<open>hash.c\<close>).

  \<^bold>\<open>Theories.\<close>
  \<^item> \<open>Ape_Prelude\<close>: conventions, machine integers, C characters and strings, shared lemmas and collections.
  \<^item> \<open>Ape_Utils\<close> (\<open>utils.c\<close>): trimming, splitting, URL decoding, number formatting. Shown: buffers are not
    left, \<open>itos\<close> and \<open>urldecode\<close> round trips.
  \<^item> \<open>Ape_Hash\<close> (\<open>hash.c\<close>): the table with its items in an explicit heap, because chains and the global list
    share them. Shown: every sequence of updates refines updates of a finite map; freeing leaks nothing. The locale
    \<open>dictionary\<close> is the contract the users, sessions, channels and pipes rely on.
  \<^item> \<open>Ape_Json\<close> (\<open>json.c\<close>): trees, printing with the size estimate, copy, lookup. Shown: the estimate suffices,
    escaping can be undone, a copy prints alike.
  \<^item> \<open>Ape_Extend\<close> (\<open>extend.c\<close>): the properties of users, channels and pipes; locale \<open>property_store\<close>.
  \<^item> \<open>Ape_Sock\<close> (output of \<open>sock.c\<close>): partial writes and the output buffer; locale \<open>ordered_output\<close>. Shown: the
    bytes on the wire followed by those buffered are the bytes sent, per connection and in order.
  \<^item> \<open>Ape_Transports\<close> (\<open>transports.c\<close>, response headers of \<open>http.c\<close>, frame heads of \<open>raw.c\<close>).
  \<^item> \<open>Ape_State\<close> (\<open>main.h\<close>, \<open>users.h\<close>, \<open>channel.h\<close>, \<open>pipe.h\<close>, \<open>raw.h\<close>, event macros): the record of the server's
    state, \<open>acetables\<close>, with one heap per kind of object.
  \<^item> \<open>Ape_Raw\<close> (\<open>raw.c\<close>): messages with reference counts, slot pools, queues, \<open>send_raws\<close>.
  \<^item> \<open>Ape_Pipe\<close> (\<open>pipe.c\<close>): identifiers, pipes, descriptions.
  \<^item> \<open>Ape_World\<close>: the invariant of the shared state, that the two sides of every reference agree.
    \<open>Ape_Sample\<close>: a concrete state on which hypotheses are discharged.
  \<^item> \<open>Ape_Channel\<close>, \<open>Ape_Channel_Correct\<close> (\<open>channel.c\<close>): creation, joining, leaving, levels, bans.
  \<^item> \<open>Ape_Users\<close> (\<open>users.c\<close>, callbacks of \<open>servers.c\<close>), \<open>Ape_Cmd\<close> (\<open>cmd.c\<close>): definitions; \<open>Ape_Session\<close>,
    \<open>Ape_Deliver\<close>, \<open>Ape_Serve\<close>, \<open>Ape_Attach\<close>, \<open>Ape_Process\<close> and \<open>Ape_Timer\<close>: what each operation does to a
    consistent state, up to \<open>checkcmd\<close> and \<open>check_timeout\<close>; \<open>Ape_Users_Correct\<close>: the properties.
  \<^item> \<open>Ape_Ticks\<close> (\<open>ticks.c\<close>): the list of delays refines a list of absolute times.
  \<^item> \<open>Ape_Json_Parser\<close> (\<open>json_parser.c\<close>, \<open>json_callback\<close> and \<open>init_json_parser\<close> of \<open>json.c\<close>): the automaton with its tables, stack,
    parse buffer and escapes, and the callback that builds the tree. \<open>Ape_Json_Read\<close>: any text is read within stack and
    buffer, and what comes out is a typed tree; the locale \<open>json_consumer\<close> is what the automaton needs of a callback.
    \<open>Ape_Json_Roundtrip\<close>: a printed tree is read back as the same tree.
  \<^item> \<open>Ape_Base64\<close> (\<open>base64.c\<close>): encoder, decoder, agreement with the standard and round trip.
  \<^item> \<open>Ape_Websocket\<close>, \<open>Ape_Http\<close> (\<open>http.c\<close>, input buffer of \<open>sock.c\<close>): the in-place readers of frames and of requests.
  \<^item> \<open>Ape_Digest\<close> (\<open>sha1.c\<close>, \<open>md5.c\<close>): block functions on 64-bit registers, buffering, padding. Shown: however the input is
    cut into pieces, the digests are those of FIPS 180-1 and RFC 1321 on 32-bit words, HMAC that of RFC 2104 for keys up to 64 bytes.
  \<^item> \<open>Ape_Handshake\<close> (\<open>handle_http.c\<close>, ready callbacks of \<open>parser.c\<close>): the websocket handshake and the way of a request from
    its reader through the JSON parser to \<open>checkcmd\<close>. Shown: the accept value is standard, the handshake answers and
    switches its connection only, every request that respects the conditions is served.
  \<^item> \<open>Ape_Server\<close> (\<open>sockroutine\<close> and \<open>close_socket\<close> of \<open>sock.c\<close>, \<open>servers.c\<close>): the whole server as a step relation over accept, read,
    write, hang-up, timer and clock; the invariant of every reachable state, and that input and the timer are always dealt with.
  \<^item> \<open>Ape_Config\<close> (\<open>config.c\<close>, configuration files of \<open>plugins.c\<close>): reader, lookup, update; a written file is read back.
  \<^item> \<open>Ape_Select\<close> (\<open>event_select.c\<close>): the portable multiplexer; a round reports exactly the ready descriptors.

  \<^bold>\<open>Reading the model.\<close> An operation is a function from state to state; \<open>None\<close> is the value of every
  run that would follow a dangling or NULL pointer, leave a buffer, overflow a signed integer or not
  end. So a statement that an operation gives \<open>Some\<close> says that it returns and is memory safe. Released objects
  leave their heap and addresses are not used again. Errors the code reports are replies or
  values of the same functions.

  \<^bold>\<open>Parameters.\<close> The answers of the kernel's \<open>write\<close> and \<open>select\<close>, the random numbers, the plugins' callbacks, the
  functions of the timers, \<open>strtod\<close>, the text of the not-found page, which holds the date of the build, and the contents of
  uninitialised memory are arguments. The theorems on channels, users, commands and the server hold with no
  plugin loaded; the kernel is assumed to take some of the bytes it is given or to say that it would block. Of the C library
  the model has the behaviour of glibc on a 64-bit little-endian machine: \<open>sscanf\<close> and \<open>strtol\<close> saturate,
  \<open>atoi\<close> is \<open>strtol\<close> cut to 32 bits, plain \<open>char\<close> is signed.

  \<^bold>\<open>Bounds and fuel.\<close> There is no fuel: loops are structural, have a measure (the loop over a websocket
  buffer: the bytes left) or are partial functions for which a result is proved (the reader of HTTP requests, the
  draw of identifiers, the walks over lists that lose nodes meanwhile).

  \<^bold>\<open>Conditions.\<close> The model keeps the faults of the code, so the server's theorems carry the conditions under which these do not
  strike: \<open>request_ok\<close> and \<open>ws_request_ok\<close> of \<open>Ape_Handshake\<close> and \<open>read_ok\<close> and \<open>sole\<close> of \<open>Ape_Server\<close> name them. A write or
  hang-up event is a step when its handler returns; the handlers of input and of the timer are shown to return.

  \<^bold>\<open>Not modelled.\<close> The epoll and kqueue multiplexers, DNS, logging, process setup, the loading of plugins and the opening of
  listening and outgoing connections only call the operating system or a library; what sockroutine does for outgoing and
  delegated descriptors serves the modules only. Functions that only release memory at exit are left out, as is
  \<open>parse_uri\<close>, which nothing calls. \<open>proxy.c\<close> is marked unused; \<open>modules/\<close> and \<open>deps/\<close> are bindings and third-party code.
\<close>

end
